(* ===== verification/Prelude.thy ===== *)
theory Prelude
  imports Main "HOL-Library.Word" "HOL-Library.Monad_Syntax"
begin

text \<open>
  Shared ground of the development.
  \<^item> \<open>usize\<close> is the 64-bit size type of the supported targets, kept as \<open>nat\<close>; the
    wrapping and checked operations the code calls write the width out.
  \<^item> A run that panics on a failed assertion or \<open>expect\<close>, or that would break the
    safety contract of an unchecked access, has no value: operations return an
    \<open>option\<close> and \<open>None\<close> is that run. \<open>require\<close> is such a check.
  \<^item> \<open>completion\<close> tells a callback or an operation that returned from one that unwound,
    where the state after the unwinding is observable.
  \<^item> The remaining definitions model the parts of the Rust standard library that several
    components use: \<open>Vec::resize\<close>, \<open>div_ceil\<close>, \<open>trailing_zeros\<close>, decimal
    printing and parsing of unsigned integers, splitting of strings.
\<close>

unbundle bit_operations_syntax

section \<open>Lemma collections\<close>

named_theorems usize_simps \<open>wrapping operations in range\<close>
named_theorems run_simps \<open>evaluation of runs that may panic\<close>
named_theorems word_bit_simps \<open>single-bit reads of words built by masks and shifts\<close>

section \<open>Runs that may panic\<close>

datatype 'a completion = Completed 'a | Panicked

definition require :: "bool \<Rightarrow> unit option" where
  "require b = (if b then Some () else None)"

lemma require_simps [simp, run_simps]:
  "require True = Some ()"
  "require False = None"
  "(require b = Some u) = b"
  "(require b = None) = (\<not> b)"
  by (auto simp: require_def)

lemma require_bind [simp, run_simps]:
  "(require b \<bind> f = Some x) = (b \<and> f () = Some x)"
  "(require b \<bind> f = None) = (b \<longrightarrow> f () = None)"
  by (auto simp: require_def)

lemma bind_eq_Some_iff [run_simps]:
  "(m \<bind> f = Some y) = (\<exists>x. m = Some x \<and> f x = Some y)"
  by (cases m) auto

section \<open>The size type\<close>

type_synonym usize = nat

definition usize_range :: nat where
  "usize_range = 2 ^ 64"

definition wrapping_add :: "usize \<Rightarrow> usize \<Rightarrow> usize" where
  "wrapping_add a b = (a + b) mod usize_range"

definition wrapping_sub :: "usize \<Rightarrow> usize \<Rightarrow> usize" where
  "wrapping_sub a b = (if b \<le> a then a - b else a + usize_range - b)"

definition wrapping_mul :: "usize \<Rightarrow> usize \<Rightarrow> usize" where
  "wrapping_mul a b = (a * b) mod usize_range"

definition checked_add :: "usize \<Rightarrow> usize \<Rightarrow> usize option" where
  "checked_add a b = (if a + b < usize_range then Some (a + b) else None)"

definition saturating_mul :: "usize \<Rightarrow> usize \<Rightarrow> usize" where
  "saturating_mul a b = min (a * b) (usize_range - 1)"

text \<open>\<open>Option::ok_or\<close>.\<close>

definition ok_or :: "'e \<Rightarrow> 'a option \<Rightarrow> 'e + 'a" where
  "ok_or e v = (case v of Some x \<Rightarrow> Inr x | None \<Rightarrow> Inl e)"

lemma ok_or_iff: "ok_or e v = Inr x \<longleftrightarrow> v = Some x"
  by (auto simp: ok_or_def split: option.splits)

lemma usize_range_pos [simp]: "0 < usize_range"
  by (simp add: usize_range_def)

lemma usize_range_gt_1 [simp]: "Suc 0 < usize_range"
  by (simp add: usize_range_def)

lemma wrapping_add_in_range [usize_simps]:
  "a + b < usize_range \<Longrightarrow> wrapping_add a b = a + b"
  by (simp add: wrapping_add_def)

lemma wrapping_sub_in_range [usize_simps]:
  "b \<le> a \<Longrightarrow> wrapping_sub a b = a - b"
  by (simp add: wrapping_sub_def)

lemma wrapping_mul_in_range [usize_simps]:
  "a * b < usize_range \<Longrightarrow> wrapping_mul a b = a * b"
  by (simp add: wrapping_mul_def)

section \<open>Vectors\<close>

text \<open>\<open>Vec::resize\<close>: truncate, or extend with copies of the value.\<close>

definition vec_resize :: "nat \<Rightarrow> 'a \<Rightarrow> 'a list \<Rightarrow> 'a list" where
  "vec_resize n x xs = take n xs @ replicate (n - length xs) x"

lemma length_vec_resize [simp]: "length (vec_resize n x xs) = n"
  by (simp add: vec_resize_def)

lemma nth_vec_resize:
  "i < n \<Longrightarrow> vec_resize n x xs ! i = (if i < length xs then xs ! i else x)"
  by (simp add: vec_resize_def nth_append)

definition div_ceil :: "nat \<Rightarrow> nat \<Rightarrow> nat" where
  "div_ceil a b = a div b + (if a mod b = 0 then 0 else 1)"

lemma div_ceil_upper: "0 < b \<Longrightarrow> a \<le> div_ceil a b * b"
proof -
  assume "0 < b"
  then have "a mod b \<le> b" by simp
  moreover have "a = a div b * b + a mod b" by simp
  ultimately have "a \<le> a div b * b + b" by linarith
  then show ?thesis by (auto simp: div_ceil_def)
qed

lemma div_ceil_least:
  assumes b: "0 < b" and le: "a \<le> k * b"
  shows "div_ceil a b \<le> k"
proof (cases "a mod b = 0")
  case True
  have "a div b \<le> k * b div b" using le by (rule div_le_mono)
  with True b show ?thesis by (simp add: div_ceil_def)
next
  case False
  have "a = a div b * b + a mod b" by simp
  with False le have "a div b * b < k * b" by linarith
  with b have "a div b < k" by simp
  with False show ?thesis by (simp add: div_ceil_def)
qed

lemma split_64: "(i :: nat) = 64 * (i div 64) + i mod 64"
  by (rule mult_div_mod_eq[symmetric])

lemma lt_64_Suc_iff: "(i < 64 * (p + 1)) = (i div 64 \<le> (p :: nat))"
  by (simp add: less_Suc_eq_le[symmetric] div_less_iff_less_mult mult.commute)

lemma div_ceil_mono: "a \<le> a' \<Longrightarrow> 0 < b \<Longrightarrow> div_ceil a b \<le> div_ceil a' b"
  by (rule div_ceil_least) (auto intro: order_trans[OF _ div_ceil_upper])

section \<open>Words as bit blocks\<close>

definition trailing_zeros :: "'a::len word \<Rightarrow> nat" where
  "trailing_zeros w = length (takeWhile (\<lambda>i. \<not> bit w i) [0..<LENGTH('a)])"

lemma trailing_zeros_below:
  "i < trailing_zeros w \<Longrightarrow> \<not> bit w i"
proof -
  assume i: "i < trailing_zeros w"
  let ?p = "\<lambda>i. \<not> bit w i" and ?xs = "[0..<LENGTH('a)]"
  have "length (takeWhile ?p ?xs) \<le> length ?xs"
    by (rule length_takeWhile_le)
  with i have "?xs ! i = i"
    unfolding trailing_zeros_def by (metis add_0 diff_zero length_upt nth_upt order_less_le_trans)
  moreover have "takeWhile ?p ?xs ! i = ?xs ! i"
    using i unfolding trailing_zeros_def by (rule takeWhile_nth)
  moreover have "?p (takeWhile ?p ?xs ! i)"
    using i unfolding trailing_zeros_def by (metis nth_mem set_takeWhileD)
  ultimately show "\<not> bit w i" by simp
qed

lemma trailing_zeros_least:
  assumes "bit w i"
  shows "bit w (trailing_zeros w) \<and> trailing_zeros w \<le> i"
proof -
  let ?p = "\<lambda>i. \<not> bit w i" and ?xs = "[0..<LENGTH('a)]"
  have i: "i < LENGTH('a)" using assms by (rule bit_imp_le_length)
  have lt: "trailing_zeros w \<le> i"
    using assms trailing_zeros_below[of i w] by force
  then have "length (takeWhile ?p ?xs) < length ?xs"
    using i by (simp add: trailing_zeros_def)
  then have "\<not> ?p (?xs ! length (takeWhile ?p ?xs))"
    by (rule nth_length_takeWhile)
  with i lt show ?thesis
    by (simp add: trailing_zeros_def)
qed

lemma word_nonzero_has_bit: "w \<noteq> 0 \<Longrightarrow> \<exists>i. bit (w :: 'a::len word) i"
  by (metis bit_0_eq bit_word_eqI bot_apply bot_bool_def)

lemma bit_one_shifted [word_bit_simps]:
  "bit (push_bit n (1 :: 'a::len word)) i = (i = n \<and> i < LENGTH('a))"
  by (auto simp: bit_simps)

lemma and_shifted_one_nonzero [word_bit_simps]:
  "n < LENGTH('a) \<Longrightarrow> (w AND push_bit n (1 :: 'a::len word) \<noteq> 0) = bit w n"
  by (metis (no_types, lifting) bit_and_iff bit_one_shifted word_nonzero_has_bit bit_0_eq bot_apply
      bot_bool_def)

lemma unat_32_bound: "unat (w :: 32 word) < 4294967296"
  using unsigned_less[of w] by simp

lemma unat_64_bound: "unat (w :: 64 word) < 18446744073709551616"
  using unsigned_less[of w] by simp

lemma of_nat_unat_word [simp]: "of_nat (unat w) = (w :: 'a::len word)"
  by simp

lemma unat_of_nat_32: "n < 4294967296 \<Longrightarrow> unat (of_nat n :: 32 word) = n"
  by (simp add: unat_of_nat take_bit_nat_eq_self)

lemma unat_of_nat_64: "n < 18446744073709551616 \<Longrightarrow> unat (of_nat n :: 64 word) = n"
  by (simp add: unat_of_nat take_bit_nat_eq_self)

section \<open>Counting in an updated list\<close>

lemma length_filter_update:
  "i < length xs \<Longrightarrow>
   length (filter P (xs[i := x])) + (if P (xs ! i) then 1 else 0) =
   length (filter P xs) + (if P x then 1 else 0)"
proof (induction xs arbitrary: i)
  case (Cons y ys)
  show ?case
  proof (cases i)
    case (Suc j)
    with Cons.prems Cons.IH[of j] show ?thesis by (cases "P y") simp_all
  qed simp
qed simp

lemma sum_list_update_nat:
  "i < length xs \<Longrightarrow> sum_list (xs[i := x]) + xs ! i = sum_list xs + (x :: nat)"
proof (induction xs arbitrary: i)
  case (Cons y ys)
  show ?case
  proof (cases i)
    case (Suc j)
    with Cons.prems Cons.IH[of j] show ?thesis by simp
  qed simp
qed simp

lemma filter_all_iff_length: "(length (filter P xs) = length xs) = (\<forall>x \<in> set xs. P x)"
  by (metis filter_True length_filter_less less_irrefl)

section \<open>The first true entry of a list\<close>

definition first_true :: "bool list \<Rightarrow> nat option" where
  "first_true bs =
     (let n = length (takeWhile Not bs) in if n < length bs then Some n else None)"

lemma first_true_Nil: "first_true [] = None"
  by (simp add: first_true_def)

lemma first_true_Cons:
  "first_true (b # bs) = (if b then Some 0 else map_option Suc (first_true bs))"
  by (simp add: first_true_def Let_def)

lemma first_true_None_iff: "(first_true bs = None) = (True \<notin> set bs)"
  by (induction bs) (simp_all add: first_true_Nil first_true_Cons)

lemma first_true_Some_iff:
  "(first_true bs = Some i) = (i < length bs \<and> bs ! i \<and> (\<forall>j < i. \<not> bs ! j))"
proof (induction bs arbitrary: i)
  case Nil
  then show ?case by (simp add: first_true_Nil)
next
  case (Cons b bs)
  show ?case
  proof (cases b)
    case True
    then show ?thesis by (cases i) (auto simp: first_true_Cons)
  next
    case False
    then show ?thesis
      using Cons.IH[of "i - 1"] by (cases i) (auto simp: first_true_Cons less_Suc_eq_0_disj)
  qed
qed

lemma first_true_SomeI:
  "i < length bs \<Longrightarrow> bs ! i \<Longrightarrow> (\<And>j. j < i \<Longrightarrow> \<not> bs ! j) \<Longrightarrow> first_true bs = Some i"
  by (simp add: first_true_Some_iff)

lemma first_true_bound: "first_true bs = Some i \<Longrightarrow> i < length bs"
  by (simp add: first_true_Some_iff)

lemma first_true_append:
  "first_true (xs @ ys) =
     (case first_true xs of Some i \<Rightarrow> Some i
      | None \<Rightarrow> map_option (\<lambda>k. length xs + k) (first_true ys))"
proof (induction xs)
  case Nil
  then show ?case by (cases "first_true ys") (simp_all add: first_true_Nil)
next
  case (Cons b xs)
  then show ?case
    by (cases "first_true xs"; cases "first_true ys") (simp_all add: first_true_Cons)
qed

lemma first_true_replicate_True: "0 < n \<Longrightarrow> first_true (replicate n True) = Some 0"
  by (cases n) (simp_all add: first_true_def)

end
