(* ===== verification/Cpulist.thy ===== *)
theory Cpulist
  imports Prelude
begin

text \<open>
  Package \<open>cpulist\<close>: \<open>parse.rs\<close>, \<open>emit.rs\<close>, \<open>error.rs\<close>, \<open>item.rs\<close>.

  Strings are lists of bytes. The first section models what the two routines use of the
  Rust standard library (\<open>u32::from_str\<close>, \<open>to_string\<close>, \<open>str::split\<close>,
  \<open>str::split_once\<close>, collecting an iterator of results); the second the parser, the third
  the emitter; the last one proves that parsing what was emitted gives the sorted set of items
  back, and when the emitter panics.
\<close>

section \<open>Standard library\<close>

type_synonym item = "32 word"

datatype int_error_kind = Empty | InvalidDigit | PosOverflow

definition to_digit :: "char \<Rightarrow> nat option" where
  "to_digit c = (let n = of_char c in if 48 \<le> n \<and> n \<le> 57 then Some (n - 48) else None)"

fun parse_digits :: "nat \<Rightarrow> string \<Rightarrow> int_error_kind + nat" where
  "parse_digits acc [] = Inr acc"
| "parse_digits acc (c # cs) =
     (case to_digit c of
        None \<Rightarrow> Inl InvalidDigit
      | Some d \<Rightarrow>
          (if acc * 10 \<ge> 2 ^ 32 then Inl PosOverflow
           else if acc * 10 + d \<ge> 2 ^ 32 then Inl PosOverflow
           else parse_digits (acc * 10 + d) cs))"

definition parse_u32 :: "string \<Rightarrow> int_error_kind + item" where
  "parse_u32 s =
     (let r = (if s = [] then Inl Empty
               else if s = ''+'' \<or> s = ''-'' then Inl InvalidDigit
               else if hd s = CHR ''+'' then parse_digits 0 (tl s)
               else parse_digits 0 s)
      in map_sum id of_nat r)"

fun nat_to_string :: "nat \<Rightarrow> string" where
  "nat_to_string n =
     (if n < 10 then [char_of (48 + n)]
      else nat_to_string (n div 10) @ [char_of (48 + n mod 10)])"

declare nat_to_string.simps [simp del]

definition u32_to_string :: "item \<Rightarrow> string" where
  "u32_to_string w = nat_to_string (unat w)"

fun str_split :: "char \<Rightarrow> string \<Rightarrow> string list" where
  "str_split c [] = [[]]"
| "str_split c (x # xs) =
     (if x = c then [] # str_split c xs
      else (case str_split c xs of [] \<Rightarrow> [[x]] | p # ps \<Rightarrow> (x # p) # ps))"

fun split_once :: "char \<Rightarrow> string \<Rightarrow> (string \<times> string) option" where
  "split_once c [] = None"
| "split_once c (x # xs) =
     (if x = c then Some ([], xs)
      else map_option (\<lambda>(p, q). (x # p, q)) (split_once c xs))"

fun collect_results :: "('e + 'a) list \<Rightarrow> 'e + 'a list" where
  "collect_results [] = Inr []"
| "collect_results (Inl e # rs) = Inl e"
| "collect_results (Inr x # rs) =
     (case collect_results rs of Inl e \<Rightarrow> Inl e | Inr xs \<Rightarrow> Inr (x # xs))"

section \<open>Parsing\<close>

record cpulist_error =
  invalid_value :: string
  problem :: string
  cause :: "int_error_kind option"

definition error_new :: "string \<Rightarrow> string \<Rightarrow> cpulist_error" where
  "error_new v p = \<lparr>invalid_value = v, problem = p, cause = None\<rparr>"

definition error_caused_by :: "string \<Rightarrow> string \<Rightarrow> int_error_kind \<Rightarrow> cpulist_error" where
  "error_caused_by v p e = \<lparr>invalid_value = v, problem = p, cause = Some e\<rparr>"

definition parse_or :: "string \<Rightarrow> string \<Rightarrow> cpulist_error + item" where
  "parse_or s p = (case parse_u32 s of Inl e \<Rightarrow> Inl (error_caused_by s p e) | Inr x \<Rightarrow> Inr x)"

definition parse_single :: "string \<Rightarrow> cpulist_error + item" where
  "parse_single s =
     parse_or s ''part was not a range but could not be parsed as an integer either''"

definition step_range :: "item \<Rightarrow> item \<Rightarrow> item \<Rightarrow> item list" where
  "step_range s e stride =
     map (\<lambda>k. of_nat (unat s + k * unat stride)) [0..<(unat e - unat s) div unat stride + 1]"

definition parse_range :: "string \<Rightarrow> string \<Rightarrow> cpulist_error + item list" where
  "parse_range range_start range_end_inc =
     (case parse_or range_start ''range start could not be parsed as an integer'' of
        Inl e \<Rightarrow> Inl e
      | Inr s \<Rightarrow>
          (case (case split_once CHR '':'' range_end_inc of
                   Some (re, stride) \<Rightarrow>
                     (case parse_or re ''range end could not be parsed as an integer'' of
                        Inl e \<Rightarrow> Inl e
                      | Inr x \<Rightarrow>
                          (case parse_or stride
                                  ''range stride could not be parsed as an integer'' of
                             Inl e \<Rightarrow> Inl e
                           | Inr d \<Rightarrow> Inr (x, d)))
                 | None \<Rightarrow>
                     (case parse_or range_end_inc
                             ''range end could not be parsed as an integer'' of
                        Inl e \<Rightarrow> Inl e
                      | Inr x \<Rightarrow> Inr (x, 1))) of
             Inl e \<Rightarrow> Inl e
           | Inr (e, stride) \<Rightarrow>
               (if stride = 0 then
                  Inl (error_new (u32_to_string stride) ''range stride must not be zero'')
                else if s > e then
                  Inl (error_new (u32_to_string s @ ''-'' @ u32_to_string e)
                         ''range start must be <= end'')
                else Inr (step_range s e stride))))"

definition parse_part :: "string \<Rightarrow> cpulist_error + item list" where
  "parse_part part =
     (if part = [] then Inr []
      else (case split_once CHR ''-'' part of
              Some (range_start, range_end_inc) \<Rightarrow> parse_range range_start range_end_inc
            | None \<Rightarrow> map_sum id (\<lambda>x. [x]) (parse_single part)))"

definition parse :: "string \<Rightarrow> cpulist_error + item list" where
  "parse cpulist =
     (let parts = str_split CHR '','' cpulist;
          item_ranges = collect_results (map parse_part parts)
      in map_sum id (\<lambda>x. remdups_adj (sort (concat x))) item_ranges)"

section \<open>Emitting\<close>

text \<open>
  \<open>next_group\<close> is the \<open>fold_while\<close> over the remaining items, \<open>form_groups\<close> the loop
  around it. The checked additions are the ones of the code.
\<close>

definition item_checked_add :: "item \<Rightarrow> item \<Rightarrow> item option" where
  "item_checked_add a b = (if unat a + unat b < 2 ^ 32 then Some (a + b) else None)"

definition item_checked_sub :: "item \<Rightarrow> item \<Rightarrow> item option" where
  "item_checked_sub a b = (if b \<le> a then Some (a - b) else None)"

fun extend_group :: "item \<times> item \<Rightarrow> item list \<Rightarrow> (item \<times> item) option" where
  "extend_group g [] = Some g"
| "extend_group (start, len) (p # ps) = do {
     expected_next_p \<leftarrow> item_checked_add start len;
     if expected_next_p = p then do {
       new_len \<leftarrow> item_checked_add len 1;
       extend_group (start, new_len) ps
     } else Some (start, len)
   }"

fun next_group :: "item list \<Rightarrow> (item \<times> item) option" where
  "next_group [] = None"
| "next_group (p # ps) = extend_group (p, 1) ps"

lemma item_checked_add_unat:
  "item_checked_add a b = Some c \<Longrightarrow> unat c = unat a + unat b"
  by (auto simp: item_checked_add_def unat_word_ariths split: if_splits)

lemma extend_group_len:
  "extend_group (s, l) ps = Some (s', l') \<Longrightarrow> s' = s \<and> unat l \<le> unat l'"
proof (induction ps arbitrary: l)
  case (Cons p ps)
  then show ?case
    by (auto simp: bind_eq_Some_iff dest!: item_checked_add_unat split: if_splits) fastforce
qed simp

lemma next_group_len_pos: "next_group xs = Some (s, l) \<Longrightarrow> 0 < unat l"
  by (cases xs) (auto dest: extend_group_len)

lemma next_group_nonempty: "next_group xs = Some g \<Longrightarrow> xs \<noteq> []"
  by auto

function form_groups :: "item list \<Rightarrow> (item \<times> item) list option" where
  "form_groups [] = Some []"
| "form_groups (x # xs) =
     (case next_group (x # xs) of
        None \<Rightarrow> None
      | Some (start, len) \<Rightarrow>
          map_option (Cons (start, len)) (form_groups (drop (unat len) (x # xs))))"
  by pat_completeness auto
termination
proof (relation "measure length")
  fix x :: item and xs :: "item list" and g start len
  assume "next_group (x # xs) = Some g" and "(start, len) = g"
  then have "0 < unat len"
    by (metis next_group_len_pos)
  then show "(drop (unat len) (x # xs), x # xs) \<in> measure length"
    by simp
qed simp

fun emit_group :: "item \<times> item \<Rightarrow> string option" where
  "emit_group (start, len) =
     (if len = 1 then Some (u32_to_string start)
      else if len = 2 then do {
        second_processor_id \<leftarrow> item_checked_add start 1;
        Some (u32_to_string start @ '','' @ u32_to_string second_processor_id)
      } else do {
        past_end \<leftarrow> item_checked_add start len;
        last_processor_id \<leftarrow> item_checked_sub past_end 1;
        Some (u32_to_string start @ ''-'' @ u32_to_string last_processor_id)
      })"

fun emit_groups :: "string \<Rightarrow> (item \<times> item) list \<Rightarrow> string option" where
  "emit_groups result [] = Some result"
| "emit_groups result (g # gs) = do {
     text \<leftarrow> emit_group g;
     emit_groups ((if result \<noteq> [] then result @ '','' else result) @ text) gs
   }"

definition emit :: "item list \<Rightarrow> string option" where
  "emit items = do {
     groups \<leftarrow> form_groups (sort (remdups items));
     emit_groups [] groups
   }"


section \<open>Decimal text\<close>

lemma to_digit_char [simp]: "d < 10 \<Longrightarrow> to_digit (char_of (48 + d)) = Some d"
  by (simp add: to_digit_def of_char_of)

lemma parse_digits_nat_to_string:
  "n < 2 ^ 32 \<Longrightarrow> parse_digits 0 (nat_to_string n @ t) = parse_digits n t"
proof (induction n arbitrary: t rule: nat_to_string.induct)
  case (1 n)
  show ?case
  proof (cases "n < 10")
    case True
    then show ?thesis by (simp add: nat_to_string.simps[of n])
  next
    case False
    have "n div 10 * 10 + n mod 10 = n" by simp
    moreover from this have "\<not> 2147483648 \<le> 5 * (n div 10)" using 1(2) by simp
    ultimately show ?thesis
      using 1 False by (simp add: nat_to_string.simps[of n])
  qed
qed

lemma nat_to_string_digits:
  "c \<in> set (nat_to_string n) \<Longrightarrow> 48 \<le> (of_char c :: nat) \<and> (of_char c :: nat) \<le> 57"
proof (induction n rule: nat_to_string.induct)
  case (1 n)
  show ?case
  proof (cases "n < 10")
    case True
    with 1(2) show ?thesis by (simp add: nat_to_string.simps[of n] of_char_of)
  next
    case False
    have "48 + n mod 10 \<le> 57" by simp
    with False 1 show ?thesis
      by (auto simp: nat_to_string.simps[of n] of_char_of)
  qed
qed

lemma nat_to_string_not_Nil [simp]: "nat_to_string n \<noteq> []"
  by (simp add: nat_to_string.simps[of n])

lemma nat_to_string_no_sep [simp]:
  "CHR '','' \<notin> set (nat_to_string n)" "CHR ''-'' \<notin> set (nat_to_string n)"
  "CHR '':'' \<notin> set (nat_to_string n)" "CHR ''+'' \<notin> set (nat_to_string n)"
  by (auto dest!: nat_to_string_digits)

lemma parse_u32_to_string [simp]: "parse_u32 (u32_to_string w) = Inr w"
proof -
  let ?s = "nat_to_string (unat w)"
  have n: "unat w < 2 ^ 32" by (simp add: unat_32_bound)
  have "hd ?s \<noteq> CHR ''+''"
    using nat_to_string_no_sep(4)[of "unat w"] by (metis list.set_sel(1) nat_to_string_not_Nil)
  moreover have "?s \<noteq> ''+''" "?s \<noteq> ''-''"
    using nat_to_string_no_sep(2,4)[of "unat w"] by (metis list.set_intros(1))+
  moreover have "parse_digits 0 ?s = Inr (unat w)"
    using parse_digits_nat_to_string[OF n, of "[]"] by simp
  ultimately show ?thesis
    by (simp add: parse_u32_def u32_to_string_def)
qed

lemma parse_or_to_string [simp]: "parse_or (u32_to_string w) p = Inr w"
  by (simp add: parse_or_def)

section \<open>Splitting\<close>

lemma str_split_not_Nil [simp]: "str_split c xs \<noteq> []"
  by (induction xs) (auto split: list.splits)

lemma str_split_append:
  "str_split c (xs @ c # ys) = str_split c xs @ str_split c ys"
  by (induction xs) (auto split: list.splits)

lemma str_split_absent: "c \<notin> set xs \<Longrightarrow> str_split c xs = [xs]"
  by (induction xs) auto

lemma split_once_append: "c \<notin> set xs \<Longrightarrow> split_once c (xs @ c # ys) = Some (xs, ys)"
  by (induction xs) auto

lemma split_once_absent: "c \<notin> set xs \<Longrightarrow> split_once c xs = None"
  by (induction xs) auto

lemma collect_results_append:
  "collect_results rs = Inr xs \<Longrightarrow> collect_results qs = Inr ys \<Longrightarrow>
   collect_results (rs @ qs) = Inr (xs @ ys)"
  by (induction rs arbitrary: xs rule: collect_results.induct) (auto split: sum.splits)

text \<open>What the parts of a text denote, in order and before sorting.\<close>

definition denotes :: "string \<Rightarrow> item list \<Rightarrow> bool" where
  "denotes t xs =
     (\<exists>ls. collect_results (map parse_part (str_split CHR '','' t)) = Inr ls \<and> concat ls = xs)"

lemma denotes_append:
  "denotes t xs \<Longrightarrow> denotes u ys \<Longrightarrow> denotes (t @ CHR '','' # u) (xs @ ys)"
  by (auto simp: denotes_def str_split_append intro: collect_results_append)

lemma denotes_part: "CHR '','' \<notin> set t \<Longrightarrow> parse_part t = Inr xs \<Longrightarrow> denotes t xs"
  by (simp add: denotes_def str_split_absent)

lemma parse_denotes: "denotes t xs \<Longrightarrow> parse t = Inr (remdups_adj (sort xs))"
  by (auto simp: denotes_def parse_def)

lemma u32_to_string_text [simp]:
  "u32_to_string w \<noteq> []"
  "CHR '','' \<notin> set (u32_to_string w)" "CHR ''-'' \<notin> set (u32_to_string w)"
  "CHR '':'' \<notin> set (u32_to_string w)"
  by (simp_all add: u32_to_string_def)

lemma denotes_single: "denotes (u32_to_string w) [w]"
  by (rule denotes_part) (simp_all add: parse_part_def split_once_absent parse_single_def)

lemma denotes_range:
  "s \<le> e \<Longrightarrow> denotes (u32_to_string s @ ''-'' @ u32_to_string e) (step_range s e 1)"
  by (rule denotes_part)
     (auto simp: parse_part_def split_once_append split_once_absent parse_range_def)

section \<open>Groups\<close>

definition group_items :: "item \<times> item \<Rightarrow> nat list" where
  "group_items g = [unat (fst g)..<unat (fst g) + unat (snd g)]"

lemma extend_group_spec:
  assumes "sorted_wrt (<) (map unat ps)"
    and "\<forall>p \<in> set ps. unat s + unat l \<le> unat p"
    and "extend_group (s, l) ps = Some (s', l')"
  shows "s' = s \<and> unat l \<le> unat l' \<and> unat l' - unat l \<le> length ps
    \<and> map unat (take (unat l' - unat l) ps) = [unat s + unat l..<unat s + unat l']
    \<and> (\<forall>p \<in> set (drop (unat l' - unat l) ps). unat s + unat l' < unat p)"
  using assms
proof (induction ps arbitrary: l)
  case Nil
  then show ?case by simp
next
  case (Cons p ps)
  from Cons.prems(3) obtain e where e: "item_checked_add s l = Some e"
    by (auto simp: bind_eq_Some_iff)
  then have ue: "unat e = unat s + unat l" by (rule item_checked_add_unat)
  show ?case
  proof (cases "e = p")
    case True
    with Cons.prems(3) e obtain n where n: "item_checked_add l 1 = Some n"
      and ext: "extend_group (s, n) ps = Some (s', l')"
      by (auto simp: bind_eq_Some_iff)
    from n have un: "unat n = unat l + 1" by (auto dest: item_checked_add_unat)
    have "\<forall>q \<in> set ps. unat s + unat n \<le> unat q"
      using Cons.prems(1) True ue un by auto
    with Cons.IH[OF _ _ ext] Cons.prems(1)
    have IH: "s' = s" "unat n \<le> unat l'" "unat l' - unat n \<le> length ps"
      "map unat (take (unat l' - unat n) ps) = [unat s + unat n..<unat s + unat l']"
      "\<forall>p \<in> set (drop (unat l' - unat n) ps). unat s + unat l' < unat p"
      by auto
    have d: "unat l' - unat l = Suc (unat l' - unat n)"
      using IH(2) un by simp
    have "[unat s + unat l..<unat s + unat l'] = unat p # [unat s + unat n..<unat s + unat l']"
      using True ue un IH(2) by (subst upt_conv_Cons) auto
    with IH d un show ?thesis by simp
  next
    case False
    with Cons.prems(3) e have "s' = s" "l' = l" by auto
    moreover have "unat s + unat l < unat p"
      using False ue Cons.prems(2) by (metis le_neq_implies_less list.set_intros(1) word_unat_eq_iff)
    ultimately show ?thesis
      using Cons.prems(1) by fastforce
  qed
qed

text \<open>Splitting a strictly sorted list into maximal groups loses nothing.\<close>

lemma form_groups_spec:
  "form_groups xs = Some gs \<Longrightarrow> sorted_wrt (<) (map unat xs) \<Longrightarrow>
   concat (map group_items gs) = map unat xs
   \<and> (\<forall>g \<in> set gs. 0 < unat (snd g))
   \<and> (\<forall>g \<in> set gs. \<forall>x \<in> set (group_items g).
        Suc x \<in> unat ` set xs \<longrightarrow> Suc x \<in> set (group_items g))"
proof (induction xs arbitrary: gs rule: form_groups.induct)
  case 1
  then show ?case by simp
next
  case (2 x xs)
  from 2(2) obtain l gs' where ng: "next_group (x # xs) = Some (x, l)"
    and rest: "form_groups (drop (unat l) (x # xs)) = Some gs'" and gs: "gs = (x, l) # gs'"
    by (auto split: option.splits dest!: extend_group_len)
  have lpos: "0 < unat l" using ng by (rule next_group_len_pos)
  have "\<forall>p \<in> set xs. unat x + unat (1 :: item) \<le> unat p"
    using 2(3) by auto
  with extend_group_spec[of xs x 1 x l] ng 2(3)
  have sp: "unat l - 1 \<le> length xs"
    "map unat (take (unat l - 1) xs) = [unat x + 1..<unat x + unat l]"
    "\<forall>p \<in> set (drop (unat l - 1) xs). unat x + unat l < unat p"
    by auto
  have dl: "drop (unat l) (x # xs) = drop (unat l - 1) xs"
    using lpos by (cases "unat l") auto
  have hd: "group_items (x, l) = map unat (x # take (unat l - 1) xs)"
    using sp(2) lpos by (simp add: group_items_def upt_conv_Cons)
  have srt: "sorted_wrt (<) (map unat (drop (unat l) (x # xs)))"
    using 2(3) by (metis drop_map sorted_wrt_drop)
  have IH: "concat (map group_items gs') = map unat (drop (unat l) (x # xs))"
    "\<forall>g \<in> set gs'. 0 < unat (snd g)"
    "\<forall>g \<in> set gs'. \<forall>y \<in> set (group_items g).
       Suc y \<in> unat ` set (drop (unat l) (x # xs)) \<longrightarrow> Suc y \<in> set (group_items g)"
    using 2(1)[OF ng refl rest srt] by auto
  have tk: "unat ` set (take (unat l - 1) xs) = {unat x + 1..<unat x + unat l}"
    using arg_cong[OF sp(2), of set] by simp
  have "set xs = set (take (unat l - 1) xs) \<union> set (drop (unat l - 1) xs)"
    by (metis append_take_drop_id set_append)
  then have all: "unat ` set (x # xs) = insert (unat x) ({unat x + 1..<unat x + unat l}
      \<union> unat ` set (drop (unat l) (x # xs)))"
    using tk dl by (simp add: image_Un)
  have far: "\<forall>v \<in> unat ` set (drop (unat l) (x # xs)). unat x + unat l < v"
    using sp(3) dl by simp
  have "concat (map group_items gs) = map unat (x # xs)"
    using IH(1) hd dl gs by (simp flip: map_append)
  moreover have "\<forall>g \<in> set gs. 0 < unat (snd g)"
    using IH(2) lpos gs by simp
  moreover have "Suc y \<in> set (group_items g)"
    if g: "g \<in> set gs" and y: "y \<in> set (group_items g)" and sy: "Suc y \<in> unat ` set (x # xs)" for g y
  proof (cases "g = (x, l)")
    case True
    then have yb: "unat x \<le> y" "y < unat x + unat l" using y by (simp_all add: group_items_def)
    then have "Suc y \<noteq> unat x" "\<not> unat x + unat l < Suc y" by simp_all
    moreover from this(2) far have "Suc y \<notin> unat ` set (drop (unat l) (x # xs))" by metis
    ultimately have "Suc y \<in> {unat x + 1..<unat x + unat l}"
      using sy unfolding all by (metis UnE insertE)
    then show ?thesis using True by (simp add: group_items_def)
  next
    case False
    then have g': "g \<in> set gs'" using g gs by simp
    have "set (group_items g) \<subseteq> unat ` set (drop (unat l) (x # xs))"
      using g' arg_cong[OF IH(1), of set] by auto
    then have "y \<in> unat ` set (drop (unat l) (x # xs))" using y by (rule subsetD)
    with far have "unat x + unat l < y" by (rule bspec)
    then have "Suc y \<noteq> unat x" "Suc y \<notin> {unat x + 1..<unat x + unat l}" by simp_all
    with sy have "Suc y \<in> unat ` set (drop (unat l) (x # xs))"
      unfolding all by (metis UnE insertE)
    with IH(3) g' y show ?thesis by blast
  qed
  ultimately show ?case by blast
qed

text \<open>The three largest items together are what the emitter cannot handle.\<close>

definition top_run :: "nat set" where
  "top_run = {4294967293, 4294967294, 4294967295}"

lemma extend_group_None:
  assumes "sorted_wrt (<) (map unat ps)" and "\<forall>p \<in> set ps. unat s + unat l \<le> unat p"
    and "0 < unat l" and "extend_group (s, l) ps = None"
  shows "top_run \<subseteq> {unat s..<unat s + unat l} \<union> unat ` set ps"
  using assms
proof (induction ps arbitrary: l)
  case Nil
  then show ?case by simp
next
  case (Cons p ps)
  have pb: "unat p < 4294967296" by (rule unat_32_bound)
  with Cons.prems(2) have sl: "unat s + unat l \<le> unat p" "unat s + unat l < 4294967296" by auto
  then have e: "item_checked_add s l = Some (s + l)" "unat (s + l) = unat s + unat l"
    by (auto simp: item_checked_add_def unat_word_ariths)
  with Cons.prems(4) have p: "s + l = p" by (auto split: if_splits)
  show ?case
  proof (cases "item_checked_add l 1")
    case None
    then have "unat l + 1 \<ge> 4294967296" by (simp add: item_checked_add_def split: if_splits)
    with sl pb have "unat s = 0" "unat l = 4294967295" by linarith+
    then show ?thesis using p e by (auto simp: top_run_def)
  next
    case (Some n)
    then have n: "unat n = unat l + 1" by (auto dest: item_checked_add_unat)
    have "\<forall>q \<in> set ps. unat s + unat n \<le> unat q" using Cons.prems(1) p e n by auto
    moreover have "extend_group (s, n) ps = None" using Cons.prems(4) p e Some by simp
    ultimately have "top_run \<subseteq> {unat s..<unat s + unat n} \<union> unat ` set ps"
      using Cons.IH[of n] Cons.prems(1) n by simp
    moreover have "{unat s..<unat s + unat n} \<subseteq> insert (unat p) {unat s..<unat s + unat l}"
      using n p e by auto
    ultimately show ?thesis by auto
  qed
qed

lemma form_groups_None:
  "form_groups xs = None \<Longrightarrow> sorted_wrt (<) (map unat xs) \<Longrightarrow> top_run \<subseteq> unat ` set xs"
proof (induction xs rule: form_groups.induct)
  case 1
  then show ?case by simp
next
  case (2 x xs)
  show ?case
  proof (cases "next_group (x # xs)")
    case None
    have "\<forall>p \<in> set xs. unat x + unat (1 :: item) \<le> unat p" using 2(3) by auto
    with extend_group_None[of xs x 1] None 2(3) show ?thesis by auto
  next
    case (Some g)
    obtain s l where g: "g = (s, l)" by force
    have "sorted_wrt (<) (map unat (drop (unat l) (x # xs)))"
      using 2(3) by (metis drop_map sorted_wrt_drop)
    with 2(1)[OF Some] 2(2) Some g
    have "top_run \<subseteq> unat ` set (drop (unat l) (x # xs))" by auto
    then show ?thesis
      using set_drop_subset[of "unat l" "x # xs"] by (blast dest: subsetD)
  qed
qed

section \<open>Texts of groups\<close>

lemma group_items_word:
  "unat s + unat l \<le> 4294967296 \<Longrightarrow> map unat (map of_nat (group_items (s, l)) :: item list) = group_items (s, l)"
  by (auto simp: group_items_def unat_of_nat_32 intro!: map_idI)

lemma step_range_group:
  assumes "unat s \<le> unat e" "unat e + 1 = unat s + unat l"
  shows "step_range s e 1 = map of_nat (group_items (s, l))"
proof -
  have n: "unat e - unat s + 1 = unat l" using assms by simp
  have "map (\<lambda>k. k + unat s) [0..<unat l] = [unat s..<unat s + unat l]"
    by (simp add: map_add_upt add.commute)
  from arg_cong[OF this, of "map (of_nat :: nat \<Rightarrow> item)"] n show ?thesis
    by (simp add: step_range_def group_items_def comp_def add.commute)
qed

lemma emit_group_denotes:
  assumes "emit_group (s, l) = Some t" and "0 < unat l"
  shows "t \<noteq> [] \<and> denotes t (map of_nat (group_items (s, l)))"
proof -
  consider (one) "l = 1" | (two) "l = 2" | (more) "l \<noteq> 1" "l \<noteq> 2" by blast
  then show ?thesis
  proof cases
    case one
    with assms show ?thesis by (auto simp: group_items_def denotes_single)
  next
    case two
    with assms(1) obtain b where b: "item_checked_add s 1 = Some b"
      and t: "t = u32_to_string s @ '','' @ u32_to_string b"
      by (auto simp: bind_eq_Some_iff)
    from b have "unat b = unat s + 1" by (auto dest: item_checked_add_unat)
    moreover have "[unat s..<unat s + 2] = [unat s, unat s + 1]" by (simp add: upt_rec)
    ultimately have "group_items (s, l) = [unat s, unat b]"
      using two by (simp add: group_items_def)
    then have "map of_nat (group_items (s, l)) = [s, b]" by simp
    with t show ?thesis
      using denotes_append[OF denotes_single[of s] denotes_single[of b]] by simp
  next
    case more
    with assms(1) obtain q e where q: "item_checked_add s l = Some q"
      and e: "item_checked_sub q 1 = Some e"
      and t: "t = u32_to_string s @ ''-'' @ u32_to_string e"
      by (auto simp: bind_eq_Some_iff)
    from q have uq: "unat q = unat s + unat l" by (rule item_checked_add_unat)
    from e have "1 \<le> q" "e = q - 1" by (auto simp: item_checked_sub_def split: if_splits)
    then have ue: "unat e + 1 = unat s + unat l"
      using uq by (simp add: unat_sub word_le_nat_alt)
    then have "s \<le> e" using assms(2) by (simp add: word_le_nat_alt)
    then have "denotes t (step_range s e 1)" unfolding t by (rule denotes_range)
    with t step_range_group[OF _ ue] \<open>s \<le> e\<close> show ?thesis
      by (simp add: word_le_nat_alt)
  qed
qed

lemma emit_groups_denotes:
  assumes "emit_groups acc gs = Some out" and "acc \<noteq> []" and "denotes acc xs"
    and "\<forall>g \<in> set gs. 0 < unat (snd g)"
  shows "denotes out (xs @ concat (map (\<lambda>g. map of_nat (group_items g)) gs))"
  using assms
proof (induction gs arbitrary: acc xs)
  case Nil
  then show ?case by simp
next
  case (Cons g gs)
  obtain s l where g: "g = (s, l)" by force
  from Cons.prems(1) obtain t where t: "emit_group g = Some t"
    and rest: "emit_groups (acc @ '','' @ t) gs = Some out"
    using Cons.prems(2) by (auto simp: bind_eq_Some_iff)
  have dt: "denotes t (map of_nat (group_items g))"
    using emit_group_denotes t Cons.prems(4) g by simp
  have "denotes (acc @ '','' @ t) (xs @ map of_nat (group_items g))"
    using denotes_append[OF Cons.prems(3) dt] by simp
  from Cons.IH[OF rest _ this] Cons.prems(4) show ?case by simp
qed

lemma emit_groups_top_denotes:
  assumes "emit_groups [] gs = Some out" and "\<forall>g \<in> set gs. 0 < unat (snd g)"
  shows "denotes out (concat (map (\<lambda>g. map of_nat (group_items g)) gs))"
proof (cases gs)
  case Nil
  with assms show ?thesis by (simp add: denotes_def parse_part_def)
next
  case (Cons g gs')
  obtain s l where g: "g = (s, l)" by force
  with Cons assms(1) obtain t where t: "emit_group (s, l) = Some t"
    and rest: "emit_groups t gs' = Some out"
    by (auto simp: bind_eq_Some_iff simp del: emit_group.simps)
  have "t \<noteq> [] \<and> denotes t (map of_nat (group_items (s, l)))"
    using emit_group_denotes[OF t] assms(2) Cons g by simp
  with emit_groups_denotes[OF rest] assms(2) Cons g show ?thesis by simp
qed

lemma emit_groups_None:
  "(emit_groups acc gs = None) = (\<exists>g \<in> set gs. emit_group g = None)"
proof (induction gs arbitrary: acc)
  case (Cons g gs)
  then show ?case by (cases "emit_group g") auto
qed simp

lemma emit_group_None:
  assumes "emit_group (s, l) = None" and "unat s + unat l \<le> 4294967296"
    and "0 < unat l"
  shows "top_run \<subseteq> set (group_items (s, l))"
proof -
  have l12: "l \<noteq> 1"
    using assms(1) by auto
  have l2: "l \<noteq> 2"
    using assms by (auto simp: item_checked_add_def split: if_splits)
  have "unat l \<noteq> unat (1 :: item)" "unat l \<noteq> unat (2 :: item)"
    using l12 l2 by (auto simp: word_unat_eq_iff)
  then have "unat l \<noteq> 1" "unat l \<noteq> 2" by simp_all
  with assms(3) have l3: "3 \<le> unat l" by simp
  have "unat s + unat l = 4294967296"
  proof (rule ccontr)
    assume "unat s + unat l \<noteq> 4294967296"
    with assms(2) have "item_checked_add s l = Some (s + l)" "unat (s + l) = unat s + unat l"
      by (simp_all add: item_checked_add_def unat_word_ariths)
    with assms(1) l12 l2 l3 show False
      by (auto simp: item_checked_sub_def word_le_nat_alt split: if_splits)
  qed
  with l3 show ?thesis by (auto simp: group_items_def top_run_def)
qed

declare emit_group.simps [simp del]

section \<open>Correctness of the format\<close>

lemma sorted_remdups_unat:
  "sorted_wrt (<) (map unat (sort (remdups (xs :: item list))))"
proof -
  have "sorted (map unat (sort (remdups xs)))"
    by (rule sorted_map_mono[OF sorted_sort]) (auto simp: monotone_on_def word_le_nat_alt)
  moreover have "distinct (map unat (sort (remdups xs)))"
    by (simp add: distinct_map inj_on_def word_unat_eq_iff)
  ultimately show ?thesis by (simp add: strict_sorted_iff)
qed

lemma remdups_adj_sorted_distinct:
  "distinct xs \<Longrightarrow> remdups_adj (sort (sort xs)) = sort (xs :: item list)"
  by (simp add: remdups_adj_distinct sorted_sort_id)

lemma group_bound:
  assumes "concat (map group_items gs) = map unat (xs :: item list)"
    and "(s, l) \<in> set gs" and "0 < unat l"
  shows "unat s + unat l \<le> 4294967296"
proof -
  have "unat s + unat l - 1 \<in> set (group_items (s, l))"
    using assms(3) by (simp add: group_items_def)
  then have "unat s + unat l - 1 \<in> unat ` set xs"
    using arg_cong[OF assms(1), of set] assms(2) by auto
  then show ?thesis using unat_32_bound assms(3) by (smt (verit) One_nat_def image_iff
      Suc_pred add_gr_0 less_eq_Suc_le)
qed

lemma emit_succeeds:
  assumes "\<not> top_run \<subseteq> unat ` set items"
  shows "\<exists>s. emit items = Some s \<and> denotes s (sort (remdups items))"
proof -
  let ?xs = "sort (remdups items)"
  have st: "set ?xs = set items" by simp
  obtain gs where gs: "form_groups ?xs = Some gs"
    using form_groups_None[OF _ sorted_remdups_unat] assms st by fastforce
  note spec = form_groups_spec[OF gs sorted_remdups_unat]
  have cc: "concat (map group_items gs) = map unat ?xs"
    and pos: "\<forall>g \<in> set gs. 0 < unat (snd g)" using spec by auto
  have "emit_group g \<noteq> None" if "g \<in> set gs" for g
  proof
    assume none: "emit_group g = None"
    obtain s l where g: "g = (s, l)" by force
    have b: "unat s + unat l \<le> 4294967296"
      using group_bound[OF cc] that pos g by auto
    have "set (group_items g) \<subseteq> unat ` set ?xs"
      using arg_cong[OF cc, of set] that by auto
    moreover have "top_run \<subseteq> set (group_items g)"
      using emit_group_None[OF none[unfolded g] b] that pos unfolding g by force
    ultimately show False using assms st by (metis order_trans)
  qed
  then obtain out where out: "emit_groups [] gs = Some out"
    using emit_groups_None[of "[]" gs] by fastforce
  have "concat (map (\<lambda>g. map of_nat (group_items g)) gs) = ?xs"
    using arg_cong[OF cc, of "map (of_nat :: nat \<Rightarrow> item)"]
    by (simp add: map_concat comp_def)
  with emit_groups_top_denotes[OF out pos] out gs show ?thesis
    by (auto simp: emit_def)
qed

lemma emit_fails:
  assumes "top_run \<subseteq> unat ` set items"
  shows "emit items = None"
proof (cases "form_groups (sort (remdups items))")
  case None
  then show ?thesis by (simp add: emit_def)
next
  case (Some gs)
  note spec = form_groups_spec[OF Some sorted_remdups_unat]
  have mem: "4294967293 \<in> unat ` set items" "4294967294 \<in> unat ` set items"
    "4294967295 \<in> unat ` set items" using assms by (auto simp: top_run_def)
  have "set (concat (map group_items gs)) = unat ` set items"
    using spec by simp
  then have "4294967293 \<in> (\<Union>g \<in> set gs. set (group_items g))"
    using mem(1) by simp
  then obtain s l where g: "(s, l) \<in> set gs" and x: "4294967293 \<in> set (group_items (s, l))"
    by force
  have ext: "Suc x \<in> set (group_items (s, l))"
    if "x \<in> set (group_items (s, l))" "Suc x \<in> unat ` set items" for x
    using spec g that by auto
  have "4294967294 \<in> set (group_items (s, l))" using ext[OF x] mem(2) by simp
  from ext[OF this] mem(3) have "4294967295 \<in> set (group_items (s, l))" by simp
  with x have b: "unat s \<le> 4294967293" "4294967296 \<le> unat s + unat l"
    by (auto simp: group_items_def)
  then have "3 \<le> unat l \<or> unat s + unat l > 4294967296" by linarith
  moreover have "unat s + unat l \<le> 4294967296"
    using group_bound[OF conjunct1[OF spec] g] spec g by auto
  ultimately have "3 \<le> unat l" by simp
  then have "l \<noteq> 1" "l \<noteq> 2" by auto
  with b have "emit_group (s, l) = None"
    by (simp add: item_checked_add_def emit_group.simps)
  with g have "emit_groups [] gs = None"
    unfolding emit_groups_None by blast
  with Some show ?thesis by (simp add: emit_def)
qed

lemma distinct_remdups_adj_sorted: "sorted (xs :: item list) \<Longrightarrow> distinct (remdups_adj xs)"
  by (induction xs rule: remdups_adj.induct) auto

lemma remdups_adj_sort_strict:
  "sorted_wrt (<) (map unat (remdups_adj (sort (xs :: item list))))"
proof -
  let ?ys = "remdups_adj (sort xs)"
  have "distinct ?ys" by (rule distinct_remdups_adj_sorted) simp
  moreover have "sorted (map unat ?ys)"
    by (rule sorted_map_mono[OF sorted_remdups_adj[OF sorted_sort]])
       (auto simp: monotone_on_def word_le_nat_alt)
  ultimately show ?thesis
    by (simp add: strict_sorted_iff distinct_map inj_on_def word_unat_eq_iff)
qed

lemma collect_results_Inr:
  "collect_results rs = Inr xs \<Longrightarrow> rs = map Inr xs"
  by (induction rs arbitrary: xs rule: collect_results.induct) (auto split: sum.splits)

lemma set_step_range:
  assumes "s \<le> e" and "d \<noteq> 0"
  shows "unat ` set (step_range s e d)
    = {x. unat s \<le> x \<and> x \<le> unat e \<and> (x - unat s) mod unat d = 0}"
    (is "?L = ?R")
proof -
  let ?s = "unat s" and ?e = "unat e" and ?d = "unat d"
  have d: "0 < ?d" using assms(2) by (simp add: unat_gt_0)
  have bound: "?s + k * ?d \<le> ?e" if "k \<le> (?e - ?s) div ?d" for k
  proof -
    have "k * ?d \<le> (?e - ?s) div ?d * ?d" using that by simp
    also have "\<dots> \<le> ?e - ?s" by simp
    finally show ?thesis using assms(1) by (simp add: word_le_nat_alt)
  qed
  have "?L = (\<lambda>k. ?s + k * ?d) ` {0..(?e - ?s) div ?d}"
    unfolding step_range_def set_map image_image set_upt
  proof (rule image_cong)
    fix k assume "k \<in> {0..(?e - ?s) div ?d}"
    then have "?s + k * ?d < 4294967296"
      using bound[of k] unat_32_bound[of e] by (simp add: order_le_less_trans)
    then show "unat (of_nat (?s + k * ?d) :: item) = ?s + k * ?d"
      by (rule unat_of_nat_32)
  qed auto
  also have "\<dots> = ?R"
  proof (intro equalityI subsetI)
    fix x assume "x \<in> (\<lambda>k. ?s + k * ?d) ` {0..(?e - ?s) div ?d}"
    then show "x \<in> ?R" using bound by auto
  next
    fix x assume x: "x \<in> ?R"
    then have "x = ?s + (x - ?s) div ?d * ?d" by auto
    moreover have "(x - ?s) div ?d \<le> (?e - ?s) div ?d"
      using x by (intro div_le_mono diff_le_mono) blast
    ultimately show "x \<in> (\<lambda>k. ?s + k * ?d) ` {0..(?e - ?s) div ?d}" by auto
  qed
  finally show ?thesis .
qed

text \<open>C12: Emitting a set of items and parsing the text gives the items back in ascending order
  without duplicates, unless the items contain the three largest 32-bit numbers.\<close>

theorem emit_parse_roundtrip:
  assumes "\<not> top_run \<subseteq> unat ` set items"
  shows "\<exists>s. emit items = Some s \<and> parse s = Inr (sort (remdups items))"
proof -
  obtain s where "emit items = Some s" and "denotes s (sort (remdups items))"
    using emit_succeeds[OF assms] by blast
  then show ?thesis
    using parse_denotes remdups_adj_sorted_distinct by fastforce
qed

theorem emit_parse_roundtrip_witness:
  "\<exists>s. emit [3, 1, 2, 7, 7] = Some s \<and> parse s = Inr [1, 2, 3, 7]"
proof -
  have "sort (remdups [3, 1, 2, 7, 7]) = ([1, 2, 3, 7] :: item list)" by code_simp
  then show ?thesis
    using emit_parse_roundtrip[of "[3, 1, 2, 7, 7]"] by (simp add: top_run_def)
qed

text \<open>The emitter panics on a valid input exactly when the items contain the three largest
  32-bit numbers: the end of their range is computed as \<open>start + len - 1\<close>, whose sum
  overflows.\<close>

theorem emit_panics_iff:
  "(emit items = None) = ({4294967293, 4294967294, 4294967295} \<subseteq> unat ` set items)"
  using emit_succeeds[of items] emit_fails[of items] unfolding top_run_def by fastforce

text \<open>Parsing succeeds exactly when every comma-separated part parses; the result is strictly
  ascending and holds exactly the items of the parts.\<close>

theorem parse_union:
  "case parse t of
     Inl e \<Rightarrow> \<exists>p \<in> set (str_split CHR '','' t). \<exists>e'. parse_part p = Inl e'
   | Inr xs \<Rightarrow> sorted_wrt (<) (map unat xs)
       \<and> (\<forall>x. x \<in> set xs \<longleftrightarrow>
            (\<exists>p \<in> set (str_split CHR '','' t). \<exists>ys. parse_part p = Inr ys \<and> x \<in> set ys))
       \<and> (\<forall>p \<in> set (str_split CHR '','' t). \<exists>ys. parse_part p = Inr ys)"
proof -
  let ?ps = "str_split CHR '','' t"
  have fail: "collect_results rs = Inl e \<Longrightarrow> \<exists>e'. Inl e' \<in> set rs" for rs :: "('e + 'b) list" and e
    by (induction rs rule: collect_results.induct) (auto split: sum.splits)
  show ?thesis
  proof (cases "collect_results (map parse_part ?ps)")
    case (Inl e)
    then have "\<exists>p \<in> set ?ps. \<exists>e'. parse_part p = Inl e'"
      using fail[OF Inl] by (auto simp: image_iff) metis
    with Inl show ?thesis by (simp add: parse_def)
  next
    case (Inr ls)
    then have eq: "map parse_part ?ps = map Inr ls" by (rule collect_results_Inr)
    then have "Inr ` set ls = parse_part ` set ?ps" by (metis list.set_map)
    then have all: "\<forall>p \<in> set ?ps. \<exists>ys \<in> set ls. parse_part p = Inr ys"
      and src: "\<forall>ys \<in> set ls. \<exists>p \<in> set ?ps. parse_part p = Inr ys"
      by (auto simp: image_iff set_eq_iff) (metis imageI)+
    have "x \<in> set (concat ls) \<longleftrightarrow> (\<exists>p \<in> set ?ps. \<exists>ys. parse_part p = Inr ys \<and> x \<in> set ys)" for x
      using all src by fastforce
    with Inr all show ?thesis
      using remdups_adj_sort_strict by (auto simp: parse_def)
  qed
qed

theorem parse_union_witness:
  "sorted_wrt (<) (map unat ([1, 3, 5] :: item list)) \<and> parse ''5,1-4:2'' = Inr [1, 3, 5]"
proof -
  have "parse_part ''5'' = Inr [5]"
    by (simp add: parse_part_def parse_single_def parse_or_def parse_u32_def to_digit_def)
  moreover have "parse_part ''1-4:2'' = Inr [1, 3]"
    by (simp add: parse_part_def parse_range_def parse_or_def parse_u32_def to_digit_def
        step_range_def)
  ultimately have "parse ''5,1-4:2'' = Inr [1, 3, 5]"
    by (simp add: parse_def word_le_nat_alt)
  with parse_union[of "''5,1-4:2''"] show ?thesis by simp
qed

text \<open>A range with a stride denotes the numbers from its start to its inclusive end whose
  distance from the start is a multiple of the stride; a zero stride and a start above the end are
  the only errors of a range of numbers.\<close>

theorem parse_range_meaning:
  "case parse_part (u32_to_string s @ ''-'' @ u32_to_string e @ '':'' @ u32_to_string d) of
     Inl err \<Rightarrow> d = 0 \<and> problem err = ''range stride must not be zero''
       \<or> e < s \<and> problem err = ''range start must be <= end''
   | Inr xs \<Rightarrow> d \<noteq> 0 \<and> s \<le> e
       \<and> unat ` set xs = {x. unat s \<le> x \<and> x \<le> unat e \<and> (x - unat s) mod unat d = 0}"
proof -
  have "parse_part (u32_to_string s @ ''-'' @ u32_to_string e @ '':'' @ u32_to_string d) =
    (if d = 0 then Inl (error_new (u32_to_string d) ''range stride must not be zero'')
     else if s > e then
       Inl (error_new (u32_to_string s @ ''-'' @ u32_to_string e) ''range start must be <= end'')
     else Inr (step_range s e d))"
    (is "_ = ?rhs")
  proof -
    have a: "split_once CHR ''-'' (u32_to_string s @ ''-'' @ u32_to_string e @ '':'' @ u32_to_string d)
      = Some (u32_to_string s, u32_to_string e @ '':'' @ u32_to_string d)"
      using split_once_append[of "CHR ''-''" "u32_to_string s"] by simp
    have b: "split_once CHR '':'' (u32_to_string e @ '':'' @ u32_to_string d)
      = Some (u32_to_string e, u32_to_string d)"
      using split_once_append[of "CHR '':''" "u32_to_string e"] by simp
    show ?thesis
      unfolding parse_part_def a parse_range_def b option.case prod.case parse_or_to_string sum.case
      by (simp only: append_is_Nil_conv u32_to_string_text simp_thms if_False)
  qed
  then show ?thesis
    using set_step_range[of s e d] by (cases "d = 0"; cases "e < s") (simp_all add: error_new_def)
qed

end
