(* ===== verification/SlabLayout.thy ===== *)
theory SlabLayout
  imports Prelude
begin

text \<open>
  Package \<open>infinity_pool\<close>, \<open>opaque/slab_layout.rs\<close>: the geometry of a slab. The standard
  library's \<open>Layout\<close> is modelled with the operations the code uses. The layout the compiler
  gives to \<open>SlotMeta\<close> is a parameter \<open>meta\<close>.
\<close>

section \<open>Layouts of the standard library\<close>

record layout =
  size_of :: nat
  align_of :: nat

definition isize_max :: nat where
  "isize_max = 2 ^ 63 - 1"

definition round_up :: "nat \<Rightarrow> nat \<Rightarrow> nat" where
  "round_up n a = div_ceil n a * a"

definition power_of_two :: "nat \<Rightarrow> bool" where
  "power_of_two n = (n \<in> set (map (\<lambda>k. 2 ^ k) [0..<64]))"

definition valid_layout :: "layout \<Rightarrow> bool" where
  "valid_layout l = (power_of_two (align_of l) \<and> round_up (size_of l) (align_of l) \<le> isize_max)"

definition from_size_align :: "nat \<Rightarrow> nat \<Rightarrow> layout option" where
  "from_size_align n a =
     (let l = \<lparr>size_of = n, align_of = a\<rparr> in if valid_layout l then Some l else None)"

definition layout_extend :: "layout \<Rightarrow> layout \<Rightarrow> (layout \<times> nat) option" where
  "layout_extend l next = do {
     let offset = round_up (size_of l) (align_of next);
     joined \<leftarrow> from_size_align (offset + size_of next) (max (align_of l) (align_of next));
     Some (joined, offset)
   }"

definition pad_to_align :: "layout \<Rightarrow> layout" where
  "pad_to_align l = l\<lparr>size_of := round_up (size_of l) (align_of l)\<rparr>"

definition layout_repeat :: "layout \<Rightarrow> nat \<Rightarrow> (layout \<times> nat) option" where
  "layout_repeat l n = do {
     let padded = pad_to_align l;
     require (size_of padded * n < usize_range);
     repeated \<leftarrow> from_size_align (size_of padded * n) (align_of l);
     Some (repeated, size_of padded)
   }"

section \<open>Slab layouts\<close>

record slab_layout =
  slot_capacity :: nat
  object_layout :: layout
  slot_layout :: layout
  slot_to_object_offset :: nat
  slot_array_layout :: layout

definition determine_capacity :: "nat \<Rightarrow> nat" where
  "determine_capacity slot_size =
     (let min_capacity_by_bytes = 16384 div slot_size;
          min_capacity_real = max min_capacity_by_bytes 32;
          max_capacity_by_bytes = 1048576 div slot_size;
          ideal_capacity_bytes = saturating_mul 128 slot_size;
          desired_capacity = (if ideal_capacity_bytes \<le> 1048576 then 128 else max_capacity_by_bytes)
      in max desired_capacity min_capacity_real)"

definition slab_layout_new :: "layout \<Rightarrow> layout \<Rightarrow> slab_layout option" where
  "slab_layout_new meta object = do {
     require (0 < size_of object);
     (slot, offset) \<leftarrow> layout_extend meta object;
     let slot = pad_to_align slot;
     require (0 < size_of slot);
     let capacity = determine_capacity (size_of slot);
     (slot_array, _) \<leftarrow> layout_repeat slot capacity;
     Some \<lparr>slot_capacity = capacity, object_layout = object, slot_layout = slot,
           slot_to_object_offset = offset, slot_array_layout = slot_array\<rparr>
   }"

section \<open>Rounding and powers of two\<close>

lemma round_up_upper: "0 < a \<Longrightarrow> n \<le> round_up n a"
  by (simp add: round_up_def div_ceil_upper)

lemma round_up_dvd [simp]: "a dvd round_up n a"
  by (simp add: round_up_def)

lemma round_up_idem: "0 < a \<Longrightarrow> a dvd n \<Longrightarrow> round_up n a = n"
  by (auto simp: round_up_def div_ceil_def)

lemma round_up_less: "0 < a \<Longrightarrow> round_up n a < n + a"
proof -
  assume a: "0 < a"
  define q r where "q = n div a * a" and "r = n mod a"
  have n: "n = q + r" by (simp add: q_def r_def)
  have "div_ceil n a * a = q + (if r = 0 then 0 else a)"
    by (simp add: div_ceil_def add_mult_distrib q_def r_def)
  with n a show ?thesis unfolding round_up_def by (cases "r = 0") simp_all
qed

lemma power_of_two_iff: "power_of_two n = (\<exists>k < 64. n = 2 ^ k)"
  by (auto simp: power_of_two_def)

lemma power_of_two_pos: "power_of_two n \<Longrightarrow> 0 < n"
  by (auto simp: power_of_two_iff)

lemma power_of_two_dvd: "power_of_two a \<Longrightarrow> power_of_two b \<Longrightarrow> a \<le> b \<Longrightarrow> a dvd b"
  by (auto simp: power_of_two_iff intro: le_imp_power_dvd)

lemma power_of_two_max: "power_of_two a \<Longrightarrow> power_of_two b \<Longrightarrow> power_of_two (max a b)"
  by (simp add: max_def)

lemma power_of_two_dvd_max:
  "power_of_two a \<Longrightarrow> power_of_two b \<Longrightarrow> a dvd max a b \<and> b dvd max a b"
  by (auto simp: max_def intro: power_of_two_dvd)

lemma valid_layout_pos: "valid_layout l \<Longrightarrow> 0 < align_of l"
  by (auto simp: valid_layout_def intro: power_of_two_pos)

lemma valid_layout_size: "valid_layout l \<Longrightarrow> size_of l \<le> isize_max"
  using round_up_upper[of "align_of l" "size_of l"] valid_layout_pos[of l]
  by (simp add: valid_layout_def)

lemma pad_to_align_simps [simp]:
  "align_of (pad_to_align l) = align_of l"
  "size_of (pad_to_align l) = round_up (size_of l) (align_of l)"
  by (simp_all add: pad_to_align_def)

lemma from_size_align_Some:
  "(from_size_align n a = Some l) = (l = \<lparr>size_of = n, align_of = a\<rparr> \<and> valid_layout l)"
  by (auto simp: from_size_align_def Let_def)

section \<open>Geometry of a slab\<close>

text \<open>What the slab needs of its layout; every layout the constructor returns has it.\<close>

definition geometry :: "layout \<Rightarrow> slab_layout \<Rightarrow> bool" where
  "geometry meta l =
     (0 < size_of (object_layout l)
      \<and> valid_layout (slot_array_layout l)
      \<and> size_of meta \<le> slot_to_object_offset l
      \<and> slot_to_object_offset l + size_of (object_layout l) \<le> size_of (slot_layout l)
      \<and> align_of (object_layout l) dvd slot_to_object_offset l
      \<and> align_of (object_layout l) dvd align_of (slot_layout l)
      \<and> align_of meta dvd align_of (slot_layout l)
      \<and> align_of (slot_layout l) dvd size_of (slot_layout l)
      \<and> align_of (slot_array_layout l) = align_of (slot_layout l)
      \<and> size_of (slot_array_layout l) = slot_capacity l * size_of (slot_layout l)
      \<and> slot_capacity l = determine_capacity (size_of (slot_layout l)))"

lemma slab_layout_new_geometry:
  assumes meta: "valid_layout meta" and obj: "valid_layout object"
    and new: "slab_layout_new meta object = Some l"
  shows "geometry meta l \<and> object_layout l = object"
proof -
  obtain slot off arr stride where s: "layout_extend meta object = Some (slot, off)"
    "layout_repeat (pad_to_align slot) (determine_capacity (size_of (pad_to_align slot))) = Some (arr, stride)"
    "0 < size_of object"
    and l: "l = \<lparr>slot_capacity = determine_capacity (size_of (pad_to_align slot)), object_layout = object,
      slot_layout = pad_to_align slot, slot_to_object_offset = off, slot_array_layout = arr\<rparr>"
    using new by (auto simp: slab_layout_new_def Let_def bind_eq_Some_iff)
  have off: "off = round_up (size_of meta) (align_of object)"
    and slot: "slot = \<lparr>size_of = off + size_of object, align_of = max (align_of meta) (align_of object)\<rparr>"
    "valid_layout slot"
    using s(1) by (auto simp: layout_extend_def Let_def bind_eq_Some_iff from_size_align_Some)
  have p: "0 < align_of slot" using slot(2) by (rule valid_layout_pos)
  then have stride: "round_up (round_up (size_of slot) (align_of slot)) (align_of slot) =
      round_up (size_of slot) (align_of slot)"
    by (simp add: round_up_idem)
  have arr: "arr = \<lparr>size_of = size_of (pad_to_align slot) * determine_capacity (size_of (pad_to_align slot)),
      align_of = align_of slot\<rparr>" "valid_layout arr"
    using s(2) stride by (auto simp: layout_repeat_def Let_def bind_eq_Some_iff from_size_align_Some)
  have d: "align_of meta dvd align_of slot" "align_of object dvd align_of slot"
    using power_of_two_dvd_max[of "align_of meta" "align_of object"] meta obj slot(1)
    by (simp_all add: valid_layout_def)
  have "size_of meta \<le> off" using off round_up_upper valid_layout_pos[OF obj] by simp
  moreover have "off + size_of object \<le> size_of (pad_to_align slot)"
    using round_up_upper[OF p, of "size_of slot"] slot(1) by simp
  ultimately show ?thesis
    unfolding geometry_def l using s(3) arr d off by simp
qed

subsection \<open>Capacity\<close>

lemma determine_capacity_ge: "32 \<le> determine_capacity s"
  by (simp add: determine_capacity_def Let_def)

lemma determine_capacity_cases:
  assumes "0 < s"
  shows "determine_capacity s = 32
    \<or> determine_capacity s * s \<le> 1048576"
proof -
  have q: "16384 div s * s \<le> 1048576" "1048576 div s * s \<le> 1048576"
    by (rule order_trans[OF div_times_less_eq_dividend]) simp_all
  have "saturating_mul 128 s \<le> 1048576 \<Longrightarrow> 128 * s \<le> 1048576"
    by (simp add: saturating_mul_def usize_range_def min_def split: if_splits)
  with q show ?thesis
    by (auto simp: determine_capacity_def Let_def max_def)
qed

lemma determine_capacity_le: "determine_capacity s \<le> 16384"
proof -
  have "16384 div s \<le> 16384" by (rule div_le_dividend)
  moreover have "1048576 div s \<le> 16384" if "\<not> saturating_mul 128 s \<le> 1048576"
  proof -
    have "8192 < s" using that by (simp add: saturating_mul_def min_def split: if_splits)
    then have "1048576 div s \<le> 1048576 div 8192" by (intro div_le_mono2) simp_all
    then show ?thesis by simp
  qed
  ultimately show ?thesis by (auto simp: determine_capacity_def Let_def)
qed

lemma determine_capacity_fill:
  assumes "0 < s"
  shows "16384 < (determine_capacity s + 1) * s"
proof -
  have "16384 = 16384 div s * s + 16384 mod s" by simp
  moreover have "16384 mod s < s" using assms by simp
  ultimately have "16384 < (16384 div s + 1) * s" by (simp only: add_mult_distrib)
  moreover have "16384 div s \<le> determine_capacity s" by (simp add: determine_capacity_def Let_def)
  ultimately show ?thesis
    by (meson add_le_mono mult_le_mono1 order_less_le_trans le_refl)
qed

lemma determine_capacity_ideal: "128 * s \<le> 1048576 \<Longrightarrow> 128 \<le> determine_capacity s"
  by (simp add: determine_capacity_def saturating_mul_def)

section \<open>Properties\<close>

text \<open>In every layout the constructor returns, a slot holds its metadata and behind it, aligned,
  the object; the slots tile the array, which is a valid layout; and the object keeps the
  layout it was asked for.\<close>

theorem slab_layout_places_objects:
  assumes "valid_layout meta" and "valid_layout object" and "slab_layout_new meta object = Some l"
  shows "geometry meta l \<and> object_layout l = object"
  using assms by (rule slab_layout_new_geometry)

theorem slab_layout_places_objects_witness:
  "\<exists>l. slab_layout_new \<lparr>size_of = 24, align_of = 8\<rparr> \<lparr>size_of = 100, align_of = 64\<rparr> = Some l
     \<and> geometry \<lparr>size_of = 24, align_of = 8\<rparr> l"
proof -
  let ?m = "\<lparr>size_of = 24, align_of = 8\<rparr>" and ?o = "\<lparr>size_of = 100, align_of = 64\<rparr>"
  have p: "power_of_two 8" "power_of_two 64"
    unfolding power_of_two_iff by (rule exI[of _ 3], simp) (rule exI[of _ 6], simp)
  have v: "valid_layout ?m" "valid_layout ?o"
    using p by (simp_all add: valid_layout_def round_up_def div_ceil_def isize_max_def)
  have "\<exists>l. slab_layout_new ?m ?o = Some l"
    using p by (simp add: slab_layout_new_def layout_extend_def layout_repeat_def from_size_align_def
        valid_layout_def round_up_def div_ceil_def isize_max_def determine_capacity_def pad_to_align_def
        saturating_mul_def usize_range_def Let_def)
  with slab_layout_places_objects[OF v] show ?thesis by blast
qed

text \<open>The capacity policy: between 32 and 16384 slots; more than 32 slots never take more than a
  mebibyte; one slot more would exceed 16 KiB; and 128 slots are reached whenever they fit a mebibyte.\<close>

theorem determine_capacity_policy:
  assumes "0 < s"
  shows "32 \<le> determine_capacity s \<and> determine_capacity s \<le> 16384
    \<and> (determine_capacity s = 32 \<or> determine_capacity s * s \<le> 1048576)
    \<and> 16384 < (determine_capacity s + 1) * s
    \<and> (128 * s \<le> 1048576 \<longrightarrow> 128 \<le> determine_capacity s)"
  using determine_capacity_ge determine_capacity_le determine_capacity_cases[OF assms]
    determine_capacity_fill[OF assms] determine_capacity_ideal by blast

theorem determine_capacity_policy_witness: "determine_capacity 100 = 163 \<and> 163 * 100 \<le> (1048576 :: nat)"
proof -
  have "determine_capacity 100 = 163"
    by (simp add: determine_capacity_def saturating_mul_def usize_range_def)
  with determine_capacity_policy[of 100] show ?thesis by simp
qed

end
