(* ===== verification/Contracts.thy ===== *)
theory Contracts
  imports Prelude
begin

text \<open>
  The two interfaces that recur through the layers of the object pools: a store that hands out a
  handle for every object, and an iterator that can be pulled from both ends.
\<close>

section \<open>Object stores\<close>

locale object_store =
  fixes lookup :: "'s \<Rightarrow> 'h \<Rightarrow> 'o option"
    and put :: "'s \<Rightarrow> 'o \<Rightarrow> ('s \<times> 'h) option"
    and take_back :: "'s \<Rightarrow> 'h \<Rightarrow> ('s \<times> 'o) option"
    and population :: "'s \<Rightarrow> nat"
    and room :: "'s \<Rightarrow> bool"
    and sound :: "'s \<Rightarrow> bool"
  assumes put_ok: "sound s \<Longrightarrow> room s \<Longrightarrow>
      \<exists>s' h. put s x = Some (s', h) \<and> sound s' \<and> lookup s h = None
        \<and> lookup s' = (lookup s)(h \<mapsto> x) \<and> population s' = Suc (population s)"
    and take_ok: "sound s \<Longrightarrow> lookup s h = Some x \<Longrightarrow>
      \<exists>s'. take_back s h = Some (s', x) \<and> sound s'
        \<and> lookup s' = (lookup s)(h := None) \<and> Suc (population s') = population s"
begin

lemma put_take_roundtrip:
  assumes "sound s" and "room s"
  shows "\<exists>s' h s''. put s x = Some (s', h) \<and> take_back s' h = Some (s'', x) \<and> sound s''
    \<and> lookup s'' = lookup s \<and> population s'' = population s"
proof -
  obtain s' h where p: "put s x = Some (s', h)" "sound s'" "lookup s h = None"
    "lookup s' = (lookup s)(h \<mapsto> x)" "population s' = Suc (population s)"
    using put_ok[OF assms] by blast
  then have "lookup s' h = Some x" by simp
  with p(2) obtain s'' where t: "take_back s' h = Some (s'', x)" "sound s''"
    "lookup s'' = (lookup s')(h := None)" "Suc (population s'') = population s'"
    using take_ok by blast
  have "lookup s'' = lookup s" using t(3) p(3,4) by auto
  with p t show ?thesis by auto
qed

lemma put_keeps:
  "sound s \<Longrightarrow> room s \<Longrightarrow> put s x = Some (s', h) \<Longrightarrow> lookup s k = Some y \<Longrightarrow> k \<noteq> h \<and> lookup s' k = Some y"
  using put_ok[of s x] by auto

lemma put_fresh: "sound s \<Longrightarrow> room s \<Longrightarrow> put s x = Some (s', h) \<Longrightarrow> lookup s h = None \<and> lookup s' h = Some x"
  using put_ok[of s x] by auto

text \<open>Taking two different handles out commutes, as far as lookups and objects go.\<close>

lemma take_other:
  assumes "sound s" and "lookup s h = Some x" and "lookup s k = Some y" and "h \<noteq> k"
  shows "\<exists>s' s''. take_back s h = Some (s', x) \<and> take_back s' k = Some (s'', y) \<and> sound s''
    \<and> lookup s'' = (lookup s)(h := None, k := None)"
proof -
  obtain s' where t: "take_back s h = Some (s', x)" "sound s'" "lookup s' = (lookup s)(h := None)"
    using take_ok[OF assms(1,2)] by blast
  then have "lookup s' k = Some y" using assms(3,4) by simp
  then show ?thesis using take_ok[OF t(2)] t by fastforce
qed

end

section \<open>Double-ended iterators\<close>

text \<open>
  Pulling an iterator by a script of ends (\<open>True\<close> for the front): the items the front gave,
  the iterator left, the items the back gave. \<open>None\<close> is a pull that has no value.
\<close>

fun pull_script ::
    "('i \<Rightarrow> ('i \<times> 'a option) option) \<Rightarrow> ('i \<Rightarrow> ('i \<times> 'a option) option) \<Rightarrow> bool list \<Rightarrow> 'i
     \<Rightarrow> ('a list \<times> 'i \<times> 'a list) option" where
  "pull_script nxt nxt_back [] it = Some ([], it, [])"
| "pull_script nxt nxt_back (front # ends) it = do {
     (it', item) \<leftarrow> (if front then nxt it else nxt_back it);
     (xs, it'', ys) \<leftarrow> pull_script nxt nxt_back ends it';
     Some (case item of
         None \<Rightarrow> (xs, it'', ys)
       | Some x \<Rightarrow> if front then (x # xs, it'', ys) else (xs, it'', x # ys))
   }"

locale double_ended =
  fixes nxt :: "'i \<Rightarrow> ('i \<times> 'a option) option"
    and nxt_back :: "'i \<Rightarrow> ('i \<times> 'a option) option"
    and remaining :: "'i \<Rightarrow> 'a list"
    and iter_ok :: "'i \<Rightarrow> bool"
  assumes nxt_empty: "iter_ok it \<Longrightarrow> remaining it = [] \<Longrightarrow> nxt it = Some (it, None)"
    and nxt_item: "iter_ok it \<Longrightarrow> remaining it = x # xs \<Longrightarrow>
      \<exists>it'. nxt it = Some (it', Some x) \<and> iter_ok it' \<and> remaining it' = xs"
    and back_empty: "iter_ok it \<Longrightarrow> remaining it = [] \<Longrightarrow> nxt_back it = Some (it, None)"
    and back_item: "iter_ok it \<Longrightarrow> remaining it = xs @ [x] \<Longrightarrow>
      \<exists>it'. nxt_back it = Some (it', Some x) \<and> iter_ok it' \<and> remaining it' = xs"
begin

lemma pull_script_spec:
  "iter_ok it \<Longrightarrow> \<exists>xs it' ys. pull_script nxt nxt_back ends it = Some (xs, it', ys) \<and> iter_ok it'
     \<and> remaining it = xs @ remaining it' @ rev ys
     \<and> length xs + length ys = min (length ends) (length (remaining it))"
proof (induction ends arbitrary: it)
  case Nil
  then show ?case by auto
next
  case (Cons front ends)
  show ?case
  proof (cases "remaining it = []")
    case True
    then show ?thesis
      using Cons nxt_empty[OF Cons.prems] back_empty[OF Cons.prems] Cons.IH[OF Cons.prems] by auto
  next
    case False
    show ?thesis
    proof (cases front)
      case True
      from False obtain x r where r: "remaining it = x # r" by (cases "remaining it") auto
      obtain it1 where it1: "nxt it = Some (it1, Some x)" "iter_ok it1" "remaining it1 = r"
        using nxt_item[OF Cons.prems r] by blast
      then show ?thesis using Cons.IH[OF it1(2)] True r by auto
    next
      case rear: False
      from False obtain x r where r: "remaining it = r @ [x]" by (cases "remaining it" rule: rev_cases) auto
      obtain it1 where it1: "nxt_back it = Some (it1, Some x)" "iter_ok it1" "remaining it1 = r"
        using back_item[OF Cons.prems r] by blast
      then show ?thesis using Cons.IH[OF it1(2)] rear r by auto
    qed
  qed
qed

text \<open>However the ends alternate, enough pulls give every item exactly once.\<close>

lemma pull_script_all:
  assumes "iter_ok it" and "length (remaining it) \<le> length ends"
  shows "\<exists>xs it' ys. pull_script nxt nxt_back ends it = Some (xs, it', ys)
    \<and> xs @ rev ys = remaining it \<and> remaining it' = []"
proof -
  obtain xs it' ys where p: "pull_script nxt nxt_back ends it = Some (xs, it', ys)"
    "remaining it = xs @ remaining it' @ rev ys"
    "length xs + length ys = min (length ends) (length (remaining it))"
    using pull_script_spec[OF assms(1), of ends] by blast
  have "length xs + length ys = length (remaining it)" using p(3) assms(2) by (simp add: min_def)
  moreover have "length (remaining it) = length xs + length (remaining it') + length ys"
    by (subst p(2)) simp
  ultimately have "remaining it' = []" by simp
  with p show ?thesis by auto
qed

end

end
