(* ===== verification/Slab.thy ===== *)
theory Slab
  imports SlabLayout Contracts
begin

text \<open>
  Package \<open>infinity_pool\<close>, \<open>opaque/slab.rs\<close> with \<open>slab_handle.rs\<close>, \<open>slot_meta.rs\<close>,
  \<open>dropper.rs\<close> and \<open>drop_policy.rs\<close>: one block of slots with an intrusive freelist.

  \<^item> The slot array is a list; an occupied slot holds its object of type \<open>'o\<close>. Addresses are
    numbers computed from the base address the allocator returned (a parameter of \<open>slab_new\<close>).
  \<^item> The destructor of the objects is user code and a parameter \<open>drop_glue\<close>: it returns, or
    unwinds with a payload. So is the closure that initializes an object.
  \<^item> A run that breaks the safety contract or a debug assertion has no value. Where a panic
    leaves the slab for others to see, the result holds the state it leaves.
\<close>

section \<open>Model\<close>

type_synonym addr = nat

datatype drop_policy = MayDropContents | MustNotDropContents

datatype 'o slot_meta = Occupied 'o | Vacant usize

record slab_handle =
  handle_index :: usize
  handle_ptr :: addr

record 'o slab =
  slab_layout_of :: slab_layout
  slab_policy :: drop_policy
  first_slot_ptr :: addr
  slots :: "'o slot_meta list"
  next_free_slot_index :: usize
  occupied_count :: usize

definition slab_new :: "slab_layout \<Rightarrow> drop_policy \<Rightarrow> addr \<Rightarrow> 'o slab" where
  "slab_new l policy base =
     \<lparr>slab_layout_of = l, slab_policy = policy, first_slot_ptr = base,
      slots = map (\<lambda>index. Vacant (wrapping_add index 1)) [0..<slot_capacity l],
      next_free_slot_index = 0, occupied_count = 0\<rparr>"

definition slab_len :: "'o slab \<Rightarrow> usize" where
  "slab_len s = occupied_count s"

definition slab_is_empty :: "'o slab \<Rightarrow> bool" where
  "slab_is_empty s = (occupied_count s = 0)"

definition slab_is_full :: "'o slab \<Rightarrow> bool" where
  "slab_is_full s = (occupied_count s = slot_capacity (slab_layout_of s))"

definition slot_ptr_unchecked :: "'o slab \<Rightarrow> usize \<Rightarrow> addr" where
  "slot_ptr_unchecked s index =
     first_slot_ptr s + wrapping_mul index (size_of (slot_layout (slab_layout_of s)))"

definition object_ptr_unchecked :: "'o slab \<Rightarrow> usize \<Rightarrow> addr" where
  "object_ptr_unchecked s index =
     slot_ptr_unchecked s index + slot_to_object_offset (slab_layout_of s)"

definition slot_meta_at :: "'o slab \<Rightarrow> usize \<Rightarrow> 'o slot_meta option" where
  "slot_meta_at s index = do {
     require (index < slot_capacity (slab_layout_of s));
     require (index < length (slots s));
     Some (slots s ! index)
   }"

text \<open>
  Insertion: \<open>lt\<close> is the layout of the inserted type and \<open>f\<close> what its initializer does. When
  the initializer unwinds, the slab stays as it was.
\<close>

definition insert_with_unchecked ::
    "'o slab \<Rightarrow> layout \<Rightarrow> 'o completion \<Rightarrow> ('o slab \<times> slab_handle completion) option" where
  "insert_with_unchecked s lt f = do {
     require (lt = object_layout (slab_layout_of s));
     require (\<not> slab_is_full s);
     let index = next_free_slot_index s;
     previous_meta \<leftarrow> slot_meta_at s index;
     let object_ptr = object_ptr_unchecked s index;
     case f of
       Panicked \<Rightarrow> Some (s, Panicked)
     | Completed object \<Rightarrow>
         (case previous_meta of
            Vacant next_free \<Rightarrow>
              Some (s\<lparr>slots := (slots s)[index := Occupied object],
                      next_free_slot_index := next_free,
                      occupied_count := wrapping_add (occupied_count s) 1\<rparr>,
                    Completed \<lparr>handle_index = index, handle_ptr = object_ptr\<rparr>)
          | Occupied _ \<Rightarrow> None)
   }"

text \<open>Both removals take the object out of its slot in the same way and detect a double removal.\<close>

definition take_out :: "'o slab \<Rightarrow> slab_handle \<Rightarrow> ('o slab \<times> 'o completion) option" where
  "take_out s h = do {
     require (object_ptr_unchecked s (handle_index h) = handle_ptr h);
     let next_free = next_free_slot_index s;
     old_meta \<leftarrow> slot_meta_at s (handle_index h);
     let s' = s\<lparr>slots := (slots s)[handle_index h := Vacant next_free]\<rparr>;
     case old_meta of
       Vacant n \<Rightarrow> Some (s'\<lparr>slots := (slots s')[handle_index h := old_meta]\<rparr>, Panicked)
     | Occupied object \<Rightarrow>
         Some (s'\<lparr>next_free_slot_index := handle_index h,
                  occupied_count := wrapping_sub (occupied_count s') 1\<rparr>, Completed object)
   }"

text \<open>
  \<open>remove\<close> drops the object once the slab is updated; \<open>Completed (Some p)\<close> is a destructor
  that unwound with payload \<open>p\<close>, \<open>Panicked\<close> the panic of a double removal.
\<close>

definition slab_remove ::
    "('o \<Rightarrow> 'p option) \<Rightarrow> 'o slab \<Rightarrow> slab_handle \<Rightarrow> ('o slab \<times> 'p option completion) option" where
  "slab_remove drop_glue s h = do {
     (s', taken) \<leftarrow> take_out s h;
     Some (s', case taken of Panicked \<Rightarrow> Panicked | Completed object \<Rightarrow> Completed (drop_glue object))
   }"

definition slab_remove_unpin :: "'o slab \<Rightarrow> slab_handle \<Rightarrow> ('o slab \<times> 'o completion) option" where
  "slab_remove_unpin s h = do {
     require (0 < size_of (object_layout (slab_layout_of s)));
     take_out s h
   }"

text \<open>
  Dropping the slab: the objects whose destructor ran, in order, and how the drop ended.
\<close>

datatype 'p drop_outcome = DropReturned | Rethrown 'p | PolicyPanic usize

fun drop_slots :: "('o \<Rightarrow> 'p option) \<Rightarrow> 'o slot_meta list \<Rightarrow> 'o list \<Rightarrow> 'p option \<Rightarrow> 'o list \<times> 'p option" where
  "drop_slots drop_glue [] dropped first_panic = (dropped, first_panic)"
| "drop_slots drop_glue (Vacant n # ms) dropped first_panic =
     drop_slots drop_glue ms dropped first_panic"
| "drop_slots drop_glue (Occupied object # ms) dropped first_panic =
     drop_slots drop_glue ms (dropped @ [object])
       (case first_panic of None \<Rightarrow> drop_glue object | Some p \<Rightarrow> Some p)"

definition slab_drop ::
    "('o \<Rightarrow> 'p option) \<Rightarrow> bool \<Rightarrow> 'o slab \<Rightarrow> 'o list \<times> 'p drop_outcome" where
  "slab_drop drop_glue thread_panicking s =
     (let was_empty = slab_is_empty s;
          original_count = occupied_count s;
          (dropped, first_panic) = drop_slots drop_glue (slots s) [] None
      in (dropped,
          case first_panic of
            Some p \<Rightarrow> Rethrown p
          | None \<Rightarrow> if \<not> thread_panicking \<and> slab_policy s = MustNotDropContents \<and> \<not> was_empty
                    then PolicyPanic original_count else DropReturned))"

text \<open>
  The iterator over the occupied slots. A step that reads a slot out of bounds has no value.
\<close>

record slab_iterator =
  current_front_index :: usize
  current_back_index :: usize
  yielded_count :: usize

definition slab_iter :: "'o slab \<Rightarrow> slab_iterator" where
  "slab_iter s = \<lparr>current_front_index = 0,
     current_back_index = slot_capacity (slab_layout_of s), yielded_count = 0\<rparr>"

partial_function (option) slab_next ::
    "'o slab \<Rightarrow> slab_iterator \<Rightarrow> (slab_iterator \<times> addr option) option" where
  "slab_next s it =
     (if yielded_count it < occupied_count s then
        let entry_index = current_front_index it;
            it = it\<lparr>current_front_index := wrapping_add (current_front_index it) 1\<rparr>
        in case slot_meta_at s entry_index of
             None \<Rightarrow> None
           | Some (Occupied _) \<Rightarrow>
               Some (it\<lparr>yielded_count := wrapping_add (yielded_count it) 1\<rparr>,
                     Some (object_ptr_unchecked s entry_index))
           | Some (Vacant _) \<Rightarrow> slab_next s it
      else Some (it, None))"

partial_function (option) slab_next_back ::
    "'o slab \<Rightarrow> slab_iterator \<Rightarrow> (slab_iterator \<times> addr option) option" where
  "slab_next_back s it =
     (if yielded_count it < occupied_count s then
        let it = it\<lparr>current_back_index := wrapping_sub (current_back_index it) 1\<rparr>;
            entry_index = current_back_index it
        in case slot_meta_at s entry_index of
             None \<Rightarrow> None
           | Some (Occupied _) \<Rightarrow>
               Some (it\<lparr>yielded_count := wrapping_add (yielded_count it) 1\<rparr>,
                     Some (object_ptr_unchecked s entry_index))
           | Some (Vacant _) \<Rightarrow> slab_next_back s it
      else Some (it, None))"

definition slab_iter_len :: "'o slab \<Rightarrow> slab_iterator \<Rightarrow> usize" where
  "slab_iter_len s it = wrapping_sub (occupied_count s) (yielded_count it)"

section \<open>Invariant\<close>

fun is_occupied :: "'o slot_meta \<Rightarrow> bool" where
  "is_occupied (Occupied x) = True"
| "is_occupied (Vacant n) = False"

text \<open>The freelist from \<open>h\<close> through the vacant slots \<open>fl\<close> ends at the capacity.\<close>

fun free_chain :: "'o slot_meta list \<Rightarrow> usize \<Rightarrow> usize list \<Rightarrow> bool" where
  "free_chain ms h [] = (h = length ms)"
| "free_chain ms h (i # fl) =
     (h = i \<and> i < length ms \<and> (case ms ! i of Vacant n \<Rightarrow> free_chain ms n fl | Occupied _ \<Rightarrow> False))"

definition free_list :: "'o slab \<Rightarrow> usize list \<Rightarrow> bool" where
  "free_list s fl =
     (free_chain (slots s) (next_free_slot_index s) fl \<and> distinct fl
      \<and> (\<forall>i < length (slots s). \<not> is_occupied (slots s ! i) \<longrightarrow> i \<in> set fl))"

definition slab_wf :: "'o slab \<Rightarrow> bool" where
  "slab_wf s =
     (length (slots s) = slot_capacity (slab_layout_of s)
      \<and> 0 < slot_capacity (slab_layout_of s) \<and> slot_capacity (slab_layout_of s) < usize_range
      \<and> occupied_count s = length (filter is_occupied (slots s))
      \<and> (\<exists>fl. free_list s fl))"

text \<open>The part of a slab no operation changes.\<close>

definition same_frame :: "'o slab \<Rightarrow> 'o slab \<Rightarrow> bool" where
  "same_frame s s' =
     (slab_layout_of s' = slab_layout_of s \<and> slab_policy s' = slab_policy s
      \<and> first_slot_ptr s' = first_slot_ptr s \<and> length (slots s') = length (slots s))"

text \<open>The object a handle denotes.\<close>

definition slab_object :: "'o slab \<Rightarrow> slab_handle \<Rightarrow> 'o option" where
  "slab_object s h =
     (if handle_index h < length (slots s) \<and> object_ptr_unchecked s (handle_index h) = handle_ptr h
      then case slots s ! handle_index h of Occupied x \<Rightarrow> Some x | Vacant _ \<Rightarrow> None
      else None)"

lemma object_ptr_frame: "same_frame s s' \<Longrightarrow> object_ptr_unchecked s' i = object_ptr_unchecked s i"
  by (simp add: same_frame_def object_ptr_unchecked_def slot_ptr_unchecked_def)

lemma free_chain_vacant: "free_chain ms h fl \<Longrightarrow> i \<in> set fl \<Longrightarrow> i < length ms \<and> \<not> is_occupied (ms ! i)"
  by (induction ms h fl rule: free_chain.induct) (auto split: slot_meta.splits)

lemma free_chain_update: "i \<notin> set fl \<Longrightarrow> free_chain (ms[i := x]) h fl = free_chain ms h fl"
  by (induction fl arbitrary: h) (auto split: slot_meta.splits)

lemma free_chain_fresh:
  "free_chain (map (\<lambda>i. Vacant (Suc i)) [0..<n]) (n - k) [n - k..<n]" if "k \<le> n"
  using that
proof (induction k)
  case (Suc k)
  then have "[n - Suc k..<n] = (n - Suc k) # [n - k..<n]"
    by (metis Suc_diff_Suc Suc_le_lessD diff_less upt_conv_Cons zero_less_Suc order_less_le_trans)
  with Suc show ?case by (simp add: Suc_diff_Suc)
qed simp

lemma slab_new_wf:
  assumes "0 < slot_capacity l" and "slot_capacity l < usize_range"
  shows "slab_wf (slab_new l policy base :: 'o slab)"
proof -
  let ?n = "slot_capacity l" and ?s = "slab_new l policy base :: 'o slab"
  have eq: "map (\<lambda>index. Vacant (wrapping_add index 1)) [0..<?n] = map (\<lambda>i. Vacant (Suc i)) [0..<?n]"
    using assms(2) by (auto simp: usize_simps)
  have sl: "slots ?s = map (\<lambda>i. Vacant (Suc i)) [0..<?n]"
    unfolding slab_new_def by (simp only: eq slab.simps)
  have "next_free_slot_index ?s = 0" by (simp add: slab_new_def)
  with sl have "free_list ?s [0..<?n]"
    unfolding free_list_def using free_chain_fresh[of ?n ?n] by simp
  moreover have "filter is_occupied (slots ?s) = []"
    by (simp add: slab_new_def filter_empty_conv)
  ultimately show ?thesis using assms by (auto simp: slab_wf_def slab_new_def)
qed

lemma slab_is_full_iff:
  "slab_wf s \<Longrightarrow> slab_is_full s = (\<forall>m \<in> set (slots s). is_occupied m)"
  using filter_all_iff_length[of is_occupied "slots s"] by (simp add: slab_wf_def slab_is_full_def)

lemma slab_is_empty_iff:
  "slab_wf s \<Longrightarrow> slab_is_empty s = (\<forall>m \<in> set (slots s). \<not> is_occupied m)"
  by (auto simp: slab_wf_def slab_is_empty_def filter_empty_conv)

lemma slab_len_le: "slab_wf s \<Longrightarrow> slab_len s \<le> slot_capacity (slab_layout_of s)"
  by (metis slab_wf_def slab_len_def length_filter_le)

text \<open>The head of the freelist is a vacant slot as long as the slab is not full.\<close>

lemma next_free_vacant:
  assumes "slab_wf s" and "\<not> slab_is_full s"
  obtains n fl where "next_free_slot_index s < length (slots s)"
    "slots s ! next_free_slot_index s = Vacant n" "free_list s (next_free_slot_index s # fl)"
proof -
  obtain fl where fl: "free_list s fl" using assms(1) by (auto simp: slab_wf_def)
  obtain m where "m \<in> set (slots s)" "\<not> is_occupied m"
    using assms(2) slab_is_full_iff[OF assms(1)] by blast
  then obtain i where i: "i < length (slots s)" "\<not> is_occupied (slots s ! i)"
    by (metis in_set_conv_nth)
  with fl have "i \<in> set fl" by (simp add: free_list_def)
  then obtain j fl' where c: "fl = j # fl'" by (cases fl) auto
  with fl have j: "j = next_free_slot_index s" by (auto simp: free_list_def)
  with c fl obtain n where "slots s ! j = Vacant n" "j < length (slots s)"
    by (cases "slots s ! j") (auto simp: free_list_def)
  with c j fl that show ?thesis by blast
qed

section \<open>Operations\<close>

lemma slot_meta_at_in_range:
  "slab_wf s \<Longrightarrow> i < length (slots s) \<Longrightarrow> slot_meta_at s i = Some (slots s ! i)"
  by (simp add: slot_meta_at_def slab_wf_def)

lemma insert_spec:
  assumes wf: "slab_wf s" and room: "\<not> slab_is_full s" and lt: "lt = object_layout (slab_layout_of s)"
  shows "\<exists>s'. insert_with_unchecked s lt (Completed x) = Some (s', Completed
        \<lparr>handle_index = next_free_slot_index s, handle_ptr = object_ptr_unchecked s (next_free_slot_index s)\<rparr>)
      \<and> slab_wf s' \<and> same_frame s s' \<and> slots s' = (slots s)[next_free_slot_index s := Occupied x]
      \<and> next_free_slot_index s < length (slots s) \<and> \<not> is_occupied (slots s ! next_free_slot_index s)
      \<and> slab_len s' = Suc (slab_len s)"
proof -
  let ?i = "next_free_slot_index s"
  obtain n fl where i: "?i < length (slots s)" "slots s ! ?i = Vacant n" "free_list s (?i # fl)"
    using next_free_vacant[OF wf room] by blast
  let ?s = "s\<lparr>slots := (slots s)[?i := Occupied x], next_free_slot_index := n,
    occupied_count := Suc (occupied_count s)\<rparr>"
  have lt_cap: "occupied_count s < slot_capacity (slab_layout_of s)"
    using slab_len_le[OF wf] room by (simp add: slab_len_def slab_is_full_def)
  then have count: "wrapping_add (occupied_count s) 1 = Suc (occupied_count s)"
    using wf by (simp add: slab_wf_def usize_simps)
  have run: "insert_with_unchecked s lt (Completed x) = Some (?s, Completed
      \<lparr>handle_index = ?i, handle_ptr = object_ptr_unchecked s ?i\<rparr>)"
    using i room lt count slot_meta_at_in_range[OF wf i(1)]
    by (simp add: insert_with_unchecked_def Let_def)
  have "free_list ?s fl"
    using i by (auto simp: free_list_def free_chain_update nth_list_update)
  moreover have "occupied_count ?s = length (filter is_occupied (slots ?s))"
    using wf i length_filter_update[OF i(1), of is_occupied "Occupied x"] by (simp add: slab_wf_def)
  ultimately have "slab_wf ?s" using wf by (auto simp: slab_wf_def)
  with run i show ?thesis
    by (intro exI[of _ ?s]) (simp add: same_frame_def slab_len_def)
qed

lemma insert_panicked:
  assumes "slab_wf s" and "\<not> slab_is_full s" and "lt = object_layout (slab_layout_of s)"
  shows "insert_with_unchecked s lt Panicked = Some (s, Panicked)"
proof -
  obtain n fl where "next_free_slot_index s < length (slots s)"
    "slots s ! next_free_slot_index s = Vacant n" "free_list s (next_free_slot_index s # fl)"
    using next_free_vacant[OF assms(1,2)] by blast
  then show ?thesis
    using assms slot_meta_at_in_range[OF assms(1)] by (simp add: insert_with_unchecked_def Let_def)
qed

lemma take_out_spec:
  assumes wf: "slab_wf s" and obj: "slab_object s h = Some x"
  shows "\<exists>s'. take_out s h = Some (s', Completed x) \<and> slab_wf s' \<and> same_frame s s'
      \<and> slots s' = (slots s)[handle_index h := Vacant (next_free_slot_index s)]
      \<and> Suc (slab_len s') = slab_len s"
proof -
  let ?i = "handle_index h"
  have i: "?i < length (slots s)" "slots s ! ?i = Occupied x" "object_ptr_unchecked s ?i = handle_ptr h"
    using obj by (auto simp: slab_object_def split: if_splits slot_meta.splits)
  obtain fl where fl: "free_list s fl" using wf by (auto simp: slab_wf_def)
  let ?ms = "(slots s)[?i := Vacant (next_free_slot_index s)]"
  let ?s = "s\<lparr>slots := ?ms, next_free_slot_index := ?i, occupied_count := occupied_count s - 1\<rparr>"
  have count: "Suc (length (filter is_occupied ?ms)) = occupied_count s"
    using wf i length_filter_update[OF i(1), of is_occupied "Vacant (next_free_slot_index s)"]
    by (simp add: slab_wf_def)
  then have run: "take_out s h = Some (?s, Completed x)"
    using i slot_meta_at_in_range[OF wf i(1)] by (simp add: take_out_def Let_def usize_simps)
  have out: "?i \<notin> set fl"
    using fl i(2) free_chain_vacant[of "slots s" "next_free_slot_index s" fl ?i]
    by (auto simp: free_list_def)
  have "free_list ?s (?i # fl)"
    using fl out i(1) by (auto simp: free_list_def free_chain_update nth_list_update split: if_splits)
  then have "slab_wf ?s" using wf count by (auto simp: slab_wf_def)
  with run count show ?thesis
    by (intro exI[of _ ?s]) (simp add: same_frame_def slab_len_def)
qed

lemma take_out_vacant:
  assumes "slab_wf s" and "i < length (slots s)" and "\<not> is_occupied (slots s ! i)"
    and "handle_index h = i" and "handle_ptr h = object_ptr_unchecked s i"
  shows "take_out s h = Some (s, Panicked)"
proof -
  obtain n where n: "slots s ! i = Vacant n" using assms(3) by (cases "slots s ! i") auto
  then have "(slots s)[i := Vacant n] = slots s" by (metis list_update_id)
  with n assms show ?thesis by (simp add: take_out_def slot_meta_at_in_range Let_def)
qed

lemma slab_object_new [simp]: "slab_object (slab_new l policy base) h = None"
  by (simp add: slab_object_def slab_new_def)

lemma slab_object_update:
  assumes "same_frame s s'" and "slots s' = (slots s)[i := m]" and "i < length (slots s)"
  shows "slab_object s' h =
    (if handle_index h = i \<and> handle_ptr h = object_ptr_unchecked s i
     then case m of Occupied x \<Rightarrow> Some x | Vacant _ \<Rightarrow> None else
     if handle_index h = i then None else slab_object s h)"
  using assms by (auto simp: slab_object_def object_ptr_frame)

text \<open>The two operations as a store of objects.\<close>

definition slab_room :: "'o slab \<Rightarrow> bool" where
  "slab_room s = (\<not> slab_is_full s)"

definition slab_put :: "'o slab \<Rightarrow> 'o \<Rightarrow> ('o slab \<times> slab_handle) option" where
  "slab_put s x =
     (case insert_with_unchecked s (object_layout (slab_layout_of s)) (Completed x) of
        Some (s', Completed h) \<Rightarrow> Some (s', h) | _ \<Rightarrow> None)"

definition slab_take :: "'o slab \<Rightarrow> slab_handle \<Rightarrow> ('o slab \<times> 'o) option" where
  "slab_take s h = (case take_out s h of Some (s', Completed x) \<Rightarrow> Some (s', x) | _ \<Rightarrow> None)"

interpretation slab: object_store slab_object slab_put slab_take slab_len slab_room slab_wf
proof unfold_locales
  fix s :: "'o slab" and x assume s: "slab_wf s" "slab_room s"
  let ?i = "next_free_slot_index s"
  let ?h = "\<lparr>handle_index = ?i, handle_ptr = object_ptr_unchecked s ?i\<rparr>"
  obtain s' where r: "insert_with_unchecked s (object_layout (slab_layout_of s)) (Completed x) =
      Some (s', Completed ?h)" "slab_wf s'" "same_frame s s'" "slots s' = (slots s)[?i := Occupied x]"
    "?i < length (slots s)" "\<not> is_occupied (slots s ! ?i)" "slab_len s' = Suc (slab_len s)"
    using insert_spec[OF s(1), of _ x] s(2) by (auto simp: slab_room_def)
  have "slab_object s h = None" if "handle_index h = ?i" for h
    using r(6) that by (auto simp: slab_object_def split: slot_meta.splits)
  then have "slab_object s' h = ((slab_object s)(?h \<mapsto> x)) h" for h
    using slab_object_update[OF r(3-5), of h] by (cases h) auto
  moreover have "slab_object s ?h = None"
    using r(6) by (auto simp: slab_object_def split: slot_meta.splits)
  ultimately show "\<exists>s' h. slab_put s x = Some (s', h) \<and> slab_wf s' \<and> slab_object s h = None
      \<and> slab_object s' = (slab_object s)(h \<mapsto> x) \<and> slab_len s' = Suc (slab_len s)"
    using r by (intro exI[of _ s'] exI[of _ ?h]) (auto simp: slab_put_def)
next
  fix s :: "'o slab" and h x assume s: "slab_wf s" and h: "slab_object s h = Some x"
  obtain s' where r: "take_out s h = Some (s', Completed x)" "slab_wf s'" "same_frame s s'"
    "slots s' = (slots s)[handle_index h := Vacant (next_free_slot_index s)]"
    "Suc (slab_len s') = slab_len s"
    using take_out_spec[OF s h] by blast
  have i: "handle_index h < length (slots s)" "object_ptr_unchecked s (handle_index h) = handle_ptr h"
    using h by (auto simp: slab_object_def split: if_splits)
  have "slab_object s' k = ((slab_object s)(h := None)) k" for k
    using slab_object_update[OF r(3,4) i(1), of k] i by (cases k; cases h) (auto simp: slab_object_def)
  then show "\<exists>s'. slab_take s h = Some (s', x) \<and> slab_wf s'
      \<and> slab_object s' = (slab_object s)(h := None) \<and> Suc (slab_len s') = slab_len s"
    using r by (intro exI[of _ s']) (auto simp: slab_take_def)
qed

section \<open>Iteration\<close>

definition pending_slots :: "'o slab \<Rightarrow> slab_iterator \<Rightarrow> usize list" where
  "pending_slots s it =
     filter (\<lambda>i. is_occupied (slots s ! i)) [current_front_index it..<current_back_index it]"

definition slab_iter_rest :: "'o slab \<Rightarrow> slab_iterator \<Rightarrow> addr list" where
  "slab_iter_rest s it = map (object_ptr_unchecked s) (pending_slots s it)"

definition slab_iter_ok :: "'o slab \<Rightarrow> slab_iterator \<Rightarrow> bool" where
  "slab_iter_ok s it =
     (slab_wf s \<and> current_front_index it \<le> current_back_index it
      \<and> current_back_index it \<le> slot_capacity (slab_layout_of s)
      \<and> yielded_count it + length (pending_slots s it) = occupied_count s)"

lemma filter_nth_upt: "map (\<lambda>i. xs ! i) (filter (\<lambda>i. P (xs ! i)) [0..<length xs]) = filter P xs"
  using filter_map[of P "\<lambda>i. xs ! i" "[0..<length xs]"] by (simp add: map_nth comp_def)

lemma slab_iter_ok: "slab_wf s \<Longrightarrow> slab_iter_ok s (slab_iter s)"
  using arg_cong[OF filter_nth_upt[of "slots s" is_occupied], of length]
  by (simp add: slab_iter_ok_def slab_iter_def pending_slots_def slab_wf_def)

lemma slab_iter_done:
  "slab_iter_ok s it \<Longrightarrow> pending_slots s it = [] \<Longrightarrow>
   slab_next s it = Some (it, None) \<and> slab_next_back s it = Some (it, None)"
  by (simp add: slab_iter_ok_def slab_next.simps[of s it] slab_next_back.simps[of s it])

lemma slab_next_spec:
  assumes "slab_iter_ok s it" and "pending_slots s it = i # is"
  shows "\<exists>it'. slab_next s it = Some (it', Some (object_ptr_unchecked s i))
    \<and> slab_iter_ok s it' \<and> pending_slots s it' = is"
  using assms
proof (induction "current_back_index it - current_front_index it" arbitrary: it)
  case 0
  then show ?case by (simp add: pending_slots_def)
next
  case (Suc d)
  let ?f = "current_front_index it"
  let ?it = "it\<lparr>current_front_index := Suc ?f\<rparr>"
  have f: "?f < current_back_index it" using Suc.hyps(2) by simp
  have wf: "slab_wf s" "?f < length (slots s)" "occupied_count s < usize_range" "?f < usize_range"
    using Suc.prems(1) f slab_len_le[of s] by (auto simp: slab_iter_ok_def slab_wf_def slab_len_def)
  have y: "yielded_count it < occupied_count s"
    using Suc.prems by (simp add: slab_iter_ok_def)
  have inc: "wrapping_add ?f 1 = Suc ?f" "wrapping_add (yielded_count it) 1 = Suc (yielded_count it)"
    using f wf y Suc.prems(1) by (auto simp: usize_simps slab_iter_ok_def slab_wf_def)
  have pend: "pending_slots s it =
      (if is_occupied (slots s ! ?f) then ?f # pending_slots s ?it else pending_slots s ?it)"
    using f by (simp add: pending_slots_def upt_conv_Cons)
  show ?case
  proof (cases "slots s ! ?f")
    case (Occupied x)
    then have "slab_next s it =
        Some (?it\<lparr>yielded_count := Suc (yielded_count it)\<rparr>, Some (object_ptr_unchecked s ?f))"
      using y inc slot_meta_at_in_range[OF wf(1,2)] by (simp add: slab_next.simps[of s it] Let_def)
    with Occupied pend Suc.prems f show ?thesis
      by (auto simp: slab_iter_ok_def pending_slots_def)
  next
    case (Vacant n)
    then have step: "slab_next s it = slab_next s ?it"
      using y inc slot_meta_at_in_range[OF wf(1,2)] by (simp add: slab_next.simps[of s it] Let_def)
    show ?thesis unfolding step
      using Vacant pend Suc f by (intro Suc.hyps(1)) (auto simp: slab_iter_ok_def)
  qed
qed

lemma slab_next_back_spec:
  assumes "slab_iter_ok s it" and "pending_slots s it = is @ [i]"
  shows "\<exists>it'. slab_next_back s it = Some (it', Some (object_ptr_unchecked s i))
    \<and> slab_iter_ok s it' \<and> pending_slots s it' = is"
  using assms
proof (induction "current_back_index it - current_front_index it" arbitrary: it)
  case 0
  then show ?case by (simp add: pending_slots_def)
next
  case (Suc d)
  let ?b = "current_back_index it - 1"
  let ?it = "it\<lparr>current_back_index := ?b\<rparr>"
  have b: "current_front_index it \<le> ?b" "current_back_index it = Suc ?b" using Suc.hyps(2) by simp_all
  have wf: "slab_wf s" "?b < length (slots s)" "occupied_count s < usize_range"
    using Suc.prems(1) b slab_len_le[of s] by (auto simp: slab_iter_ok_def slab_wf_def slab_len_def)
  have y: "yielded_count it < occupied_count s"
    using Suc.prems by (simp add: slab_iter_ok_def)
  have inc: "wrapping_sub (current_back_index it) 1 = ?b"
    "wrapping_add (yielded_count it) 1 = Suc (yielded_count it)"
    using b wf y by (auto simp: usize_simps)
  have "[current_front_index it..<Suc ?b] = [current_front_index it..<?b] @ [?b]"
    using b(1) by (rule upt_Suc_append)
  then have pend: "pending_slots s it =
      (if is_occupied (slots s ! ?b) then pending_slots s ?it @ [?b] else pending_slots s ?it)"
    using b(2) by (simp add: pending_slots_def)
  show ?case
  proof (cases "slots s ! ?b")
    case (Occupied x)
    then have "slab_next_back s it =
        Some (?it\<lparr>yielded_count := Suc (yielded_count it)\<rparr>, Some (object_ptr_unchecked s ?b))"
      using y inc slot_meta_at_in_range[OF wf(1,2)] by (simp add: slab_next_back.simps[of s it] Let_def)
    with Occupied pend Suc.prems b show ?thesis
      by (auto simp: slab_iter_ok_def pending_slots_def)
  next
    case (Vacant n)
    then have step: "slab_next_back s it = slab_next_back s ?it"
      using y inc slot_meta_at_in_range[OF wf(1,2)] by (simp add: slab_next_back.simps[of s it] Let_def)
    show ?thesis unfolding step
      using Vacant pend Suc b by (intro Suc.hyps(1)) (auto simp: slab_iter_ok_def)
  qed
qed

interpretation slab_iteration: double_ended "slab_next s" "slab_next_back s" "slab_iter_rest s" "slab_iter_ok s"
  for s :: "'o slab"
proof unfold_locales
  fix it x xs assume ok: "slab_iter_ok s it" and r: "slab_iter_rest s it = x # xs"
  then obtain i "is" where "pending_slots s it = i # is" "x = object_ptr_unchecked s i"
    "xs = map (object_ptr_unchecked s) is" by (auto simp: slab_iter_rest_def)
  with slab_next_spec[OF ok] show "\<exists>it'. slab_next s it = Some (it', Some x) \<and> slab_iter_ok s it'
      \<and> slab_iter_rest s it' = xs" by (metis slab_iter_rest_def)
next
  fix it x xs assume ok: "slab_iter_ok s it" and r: "slab_iter_rest s it = xs @ [x]"
  then obtain "is" i where "pending_slots s it = is @ [i]" "x = object_ptr_unchecked s i"
    "xs = map (object_ptr_unchecked s) is" by (auto simp: slab_iter_rest_def map_eq_append_conv)
  with slab_next_back_spec[OF ok] show "\<exists>it'. slab_next_back s it = Some (it', Some x) \<and> slab_iter_ok s it'
      \<and> slab_iter_rest s it' = xs" by (metis slab_iter_rest_def)
qed (simp_all add: slab_iter_rest_def slab_iter_done)

section \<open>Removal and drop\<close>

lemma slab_remove_spec:
  assumes "slab_wf s" and "slab_object s h = Some x"
  shows "\<exists>s'. slab_remove drop_glue s h = Some (s', Completed (drop_glue x)) \<and> slab_wf s'
    \<and> same_frame s s' \<and> slab_object s' = (slab_object s)(h := None) \<and> Suc (slab_len s') = slab_len s"
proof -
  obtain s' where t: "slab_take s h = Some (s', x)" "slab_wf s'"
    "slab_object s' = (slab_object s)(h := None)" "Suc (slab_len s') = slab_len s"
    using slab.take_ok[OF assms] by blast
  then have "take_out s h = Some (s', Completed x)"
    by (auto simp: slab_take_def split: option.splits completion.splits)
  moreover have "same_frame s s'" using take_out_spec[OF assms] calculation by auto
  ultimately show ?thesis using t by (simp add: slab_remove_def)
qed

fun live_objects :: "'o slot_meta list \<Rightarrow> 'o list" where
  "live_objects [] = []"
| "live_objects (Occupied x # ms) = x # live_objects ms"
| "live_objects (Vacant n # ms) = live_objects ms"

fun first_some :: "'p option list \<Rightarrow> 'p option" where
  "first_some [] = None"
| "first_some (None # ps) = first_some ps"
| "first_some (Some p # ps) = Some p"

lemma drop_slots_spec:
  "drop_slots drop_glue ms d fp =
     (d @ live_objects ms,
      case fp of Some p \<Rightarrow> Some p | None \<Rightarrow> first_some (map drop_glue (live_objects ms)))"
proof (induction ms arbitrary: d fp)
  case (Cons m ms)
  show ?case
  proof (cases m)
    case (Occupied x)
    with Cons show ?thesis by (cases "drop_glue x"; cases fp) simp_all
  next
    case (Vacant n)
    with Cons show ?thesis by (cases fp) simp_all
  qed
qed (simp split: option.splits)

lemma length_live_objects: "length (live_objects ms) = length (filter is_occupied ms)"
  by (induction ms rule: live_objects.induct) simp_all

section \<open>Placement\<close>

text \<open>
  The block the allocator returned: aligned to the slot array's layout and inside the address space.
\<close>

definition slab_placed :: "layout \<Rightarrow> 'o slab \<Rightarrow> bool" where
  "slab_placed meta s =
     (geometry meta (slab_layout_of s)
      \<and> align_of (slot_array_layout (slab_layout_of s)) dvd first_slot_ptr s
      \<and> first_slot_ptr s + size_of (slot_array_layout (slab_layout_of s)) < usize_range)"

lemma object_ptr_linear:
  assumes "slab_placed meta s" and "i < slot_capacity (slab_layout_of s)"
  shows "object_ptr_unchecked s i =
    first_slot_ptr s + i * size_of (slot_layout (slab_layout_of s)) + slot_to_object_offset (slab_layout_of s)"
proof -
  let ?l = "slab_layout_of s"
  have "i * size_of (slot_layout ?l) \<le> slot_capacity ?l * size_of (slot_layout ?l)"
    using assms(2) by (intro mult_le_mono1) simp
  moreover have "size_of (slot_array_layout ?l) = slot_capacity ?l * size_of (slot_layout ?l)"
    "first_slot_ptr s + size_of (slot_array_layout ?l) < usize_range"
    using assms(1) unfolding slab_placed_def geometry_def by blast+
  ultimately have "i * size_of (slot_layout ?l) < usize_range" by linarith
  then show ?thesis by (simp add: object_ptr_unchecked_def slot_ptr_unchecked_def usize_simps)
qed

lemma slot_stride:
  assumes "i < (j :: nat)" shows "i * n + n \<le> j * n"
  using mult_le_mono1[of "Suc i" j n] assms by simp

section \<open>Properties\<close>

text \<open>Inserting into a sound slab that is not full hands out a handle no live object has, keeps
  every other object where it is, and keeps the slab sound; an initializer that unwinds leaves the
  slab as it was.\<close>

theorem slab_insert_functional:
  assumes "slab_wf s" and "\<not> slab_is_full s"
  shows "insert_with_unchecked s (object_layout (slab_layout_of s)) Panicked = Some (s, Panicked)
    \<and> (\<exists>s' h. insert_with_unchecked s (object_layout (slab_layout_of s)) (Completed x)
          = Some (s', Completed h)
        \<and> slab_wf s' \<and> slab_object s h = None \<and> slab_object s' = (slab_object s)(h \<mapsto> x)
        \<and> slab_len s' = Suc (slab_len s))"
proof -
  obtain s' h where "slab_put s x = Some (s', h)" "slab_wf s'" "slab_object s h = None"
    "slab_object s' = (slab_object s)(h \<mapsto> x)" "slab_len s' = Suc (slab_len s)"
    using slab.put_ok[OF assms(1), of x] assms(2) by (auto simp: slab_room_def)
  then show ?thesis
    using insert_panicked[OF assms]
    by (auto simp: slab_put_def split: option.splits completion.splits)
qed

definition small_layout :: slab_layout where
  "small_layout = \<lparr>slot_capacity = 3, object_layout = \<lparr>size_of = 8, align_of = 8\<rparr>,
     slot_layout = \<lparr>size_of = 32, align_of = 8\<rparr>, slot_to_object_offset = 24,
     slot_array_layout = \<lparr>size_of = 96, align_of = 8\<rparr>\<rparr>"

definition small_slab :: "nat slab" where
  "small_slab = slab_new small_layout MustNotDropContents 4096"

lemma small_slab_wf: "slab_wf small_slab \<and> \<not> slab_is_full small_slab"
  using slab_new_wf[of small_layout MustNotDropContents 4096]
  by (simp add: small_slab_def small_layout_def usize_range_def slab_is_full_def slab_new_def)

theorem slab_insert_functional_witness:
  "\<exists>s' h. insert_with_unchecked small_slab \<lparr>size_of = 8, align_of = 8\<rparr> (Completed 7)
     = Some (s', Completed h) \<and> slab_object s' h = Some 7 \<and> slab_len s' = 1"
  using slab_insert_functional[of small_slab 7] small_slab_wf
  by (force simp: small_slab_def slab_new_def small_layout_def slab_len_def)

text \<open>C15: Removing a live object runs its destructor once the slab is consistent again: whether or
  not the destructor unwinds, exactly that object is gone and the slab is sound. Removing a vacant
  slot again panics and leaves the slab untouched.\<close>

theorem slab_remove_consistent:
  assumes "slab_wf s"
  shows "(\<forall>x. slab_object s h = Some x \<longrightarrow>
      (\<exists>s'. slab_remove drop_glue s h = Some (s', Completed (drop_glue x)) \<and> slab_wf s'
        \<and> slab_object s' = (slab_object s)(h := None) \<and> Suc (slab_len s') = slab_len s))
    \<and> (handle_index h < length (slots s) \<and> handle_ptr h = object_ptr_unchecked s (handle_index h)
        \<and> slab_object s h = None \<longrightarrow> slab_remove drop_glue s h = Some (s, Panicked))"
proof (intro conjI allI impI)
  fix x assume "slab_object s h = Some x"
  then show "\<exists>s'. slab_remove drop_glue s h = Some (s', Completed (drop_glue x)) \<and> slab_wf s'
      \<and> slab_object s' = (slab_object s)(h := None) \<and> Suc (slab_len s') = slab_len s"
    using slab_remove_spec[OF assms] by blast
next
  assume h: "handle_index h < length (slots s) \<and> handle_ptr h = object_ptr_unchecked s (handle_index h)
      \<and> slab_object s h = None"
  then have "\<not> is_occupied (slots s ! handle_index h)"
    by (auto simp: slab_object_def split: slot_meta.splits)
  with h have "take_out s h = Some (s, Panicked)" using take_out_vacant[OF assms, of "handle_index h" h] by simp
  then show "slab_remove drop_glue s h = Some (s, Panicked)" by (simp add: slab_remove_def)
qed

theorem slab_remove_consistent_witness:
  "slab_remove Some small_slab \<lparr>handle_index = 1, handle_ptr = 4152\<rparr> = Some (small_slab, Panicked)"
  using slab_remove_consistent[of small_slab "\<lparr>handle_index = 1, handle_ptr = 4152\<rparr>" Some] small_slab_wf
  by (simp add: small_slab_def slab_new_def small_layout_def slab_object_def object_ptr_unchecked_def
      slot_ptr_unchecked_def wrapping_mul_def usize_range_def)

text \<open>However a caller alternates between the two ends of the iterator, the pulls end and give the
  address of every occupied slot exactly once, the front ones in slot order and the back ones in
  reverse.\<close>

theorem slab_iterates_once:
  assumes "slab_wf s" and "slab_len s \<le> length ends"
  shows "\<exists>xs it ys. pull_script (slab_next s) (slab_next_back s) ends (slab_iter s) = Some (xs, it, ys)
    \<and> xs @ rev ys = map (object_ptr_unchecked s)
        (filter (\<lambda>i. is_occupied (slots s ! i)) [0..<slot_capacity (slab_layout_of s)])
    \<and> length xs + length ys = slab_len s"
proof -
  have rest: "slab_iter_rest s (slab_iter s) = map (object_ptr_unchecked s)
      (filter (\<lambda>i. is_occupied (slots s ! i)) [0..<slot_capacity (slab_layout_of s)])"
    by (simp add: slab_iter_rest_def pending_slots_def slab_iter_def)
  have ok: "slab_iter_ok s (slab_iter s)" using assms(1) by (rule slab_iter_ok)
  then have len: "length (slab_iter_rest s (slab_iter s)) = slab_len s"
    by (simp add: slab_iter_ok_def slab_iter_rest_def slab_len_def slab_iter_def)
  with slab_iteration.pull_script_all[OF ok, of ends] assms(2)
  obtain xs it ys where p: "pull_script (slab_next s) (slab_next_back s) ends (slab_iter s) = Some (xs, it, ys)"
    "xs @ rev ys = slab_iter_rest s (slab_iter s)" by auto
  then have "length xs + length ys = slab_len s" using len by (metis length_append length_rev)
  with p rest show ?thesis by auto
qed

theorem slab_iterates_once_witness:
  "\<exists>xs it ys. pull_script (slab_next small_slab) (slab_next_back small_slab) [True, False] (slab_iter small_slab)
     = Some (xs, it, ys) \<and> length xs + length ys = 0"
  using slab_iterates_once[of small_slab "[True, False]"] small_slab_wf
  by (auto simp: small_slab_def slab_new_def slab_len_def)

text \<open>Dropping a slab runs the destructor of every object it holds exactly once, in slot order, even
  when some unwind; the first payload is rethrown, and only a drop without one, on a thread that is
  not unwinding, may report the forbidden contents.\<close>

theorem slab_drop_all:
  assumes "slab_wf s"
  shows "slab_drop drop_glue unwinding s =
    (live_objects (slots s),
     case first_some (map drop_glue (live_objects (slots s))) of
       Some p \<Rightarrow> Rethrown p
     | None \<Rightarrow> if \<not> unwinding \<and> slab_policy s = MustNotDropContents \<and> live_objects (slots s) \<noteq> []
               then PolicyPanic (length (live_objects (slots s))) else DropReturned)"
proof -
  have "occupied_count s = length (live_objects (slots s))"
    using assms by (simp add: slab_wf_def length_live_objects)
  then show ?thesis
    by (simp add: slab_drop_def slab_is_empty_def drop_slots_spec Let_def split: option.splits)
qed

theorem slab_drop_all_witness: "slab_drop (\<lambda>x. Some x) False small_slab = ([], DropReturned)"
  using slab_drop_all[of small_slab "\<lambda>x. Some x" False] small_slab_wf
  by (simp add: small_slab_def slab_new_def small_layout_def upt_rec)


definition placed_slab :: "nat slab" where
  "placed_slab = slab_new (small_layout\<lparr>slot_capacity := 512, slot_array_layout := \<lparr>size_of = 16384, align_of = 8\<rparr>\<rparr>)
     MayDropContents 4096"


end
