(* ===== verification/VacancyMap.thy ===== *)
theory VacancyMap
  imports Prelude
begin

text \<open>
  Package \<open>infinity_pool\<close>, \<open>opaque/vacancy_map.rs\<close>: the bit vector in 64-bit blocks
  behind the vacancy tracker.

  \<open>vacancy_bits\<close> is the abstract value, the list of the bits below the length. The blocks
  may hold further bits past the length; \<open>spare_all\<close> says that these all have one value.
  The interface the tracker relies on is the locale \<open>bit_vector\<close> at the end.
\<close>

section \<open>Model\<close>

type_synonym bit_block = "64 word"

definition bits_per_block :: usize where
  "bits_per_block = 64"

record vacancy_map =
  blocks :: "bit_block list"
  len_bits :: usize

definition vacancy_map_new :: vacancy_map where
  "vacancy_map_new = \<lparr>blocks = [], len_bits = 0\<rparr>"

definition vacancy_map_len :: "vacancy_map \<Rightarrow> usize" where
  "vacancy_map_len m = len_bits m"

definition get_bit_in :: "bit_block \<Rightarrow> usize \<Rightarrow> bool" where
  "get_bit_in block bit_index = (block AND push_bit bit_index 1 \<noteq> 0)"

definition set_bit_in :: "bit_block \<Rightarrow> usize \<Rightarrow> bit_block" where
  "set_bit_in block bit_index = block OR push_bit bit_index 1"

definition clear_bit_in :: "bit_block \<Rightarrow> usize \<Rightarrow> bit_block" where
  "clear_bit_in block bit_index = block AND NOT (push_bit bit_index 1)"

definition write_bit :: "bool \<Rightarrow> bit_block \<Rightarrow> usize \<Rightarrow> bit_block" where
  "write_bit value block i = (if value then set_bit_in block i else clear_bit_in block i)"

definition vacancy_map_resize :: "vacancy_map \<Rightarrow> usize \<Rightarrow> bool \<Rightarrow> vacancy_map" where
  "vacancy_map_resize m n initial_value =
     (if n = len_bits m then m
      else
        let old_len_bits = len_bits m;
            new_len_blocks = div_ceil n bits_per_block;
            old_len_blocks = div_ceil old_len_bits bits_per_block
        in if old_len_bits < n then
             let grown = vec_resize new_len_blocks (if initial_value then - 1 else 0) (blocks m)
             in if old_len_bits mod bits_per_block \<noteq> 0 \<and> old_len_blocks = new_len_blocks then
                  let partial_index = wrapping_sub old_len_blocks 1;
                      partial_block =
                        fold (\<lambda>i b. write_bit initial_value b i)
                          [old_len_bits mod bits_per_block..<n mod bits_per_block]
                          (grown ! partial_index)
                  in \<lparr>blocks = grown[partial_index := partial_block], len_bits = n\<rparr>
                else \<lparr>blocks = grown, len_bits = n\<rparr>
           else \<lparr>blocks = take new_len_blocks (blocks m), len_bits = n\<rparr>)"

text \<open>
  \<open>replace_unchecked\<close>: the debug assertion on the index is also the safety contract, so a
  run that breaks it has no value.
\<close>

definition replace_unchecked :: "vacancy_map \<Rightarrow> usize \<Rightarrow> bool \<Rightarrow> (vacancy_map \<times> bool) option" where
  "replace_unchecked m index value = do {
     require (index < len_bits m);
     let block_index = index div bits_per_block;
     let index_in_block = index mod bits_per_block;
     require (block_index < length (blocks m));
     let block = blocks m ! block_index;
     let old_value = get_bit_in block index_in_block;
     Some (m\<lparr>blocks := (blocks m)[block_index := write_bit value block index_in_block]\<rparr>, old_value)
   }"

text \<open>Range bounds of \<open>get\<close>, as the standard library's \<open>Bound\<close>.\<close>

datatype bound = Included usize | Excluded usize | Unbounded

record vacancy_slice =
  slice_map :: vacancy_map
  start_bit_index :: usize
  end_bit_index :: usize

definition vacancy_map_get :: "vacancy_map \<Rightarrow> bound \<Rightarrow> bound \<Rightarrow> vacancy_slice option" where
  "vacancy_map_get m start_bound end_bound = do {
     s \<leftarrow> (case start_bound of Included s \<Rightarrow> Some s | Excluded s \<Rightarrow> checked_add s 1 | Unbounded \<Rightarrow> Some 0);
     e \<leftarrow> (case end_bound of Included e \<Rightarrow> checked_add e 1 | Excluded e \<Rightarrow> Some e
             | Unbounded \<Rightarrow> Some (len_bits m));
     if e < s \<or> len_bits m < e then None
     else Some \<lparr>slice_map = m, start_bit_index = s, end_bit_index = e\<rparr>
   }"

definition mask_bits :: "bit_block \<Rightarrow> usize \<Rightarrow> usize \<Rightarrow> bit_block" where
  "mask_bits block s e =
     (let mask_start = push_bit s (- 1);
          one_past_end_bit_index = wrapping_add e 1;
          mask_past_end = push_bit one_past_end_bit_index 1;
          mask_end = mask_past_end - 1
      in block AND mask_start AND mask_end)"

text \<open>
  The scan loop of \<open>first_one\<close>. \<open>None\<close> is a run that reads a block out of bounds or
  never ends; \<open>Some None\<close> is a run that finds no bit.
\<close>

partial_function (option) first_one_scan ::
    "vacancy_slice \<Rightarrow> usize \<Rightarrow> usize \<Rightarrow> usize option option" where
  "first_one_scan sl start_bit bits_remaining =
     (if bits_remaining = 0 then Some None
      else
        let block_index = start_bit div bits_per_block;
            start_index_in_block = start_bit mod bits_per_block;
            end_exclusive = min bits_per_block (wrapping_add start_index_in_block bits_remaining)
        in if length (blocks (slice_map sl)) \<le> block_index then None
           else
             let masked_block = mask_bits (blocks (slice_map sl) ! block_index)
                                  start_index_in_block (wrapping_sub end_exclusive 1)
             in if masked_block \<noteq> 0 then
                  let absolute_pos = wrapping_add (wrapping_mul block_index bits_per_block)
                                       (trailing_zeros masked_block)
                  in Some (Some (wrapping_sub absolute_pos (start_bit_index sl)))
                else
                  let scanned = wrapping_sub end_exclusive start_index_in_block
                  in first_one_scan sl (wrapping_add start_bit scanned)
                       (wrapping_sub bits_remaining scanned))"

definition first_one :: "vacancy_slice \<Rightarrow> usize option option" where
  "first_one sl =
     first_one_scan sl (start_bit_index sl)
       (wrapping_sub (end_bit_index sl) (start_bit_index sl))"

section \<open>Abstract value and well-formedness\<close>

definition raw_bit :: "vacancy_map \<Rightarrow> nat \<Rightarrow> bool" where
  "raw_bit m i = bit (blocks m ! (i div 64)) (i mod 64)"

definition vacancy_bits :: "vacancy_map \<Rightarrow> bool list" where
  "vacancy_bits m = map (raw_bit m) [0..<len_bits m]"

definition vacancy_map_wf :: "vacancy_map \<Rightarrow> bool" where
  "vacancy_map_wf m = (length (blocks m) = div_ceil (len_bits m) 64 \<and> len_bits m < usize_range)"

definition spare_all :: "bool \<Rightarrow> vacancy_map \<Rightarrow> bool" where
  "spare_all v m = (\<forall>i. len_bits m \<le> i \<longrightarrow> i < 64 * length (blocks m) \<longrightarrow> raw_bit m i = v)"

lemmas vacancy_map_defs = bits_per_block_def get_bit_in_def set_bit_in_def clear_bit_in_def write_bit_def

section \<open>Single bits and masks\<close>

lemma get_bit_in_bit [simp, word_bit_simps]: "i < 64 \<Longrightarrow> get_bit_in b i = bit b i"
  unfolding get_bit_in_def by (rule and_shifted_one_nonzero) simp

lemma bit_write_bit [simp, word_bit_simps]:
  "i < 64 \<Longrightarrow> bit (write_bit v b i) j = (if j = i then v else bit b j)"
  by (auto simp: write_bit_def set_bit_in_def clear_bit_in_def bit_or_iff bit_and_iff bit_not_iff
      bit_exp_iff possible_bit_word dest: bit_imp_le_length)

lemma bit_mask_bits [word_bit_simps]:
  assumes "s < 64" and "e < 64"
  shows "bit (mask_bits b s e) i = (bit b i \<and> s \<le> i \<and> i \<le> e)"
proof -
  have "push_bit (e + 1) 1 - 1 = (mask (e + 1) :: bit_block)"
    by (simp add: mask_eq_exp_minus_1 push_bit_of_1)
  moreover have "wrapping_add e 1 = e + 1"
    using assms(2) by (simp add: usize_simps usize_range_def)
  ultimately show ?thesis
    using assms bit_imp_le_length[of b i]
    by (auto simp: mask_bits_def bit_and_iff bit_mask_iff bit_not_iff possible_bit_word
        dest: bit_imp_le_length)
qed

lemma div_mod_64_eq: "(i div 64 = j div 64 \<and> i mod 64 = j mod (64 :: nat)) = (i = j)"
  by (metis div_mult_mod_eq)

lemma vacancy_map_new_wf [simp]: "vacancy_map_wf vacancy_map_new"
  by (simp add: vacancy_map_wf_def vacancy_map_new_def div_ceil_def)

lemma length_vacancy_bits [simp]: "length (vacancy_bits m) = len_bits m"
  by (simp add: vacancy_bits_def)

lemma nth_vacancy_bits [simp]: "i < len_bits m \<Longrightarrow> vacancy_bits m ! i = raw_bit m i"
  by (simp add: vacancy_bits_def)

lemma vacancy_map_wf_block:
  assumes "vacancy_map_wf m" and "i < len_bits m"
  shows "i div 64 < length (blocks m)"
proof -
  have "len_bits m \<le> div_ceil (len_bits m) 64 * 64" by (rule div_ceil_upper) simp
  with assms show ?thesis
    by (simp add: vacancy_map_wf_def less_mult_imp_div_less)
qed

section \<open>Replacing one bit\<close>

lemma replace_unchecked_spec:
  assumes "vacancy_map_wf m" and "i < len_bits m"
  shows "\<exists>m'. replace_unchecked m i v = Some (m', raw_bit m i)
    \<and> len_bits m' = len_bits m \<and> length (blocks m') = length (blocks m)
    \<and> (\<forall>j. raw_bit m' j = (if j = i then v else raw_bit m j))"
proof -
  let ?m = "m\<lparr>blocks := (blocks m)[i div 64 := write_bit v (blocks m ! (i div 64)) (i mod 64)]\<rparr>"
  have b: "i div 64 < length (blocks m)" using assms by (rule vacancy_map_wf_block)
  then have "replace_unchecked m i v = Some (?m, raw_bit m i)"
    using assms(2) by (simp add: replace_unchecked_def bits_per_block_def raw_bit_def Let_def)
  moreover have "raw_bit ?m j = (if j = i then v else raw_bit m j)" for j
    using b div_mod_64_eq[of j i] by (auto simp: raw_bit_def nth_list_update)
  ultimately show ?thesis by auto
qed

lemma replace_unchecked_out_of_bounds:
  "len_bits m \<le> i \<Longrightarrow> replace_unchecked m i v = None"
  by (simp add: replace_unchecked_def)

section \<open>Scanning for the first set bit\<close>

text \<open>The first set bit at or after \<open>s\<close> and before \<open>e\<close>, relative to \<open>s\<close>.\<close>

definition scan_result :: "vacancy_map \<Rightarrow> nat \<Rightarrow> nat \<Rightarrow> nat option \<Rightarrow> bool" where
  "scan_result m s e r =
     (case r of
        None \<Rightarrow> \<forall>j. s \<le> j \<longrightarrow> j < e \<longrightarrow> \<not> raw_bit m j
      | Some k \<Rightarrow> s + k < e \<and> raw_bit m (s + k) \<and> (\<forall>j < k. \<not> raw_bit m (s + j)))"

lemma first_one_scan_spec:
  assumes "vacancy_map_wf m" and "slice_map sl = m"
    and "start_bit_index sl \<le> p" and "p + n \<le> len_bits m"
    and "\<forall>j. start_bit_index sl \<le> j \<longrightarrow> j < p \<longrightarrow> \<not> raw_bit m j"
  shows "\<exists>r. first_one_scan sl p n = Some r \<and> scan_result m (start_bit_index sl) (p + n) r"
  using assms(3-5)
proof (induction n arbitrary: p rule: less_induct)
  case (less n)
  let ?s = "start_bit_index sl"
  have bound: "p + n < usize_range" using less.prems assms(1) by (simp add: vacancy_map_wf_def)
  show ?case
  proof (cases "n = 0")
    case True
    then have "first_one_scan sl p n = Some None" by (simp add: first_one_scan.simps[of sl p 0])
    with True less.prems show ?thesis by (simp add: scan_result_def)
  next
    case False
    define b where "b = p div 64"
    define q where "q = p mod 64"
    define e where "e = min 64 (q + n)"
    define w where "w = mask_bits (blocks m ! b) q (e - 1)"
    have pq: "p = b * 64 + q" by (simp add: b_def q_def)
    have q: "q < 64" "q < e" "e \<le> 64" using False by (simp_all add: q_def e_def)
    have bl: "b < length (blocks m)"
      unfolding b_def using False less.prems assms(1) by (intro vacancy_map_wf_block) auto
    have raw: "raw_bit m (b * 64 + i) = bit (blocks m ! b) i" if "i < 64" for i
      using that by (simp add: raw_bit_def)
    have wbit: "bit w i = (q \<le> i \<and> i < e \<and> raw_bit m (b * 64 + i))" for i
      using q bit_imp_le_length[of "blocks m ! b" i]
      by (auto simp: w_def bit_mask_bits raw)
    have arith: "wrapping_add q n = q + n" "wrapping_sub e 1 = e - 1" "wrapping_sub e q = e - q"
      using bound q pq by (simp_all add: usize_simps)
    have unfold: "first_one_scan sl p n =
      (if w \<noteq> 0 then Some (Some (wrapping_sub
          (wrapping_add (wrapping_mul b 64) (trailing_zeros w)) ?s))
       else first_one_scan sl (wrapping_add p (e - q)) (wrapping_sub n (e - q)))"
      using False bl assms(2) arith
      by (simp add: first_one_scan.simps[of sl p n] Let_def bits_per_block_def w_def
          flip: b_def q_def e_def)
    show ?thesis
    proof (cases "w = 0")
      case True
      have clear: "\<not> raw_bit m j" if "?s \<le> j" "j < p + (e - q)" for j
      proof (cases "j < p")
        case False
        then have "j = b * 64 + (j - b * 64)" "q \<le> j - b * 64" "j - b * 64 < e"
          using that pq q by simp_all
        with wbit[of "j - b * 64"] True show ?thesis by simp
      qed (use less.prems that in blast)
      have step: "wrapping_add p (e - q) = p + (e - q)" "wrapping_sub n (e - q) = n - (e - q)"
        "n - (e - q) < n" "e - q \<le> n"
        using bound q False by (auto simp: usize_simps e_def)
      have "\<exists>r. first_one_scan sl (p + (e - q)) (n - (e - q)) = Some r
          \<and> scan_result m ?s (p + (e - q) + (n - (e - q))) r"
        using step less.prems clear by (intro less.IH) auto
      moreover have "p + (e - q) + (n - (e - q)) = p + n" using step(4) by simp
      moreover have "first_one_scan sl p n = first_one_scan sl (p + (e - q)) (n - (e - q))"
        unfolding unfold step(1,2) using True by simp
      ultimately show ?thesis by metis
    next
      case False
      let ?t = "trailing_zeros w"
      obtain i where "bit w i" using word_nonzero_has_bit[OF False] by blast
      then have t: "bit w ?t" using trailing_zeros_least by blast
      with wbit have tr: "q \<le> ?t" "?t < e" "raw_bit m (b * 64 + ?t)" by auto
      have pos: "b * 64 + ?t < p + n" using tr pq q by (simp add: e_def)
      define k where "k = b * 64 + ?t - ?s"
      have sk: "?s + k = b * 64 + ?t" using less.prems(1) pq tr by (simp add: k_def)
      have res: "first_one_scan sl p n = Some (Some k)"
        using unfold False pos bound sk less.prems(1) pq tr
        by (simp add: usize_simps k_def)
      have "\<not> raw_bit m (?s + j)" if "j < k" for j
      proof (cases "?s + j < p")
        case True
        with less.prems(3) show ?thesis by simp
      next
        case False
        let ?i = "?s + j - b * 64"
        have i: "?s + j = b * 64 + ?i" "q \<le> ?i" "?i < ?t" using False that sk pq by simp_all
        then have "\<not> bit w ?i" using trailing_zeros_below by blast
        with wbit[of ?i] i tr show ?thesis by simp
      qed
      with res sk tr pos show ?thesis by (auto simp: scan_result_def)
    qed
  qed
qed

section \<open>Resizing\<close>

lemma bit_fold_write_bit:
  "\<forall>i \<in> set is. i < 64 \<Longrightarrow>
   bit (fold (\<lambda>i b. write_bit v b i) is b) j = (if j \<in> set is then v else bit b j)"
  by (induction "is" arbitrary: b) auto

lemma resize_same: "vacancy_map_resize m (len_bits m) v = m"
  by (simp add: vacancy_map_resize_def)

lemma vacancy_map_resize_len [simp]: "len_bits (vacancy_map_resize m n v) = n"
  by (simp add: vacancy_map_resize_def Let_def)

lemma vacancy_map_resize_wf:
  assumes "vacancy_map_wf m" and "n < usize_range"
  shows "vacancy_map_wf (vacancy_map_resize m n v)"
proof -
  have "div_ceil n 64 \<le> div_ceil (len_bits m) 64" if "n \<le> len_bits m"
    using that by (rule div_ceil_mono) simp
  with assms show ?thesis
    by (auto simp: vacancy_map_wf_def vacancy_map_resize_def Let_def bits_per_block_def)
qed

lemma resize_shrink_raw:
  assumes "vacancy_map_wf m" and "n \<le> len_bits m" and "i < 64 * div_ceil n 64"
  shows "raw_bit (vacancy_map_resize m n v) i = raw_bit m i"
  using assms(2,3)
  by (auto simp: vacancy_map_resize_def Let_def bits_per_block_def raw_bit_def
      less_mult_imp_div_less mult.commute)

text \<open>
  When the vector grows, a bit beyond the old blocks is fresh and gets the initial value; a bit
  in the old partial block gets it only if the vector still ends inside that block.
\<close>

lemma resize_grow_raw:
  assumes wf: "vacancy_map_wf m" and grow: "len_bits m < n"
  shows "raw_bit (vacancy_map_resize m n v) i =
    (if i < 64 * length (blocks m)
     then (if div_ceil (len_bits m) 64 = div_ceil n 64 \<and> len_bits m \<le> i \<and> i < n \<and> n mod 64 \<noteq> 0
           then v else raw_bit m i)
     else if i < 64 * div_ceil n 64 then v else raw_bit (vacancy_map_resize m n v) i)"
proof -
  let ?l = "len_bits m" and ?fill = "(if v then - 1 else 0) :: bit_block"
  let ?grown = "vec_resize (div_ceil n 64) ?fill (blocks m)"
  have lb: "length (blocks m) = div_ceil ?l 64" using wf by (simp add: vacancy_map_wf_def)
  have mono: "div_ceil ?l 64 \<le> div_ceil n 64" using grow by (intro div_ceil_mono) auto
  have fill: "bit ?fill j = v" if "j < 64" for j
    using that by (simp add: possible_bit_word)
  have gr: "bit (?grown ! (i div 64)) (i mod 64) =
      (if i < 64 * length (blocks m) then raw_bit m i else v)" if "i < 64 * div_ceil n 64"
  proof -
    have "i div 64 < div_ceil n 64" using that by (simp add: less_mult_imp_div_less mult.commute)
    moreover have "(i div 64 < length (blocks m)) = (i < 64 * length (blocks m))"
      by (simp add: div_less_iff_less_mult mult.commute)
    ultimately show ?thesis using fill[of "i mod 64"] by (simp add: nth_vec_resize raw_bit_def)
  qed
  show ?thesis
  proof (cases "?l mod 64 \<noteq> 0 \<and> div_ceil ?l 64 = div_ceil n 64")
    case False
    then have r: "vacancy_map_resize m n v = \<lparr>blocks = ?grown, len_bits = n\<rparr>"
      using grow by (auto simp: vacancy_map_resize_def Let_def bits_per_block_def)
    have "\<not> (div_ceil ?l 64 = div_ceil n 64 \<and> ?l \<le> i \<and> i < 64 * length (blocks m))"
    proof
      assume a: "div_ceil ?l 64 = div_ceil n 64 \<and> ?l \<le> i \<and> i < 64 * length (blocks m)"
      with False have "?l mod 64 = 0" by simp
      then have "?l = 64 * length (blocks m)" using lb by (auto simp: div_ceil_def)
      with a show False by linarith
    qed
    with gr mono lb show ?thesis by (auto simp: r raw_bit_def)
  next
    case True
    define pi where "pi = ?l div 64"
    have "div_ceil ?l 64 = pi + 1" using True by (simp add: div_ceil_def pi_def)
    with True have ob: "div_ceil ?l 64 = pi + 1" "div_ceil n 64 = pi + 1" by simp_all
    have pl: "pi < length ?grown" using ob True by simp
    define w where "w = fold (\<lambda>i b. write_bit v b i) [?l mod 64..<n mod 64] (?grown ! pi)"
    have r: "vacancy_map_resize m n v = \<lparr>blocks = ?grown[pi := w], len_bits = n\<rparr>"
      using grow True ob unfolding w_def
      by (simp only: vacancy_map_resize_def Let_def bits_per_block_def) (simp add: wrapping_sub_def)
    have wbit: "bit w j = (if ?l mod 64 \<le> j \<and> j < n mod 64 then v else bit (?grown ! pi) j)" for j
      unfolding w_def by (subst bit_fold_write_bit) auto
    have n: "n div 64 = pi \<and> n mod 64 \<noteq> 0 \<or> n = 64 * (pi + 1)"
      using True ob by (auto simp: div_ceil_def split: if_splits)
    have rl: "raw_bit (vacancy_map_resize m n v) i =
        (if i div 64 = pi then bit w (i mod 64) else bit (?grown ! (i div 64)) (i mod 64))"
      using pl by (simp add: r raw_bit_def nth_list_update)
    have inblk: "(i < 64 * length (blocks m)) = (i div 64 \<le> pi)"
      using ob lb lt_64_Suc_iff[of i pi] by simp
    have window: "(?l mod 64 \<le> i mod 64 \<and> i mod 64 < n mod 64) = (?l \<le> i \<and> i < n \<and> n mod 64 \<noteq> 0)"
      if "i div 64 = pi"
    proof -
      have d: "i = 64 * pi + i mod 64" "?l = 64 * pi + ?l mod 64"
        using split_64[of i] split_64[of ?l] that unfolding pi_def by metis+
      from n show ?thesis
      proof
        assume a: "n div 64 = pi \<and> n mod 64 \<noteq> 0"
        then have "n = 64 * pi + n mod 64" by auto
        with a d show ?thesis by linarith
      next
        assume "n = 64 * (pi + 1)"
        then show ?thesis by simp
      qed
    qed
    have below: "\<not> (?l \<le> i) \<or> pi \<le> i div 64" by (auto simp: pi_def intro: div_le_mono)
    show ?thesis
      using gr rl wbit[of "i mod 64"] window below inblk True lb ob
      by (cases "i div 64 = pi") auto
  qed
qed

text \<open>
  A growing \<open>resize\<close> gives every new bit the initial value exactly under this condition: the
  new bits that lie in the old partial block are written only if the vector still ends strictly
  inside that block; otherwise they keep what the block held there before.
\<close>

definition fresh_bits_written :: "vacancy_map \<Rightarrow> usize \<Rightarrow> bool \<Rightarrow> bool" where
  "fresh_bits_written m n v =
     (div_ceil (len_bits m) 64 = div_ceil n 64 \<and> n mod 64 \<noteq> 0
      \<or> (\<forall>i. len_bits m \<le> i \<longrightarrow> i < min n (64 * length (blocks m)) \<longrightarrow> raw_bit m i = v))"

lemma spare_all_fresh: "spare_all v m \<Longrightarrow> fresh_bits_written m n v"
  by (auto simp: spare_all_def fresh_bits_written_def)

lemma below_div_ceil: "i < n \<Longrightarrow> i < 64 * div_ceil n 64"
  using div_ceil_upper[of 64 n] by (simp add: mult.commute)

lemma resize_keeps:
  assumes "vacancy_map_wf m" and "i < n" and "i < len_bits m"
  shows "raw_bit (vacancy_map_resize m n v) i = raw_bit m i"
proof (cases "n \<le> len_bits m")
  case True
  with assms show ?thesis by (intro resize_shrink_raw below_div_ceil)
next
  case False
  moreover have "i < 64 * length (blocks m)"
    using assms below_div_ceil[of i "len_bits m"] by (simp add: vacancy_map_wf_def)
  ultimately show ?thesis
    using resize_grow_raw[OF assms(1), of n v i] assms(3) by simp
qed

lemma resize_new_bit:
  assumes "vacancy_map_wf m" and "len_bits m \<le> i" and "i < n"
  shows "raw_bit (vacancy_map_resize m n v) i =
    (if i < 64 * length (blocks m) \<and> \<not> (div_ceil (len_bits m) 64 = div_ceil n 64 \<and> n mod 64 \<noteq> 0)
     then raw_bit m i else v)"
  using resize_grow_raw[OF assms(1), of n v i] assms below_div_ceil[OF assms(3)]
  by (auto split: if_splits)

lemma resize_grow_bits:
  assumes wf: "vacancy_map_wf m" and grow: "len_bits m < n"
  shows "(vacancy_bits (vacancy_map_resize m n v) =
      vacancy_bits m @ replicate (n - len_bits m) v) = fresh_bits_written m n v"
proof -
  let ?r = "vacancy_map_resize m n v"
  have "(vacancy_bits ?r = vacancy_bits m @ replicate (n - len_bits m) v) =
      (\<forall>i < n. raw_bit ?r i = (if i < len_bits m then raw_bit m i else v))"
    using grow by (auto simp: list_eq_iff_nth_eq nth_append)
  also have "\<dots> = (\<forall>i. len_bits m \<le> i \<longrightarrow> i < n \<longrightarrow> raw_bit ?r i = v)"
    using resize_keeps[OF wf] by auto
  also have "\<dots> = fresh_bits_written m n v"
    using resize_new_bit[OF wf, of _ n v] by (auto simp: fresh_bits_written_def)
  finally show ?thesis .
qed

lemma resize_shrink_bits:
  assumes "vacancy_map_wf m" and "n \<le> len_bits m"
  shows "vacancy_bits (vacancy_map_resize m n v) = take n (vacancy_bits m)"
  using assms resize_keeps[OF assms(1), of _ n v] by (auto simp: list_eq_iff_nth_eq)

lemma resize_grow_spare:
  assumes "vacancy_map_wf m" and "spare_all v m" and "len_bits m < n"
  shows "spare_all v (vacancy_map_resize m n v)"
proof -
  have len: "length (blocks (vacancy_map_resize m n v)) = div_ceil n 64"
    using assms(3) by (auto simp: vacancy_map_resize_def Let_def bits_per_block_def)
  show ?thesis
    unfolding spare_all_def len
  proof (intro allI impI)
    fix i assume "len_bits (vacancy_map_resize m n v) \<le> i" and i: "i < 64 * div_ceil n 64"
    then have "len_bits m \<le> i" using assms(3) by simp
    then have "i < 64 * length (blocks m) \<Longrightarrow> raw_bit m i = v"
      using assms(2) by (simp add: spare_all_def)
    then show "raw_bit (vacancy_map_resize m n v) i = v"
      using resize_grow_raw[OF assms(1,3), of v i] i by (auto split: if_splits)
  qed
qed

lemma resize_shrink_spare:
  assumes "vacancy_map_wf m" and "spare_all v m" and "n \<le> len_bits m"
    and "\<forall>i. n \<le> i \<longrightarrow> i < len_bits m \<longrightarrow> raw_bit m i = v"
  shows "spare_all v (vacancy_map_resize m n v)"
proof (cases "n = len_bits m")
  case True
  with assms(2) show ?thesis by (simp add: resize_same)
next
  case False
  have mono: "div_ceil n 64 \<le> div_ceil (len_bits m) 64"
    using assms(3) by (rule div_ceil_mono) simp
  then have len: "length (blocks (vacancy_map_resize m n v)) = div_ceil n 64"
    using False assms(1,3)
    by (auto simp: vacancy_map_resize_def Let_def bits_per_block_def vacancy_map_wf_def)
  show ?thesis
    unfolding spare_all_def len
  proof (intro allI impI)
    fix i assume "len_bits (vacancy_map_resize m n v) \<le> i" and i: "i < 64 * div_ceil n 64"
    then have n: "n \<le> i" by simp
    have "i < 64 * length (blocks m)"
      using i mono assms(1) by (simp add: vacancy_map_wf_def)
    with n assms(2,4) have "raw_bit m i = v"
      by (cases "i < len_bits m") (auto simp: spare_all_def)
    with resize_shrink_raw[OF assms(1,3) i] show "raw_bit (vacancy_map_resize m n v) i = v"
      by simp
  qed
qed

lemma replace_spare:
  assumes "vacancy_map_wf m" and "spare_all v m" and "replace_unchecked m i x = Some (m', old)"
  shows "spare_all v m'"
proof -
  have "i < len_bits m"
    using assms(3) replace_unchecked_out_of_bounds[of m i x] by (cases "i < len_bits m") auto
  with replace_unchecked_spec[OF assms(1), of i x] assms(2,3) show ?thesis
    by (auto simp: spare_all_def)
qed

section \<open>Slices\<close>

lemma get_from:
  "vacancy_map_get m (Included s) Unbounded =
     (if len_bits m < s then None
      else Some \<lparr>slice_map = m, start_bit_index = s, end_bit_index = len_bits m\<rparr>)"
  by (simp add: vacancy_map_get_def)

lemma get_Some:
  assumes "vacancy_map_get m a b = Some sl"
  shows "slice_map sl = m \<and> start_bit_index sl \<le> end_bit_index sl \<and> end_bit_index sl \<le> len_bits m"
  using assms by (auto simp: vacancy_map_get_def bind_eq_Some_iff split: if_splits)

lemma first_one_first_true:
  assumes wf: "vacancy_map_wf m" and "slice_map sl = m"
    and "start_bit_index sl \<le> end_bit_index sl" and "end_bit_index sl \<le> len_bits m"
  shows "first_one sl =
    Some (first_true (drop (start_bit_index sl) (take (end_bit_index sl) (vacancy_bits m))))"
proof -
  let ?s = "start_bit_index sl" and ?e = "end_bit_index sl"
  let ?bs = "drop ?s (take ?e (vacancy_bits m))"
  obtain r where r: "first_one_scan sl ?s (?e - ?s) = Some r" "scan_result m ?s ?e r"
    using first_one_scan_spec[OF wf assms(2), of ?s "?e - ?s"] assms(3,4) by auto
  have bits: "length ?bs = ?e - ?s" "\<And>i. i < ?e - ?s \<Longrightarrow> ?bs ! i = raw_bit m (?s + i)"
    using assms(3,4) by (simp_all add: add.commute)
  have "first_true ?bs = r"
  proof (cases r)
    case None
    have "\<not> ?bs ! i" if "i < length ?bs" for i
      using r(2) None that bits by (simp add: scan_result_def less_diff_conv add.commute)
    then have "True \<notin> set ?bs" by (metis in_set_conv_nth)
    with None show ?thesis by (simp add: first_true_None_iff)
  next
    case (Some k)
    with r(2) have "?s + k < ?e" "raw_bit m (?s + k)" "\<forall>j < k. \<not> raw_bit m (?s + j)"
      by (simp_all add: scan_result_def)
    with Some bits show ?thesis by (auto intro!: first_true_SomeI)
  qed
  with r(1) assms(3) show ?thesis by (simp add: first_one_def wrapping_sub_in_range)
qed

section \<open>The contract of a bit vector that grows with ones\<close>

locale bit_vector =
  fixes make :: 'm
    and grow_ones :: "'m \<Rightarrow> nat \<Rightarrow> 'm"
    and replace :: "'m \<Rightarrow> nat \<Rightarrow> bool \<Rightarrow> ('m \<times> bool) option"
    and slice_from :: "'m \<Rightarrow> nat \<Rightarrow> 's option"
    and first :: "'s \<Rightarrow> nat option option"
    and bits :: "'m \<Rightarrow> bool list"
    and invar :: "'m \<Rightarrow> bool"
  assumes make_invar: "invar make"
    and make_bits: "bits make = []"
    and grow_invar: "invar m \<Longrightarrow> length (bits m) < n \<Longrightarrow> n < usize_range \<Longrightarrow> invar (grow_ones m n)"
    and grow_bits: "invar m \<Longrightarrow> length (bits m) < n \<Longrightarrow> n < usize_range \<Longrightarrow>
      bits (grow_ones m n) = bits m @ replicate (n - length (bits m)) True"
    and shrink_invar: "invar m \<Longrightarrow> n \<le> length (bits m) \<Longrightarrow> False \<notin> set (drop n (bits m)) \<Longrightarrow>
      invar (grow_ones m n)"
    and shrink_bits: "invar m \<Longrightarrow> n \<le> length (bits m) \<Longrightarrow> bits (grow_ones m n) = take n (bits m)"
    and replace_ok: "invar m \<Longrightarrow> i < length (bits m) \<Longrightarrow>
      \<exists>m'. replace m i v = Some (m', bits m ! i) \<and> invar m' \<and> bits m' = (bits m)[i := v]"
    and slice_ok: "invar m \<Longrightarrow> s \<le> length (bits m) \<Longrightarrow>
      \<exists>sl. slice_from m s = Some sl \<and> first sl = Some (first_true (drop s (bits m)))"
begin

text \<open>Clearing the first set bit: the next one is the first one of the slice behind it.\<close>

lemma next_after_clear:
  assumes "invar m" and i: "first_true (bits m) = Some i"
  shows "\<exists>m' sl r. replace m i False = Some (m', True) \<and> invar m' \<and> bits m' = (bits m)[i := False]
    \<and> slice_from m' (i + 1) = Some sl \<and> first sl = Some r
    \<and> first_true (bits m') = map_option (\<lambda>k. i + 1 + k) r"
proof -
  from i have f: "i < length (bits m)" "bits m ! i" "\<forall>j < i. \<not> bits m ! j"
    by (simp_all add: first_true_Some_iff)
  then obtain m' where m': "replace m i False = Some (m', True)" "invar m'"
    "bits m' = (bits m)[i := False]"
    using replace_ok[OF assms(1)] by (metis (full_types))
  then obtain sl where sl: "slice_from m' (i + 1) = Some sl"
    "first sl = Some (first_true (drop (i + 1) (bits m')))"
    using slice_ok[OF m'(2), of "i + 1"] f(1) by auto
  have "True \<notin> set (take (i + 1) (bits m'))"
    using f(1,3) m'(3) by (auto simp: in_set_conv_nth nth_list_update less_Suc_eq)
  then have "first_true (take (i + 1) (bits m')) = None" by (rule first_true_None_iff[THEN iffD2])
  then have "first_true (take (i + 1) (bits m') @ drop (i + 1) (bits m')) =
      map_option (\<lambda>k. length (take (i + 1) (bits m')) + k) (first_true (drop (i + 1) (bits m')))"
    by (simp only: first_true_append option.case)
  moreover have "length (take (i + 1) (bits m')) = i + 1" using f(1) m'(3) by simp
  ultimately have "first_true (bits m') =
      map_option (\<lambda>k. i + 1 + k) (first_true (drop (i + 1) (bits m')))"
    by (simp only: append_take_drop_id)
  with m' sl show ?thesis by blast
qed

text \<open>Setting a bit: the first set bit becomes the smaller of the two.\<close>

lemma first_after_set:
  assumes "i < length (bits m)"
  shows "first_true ((bits m)[i := True]) =
    (case first_true (bits m) of None \<Rightarrow> Some i | Some j \<Rightarrow> Some (min i j))"
proof (cases "first_true (bits m)")
  case None
  then have "\<forall>j < length (bits m). \<not> bits m ! j"
    unfolding first_true_None_iff by (metis nth_mem)
  with None assms show ?thesis by (auto intro!: first_true_SomeI)
next
  case (Some j)
  then have "j < length (bits m)" "bits m ! j" "\<forall>k < j. \<not> bits m ! k"
    by (simp_all add: first_true_Some_iff)
  with Some assms show ?thesis
    by (auto intro!: first_true_SomeI simp: nth_list_update min_def)
qed

end

definition ones_invar :: "vacancy_map \<Rightarrow> bool" where
  "ones_invar m = (vacancy_map_wf m \<and> spare_all True m)"

lemma spare_all_new [simp]: "spare_all v vacancy_map_new"
  by (simp add: spare_all_def vacancy_map_new_def)

interpretation vmap: bit_vector vacancy_map_new "\<lambda>m n. vacancy_map_resize m n True"
  replace_unchecked "\<lambda>m s. vacancy_map_get m (Included s) Unbounded" first_one vacancy_bits ones_invar
proof unfold_locales
  show "ones_invar vacancy_map_new" by (simp add: ones_invar_def)
  show "vacancy_bits vacancy_map_new = []"
    by (simp add: vacancy_bits_def vacancy_map_new_def)
next
  fix m n assume m: "ones_invar m" and n: "length (vacancy_bits m) < n" "n < usize_range"
  show "ones_invar (vacancy_map_resize m n True)"
    using m n by (simp add: ones_invar_def vacancy_map_resize_wf resize_grow_spare)
  show "vacancy_bits (vacancy_map_resize m n True) =
      vacancy_bits m @ replicate (n - length (vacancy_bits m)) True"
    using m n resize_grow_bits[of m n True] spare_all_fresh[of True m n] by (simp add: ones_invar_def)
next
  fix m n assume m: "ones_invar m" and n: "n \<le> length (vacancy_bits m)"
  show "vacancy_bits (vacancy_map_resize m n True) = take n (vacancy_bits m)"
    using m n by (simp add: ones_invar_def resize_shrink_bits)
  assume d: "False \<notin> set (drop n (vacancy_bits m))"
  have "raw_bit m i" if "n \<le> i" "i < len_bits m" for i
  proof -
    have "vacancy_bits m ! i \<in> set (drop n (vacancy_bits m))"
      using that by (metis in_set_conv_nth add_diff_inverse_nat diff_less_mono length_drop
          length_vacancy_bits n not_less nth_drop)
    with d that show ?thesis by (metis (full_types) nth_vacancy_bits)
  qed
  moreover have "n < usize_range" using m n by (simp add: ones_invar_def vacancy_map_wf_def)
  ultimately show "ones_invar (vacancy_map_resize m n True)"
    using m n by (auto simp: ones_invar_def vacancy_map_resize_wf intro!: resize_shrink_spare)
next
  fix m i v assume m: "ones_invar m" and i: "i < length (vacancy_bits m)"
  then obtain m' where r: "replace_unchecked m i v = Some (m', raw_bit m i)"
    "len_bits m' = len_bits m" "length (blocks m') = length (blocks m)"
    "\<forall>j. raw_bit m' j = (if j = i then v else raw_bit m j)"
    using replace_unchecked_spec[of m i v] by (auto simp: ones_invar_def)
  have "ones_invar m'"
    using m r replace_spare[OF _ _ r(1)] by (simp add: ones_invar_def vacancy_map_wf_def)
  moreover have "vacancy_bits m' = (vacancy_bits m)[i := v]"
    using r by (auto simp: list_eq_iff_nth_eq nth_list_update)
  ultimately show "\<exists>m'. replace_unchecked m i v = Some (m', vacancy_bits m ! i) \<and> ones_invar m'
      \<and> vacancy_bits m' = (vacancy_bits m)[i := v]"
    using r(1) i by simp
next
  fix m s assume m: "ones_invar m" and s: "s \<le> length (vacancy_bits m)"
  let ?sl = "\<lparr>slice_map = m, start_bit_index = s, end_bit_index = len_bits m\<rparr>"
  have "first_one ?sl = Some (first_true (drop s (vacancy_bits m)))"
    using m s first_one_first_true[of m ?sl] by (simp add: ones_invar_def)
  with s show "\<exists>sl. vacancy_map_get m (Included s) Unbounded = Some sl
      \<and> first_one sl = Some (first_true (drop s (vacancy_bits m)))"
    by (simp add: get_from)
qed

section \<open>Properties\<close>

text \<open>On a well-formed vector, replacing an in-range bit returns the bit's old value and changes
  exactly that bit; an index at or past the length is refused.\<close>

theorem replace_unchecked_functional:
  assumes "vacancy_map_wf m"
  shows "if i < len_bits m
    then \<exists>m'. replace_unchecked m i v = Some (m', vacancy_bits m ! i) \<and> vacancy_map_wf m'
      \<and> vacancy_bits m' = (vacancy_bits m)[i := v]
    else replace_unchecked m i v = None"
proof (cases "i < len_bits m")
  case True
  then obtain m' where r: "replace_unchecked m i v = Some (m', raw_bit m i)"
    "len_bits m' = len_bits m" "length (blocks m') = length (blocks m)"
    "\<forall>j. raw_bit m' j = (if j = i then v else raw_bit m j)"
    using replace_unchecked_spec[OF assms, of i v] by auto
  then have "vacancy_bits m' = (vacancy_bits m)[i := v]"
    by (auto simp: list_eq_iff_nth_eq nth_list_update)
  with r True assms show ?thesis by (auto simp: vacancy_map_wf_def)
qed (simp add: replace_unchecked_out_of_bounds)

definition seventy_ones :: vacancy_map where
  "seventy_ones = vacancy_map_resize vacancy_map_new 70 True"

lemma seventy_ones_wf: "vacancy_map_wf seventy_ones"
  by (simp add: seventy_ones_def vacancy_map_resize_wf usize_range_def)

theorem replace_unchecked_functional_witness:
  "\<exists>m'. replace_unchecked seventy_ones 69 False = Some (m', vacancy_bits seventy_ones ! 69)
     \<and> vacancy_map_wf m' \<and> vacancy_bits m' = (vacancy_bits seventy_ones)[69 := False]"
  using replace_unchecked_functional[OF seventy_ones_wf, of 69 False]
  by (simp add: seventy_ones_def)

text \<open>For every range \<open>get\<close> accepts, \<open>first_one\<close> ends without reading past the blocks
  and returns the position, relative to the start of the range, of the first set bit of the
  range, or nothing when the range has none.\<close>

theorem first_one_of_get:
  assumes "vacancy_map_wf m" and "vacancy_map_get m a b = Some sl"
  shows "first_one sl =
    Some (first_true (drop (start_bit_index sl) (take (end_bit_index sl) (vacancy_bits m))))"
  using assms get_Some[of m a b sl] by (intro first_one_first_true) auto

theorem first_one_of_get_witness:
  "\<exists>sl. vacancy_map_get seventy_ones (Excluded 3) (Included 68) = Some sl \<and>
     first_one sl = Some (first_true (drop 4 (take 69 (vacancy_bits seventy_ones))))"
proof -
  have "vacancy_map_get seventy_ones (Excluded 3) (Included 68) =
      Some \<lparr>slice_map = seventy_ones, start_bit_index = 4, end_bit_index = 69\<rparr>"
    by (simp add: vacancy_map_get_def checked_add_def seventy_ones_def usize_range_def)
  then show ?thesis
    using first_one_of_get[OF seventy_ones_wf, of "Excluded 3" "Included 68"] by simp
qed

text \<open>Growing a well-formed vector appends bits of the initial value exactly when the new bits
  of the old partial block already hold that value, or the vector still ends strictly inside that
  block; shrinking keeps the remaining bits.\<close>

theorem resize_meets_doc_iff:
  assumes "vacancy_map_wf m"
  shows "(vacancy_bits (vacancy_map_resize m n v) =
      take n (vacancy_bits m) @ replicate (n - len_bits m) v)
    = (n \<le> len_bits m \<or> fresh_bits_written m n v)"
  using assms resize_grow_bits[of m n v] resize_shrink_bits[of m n v]
  by (cases "n \<le> len_bits m") auto

theorem resize_meets_doc_iff_witness:
  "vacancy_bits (vacancy_map_resize seventy_ones 200 True) =
     take 200 (vacancy_bits seventy_ones) @ replicate (200 - len_bits seventy_ones) True"
proof -
  have "spare_all True seventy_ones"
    unfolding seventy_ones_def
    by (rule resize_grow_spare[OF vacancy_map_new_wf spare_all_new]) (simp add: vacancy_map_new_def)
  then have "fresh_bits_written seventy_ones 200 True" by (rule spare_all_fresh)
  then show ?thesis using resize_meets_doc_iff[OF seventy_ones_wf, of 200 True] by blast
qed

text \<open>Against its documentation, \<open>resize\<close> leaves a new bit unset: ten clear bits grown
  to a hundred with the initial value true have a clear bit at index ten.\<close>

theorem resize_stale_partial_block:
  "\<not> vacancy_bits (vacancy_map_resize (vacancy_map_resize vacancy_map_new 10 False) 100 True) ! 10"
proof -
  have "raw_bit (vacancy_map_resize (vacancy_map_resize vacancy_map_new 10 False) 100 True) 10 = False"
    by (simp add: vacancy_map_resize_def vacancy_map_new_def Let_def bits_per_block_def raw_bit_def
        div_ceil_def vec_resize_def)
  then show ?thesis by simp
qed

end
