(* ===== verification/VacancyTracker.thy ===== *)
theory VacancyTracker
  imports VacancyMap
begin

text \<open>
  Package \<open>infinity_pool\<close>, \<open>opaque/vacancy_tracker.rs\<close>: which slabs have a vacancy, with a
  cache of the lowest such slab. The debug assertions of the source are checks of the model: a
  useless update has no value.

  The pool sees the tracker through the locale \<open>vacancy_index\<close>: a list of booleans, one per
  slab, and the first true position in it.
\<close>

section \<open>Model\<close>

record vacancy_tracker =
  has_vacancy :: vacancy_map
  cached_vacancy :: "usize option"

definition vacancy_tracker_new :: vacancy_tracker where
  "vacancy_tracker_new = \<lparr>has_vacancy = vacancy_map_new, cached_vacancy = None\<rparr>"

definition next_vacancy :: "vacancy_tracker \<Rightarrow> usize option" where
  "next_vacancy t = cached_vacancy t"

definition update_slab_count :: "vacancy_tracker \<Rightarrow> usize \<Rightarrow> vacancy_tracker option" where
  "update_slab_count t count = do {
     let previous_count = vacancy_map_len (has_vacancy t);
     require (previous_count \<noteq> count);
     let t = t\<lparr>has_vacancy := vacancy_map_resize (has_vacancy t) count True\<rparr>;
     Some (if previous_count < count then
             (if cached_vacancy t = None then t\<lparr>cached_vacancy := Some previous_count\<rparr> else t)
           else case cached_vacancy t of
             None \<Rightarrow> t
           | Some nv \<Rightarrow> if count \<le> nv then t\<lparr>cached_vacancy := None\<rparr> else t)
   }"

definition update_slab_status :: "vacancy_tracker \<Rightarrow> usize \<Rightarrow> bool \<Rightarrow> vacancy_tracker option" where
  "update_slab_status t slab_index vacant = do {
     (bits, previously) \<leftarrow> replace_unchecked (has_vacancy t) slab_index vacant;
     let t = t\<lparr>has_vacancy := bits\<rparr>;
     require (vacant \<noteq> previously);
     if vacant then
       Some (case cached_vacancy t of
               Some nv \<Rightarrow> if slab_index < nv then t\<lparr>cached_vacancy := Some slab_index\<rparr> else t
             | None \<Rightarrow> t\<lparr>cached_vacancy := Some slab_index\<rparr>)
     else if cached_vacancy t = Some slab_index then
       (let remaining_range_start = wrapping_add slab_index 1
        in case vacancy_map_get (has_vacancy t) (Included remaining_range_start) Unbounded of
             None \<Rightarrow> Some (t\<lparr>cached_vacancy := None\<rparr>)
           | Some remaining_bits \<Rightarrow> do {
               found \<leftarrow> first_one remaining_bits;
               Some (t\<lparr>cached_vacancy := map_option (wrapping_add remaining_range_start) found\<rparr>)
             })
     else Some t
   }"

section \<open>The contract of the vacancy index\<close>

locale vacancy_index =
  fixes fresh :: 't
    and next_free :: "'t \<Rightarrow> nat option"
    and set_count :: "'t \<Rightarrow> nat \<Rightarrow> 't option"
    and set_status :: "'t \<Rightarrow> nat \<Rightarrow> bool \<Rightarrow> 't option"
    and flags :: "'t \<Rightarrow> bool list"
    and sound :: "'t \<Rightarrow> bool"
  assumes fresh_sound: "sound fresh"
    and fresh_flags: "flags fresh = []"
    and next_first: "sound t \<Longrightarrow> next_free t = first_true (flags t)"
    and count_grow: "sound t \<Longrightarrow> length (flags t) < n \<Longrightarrow> n < usize_range \<Longrightarrow>
      \<exists>t'. set_count t n = Some t' \<and> sound t' \<and> flags t' = flags t @ replicate (n - length (flags t)) True"
    and count_shrink: "sound t \<Longrightarrow> n < length (flags t) \<Longrightarrow> False \<notin> set (drop n (flags t)) \<Longrightarrow>
      \<exists>t'. set_count t n = Some t' \<and> sound t' \<and> flags t' = take n (flags t)"
    and status_ok: "sound t \<Longrightarrow> i < length (flags t) \<Longrightarrow> flags t ! i \<noteq> v \<Longrightarrow>
      \<exists>t'. set_status t i v = Some t' \<and> sound t' \<and> flags t' = (flags t)[i := v]"
begin

text \<open>What the pool uses: the index names a free slab, and names none only when all are full.\<close>

lemma next_free_Some:
  "sound t \<Longrightarrow> next_free t = Some i \<Longrightarrow> i < length (flags t) \<and> flags t ! i \<and> (\<forall>j < i. \<not> flags t ! j)"
  by (simp add: next_first first_true_Some_iff)

lemma next_free_None: "sound t \<Longrightarrow> next_free t = None \<Longrightarrow> True \<notin> set (flags t)"
  by (simp add: next_first first_true_None_iff)

lemma push_slab:
  assumes "sound t" and "Suc (length (flags t)) < usize_range"
  shows "\<exists>t'. set_count t (Suc (length (flags t))) = Some t' \<and> sound t' \<and> flags t' = flags t @ [True]"
  using count_grow[OF assms(1), of "Suc (length (flags t))"] assms(2) by auto

end

section \<open>The tracker meets the contract\<close>

definition slab_flags :: "vacancy_tracker \<Rightarrow> bool list" where
  "slab_flags t = vacancy_bits (has_vacancy t)"

definition tracker_sound :: "vacancy_tracker \<Rightarrow> bool" where
  "tracker_sound t = (ones_invar (has_vacancy t) \<and> cached_vacancy t = first_true (slab_flags t))"

lemma ones_invar_range: "ones_invar m \<Longrightarrow> length (vacancy_bits m) < usize_range"
  by (simp add: ones_invar_def vacancy_map_wf_def)

lemma first_true_take:
  "first_true (take n bs) = (case first_true bs of None \<Rightarrow> None | Some i \<Rightarrow> if i < n then Some i else None)"
proof (cases "first_true bs")
  case None
  then have "first_true (take n bs) = None" by (auto simp: first_true_None_iff dest: in_set_takeD)
  with None show ?thesis by simp
next
  case (Some i)
  then have f: "i < length bs" "bs ! i" "\<forall>j < i. \<not> bs ! j" by (simp_all add: first_true_Some_iff)
  show ?thesis
  proof (cases "i < n")
    case True
    with f Some show ?thesis by (auto intro!: first_true_SomeI)
  next
    case False
    with f have "True \<notin> set (take n bs)" by (auto simp: in_set_conv_nth)
    with False Some show ?thesis by (simp add: first_true_None_iff)
  qed
qed

lemma update_slab_count_grow:
  assumes "tracker_sound t" and "length (slab_flags t) < n" and "n < usize_range"
  shows "\<exists>t'. update_slab_count t n = Some t' \<and> tracker_sound t'
    \<and> slab_flags t' = slab_flags t @ replicate (n - length (slab_flags t)) True"
proof -
  have m: "ones_invar (has_vacancy t)" "length (vacancy_bits (has_vacancy t)) < n"
    using assms by (simp_all add: tracker_sound_def slab_flags_def)
  have "first_true (slab_flags t @ replicate (n - length (slab_flags t)) True) =
      (case first_true (slab_flags t) of None \<Rightarrow> Some (length (slab_flags t)) | Some i \<Rightarrow> Some i)"
    using assms(2) by (simp add: first_true_append first_true_replicate_True split: option.splits)
  then show ?thesis
    using assms vmap.grow_invar[OF m assms(3)] vmap.grow_bits[OF m assms(3)]
    by (auto simp: update_slab_count_def tracker_sound_def slab_flags_def vacancy_map_len_def Let_def
        split: option.splits)
qed

lemma update_slab_count_shrink:
  assumes "tracker_sound t" and "n < length (slab_flags t)" and "False \<notin> set (drop n (slab_flags t))"
  shows "\<exists>t'. update_slab_count t n = Some t' \<and> tracker_sound t' \<and> slab_flags t' = take n (slab_flags t)"
proof -
  have m: "ones_invar (has_vacancy t)" "n \<le> length (vacancy_bits (has_vacancy t))"
    "False \<notin> set (drop n (vacancy_bits (has_vacancy t)))"
    using assms by (simp_all add: tracker_sound_def slab_flags_def)
  show ?thesis
    using assms vmap.shrink_invar[OF m] vmap.shrink_bits[OF m(1,2)]
      first_true_take[of n "vacancy_bits (has_vacancy t)"]
    by (auto simp: update_slab_count_def tracker_sound_def slab_flags_def vacancy_map_len_def Let_def
        split: option.splits)
qed

lemma update_slab_status_set:
  assumes "tracker_sound t" and "i < length (slab_flags t)" and "\<not> slab_flags t ! i"
  shows "\<exists>t'. update_slab_status t i True = Some t' \<and> tracker_sound t' \<and> slab_flags t' = (slab_flags t)[i := True]"
proof -
  have m: "ones_invar (has_vacancy t)" "i < length (vacancy_bits (has_vacancy t))"
    using assms by (simp_all add: tracker_sound_def slab_flags_def)
  obtain m' where m': "replace_unchecked (has_vacancy t) i True = Some (m', False)" "ones_invar m'"
    "vacancy_bits m' = (vacancy_bits (has_vacancy t))[i := True]"
    using vmap.replace_ok[OF m, of True] assms(3) by (auto simp: slab_flags_def)
  have c: "cached_vacancy t = first_true (vacancy_bits (has_vacancy t))"
    using assms(1) by (simp add: tracker_sound_def slab_flags_def)
  show ?thesis
  proof (cases "first_true (vacancy_bits (has_vacancy t))")
    case None
    with c m' vmap.first_after_set[OF m(2)] show ?thesis
      by (simp add: update_slab_status_def tracker_sound_def slab_flags_def)
  next
    case (Some j)
    with c m' vmap.first_after_set[OF m(2)] show ?thesis
      by (simp add: update_slab_status_def tracker_sound_def slab_flags_def Let_def min_def)
  qed
qed

lemma update_slab_status_clear:
  assumes "tracker_sound t" and "i < length (slab_flags t)" and "slab_flags t ! i"
  shows "\<exists>t'. update_slab_status t i False = Some t' \<and> tracker_sound t' \<and> slab_flags t' = (slab_flags t)[i := False]"
proof (cases "cached_vacancy t = Some i")
  case True
  let ?m = "has_vacancy t"
  have m: "ones_invar ?m" "first_true (vacancy_bits ?m) = Some i"
    using assms(1) True by (simp_all add: tracker_sound_def slab_flags_def)
  obtain m' sl r where n: "replace_unchecked ?m i False = Some (m', True)" "ones_invar m'"
    "vacancy_bits m' = (vacancy_bits ?m)[i := False]"
    "vacancy_map_get m' (Included (i + 1)) Unbounded = Some sl" "first_one sl = Some r"
    "first_true (vacancy_bits m') = map_option (\<lambda>k. i + 1 + k) r"
    using vmap.next_after_clear[OF m] by blast
  have range: "length (vacancy_bits m') < usize_range" using n(2) by (rule ones_invar_range)
  have i: "i + 1 \<le> length (vacancy_bits m')" using n(3) assms(2) by (simp add: slab_flags_def)
  have "map_option (wrapping_add (i + 1)) r = first_true (vacancy_bits m')"
  proof (cases r)
    case (Some k)
    with n(6) have "i + 1 + k < length (vacancy_bits m')" by (intro first_true_bound) simp
    with range Some n(6) show ?thesis by (simp add: usize_simps)
  qed (simp add: n(6))
  moreover have "wrapping_add i 1 = i + 1" using i range by (simp add: usize_simps)
  ultimately show ?thesis
    using True n(1-5) by (auto simp: update_slab_status_def tracker_sound_def slab_flags_def)
next
  case False
  have m: "ones_invar (has_vacancy t)" "i < length (vacancy_bits (has_vacancy t))"
    using assms by (simp_all add: tracker_sound_def slab_flags_def)
  obtain m' where m': "replace_unchecked (has_vacancy t) i False = Some (m', True)" "ones_invar m'"
    "vacancy_bits m' = (vacancy_bits (has_vacancy t))[i := False]"
    using vmap.replace_ok[OF m, of False] assms(3) by (auto simp: slab_flags_def)
  have other: "first_true (slab_flags t) \<noteq> Some i" using False assms(1) by (simp add: tracker_sound_def)
  then obtain j where j: "first_true (slab_flags t) = Some j" "j \<noteq> i"
    using assms(2,3) nth_mem[OF assms(2)]
    by (cases "first_true (slab_flags t)") (auto simp: first_true_None_iff)
  then have "first_true ((slab_flags t)[i := False]) = Some j"
    using assms(2) by (auto simp: first_true_Some_iff nth_list_update)
  with j m' False assms(1) show ?thesis
    by (auto simp: update_slab_status_def tracker_sound_def slab_flags_def)
qed

interpretation tracker: vacancy_index vacancy_tracker_new next_vacancy update_slab_count
  update_slab_status slab_flags tracker_sound
proof unfold_locales
  show "tracker_sound vacancy_tracker_new"
    using vmap.make_invar vmap.make_bits
    by (simp add: tracker_sound_def slab_flags_def vacancy_tracker_new_def first_true_Nil)
  show "slab_flags vacancy_tracker_new = []"
    using vmap.make_bits by (simp add: slab_flags_def vacancy_tracker_new_def)
next
  fix t i v assume "tracker_sound t" "i < length (slab_flags t)" "slab_flags t ! i \<noteq> v"
  then show "\<exists>t'. update_slab_status t i v = Some t' \<and> tracker_sound t' \<and> slab_flags t' = (slab_flags t)[i := v]"
    using update_slab_status_set[of t i] update_slab_status_clear[of t i] by (cases v) auto
qed (simp_all add: update_slab_count_grow update_slab_count_shrink, simp add: next_vacancy_def tracker_sound_def)

section \<open>Properties\<close>

text \<open>On a tracker whose cache is right, a change of one slab's status that is not a repetition
  succeeds, changes that slab's flag only, and leaves the lowest vacant slab in the cache.\<close>

theorem update_slab_status_refines:
  assumes "tracker_sound t" and "i < length (slab_flags t)" and "slab_flags t ! i \<noteq> v"
  shows "\<exists>t'. update_slab_status t i v = Some t' \<and> slab_flags t' = (slab_flags t)[i := v]
    \<and> tracker_sound t' \<and> next_vacancy t' = first_true ((slab_flags t)[i := v])"
  using tracker.status_ok[OF assms] tracker.next_first by metis

theorem update_slab_status_refines_witness:
  "\<exists>t t'. update_slab_count vacancy_tracker_new 3 = Some t \<and> update_slab_status t 0 False = Some t'
     \<and> next_vacancy t' = Some 1"
proof -
  obtain t where t: "update_slab_count vacancy_tracker_new 3 = Some t" "tracker_sound t"
    "slab_flags t = replicate 3 True"
    using tracker.count_grow[OF tracker.fresh_sound, of 3] by (auto simp: tracker.fresh_flags usize_range_def)
  have "first_true ((replicate 3 True)[0 := False]) = Some 1"
    by (simp add: numeral_3_eq_3 first_true_Cons)
  with t update_slab_status_refines[OF t(2), of 0 False] show ?thesis by auto
qed

end
