(* ===== verification/OpaquePool.thy ===== *)
theory OpaquePool
  imports Slab VacancyTracker
begin

text \<open>
  Package \<open>infinity_pool\<close>, \<open>opaque/pool_raw.rs\<close>: a pool of slabs of one object layout, with
  the vacancy tracker that leads insertions to the first slab with a free slot.

  The addresses the allocator returns for new slabs are parameters. Address space is finite: that
  the slabs of a pool never hold \<open>usize::MAX\<close> slots is a hypothesis of the operations that add
  slabs (\<open>pool_fits\<close>), as the source argues in its comments on wrapping.
\<close>

section \<open>Model\<close>

record 'o opaque_pool =
  pool_layout :: slab_layout
  slabs :: "'o slab list"
  pool_policy :: drop_policy
  pool_length :: usize
  pool_tracker :: vacancy_tracker

record pool_handle =
  slab_index :: usize
  slab_handle_of :: slab_handle

definition opaque_new :: "layout \<Rightarrow> layout \<Rightarrow> drop_policy \<Rightarrow> 'o opaque_pool option" where
  "opaque_new meta object policy = do {
     l \<leftarrow> slab_layout_new meta object;
     Some \<lparr>pool_layout = l, slabs = [], pool_policy = policy, pool_length = 0,
           pool_tracker = vacancy_tracker_new\<rparr>
   }"

definition opaque_object_layout :: "'o opaque_pool \<Rightarrow> layout" where
  "opaque_object_layout p = object_layout (pool_layout p)"

definition opaque_len :: "'o opaque_pool \<Rightarrow> usize" where
  "opaque_len p = pool_length p"

definition opaque_capacity :: "'o opaque_pool \<Rightarrow> usize" where
  "opaque_capacity p = wrapping_mul (length (slabs p)) (slot_capacity (pool_layout p))"

definition opaque_is_empty :: "'o opaque_pool \<Rightarrow> bool" where
  "opaque_is_empty p = (pool_length p = 0)"

text \<open>\<open>bases k\<close> is where the allocator puts the slab with index \<open>k\<close>.\<close>

definition opaque_reserve :: "(nat \<Rightarrow> addr) \<Rightarrow> 'o opaque_pool \<Rightarrow> usize \<Rightarrow> 'o opaque_pool option" where
  "opaque_reserve bases p additional = do {
     required_capacity \<leftarrow> checked_add (opaque_len p) additional;
     if required_capacity \<le> opaque_capacity p then Some p
     else do {
       let current_slabs = length (slabs p);
       let required_slabs = div_ceil required_capacity (slot_capacity (pool_layout p));
       let additional_slabs = required_slabs - current_slabs;
       let slabs' = slabs p @ map (\<lambda>k. slab_new (pool_layout p) (pool_policy p) (bases (current_slabs + k)))
                                [0..<additional_slabs];
       t \<leftarrow> update_slab_count (pool_tracker p) (length slabs');
       Some (p\<lparr>slabs := slabs', pool_tracker := t\<rparr>)
     }
   }"

fun last_used :: "'o slab list \<Rightarrow> nat \<Rightarrow> nat" where
  "last_used ss 0 = 0"
| "last_used ss (Suc idx) = (if \<not> slab_is_empty (ss ! idx) then wrapping_add idx 1 else last_used ss idx)"

definition opaque_shrink_to_fit :: "'o opaque_pool \<Rightarrow> 'o opaque_pool option" where
  "opaque_shrink_to_fit p =
     (let new_len = last_used (slabs p) (length (slabs p))
      in if new_len = length (slabs p) then Some p
         else do {
           let slabs' = take new_len (slabs p);
           t \<leftarrow> update_slab_count (pool_tracker p) (length slabs');
           Some (p\<lparr>slabs := slabs', pool_tracker := t\<rparr>)
         })"

definition allocate_slab_for_insert :: "addr \<Rightarrow> 'o opaque_pool \<Rightarrow> ('o opaque_pool \<times> usize) option" where
  "allocate_slab_for_insert base p = do {
     require (opaque_len p = opaque_capacity p);
     let slabs' = slabs p @ [slab_new (pool_layout p) (pool_policy p) base];
     t \<leftarrow> update_slab_count (pool_tracker p) (length slabs');
     Some (p\<lparr>slabs := slabs', pool_tracker := t\<rparr>, wrapping_sub (length slabs') 1)
   }"

definition index_of_slab_to_insert_into ::
    "addr \<Rightarrow> 'o opaque_pool \<Rightarrow> ('o opaque_pool \<times> usize) option" where
  "index_of_slab_to_insert_into base p =
     (case next_vacancy (pool_tracker p) of
        Some index \<Rightarrow> Some (p, index)
      | None \<Rightarrow> allocate_slab_for_insert base p)"

text \<open>
  \<open>lt\<close> is the layout of the inserted type, \<open>f\<close> what the initializer does, \<open>base\<close> the address of
  a slab the insertion may have to allocate.
\<close>

definition opaque_insert_with_unchecked ::
    "addr \<Rightarrow> 'o opaque_pool \<Rightarrow> layout \<Rightarrow> 'o completion \<Rightarrow> ('o opaque_pool \<times> pool_handle completion) option" where
  "opaque_insert_with_unchecked base p lt f = do {
     (p, index) \<leftarrow> index_of_slab_to_insert_into base p;
     require (index < length (slabs p));
     (slab, inserted) \<leftarrow> insert_with_unchecked (slabs p ! index) lt f;
     let p = p\<lparr>slabs := (slabs p)[index := slab]\<rparr>;
     case inserted of
       Panicked \<Rightarrow> Some (p, Panicked)
     | Completed h \<Rightarrow> do {
         let p = p\<lparr>pool_length := wrapping_add (pool_length p) 1\<rparr>;
         t \<leftarrow> (if slab_is_full slab then update_slab_status (pool_tracker p) index False
               else Some (pool_tracker p));
         Some (p\<lparr>pool_tracker := t\<rparr>, Completed \<lparr>slab_index = index, slab_handle_of = h\<rparr>)
       }
   }"

text \<open>
  \<open>insert_with\<close> checks the layout first; \<open>insert\<close> is \<open>insert_with\<close> of a write that never unwinds.
\<close>

definition opaque_insert_with ::
    "addr \<Rightarrow> 'o opaque_pool \<Rightarrow> layout \<Rightarrow> 'o completion \<Rightarrow> ('o opaque_pool \<times> pool_handle completion) option" where
  "opaque_insert_with base p lt f = do {
     require (lt = opaque_object_layout p);
     opaque_insert_with_unchecked base p lt f
   }"

definition opaque_insert_unchecked ::
    "addr \<Rightarrow> 'o opaque_pool \<Rightarrow> layout \<Rightarrow> 'o \<Rightarrow> ('o opaque_pool \<times> pool_handle completion) option" where
  "opaque_insert_unchecked base p lt x = opaque_insert_with_unchecked base p lt (Completed x)"

definition opaque_insert ::
    "addr \<Rightarrow> 'o opaque_pool \<Rightarrow> layout \<Rightarrow> 'o \<Rightarrow> ('o opaque_pool \<times> pool_handle completion) option" where
  "opaque_insert base p lt x = do {
     require (lt = opaque_object_layout p);
     opaque_insert_unchecked base p lt x
   }"

text \<open>The common end of both removals: the length, then the tracker if the slab was full.\<close>

definition note_removed :: "'o opaque_pool \<Rightarrow> usize \<Rightarrow> 'o slab \<Rightarrow> 'o opaque_pool option" where
  "note_removed p index slab = do {
     let p = p\<lparr>pool_length := wrapping_sub (pool_length p) 1\<rparr>;
     t \<leftarrow> (if slab_len slab = wrapping_sub (slot_capacity (pool_layout p)) 1
           then update_slab_status (pool_tracker p) index True else Some (pool_tracker p));
     Some (p\<lparr>pool_tracker := t\<rparr>)
   }"

text \<open>
  \<open>Completed (Some e)\<close> is a removal whose destructor unwound with \<open>e\<close>: the unwinding leaves the
  function before the length and the tracker are updated. \<open>Panicked\<close> is a double removal.
\<close>

definition opaque_remove ::
    "('o \<Rightarrow> 'p option) \<Rightarrow> 'o opaque_pool \<Rightarrow> pool_handle \<Rightarrow> ('o opaque_pool \<times> 'p option completion) option" where
  "opaque_remove drop_glue p h = do {
     require (slab_index h < length (slabs p));
     (slab, outcome) \<leftarrow> slab_remove drop_glue (slabs p ! slab_index h) (slab_handle_of h);
     let p = p\<lparr>slabs := (slabs p)[slab_index h := slab]\<rparr>;
     case outcome of
       Panicked \<Rightarrow> Some (p, Panicked)
     | Completed (Some e) \<Rightarrow> Some (p, Completed (Some e))
     | Completed None \<Rightarrow> do {
         p \<leftarrow> note_removed p (slab_index h) slab;
         Some (p, Completed None)
       }
   }"

definition opaque_remove_unpin ::
    "'o opaque_pool \<Rightarrow> pool_handle \<Rightarrow> ('o opaque_pool \<times> 'o completion) option" where
  "opaque_remove_unpin p h = do {
     require (slab_index h < length (slabs p));
     (slab, outcome) \<leftarrow> slab_remove_unpin (slabs p ! slab_index h) (slab_handle_of h);
     let p = p\<lparr>slabs := (slabs p)[slab_index h := slab]\<rparr>;
     case outcome of
       Panicked \<Rightarrow> Some (p, Panicked)
     | Completed x \<Rightarrow> do {
         p \<leftarrow> note_removed p (slab_index h) slab;
         Some (p, Completed x)
       }
   }"

text \<open>
  The iterator over the pool. \<open>None\<close> is a step that panics because no slab is left although items
  should be.
\<close>

record pool_iterator =
  front_slab :: usize
  back_slab :: usize
  front_iter :: "slab_iterator option"
  back_iter :: "slab_iterator option"
  pool_yielded :: usize

definition pool_iter :: "'o opaque_pool \<Rightarrow> pool_iterator" where
  "pool_iter p = \<lparr>front_slab = 0, back_slab = wrapping_sub (length (slabs p)) 1,
     front_iter = None, back_iter = None, pool_yielded = 0\<rparr>"

definition pool_iter_len :: "'o opaque_pool \<Rightarrow> pool_iterator \<Rightarrow> usize" where
  "pool_iter_len p it = wrapping_sub (opaque_len p) (pool_yielded it)"

definition iter_or_open :: "'o opaque_pool \<Rightarrow> usize \<Rightarrow> slab_iterator option \<Rightarrow> slab_iterator option" where
  "iter_or_open p index cur =
     (case cur of
        Some si \<Rightarrow> Some si
      | None \<Rightarrow> if index < length (slabs p) then Some (slab_iter (slabs p ! index)) else None)"

partial_function (option) pool_next ::
    "'o opaque_pool \<Rightarrow> pool_iterator \<Rightarrow> (pool_iterator \<times> addr option) option" where
  "pool_next p it =
     (if 0 < pool_iter_len p it then
        (case iter_or_open p (front_slab it) (front_iter it) of
           None \<Rightarrow> None
         | Some si \<Rightarrow>
             (case slab_next (slabs p ! front_slab it) si of
                None \<Rightarrow> None
              | Some (si', Some item) \<Rightarrow>
                  Some (it\<lparr>front_iter := Some si', pool_yielded := wrapping_add (pool_yielded it) 1\<rparr>, Some item)
              | Some (si', None) \<Rightarrow>
                  pool_next p (it\<lparr>front_slab := wrapping_add (front_slab it) 1, front_iter := None\<rparr>)))
      else Some (it, None))"

partial_function (option) pool_next_back ::
    "'o opaque_pool \<Rightarrow> pool_iterator \<Rightarrow> (pool_iterator \<times> addr option) option" where
  "pool_next_back p it =
     (if 0 < pool_iter_len p it then
        (case iter_or_open p (back_slab it) (back_iter it) of
           None \<Rightarrow> None
         | Some si \<Rightarrow>
             (case slab_next_back (slabs p ! back_slab it) si of
                None \<Rightarrow> None
              | Some (si', Some item) \<Rightarrow>
                  Some (it\<lparr>back_iter := Some si', pool_yielded := wrapping_add (pool_yielded it) 1\<rparr>, Some item)
              | Some (si', None) \<Rightarrow>
                  pool_next_back p (it\<lparr>back_slab := wrapping_sub (back_slab it) 1, back_iter := None\<rparr>)))
      else Some (it, None))"

section \<open>Invariant\<close>

abbreviation vacancies :: "'o slab list \<Rightarrow> bool list" where
  "vacancies ss \<equiv> map (\<lambda>s. \<not> slab_is_full s) ss"

definition pool_wf :: "'o opaque_pool \<Rightarrow> bool" where
  "pool_wf p =
     (0 < slot_capacity (pool_layout p) \<and> 0 < size_of (object_layout (pool_layout p))
      \<and> length (slabs p) * slot_capacity (pool_layout p) < usize_range
      \<and> slot_capacity (pool_layout p) < usize_range
      \<and> (\<forall>s \<in> set (slabs p). slab_wf s \<and> slab_layout_of s = pool_layout p)
      \<and> pool_length p = sum_list (map slab_len (slabs p))
      \<and> tracker_sound (pool_tracker p)
      \<and> slab_flags (pool_tracker p) = vacancies (slabs p))"

definition pool_fits :: "nat \<Rightarrow> 'o opaque_pool \<Rightarrow> bool" where
  "pool_fits n p = ((length (slabs p) + n) * slot_capacity (pool_layout p) < usize_range)"

definition pool_object :: "'o opaque_pool \<Rightarrow> pool_handle \<Rightarrow> 'o option" where
  "pool_object p h =
     (if slab_index h < length (slabs p) then slab_object (slabs p ! slab_index h) (slab_handle_of h) else None)"

lemma pool_wf_slab:
  "pool_wf p \<Longrightarrow> i < length (slabs p) \<Longrightarrow> slab_wf (slabs p ! i) \<and> slab_layout_of (slabs p ! i) = pool_layout p"
  by (simp add: pool_wf_def)

lemma count_le_slots:
  "0 < c \<Longrightarrow> n * c < usize_range \<Longrightarrow> n < usize_range"
  by (metis One_nat_def Suc_leI mult.right_neutral mult_le_mono2 order_le_less_trans)

lemma pool_wf_count: "pool_wf p \<Longrightarrow> length (slabs p) < usize_range"
  unfolding pool_wf_def by (blast intro: count_le_slots)

lemma opaque_capacity_eq:
  "pool_wf p \<Longrightarrow> opaque_capacity p = length (slabs p) * slot_capacity (pool_layout p)"
  by (simp add: opaque_capacity_def pool_wf_def usize_simps)

lemma sum_full:
  "\<forall>s \<in> set ss. slab_is_full s \<and> slab_layout_of s = l \<Longrightarrow>
   sum_list (map slab_len ss) = length ss * slot_capacity l"
  by (induction ss) (auto simp: slab_is_full_def slab_len_def)

lemma sum_bound:
  "\<forall>s \<in> set ss. slab_wf s \<and> slab_layout_of s = l \<Longrightarrow>
   sum_list (map slab_len ss) \<le> length ss * slot_capacity l"
  by (induction ss) (auto dest: slab_len_le)

lemma opaque_len_le_capacity: "pool_wf p \<Longrightarrow> opaque_len p \<le> opaque_capacity p"
  using sum_bound[of "slabs p" "pool_layout p"]
  by (simp add: opaque_capacity_eq) (simp add: opaque_len_def pool_wf_def)

lemma new_slab_facts:
  assumes "0 < slot_capacity l" and "slot_capacity l < usize_range"
  shows "slab_wf (slab_new l policy base)" "slab_layout_of (slab_new l policy base) = l"
    "\<not> slab_is_full (slab_new l policy base)" "slab_len (slab_new l policy base) = 0"
    "slab_is_empty (slab_new l policy base)"
  using assms slab_new_wf[OF assms]
  by (simp_all add: slab_new_def slab_is_full_def slab_len_def slab_is_empty_def)

text \<open>Exchange of one slab, with the length and the tracker that match.\<close>

lemma pool_wf_exchange:
  assumes wf: "pool_wf p" and i: "i < length (slabs p)"
    and s: "slab_wf s'" "slab_layout_of s' = pool_layout p"
    and len: "n + slab_len (slabs p ! i) = pool_length p + slab_len s'"
    and t: "tracker_sound t" "slab_flags t = (vacancies (slabs p))[i := \<not> slab_is_full s']"
  shows "pool_wf (p\<lparr>slabs := (slabs p)[i := s'], pool_length := n, pool_tracker := t\<rparr>)"
proof -
  have "sum_list (map slab_len ((slabs p)[i := s'])) + slab_len (slabs p ! i) =
      sum_list (map slab_len (slabs p)) + slab_len s'"
    using sum_list_update_nat[of i "map slab_len (slabs p)" "slab_len s'"] i by (simp add: map_update)
  with len wf have "n = sum_list (map slab_len ((slabs p)[i := s']))" by (simp add: pool_wf_def)
  moreover have "\<forall>s \<in> set ((slabs p)[i := s']). slab_wf s \<and> slab_layout_of s = pool_layout p"
    using wf s set_update_subset_insert[of "slabs p" i s'] by (auto simp: pool_wf_def)
  ultimately show ?thesis
    using wf t by (simp add: pool_wf_def map_update)
qed

lemma flags_at: "pool_wf p \<Longrightarrow> i < length (slabs p) \<Longrightarrow> slab_flags (pool_tracker p) ! i = (\<not> slab_is_full (slabs p ! i))"
  by (simp add: pool_wf_def)

lemma pool_object_update:
  assumes "i < length (slabs p)" and "slabs p' = (slabs p)[i := s']"
  shows "pool_object p' h =
    (if slab_index h = i then slab_object s' (slab_handle_of h) else pool_object p h)"
  using assms by (auto simp: pool_object_def)

lemma opaque_new_wf:
  assumes "valid_layout meta" and "valid_layout object" and "opaque_new meta object policy = Some p"
  shows "pool_wf p \<and> slabs p = [] \<and> opaque_object_layout p = object \<and> pool_object p = Map.empty
    \<and> slot_capacity (pool_layout p) \<le> 16384"
proof -
  obtain l where l: "slab_layout_new meta object = Some l"
    "p = \<lparr>pool_layout = l, slabs = [], pool_policy = policy, pool_length = 0, pool_tracker = vacancy_tracker_new\<rparr>"
    using assms(3) by (auto simp: opaque_new_def bind_eq_Some_iff)
  then have g: "geometry meta l" "object_layout l = object"
    using slab_layout_new_geometry[OF assms(1,2)] by auto
  then have "32 \<le> slot_capacity l" "slot_capacity l \<le> 16384"
    using determine_capacity_ge determine_capacity_le by (simp_all add: geometry_def)
  with l g show ?thesis
    using tracker.fresh_sound tracker.fresh_flags
    by (auto simp: pool_wf_def usize_range_def geometry_def opaque_object_layout_def pool_object_def)
qed

section \<open>Choosing the slab\<close>

lemma allocate_spec:
  assumes wf: "pool_wf p" and fits: "pool_fits 1 p" and full: "\<forall>s \<in> set (slabs p). slab_is_full s"
  shows "\<exists>p'. allocate_slab_for_insert base p = Some (p', length (slabs p)) \<and> pool_wf p'
    \<and> pool_layout p' = pool_layout p \<and> pool_length p' = pool_length p
    \<and> slabs p' = slabs p @ [slab_new (pool_layout p) (pool_policy p) base]"
proof -
  let ?new = "slab_new (pool_layout p) (pool_policy p) base"
  have c: "0 < slot_capacity (pool_layout p)" "slot_capacity (pool_layout p) < usize_range"
    using wf by (simp_all add: pool_wf_def)
  note new = new_slab_facts[OF c, of "pool_policy p" base]
  have fl: "length (slab_flags (pool_tracker p)) = length (slabs p)" "tracker_sound (pool_tracker p)"
    using wf by (simp_all add: pool_wf_def)
  have n: "Suc (length (slabs p)) < usize_range"
    using fits c by (auto simp: pool_fits_def intro: count_le_slots)
  obtain t where t: "update_slab_count (pool_tracker p) (Suc (length (slabs p))) = Some t"
    "tracker_sound t" "slab_flags t = slab_flags (pool_tracker p) @ [True]"
    using tracker.push_slab[OF fl(2)] n fl(1) by auto
  have "opaque_len p = opaque_capacity p"
    using sum_full[of "slabs p" "pool_layout p"] wf full opaque_capacity_eq[OF wf]
    by (simp add: opaque_len_def pool_wf_def)
  then have "allocate_slab_for_insert base p = Some
      (p\<lparr>slabs := slabs p @ [?new], pool_tracker := t\<rparr>, length (slabs p))"
    using t(1) by (simp add: allocate_slab_for_insert_def Let_def usize_simps)
  moreover have "pool_wf (p\<lparr>slabs := slabs p @ [?new], pool_tracker := t\<rparr>)"
    using wf t new fits by (simp add: pool_wf_def pool_fits_def)
  ultimately show ?thesis by simp
qed

lemma pool_object_push:
  assumes "slabs p' = slabs p @ [slab_new l policy base]"
  shows "pool_object p' = pool_object p"
  using assms by (auto simp: pool_object_def nth_append fun_eq_iff)

lemma next_vacancy_pool:
  assumes "pool_wf p"
  shows "next_vacancy (pool_tracker p) = first_true (vacancies (slabs p))"
  using assms tracker.next_first[of "pool_tracker p"] by (simp add: pool_wf_def)

text \<open>The slab chosen for an insertion: the first with a free slot, or a new one behind full slabs.\<close>

lemma index_spec:
  assumes wf: "pool_wf p" and fits: "pool_fits 1 p"
  shows "\<exists>p' i. index_of_slab_to_insert_into base p = Some (p', i) \<and> pool_wf p'
    \<and> pool_layout p' = pool_layout p \<and> pool_length p' = pool_length p \<and> pool_object p' = pool_object p
    \<and> i < length (slabs p') \<and> \<not> slab_is_full (slabs p' ! i) \<and> (\<forall>j < i. slab_is_full (slabs p' ! j))
    \<and> (slabs p' = slabs p \<or> (\<forall>s \<in> set (slabs p). slab_is_full s) \<and> i = length (slabs p)
         \<and> slabs p' = slabs p @ [slab_new (pool_layout p) (pool_policy p) base])"
proof (cases "first_true (vacancies (slabs p))")
  case None
  then have full: "\<forall>s \<in> set (slabs p). slab_is_full s" by (auto simp: first_true_None_iff)
  obtain p' where p': "allocate_slab_for_insert base p = Some (p', length (slabs p))" "pool_wf p'"
    "pool_layout p' = pool_layout p" "pool_length p' = pool_length p"
    "slabs p' = slabs p @ [slab_new (pool_layout p) (pool_policy p) base]"
    using allocate_spec[OF wf fits full] by blast
  have c: "0 < slot_capacity (pool_layout p)" "slot_capacity (pool_layout p) < usize_range"
    using wf by (simp_all add: pool_wf_def)
  show ?thesis
    using p' full None next_vacancy_pool[OF wf] pool_object_push[OF p'(5)] new_slab_facts(3)[OF c]
    by (intro exI[of _ p'] exI[of _ "length (slabs p)"])
      (simp add: index_of_slab_to_insert_into_def nth_append)
next
  case (Some i)
  then have "i < length (slabs p) \<and> \<not> slab_is_full (slabs p ! i) \<and> (\<forall>j < i. slab_is_full (slabs p ! j))"
    by (auto simp: first_true_Some_iff)
  with Some next_vacancy_pool[OF wf] wf show ?thesis
    by (simp add: index_of_slab_to_insert_into_def)
qed

section \<open>Insertion and removal\<close>

lemma insert_into_slab:
  assumes wf: "pool_wf p" and i: "i < length (slabs p)" and room: "\<not> slab_is_full (slabs p ! i)"
  shows "\<exists>s' h t. insert_with_unchecked (slabs p ! i) (object_layout (pool_layout p)) (Completed x) = Some (s', Completed h)
    \<and> (if slab_is_full s' then update_slab_status (pool_tracker p) i False else Some (pool_tracker p)) = Some t
    \<and> pool_wf (p\<lparr>slabs := (slabs p)[i := s'], pool_length := Suc (pool_length p), pool_tracker := t\<rparr>)
    \<and> slab_object (slabs p ! i) h = None \<and> slab_object s' = (slab_object (slabs p ! i))(h \<mapsto> x)"
proof -
  let ?s = "slabs p ! i"
  have s: "slab_wf ?s" "slab_layout_of ?s = pool_layout p" using pool_wf_slab[OF wf i] by auto
  obtain s' h where put: "slab_put ?s x = Some (s', h)" "slab_wf s'" "slab_object ?s h = None"
    "slab_object s' = (slab_object ?s)(h \<mapsto> x)" "slab_len s' = Suc (slab_len ?s)"
    using slab.put_ok[OF s(1), of x] room by (auto simp: slab_room_def)
  then have run: "insert_with_unchecked ?s (object_layout (pool_layout p)) (Completed x) = Some (s', Completed h)"
    using s(2) by (auto simp: slab_put_def split: option.splits completion.splits)
  moreover have frame: "same_frame ?s s'"
    using insert_spec[OF s(1) room, of _ x] run s(2) by auto
  ultimately have layout: "slab_layout_of s' = pool_layout p" using s(2) by (simp add: same_frame_def)
  have tr: "tracker_sound (pool_tracker p)" "i < length (slab_flags (pool_tracker p))"
    using wf i by (simp_all add: pool_wf_def)
  have "\<exists>t. (if slab_is_full s' then update_slab_status (pool_tracker p) i False else Some (pool_tracker p)) = Some t
      \<and> tracker_sound t \<and> slab_flags t = (vacancies (slabs p))[i := \<not> slab_is_full s']"
  proof (cases "slab_is_full s'")
    case True
    then show ?thesis
      using tracker.status_ok[OF tr, of False] flags_at[OF wf i] room wf by (auto simp: pool_wf_def)
  next
    case False
    then have "(vacancies (slabs p))[i := \<not> slab_is_full s'] = vacancies (slabs p)"
      using room i by (simp add: list_update_same_conv)
    with False tr wf show ?thesis by (simp add: pool_wf_def)
  qed
  then obtain t where t: "(if slab_is_full s' then update_slab_status (pool_tracker p) i False
      else Some (pool_tracker p)) = Some t" "tracker_sound t"
    "slab_flags t = (vacancies (slabs p))[i := \<not> slab_is_full s']" by blast
  have "pool_wf (p\<lparr>slabs := (slabs p)[i := s'], pool_length := Suc (pool_length p), pool_tracker := t\<rparr>)"
    using put(5) by (intro pool_wf_exchange[OF wf i put(2) layout _ t(2,3)]) simp
  with run t(1) put show ?thesis by blast
qed

lemma pool_length_bound: "pool_wf p \<Longrightarrow> pool_fits 1 p \<Longrightarrow> Suc (pool_length p) < usize_range"
proof -
  assume wf: "pool_wf p" and fits: "pool_fits 1 p"
  have "pool_length p \<le> length (slabs p) * slot_capacity (pool_layout p)"
    using opaque_len_le_capacity[OF wf] opaque_capacity_eq[OF wf] by (simp add: opaque_len_def)
  moreover have "0 < slot_capacity (pool_layout p)" using wf by (simp add: pool_wf_def)
  ultimately show ?thesis using fits by (simp add: pool_fits_def)
qed

lemma opaque_insert_spec:
  assumes wf: "pool_wf p" and fits: "pool_fits 1 p"
  shows "\<exists>p' h. opaque_insert base p (opaque_object_layout p) x = Some (p', Completed h) \<and> pool_wf p'
    \<and> pool_object p h = None \<and> pool_object p' = (pool_object p)(h \<mapsto> x)
    \<and> opaque_len p' = Suc (opaque_len p) \<and> pool_layout p' = pool_layout p
    \<and> (\<forall>j < slab_index h. j < length (slabs p) \<longrightarrow> slab_is_full (slabs p ! j))
    \<and> length (slabs p') = (if \<forall>s \<in> set (slabs p). slab_is_full s then Suc (length (slabs p)) else length (slabs p))"
proof -
  obtain q i where q: "index_of_slab_to_insert_into base p = Some (q, i)" "pool_wf q"
    "pool_layout q = pool_layout p" "pool_length q = pool_length p" "pool_object q = pool_object p"
    "i < length (slabs q)" "\<not> slab_is_full (slabs q ! i)" "\<forall>j < i. slab_is_full (slabs q ! j)"
    "slabs q = slabs p \<or> (\<forall>s \<in> set (slabs p). slab_is_full s) \<and> i = length (slabs p)
       \<and> slabs q = slabs p @ [slab_new (pool_layout p) (pool_policy p) base]"
    using index_spec[OF wf fits, of base] by blast
  obtain s' h t where s': "insert_with_unchecked (slabs q ! i) (object_layout (pool_layout q)) (Completed x) = Some (s', Completed h)"
    "(if slab_is_full s' then update_slab_status (pool_tracker q) i False else Some (pool_tracker q)) = Some t"
    "pool_wf (q\<lparr>slabs := (slabs q)[i := s'], pool_length := Suc (pool_length q), pool_tracker := t\<rparr>)"
    "slab_object (slabs q ! i) h = None" "slab_object s' = (slab_object (slabs q ! i))(h \<mapsto> x)"
    using insert_into_slab[OF q(2,6,7), of x] by blast
  let ?p = "q\<lparr>slabs := (slabs q)[i := s'], pool_length := Suc (pool_length q), pool_tracker := t\<rparr>"
  let ?h = "\<lparr>slab_index = i, slab_handle_of = h\<rparr>"
  have "wrapping_add (pool_length q) 1 = Suc (pool_length q)"
    using pool_length_bound[OF wf fits] q(4) by (simp add: usize_simps)
  then have run: "opaque_insert base p (opaque_object_layout p) x = Some (?p, Completed ?h)"
    using q(1,3,6) s'(1,2)
    by (cases "slab_is_full s'") (simp_all add: opaque_insert_def opaque_insert_unchecked_def opaque_insert_with_unchecked_def
        opaque_object_layout_def Let_def)
  have "pool_object p ?h = None" using s'(4) q(5,6) by (simp add: pool_object_def flip: q(5))
  moreover have "pool_object ?p k = ((pool_object p)(?h \<mapsto> x)) k" for k
    using pool_object_update[OF q(6), of ?p s' k] s'(5) q(6)
    by (cases k) (auto simp: pool_object_def simp flip: q(5))
  moreover have "\<forall>j < i. j < length (slabs p) \<longrightarrow> slab_is_full (slabs p ! j)"
    using q(8,9) by (auto simp: nth_append)
  moreover have "length (slabs ?p) = (if \<forall>s \<in> set (slabs p). slab_is_full s then Suc (length (slabs p)) else length (slabs p))"
  proof (cases "\<forall>s \<in> set (slabs p). slab_is_full s")
    case True
    then have "slabs q \<noteq> slabs p" using q(6,7) by (metis nth_mem)
    with True q(9) show ?thesis by auto
  next
    case False
    with q(9) show ?thesis by auto
  qed
  ultimately show ?thesis
    using run s'(3) q(3,4) by (intro exI[of _ ?p] exI[of _ ?h]) (auto simp: opaque_len_def)
qed

text \<open>An initializer that unwinds: no object appears, and at most an empty slab is added.\<close>

lemma opaque_insert_panicked:
  assumes wf: "pool_wf p" and fits: "pool_fits 1 p"
  shows "\<exists>p'. opaque_insert_with base p (opaque_object_layout p) Panicked = Some (p', Panicked) \<and> pool_wf p'
    \<and> pool_object p' = pool_object p \<and> opaque_len p' = opaque_len p"
proof -
  obtain q i where q: "index_of_slab_to_insert_into base p = Some (q, i)" "pool_wf q"
    "pool_layout q = pool_layout p" "pool_length q = pool_length p" "pool_object q = pool_object p"
    "i < length (slabs q)" "\<not> slab_is_full (slabs q ! i)"
    using index_spec[OF wf fits, of base] by blast
  have "insert_with_unchecked (slabs q ! i) (object_layout (pool_layout p)) Panicked = Some (slabs q ! i, Panicked)"
    using pool_wf_slab[OF q(2,6)] q(3,7) by (intro insert_panicked) simp_all
  then show ?thesis using q
    by (intro exI[of _ q])
      (simp add: opaque_insert_with_def opaque_insert_with_unchecked_def opaque_object_layout_def
        opaque_len_def Let_def)
qed

lemma remove_from_slab:
  assumes wf: "pool_wf p" and h: "pool_object p h = Some x"
    and t: "slab_wf s'" "same_frame (slabs p ! slab_index h) s'"
      "slab_object s' = (slab_object (slabs p ! slab_index h))(slab_handle_of h := None)"
      "Suc (slab_len s') = slab_len (slabs p ! slab_index h)"
  shows "\<exists>p'. note_removed (p\<lparr>slabs := (slabs p)[slab_index h := s']\<rparr>) (slab_index h) s' = Some p'
    \<and> pool_wf p' \<and> pool_object p' = (pool_object p)(h := None) \<and> Suc (opaque_len p') = opaque_len p
    \<and> pool_layout p' = pool_layout p"
proof -
  let ?i = "slab_index h"
  let ?s = "slabs p ! ?i"
  have i: "?i < length (slabs p)" using h by (auto simp: pool_object_def split: if_splits)
  have s: "slab_wf ?s" "slab_layout_of ?s = pool_layout p" using pool_wf_slab[OF wf i] by auto
  have layout: "slab_layout_of s' = pool_layout p" using t(2) s(2) by (simp add: same_frame_def)
  have cap: "0 < slot_capacity (pool_layout p)" using wf by (simp add: pool_wf_def)
  have full: "(slab_len s' = wrapping_sub (slot_capacity (pool_layout p)) 1) = slab_is_full ?s"
    using t(4) cap s(2) by (auto simp: slab_is_full_def slab_len_def usize_simps)
  have notfull: "\<not> slab_is_full s'"
    using slab_len_le[OF s(1)] t(4) s(2) layout by (simp add: slab_is_full_def slab_len_def)
  have pos: "0 < pool_length p"
  proof -
    have "slab_len ?s \<le> sum_list (map slab_len (slabs p))"
      using i elem_le_sum_list[of ?i "map slab_len (slabs p)"] by simp
    with t(4) wf show ?thesis by (simp add: pool_wf_def)
  qed
  have tr: "tracker_sound (pool_tracker p)" "?i < length (slab_flags (pool_tracker p))"
    using wf i by (simp_all add: pool_wf_def)
  have "\<exists>t. (if slab_is_full ?s then update_slab_status (pool_tracker p) ?i True else Some (pool_tracker p)) = Some t
      \<and> tracker_sound t \<and> slab_flags t = (vacancies (slabs p))[?i := \<not> slab_is_full s']"
  proof (cases "slab_is_full ?s")
    case True
    then show ?thesis
      using tracker.status_ok[OF tr, of True] flags_at[OF wf i] notfull wf by (auto simp: pool_wf_def)
  next
    case False
    then have "(vacancies (slabs p))[?i := \<not> slab_is_full s'] = vacancies (slabs p)"
      using notfull i by (simp add: list_update_same_conv)
    with False tr wf show ?thesis by (simp add: pool_wf_def)
  qed
  then obtain t where tt: "(if slab_is_full ?s then update_slab_status (pool_tracker p) ?i True
      else Some (pool_tracker p)) = Some t" "tracker_sound t"
    "slab_flags t = (vacancies (slabs p))[?i := \<not> slab_is_full s']" by blast
  let ?p = "p\<lparr>slabs := (slabs p)[?i := s'], pool_length := pool_length p - 1, pool_tracker := t\<rparr>"
  have "pool_wf ?p"
    using t(4) pos by (intro pool_wf_exchange[OF wf i t(1) layout _ tt(2,3)]) simp
  moreover have "note_removed (p\<lparr>slabs := (slabs p)[?i := s']\<rparr>) ?i s' = Some ?p"
    using tt(1) full pos
    by (cases "slab_is_full ?s") (simp_all add: note_removed_def Let_def usize_simps)
  moreover have "pool_object ?p k = ((pool_object p)(h := None)) k" for k
    using pool_object_update[OF i, of ?p s' k] t(3) i
    by (cases k; cases h) (auto simp: pool_object_def)
  ultimately show ?thesis using pos by (intro exI[of _ ?p]) (auto simp: opaque_len_def)
qed

lemma pool_object_slab:
  assumes "pool_object p h = Some x"
  shows "slab_index h < length (slabs p)" "slab_object (slabs p ! slab_index h) (slab_handle_of h) = Some x"
  using assms by (auto simp: pool_object_def split: if_splits)

lemma opaque_remove_spec:
  assumes wf: "pool_wf p" and h: "pool_object p h = Some x" and ok: "drop_glue x = None"
  shows "\<exists>p'. opaque_remove drop_glue p h = Some (p', Completed None) \<and> pool_wf p'
    \<and> pool_object p' = (pool_object p)(h := None) \<and> Suc (opaque_len p') = opaque_len p
    \<and> pool_layout p' = pool_layout p"
proof -
  note o = pool_object_slab[OF h]
  have s: "slab_wf (slabs p ! slab_index h)" using pool_wf_slab[OF wf o(1)] by blast
  obtain s' where s': "slab_remove drop_glue (slabs p ! slab_index h) (slab_handle_of h) = Some (s', Completed (drop_glue x))"
    "slab_wf s'" "same_frame (slabs p ! slab_index h) s'"
    "slab_object s' = (slab_object (slabs p ! slab_index h))(slab_handle_of h := None)"
    "Suc (slab_len s') = slab_len (slabs p ! slab_index h)"
    using slab_remove_spec[OF s o(2), of drop_glue] by blast
  show ?thesis
    using remove_from_slab[OF wf h s'(2-5)] s'(1) o(1) ok by (auto simp: opaque_remove_def Let_def)
qed

lemma opaque_remove_unpin_spec:
  assumes wf: "pool_wf p" and h: "pool_object p h = Some x"
  shows "\<exists>p'. opaque_remove_unpin p h = Some (p', Completed x) \<and> pool_wf p'
    \<and> pool_object p' = (pool_object p)(h := None) \<and> Suc (opaque_len p') = opaque_len p
    \<and> pool_layout p' = pool_layout p"
proof -
  note o = pool_object_slab[OF h]
  have s: "slab_wf (slabs p ! slab_index h)" "slab_layout_of (slabs p ! slab_index h) = pool_layout p"
    using pool_wf_slab[OF wf o(1)] by auto
  obtain s' where s': "slab_take (slabs p ! slab_index h) (slab_handle_of h) = Some (s', x)" "slab_wf s'"
    "slab_object s' = (slab_object (slabs p ! slab_index h))(slab_handle_of h := None)"
    "Suc (slab_len s') = slab_len (slabs p ! slab_index h)"
    using slab.take_ok[OF s(1) o(2)] by blast
  then have t: "take_out (slabs p ! slab_index h) (slab_handle_of h) = Some (s', Completed x)"
    by (auto simp: slab_take_def split: option.splits completion.splits)
  then have f: "same_frame (slabs p ! slab_index h) s'" using take_out_spec[OF s(1) o(2)] by auto
  have "0 < size_of (object_layout (pool_layout p))" using wf by (simp add: pool_wf_def)
  then have "slab_remove_unpin (slabs p ! slab_index h) (slab_handle_of h) = Some (s', Completed x)"
    using t s(2) by (simp add: slab_remove_unpin_def)
  then show ?thesis
    using remove_from_slab[OF wf h s'(2) f s'(3,4)] o(1) by (auto simp: opaque_remove_unpin_def Let_def)
qed

definition opaque_put :: "addr \<Rightarrow> 'o opaque_pool \<Rightarrow> 'o \<Rightarrow> ('o opaque_pool \<times> pool_handle) option" where
  "opaque_put base p x =
     (case opaque_insert base p (opaque_object_layout p) x of
        Some (p', Completed h) \<Rightarrow> Some (p', h) | _ \<Rightarrow> None)"

definition opaque_take :: "'o opaque_pool \<Rightarrow> pool_handle \<Rightarrow> ('o opaque_pool \<times> 'o) option" where
  "opaque_take p h =
     (case opaque_remove_unpin p h of Some (p', Completed x) \<Rightarrow> Some (p', x) | _ \<Rightarrow> None)"

interpretation opaque: object_store pool_object "opaque_put base" opaque_take opaque_len "pool_fits 1" pool_wf
  for base
proof unfold_locales
  fix p :: "'o opaque_pool" and x assume "pool_wf p" "pool_fits 1 p"
  then show "\<exists>p' h. opaque_put base p x = Some (p', h) \<and> pool_wf p' \<and> pool_object p h = None
      \<and> pool_object p' = (pool_object p)(h \<mapsto> x) \<and> opaque_len p' = Suc (opaque_len p)"
    using opaque_insert_spec[of p base x] by (auto simp: opaque_put_def)
next
  fix p :: "'o opaque_pool" and h x assume "pool_wf p" "pool_object p h = Some x"
  then show "\<exists>p'. opaque_take p h = Some (p', x) \<and> pool_wf p'
      \<and> pool_object p' = (pool_object p)(h := None) \<and> Suc (opaque_len p') = opaque_len p"
    using opaque_remove_unpin_spec[of p h x] by (auto simp: opaque_take_def)
qed

section \<open>Reserving and shrinking\<close>

lemma slabs_for_capacity:
  assumes "0 < c" and "n * c < r"
  shows "n < div_ceil r c \<and> r \<le> div_ceil r c * c"
proof -
  have "r \<le> div_ceil r c * c" using assms(1) by (rule div_ceil_upper)
  moreover have "n < div_ceil r c"
  proof (rule ccontr)
    assume "\<not> n < div_ceil r c"
    then have "div_ceil r c * c \<le> n * c" by (intro mult_le_mono1) simp
    with calculation assms(2) show False by simp
  qed
  ultimately show ?thesis by blast
qed

lemma pool_wf_append_new:
  assumes wf: "pool_wf p" and k: "0 < k" and fits: "pool_fits k p"
    and news: "news = map (\<lambda>i. slab_new (pool_layout p) (pool_policy p) (b i)) [0..<k]"
  shows "\<exists>t. update_slab_count (pool_tracker p) (length (slabs p @ news)) = Some t
    \<and> pool_wf (p\<lparr>slabs := slabs p @ news, pool_tracker := t\<rparr>)
    \<and> pool_object (p\<lparr>slabs := slabs p @ news, pool_tracker := t\<rparr>) = pool_object p"
proof -
  have c: "0 < slot_capacity (pool_layout p)" "slot_capacity (pool_layout p) < usize_range"
    using wf by (simp_all add: pool_wf_def)
  note new = new_slab_facts[OF c]
  have fl: "tracker_sound (pool_tracker p)" "length (slab_flags (pool_tracker p)) = length (slabs p)"
    using wf by (simp_all add: pool_wf_def)
  have range: "(length (slabs p) + k) * slot_capacity (pool_layout p) < usize_range"
    using fits by (simp add: pool_fits_def)
  have n: "length (slabs p) + k < usize_range" by (rule count_le_slots[OF c(1) range])
  obtain t where t: "update_slab_count (pool_tracker p) (length (slabs p) + k) = Some t" "tracker_sound t"
    "slab_flags t = slab_flags (pool_tracker p) @ replicate k True"
    using tracker.count_grow[OF fl(1), of "length (slabs p) + k"] fl(2) n k by auto
  have "vacancies news = replicate k True"
    unfolding news by (simp add: new(3) list_eq_iff_nth_eq)
  moreover have "sum_list (map slab_len news) = 0" unfolding news by (simp add: new(4) comp_def)
  moreover have "\<forall>s \<in> set news. slab_wf s \<and> slab_layout_of s = pool_layout p"
    unfolding news using new(1,2) by auto
  moreover have len: "length news = k" by (simp add: news)
  ultimately have "pool_wf (p\<lparr>slabs := slabs p @ news, pool_tracker := t\<rparr>)"
    using wf t range unfolding pool_wf_def by auto
  moreover have "pool_object (p\<lparr>slabs := slabs p @ news, pool_tracker := t\<rparr>) = pool_object p"
    by (auto simp: pool_object_def nth_append fun_eq_iff news)
  ultimately show ?thesis using t(1) len by auto
qed

lemma opaque_reserve_spec:
  assumes wf: "pool_wf p" and add: "opaque_len p + n < usize_range"
    and fits: "div_ceil (opaque_len p + n) (slot_capacity (pool_layout p)) * slot_capacity (pool_layout p) < usize_range"
  shows "\<exists>p'. opaque_reserve bases p n = Some p' \<and> pool_wf p' \<and> pool_object p' = pool_object p
    \<and> opaque_len p' = opaque_len p \<and> opaque_len p + n \<le> opaque_capacity p'
    \<and> pool_layout p' = pool_layout p"
proof (cases "opaque_len p + n \<le> opaque_capacity p")
  case True
  then show ?thesis using wf add by (simp add: opaque_reserve_def checked_add_def)
next
  case False
  let ?c = "slot_capacity (pool_layout p)"
  let ?need = "div_ceil (opaque_len p + n) ?c"
  let ?k = "?need - length (slabs p)"
  let ?news = "map (\<lambda>k. slab_new (pool_layout p) (pool_policy p) (bases (length (slabs p) + k))) [0..<?k]"
  have c: "0 < ?c" using wf by (simp add: pool_wf_def)
  have need: "length (slabs p) < ?need" "opaque_len p + n \<le> ?need * ?c"
    using slabs_for_capacity[OF c, of "length (slabs p)" "opaque_len p + n"] False opaque_capacity_eq[OF wf]
    by auto
  then have "pool_fits ?k p" using fits by (simp add: pool_fits_def)
  then obtain t where t: "update_slab_count (pool_tracker p) (length (slabs p @ ?news)) = Some t"
    "pool_wf (p\<lparr>slabs := slabs p @ ?news, pool_tracker := t\<rparr>)"
    "pool_object (p\<lparr>slabs := slabs p @ ?news, pool_tracker := t\<rparr>) = pool_object p"
    using pool_wf_append_new[OF wf, of ?k ?news "\<lambda>k. bases (length (slabs p) + k)"] need(1) by auto
  let ?p = "p\<lparr>slabs := slabs p @ ?news, pool_tracker := t\<rparr>"
  have "opaque_reserve bases p n = Some ?p"
    using False add t(1) by (simp add: opaque_reserve_def checked_add_def Let_def)
  moreover have "opaque_capacity ?p = ?need * ?c"
    using opaque_capacity_eq[OF t(2)] need(1) by simp
  ultimately show ?thesis using t need(2) by (intro exI[of _ ?p]) (simp add: opaque_len_def)
qed

lemma in_set_drop_nth:
  assumes "x \<in> set (drop n xs)"
  shows "\<exists>i. n \<le> i \<and> i < length xs \<and> xs ! i = x"
proof -
  obtain k where "k < length xs - n" "drop n xs ! k = x"
    using assms by (metis in_set_conv_nth length_drop)
  then show ?thesis by (intro exI[of _ "n + k"]) simp
qed

lemma last_used_le: "last_used ss n \<le> n" if "n < usize_range"
  using that by (induction n) (auto simp: usize_simps)

lemma last_used_spec:
  "n < usize_range \<Longrightarrow> last_used ss n \<le> i \<Longrightarrow> i < n \<Longrightarrow> slab_is_empty (ss ! i)"
proof (induction n)
  case (Suc n)
  then show ?case by (cases "i = n") (auto simp: usize_simps split: if_splits)
qed simp

lemma last_used_tight:
  "n < usize_range \<Longrightarrow> 0 < last_used ss n \<Longrightarrow> \<not> slab_is_empty (ss ! (last_used ss n - 1))"
  by (induction n) (auto simp: usize_simps)

lemma empty_slab_object: "slab_wf s \<Longrightarrow> slab_is_empty s \<Longrightarrow> slab_object s h = None"
  using slab_is_empty_iff[of s] nth_mem[of "handle_index h" "slots s"]
  by (cases "slots s ! handle_index h") (force simp: slab_object_def)+

lemma opaque_shrink_spec:
  assumes wf: "pool_wf p"
  shows "\<exists>p'. opaque_shrink_to_fit p = Some p' \<and> pool_wf p' \<and> pool_object p' = pool_object p
    \<and> opaque_len p' = opaque_len p \<and> slabs p' = take (length (slabs p')) (slabs p)
    \<and> (slabs p' \<noteq> [] \<longrightarrow> \<not> slab_is_empty (last (slabs p')))
    \<and> pool_layout p' = pool_layout p"
proof -
  let ?n = "last_used (slabs p) (length (slabs p))"
  have len: "length (slabs p) < usize_range" using wf by (rule pool_wf_count)
  have n: "?n \<le> length (slabs p)" by (rule last_used_le[OF len])
  have empty: "\<And>i. ?n \<le> i \<Longrightarrow> i < length (slabs p) \<Longrightarrow> slab_is_empty (slabs p ! i)"
    using last_used_spec[OF len] .
  have lastne: "take ?n (slabs p) \<noteq> [] \<Longrightarrow> \<not> slab_is_empty (last (take ?n (slabs p)))"
    using last_used_tight[OF len, of "slabs p"] n by (cases ?n) (auto simp: last_conv_nth take_Suc_conv_app_nth)
  show ?thesis
  proof (cases "?n = length (slabs p)")
    case True
    then show ?thesis using wf lastne by (simp add: opaque_shrink_to_fit_def)
  next
    case False
    with n have lt: "?n < length (slabs p)" by simp
    have fl: "tracker_sound (pool_tracker p)" "slab_flags (pool_tracker p) = vacancies (slabs p)"
      using wf by (simp_all add: pool_wf_def)
    have c: "0 < slot_capacity (pool_layout p)" using wf by (simp add: pool_wf_def)
    have tail: "s \<in> set (drop ?n (slabs p)) \<Longrightarrow> slab_is_empty s \<and> slab_wf s \<and> slab_layout_of s = pool_layout p" for s
      using empty pool_wf_slab[OF wf] in_set_drop_nth by metis
    have "False \<notin> set (drop ?n (vacancies (slabs p)))"
      using tail c by (auto simp: drop_map slab_is_full_def slab_is_empty_def)
    then obtain t where t: "update_slab_count (pool_tracker p) ?n = Some t" "tracker_sound t"
      "slab_flags t = take ?n (vacancies (slabs p))"
      using tracker.count_shrink[OF fl(1), of ?n] fl(2) lt by auto
    let ?p = "p\<lparr>slabs := take ?n (slabs p), pool_tracker := t\<rparr>"
    have "sum_list (map slab_len (slabs p)) =
        sum_list (map slab_len (take ?n (slabs p))) + sum_list (map slab_len (drop ?n (slabs p)))"
      by (metis append_take_drop_id map_append sum_list_append)
    moreover have "sum_list (map slab_len (drop ?n (slabs p))) = 0"
      using tail by (auto simp: slab_is_empty_def slab_len_def)
    moreover have "?n * slot_capacity (pool_layout p) < usize_range"
      using mult_le_mono1[OF n, of "slot_capacity (pool_layout p)"] wf unfolding pool_wf_def
      by (meson order_le_less_trans)
    ultimately have "pool_wf ?p"
      using wf t n unfolding pool_wf_def by (auto simp: take_map dest: in_set_takeD)
    moreover have "pool_object ?p h = pool_object p h" for h
    proof (cases "?n \<le> slab_index h \<and> slab_index h < length (slabs p)")
      case True
      then have "slab_object (slabs p ! slab_index h) (slab_handle_of h) = None"
        using empty pool_wf_slab[OF wf] by (intro empty_slab_object) auto
      with True show ?thesis by (simp add: pool_object_def)
    next
      case False
      with n show ?thesis by (auto simp: pool_object_def)
    qed
    moreover have "opaque_shrink_to_fit p = Some ?p"
      using False t(1) n by (simp add: opaque_shrink_to_fit_def Let_def min_def)
    ultimately show ?thesis using lastne n by (intro exI[of _ ?p]) (auto simp: opaque_len_def min_def)
  qed
qed

section \<open>Iteration\<close>

definition slab_ptrs :: "'o slab \<Rightarrow> addr list" where
  "slab_ptrs s = slab_iter_rest s (slab_iter s)"

definition pool_ptrs :: "'o slab list \<Rightarrow> addr list" where
  "pool_ptrs ss = concat (map slab_ptrs ss)"

definition front_rest :: "'o opaque_pool \<Rightarrow> pool_iterator \<Rightarrow> addr list" where
  "front_rest p it =
     (case front_iter it of
        None \<Rightarrow> pool_ptrs (drop (front_slab it) (slabs p))
      | Some si \<Rightarrow> slab_iter_rest (slabs p ! front_slab it) si @ pool_ptrs (drop (Suc (front_slab it)) (slabs p)))"

definition front_state :: "'o opaque_pool \<Rightarrow> pool_iterator \<Rightarrow> bool" where
  "front_state p it =
     (front_slab it \<le> length (slabs p)
      \<and> (case front_iter it of None \<Rightarrow> True
          | Some si \<Rightarrow> front_slab it < length (slabs p) \<and> slab_iter_ok (slabs p ! front_slab it) si))"

text \<open>\<open>back_left\<close> counts the slabs the back end has not finished; it undoes the wrap of an exhausted index.\<close>

definition back_left :: "pool_iterator \<Rightarrow> nat" where
  "back_left it = wrapping_add (back_slab it) 1"

definition back_rest :: "'o opaque_pool \<Rightarrow> pool_iterator \<Rightarrow> addr list" where
  "back_rest p it =
     (case back_iter it of
        None \<Rightarrow> pool_ptrs (take (back_left it) (slabs p))
      | Some si \<Rightarrow> pool_ptrs (take (back_slab it) (slabs p)) @ slab_iter_rest (slabs p ! back_slab it) si)"

definition back_state :: "'o opaque_pool \<Rightarrow> pool_iterator \<Rightarrow> bool" where
  "back_state p it =
     (back_left it \<le> length (slabs p) \<and> back_slab it < usize_range
      \<and> (case back_iter it of None \<Rightarrow> True
          | Some si \<Rightarrow> back_slab it < length (slabs p) \<and> slab_iter_ok (slabs p ! back_slab it) si))"

lemma length_slab_ptrs: "slab_wf s \<Longrightarrow> length (slab_ptrs s) = slab_len s"
  using slab_iter_ok[of s]
  by (simp add: slab_iter_ok_def slab_ptrs_def slab_iter_rest_def slab_len_def slab_iter_def)

lemma length_pool_ptrs: "\<forall>s \<in> set ss. slab_wf s \<Longrightarrow> length (pool_ptrs ss) = sum_list (map slab_len ss)"
  by (induction ss) (simp_all add: pool_ptrs_def length_slab_ptrs)

lemma length_pool_ptrs_pool: "pool_wf p \<Longrightarrow> length (pool_ptrs (slabs p)) = opaque_len p"
  by (simp add: pool_wf_def opaque_len_def length_pool_ptrs)

lemma pool_ptrs_drop:
  "i < length ss \<Longrightarrow> pool_ptrs (drop i ss) = slab_ptrs (ss ! i) @ pool_ptrs (drop (Suc i) ss)"
  by (simp add: pool_ptrs_def flip: Cons_nth_drop_Suc)

lemma pool_ptrs_take:
  "i < length ss \<Longrightarrow> pool_ptrs (take (Suc i) ss) = pool_ptrs (take i ss) @ slab_ptrs (ss ! i)"
  by (simp add: pool_ptrs_def take_Suc_conv_app_nth)

lemma pool_next_spec:
  assumes "pool_wf p" and "0 < pool_iter_len p it" and "pool_yielded it < opaque_len p"
    and "front_state p it" and "front_rest p it = x # r"
  shows "\<exists>it'. pool_next p it = Some (it', Some x) \<and> front_state p it' \<and> front_rest p it' = r
    \<and> pool_yielded it' = Suc (pool_yielded it) \<and> back_slab it' = back_slab it \<and> back_iter it' = back_iter it"
  using assms(2-)
proof (induction "length (slabs p) - front_slab it" arbitrary: it rule: less_induct)
  case less
  let ?f = "front_slab it"
  have range: "opaque_len p < usize_range" "length (slabs p) < usize_range"
    using opaque_len_le_capacity[OF assms(1)] opaque_capacity_eq[OF assms(1)] pool_wf_count[OF assms(1)] assms(1)
    by (auto simp: pool_wf_def)
  have f: "?f < length (slabs p)"
  proof (rule ccontr)
    assume "\<not> ?thesis"
    then have "front_iter it = None" "drop ?f (slabs p) = []"
      using less.prems(3) by (auto simp: front_state_def split: option.splits)
    with less.prems(4) show False by (simp add: front_rest_def pool_ptrs_def)
  qed
  have wf: "slab_wf (slabs p ! ?f)" using pool_wf_slab[OF assms(1) f] by blast
  obtain si where si: "iter_or_open p ?f (front_iter it) = Some si" "slab_iter_ok (slabs p ! ?f) si"
    "front_rest p it = slab_iter_rest (slabs p ! ?f) si @ pool_ptrs (drop (Suc ?f) (slabs p))"
  proof (cases "front_iter it")
    case None
    then show ?thesis
      using f slab_iter_ok[OF wf] that
      by (simp add: iter_or_open_def front_rest_def pool_ptrs_drop slab_ptrs_def)
  next
    case (Some si)
    then show ?thesis using less.prems(3) that by (simp add: iter_or_open_def front_rest_def front_state_def)
  qed
  show ?case
  proof (cases "slab_iter_rest (slabs p ! ?f) si")
    case (Cons y ys)
    with si(3) less.prems(4) have y: "y = x" "r = ys @ pool_ptrs (drop (Suc ?f) (slabs p))" by simp_all
    obtain si' where si': "slab_next (slabs p ! ?f) si = Some (si', Some y)" "slab_iter_ok (slabs p ! ?f) si'"
      "slab_iter_rest (slabs p ! ?f) si' = ys"
      using slab_iteration.nxt_item[OF si(2) Cons] by blast
    have "wrapping_add (pool_yielded it) 1 = Suc (pool_yielded it)"
      using less.prems(2) range(1) by (simp add: usize_simps)
    then show ?thesis
      using si(1) si' y f less.prems(1)
      by (simp add: pool_next.simps[of p it] front_state_def front_rest_def)
  next
    case Nil
    let ?it = "it\<lparr>front_slab := Suc ?f, front_iter := None\<rparr>"
    have "slab_next (slabs p ! ?f) si = Some (si, None)" using slab_iteration.nxt_empty[OF si(2) Nil] .
    then have step: "pool_next p it = pool_next p ?it"
      using si(1) f range(2) less.prems(1) by (simp add: pool_next.simps[of p it] usize_simps)
    have "front_rest p ?it = x # r" using si(3) Nil less.prems(4) by (simp add: front_rest_def)
    then show ?thesis
      unfolding step using less.hyps[of ?it] less.prems f by (simp add: front_state_def pool_iter_len_def)
  qed
qed

lemma pool_next_back_spec:
  assumes "pool_wf p" and "0 < pool_iter_len p it" and "pool_yielded it < opaque_len p"
    and "back_state p it" and "back_rest p it = r @ [x]"
  shows "\<exists>it'. pool_next_back p it = Some (it', Some x) \<and> back_state p it' \<and> back_rest p it' = r
    \<and> pool_yielded it' = Suc (pool_yielded it) \<and> front_slab it' = front_slab it \<and> front_iter it' = front_iter it"
  using assms(2-)
proof (induction "back_left it" arbitrary: it rule: less_induct)
  case less
  let ?b = "back_slab it"
  have range: "opaque_len p < usize_range" "length (slabs p) < usize_range"
    using opaque_len_le_capacity[OF assms(1)] opaque_capacity_eq[OF assms(1)] pool_wf_count[OF assms(1)] assms(1)
    by (auto simp: pool_wf_def)
  have b: "?b < length (slabs p)" "back_left it = Suc ?b"
  proof -
    have "back_left it = Suc ?b \<or> back_left it = 0 \<and> Suc ?b = usize_range"
      using less.prems(3) by (auto simp: back_left_def wrapping_add_def back_state_def mod_Suc)
    moreover have "back_left it = 0 \<Longrightarrow> back_iter it = None \<Longrightarrow> False"
      using less.prems(4) by (simp add: back_rest_def pool_ptrs_def)
    ultimately show "?b < length (slabs p)" "back_left it = Suc ?b"
      using less.prems(3) range(2) by (auto simp: back_state_def split: option.splits)
  qed
  have wf: "slab_wf (slabs p ! ?b)" using pool_wf_slab[OF assms(1) b(1)] by blast
  obtain si where si: "iter_or_open p ?b (back_iter it) = Some si" "slab_iter_ok (slabs p ! ?b) si"
    "back_rest p it = pool_ptrs (take ?b (slabs p)) @ slab_iter_rest (slabs p ! ?b) si"
  proof (cases "back_iter it")
    case None
    then show ?thesis
      using b slab_iter_ok[OF wf] that
      by (simp add: iter_or_open_def back_rest_def pool_ptrs_take slab_ptrs_def)
  next
    case (Some si)
    then show ?thesis using less.prems(3) that by (simp add: iter_or_open_def back_rest_def back_state_def)
  qed
  show ?case
  proof (cases "slab_iter_rest (slabs p ! ?b) si" rule: rev_cases)
    case (snoc ys y)
    with si(3) less.prems(4) have y: "y = x" "r = pool_ptrs (take ?b (slabs p)) @ ys" by auto
    obtain si' where si': "slab_next_back (slabs p ! ?b) si = Some (si', Some y)" "slab_iter_ok (slabs p ! ?b) si'"
      "slab_iter_rest (slabs p ! ?b) si' = ys"
      using slab_iteration.back_item[OF si(2) snoc] by blast
    have "wrapping_add (pool_yielded it) 1 = Suc (pool_yielded it)"
      using less.prems(2) range(1) by (simp add: usize_simps)
    then show ?thesis
      using si(1) si' y b less.prems(1,3)
      by (simp add: pool_next_back.simps[of p it] back_state_def back_rest_def back_left_def)
  next
    case Nil
    let ?it = "it\<lparr>back_slab := wrapping_sub ?b 1, back_iter := None\<rparr>"
    have "slab_next_back (slabs p ! ?b) si = Some (si, None)" using slab_iteration.back_empty[OF si(2) Nil] .
    then have step: "pool_next_back p it = pool_next_back p ?it"
      using si(1) less.prems(1) by (simp add: pool_next_back.simps[of p it])
    have left: "back_left ?it = ?b"
      using b(1) range(2) by (cases ?b) (simp_all add: back_left_def wrapping_add_def wrapping_sub_def)
    then have "back_rest p ?it = r @ [x]" using si(3) Nil less.prems(4) by (simp add: back_rest_def)
    moreover have "back_state p ?it"
      using left b(1) range(2) by (cases ?b) (simp_all add: back_state_def wrapping_sub_def)
    ultimately show ?thesis
      unfolding step using less.hyps[of ?it] less.prems(1,2) left b by (simp add: pool_iter_len_def)
  qed
qed

text \<open>The front end has taken \<open>k\<close> items, the back end \<open>j\<close>.\<close>

definition pool_pos :: "'o opaque_pool \<Rightarrow> pool_iterator \<Rightarrow> nat \<Rightarrow> nat \<Rightarrow> bool" where
  "pool_pos p it k j =
     (pool_wf p \<and> front_state p it \<and> back_state p it
      \<and> pool_yielded it = k + j \<and> k + j \<le> opaque_len p
      \<and> front_rest p it = drop k (pool_ptrs (slabs p))
      \<and> back_rest p it = take (opaque_len p - j) (pool_ptrs (slabs p)))"

definition pool_iter_ok :: "'o opaque_pool \<Rightarrow> pool_iterator \<Rightarrow> bool" where
  "pool_iter_ok p it = (\<exists>k j. pool_pos p it k j)"

definition pool_iter_rest :: "'o opaque_pool \<Rightarrow> pool_iterator \<Rightarrow> addr list" where
  "pool_iter_rest p it = take (opaque_len p - pool_yielded it) (front_rest p it)"

lemma pool_iter_ok_start: "pool_wf p \<Longrightarrow> pool_iter_ok p (pool_iter p)"
proof -
  assume wf: "pool_wf p"
  have "back_left (pool_iter p) = length (slabs p)" "back_slab (pool_iter p) < usize_range"
    using pool_wf_count[OF wf]
    by (cases "length (slabs p)"; simp add: back_left_def pool_iter_def wrapping_add_def wrapping_sub_def)+
  with wf show ?thesis
    using length_pool_ptrs_pool[OF wf]
    unfolding pool_iter_ok_def
    by (intro exI[of _ 0])
      (simp add: pool_pos_def front_state_def back_state_def front_rest_def back_rest_def, simp add: pool_iter_def)
qed

interpretation pool_iteration: double_ended "pool_next p" "pool_next_back p" "pool_iter_rest p" "pool_iter_ok p"
  for p :: "'o opaque_pool"
proof unfold_locales
  fix it assume ok: "pool_iter_ok p it" and rest: "pool_iter_rest p it = []"
  let ?all = "pool_ptrs (slabs p)"
  obtain k j where kj: "pool_yielded it = k + j" "k + j \<le> opaque_len p" "front_rest p it = drop k ?all"
    and wf: "pool_wf p"
    using ok by (auto simp: pool_iter_ok_def pool_pos_def)
  have "length (pool_iter_rest p it) = opaque_len p - pool_yielded it"
    using kj length_pool_ptrs_pool[OF wf] by (simp add: pool_iter_rest_def)
  with rest kj have "pool_iter_len p it = 0"
    by (simp add: pool_iter_len_def usize_simps)
  then show "pool_next p it = Some (it, None)" "pool_next_back p it = Some (it, None)"
    by (simp_all add: pool_next.simps[of p it] pool_next_back.simps[of p it])
next
  fix it x xs assume ok: "pool_iter_ok p it" and rest: "pool_iter_rest p it = x # xs"
  let ?all = "pool_ptrs (slabs p)"
  obtain k j where kj: "pool_yielded it = k + j" "k + j \<le> opaque_len p" "front_rest p it = drop k ?all"
    "back_rest p it = take (opaque_len p - j) ?all" and wf: "pool_wf p"
    and state: "front_state p it" "back_state p it"
    using ok by (auto simp: pool_iter_ok_def pool_pos_def)
  have y: "pool_yielded it < opaque_len p"
    using rest by (cases "opaque_len p - pool_yielded it") (auto simp: pool_iter_rest_def)
  then have len: "0 < pool_iter_len p it" by (simp add: pool_iter_len_def usize_simps)
  obtain r where r: "front_rest p it = x # r" "xs = take (opaque_len p - Suc (pool_yielded it)) r"
    using rest y by (cases "front_rest p it") (auto simp: pool_iter_rest_def take_Cons' Suc_diff_Suc)
  obtain it' where it': "pool_next p it = Some (it', Some x)" "front_state p it'" "front_rest p it' = r"
    "pool_yielded it' = Suc (pool_yielded it)" "back_slab it' = back_slab it" "back_iter it' = back_iter it"
    using pool_next_spec[OF wf len y state(1) r(1)] by blast
  have "r = drop (Suc k) ?all" using r(1) kj(3) by (metis drop_Suc list.sel(3) tl_drop)
  moreover have "back_rest p it' = back_rest p it" "back_state p it'"
    using it'(5,6) state(2)
    by (simp_all add: back_rest_def back_state_def back_left_def cong: option.case_cong)
  ultimately have "pool_pos p it' (Suc k) j" using wf it' kj y by (simp add: pool_pos_def)
  then have "pool_iter_ok p it'" unfolding pool_iter_ok_def by blast
  then show "\<exists>it'. pool_next p it = Some (it', Some x) \<and> pool_iter_ok p it' \<and> pool_iter_rest p it' = xs"
    using it' r(2) by (auto simp: pool_iter_rest_def)
next
  fix it x xs assume ok: "pool_iter_ok p it" and rest: "pool_iter_rest p it = xs @ [x]"
  let ?all = "pool_ptrs (slabs p)"
  obtain k j where kj: "pool_yielded it = k + j" "k + j \<le> opaque_len p" "front_rest p it = drop k ?all"
    "back_rest p it = take (opaque_len p - j) ?all" and wf: "pool_wf p"
    and state: "front_state p it" "back_state p it"
    using ok by (auto simp: pool_iter_ok_def pool_pos_def)
  have y: "pool_yielded it < opaque_len p"
    using rest by (cases "opaque_len p - pool_yielded it") (auto simp: pool_iter_rest_def)
  then have len: "0 < pool_iter_len p it" by (simp add: pool_iter_len_def usize_simps)
  have "pool_iter_rest p it = drop k (take (opaque_len p - j) ?all)"
    using kj by (simp add: pool_iter_rest_def take_drop add.commute)
  then have mid: "drop k (back_rest p it) = xs @ [x]" using kj(4) rest by simp
  then obtain r where r: "back_rest p it = r @ [x]" "drop k r = xs"
    by (cases "back_rest p it" rule: rev_cases) (auto simp: drop_append drop_Cons' split: if_splits)
  obtain it' where it': "pool_next_back p it = Some (it', Some x)" "back_state p it'" "back_rest p it' = r"
    "pool_yielded it' = Suc (pool_yielded it)" "front_slab it' = front_slab it" "front_iter it' = front_iter it"
    using pool_next_back_spec[OF wf len y state(2) r(1)] by blast
  have "r = butlast (take (opaque_len p - j) ?all)" using r(1) kj(4) by simp
  then have take_r: "r = take (opaque_len p - Suc j) ?all"
    using length_pool_ptrs_pool[OF wf] by (simp add: butlast_take)
  have front: "front_rest p it' = front_rest p it" "front_state p it'"
    using it'(5,6) state(1) by (simp_all add: front_rest_def front_state_def cong: option.case_cong)
  then have "pool_pos p it' k (Suc j)" using wf it' kj y take_r by (simp add: pool_pos_def)
  then have "pool_iter_ok p it'" unfolding pool_iter_ok_def by blast
  moreover have "pool_iter_rest p it' = drop k r"
  proof -
    have "k + (opaque_len p - Suc (k + j)) = opaque_len p - Suc j" using y kj(1) by simp
    then show ?thesis
      unfolding take_r using it'(4) front(1) kj(1,3) by (simp add: pool_iter_rest_def take_drop add.commute)
  qed
  ultimately show "\<exists>it'. pool_next_back p it = Some (it', Some x) \<and> pool_iter_ok p it' \<and> pool_iter_rest p it' = xs"
    using it'(1) r(2) by auto
qed

section \<open>Histories of a pool\<close>

text \<open>
  The pools a program can reach from a new one with these operations, as long as the address space
  lasts and no destructor unwinds out of \<open>remove\<close>.
\<close>

inductive pool_history :: "'o opaque_pool \<Rightarrow> bool" where
  fresh: "valid_layout meta \<Longrightarrow> valid_layout object \<Longrightarrow> opaque_new meta object policy = Some p \<Longrightarrow> pool_history p"
| inserted: "pool_history p \<Longrightarrow> pool_fits 1 p \<Longrightarrow>
    opaque_insert_with base p (opaque_object_layout p) f = Some (p', r) \<Longrightarrow> pool_history p'"
| removed: "pool_history p \<Longrightarrow> pool_object p h = Some x \<Longrightarrow> drop_glue x = None \<Longrightarrow>
    opaque_remove (drop_glue :: 'o \<Rightarrow> nat option) p h = Some (p', r) \<Longrightarrow> pool_history p'"
| taken: "pool_history p \<Longrightarrow> pool_object p h = Some x \<Longrightarrow>
    opaque_remove_unpin p h = Some (p', r) \<Longrightarrow> pool_history p'"
| reserved: "pool_history p \<Longrightarrow>
    div_ceil (opaque_len p + n) (slot_capacity (pool_layout p)) * slot_capacity (pool_layout p) < usize_range \<Longrightarrow>
    opaque_reserve bases p n = Some p' \<Longrightarrow> pool_history p'"
| shrunk: "pool_history p \<Longrightarrow> opaque_shrink_to_fit p = Some p' \<Longrightarrow> pool_history p'"

lemma insert_is_insert_with:
  "opaque_insert base p lt x = opaque_insert_with base p lt (Completed x)"
  by (simp add: opaque_insert_def opaque_insert_unchecked_def opaque_insert_with_def)

lemma pool_history_wf: "pool_history p \<Longrightarrow> pool_wf p"
proof (induction rule: pool_history.induct)
  case (fresh meta object policy p)
  then show ?case using opaque_new_wf by blast
next
  case (inserted p base f p' r)
  show ?case
  proof (cases f)
    case (Completed x)
    with inserted opaque_insert_spec[of p base x] show ?thesis
      unfolding insert_is_insert_with by auto
  next
    case Panicked
    with inserted opaque_insert_panicked[of p base] show ?thesis by auto
  qed
next
  case (removed p h x drop_glue p' r)
  then show ?case using opaque_remove_spec[of p h x drop_glue] by fastforce
next
  case (taken p h x p' r)
  then show ?case using opaque_remove_unpin_spec[of p h x] by fastforce
next
  case (reserved p n bases p')
  moreover have "opaque_len p + n < usize_range"
    using reserved(3) by (auto simp: opaque_reserve_def checked_add_def split: if_splits)
  ultimately show ?case using opaque_reserve_spec[of p n bases] by fastforce
next
  case (shrunk p p')
  then show ?case using opaque_shrink_spec[of p] by fastforce
qed

section \<open>A destructor that unwinds\<close>

lemma unwound_removal:
  assumes wf: "pool_wf p" and h: "pool_object p h = Some x" and e: "drop_glue x = Some e"
  shows "\<exists>p'. opaque_remove drop_glue p h = Some (p', Completed (Some e))
    \<and> pool_object p' = (pool_object p)(h := None) \<and> opaque_len p' = opaque_len p
    \<and> Suc (sum_list (map slab_len (slabs p'))) = opaque_len p'
    \<and> pool_tracker p' = pool_tracker p \<and> (\<forall>s \<in> set (slabs p'). slab_wf s)
    \<and> length (slabs p') = length (slabs p)"
proof -
  note o = pool_object_slab[OF h]
  let ?i = "slab_index h"
  have s: "slab_wf (slabs p ! ?i)" using pool_wf_slab[OF wf o(1)] by blast
  obtain s' where s': "slab_remove drop_glue (slabs p ! ?i) (slab_handle_of h) = Some (s', Completed (Some e))"
    "slab_wf s'" "slab_object s' = (slab_object (slabs p ! ?i))(slab_handle_of h := None)"
    "Suc (slab_len s') = slab_len (slabs p ! ?i)"
    using slab_remove_spec[OF s o(2), of drop_glue] e by auto
  let ?p = "p\<lparr>slabs := (slabs p)[?i := s']\<rparr>"
  have "opaque_remove drop_glue p h = Some (?p, Completed (Some e))"
    using s'(1) o(1) by (simp add: opaque_remove_def Let_def)
  moreover have "pool_object ?p k = ((pool_object p)(h := None)) k" for k
    using pool_object_update[OF o(1), of ?p s' k] s'(3) o(1) by (cases k; cases h) (auto simp: pool_object_def)
  moreover have "Suc (sum_list (map slab_len (slabs ?p))) = opaque_len ?p"
    using sum_list_update_nat[of ?i "map slab_len (slabs p)" "slab_len s'"] o(1) s'(4) wf
    by (simp add: map_update opaque_len_def pool_wf_def)
  moreover have "\<forall>s \<in> set (slabs ?p). slab_wf s"
    using wf s'(2) set_update_subset_insert[of "slabs p" ?i s'] by (auto simp: pool_wf_def)
  ultimately show ?thesis by (intro exI[of _ ?p]) (auto simp: opaque_len_def)
qed

lemma pool_next_overcount:
  assumes "\<forall>s \<in> set (slabs p). slab_is_empty s" and "length (slabs p) < usize_range"
    and "0 < pool_iter_len p it" and "front_iter it = None" and "front_slab it \<le> length (slabs p)"
  shows "pool_next p it = None"
  using assms(3-)
proof (induction "length (slabs p) - front_slab it" arbitrary: it)
  case 0
  then show ?case by (simp add: pool_next.simps[of p it] iter_or_open_def)
next
  case (Suc d)
  let ?f = "front_slab it"
  have f: "?f < length (slabs p)" using Suc.hyps(2) by simp
  then have "slab_is_empty (slabs p ! ?f)" using assms(1) by simp
  then have "slab_next (slabs p ! ?f) (slab_iter (slabs p ! ?f)) = Some (slab_iter (slabs p ! ?f), None)"
    by (simp add: slab_next.simps slab_is_empty_def)
  then have "pool_next p it = pool_next p (it\<lparr>front_slab := Suc ?f, front_iter := None\<rparr>)"
    using Suc.prems f assms(2) by (simp add: pool_next.simps[of p it] iter_or_open_def usize_simps)
  also have "\<dots> = None"
    using Suc.hyps(2) Suc.prems f by (intro Suc.hyps(1)) (simp_all add: pool_iter_len_def)
  finally show ?case .
qed

section \<open>Properties\<close>

text \<open>C3: In every pool reached without an unwinding destructor the length counts the live objects of
  all slabs and the vacancy tracker is exact: it names the first slab with a free slot, and none only
  if every slab is full.\<close>

theorem pool_history_exact:
  assumes "pool_history p"
  shows "opaque_len p = sum_list (map slab_len (slabs p))
    \<and> opaque_len p \<le> opaque_capacity p
    \<and> next_vacancy (pool_tracker p) = first_true (map (\<lambda>s. \<not> slab_is_full s) (slabs p))
    \<and> (\<forall>s \<in> set (slabs p). slab_wf s)"
proof -
  have wf: "pool_wf p" using assms by (rule pool_history_wf)
  then show ?thesis
    using opaque_len_le_capacity[OF wf] next_vacancy_pool[OF wf] by (simp add: pool_wf_def opaque_len_def)
qed

definition sample_meta :: layout where
  "sample_meta = \<lparr>size_of = 16, align_of = 8\<rparr>"

definition sample_object :: layout where
  "sample_object = \<lparr>size_of = 8, align_of = 8\<rparr>"

definition sample_pool :: "nat opaque_pool" where
  "sample_pool = the (opaque_new sample_meta sample_object MayDropContents)"

lemma sample_valid: "valid_layout sample_meta" "valid_layout sample_object"
proof -
  have "power_of_two 8" unfolding power_of_two_iff by (rule exI[of _ 3]) simp
  then show "valid_layout sample_meta" "valid_layout sample_object"
    by (simp_all add: valid_layout_def sample_meta_def sample_object_def round_up_def div_ceil_def isize_max_def)
qed

lemma sample_pool_new:
  "opaque_new sample_meta sample_object MayDropContents = Some sample_pool"
proof -
  have "power_of_two 8" unfolding power_of_two_iff by (rule exI[of _ 3]) simp
  then have "\<exists>l. slab_layout_new sample_meta sample_object = Some l"
    by (simp add: sample_meta_def sample_object_def slab_layout_new_def layout_extend_def layout_repeat_def
        from_size_align_def valid_layout_def round_up_def div_ceil_def isize_max_def determine_capacity_def
        pad_to_align_def saturating_mul_def usize_range_def Let_def)
  then show ?thesis by (auto simp: sample_pool_def opaque_new_def)
qed

lemma sample_pool_facts:
  "pool_wf sample_pool" "slabs sample_pool = []" "opaque_len sample_pool = 0" "pool_fits 1 sample_pool"
  "opaque_object_layout sample_pool = sample_object" "pool_object sample_pool = Map.empty"
proof -
  note new = opaque_new_wf[OF sample_valid sample_pool_new]
  then show wf: "pool_wf sample_pool" and "slabs sample_pool = []"
    "opaque_object_layout sample_pool = sample_object" "pool_object sample_pool = Map.empty" by blast+
  with wf show "opaque_len sample_pool = 0" "pool_fits 1 sample_pool"
    by (simp_all add: pool_wf_def opaque_len_def pool_fits_def)
qed

theorem pool_history_exact_witness:
  "pool_history sample_pool \<and> next_vacancy (pool_tracker sample_pool) = None"
proof -
  have h: "pool_history sample_pool" by (rule pool_history.fresh[OF sample_valid sample_pool_new])
  with pool_history_exact[OF h] show ?thesis by (simp add: sample_pool_facts first_true_Nil)
qed

text \<open>Inserting an object into a sound pool succeeds with a handle no live object has; every slab
  before the one it went to is full; a slab is allocated only when all of them were.\<close>

theorem opaque_insert_functional:
  assumes "pool_wf p" and "pool_fits 1 p"
  shows "\<exists>p' h. opaque_insert base p (opaque_object_layout p) x = Some (p', Completed h) \<and> pool_wf p'
    \<and> pool_object p h = None \<and> pool_object p' = (pool_object p)(h \<mapsto> x)
    \<and> opaque_len p' = Suc (opaque_len p)
    \<and> (\<forall>j < slab_index h. j < length (slabs p) \<longrightarrow> slab_is_full (slabs p ! j))
    \<and> length (slabs p') = (if \<forall>s \<in> set (slabs p). slab_is_full s then Suc (length (slabs p)) else length (slabs p))"
  using opaque_insert_spec[OF assms, of base x] by blast

theorem opaque_insert_functional_witness:
  "\<exists>p' h. opaque_insert 4096 sample_pool sample_object 7 = Some (p', Completed h)
     \<and> pool_object p' h = Some 7 \<and> length (slabs p') = 1"
  using opaque_insert_functional[OF sample_pool_facts(1,4), of 4096 7] by (auto simp: sample_pool_facts(2-))

text \<open>C24: An object inserted into a sound pool and taken out again comes back unchanged, and the pool
  holds what it held before.\<close>

theorem opaque_roundtrip:
  assumes "pool_wf p" and "pool_fits 1 p"
  shows "\<exists>p' h p''. opaque_insert base p (opaque_object_layout p) x = Some (p', Completed h)
    \<and> opaque_remove_unpin p' h = Some (p'', Completed x) \<and> pool_wf p''
    \<and> pool_object p'' = pool_object p \<and> opaque_len p'' = opaque_len p"
proof -
  obtain p' h p'' where "opaque_put base p x = Some (p', h)" "opaque_take p' h = Some (p'', x)" "pool_wf p''"
    "pool_object p'' = pool_object p" "opaque_len p'' = opaque_len p"
    using opaque.put_take_roundtrip[OF assms, of base x] by blast
  then show ?thesis
    by (fastforce simp: opaque_put_def opaque_take_def split: option.splits completion.splits)
qed

theorem opaque_roundtrip_witness:
  "\<exists>p' h p''. opaque_insert 4096 sample_pool sample_object 7 = Some (p', Completed h)
     \<and> opaque_remove_unpin p' h = Some (p'', Completed 7) \<and> pool_object p'' = Map.empty"
  using opaque_roundtrip[OF sample_pool_facts(1,4), of 4096 7] by (auto simp: sample_pool_facts(2-))

text \<open>However a caller alternates between the ends of the pool's iterator, the pulls end and give
  the address of every object exactly once, although both ends may walk the same slab.\<close>

theorem pool_iterates_once:
  assumes "pool_wf p" and "opaque_len p \<le> length ends"
  shows "\<exists>xs it ys. pull_script (pool_next p) (pool_next_back p) ends (pool_iter p) = Some (xs, it, ys)
    \<and> xs @ rev ys = concat (map slab_ptrs (slabs p)) \<and> length xs + length ys = opaque_len p"
proof -
  note ok = pool_iter_ok_start[OF assms(1)]
  have rest: "pool_iter_rest p (pool_iter p) = pool_ptrs (slabs p)"
    using length_pool_ptrs_pool[OF assms(1)]
    by (simp add: pool_iter_rest_def front_rest_def) (simp add: pool_iter_def)
  then obtain xs it ys where p: "pull_script (pool_next p) (pool_next_back p) ends (pool_iter p) = Some (xs, it, ys)"
    "xs @ rev ys = pool_ptrs (slabs p)"
    using pool_iteration.pull_script_all[OF ok, of ends] assms length_pool_ptrs_pool[OF assms(1)] by auto
  then have "length xs + length ys = opaque_len p"
    using length_pool_ptrs_pool[OF assms(1)] by (metis length_append length_rev)
  with p show ?thesis by (auto simp: pool_ptrs_def)
qed

theorem pool_iterates_once_witness:
  "\<exists>xs it ys. pull_script (pool_next sample_pool) (pool_next_back sample_pool) [True, False] (pool_iter sample_pool)
     = Some (xs, it, ys) \<and> xs @ rev ys = []"
  using pool_iterates_once[of sample_pool "[True, False]"] by (auto simp: sample_pool_facts)

text \<open>Reserving room makes the capacity cover the additional objects, and shrinking drops exactly
  the empty slabs at the end; neither touches an object, and both keep the pool sound.\<close>

theorem opaque_capacity_management:
  assumes "pool_wf p" and "opaque_len p + n < usize_range"
    and "div_ceil (opaque_len p + n) (slot_capacity (pool_layout p)) * slot_capacity (pool_layout p) < usize_range"
  shows "(\<exists>p'. opaque_reserve bases p n = Some p' \<and> pool_wf p' \<and> pool_object p' = pool_object p
      \<and> opaque_len p' = opaque_len p \<and> opaque_len p + n \<le> opaque_capacity p')
    \<and> (\<exists>p'. opaque_shrink_to_fit p = Some p' \<and> pool_wf p' \<and> pool_object p' = pool_object p
      \<and> opaque_len p' = opaque_len p \<and> slabs p' = take (length (slabs p')) (slabs p)
      \<and> (slabs p' \<noteq> [] \<longrightarrow> \<not> slab_is_empty (last (slabs p'))))"
  using opaque_reserve_spec[OF assms] opaque_shrink_spec[OF assms(1)] by blast

theorem opaque_capacity_management_witness:
  "\<exists>p'. opaque_reserve (\<lambda>k. 4096 * k) sample_pool 1000 = Some p' \<and> 1000 \<le> opaque_capacity p'"
proof -
  have c: "slot_capacity (pool_layout sample_pool) \<le> 16384" "0 < slot_capacity (pool_layout sample_pool)"
    using opaque_new_wf[OF sample_valid sample_pool_new] sample_pool_facts(1) by (simp_all add: pool_wf_def)
  have "div_ceil 1000 (slot_capacity (pool_layout sample_pool)) \<le> 1000"
    using c(2) by (intro div_ceil_least) simp_all
  then have "div_ceil 1000 (slot_capacity (pool_layout sample_pool)) * slot_capacity (pool_layout sample_pool)
      \<le> 1000 * 16384" using c(1) by (rule mult_le_mono)
  then show ?thesis
    using opaque_capacity_management[OF sample_pool_facts(1), of 1000 "\<lambda>k. 4096 * k"]
    by (simp add: sample_pool_facts usize_range_def) blast
qed

lemma slab_empty_object: "slab_wf s \<Longrightarrow> slab_is_empty s \<Longrightarrow> slab_object s h = None"
  by (force simp: slab_is_empty_iff slab_object_def in_set_conv_nth split: slot_meta.splits)

text \<open>C25: Whenever a destructor unwinds out of \<open>remove\<close>, exactly that object is gone but the length still
  counts it, one more than the slabs hold, and the tracker is not told, so the pool is not sound any more.
  When it was the last object, the pool reports a length of one, holds nothing, and its iterator panics.\<close>

theorem unwinding_remove_overcounts:
  assumes "pool_wf p" and "pool_object p h = Some x" and "drop_glue x = Some e"
  shows "\<exists>p'. opaque_remove drop_glue p h = Some (p', Completed (Some e)) \<and> pool_object p' = (pool_object p)(h := None)
    \<and> opaque_len p' = opaque_len p \<and> Suc (sum_list (map slab_len (slabs p'))) = opaque_len p'
    \<and> pool_tracker p' = pool_tracker p \<and> \<not> pool_wf p'
    \<and> (opaque_len p = 1 \<longrightarrow> pool_object p' = (\<lambda>_. None) \<and> pool_next p' (pool_iter p') = None)"
proof -
  obtain p' where p': "opaque_remove drop_glue p h = Some (p', Completed (Some e))"
    "pool_object p' = (pool_object p)(h := None)" "opaque_len p' = opaque_len p"
    "Suc (sum_list (map slab_len (slabs p'))) = opaque_len p'" "\<forall>s \<in> set (slabs p'). slab_wf s"
    "pool_tracker p' = pool_tracker p" and len: "length (slabs p') = length (slabs p)"
    using unwound_removal[of p h x drop_glue e, OF assms(1-3)] by blast
  moreover have "\<not> pool_wf p'" using p'(4) by (simp add: pool_wf_def opaque_len_def)
  moreover have "pool_object p' = (\<lambda>_. None) \<and> pool_next p' (pool_iter p') = None" if one: "opaque_len p = 1"
  proof -
    have "sum_list (map slab_len (slabs p')) = 0" using p'(3,4) one by simp
    then have empty: "\<forall>s \<in> set (slabs p'). slab_is_empty s" by (simp add: slab_len_def slab_is_empty_def)
    have "0 < pool_iter_len p' (pool_iter p')"
      using p'(3) one by (simp add: pool_iter_len_def pool_iter_def usize_simps)
    then have "pool_next p' (pool_iter p') = None"
      using empty pool_wf_count[OF assms(1)] len by (intro pool_next_overcount) (simp_all add: pool_iter_def)
    moreover have "pool_object p' k = None" for k
    proof (rule ccontr)
      assume "pool_object p' k \<noteq> None"
      then obtain y where "pool_object p' k = Some y" by blast
      from pool_object_slab[OF this] show False using empty p'(5) slab_empty_object[of "slabs p' ! slab_index k"] by simp
    qed
    ultimately show ?thesis by blast
  qed
  ultimately show ?thesis by blast
qed

theorem unwinding_remove_overcounts_witness:
  "\<exists>p h p'. opaque_insert 4096 sample_pool sample_object 7 = Some (p, Completed h)
     \<and> opaque_remove (\<lambda>x. Some x) p h = Some (p', Completed (Some 7)) \<and> opaque_len p' = 1
     \<and> pool_next p' (pool_iter p') = None"
proof -
  obtain p h where p: "opaque_insert 4096 sample_pool sample_object 7 = Some (p, Completed h)" "pool_wf p"
    "pool_object p h = Some 7" "opaque_len p = 1"
    using opaque_insert_spec[OF sample_pool_facts(1,4), of 4096 7] by (auto simp: sample_pool_facts)
  then show ?thesis using unwinding_remove_overcounts[OF p(2,3), of "\<lambda>x. Some x" 7] by auto
qed

end
