(* ===== verification/BlindPool.thy ===== *)
theory BlindPool
  imports OpaquePool "HOL-Library.AList"
begin

text \<open>
  Package \<open>infinity_pool\<close>, \<open>blind/pool_raw.rs\<close> and \<open>blind/layout_key.rs\<close>: one opaque pool per
  object layout, found by a key that packs size and alignment into 64 bits.

  The B-tree map of the source is an association list with distinct keys. \<open>meta\<close> is the layout of
  \<open>SlotMeta\<close>, \<open>lt\<close> the layout of the inserted type.
\<close>

section \<open>Model\<close>

type_synonym layout_key = "64 word"

definition layout_key_new :: "layout \<Rightarrow> layout_key option" where
  "layout_key_new l = do {
     require (size_of l \<le> 4294967295);
     require (align_of l \<le> 4294967295);
     Some (push_bit 32 (of_nat (size_of l)) OR of_nat (align_of l))
   }"

record 'o blind_pool =
  pools :: "(layout_key \<times> 'o opaque_pool) list"
  blind_policy :: drop_policy

record blind_handle =
  handle_key :: layout_key
  inner_handle :: pool_handle

definition blind_new :: "drop_policy \<Rightarrow> 'o blind_pool" where
  "blind_new policy = \<lparr>pools = [], blind_policy = policy\<rparr>"

definition blind_len :: "'o blind_pool \<Rightarrow> usize" where
  "blind_len b = sum_list (map (\<lambda>kp. opaque_len (snd kp)) (pools b))"

definition blind_is_empty :: "'o blind_pool \<Rightarrow> bool" where
  "blind_is_empty b = (blind_len b = 0)"

definition capacity_for :: "'o blind_pool \<Rightarrow> layout \<Rightarrow> usize option" where
  "capacity_for b lt = do {
     key \<leftarrow> layout_key_new lt;
     Some (case map_of (pools b) key of None \<Rightarrow> 0 | Some p \<Rightarrow> opaque_capacity p)
   }"

text \<open>The pool of a layout, created on first use; and the store of its new state.\<close>

definition inner_pool_mut :: "layout \<Rightarrow> 'o blind_pool \<Rightarrow> layout \<Rightarrow> layout_key \<Rightarrow> 'o opaque_pool option" where
  "inner_pool_mut meta b lt key =
     (case map_of (pools b) key of
        Some p \<Rightarrow> Some p
      | None \<Rightarrow> opaque_new meta lt (blind_policy b))"

definition store_inner :: "'o blind_pool \<Rightarrow> layout_key \<Rightarrow> 'o opaque_pool \<Rightarrow> 'o blind_pool" where
  "store_inner b key p = b\<lparr>pools := AList.update key p (pools b)\<rparr>"

definition reserve_for ::
    "layout \<Rightarrow> (nat \<Rightarrow> addr) \<Rightarrow> 'o blind_pool \<Rightarrow> layout \<Rightarrow> usize \<Rightarrow> 'o blind_pool option" where
  "reserve_for meta bases b lt additional = do {
     key \<leftarrow> layout_key_new lt;
     p \<leftarrow> inner_pool_mut meta b lt key;
     p' \<leftarrow> opaque_reserve bases p additional;
     Some (store_inner b key p')
   }"

fun shrink_pools :: "(layout_key \<times> 'o opaque_pool) list \<Rightarrow> (layout_key \<times> 'o opaque_pool) list option" where
  "shrink_pools [] = Some []"
| "shrink_pools ((key, p) # ps) = do {
     p' \<leftarrow> opaque_shrink_to_fit p;
     ps' \<leftarrow> shrink_pools ps;
     Some ((key, p') # ps')
   }"

definition blind_shrink_to_fit :: "'o blind_pool \<Rightarrow> 'o blind_pool option" where
  "blind_shrink_to_fit b = do {
     ps \<leftarrow> shrink_pools (pools b);
     Some (b\<lparr>pools := ps\<rparr>)
   }"

definition blind_insert_with ::
    "layout \<Rightarrow> addr \<Rightarrow> 'o blind_pool \<Rightarrow> layout \<Rightarrow> 'o completion \<Rightarrow> ('o blind_pool \<times> blind_handle completion) option" where
  "blind_insert_with meta base b lt f = do {
     key \<leftarrow> layout_key_new lt;
     p \<leftarrow> inner_pool_mut meta b lt key;
     (p', inserted) \<leftarrow> opaque_insert_with_unchecked base p lt f;
     Some (store_inner b key p',
           case inserted of
             Panicked \<Rightarrow> Panicked
           | Completed h \<Rightarrow> Completed \<lparr>handle_key = key, inner_handle = h\<rparr>)
   }"

definition blind_insert ::
    "layout \<Rightarrow> addr \<Rightarrow> 'o blind_pool \<Rightarrow> layout \<Rightarrow> 'o \<Rightarrow> ('o blind_pool \<times> blind_handle completion) option" where
  "blind_insert meta base b lt x = do {
     key \<leftarrow> layout_key_new lt;
     p \<leftarrow> inner_pool_mut meta b lt key;
     (p', inserted) \<leftarrow> opaque_insert_unchecked base p lt x;
     Some (store_inner b key p',
           case inserted of
             Panicked \<Rightarrow> Panicked
           | Completed h \<Rightarrow> Completed \<lparr>handle_key = key, inner_handle = h\<rparr>)
   }"

definition blind_remove ::
    "('o \<Rightarrow> 'p option) \<Rightarrow> 'o blind_pool \<Rightarrow> blind_handle \<Rightarrow> ('o blind_pool \<times> 'p option completion) option" where
  "blind_remove drop_glue b h = do {
     p \<leftarrow> map_of (pools b) (handle_key h);
     (p', outcome) \<leftarrow> opaque_remove drop_glue p (inner_handle h);
     Some (store_inner b (handle_key h) p', outcome)
   }"

definition blind_remove_unpin ::
    "'o blind_pool \<Rightarrow> blind_handle \<Rightarrow> ('o blind_pool \<times> 'o completion) option" where
  "blind_remove_unpin b h = do {
     p \<leftarrow> map_of (pools b) (handle_key h);
     (p', outcome) \<leftarrow> opaque_remove_unpin p (inner_handle h);
     Some (store_inner b (handle_key h) p', outcome)
   }"

section \<open>The layout key\<close>

lemma layout_key_new_Some:
  "(layout_key_new l = Some k) =
   (size_of l < 4294967296 \<and> align_of l < 4294967296 \<and> k = push_bit 32 (of_nat (size_of l)) OR of_nat (align_of l))"
  by (auto simp: layout_key_new_def)

lemma or_shifted_sum:
  fixes s a :: nat
  assumes "a < 2 ^ n"
  shows "push_bit n s OR a = 2 ^ n * s + a"
proof -
  have "take_bit n a = a" using assms by (simp add: take_bit_nat_eq_self)
  then have "\<not> bit a i" if "n \<le> i" for i using that by (metis bit_take_bit_iff leD)
  then have "push_bit n s + a = push_bit n s OR a"
    by (intro disjunctive_add_eq_or bit_eqI) (auto simp: bit_and_iff bit_push_bit_iff)
  then show ?thesis by (simp add: push_bit_eq_mult mult.commute)
qed

lemma unat_layout_key:
  assumes "layout_key_new l = Some k"
  shows "unat k = 2 ^ 32 * size_of l + align_of l \<and> align_of l < 2 ^ 32"
proof -
  have l: "size_of l < 4294967296" "align_of l < 4294967296"
    "k = push_bit 32 (of_nat (size_of l)) OR of_nat (align_of l)"
    using assms by (simp_all add: layout_key_new_Some)
  have "push_bit 32 (of_nat (size_of l)) = (of_nat (2 ^ 32 * size_of l) :: 64 word)"
    by (simp add: push_bit_eq_mult mult.commute)
  moreover have "unat (of_nat (2 ^ 32 * size_of l) :: 64 word) = 2 ^ 32 * size_of l"
    using l(1) by (intro unat_of_nat_64) simp
  ultimately have "unat k = 2 ^ 32 * size_of l OR align_of l"
    using l unat_of_nat_64[of "align_of l"] by (simp add: unsigned_or_eq)
  also have "\<dots> = push_bit 32 (size_of l) OR align_of l" by (simp add: push_bit_eq_mult mult.commute)
  also have "\<dots> = 2 ^ 32 * size_of l + align_of l" using l(2) by (intro or_shifted_sum) simp
  finally show ?thesis using l(2) by simp
qed

lemma layout_key_inj:
  assumes "layout_key_new l = Some k" and "layout_key_new l' = Some k"
  shows "l = l'"
proof -
  have eq: "2 ^ 32 * size_of l + align_of l = 2 ^ 32 * size_of l' + align_of l'"
    and a: "align_of l < 2 ^ 32" "align_of l' < 2 ^ 32"
    using unat_layout_key[OF assms(1)] unat_layout_key[OF assms(2)] by auto
  have "align_of l = align_of l'" using arg_cong[OF eq, of "\<lambda>x. x mod 2 ^ 32"] a by simp
  moreover have "size_of l = size_of l'" using eq calculation by simp
  ultimately show ?thesis by (simp add: layout.equality)
qed

section \<open>Invariant\<close>

definition blind_wf :: "'o blind_pool \<Rightarrow> bool" where
  "blind_wf b =
     (distinct (map fst (pools b))
      \<and> (\<forall>kp \<in> set (pools b). pool_wf (snd kp) \<and> layout_key_new (opaque_object_layout (snd kp)) = Some (fst kp)))"

definition blind_object :: "'o blind_pool \<Rightarrow> blind_handle \<Rightarrow> 'o option" where
  "blind_object b h =
     (case map_of (pools b) (handle_key h) of None \<Rightarrow> None | Some p \<Rightarrow> pool_object p (inner_handle h))"

text \<open>A type the pool can take: a valid layout of non-zero size its pool can be made for, and room there.\<close>

definition blind_room :: "layout \<Rightarrow> layout \<Rightarrow> 'o blind_pool \<Rightarrow> bool" where
  "blind_room meta lt b =
     (valid_layout meta \<and> valid_layout lt
      \<and> (case layout_key_new lt of
            None \<Rightarrow> False
          | Some key \<Rightarrow>
              (case inner_pool_mut meta b lt key of None \<Rightarrow> False | Some p \<Rightarrow> pool_fits 1 p)))"

lemma blind_wf_inner:
  "blind_wf b \<Longrightarrow> map_of (pools b) k = Some p \<Longrightarrow>
   pool_wf p \<and> layout_key_new (opaque_object_layout p) = Some k"
  unfolding blind_wf_def by (metis map_of_SomeD fst_conv snd_conv)

lemma in_update_cases: "kp \<in> set (AList.update k v al) \<Longrightarrow> kp = (k, v) \<or> kp \<in> set al"
  by (induction al) (auto split: if_splits)

lemma store_inner_wf:
  assumes "blind_wf b" and "pool_wf p" and "layout_key_new (opaque_object_layout p) = Some k"
  shows "blind_wf (store_inner b k p)"
proof -
  have "distinct (map fst (AList.update k p (pools b)))"
    using assms(1) by (intro distinct_update) (simp add: blind_wf_def)
  moreover have "pool_wf (snd kp) \<and> layout_key_new (opaque_object_layout (snd kp)) = Some (fst kp)"
    if "kp \<in> set (AList.update k p (pools b))" for kp
    using in_update_cases[OF that] assms unfolding blind_wf_def by (metis fst_conv snd_conv)
  ultimately show ?thesis by (simp add: blind_wf_def store_inner_def)
qed

lemma store_inner_map: "map_of (pools (store_inner b k p)) = (map_of (pools b))(k \<mapsto> p)"
  by (simp add: store_inner_def update_conv')

lemma sum_update:
  assumes "distinct (map fst al)"
  shows "sum_list (map (\<lambda>kp. f (snd kp)) (AList.update k v al)) + (case map_of al k of None \<Rightarrow> 0 | Some w \<Rightarrow> f w)
    = sum_list (map (\<lambda>kp. f (snd kp)) al) + (f v :: nat)"
  using assms
proof (induction al)
  case (Cons kp al)
  show ?case
  proof (cases "fst kp = k")
    case True
    then show ?thesis by (cases kp) simp
  next
    case False
    with Cons show ?thesis by (cases kp) (simp add: add.assoc)
  qed
qed simp

lemma store_inner_len:
  "blind_wf b \<Longrightarrow> blind_len (store_inner b k p) + (case map_of (pools b) k of None \<Rightarrow> 0 | Some q \<Rightarrow> opaque_len q)
     = blind_len b + opaque_len p"
  unfolding blind_len_def store_inner_def
  using sum_update[of "pools b" opaque_len k p] by (simp add: blind_wf_def)

text \<open>The pool an operation gets is sound, has the layout asked for, and shows the objects of its key.\<close>

lemma inner_pool_spec:
  assumes "blind_wf b" and "valid_layout meta" and "valid_layout lt"
    and "layout_key_new lt = Some k" and "inner_pool_mut meta b lt k = Some p"
  shows "pool_wf p \<and> opaque_object_layout p = lt
    \<and> (\<forall>h. pool_object p h = blind_object b \<lparr>handle_key = k, inner_handle = h\<rparr>)
    \<and> opaque_len p = (case map_of (pools b) k of None \<Rightarrow> 0 | Some q \<Rightarrow> opaque_len q)"
proof (cases "map_of (pools b) k")
  case None
  then have new: "opaque_new meta lt (blind_policy b) = Some p" using assms(5) by (simp add: inner_pool_mut_def)
  note facts = opaque_new_wf[OF assms(2,3) new]
  then have "opaque_len p = 0" by (simp add: pool_wf_def opaque_len_def)
  with facts None show ?thesis by (simp add: blind_object_def)
next
  case (Some q)
  then have "q = p" using assms(5) by (simp add: inner_pool_mut_def)
  with Some blind_wf_inner[OF assms(1) Some] layout_key_inj[OF assms(4)] show ?thesis
    by (auto simp: blind_object_def)
qed

lemma blind_object_store:
  "blind_object (store_inner b k p) h =
     (if handle_key h = k then pool_object p (inner_handle h) else blind_object b h)"
  by (simp add: blind_object_def store_inner_map)

section \<open>Operations\<close>

lemma blind_new_wf [simp]: "blind_wf (blind_new policy)" "blind_object (blind_new policy) = Map.empty"
  "blind_len (blind_new policy) = 0"
  by (auto simp: blind_wf_def blind_new_def blind_object_def blind_len_def)

lemma blind_insert_spec:
  assumes wf: "blind_wf b" and room: "blind_room meta lt b"
  shows "\<exists>b' h. blind_insert meta base b lt x = Some (b', Completed h) \<and> blind_wf b'
    \<and> blind_object b h = None \<and> blind_object b' = (blind_object b)(h \<mapsto> x)
    \<and> blind_len b' = Suc (blind_len b) \<and> layout_key_new lt = Some (handle_key h)"
proof -
  obtain k p where kp: "layout_key_new lt = Some k" "inner_pool_mut meta b lt k = Some p" "pool_fits 1 p"
    "valid_layout meta" "valid_layout lt"
    using room by (auto simp: blind_room_def split: option.splits)
  have p: "pool_wf p" "opaque_object_layout p = lt"
    "\<And>h. pool_object p h = blind_object b \<lparr>handle_key = k, inner_handle = h\<rparr>"
    "opaque_len p = (case map_of (pools b) k of None \<Rightarrow> 0 | Some q \<Rightarrow> opaque_len q)"
    using inner_pool_spec[OF wf kp(4,5,1,2)] by auto
  obtain p' h where i: "opaque_insert base p lt x = Some (p', Completed h)" "pool_wf p'"
    "pool_object p h = None" "pool_object p' = (pool_object p)(h \<mapsto> x)" "opaque_len p' = Suc (opaque_len p)"
    "pool_layout p' = pool_layout p"
    using opaque_insert_spec[OF p(1) kp(3), of base x] p(2) by auto
  let ?h = "\<lparr>handle_key = k, inner_handle = h\<rparr>"
  have "opaque_insert_unchecked base p lt x = Some (p', Completed h)"
    using i(1) p(2) by (auto simp: opaque_insert_def bind_eq_Some_iff)
  then have "blind_insert meta base b lt x = Some (store_inner b k p', Completed ?h)"
    using kp(1,2) by (simp add: blind_insert_def)
  moreover have "opaque_object_layout p' = lt" using i(6) p(2) by (simp add: opaque_object_layout_def)
  then have "blind_wf (store_inner b k p')" using wf i(2) kp(1) by (simp add: store_inner_wf)
  moreover have "blind_object (store_inner b k p') g = ((blind_object b)(?h \<mapsto> x)) g" for g
    using p(3)[of "inner_handle g"] i(4) by (cases g) (auto simp: blind_object_store)
  moreover have "blind_len (store_inner b k p') = Suc (blind_len b)"
    using store_inner_len[OF wf, of k p'] p(4) i(5) by simp
  ultimately show ?thesis using i(3) p(3) kp(1) by (intro exI[of _ "store_inner b k p'"] exI[of _ ?h]) auto
qed

lemma blind_object_inner:
  assumes "blind_object b h = Some x"
  obtains p where "map_of (pools b) (handle_key h) = Some p" "pool_object p (inner_handle h) = Some x"
  using assms by (auto simp: blind_object_def split: option.splits)

text \<open>Both removals, given what the removal from the inner pool did.\<close>

lemma blind_removed:
  assumes wf: "blind_wf b" and p: "map_of (pools b) (handle_key h) = Some p"
    and r: "pool_wf p'" "pool_object p' = (pool_object p)(inner_handle h := None)" "Suc (opaque_len p') = opaque_len p"
      "pool_layout p' = pool_layout p"
  shows "blind_wf (store_inner b (handle_key h) p')
    \<and> blind_object (store_inner b (handle_key h) p') = (blind_object b)(h := None)
    \<and> Suc (blind_len (store_inner b (handle_key h) p')) = blind_len b"
proof -
  have "layout_key_new (opaque_object_layout p') = Some (handle_key h)"
    using blind_wf_inner[OF wf p] r(4) by (simp add: opaque_object_layout_def)
  then have "blind_wf (store_inner b (handle_key h) p')" using store_inner_wf[OF wf r(1)] by blast
  moreover have "blind_object (store_inner b (handle_key h) p') g = ((blind_object b)(h := None)) g" for g
    using r(2) p by (cases g; cases h) (auto simp: blind_object_def store_inner_map)
  moreover have "Suc (blind_len (store_inner b (handle_key h) p')) = blind_len b"
    using store_inner_len[OF wf, of "handle_key h" p'] p r(3) by simp
  ultimately show ?thesis by blast
qed

lemma blind_remove_unpin_spec:
  assumes wf: "blind_wf b" and h: "blind_object b h = Some x"
  shows "\<exists>b'. blind_remove_unpin b h = Some (b', Completed x) \<and> blind_wf b'
    \<and> blind_object b' = (blind_object b)(h := None) \<and> Suc (blind_len b') = blind_len b"
proof -
  obtain p where p: "map_of (pools b) (handle_key h) = Some p" "pool_object p (inner_handle h) = Some x"
    using h by (rule blind_object_inner)
  obtain p' where p': "opaque_remove_unpin p (inner_handle h) = Some (p', Completed x)" "pool_wf p'"
    "pool_object p' = (pool_object p)(inner_handle h := None)" "Suc (opaque_len p') = opaque_len p"
    "pool_layout p' = pool_layout p"
    using opaque_remove_unpin_spec[OF _ p(2)] blind_wf_inner[OF wf p(1)] by blast
  then show ?thesis
    using blind_removed[OF wf p(1) p'(2-5)] p(1) by (simp add: blind_remove_unpin_def)
qed

lemma blind_remove_spec:
  assumes wf: "blind_wf b" and h: "blind_object b h = Some x" and ok: "drop_glue x = None"
  shows "\<exists>b'. blind_remove drop_glue b h = Some (b', Completed None) \<and> blind_wf b'
    \<and> blind_object b' = (blind_object b)(h := None) \<and> Suc (blind_len b') = blind_len b"
proof -
  obtain p where p: "map_of (pools b) (handle_key h) = Some p" "pool_object p (inner_handle h) = Some x"
    using h by (rule blind_object_inner)
  have "pool_wf p" using blind_wf_inner[OF wf p(1)] by blast
  then obtain p' where p': "opaque_remove drop_glue p (inner_handle h) = Some (p', Completed None)" "pool_wf p'"
    "pool_object p' = (pool_object p)(inner_handle h := None)" "Suc (opaque_len p') = opaque_len p"
    "pool_layout p' = pool_layout p"
    using opaque_remove_spec[of p "inner_handle h" x drop_glue] p(2) ok by blast
  then show ?thesis
    using blind_removed[OF wf p(1) p'(2-5)] p(1) by (simp add: blind_remove_def)
qed

lemma shrink_pools_spec:
  assumes "\<forall>kp \<in> set ps. pool_wf (snd kp)"
  shows "\<exists>ps'. shrink_pools ps = Some ps' \<and> map fst ps' = map fst ps
    \<and> list_all2 (\<lambda>kp kp'. pool_wf (snd kp') \<and> fst kp' = fst kp \<and> pool_object (snd kp') = pool_object (snd kp)
        \<and> opaque_len (snd kp') = opaque_len (snd kp) \<and> pool_layout (snd kp') = pool_layout (snd kp)) ps ps'"
  using assms
proof (induction ps)
  case (Cons kp ps)
  obtain k p where kp: "kp = (k, p)" by (cases kp)
  obtain p' where p': "opaque_shrink_to_fit p = Some p'" "pool_wf p'" "pool_object p' = pool_object p"
    "opaque_len p' = opaque_len p" "pool_layout p' = pool_layout p"
    using opaque_shrink_spec[of p] Cons.prems kp by auto
  obtain ps' where ps': "shrink_pools ps = Some ps'" "map fst ps' = map fst ps"
    "list_all2 (\<lambda>kp kp'. pool_wf (snd kp') \<and> fst kp' = fst kp \<and> pool_object (snd kp') = pool_object (snd kp)
        \<and> opaque_len (snd kp') = opaque_len (snd kp) \<and> pool_layout (snd kp') = pool_layout (snd kp)) ps ps'"
    using Cons by auto
  with p' kp show ?case by (intro exI[of _ "(k, p') # ps'"]) simp
qed simp

lemma map_of_related:
  assumes "list_all2 (\<lambda>kp kp'. fst kp' = fst kp \<and> f (snd kp') = f (snd kp)) ps ps'"
  shows "map_option f (map_of ps' k) = map_option f (map_of ps k)"
  using assms by (induction ps ps' rule: list_all2_induct) auto

lemma blind_shrink_spec:
  assumes wf: "blind_wf b"
  shows "\<exists>b'. blind_shrink_to_fit b = Some b' \<and> blind_wf b' \<and> blind_object b' = blind_object b
    \<and> blind_len b' = blind_len b"
proof -
  obtain ps' where ps': "shrink_pools (pools b) = Some ps'" "map fst ps' = map fst (pools b)"
    and rel: "list_all2 (\<lambda>kp kp'. pool_wf (snd kp') \<and> fst kp' = fst kp \<and> pool_object (snd kp') = pool_object (snd kp)
        \<and> opaque_len (snd kp') = opaque_len (snd kp) \<and> pool_layout (snd kp') = pool_layout (snd kp)) (pools b) ps'"
    using shrink_pools_spec[of "pools b"] wf by (auto simp: blind_wf_def)
  have "\<forall>kp \<in> set ps'. pool_wf (snd kp) \<and> layout_key_new (opaque_object_layout (snd kp)) = Some (fst kp)"
    using rel wf unfolding blind_wf_def
    by (fastforce simp: list_all2_conv_all_nth in_set_conv_nth opaque_object_layout_def)
  then have "blind_wf (b\<lparr>pools := ps'\<rparr>)" using ps'(2) wf by (simp add: blind_wf_def)
  moreover have "list_all2 (\<lambda>kp kp'. fst kp' = fst kp \<and> pool_object (snd kp') = pool_object (snd kp)) (pools b) ps'"
    using rel by (rule list_all2_mono) simp
  then have objs: "map_option pool_object (map_of ps' k) = map_option pool_object (map_of (pools b) k)" for k
    by (rule map_of_related)
  have "blind_object (b\<lparr>pools := ps'\<rparr>) h = blind_object b h" for h
    using objs[of "handle_key h"] by (auto simp: blind_object_def split: option.splits)
  moreover have "map (\<lambda>kp. opaque_len (snd kp)) ps' = map (\<lambda>kp. opaque_len (snd kp)) (pools b)"
    using rel by (auto simp: list_all2_conv_all_nth list_eq_iff_nth_eq)
  ultimately show ?thesis using ps'(1) by (auto simp: blind_shrink_to_fit_def blind_len_def)
qed

definition blind_put ::
    "layout \<Rightarrow> addr \<Rightarrow> layout \<Rightarrow> 'o blind_pool \<Rightarrow> 'o \<Rightarrow> ('o blind_pool \<times> blind_handle) option" where
  "blind_put meta base lt b x =
     (case blind_insert meta base b lt x of Some (b', Completed h) \<Rightarrow> Some (b', h) | _ \<Rightarrow> None)"

definition blind_take :: "'o blind_pool \<Rightarrow> blind_handle \<Rightarrow> ('o blind_pool \<times> 'o) option" where
  "blind_take b h = (case blind_remove_unpin b h of Some (b', Completed x) \<Rightarrow> Some (b', x) | _ \<Rightarrow> None)"

interpretation blind: object_store blind_object "blind_put meta base lt" blind_take blind_len
  "blind_room meta lt" blind_wf
  for meta base lt
proof unfold_locales
  fix b :: "'o blind_pool" and x assume "blind_wf b" "blind_room meta lt b"
  then show "\<exists>b' h. blind_put meta base lt b x = Some (b', h) \<and> blind_wf b' \<and> blind_object b h = None
      \<and> blind_object b' = (blind_object b)(h \<mapsto> x) \<and> blind_len b' = Suc (blind_len b)"
    using blind_insert_spec[of b meta lt base x] by (auto simp: blind_put_def)
next
  fix b :: "'o blind_pool" and h x assume "blind_wf b" "blind_object b h = Some x"
  then show "\<exists>b'. blind_take b h = Some (b', x) \<and> blind_wf b'
      \<and> blind_object b' = (blind_object b)(h := None) \<and> Suc (blind_len b') = blind_len b"
    using blind_remove_unpin_spec[of b h x] by (auto simp: blind_take_def)
qed

section \<open>Properties\<close>

text \<open>The packed key tells layouts apart: it exists exactly when size and alignment fit 32 bits,
  and two layouts with one key are equal.\<close>

theorem layout_key_faithful:
  "(layout_key_new l = None) = (2 ^ 32 \<le> size_of l \<or> 2 ^ 32 \<le> align_of l)
   \<and> (\<forall>k. layout_key_new l = Some k \<and> layout_key_new l' = Some k \<longrightarrow> l = l')"
proof -
  have "(layout_key_new l = None) = (2 ^ 32 \<le> size_of l \<or> 2 ^ 32 \<le> align_of l)"
    by (auto simp: layout_key_new_def)
  then show ?thesis using layout_key_inj by blast
qed

theorem layout_key_faithful_witness:
  "layout_key_new \<lparr>size_of = 1, align_of = 2\<rparr> \<noteq> layout_key_new \<lparr>size_of = 2, align_of = 1\<rparr>"
  using layout_key_faithful[of "\<lparr>size_of = 1, align_of = 2\<rparr>" "\<lparr>size_of = 2, align_of = 1\<rparr>"]
  by (cases "layout_key_new \<lparr>size_of = 1, align_of = 2\<rparr>") auto

text \<open>An object of any layout put into the blind pool lands in the pool of exactly its layout under
  a fresh handle, every other object stays, and taking it out returns it and restores the contents.\<close>

theorem blind_roundtrip:
  assumes "blind_wf b" and "blind_room meta lt b"
  shows "\<exists>b' h b''. blind_insert meta base b lt x = Some (b', Completed h)
    \<and> layout_key_new lt = Some (handle_key h)
    \<and> blind_object b h = None \<and> blind_object b' = (blind_object b)(h \<mapsto> x)
    \<and> blind_remove_unpin b' h = Some (b'', Completed x) \<and> blind_wf b''
    \<and> blind_object b'' = blind_object b \<and> blind_len b'' = blind_len b"
proof -
  obtain b' h where i: "blind_insert meta base b lt x = Some (b', Completed h)" "blind_wf b'"
    "blind_object b h = None" "blind_object b' = (blind_object b)(h \<mapsto> x)" "layout_key_new lt = Some (handle_key h)"
    using blind_insert_spec[OF assms, of base x] by blast
  moreover have "blind_put meta base lt b x = Some (b', h)" using i(1) by (simp add: blind_put_def)
  then obtain b'' where "blind_take b' h = Some (b'', x)" "blind_wf b''"
    "blind_object b'' = blind_object b" "blind_len b'' = blind_len b"
    using blind.put_take_roundtrip[OF assms, of base x] by auto
  ultimately show ?thesis
    by (auto simp: blind_take_def split: option.splits completion.splits)
qed

lemma blind_room_empty: "blind_room sample_meta sample_object (blind_new MayDropContents :: nat blind_pool)"
proof -
  have "layout_key_new sample_object \<noteq> None" by (simp add: layout_key_new_def sample_object_def)
  then show ?thesis
    using sample_valid sample_pool_new sample_pool_facts(4)
    by (auto simp: blind_room_def inner_pool_mut_def blind_new_def)
qed

theorem blind_roundtrip_witness:
  "\<exists>b' h b''. blind_insert sample_meta 4096 (blind_new MayDropContents) sample_object (7 :: nat) = Some (b', Completed h)
     \<and> blind_remove_unpin b' h = Some (b'', Completed 7) \<and> blind_len b'' = 0"
  using blind_roundtrip[OF _ blind_room_empty, of 4096 7] by auto

text \<open>Removing an object whose destructor returns, and shrinking every inner pool, keep the blind pool
  sound and every other object in place.\<close>

theorem blind_remove_and_shrink:
  assumes "blind_wf b" and "blind_object b h = Some x" and "drop_glue x = None"
  shows "\<exists>b' b''. blind_remove drop_glue b h = Some (b', Completed None) \<and> blind_shrink_to_fit b' = Some b''
    \<and> blind_wf b'' \<and> blind_object b'' = (blind_object b)(h := None) \<and> Suc (blind_len b'') = blind_len b"
proof -
  obtain b' where b': "blind_remove drop_glue b h = Some (b', Completed None)" "blind_wf b'"
    "blind_object b' = (blind_object b)(h := None)" "Suc (blind_len b') = blind_len b"
    using blind_remove_spec[of b h x drop_glue] assms by blast
  then show ?thesis using blind_shrink_spec[OF b'(2)] by auto
qed

theorem blind_remove_and_shrink_witness:
  "\<exists>b h b' b''. blind_insert sample_meta 4096 (blind_new MayDropContents) sample_object (7 :: nat) = Some (b, Completed h)
     \<and> blind_remove (\<lambda>x. None :: nat option) b h = Some (b', Completed None) \<and> blind_shrink_to_fit b' = Some b''
     \<and> blind_len b'' = 0"
proof -
  obtain b h where b: "blind_insert sample_meta 4096 (blind_new MayDropContents) sample_object (7 :: nat) = Some (b, Completed h)"
    "blind_wf b" "blind_object b h = Some 7" "blind_len b = 1"
    using blind_insert_spec[OF _ blind_room_empty, of 4096 7] by auto
  then show ?thesis using blind_remove_and_shrink[OF b(2,3), of "\<lambda>x. None :: nat option"] by auto
qed

end
