(* ===== verification/AwaiterSet.thy ===== *)
theory AwaiterSet
  imports Prelude "HOL-Library.Multiset"
begin

text \<open>
  Package \<open>awaiter_set\<close>, \<open>awaiter.rs\<close> and \<open>set.rs\<close>: the intrusive doubly linked set of
  awaiters behind the events.

  \<^item> Awaiters live at addresses of an explicit heap, since the set reaches them through raw
    pointers. Address 0 is the null pointer; an address the heap does not map is no valid awaiter
    and a run that reads one has no value.
  \<^item> Debug assertions are checks of the model. The one choice that differs between builds, the end
    \<open>notify_one\<close> takes from, is the parameter \<open>debug\<close>.
  \<^item> The operations are those under the protecting lock; the lifecycle field is the only part
    touched outside it.
  \<^item> Wakers are values. Dropping one, as \<open>register\<close> does with the waker it replaces and
    \<open>unregister\<close> with the waker it takes out, is user code that runs under the lock; here it has
    no effect on the set and does not unwind.
\<close>

section \<open>Model\<close>

type_synonym ptr = nat

datatype lifecycle = IDLE | WAITING | NOTIFIED

record 'w awaiter =
  waker :: "'w option"
  next_ptr :: ptr
  prev_ptr :: ptr
  stamp :: nat
  owning_set_id :: nat
  phase :: lifecycle

type_synonym 'w awaiter_heap = "ptr \<rightharpoonup> 'w awaiter"

record awaiter_set =
  head :: ptr
  tail :: ptr
  generation :: nat
  set_id :: nat

definition awaiter_new :: "'w awaiter" where
  "awaiter_new = \<lparr>waker = None, next_ptr = 0, prev_ptr = 0, stamp = 0, owning_set_id = 0, phase = IDLE\<rparr>"

definition is_registered :: "'w awaiter \<Rightarrow> bool" where
  "is_registered a = (phase a \<noteq> IDLE)"

definition is_notified :: "'w awaiter \<Rightarrow> bool" where
  "is_notified a = (phase a = NOTIFIED)"

definition take_notification :: "'w awaiter_heap \<Rightarrow> ptr \<Rightarrow> ('w awaiter_heap \<times> bool) option" where
  "take_notification h p = do {
     a \<leftarrow> h p;
     Some (if phase a = NOTIFIED then (h(p \<mapsto> a\<lparr>phase := IDLE\<rparr>), True) else (h, False))
   }"

definition awaiter_set_new :: "nat \<Rightarrow> awaiter_set" where
  "awaiter_set_new fresh_id = \<lparr>head = 0, tail = 0, generation = 1, set_id = fresh_id\<rparr>"

definition set_is_empty :: "awaiter_set \<Rightarrow> bool" where
  "set_is_empty s = (head s = 0)"

definition debug_assert_owns :: "awaiter_set \<Rightarrow> 'w awaiter \<Rightarrow> unit option" where
  "debug_assert_owns s a = require (owning_set_id a = set_id s)"

definition set_register ::
    "'w awaiter_heap \<Rightarrow> awaiter_set \<Rightarrow> ptr \<Rightarrow> 'w \<Rightarrow> ('w awaiter_heap \<times> awaiter_set) option" where
  "set_register h s p w = do {
     a \<leftarrow> h p;
     require (phase a \<noteq> NOTIFIED);
     if phase a = WAITING then do {
       debug_assert_owns s a;
       Some (h(p \<mapsto> a\<lparr>waker := Some w\<rparr>), s)
     } else do {
       let a = a\<lparr>waker := Some w, next_ptr := 0, prev_ptr := tail s, stamp := generation s,
                 owning_set_id := set_id s\<rparr>;
       let h = h(p \<mapsto> a);
       (h, s) \<leftarrow> (if tail s = 0 then Some (h, s\<lparr>head := p\<rparr>)
                  else do {
                    t \<leftarrow> h (tail s);
                    Some (h(tail s \<mapsto> t\<lparr>next_ptr := p\<rparr>), s)
                  });
       let s = s\<lparr>tail := p\<rparr>;
       a \<leftarrow> h p;
       Some (h(p \<mapsto> a\<lparr>phase := WAITING\<rparr>), s)
     }
   }"

text \<open>Splices out the awaiter whose links were \<open>prev\<close> and \<open>nxt\<close>.\<close>

definition set_unlink ::
    "'w awaiter_heap \<Rightarrow> awaiter_set \<Rightarrow> ptr \<Rightarrow> ptr \<Rightarrow> ('w awaiter_heap \<times> awaiter_set) option" where
  "set_unlink h s prev nxt = do {
     (h, s) \<leftarrow> (if prev = 0 then Some (h, s\<lparr>head := nxt\<rparr>)
                else do { a \<leftarrow> h prev; Some (h(prev \<mapsto> a\<lparr>next_ptr := nxt\<rparr>), s) });
     if nxt = 0 then Some (h, s\<lparr>tail := prev\<rparr>)
     else do { a \<leftarrow> h nxt; Some (h(nxt \<mapsto> a\<lparr>prev_ptr := prev\<rparr>), s) }
   }"

definition set_unregister ::
    "'w awaiter_heap \<Rightarrow> awaiter_set \<Rightarrow> ptr \<Rightarrow> ('w awaiter_heap \<times> awaiter_set) option" where
  "set_unregister h s p = do {
     a \<leftarrow> h p;
     require (phase a \<noteq> IDLE);
     if phase a \<noteq> WAITING then Some (h, s)
     else do {
       debug_assert_owns s a;
       (h, s) \<leftarrow> set_unlink h s (prev_ptr a) (next_ptr a);
       a \<leftarrow> h p;
       Some (h(p \<mapsto> a\<lparr>waker := None, owning_set_id := 0, phase := IDLE\<rparr>), s)
     }
   }"

definition pick_one :: "bool \<Rightarrow> awaiter_set \<Rightarrow> ptr" where
  "pick_one debug s =
     (if debug then if head s = tail s then head s else if tail s < head s then head s else tail s
      else head s)"

definition set_remove ::
    "'w awaiter_heap \<Rightarrow> awaiter_set \<Rightarrow> ptr \<Rightarrow> ('w awaiter_heap \<times> awaiter_set \<times> 'w) option" where
  "set_remove h s p = do {
     a \<leftarrow> h p;
     debug_assert_owns s a;
     (h, s) \<leftarrow> set_unlink h s (prev_ptr a) (next_ptr a);
     a \<leftarrow> h p;
     let w = waker a;
     let h = h(p \<mapsto> a\<lparr>waker := None, owning_set_id := 0, phase := NOTIFIED\<rparr>);
     w \<leftarrow> w;
     Some (h, s, w)
   }"

definition set_notify_one ::
    "bool \<Rightarrow> 'w awaiter_heap \<Rightarrow> awaiter_set \<Rightarrow> ('w awaiter_heap \<times> awaiter_set \<times> 'w option) option" where
  "set_notify_one debug h s =
     (if head s = 0 then Some (h, s, None)
      else do {
        (h, s, w) \<leftarrow> set_remove h s (pick_one debug s);
        Some (h, s, Some w)
      })"

definition advance_generation :: "awaiter_set \<Rightarrow> awaiter_set" where
  "advance_generation s = s\<lparr>generation := wrapping_add (generation s) 1\<rparr>"

definition set_notify_prior ::
    "'w awaiter_heap \<Rightarrow> awaiter_set \<Rightarrow> ('w awaiter_heap \<times> awaiter_set \<times> 'w option) option" where
  "set_notify_prior h s =
     (if head s = 0 then Some (h, s, None)
      else do {
        a \<leftarrow> h (head s);
        if generation s \<le> stamp a then Some (h, s, None)
        else do {
          (h, s, w) \<leftarrow> set_remove h s (head s);
          Some (h, s, Some w)
        }
      })"

section \<open>Abstract queue and representation\<close>

record 'w waiter =
  who :: ptr
  wake :: 'w
  since :: nat

text \<open>The links of the nodes \<open>xs\<close> between the pointers \<open>p\<close> and \<open>n\<close>.\<close>

fun segment :: "'w awaiter_heap \<Rightarrow> ptr \<Rightarrow> ptr list \<Rightarrow> ptr \<Rightarrow> bool" where
  "segment h p [] n = True"
| "segment h p (x # xs) n =
     (case h x of
        None \<Rightarrow> False
      | Some a \<Rightarrow> x \<noteq> 0 \<and> prev_ptr a = p \<and> next_ptr a = (if xs = [] then n else List.hd xs) \<and> segment h x xs n)"

text \<open>An awaiter of the set holds the waiter's data.\<close>

definition holds :: "'w awaiter_heap \<Rightarrow> nat \<Rightarrow> 'w waiter \<Rightarrow> bool" where
  "holds h sid q =
     (case h (who q) of
        None \<Rightarrow> False
      | Some a \<Rightarrow> phase a = WAITING \<and> owning_set_id a = sid \<and> waker a = Some (wake q) \<and> stamp a = since q)"

definition queue_repr :: "'w awaiter_heap \<Rightarrow> awaiter_set \<Rightarrow> 'w waiter list \<Rightarrow> bool" where
  "queue_repr h s qs =
     (segment h 0 (map who qs) 0 \<and> distinct (map who qs)
      \<and> head s = (if qs = [] then 0 else who (List.hd qs))
      \<and> tail s = (if qs = [] then 0 else who (last qs))
      \<and> (\<forall>q \<in> set qs. holds h (set_id s) q)
      \<and> (\<forall>p a. h p = Some a \<longrightarrow> phase a = WAITING \<longrightarrow> owning_set_id a = set_id s \<longrightarrow> p \<in> who ` set qs)
      \<and> (\<forall>p a. h p = Some a \<longrightarrow> p \<noteq> 0)
      \<and> sorted (map since qs) \<and> (\<forall>q \<in> set qs. since q \<le> generation s) \<and> 0 < set_id s)"

section \<open>Segments\<close>

lemma segment_append:
  "segment h p (xs @ ys) n =
   (segment h p xs (if ys = [] then n else List.hd ys) \<and> segment h (if xs = [] then p else last xs) ys n)"
  by (induction xs arbitrary: p) (auto split: option.splits)

lemma segment_frame:
  "\<forall>x \<in> set xs. map_option prev_ptr (h' x) = map_option prev_ptr (h x)
     \<and> map_option next_ptr (h' x) = map_option next_ptr (h x) \<Longrightarrow>
   segment h' p xs n = segment h p xs n"
proof (induction xs arbitrary: p)
  case (Cons x xs)
  then have "map_option prev_ptr (h' x) = map_option prev_ptr (h x)"
    "map_option next_ptr (h' x) = map_option next_ptr (h x)" by simp_all
  moreover have "segment h' x xs n = segment h x xs n" using Cons by simp
  ultimately show ?case by (cases "h x"; cases "h' x") auto
qed simp

lemma segment_outside: "y \<notin> set xs \<Longrightarrow> segment (h(y \<mapsto> a)) p xs n = segment h p xs n"
  by (rule segment_frame) auto

lemma segment_nonnull: "segment h p xs n \<Longrightarrow> 0 \<notin> set xs"
  by (induction xs arbitrary: p) (auto split: option.splits)

lemma segment_mapped: "segment h p xs n \<Longrightarrow> x \<in> set xs \<Longrightarrow> \<exists>a. h x = Some a"
  by (induction xs arbitrary: p) (auto split: option.splits)

lemma segment_set_next:
  assumes "segment h p (xs @ [x]) n" and "h x = Some a" and "x \<notin> set xs"
  shows "segment (h(x \<mapsto> a\<lparr>next_ptr := n'\<rparr>)) p (xs @ [x]) n'"
  using assms by (auto simp: segment_append segment_outside)

lemma segment_set_prev:
  assumes "segment h p (x # xs) n" and "h x = Some a" and "x \<notin> set xs"
  shows "segment (h(x \<mapsto> a\<lparr>prev_ptr := p'\<rparr>)) p' (x # xs) n"
  using assms by (auto simp: segment_outside)

section \<open>Splicing out a node\<close>

text \<open>All fields of an awaiter but the links.\<close>

definition payload :: "'w awaiter \<Rightarrow> 'w option \<times> nat \<times> nat \<times> lifecycle" where
  "payload a = (waker a, stamp a, owning_set_id a, phase a)"

definition same_payload :: "'w awaiter_heap \<Rightarrow> 'w awaiter_heap \<Rightarrow> bool" where
  "same_payload h h' = (\<forall>p. map_option payload (h' p) = map_option payload (h p))"

lemma same_payload_refl [simp]: "same_payload h h"
  by (simp add: same_payload_def)

lemma same_payload_links:
  "h p = Some a \<Longrightarrow> same_payload h (h(p \<mapsto> a\<lparr>next_ptr := n\<rparr>)) \<and> same_payload h (h(p \<mapsto> a\<lparr>prev_ptr := n\<rparr>))"
  by (simp add: same_payload_def payload_def)

lemma same_payload_trans: "same_payload h h' \<Longrightarrow> same_payload h' h'' \<Longrightarrow> same_payload h h''"
  by (simp add: same_payload_def)

lemma same_payload_get:
  assumes "same_payload h h'" and "h p = Some a"
  obtains a' where "h' p = Some a'" "payload a' = payload a"
  using assms unfolding same_payload_def by (metis map_option_eq_Some)

lemma unlink_spec:
  assumes seg: "segment h 0 (xs @ x # ys) 0" and d: "distinct (xs @ x # ys)" and a: "h x = Some a"
    and hd: "head s = List.hd (xs @ x # ys)" and tl: "tail s = last (xs @ x # ys)"
  shows "\<exists>h' s'. set_unlink h s (prev_ptr a) (next_ptr a) = Some (h', s')
    \<and> segment h' 0 (xs @ ys) 0 \<and> same_payload h h' \<and> h' x = Some a
    \<and> head s' = (if xs @ ys = [] then 0 else List.hd (xs @ ys))
    \<and> tail s' = (if xs @ ys = [] then 0 else last (xs @ ys))
    \<and> generation s' = generation s \<and> set_id s' = set_id s"
proof -
  have nn: "0 \<notin> set (xs @ x # ys)" using segment_nonnull[OF seg] .
  have l: "prev_ptr a = (if xs = [] then 0 else last xs)" "next_ptr a = (if ys = [] then 0 else List.hd ys)"
    and sx: "segment h 0 xs x" and sy: "segment h x ys 0"
    using seg a by (auto simp: segment_append)
  show ?thesis
  proof (cases xs rule: rev_cases)
    case Nil
    show ?thesis
    proof (cases ys)
      case Nil
      with \<open>xs = []\<close> l a show ?thesis by (simp add: set_unlink_def)
    next
      case (Cons y zs)
      then obtain b where b: "h y = Some b" using segment_mapped[OF sy] by auto
      have "segment (h(y \<mapsto> b\<lparr>prev_ptr := 0\<rparr>)) 0 (y # zs) 0"
        using sy Cons b d by (intro segment_set_prev) auto
      with \<open>xs = []\<close> Cons l a b d nn tl same_payload_links[of h _ b, OF b] show ?thesis
        by (auto simp: set_unlink_def)
    qed
  next
    case (snoc us u)
    then obtain b where b: "h u = Some b" using segment_mapped[OF sx] by auto
    have su: "u \<noteq> 0" "u \<noteq> x" "u \<notin> set us" "u \<notin> set ys" using snoc nn d by auto
    show ?thesis
    proof (cases ys)
      case Nil
      have "segment (h(u \<mapsto> b\<lparr>next_ptr := 0\<rparr>)) 0 (us @ [u]) 0"
        using sx snoc b su by (intro segment_set_next[of h 0 us u x]) auto
      with snoc Nil l a b su hd same_payload_links[of h _ b, OF b] show ?thesis
        by (auto simp: set_unlink_def hd_append)
    next
      case (Cons y zs)
      then obtain c where c: "h y = Some c" using segment_mapped[OF sy] by auto
      have y: "y \<noteq> 0" "y \<noteq> x" "y \<noteq> u" "y \<notin> set zs" "y \<notin> set us" using Cons snoc nn d by auto
      let ?h1 = "h(u \<mapsto> b\<lparr>next_ptr := y\<rparr>)"
      let ?h2 = "?h1(y \<mapsto> c\<lparr>prev_ptr := u\<rparr>)"
      have "segment ?h1 0 (us @ [u]) y"
        using sx snoc b su by (intro segment_set_next[of h 0 us u x]) auto
      then have s1: "segment ?h2 0 (us @ [u]) y" using y by (subst segment_outside) auto
      have "segment ?h1 x (y # zs) 0" using sy Cons su by (subst segment_outside) auto
      then have s2: "segment ?h2 u (y # zs) 0" using c y by (intro segment_set_prev) auto
      have "segment ?h2 0 (xs @ ys) 0"
        using s1 s2 snoc Cons unfolding segment_append[of ?h2 0 xs ys] by simp
      moreover have "same_payload h ?h2"
        using same_payload_links[of h u b, OF b, of y] same_payload_links[of ?h1 y c, of u] c y
        by (auto intro: same_payload_trans)
      moreover have "set_unlink h s (prev_ptr a) (next_ptr a) = Some (?h2, s)"
        using l snoc Cons su y b c by (simp add: set_unlink_def)
      ultimately show ?thesis
        using hd tl a su y snoc Cons by (intro exI[of _ ?h2] exI[of _ s]) (simp add: hd_append)
    qed
  qed
qed

section \<open>Operations on the queue\<close>

lemma queue_repr_new:
  "0 < n \<Longrightarrow> \<forall>p a. h p = Some a \<longrightarrow> phase a \<noteq> WAITING \<and> p \<noteq> 0 \<Longrightarrow> queue_repr h (awaiter_set_new n) []"
  by (auto simp: queue_repr_def awaiter_set_new_def)

lemma queue_repr_empty: "queue_repr h s qs \<Longrightarrow> set_is_empty s = (qs = [])"
  by (cases qs) (auto simp: queue_repr_def set_is_empty_def split: option.splits)

lemma holds_payload:
  assumes "same_payload h h'" shows "holds h' n q = holds h n q"
  using assms[unfolded same_payload_def, rule_format, of "who q"]
  by (cases "h (who q)"; cases "h' (who q)") (auto simp: holds_def payload_def)

lemma holds_other: "p \<noteq> who q \<Longrightarrow> holds (h(p \<mapsto> a)) n q = holds h n q"
  by (simp add: holds_def)

lemma holds_outside: "p \<notin> who ` set qs \<Longrightarrow> q \<in> set qs \<Longrightarrow> holds (h(p \<mapsto> a)) n q = holds h n q"
  by (rule holds_other) auto

text \<open>A waiting awaiter of the set is one of the queue.\<close>

lemma queue_repr_complete:
  "queue_repr h s qs \<Longrightarrow> h p = Some a \<Longrightarrow> phase a = WAITING \<Longrightarrow> owning_set_id a = set_id s \<Longrightarrow> p \<in> who ` set qs"
  by (simp add: queue_repr_def)

text \<open>Taking a waiter out: unlink, then a new payload that is not waiting.\<close>

lemma take_out_repr:
  assumes r: "queue_repr h s (xs @ q # ys)"
  shows "\<exists>a h' s'. h (who q) = Some a \<and> phase a = WAITING \<and> owning_set_id a = set_id s \<and> waker a = Some (wake q)
    \<and> set_unlink h s (prev_ptr a) (next_ptr a) = Some (h', s') \<and> h' (who q) = Some a
    \<and> (\<forall>b. phase b \<noteq> WAITING \<longrightarrow> queue_repr (h'(who q \<mapsto> b)) s' (xs @ ys))
    \<and> same_payload h h' \<and> generation s' = generation s \<and> set_id s' = set_id s"
proof -
  let ?xs = "map who xs" and ?ys = "map who ys" and ?x = "who q"
  have q: "holds h (set_id s) q" using r by (simp add: queue_repr_def)
  then obtain a where a: "h ?x = Some a" "phase a = WAITING" "owning_set_id a = set_id s" "waker a = Some (wake q)"
    by (auto simp: holds_def split: option.splits)
  have seg: "segment h 0 (?xs @ ?x # ?ys) 0" "distinct (?xs @ ?x # ?ys)"
    "head s = List.hd (?xs @ ?x # ?ys)" "tail s = last (?xs @ ?x # ?ys)"
    using r by (cases xs; cases ys rule: rev_cases; simp add: queue_repr_def)+
  obtain h' s' where u: "set_unlink h s (prev_ptr a) (next_ptr a) = Some (h', s')"
    "segment h' 0 (?xs @ ?ys) 0" "same_payload h h'" "h' ?x = Some a"
    "head s' = (if ?xs @ ?ys = [] then 0 else List.hd (?xs @ ?ys))"
    "tail s' = (if ?xs @ ?ys = [] then 0 else last (?xs @ ?ys))"
    "generation s' = generation s" "set_id s' = set_id s"
    using unlink_spec[OF seg(1,2) a(1) seg(3,4)] by blast
  have "queue_repr (h'(?x \<mapsto> b)) s' (xs @ ys)" if b: "phase b \<noteq> WAITING" for b
  proof -
    have "segment (h'(?x \<mapsto> b)) 0 (map who (xs @ ys)) 0"
      using u(2) seg(2) by (subst segment_outside) auto
    moreover have "\<forall>r \<in> set (xs @ ys). holds (h'(?x \<mapsto> b)) (set_id s') r"
    proof
      fix r assume m: "r \<in> set (xs @ ys)"
      then have "who r \<in> set (?xs @ ?ys)" by auto
      moreover have "?x \<notin> set (?xs @ ?ys)" using seg(2) by simp
      ultimately have "who r \<noteq> ?x" by metis
      moreover have "holds h (set_id s) r" using r m by (auto simp: queue_repr_def)
      ultimately show "holds (h'(?x \<mapsto> b)) (set_id s') r"
        using u(8) holds_payload[OF u(3)] by (simp add: holds_other)
    qed
    moreover have "p \<in> who ` set (xs @ ys)"
      if p: "(h'(?x \<mapsto> b)) p = Some c" "phase c = WAITING" "owning_set_id c = set_id s'" for p c
    proof -
      have "p \<noteq> ?x" using p b by auto
      then have "h' p = Some c" using p(1) by simp
      then obtain c' where "h p = Some c'" "payload c' = payload c"
        using u(3) unfolding same_payload_def by (metis map_option_eq_Some)
      then have "p \<in> who ` set (xs @ q # ys)"
        using r p(2,3) u(8) by (auto simp: queue_repr_def payload_def)
      with \<open>p \<noteq> ?x\<close> show ?thesis by auto
    qed
    moreover have "p \<noteq> 0" if "(h'(?x \<mapsto> b)) p = Some c" for p c
    proof -
      have "h p \<noteq> None" using that u(3) a(1) unfolding same_payload_def
        by (metis fun_upd_apply map_option_is_None option.distinct(1))
      then show ?thesis using r by (auto simp: queue_repr_def)
    qed
    moreover have "head s' = (if xs @ ys = [] then 0 else who (List.hd (xs @ ys)))"
      using u(5) by (cases xs; cases ys) auto
    moreover have "tail s' = (if xs @ ys = [] then 0 else who (last (xs @ ys)))"
      using u(6) by (cases xs rule: rev_cases; cases ys rule: rev_cases) auto
    ultimately show ?thesis
      using r u(7,8) unfolding queue_repr_def by (auto simp: sorted_append)
  qed
  with a u show ?thesis by blast
qed

lemma queue_repr_waiting: "queue_repr h s qs \<Longrightarrow> q \<in> set qs \<Longrightarrow> \<exists>a. h (who q) = Some a \<and> phase a = WAITING"
  by (auto simp: queue_repr_def holds_def split: option.splits)

text \<open>Changing an awaiter that is not waiting into another one that is not waiting.\<close>

lemma queue_repr_other:
  assumes r: "queue_repr h s qs" and a: "h p = Some a" "phase a \<noteq> WAITING" and b: "phase b \<noteq> WAITING"
  shows "queue_repr (h(p \<mapsto> b)) s qs"
proof -
  have p: "p \<notin> who ` set qs" using queue_repr_waiting[OF r] a by force
  have "segment (h(p \<mapsto> b)) 0 (map who qs) 0"
    using r p by (subst segment_outside) (auto simp: queue_repr_def)
  moreover have "\<forall>q \<in> set qs. holds (h(p \<mapsto> b)) (set_id s) q"
    using r p by (simp add: queue_repr_def holds_outside)
  moreover have "p \<noteq> 0" using r a(1) by (auto simp: queue_repr_def)
  ultimately show ?thesis using r b by (auto simp: queue_repr_def)
qed

lemma register_new_repr:
  assumes r: "queue_repr h s qs" and a: "h p = Some a" "phase a = IDLE"
  shows "\<exists>h' s'. set_register h s p w = Some (h', s')
    \<and> queue_repr h' s' (qs @ [\<lparr>who = p, wake = w, since = generation s\<rparr>])
    \<and> map_option phase \<circ> h' = (map_option phase \<circ> h)(p \<mapsto> WAITING)
    \<and> generation s' = generation s \<and> set_id s' = set_id s"
proof -
  let ?q = "\<lparr>who = p, wake = w, since = generation s\<rparr>"
  let ?a = "a\<lparr>waker := Some w, next_ptr := 0, prev_ptr := tail s, stamp := generation s, owning_set_id := set_id s\<rparr>"
  let ?b = "?a\<lparr>phase := WAITING\<rparr>"
  have p: "p \<notin> who ` set qs" using queue_repr_waiting[OF r] a by force
  have nz: "p \<noteq> 0" "0 < set_id s" using r a(1) by (auto simp: queue_repr_def)
  show ?thesis
  proof (cases qs rule: rev_cases)
    case Nil
    then have ht: "tail s = 0" using r by (simp add: queue_repr_def)
    let ?h = "h(p \<mapsto> ?b)" and ?s = "s\<lparr>head := p, tail := p\<rparr>"
    have "set_register h s p w = Some (?h, ?s)"
      using a ht by (simp add: set_register_def Let_def)
    moreover have "queue_repr ?h ?s [?q]"
      using r Nil nz ht by (auto simp: queue_repr_def holds_def)
    moreover have "map_option phase \<circ> ?h = (map_option phase \<circ> h)(p \<mapsto> WAITING)" by auto
    ultimately show ?thesis using Nil by auto
  next
    case (snoc us u)
    let ?t = "tail s"
    have t: "?t = who u" "?t \<noteq> 0" "?t \<noteq> p"
      using r snoc p segment_nonnull[of h 0 "map who qs" 0] by (auto simp: queue_repr_def)
    obtain c where c: "h ?t = Some c" "phase c = WAITING" using queue_repr_waiting[OF r, of u] snoc t(1) by auto
    let ?h1 = "h(?t \<mapsto> c\<lparr>next_ptr := p\<rparr>)"
    let ?h = "?h1(p \<mapsto> ?b)" and ?s = "s\<lparr>tail := p\<rparr>"
    have run: "set_register h s p w = Some (?h, ?s)"
      using a c t by (simp add: set_register_def Let_def fun_upd_twist[of p])
    have "?t \<notin> set (map who us)" using r snoc t(1) by (auto simp: queue_repr_def)
    moreover have "segment h 0 (map who us @ [?t]) 0" using r snoc t(1) by (simp add: queue_repr_def)
    ultimately have "segment ?h1 0 (map who us @ [?t]) p" using c(1) by (intro segment_set_next)
    then have "segment ?h 0 (map who us @ [?t]) p" using p snoc t by (subst segment_outside) auto
    then have seg: "segment ?h 0 (map who (qs @ [?q])) 0"
      using snoc t nz by (simp add: segment_append)
    have same: "same_payload h ?h1" using same_payload_links[of h ?t c, OF c(1), of p] by simp
    have "holds ?h (set_id s) q" if "q \<in> set qs" for q
      using r that holds_payload[OF same, of "set_id s" q] holds_outside[OF p that]
      by (simp add: queue_repr_def)
    moreover have "holds ?h (set_id s) ?q" by (simp add: holds_def)
    moreover have "x \<in> who ` set (qs @ [?q])"
      if x: "?h x = Some d" "phase d = WAITING" "owning_set_id d = set_id s" for x d
    proof (cases "x = p")
      case False
      then have "?h1 x = Some d" using x(1) by simp
      then obtain d' where "h x = Some d'" "payload d' = payload d"
        using same unfolding same_payload_def by (metis map_option_eq_Some)
      then show ?thesis using r x(2,3) by (auto simp: queue_repr_def payload_def)
    qed simp
    moreover have "x \<noteq> 0" if "?h x = Some d" for x d
      using that r nz t(2) by (auto simp: queue_repr_def split: if_splits)
    moreover have "head s = who (List.hd (qs @ [?q]))" using r snoc by (simp add: queue_repr_def hd_append)
    ultimately have "queue_repr ?h ?s (qs @ [?q])"
      using seg r p nz unfolding queue_repr_def by (auto simp: sorted_append)
    moreover have "map_option phase \<circ> ?h = (map_option phase \<circ> h)(p \<mapsto> WAITING)"
      using c t by (auto simp: fun_eq_iff)
    ultimately show ?thesis using run by auto
  qed
qed

lemma register_again_repr:
  assumes r: "queue_repr h s (xs @ q # ys)"
  shows "\<exists>h'. set_register h s (who q) w = Some (h', s)
    \<and> queue_repr h' s (xs @ q\<lparr>wake := w\<rparr> # ys) \<and> map_option phase \<circ> h' = map_option phase \<circ> h"
proof -
  obtain a where a: "h (who q) = Some a" "phase a = WAITING" "owning_set_id a = set_id s" "stamp a = since q"
    using r by (auto simp: queue_repr_def holds_def split: option.splits)
  let ?h = "h(who q \<mapsto> a\<lparr>waker := Some w\<rparr>)"
  have "set_register h s (who q) w = Some (?h, s)"
    using a by (simp add: set_register_def debug_assert_owns_def)
  moreover have "segment ?h 0 (map who (xs @ q\<lparr>wake := w\<rparr> # ys)) 0"
  proof -
    have "segment ?h 0 (map who (xs @ q # ys)) 0 = segment h 0 (map who (xs @ q # ys)) 0"
      using a(1) by (intro segment_frame) auto
    then show ?thesis using r by (simp add: queue_repr_def)
  qed
  moreover have "holds ?h (set_id s) e" if "e \<in> set xs \<or> e \<in> set ys" for e
  proof -
    have "who e \<noteq> who q" using that r by (auto simp: queue_repr_def image_iff)
    then show ?thesis using that r by (auto simp: queue_repr_def holds_other)
  qed
  moreover have "holds ?h (set_id s) (q\<lparr>wake := w\<rparr>)" using a by (simp add: holds_def)
  moreover have "x \<in> who ` set (xs @ q\<lparr>wake := w\<rparr> # ys)"
    if x: "?h x = Some d" "phase d = WAITING" "owning_set_id d = set_id s" for x d
  proof (cases "x = who q")
    case False
    then have "x \<in> who ` set (xs @ q # ys)" using queue_repr_complete[OF r, of x d] x False by simp
    with False show ?thesis by auto
  qed simp
  ultimately have "queue_repr ?h s (xs @ q\<lparr>wake := w\<rparr> # ys)"
    using r a(1) unfolding queue_repr_def by (cases xs) (auto split: if_splits)
  moreover have "map_option phase \<circ> ?h = map_option phase \<circ> h" using a by (auto simp: fun_eq_iff)
  ultimately show ?thesis using \<open>set_register h s (who q) w = Some (?h, s)\<close> by blast
qed

lemma unregister_repr:
  assumes r: "queue_repr h s (xs @ q # ys)"
  shows "\<exists>h' s'. set_unregister h s (who q) = Some (h', s') \<and> queue_repr h' s' (xs @ ys)
    \<and> map_option phase \<circ> h' = (map_option phase \<circ> h)(who q \<mapsto> IDLE)
    \<and> generation s' = generation s \<and> set_id s' = set_id s"
proof -
  obtain a h' s' where u: "h (who q) = Some a" "phase a = WAITING" "owning_set_id a = set_id s"
    "set_unlink h s (prev_ptr a) (next_ptr a) = Some (h', s')" "h' (who q) = Some a"
    "\<And>b. phase b \<noteq> WAITING \<Longrightarrow> queue_repr (h'(who q \<mapsto> b)) s' (xs @ ys)"
    "same_payload h h'" "generation s' = generation s" "set_id s' = set_id s"
    using take_out_repr[OF r] by blast
  let ?h = "h'(who q \<mapsto> a\<lparr>waker := None, owning_set_id := 0, phase := IDLE\<rparr>)"
  have "set_unregister h s (who q) = Some (?h, s')"
    using u(1-5) by (simp add: set_unregister_def debug_assert_owns_def)
  moreover have "map_option phase (h' p) = map_option phase (h p)" for p
    using u(7)[unfolded same_payload_def, rule_format, of p]
    by (cases "h p"; cases "h' p") (auto simp: payload_def)
  then have "map_option phase \<circ> ?h = (map_option phase \<circ> h)(who q \<mapsto> IDLE)" by (auto simp: fun_eq_iff)
  ultimately show ?thesis using u(6,8,9) by auto
qed

lemma remove_repr:
  assumes r: "queue_repr h s (xs @ q # ys)"
  shows "\<exists>h' s'. set_remove h s (who q) = Some (h', s', wake q) \<and> queue_repr h' s' (xs @ ys)
    \<and> map_option phase \<circ> h' = (map_option phase \<circ> h)(who q \<mapsto> NOTIFIED)
    \<and> generation s' = generation s \<and> set_id s' = set_id s"
proof -
  obtain a h' s' where u: "h (who q) = Some a" "waker a = Some (wake q)" "owning_set_id a = set_id s"
    "set_unlink h s (prev_ptr a) (next_ptr a) = Some (h', s')" "h' (who q) = Some a"
    "\<And>b. phase b \<noteq> WAITING \<Longrightarrow> queue_repr (h'(who q \<mapsto> b)) s' (xs @ ys)"
    "same_payload h h'" "generation s' = generation s" "set_id s' = set_id s"
    using take_out_repr[OF r] by blast
  let ?h = "h'(who q \<mapsto> a\<lparr>waker := None, owning_set_id := 0, phase := NOTIFIED\<rparr>)"
  have "set_remove h s (who q) = Some (?h, s', wake q)"
    using u(1-5) by (simp add: set_remove_def debug_assert_owns_def Let_def)
  moreover have "map_option phase (h' p) = map_option phase (h p)" for p
    using u(7)[unfolded same_payload_def, rule_format, of p]
    by (cases "h p"; cases "h' p") (auto simp: payload_def)
  then have "map_option phase \<circ> ?h = (map_option phase \<circ> h)(who q \<mapsto> NOTIFIED)" by (auto simp: fun_eq_iff)
  ultimately show ?thesis using u(6,8,9) by auto
qed

text \<open>Creating or freeing an awaiter that is in no set.\<close>

lemma segment_cong: "\<forall>x \<in> set xs. h' x = h x \<Longrightarrow> segment h' p xs n = segment h p xs n"
  by (rule segment_frame) simp

lemma queue_repr_alloc:
  assumes "queue_repr h s qs" and "h p = None" and "p \<noteq> 0"
  shows "queue_repr (h(p \<mapsto> awaiter_new)) s qs"
proof -
  have p: "p \<notin> who ` set qs" using queue_repr_waiting[OF assms(1)] assms(2) by force
  then show ?thesis
    using assms by (auto simp: queue_repr_def segment_outside holds_other awaiter_new_def image_iff)
qed

lemma queue_repr_free:
  assumes "queue_repr h s qs" and "h p = Some a" and "phase a \<noteq> WAITING"
  shows "queue_repr (h(p := None)) s qs"
proof -
  have p: "p \<notin> who ` set qs" using queue_repr_waiting[OF assms(1)] assms(2,3) by force
  then have "segment (h(p := None)) 0 (map who qs) 0 = segment h 0 (map who qs) 0"
    by (intro segment_cong) auto
  moreover have "holds (h(p := None)) (set_id s) q = holds h (set_id s) q" if "q \<in> set qs" for q
    using p that by (auto simp: holds_def image_iff)
  ultimately show ?thesis using assms(1) by (auto simp: queue_repr_def)
qed

section \<open>Counting notified awaiters\<close>

lemma card_notify:
  assumes "finite (dom f)" and "f p \<noteq> Some NOTIFIED"
  shows "card {q. (f(p \<mapsto> NOTIFIED)) q = Some NOTIFIED} = Suc (card {q. f q = Some NOTIFIED})"
proof -
  have "finite {q. f q = Some NOTIFIED}" using assms(1) by (rule rev_finite_subset) auto
  moreover have "{q. (f(p \<mapsto> NOTIFIED)) q = Some NOTIFIED} = insert p {q. f q = Some NOTIFIED}" by auto
  ultimately show ?thesis using assms(2) by simp
qed

lemma card_unnotify:
  assumes "finite (dom f)" and "f p = Some NOTIFIED" and "g \<noteq> Some NOTIFIED"
  shows "Suc (card {q. (f(p := g)) q = Some NOTIFIED}) = card {q. f q = Some NOTIFIED}"
proof -
  have "finite {q. f q = Some NOTIFIED}" using assms(1) by (rule rev_finite_subset) auto
  moreover have "{q. f q = Some NOTIFIED} = insert p {q. (f(p := g)) q = Some NOTIFIED}"
    using assms(2,3) by auto
  moreover have "p \<notin> {q. (f(p := g)) q = Some NOTIFIED}" using assms(3) by simp
  ultimately show ?thesis by (metis card_insert_disjoint finite_insert)
qed

lemma card_same:
  "f p \<noteq> Some NOTIFIED \<Longrightarrow> g \<noteq> Some NOTIFIED \<Longrightarrow>
   card {q. (f(p := g)) q = Some NOTIFIED} = card {q. f q = Some NOTIFIED}"
  by (rule arg_cong[of _ _ card]) auto

section \<open>The contract of an awaiter queue\<close>

text \<open>Repeats a notification until it finds nobody; \<open>None\<close> also when the fuel runs out first.\<close>

fun drain_with :: "('s \<Rightarrow> ('s \<times> 'w option) option) \<Rightarrow> nat \<Rightarrow> 's \<Rightarrow> ('w list \<times> 's) option" where
  "drain_with step 0 s = None"
| "drain_with step (Suc n) s = do {
     (s', found) \<leftarrow> step s;
     case found of
       None \<Rightarrow> Some ([], s')
     | Some w \<Rightarrow> do { (ws, s'') \<leftarrow> drain_with step n s'; Some (w # ws, s'') }
   }"

declare drain_with.simps(2) [simp del]

lemma drain_with_done: "step s = Some (s', None) \<Longrightarrow> drain_with step (Suc n) s = Some ([], s')"
  by (simp add: drain_with.simps)

lemma drain_with_more:
  "step s = Some (s', Some w) \<Longrightarrow> drain_with step n s' = Some (ws, s'') \<Longrightarrow>
   drain_with step (Suc n) s = Some (w # ws, s'')"
  by (simp add: drain_with.simps(2))

locale awaiter_queue =
  fixes empty_queue :: "'s \<Rightarrow> bool"
    and enrol :: "'s \<Rightarrow> ptr \<Rightarrow> 'w \<Rightarrow> 's option"
    and withdraw :: "'s \<Rightarrow> ptr \<Rightarrow> 's option"
    and notify :: "'s \<Rightarrow> ('s \<times> 'w option) option"
    and advance :: "'s \<Rightarrow> 's"
    and notify_prior :: "'s \<Rightarrow> ('s \<times> 'w option) option"
    and consume :: "'s \<Rightarrow> ptr \<Rightarrow> ('s \<times> bool) option"
    and queued :: "'s \<Rightarrow> 'w waiter list \<Rightarrow> bool"
    and phase_of :: "'s \<Rightarrow> ptr \<Rightarrow> lifecycle option"
    and epoch :: "'s \<Rightarrow> nat"
  assumes empty_ok: "queued s qs \<Longrightarrow> empty_queue s = (qs = [])"
    and queued_waiting: "queued s qs \<Longrightarrow> q \<in> set qs \<Longrightarrow> phase_of s (who q) = Some WAITING"
    and queued_distinct: "queued s qs \<Longrightarrow> distinct (map who qs)"
    and queued_since: "queued s qs \<Longrightarrow> sorted (map since qs) \<and> (\<forall>q \<in> set qs. since q \<le> epoch s)"
    and enrol_new: "queued s qs \<Longrightarrow> phase_of s p = Some IDLE \<Longrightarrow>
      \<exists>s'. enrol s p w = Some s' \<and> queued s' (qs @ [\<lparr>who = p, wake = w, since = epoch s\<rparr>])
        \<and> phase_of s' = (phase_of s)(p \<mapsto> WAITING) \<and> epoch s' = epoch s"
    and enrol_again: "queued s (xs @ q # ys) \<Longrightarrow>
      \<exists>s'. enrol s (who q) w = Some s' \<and> queued s' (xs @ q\<lparr>wake := w\<rparr> # ys)
        \<and> phase_of s' = phase_of s \<and> epoch s' = epoch s"
    and withdraw_waiting: "queued s (xs @ q # ys) \<Longrightarrow>
      \<exists>s'. withdraw s (who q) = Some s' \<and> queued s' (xs @ ys)
        \<and> phase_of s' = (phase_of s)(who q \<mapsto> IDLE) \<and> epoch s' = epoch s"
    and withdraw_notified: "phase_of s p = Some NOTIFIED \<Longrightarrow> withdraw s p = Some s"
    and notify_empty: "queued s [] \<Longrightarrow> notify s = Some (s, None)"
    and notify_some: "queued s qs \<Longrightarrow> qs \<noteq> [] \<Longrightarrow>
      \<exists>xs q ys s'. qs = xs @ q # ys \<and> (xs = [] \<or> ys = []) \<and> notify s = Some (s', Some (wake q))
        \<and> queued s' (xs @ ys) \<and> phase_of s' = (phase_of s)(who q \<mapsto> NOTIFIED) \<and> epoch s' = epoch s"
    and advance_ok: "queued s qs \<Longrightarrow> Suc (epoch s) < usize_range \<Longrightarrow>
      queued (advance s) qs \<and> phase_of (advance s) = phase_of s \<and> epoch (advance s) = Suc (epoch s)"
    and prior_none: "queued s qs \<Longrightarrow> \<forall>q \<in> set qs. epoch s \<le> since q \<Longrightarrow> notify_prior s = Some (s, None)"
    and prior_some: "queued s (q # qs) \<Longrightarrow> since q < epoch s \<Longrightarrow>
      \<exists>s'. notify_prior s = Some (s', Some (wake q)) \<and> queued s' qs
        \<and> phase_of s' = (phase_of s)(who q \<mapsto> NOTIFIED) \<and> epoch s' = epoch s"
    and consume_notified: "queued s qs \<Longrightarrow> phase_of s p = Some NOTIFIED \<Longrightarrow>
      \<exists>s'. consume s p = Some (s', True) \<and> queued s' qs \<and> phase_of s' = (phase_of s)(p \<mapsto> IDLE) \<and> epoch s' = epoch s"
    and consume_other: "phase_of s p = Some f \<Longrightarrow> f \<noteq> NOTIFIED \<Longrightarrow> consume s p = Some (s, False)"
begin

lemma queued_member_split:
  assumes "queued s qs" and "p \<in> who ` set qs"
  obtains xs q ys where "qs = xs @ q # ys" "who q = p"
  using assms by (metis imageE split_list)

text \<open>
  Notifying until nothing of a prior generation is left wakes exactly those waiters, in their
  order, and leaves the others; notifying until nothing is left wakes every waiter once.
\<close>

lemma drain_prior:
  "queued s (ps @ cs) \<Longrightarrow> \<forall>p \<in> set ps. since p < epoch s \<Longrightarrow> \<forall>c \<in> set cs. epoch s \<le> since c \<Longrightarrow>
   \<exists>s'. drain_with notify_prior (Suc (length ps)) s = Some (map wake ps, s') \<and> queued s' cs \<and> epoch s' = epoch s"
proof (induction ps arbitrary: s)
  case Nil
  then show ?case using drain_with_done[of notify_prior s s, OF prior_none[of s cs]] by auto
next
  case (Cons p ps)
  obtain s1 where s1: "notify_prior s = Some (s1, Some (wake p))" "queued s1 (ps @ cs)" "epoch s1 = epoch s"
    using prior_some[of s p "ps @ cs"] Cons.prems(1,2) by auto
  then obtain s' where "drain_with notify_prior (Suc (length ps)) s1 = Some (map wake ps, s')" "queued s' cs"
    "epoch s' = epoch s1"
    using Cons.IH[OF s1(2)] Cons.prems(2,3) s1(3) by auto
  with drain_with_more[of notify_prior, OF s1(1)] s1(3) show ?case by auto
qed

lemma drain_all:
  "queued s qs \<Longrightarrow> \<exists>ws s'. drain_with notify (Suc (length qs)) s = Some (ws, s') \<and> queued s' []
     \<and> mset ws = mset (map wake qs)"
proof (induction "length qs" arbitrary: s qs)
  case 0
  then show ?case using drain_with_done[of notify s s, OF notify_empty[of s]] by auto
next
  case (Suc n)
  obtain xs q ys s1 where q: "qs = xs @ q # ys" "notify s = Some (s1, Some (wake q))" "queued s1 (xs @ ys)"
    using notify_some[OF Suc.prems] Suc.hyps(2) by (metis list.size(3) nat.distinct(1))
  then have "n = length (xs @ ys)" using Suc.hyps(2) by simp
  then obtain ws s' where "drain_with notify (Suc (length (xs @ ys))) s1 = Some (ws, s')" "queued s' []"
    "mset ws = mset (map wake (xs @ ys))"
    using Suc.hyps(1)[of "xs @ ys" s1] q(3) by blast
  moreover have "mset (wake q # ws) = mset (map wake qs)" if "mset ws = mset (map wake (xs @ ys))" for ws
    using that q(1) by simp
  ultimately show ?case using drain_with_more[of notify, OF q(2)] q(1) by fastforce
qed

end

section \<open>The set meets the contract\<close>

type_synonym 'w world = "'w awaiter_heap \<times> awaiter_set"

definition world_queued :: "'w world \<Rightarrow> 'w waiter list \<Rightarrow> bool" where
  "world_queued s qs = queue_repr (fst s) (snd s) qs"

definition world_phase :: "'w world \<Rightarrow> ptr \<Rightarrow> lifecycle option" where
  "world_phase s = map_option phase \<circ> fst s"

definition world_notify :: "bool \<Rightarrow> 'w world \<Rightarrow> ('w world \<times> 'w option) option" where
  "world_notify debug s = do { (h, t, w) \<leftarrow> set_notify_one debug (fst s) (snd s); Some ((h, t), w) }"

definition world_notify_prior :: "'w world \<Rightarrow> ('w world \<times> 'w option) option" where
  "world_notify_prior s = do { (h, t, w) \<leftarrow> set_notify_prior (fst s) (snd s); Some ((h, t), w) }"

definition world_consume :: "'w world \<Rightarrow> ptr \<Rightarrow> ('w world \<times> bool) option" where
  "world_consume s p = do { (h, b) \<leftarrow> take_notification (fst s) p; Some ((h, snd s), b) }"

lemma world_phase_Some: "(world_phase s p = Some f) = (\<exists>a. fst s p = Some a \<and> phase a = f)"
  by (auto simp: world_phase_def)

lemma pick_one_end:
  assumes "queue_repr h s qs" and "qs \<noteq> []"
  obtains xs q ys where "qs = xs @ q # ys" "xs = [] \<or> ys = []" "pick_one debug s = who q"
proof -
  have "pick_one debug s = who (List.hd qs) \<or> pick_one debug s = who (last qs)"
    using assms by (auto simp: pick_one_def queue_repr_def)
  then show ?thesis
  proof
    assume "pick_one debug s = who (List.hd qs)"
    with assms(2) that[of "[]" "List.hd qs" "tl qs"] show ?thesis by simp
  next
    assume "pick_one debug s = who (last qs)"
    with assms(2) that[of "butlast qs" "last qs" "[]"] show ?thesis by simp
  qed
qed

lemma notify_one_repr:
  assumes r: "queue_repr h s qs" and ne: "qs \<noteq> []"
  shows "\<exists>xs q ys h' s'. qs = xs @ q # ys \<and> (xs = [] \<or> ys = []) \<and> set_notify_one debug h s = Some (h', s', Some (wake q))
    \<and> queue_repr h' s' (xs @ ys) \<and> map_option phase \<circ> h' = (map_option phase \<circ> h)(who q \<mapsto> NOTIFIED)
    \<and> generation s' = generation s"
proof -
  obtain xs q ys where q: "qs = xs @ q # ys" "xs = [] \<or> ys = []" "pick_one debug s = who q"
    using pick_one_end[OF r ne] by blast
  have "head s \<noteq> 0" using queue_repr_empty[OF r] ne by (simp add: set_is_empty_def)
  moreover obtain h' s' where "set_remove h s (who q) = Some (h', s', wake q)" "queue_repr h' s' (xs @ ys)"
    "map_option phase \<circ> h' = (map_option phase \<circ> h)(who q \<mapsto> NOTIFIED)" "generation s' = generation s"
    using remove_repr[of h s xs q ys] r q(1) by blast
  ultimately show ?thesis
    using q by (intro exI[of _ xs] exI[of _ q] exI[of _ ys] exI[of _ h'] exI[of _ s'])
      (simp add: set_notify_one_def)
qed

interpretation awaiters: awaiter_queue
  "\<lambda>s. set_is_empty (snd s)" "\<lambda>s p w. set_register (fst s) (snd s) p w" "\<lambda>s p. set_unregister (fst s) (snd s) p"
  "world_notify debug" "\<lambda>s. (fst s, advance_generation (snd s))" world_notify_prior world_consume
  world_queued world_phase "\<lambda>s. generation (snd s)"
  for debug
proof unfold_locales
  fix s :: "'w world" and qs
  assume r: "world_queued s qs"
  show "set_is_empty (snd s) = (qs = [])" using r by (simp add: world_queued_def queue_repr_empty)
  show "distinct (map who qs)" "sorted (map since qs) \<and> (\<forall>q \<in> set qs. since q \<le> generation (snd s))"
    using r by (simp_all add: world_queued_def queue_repr_def)
  fix q assume "q \<in> set qs"
  then show "world_phase s (who q) = Some WAITING"
    using r queue_repr_waiting by (fastforce simp: world_queued_def world_phase_Some)
next
  fix s :: "'w world" and qs p w
  assume "world_queued s qs" "world_phase s p = Some IDLE"
  then show "\<exists>s'. set_register (fst s) (snd s) p w = Some s'
      \<and> world_queued s' (qs @ [\<lparr>who = p, wake = w, since = generation (snd s)\<rparr>])
      \<and> world_phase s' = (world_phase s)(p \<mapsto> WAITING) \<and> generation (snd s') = generation (snd s)"
    using register_new_repr[of "fst s" "snd s" qs p _ w]
    by (fastforce simp: world_queued_def world_phase_Some world_phase_def[abs_def])
next
  fix s :: "'w world" and xs q ys w
  assume "world_queued s (xs @ q # ys)"
  then show "\<exists>s'. set_register (fst s) (snd s) (who q) w = Some s' \<and> world_queued s' (xs @ q\<lparr>wake := w\<rparr> # ys)
      \<and> world_phase s' = world_phase s \<and> generation (snd s') = generation (snd s)"
    using register_again_repr[of "fst s" "snd s" xs q ys w] by (fastforce simp: world_queued_def world_phase_def)
next
  fix s :: "'w world" and xs q ys
  assume "world_queued s (xs @ q # ys)"
  then show "\<exists>s'. set_unregister (fst s) (snd s) (who q) = Some s' \<and> world_queued s' (xs @ ys)
      \<and> world_phase s' = (world_phase s)(who q \<mapsto> IDLE) \<and> generation (snd s') = generation (snd s)"
    using unregister_repr[of "fst s" "snd s" xs q ys] by (fastforce simp: world_queued_def world_phase_def)
next
  fix s :: "'w world" and p
  assume "world_phase s p = Some NOTIFIED"
  then show "set_unregister (fst s) (snd s) p = Some s" by (auto simp: world_phase_Some set_unregister_def)
next
  fix s :: "'w world"
  assume "world_queued s []"
  then show "world_notify debug s = Some (s, None)"
    by (simp add: world_queued_def world_notify_def set_notify_one_def queue_repr_def)
next
  fix s :: "'w world" and qs
  assume "world_queued s qs" "qs \<noteq> []"
  then show "\<exists>xs q ys s'. qs = xs @ q # ys \<and> (xs = [] \<or> ys = []) \<and> world_notify debug s = Some (s', Some (wake q))
      \<and> world_queued s' (xs @ ys) \<and> world_phase s' = (world_phase s)(who q \<mapsto> NOTIFIED)
      \<and> generation (snd s') = generation (snd s)"
    using notify_one_repr[of "fst s" "snd s" qs debug]
    by (fastforce simp: world_queued_def world_notify_def world_phase_def)
next
  fix s :: "'w world" and qs
  assume "world_queued s qs" "Suc (generation (snd s)) < usize_range"
  then show "world_queued (fst s, advance_generation (snd s)) qs \<and> world_phase (fst s, advance_generation (snd s)) = world_phase s
      \<and> generation (snd (fst s, advance_generation (snd s))) = Suc (generation (snd s))"
    by (auto simp: world_queued_def queue_repr_def advance_generation_def usize_simps world_phase_def)
next
  fix s :: "'w world" and qs
  assume r: "world_queued s qs" and late: "\<forall>q \<in> set qs. generation (snd s) \<le> since q"
  show "world_notify_prior s = Some (s, None)"
  proof (cases qs)
    case Nil
    with r show ?thesis by (simp add: world_queued_def world_notify_prior_def set_notify_prior_def queue_repr_def)
  next
    case (Cons q ys)
    with r have "head (snd s) = who q" "holds (fst s) (set_id (snd s)) q" by (simp_all add: world_queued_def queue_repr_def)
    with Cons late show ?thesis
      by (auto simp: world_notify_prior_def set_notify_prior_def holds_def split: option.splits)
  qed
next
  fix s :: "'w world" and q qs
  assume r: "world_queued s (q # qs)" and early: "since q < generation (snd s)"
  then have h: "head (snd s) = who q" "holds (fst s) (set_id (snd s)) q" "who q \<noteq> 0"
    by (auto simp: world_queued_def queue_repr_def split: option.splits)
  then show "\<exists>s'. world_notify_prior s = Some (s', Some (wake q)) \<and> world_queued s' qs
      \<and> world_phase s' = (world_phase s)(who q \<mapsto> NOTIFIED) \<and> generation (snd s') = generation (snd s)"
    using remove_repr[of "fst s" "snd s" "[]" q qs] r early
    by (fastforce simp: world_queued_def world_notify_prior_def set_notify_prior_def holds_def world_phase_def
        split: option.splits)
next
  fix s :: "'w world" and qs p
  assume r: "world_queued s qs" and n: "world_phase s p = Some NOTIFIED"
  then obtain a where "fst s p = Some a" "phase a = NOTIFIED" by (auto simp: world_phase_Some)
  then show "\<exists>s'. world_consume s p = Some (s', True) \<and> world_queued s' qs \<and> world_phase s' = (world_phase s)(p \<mapsto> IDLE)
      \<and> generation (snd s') = generation (snd s)"
    using r queue_repr_other[of "fst s" "snd s" qs p a "a\<lparr>phase := IDLE\<rparr>"]
    by (auto simp: world_consume_def take_notification_def world_queued_def world_phase_def fun_eq_iff)
next
  fix s :: "'w world" and p f
  assume "world_phase s p = Some f" "f \<noteq> NOTIFIED"
  then show "world_consume s p = Some (s, False)"
    by (auto simp: world_phase_Some world_consume_def take_notification_def)
qed

section \<open>Properties\<close>

text \<open>\<open>q\<close> was taken out: the set holds exactly the waiters \<open>rest\<close>, and the only lifecycle that changed
  is that of \<open>q\<close>, which became \<open>f\<close>.\<close>

definition took_out ::
    "'w awaiter_heap \<Rightarrow> awaiter_set \<Rightarrow> 'w waiter \<Rightarrow> lifecycle \<Rightarrow> 'w waiter list \<Rightarrow> 'w awaiter_heap \<Rightarrow> awaiter_set \<Rightarrow> bool"
where
  "took_out h s q f rest h' s' =
     (queue_repr h' s' rest \<and> map_option phase \<circ> h' = (map_option phase \<circ> h)(who q \<mapsto> f)
      \<and> generation s' = generation s \<and> set_id s' = set_id s)"

lemma remove_takes_out:
  "queue_repr h s (xs @ q # ys) \<Longrightarrow>
   \<exists>h' s'. set_remove h s (who q) = Some (h', s', wake q) \<and> took_out h s q NOTIFIED (xs @ ys) h' s'"
  using remove_repr[of h s xs q ys] by (auto simp: took_out_def)

lemma unregister_takes_out:
  "queue_repr h s (xs @ q # ys) \<Longrightarrow>
   \<exists>h' s'. set_unregister h s (who q) = Some (h', s') \<and> took_out h s q IDLE (xs @ ys) h' s'"
  using unregister_repr[of h s xs q ys] by (auto simp: took_out_def)

lemma queue_repr_ends:
  assumes "queue_repr h s qs" and "qs \<noteq> []"
  shows "head s = who (List.hd qs)" "tail s = who (last qs)" "head s \<noteq> 0"
  using assms queue_repr_empty[OF assms(1)] by (simp_all add: queue_repr_def set_is_empty_def)

lemma notify_takes:
  assumes r: "queue_repr h s (xs @ q # ys)" and e: "pick_one debug s = who q"
  shows "\<exists>h' s'. set_notify_one debug h s = Some (h', s', Some (wake q)) \<and> took_out h s q NOTIFIED (xs @ ys) h' s'"
  using remove_takes_out[OF r] queue_repr_ends(3)[OF r] e by (auto simp: set_notify_one_def)

lemma notify_release_head:
  assumes "queue_repr h s (q # rest)"
  shows "\<exists>h' s'. set_notify_one False h s = Some (h', s', Some (wake q)) \<and> took_out h s q NOTIFIED rest h' s'"
  using notify_takes[of h s "[]" q rest False] queue_repr_ends[OF assms] assms by (simp add: pick_one_def)

text \<open>Debug builds take from the end at the higher address.\<close>

lemma notify_debug_higher:
  assumes r: "queue_repr h s (q # rest)"
  shows "if who (last (q # rest)) \<le> who q
    then \<exists>h' s'. set_notify_one True h s = Some (h', s', Some (wake q)) \<and> took_out h s q NOTIFIED rest h' s'
    else \<exists>h' s'. set_notify_one True h s = Some (h', s', Some (wake (last (q # rest))))
      \<and> took_out h s (last (q # rest)) NOTIFIED (butlast (q # rest)) h' s'"
proof -
  have e: "head s = who q" "tail s = who (last (q # rest))" using queue_repr_ends[OF r] by simp_all
  have "queue_repr h s (butlast (q # rest) @ last (q # rest) # [])"
    using r append_butlast_last_id[of "q # rest"] by simp
  then show ?thesis
    using notify_takes[of h s "[]" q rest True] notify_takes[of h s "butlast (q # rest)" "last (q # rest)" "[]" True] e r
    by (auto simp: pick_one_def simp del: last.simps butlast.simps)
qed

lemma notify_prior_cases:
  assumes r: "queue_repr h s (q # rest)"
  shows "if since q < generation s
    then \<exists>h' s'. set_notify_prior h s = Some (h', s', Some (wake q)) \<and> took_out h s q NOTIFIED rest h' s'
    else set_notify_prior h s = Some (h, s, None)"
proof -
  have "holds h (set_id s) q" using r by (simp add: queue_repr_def)
  then obtain a where a: "h (who q) = Some a" "stamp a = since q" by (auto simp: holds_def split: option.splits)
  have "head s = who q" "head s \<noteq> 0" using queue_repr_ends[OF r] by simp_all
  then show ?thesis using a remove_takes_out[of h s "[]" q rest] r by (auto simp: set_notify_prior_def)
qed

lemma notify_nobody:
  "queue_repr h s [] \<Longrightarrow> set_notify_one debug h s = Some (h, s, None) \<and> set_notify_prior h s = Some (h, s, None)"
  by (simp add: set_notify_one_def set_notify_prior_def queue_repr_def)

text \<open>C5: The linked set refines a queue of waiters. Registering an idle awaiter appends it, registering a
  waiting one only replaces its waker. Unregistering and removing take out exactly the awaiter named,
  wherever it is linked; it becomes idle, or notified with its waker handed out, and no other lifecycle
  changes. \<open>notify_one\<close> finds nobody in an empty set; otherwise it takes the longest waiting awaiter, in
  debug builds the end of the queue at the higher address. \<open>notify_one_prior_generation\<close> takes the longest
  waiting awaiter when it registered in an earlier generation, and otherwise changes nothing. No such run
  reads a dangling link or trips an assertion.\<close>

theorem awaiter_set_refines_queue:
  assumes "queue_repr h s qs"
  shows "(\<forall>a. h p = Some a \<and> phase a = IDLE \<longrightarrow> (\<exists>h' s'. set_register h s p w = Some (h', s')
        \<and> queue_repr h' s' (qs @ [\<lparr>who = p, wake = w, since = generation s\<rparr>])
        \<and> map_option phase \<circ> h' = (map_option phase \<circ> h)(p \<mapsto> WAITING)))
    \<and> (\<forall>xs q ys. qs = xs @ q # ys \<longrightarrow>
        (\<exists>h'. set_register h s (who q) w = Some (h', s) \<and> queue_repr h' s (xs @ q\<lparr>wake := w\<rparr> # ys)
          \<and> map_option phase \<circ> h' = map_option phase \<circ> h)
      \<and> (\<exists>h' s'. set_unregister h s (who q) = Some (h', s') \<and> took_out h s q IDLE (xs @ ys) h' s')
      \<and> (\<exists>h' s'. set_remove h s (who q) = Some (h', s', wake q) \<and> took_out h s q NOTIFIED (xs @ ys) h' s'))
    \<and> (qs = [] \<longrightarrow> set_notify_one debug h s = Some (h, s, None) \<and> set_notify_prior h s = Some (h, s, None))
    \<and> (\<forall>q rest. qs = q # rest \<longrightarrow>
        (\<exists>h' s'. set_notify_one False h s = Some (h', s', Some (wake q)) \<and> took_out h s q NOTIFIED rest h' s')
      \<and> (if who (last qs) \<le> who q
         then \<exists>h' s'. set_notify_one True h s = Some (h', s', Some (wake q)) \<and> took_out h s q NOTIFIED rest h' s'
         else \<exists>h' s'. set_notify_one True h s = Some (h', s', Some (wake (last qs)))
           \<and> took_out h s (last qs) NOTIFIED (butlast qs) h' s')
      \<and> (if since q < generation s
         then \<exists>h' s'. set_notify_prior h s = Some (h', s', Some (wake q)) \<and> took_out h s q NOTIFIED rest h' s'
         else set_notify_prior h s = Some (h, s, None)))"
  (is "?register \<and> ?linked \<and> ?nobody \<and> ?notify")
proof (intro conjI)
  show ?register using register_new_repr[OF assms, of p _ w] by blast
  show ?linked
    using register_again_repr[of h s _ _ _ w] unregister_takes_out[of h s] remove_takes_out[of h s] assms by blast
  show ?nobody using notify_nobody assms by blast
  show ?notify
    using notify_release_head[of h s] notify_debug_higher[of h s] notify_prior_cases[of h s] assms by blast
qed

definition two_heap :: "nat awaiter_heap" where
  "two_heap = [8 \<mapsto> awaiter_new, 16 \<mapsto> awaiter_new]"

lemma two_heap_repr: "queue_repr two_heap (awaiter_set_new 1) []"
  by (rule queue_repr_new) (simp_all add: two_heap_def awaiter_new_def)

theorem awaiter_set_refines_queue_witness:
  "\<exists>h s h1 s1 h2 s2. set_register two_heap (awaiter_set_new 1) 8 100 = Some (h, s)
     \<and> queue_repr h s [\<lparr>who = 8, wake = 100, since = 1\<rparr>]
     \<and> set_register h s 16 200 = Some (h1, s1)
     \<and> set_notify_one False h1 s1 = Some (h2, s2, Some 100)
     \<and> queue_repr h2 s2 [\<lparr>who = 16, wake = 200, since = 1\<rparr>]"
proof -
  let ?a = "\<lparr>who = 8, wake = 100, since = 1\<rparr> :: nat waiter" and ?b = "\<lparr>who = 16, wake = 200, since = 1\<rparr> :: nat waiter"
  obtain h s where r: "set_register two_heap (awaiter_set_new 1) 8 100 = Some (h, s)"
      "queue_repr h s [?a]" "map_option phase \<circ> h = (map_option phase \<circ> two_heap)(8 \<mapsto> WAITING)"
    using conjunct1[OF awaiter_set_refines_queue[OF two_heap_repr, of 8 100]]
    by (auto simp: two_heap_def awaiter_new_def awaiter_set_new_def)
  have g: "generation s = 1" using r(1) by (auto simp: two_heap_def awaiter_new_def awaiter_set_new_def set_register_def)
  have "map_option phase (h 16) = Some IDLE"
    using fun_cong[OF r(3), of 16] by (simp add: two_heap_def awaiter_new_def)
  then obtain a where "h 16 = Some a" "phase a = IDLE" by auto
  then obtain h1 s1 where r1: "set_register h s 16 200 = Some (h1, s1)" "queue_repr h1 s1 [?a, ?b]"
    using awaiter_set_refines_queue[OF r(2), of 16 200] g by auto
  obtain h2 s2 where "set_notify_one False h1 s1 = Some (h2, s2, Some 100)" "queue_repr h2 s2 [?b]"
    using awaiter_set_refines_queue[OF r1(2), of 16 200] unfolding took_out_def by auto
  with r r1 show ?thesis by blast
qed

text \<open>Notifying a set with waiters takes one from an end of the queue, hands out its waker and marks
  it notified, in debug and in release builds alike; repeated until nothing is found it wakes every
  waiter exactly once.\<close>

theorem notify_drains_everyone:
  assumes "world_queued s qs"
  shows "\<exists>ws s'. drain_with (world_notify debug) (Suc (length qs)) s = Some (ws, s')
    \<and> world_queued s' [] \<and> mset ws = mset (map wake qs)"
  using awaiters.drain_all[OF assms, of debug] .

theorem notify_drains_everyone_witness:
  "\<exists>h s ws s'. set_register two_heap (awaiter_set_new 1) 8 100 = Some (h, s)
     \<and> drain_with (world_notify True) 2 (h, s) = Some (ws, s') \<and> ws = [100]"
proof -
  obtain h s where r: "set_register two_heap (awaiter_set_new 1) 8 100 = Some (h, s)"
    "queue_repr h s [\<lparr>who = 8, wake = 100, since = 1\<rparr>]"
    using register_new_repr[OF two_heap_repr, of 8 awaiter_new 100]
    by (auto simp: two_heap_def awaiter_new_def awaiter_set_new_def)
  then have "world_queued (h, s) [\<lparr>who = 8, wake = 100, since = 1\<rparr>]" by (simp add: world_queued_def)
  from notify_drains_everyone[OF this, of True] r(1) show ?thesis by (auto simp: numeral_2_eq_2)
qed

text \<open>After a new generation is opened, draining the prior generations wakes exactly the waiters
  registered before, in registration order, and then finds nobody, however many were registered since.\<close>

theorem prior_generation_drain:
  assumes "world_queued s (ps @ cs)"
    and "\<forall>p \<in> set ps. since p < generation (snd s)" and "\<forall>c \<in> set cs. generation (snd s) \<le> since c"
  shows "\<exists>s'. drain_with world_notify_prior (Suc (length ps)) s = Some (map wake ps, s') \<and> world_queued s' cs"
  using awaiters.drain_prior[OF assms] by blast

theorem prior_generation_drain_witness:
  "\<exists>h s s'. set_register two_heap (awaiter_set_new 1) 8 100 = Some (h, s)
     \<and> drain_with world_notify_prior 2 (h, advance_generation s) = Some ([100], s')"
proof -
  obtain h s where r: "set_register two_heap (awaiter_set_new 1) 8 100 = Some (h, s)"
    "queue_repr h s [\<lparr>who = 8, wake = 100, since = 1\<rparr>]" "generation s = 1"
    using register_new_repr[OF two_heap_repr, of 8 awaiter_new 100]
    by (auto simp: two_heap_def awaiter_new_def awaiter_set_new_def)
  then have g: "generation (advance_generation s) = 2"
    by (simp add: advance_generation_def wrapping_add_def usize_range_def)
  with r have "world_queued (h, advance_generation s) ([\<lparr>who = 8, wake = 100, since = 1\<rparr>] @ [])"
    by (auto simp: world_queued_def queue_repr_def advance_generation_def)
  from prior_generation_drain[OF this] g r(1) show ?thesis by (auto simp: numeral_2_eq_2)
qed

end
