(* ===== verification/LocalAutoReset.thy ===== *)
theory LocalAutoReset
  imports AwaiterSet
begin

text \<open>
  Package \<open>events\<close>, \<open>local_auto.rs\<close>: the single-threaded auto-reset event.

  The heap holds the awaiters of this event's futures. Every operation finishes its state change
  before it invokes a waker, and does nothing after it, so a reentrant call out of a waker is simply
  a later operation; the model returns the waker that is invoked. \<open>next_set_id\<close> is the counter
  behind the debug identifiers of awaiter sets.
\<close>

section \<open>Model\<close>

datatype inner_state = Unset awaiter_set | SetState

record 'w local_auto =
  auto_heap :: "'w awaiter_heap"
  auto_state :: inner_state
  next_set_id :: nat

definition local_auto_new :: "nat \<Rightarrow> 'w local_auto" where
  "local_auto_new n = \<lparr>auto_heap = Map.empty, auto_state = Unset (awaiter_set_new n), next_set_id = Suc n\<rparr>"

text \<open>The arm \<open>set\<close> and \<open>drop_wait\<close> share: pass the signal to a waiter, or store it.\<close>

definition hand_off :: "bool \<Rightarrow> 'w local_auto \<Rightarrow> awaiter_set \<Rightarrow> ('w local_auto \<times> 'w option) option" where
  "hand_off debug e waiters = do {
     (h, waiters, w) \<leftarrow> set_notify_one debug (auto_heap e) waiters;
     let e = e\<lparr>auto_heap := h, auto_state := Unset waiters\<rparr>;
     Some (case w of Some w \<Rightarrow> (e, Some w) | None \<Rightarrow> (e\<lparr>auto_state := SetState\<rparr>, None))
   }"

definition auto_set :: "bool \<Rightarrow> 'w local_auto \<Rightarrow> ('w local_auto \<times> 'w option) option" where
  "auto_set debug e =
     (case auto_state e of
        SetState \<Rightarrow> Some (e, None)
      | Unset waiters \<Rightarrow> hand_off debug e waiters)"

definition auto_unset :: "'w local_auto \<Rightarrow> 'w local_auto" where
  "auto_unset e = e\<lparr>auto_state := Unset (awaiter_set_new (next_set_id e)), next_set_id := Suc (next_set_id e)\<rparr>"

definition auto_try_wait :: "'w local_auto \<Rightarrow> 'w local_auto \<times> bool" where
  "auto_try_wait e = (if auto_state e = SetState then (auto_unset e, True) else (e, False))"

text \<open>\<open>True\<close> is \<open>Poll::Ready\<close>.\<close>

definition auto_poll_wait :: "'w local_auto \<Rightarrow> ptr \<Rightarrow> 'w \<Rightarrow> ('w local_auto \<times> bool) option" where
  "auto_poll_wait e p w = do {
     (h, taken) \<leftarrow> take_notification (auto_heap e) p;
     let e = e\<lparr>auto_heap := h\<rparr>;
     if taken then Some (e, True)
     else (case auto_state e of
             SetState \<Rightarrow> do {
               a \<leftarrow> auto_heap e p;
               require (\<not> is_registered a);
               Some (auto_unset e, True)
             }
           | Unset waiters \<Rightarrow> do {
               (h, waiters) \<leftarrow> set_register (auto_heap e) waiters p w;
               Some (e\<lparr>auto_heap := h, auto_state := Unset waiters\<rparr>, False)
             })
   }"

definition auto_drop_wait :: "bool \<Rightarrow> 'w local_auto \<Rightarrow> ptr \<Rightarrow> ('w local_auto \<times> 'w option) option" where
  "auto_drop_wait debug e p = do {
     a \<leftarrow> auto_heap e p;
     if \<not> is_registered a then Some (e, None)
     else if is_notified a then
       (case auto_state e of
          Unset waiters \<Rightarrow> hand_off debug e waiters
        | SetState \<Rightarrow> Some (e, None))
     else (case auto_state e of
             Unset waiters \<Rightarrow> do {
               (h, waiters) \<leftarrow> set_unregister (auto_heap e) waiters p;
               Some (e\<lparr>auto_heap := h, auto_state := Unset waiters\<rparr>, None)
             }
           | SetState \<Rightarrow> None)
   }"

text \<open>
  The life of a future: created with a fresh awaiter at an address, polled, dropped. Dropping frees
  the awaiter.
\<close>

datatype 'w auto_op = SetOp | TryWaitOp | NewFuture ptr | PollOp ptr 'w | DropOp ptr

datatype 'w auto_out = Woke "'w option" | Granted bool | Created

fun auto_step :: "bool \<Rightarrow> 'w local_auto \<Rightarrow> 'w auto_op \<Rightarrow> ('w local_auto \<times> 'w auto_out) option" where
  "auto_step debug e SetOp = map_option (\<lambda>(e', w). (e', Woke w)) (auto_set debug e)"
| "auto_step debug e TryWaitOp = (case auto_try_wait e of (e', b) \<Rightarrow> Some (e', Granted b))"
| "auto_step debug e (NewFuture p) = Some (e\<lparr>auto_heap := (auto_heap e)(p \<mapsto> awaiter_new)\<rparr>, Created)"
| "auto_step debug e (PollOp p w) = map_option (\<lambda>(e', b). (e', Granted b)) (auto_poll_wait e p w)"
| "auto_step debug e (DropOp p) =
     map_option (\<lambda>(e', w). (e'\<lparr>auto_heap := (auto_heap e')(p := None)\<rparr>, Woke w)) (auto_drop_wait debug e p)"

fun auto_run :: "bool \<Rightarrow> 'w local_auto \<Rightarrow> 'w auto_op list \<Rightarrow> ('w local_auto \<times> 'w auto_out list) option" where
  "auto_run debug e [] = Some (e, [])"
| "auto_run debug e (op # ops) = do {
     (e', out) \<leftarrow> auto_step debug e op;
     (e'', outs) \<leftarrow> auto_run debug e' ops;
     Some (e'', out # outs)
   }"

text \<open>What safe code can do: futures are created at free addresses, polled and dropped while alive.\<close>

definition auto_allowed :: "'w local_auto \<Rightarrow> 'w auto_op \<Rightarrow> bool" where
  "auto_allowed e op =
     (case op of
        NewFuture p \<Rightarrow> p \<noteq> 0 \<and> auto_heap e p = None
      | PollOp p w \<Rightarrow> auto_heap e p \<noteq> None
      | DropOp p \<Rightarrow> auto_heap e p \<noteq> None
      | _ \<Rightarrow> True)"

fun auto_script :: "bool \<Rightarrow> 'w local_auto \<Rightarrow> 'w auto_op list \<Rightarrow> bool" where
  "auto_script debug e [] = True"
| "auto_script debug e (op # ops) =
     (auto_allowed e op \<and> (case auto_step debug e op of None \<Rightarrow> True | Some (e', out) \<Rightarrow> auto_script debug e' ops))"

section \<open>Invariant\<close>

text \<open>
  The awaiters of the heap are waiting only in the event's own set, and none waits while the signal
  is stored.
\<close>

definition auto_wf :: "'w local_auto \<Rightarrow> bool" where
  "auto_wf e =
     (finite (dom (auto_heap e)) \<and> 0 < next_set_id e \<and> (\<forall>p a. auto_heap e p = Some a \<longrightarrow> p \<noteq> 0)
      \<and> (case auto_state e of
           SetState \<Rightarrow> \<forall>p a. auto_heap e p = Some a \<longrightarrow> phase a \<noteq> WAITING
         | Unset s \<Rightarrow> \<exists>qs. queue_repr (auto_heap e) s qs
             \<and> (\<forall>p a. auto_heap e p = Some a \<longrightarrow> phase a = WAITING \<longrightarrow> p \<in> who ` set qs)))"

definition auto_phase :: "'w local_auto \<Rightarrow> ptr \<Rightarrow> lifecycle option" where
  "auto_phase e = map_option phase \<circ> auto_heap e"

text \<open>The signals in circulation: a stored one, and one per notified future that has not seen it yet.\<close>

definition tokens :: "'w local_auto \<Rightarrow> nat" where
  "tokens e = (if auto_state e = SetState then 1 else 0) + card {p. auto_phase e p = Some NOTIFIED}"

lemma auto_phase_Some: "(auto_phase e p = Some f) = (\<exists>a. auto_heap e p = Some a \<and> phase a = f)"
  by (auto simp: auto_phase_def)

section \<open>Operations\<close>

lemma dom_auto_phase [simp]: "dom (auto_phase e) = dom (auto_heap e)"
  by (auto simp: auto_phase_def dom_def)

lemma phase_dom:
  assumes "map_option phase \<circ> h' = f" shows "dom h' = dom f"
  using assms by (auto simp: dom_def)

lemma auto_wf_finite: "auto_wf e \<Longrightarrow> finite (dom (auto_phase e))"
  by (simp add: auto_wf_def)

text \<open>The new state is sound when its heap is sound for the queue and only changes one awaiter's phase.\<close>

lemma auto_wf_unset:
  assumes wf: "auto_wf e" and st: "auto_state e = Unset s" and r: "queue_repr (auto_heap e) s qs"
    and r': "queue_repr h' s' qs'"
    and ph: "map_option phase \<circ> h' = (auto_phase e)(p := g)" and p: "p \<in> dom (auto_heap e)"
    and qs: "\<And>q. q \<noteq> p \<Longrightarrow> q \<in> who ` set qs \<Longrightarrow> q \<in> who ` set qs'"
    and g: "g = Some WAITING \<Longrightarrow> p \<in> who ` set qs'"
  shows "auto_wf (e\<lparr>auto_heap := h', auto_state := Unset s'\<rparr>)"
proof -
  have all: "\<And>q a. auto_heap e q = Some a \<Longrightarrow> phase a = WAITING \<Longrightarrow> q \<in> who ` set qs"
  proof -
    obtain qs0 where q0: "queue_repr (auto_heap e) s qs0"
      "\<forall>q a. auto_heap e q = Some a \<longrightarrow> phase a = WAITING \<longrightarrow> q \<in> who ` set qs0"
      using wf st by (auto simp: auto_wf_def)
    fix q a assume a: "auto_heap e q = Some a" "phase a = WAITING"
    with q0 obtain r0 where "r0 \<in> set qs0" "q = who r0" by blast
    with q0(1) a have "owning_set_id a = set_id s"
      by (auto simp: queue_repr_def holds_def split: option.splits)
    with r a show "q \<in> who ` set qs" by (simp add: queue_repr_complete)
  qed
  have "q \<in> who ` set qs'" if a: "h' q = Some a" "phase a = WAITING" for q a
  proof (cases "q = p")
    case True
    then show ?thesis using fun_cong[OF ph, of p] a g by simp
  next
    case False
    then have "auto_phase e q = Some WAITING" using fun_cong[OF ph, of q] a by simp
    then have "q \<in> who ` set qs" using all by (auto simp: auto_phase_Some)
    with qs False show ?thesis by blast
  qed
  moreover have "dom h' \<subseteq> insert p (dom (auto_heap e))" using phase_dom[OF ph] by auto
  then have "finite (dom h')" using wf p by (auto simp: auto_wf_def intro: finite_subset)
  moreover have "\<forall>q a. h' q = Some a \<longrightarrow> q \<noteq> 0" using r' by (simp add: queue_repr_def)
  moreover have "0 < next_set_id e" using wf by (simp add: auto_wf_def)
  ultimately show ?thesis using r' unfolding auto_wf_def by (simp del: not_gr_zero) blast
qed

lemma hand_off_spec:
  assumes wf: "auto_wf e" and st: "auto_state e = Unset s"
  shows "\<exists>e' w. hand_off debug e s = Some (e', w) \<and> auto_wf e' \<and> tokens e' = Suc (tokens e)
    \<and> dom (auto_heap e') = dom (auto_heap e)
    \<and> (\<forall>p. auto_phase e p \<noteq> Some WAITING \<longrightarrow> auto_phase e' p = auto_phase e p)
    \<and> (w = None) = (\<forall>p. auto_phase e p \<noteq> Some WAITING)"
proof -
  obtain qs where qs: "queue_repr (auto_heap e) s qs"
    "\<forall>p a. auto_heap e p = Some a \<longrightarrow> phase a = WAITING \<longrightarrow> p \<in> who ` set qs"
    using wf st by (auto simp: auto_wf_def)
  show ?thesis
  proof (cases "qs = []")
    case True
    then have none: "\<forall>p a. auto_heap e p = Some a \<longrightarrow> phase a \<noteq> WAITING" using qs(2) by auto
    have "head s = 0" using queue_repr_empty[OF qs(1)] True by (simp add: set_is_empty_def)
    then have "hand_off debug e s = Some (e\<lparr>auto_state := SetState\<rparr>, None)"
      using st by (simp add: hand_off_def set_notify_one_def)
    moreover have "auto_wf (e\<lparr>auto_state := SetState\<rparr>)" using wf none by (simp add: auto_wf_def)
    moreover have "tokens (e\<lparr>auto_state := SetState\<rparr>) = Suc (tokens e)"
      using st by (simp add: tokens_def auto_phase_def)
    moreover have "\<forall>p. auto_phase e p \<noteq> Some WAITING" using none by (auto simp: auto_phase_Some)
    ultimately show ?thesis by (auto simp: auto_phase_def)
  next
    case False
    obtain xs q ys h' s' where n: "qs = xs @ q # ys" "set_notify_one debug (auto_heap e) s = Some (h', s', Some (wake q))"
      "queue_repr h' s' (xs @ ys)" "map_option phase \<circ> h' = (map_option phase \<circ> auto_heap e)(who q \<mapsto> NOTIFIED)"
      using notify_one_repr[OF qs(1) False, of debug] by blast
    let ?e = "e\<lparr>auto_heap := h', auto_state := Unset s'\<rparr>"
    have w: "auto_phase e (who q) = Some WAITING"
      using queue_repr_waiting[OF qs(1), of q] n(1) by (auto simp: auto_phase_Some)
    then have d: "who q \<in> dom (auto_heap e)" using dom_auto_phase[of e] by blast
    have ph: "auto_phase ?e = (auto_phase e)(who q \<mapsto> NOTIFIED)" using n(4) by (simp add: auto_phase_def)
    have "auto_wf ?e"
      using n(1,4) d by (intro auto_wf_unset[OF wf st qs(1) n(3)]) (auto simp: auto_phase_def)
    moreover have "tokens ?e = Suc (tokens e)"
      using card_notify[OF auto_wf_finite[OF wf], of "who q"] w ph st by (simp add: tokens_def)
    moreover have "dom (auto_heap ?e) = dom (auto_heap e)"
      using d dom_auto_phase[of ?e] unfolding ph by (simp add: insert_absorb)
    ultimately show ?thesis
      using n(2) w ph by (auto simp: hand_off_def)
  qed
qed

lemma auto_set_spec:
  assumes wf: "auto_wf e"
  shows "\<exists>e' w. auto_set debug e = Some (e', w) \<and> auto_wf e'
    \<and> tokens e' = (if auto_state e = SetState then tokens e else Suc (tokens e))"
proof (cases "auto_state e")
  case (Unset s)
  then show ?thesis using hand_off_spec[OF wf Unset, of debug] by (auto simp: auto_set_def)
qed (use wf in \<open>auto simp: auto_set_def\<close>)

lemma auto_unset_spec:
  assumes wf: "auto_wf e" and st: "auto_state e = SetState"
  shows "auto_wf (auto_unset e) \<and> Suc (tokens (auto_unset e)) = tokens e"
proof -
  have none: "\<forall>p a. auto_heap e p = Some a \<longrightarrow> phase a \<noteq> WAITING \<and> p \<noteq> 0"
    using wf st by (auto simp: auto_wf_def)
  have "queue_repr (auto_heap e) (awaiter_set_new (next_set_id e)) []"
    using wf none by (intro queue_repr_new) (simp_all add: auto_wf_def)
  then have "auto_wf (auto_unset e)"
    using wf none unfolding auto_wf_def auto_unset_def by (auto intro!: exI[of _ "[]"])
  moreover have "auto_phase (auto_unset e) = auto_phase e" by (simp add: auto_phase_def auto_unset_def)
  ultimately show ?thesis using st by (simp add: tokens_def auto_unset_def)
qed

lemma auto_try_wait_spec:
  assumes wf: "auto_wf e"
  shows "\<exists>e' b. auto_try_wait e = (e', b) \<and> auto_wf e' \<and> b = (auto_state e = SetState)
    \<and> tokens e' + (if b then 1 else 0) = tokens e"
  using wf auto_unset_spec[OF wf] by (cases "auto_state e = SetState") (auto simp: auto_try_wait_def)

lemma auto_wf_waiting:
  assumes wf: "auto_wf e" and p: "auto_phase e p = Some WAITING"
  obtains s xs q ys where "auto_state e = Unset s" "queue_repr (auto_heap e) s (xs @ q # ys)" "who q = p"
proof (cases "auto_state e")
  case (Unset s)
  then obtain qs where "queue_repr (auto_heap e) s qs" "p \<in> who ` set qs"
    using wf p by (auto simp: auto_wf_def auto_phase_Some)
  with that Unset show ?thesis by (metis imageE split_list)
next
  case SetState
  with wf p show ?thesis by (auto simp: auto_wf_def auto_phase_Some)
qed

lemma auto_wf_other:
  assumes wf: "auto_wf e" and a: "auto_heap e p = Some a" "phase a \<noteq> WAITING" and b: "phase b \<noteq> WAITING"
  shows "auto_wf (e\<lparr>auto_heap := (auto_heap e)(p \<mapsto> b)\<rparr>)"
proof (cases "auto_state e")
  case (Unset s)
  then obtain qs where qs: "queue_repr (auto_heap e) s qs"
    "\<forall>q c. auto_heap e q = Some c \<longrightarrow> phase c = WAITING \<longrightarrow> q \<in> who ` set qs"
    using wf by (auto simp: auto_wf_def)
  have "queue_repr ((auto_heap e)(p \<mapsto> b)) s qs" using queue_repr_other[OF qs(1) a b] .
  moreover have "\<forall>q c. ((auto_heap e)(p \<mapsto> b)) q = Some c \<longrightarrow> phase c = WAITING \<longrightarrow> q \<in> who ` set qs"
    using qs(2) b by auto
  ultimately show ?thesis using wf a(1) Unset unfolding auto_wf_def by auto
next
  case SetState
  with wf a b show ?thesis by (auto simp: auto_wf_def)
qed

lemma auto_poll_wait_spec:
  assumes wf: "auto_wf e" and p: "auto_heap e p = Some a"
  shows "\<exists>e' b. auto_poll_wait e p w = Some (e', b) \<and> auto_wf e' \<and> tokens e' + (if b then 1 else 0) = tokens e
    \<and> b = (phase a = NOTIFIED \<or> auto_state e = SetState)"
proof (cases "phase a = NOTIFIED")
  case True
  let ?e = "e\<lparr>auto_heap := (auto_heap e)(p \<mapsto> a\<lparr>phase := IDLE\<rparr>)\<rparr>"
  have "auto_poll_wait e p w = Some (?e, True)" using p True by (simp add: auto_poll_wait_def take_notification_def)
  moreover have "phase a \<noteq> WAITING" using True by simp
  then have "auto_wf ?e" using auto_wf_other[OF wf p, of "a\<lparr>phase := IDLE\<rparr>"] by simp
  moreover have "auto_phase ?e = (auto_phase e)(p \<mapsto> IDLE)" by (auto simp: auto_phase_def)
  then have "Suc (tokens ?e) = tokens e"
    using card_unnotify[OF auto_wf_finite[OF wf], of p "Some IDLE"] p True
    by (simp add: tokens_def auto_phase_def)
  ultimately show ?thesis using True by auto
next
  case False
  then have t: "take_notification (auto_heap e) p = Some (auto_heap e, False)" using p by (simp add: take_notification_def)
  show ?thesis
  proof (cases "auto_state e")
    case SetState
    then have "phase a \<noteq> WAITING" using wf p by (auto simp: auto_wf_def)
    with False have "\<not> is_registered a" by (cases "phase a") (simp_all add: is_registered_def)
    then have "auto_poll_wait e p w = Some (auto_unset e, True)"
      using t SetState p by (simp add: auto_poll_wait_def)
    with SetState auto_unset_spec[OF wf SetState] show ?thesis by auto
  next
    case (Unset s)
    have ph: "\<exists>h' s'. set_register (auto_heap e) s p w = Some (h', s')
        \<and> auto_wf (e\<lparr>auto_heap := h', auto_state := Unset s'\<rparr>)
        \<and> map_option phase \<circ> h' = (auto_phase e)(p \<mapsto> WAITING)"
    proof (cases "phase a = WAITING")
      case True
      then have pw: "auto_phase e p = Some WAITING" using p by (simp add: auto_phase_Some)
      obtain s0 xs q ys where q: "auto_state e = Unset s0" "queue_repr (auto_heap e) s0 (xs @ q # ys)" "who q = p"
        using auto_wf_waiting[OF wf pw] by blast
      then have r: "queue_repr (auto_heap e) s (xs @ q # ys)" using Unset by simp
      obtain h' where h': "set_register (auto_heap e) s (who q) w = Some (h', s)"
        "queue_repr h' s (xs @ q\<lparr>wake := w\<rparr> # ys)" "map_option phase \<circ> h' = map_option phase \<circ> auto_heap e"
        using register_again_repr[OF r, of w] by blast
      have "map_option phase \<circ> h' = (auto_phase e)(p \<mapsto> WAITING)"
        using h'(3) pw by (auto simp: auto_phase_def fun_upd_idem)
      moreover from this have "auto_wf (e\<lparr>auto_heap := h', auto_state := Unset s\<rparr>)"
        using p q(3) by (intro auto_wf_unset[OF wf Unset r h'(2)]) auto
      ultimately show ?thesis using h'(1) q(3) by auto
    next
      case notw: False
      with False have idle: "phase a = IDLE" by (cases "phase a") simp_all
      obtain qs where qs: "queue_repr (auto_heap e) s qs" using wf Unset by (auto simp: auto_wf_def)
      obtain h' s' where h': "set_register (auto_heap e) s p w = Some (h', s')"
        "queue_repr h' s' (qs @ [\<lparr>who = p, wake = w, since = generation s\<rparr>])"
        "map_option phase \<circ> h' = (map_option phase \<circ> auto_heap e)(p \<mapsto> WAITING)"
        using register_new_repr[OF qs p idle, of w] by blast
      then have "auto_wf (e\<lparr>auto_heap := h', auto_state := Unset s'\<rparr>)"
        using p by (intro auto_wf_unset[OF wf Unset qs h'(2)]) (auto simp: auto_phase_def)
      with h' show ?thesis by (auto simp: auto_phase_def)
    qed
    then obtain h' s' where h': "set_register (auto_heap e) s p w = Some (h', s')"
      "auto_wf (e\<lparr>auto_heap := h', auto_state := Unset s'\<rparr>)"
      "map_option phase \<circ> h' = (auto_phase e)(p \<mapsto> WAITING)" by blast
    have "tokens (e\<lparr>auto_heap := h', auto_state := Unset s'\<rparr>) = tokens e"
      using card_same[of "auto_phase e" p "Some WAITING"] False p Unset h'(3)
      by (simp add: tokens_def auto_phase_def)
    moreover have "auto_poll_wait e p w = Some (e\<lparr>auto_heap := h', auto_state := Unset s'\<rparr>, False)"
      using t h'(1) Unset by (simp add: auto_poll_wait_def)
    ultimately show ?thesis using h'(2) Unset False by auto
  qed
qed

text \<open>Dropping a future, its awaiter freed afterwards.\<close>

definition free_awaiter :: "'w local_auto \<Rightarrow> ptr \<Rightarrow> 'w local_auto" where
  "free_awaiter e p = e\<lparr>auto_heap := (auto_heap e)(p := None)\<rparr>"

lemma auto_wf_free:
  assumes wf: "auto_wf e" and p: "auto_phase e p \<noteq> Some WAITING" "p \<in> dom (auto_heap e)"
  shows "auto_wf (free_awaiter e p) \<and> auto_phase (free_awaiter e p) = (auto_phase e)(p := None)"
proof -
  obtain a where a: "auto_heap e p = Some a" "phase a \<noteq> WAITING" using p by (auto simp: auto_phase_Some)
  have "auto_wf (free_awaiter e p)"
  proof (cases "auto_state e")
    case (Unset s)
    then obtain qs where qs: "queue_repr (auto_heap e) s qs"
      "\<forall>q c. auto_heap e q = Some c \<longrightarrow> phase c = WAITING \<longrightarrow> q \<in> who ` set qs"
      using wf by (auto simp: auto_wf_def)
    have "queue_repr ((auto_heap e)(p := None)) s qs" using queue_repr_free[OF qs(1) a] .
    moreover have "\<forall>q c. ((auto_heap e)(p := None)) q = Some c \<longrightarrow> phase c = WAITING \<longrightarrow> q \<in> who ` set qs"
      using qs(2) by auto
    ultimately show ?thesis using wf Unset unfolding auto_wf_def free_awaiter_def by auto
  next
    case SetState
    with wf show ?thesis by (auto simp: auto_wf_def free_awaiter_def)
  qed
  then show ?thesis by (auto simp: auto_phase_def free_awaiter_def)
qed

lemma auto_drop_wait_spec:
  assumes wf: "auto_wf e" and p: "auto_heap e p = Some a"
  shows "\<exists>e' w. auto_drop_wait debug e p = Some (e', w) \<and> auto_wf (free_awaiter e' p)
    \<and> tokens (free_awaiter e' p) =
        (if phase a = NOTIFIED \<and> auto_state e = SetState then tokens e - 1 else tokens e)"
proof (cases "phase a")
  case IDLE
  then have "auto_drop_wait debug e p = Some (e, None)" using p by (simp add: auto_drop_wait_def is_registered_def)
  moreover have pi: "auto_phase e p = Some IDLE" using p IDLE by (simp add: auto_phase_Some)
  then have f: "auto_wf (free_awaiter e p)" "auto_phase (free_awaiter e p) = (auto_phase e)(p := None)"
    using auto_wf_free[OF wf, of p] p by auto
  moreover have "tokens (free_awaiter e p) = tokens e"
    unfolding tokens_def f(2) using card_same[of "auto_phase e" p None] pi by (simp add: free_awaiter_def)
  ultimately show ?thesis using IDLE by auto
next
  case WAITING
  then have pw: "auto_phase e p = Some WAITING" using p by (simp add: auto_phase_Some)
  obtain s xs q ys where q: "auto_state e = Unset s" "queue_repr (auto_heap e) s (xs @ q # ys)" "who q = p"
    using auto_wf_waiting[OF wf pw] by blast
  obtain h' s' where h': "set_unregister (auto_heap e) s (who q) = Some (h', s')" "queue_repr h' s' (xs @ ys)"
    "map_option phase \<circ> h' = (map_option phase \<circ> auto_heap e)(who q \<mapsto> IDLE)"
    using unregister_repr[OF q(2)] by blast
  let ?e = "e\<lparr>auto_heap := h', auto_state := Unset s'\<rparr>"
  have "auto_drop_wait debug e p = Some (?e, None)"
    using p WAITING q h'(1) by (simp add: auto_drop_wait_def is_registered_def is_notified_def)
  moreover have wf': "auto_wf ?e"
    using h'(3) q(3) p by (intro auto_wf_unset[OF wf q(1,2) h'(2)]) (auto simp: auto_phase_def)
  moreover have ph: "auto_phase ?e = (auto_phase e)(p \<mapsto> IDLE)" using h'(3) q(3) by (simp add: auto_phase_def)
  moreover have "tokens (free_awaiter ?e p) = tokens e" "auto_wf (free_awaiter ?e p)"
  proof -
    have "p \<in> dom (auto_heap ?e)" using ph dom_auto_phase[of ?e] by auto
    then have f: "auto_wf (free_awaiter ?e p)" "auto_phase (free_awaiter ?e p) = (auto_phase ?e)(p := None)"
      using auto_wf_free[OF wf', of p] ph by auto
    then show "auto_wf (free_awaiter ?e p)" by simp
    have "card {r. (auto_phase (free_awaiter ?e p)) r = Some NOTIFIED} = card {r. auto_phase e r = Some NOTIFIED}"
      unfolding f(2) ph using card_same[of "auto_phase e" p None] pw by simp
    then show "tokens (free_awaiter ?e p) = tokens e" using q(1) by (simp add: tokens_def free_awaiter_def)
  qed
  ultimately show ?thesis using WAITING by auto
next
  case NOTIFIED
  have pn: "auto_phase e p = Some NOTIFIED" using p NOTIFIED by (simp add: auto_phase_Some)
  have freed: "auto_wf (free_awaiter f p) \<and> Suc (tokens (free_awaiter f p)) = tokens f"
    if "auto_wf f" "auto_phase f p = Some NOTIFIED" for f :: "'w local_auto"
  proof -
    have "p \<in> dom (auto_heap f)" using that(2) dom_auto_phase[of f] by blast
    then have "auto_wf (free_awaiter f p)" "auto_phase (free_awaiter f p) = (auto_phase f)(p := None)"
      using auto_wf_free[OF that(1), of p] that(2) by auto
    moreover have "auto_state (free_awaiter f p) = auto_state f" by (simp add: free_awaiter_def)
    ultimately show ?thesis
      using card_unnotify[OF auto_wf_finite[OF that(1)] that(2), of None] by (simp add: tokens_def)
  qed
  show ?thesis
  proof (cases "auto_state e")
    case SetState
    then have "auto_drop_wait debug e p = Some (e, None)"
      using p NOTIFIED by (simp add: auto_drop_wait_def is_registered_def is_notified_def)
    with freed[OF wf pn] SetState NOTIFIED show ?thesis by auto
  next
    case (Unset s)
    obtain e' w where e': "hand_off debug e s = Some (e', w)" "auto_wf e'" "tokens e' = Suc (tokens e)"
      "auto_phase e' p = auto_phase e p"
      using hand_off_spec[OF wf Unset, of debug] pn by (metis lifecycle.distinct(5) option.inject)
    then have "auto_drop_wait debug e p = Some (e', w)"
      using p NOTIFIED Unset by (simp add: auto_drop_wait_def is_registered_def is_notified_def)
    with freed[OF e'(2)] e'(3,4) pn Unset show ?thesis by auto
  qed
qed

lemma auto_new_future_wf:
  assumes wf: "auto_wf e" and p: "p \<noteq> 0" "auto_heap e p = None"
  shows "auto_wf (e\<lparr>auto_heap := (auto_heap e)(p \<mapsto> awaiter_new)\<rparr>)
    \<and> tokens (e\<lparr>auto_heap := (auto_heap e)(p \<mapsto> awaiter_new)\<rparr>) = tokens e"
proof
  let ?e = "e\<lparr>auto_heap := (auto_heap e)(p \<mapsto> awaiter_new)\<rparr>"
  show "auto_wf ?e"
  proof (cases "auto_state e")
    case (Unset s)
    then obtain qs where qs: "queue_repr (auto_heap e) s qs"
      "\<forall>q c. auto_heap e q = Some c \<longrightarrow> phase c = WAITING \<longrightarrow> q \<in> who ` set qs"
      using wf by (auto simp: auto_wf_def)
    have "queue_repr ((auto_heap e)(p \<mapsto> awaiter_new)) s qs" using queue_repr_alloc[OF qs(1) p(2,1)] .
    moreover have "\<forall>q c. ((auto_heap e)(p \<mapsto> awaiter_new)) q = Some c \<longrightarrow> phase c = WAITING \<longrightarrow> q \<in> who ` set qs"
      using qs(2) by (auto simp: awaiter_new_def)
    ultimately show ?thesis using wf Unset p unfolding auto_wf_def by auto
  next
    case SetState
    with wf p show ?thesis by (auto simp: auto_wf_def awaiter_new_def)
  qed
  have "auto_phase ?e = (auto_phase e)(p \<mapsto> IDLE)" by (auto simp: auto_phase_def awaiter_new_def)
  moreover have "auto_phase e p = None" using p by (simp add: auto_phase_def)
  ultimately show "tokens ?e = tokens e"
    using card_same[of "auto_phase e" p "Some IDLE"] by (simp add: tokens_def)
qed

section \<open>Histories\<close>

definition grants :: "'w auto_out list \<Rightarrow> nat" where
  "grants outs = length (filter (\<lambda>out. case out of Granted b \<Rightarrow> b | _ \<Rightarrow> False) outs)"

definition sets_in :: "'w auto_op list \<Rightarrow> nat" where
  "sets_in ops = length (filter (\<lambda>op. case op of SetOp \<Rightarrow> True | _ \<Rightarrow> False) ops)"

lemma grants_Cons: "grants (out # outs) = (case out of Granted b \<Rightarrow> if b then 1 else 0 | _ \<Rightarrow> 0) + grants outs"
  by (simp add: grants_def split: auto_out.splits)

lemma sets_in_Cons: "sets_in (op # ops) = (case op of SetOp \<Rightarrow> 1 | _ \<Rightarrow> 0) + sets_in ops"
  by (simp add: sets_in_def split: auto_op.splits)

lemma auto_new_wf: "0 < n \<Longrightarrow> auto_wf (local_auto_new n) \<and> tokens (local_auto_new n) = 0"
  using queue_repr_new[of n Map.empty]
  by (auto simp: auto_wf_def local_auto_new_def tokens_def auto_phase_def)

lemma auto_step_spec:
  assumes wf: "auto_wf e" and ok: "auto_allowed e op"
  shows "\<exists>e' out. auto_step debug e op = Some (e', out) \<and> auto_wf e'
    \<and> tokens e' + grants [out] \<le> tokens e + sets_in [op]"
proof (cases op)
  case SetOp
  obtain e' w where "auto_set debug e = Some (e', w)" "auto_wf e'"
    "tokens e' = (if auto_state e = SetState then tokens e else Suc (tokens e))"
    using auto_set_spec[OF wf, of debug] by blast
  then show ?thesis using SetOp
    by (intro exI[of _ e'] exI[of _ "Woke w"]) (simp add: grants_def sets_in_def)
next
  case TryWaitOp
  obtain e' b where "auto_try_wait e = (e', b)" "auto_wf e'" "tokens e' + (if b then 1 else 0) = tokens e"
    using auto_try_wait_spec[OF wf] by blast
  then show ?thesis using TryWaitOp
    by (intro exI[of _ e'] exI[of _ "Granted b"])
      (cases b; simp add: grants_def sets_in_def)
next
  case (NewFuture p)
  then show ?thesis using auto_new_future_wf[OF wf, of p] ok
    by (intro exI[of _ "e\<lparr>auto_heap := (auto_heap e)(p \<mapsto> awaiter_new)\<rparr>"] exI[of _ Created])
      (simp add: auto_allowed_def grants_def sets_in_def)
next
  case (PollOp p w)
  then obtain a where "auto_heap e p = Some a" using ok by (auto simp: auto_allowed_def)
  from auto_poll_wait_spec[OF wf this, of w] obtain e' b where "auto_poll_wait e p w = Some (e', b)" "auto_wf e'"
    "tokens e' + (if b then 1 else 0) = tokens e" by blast
  then show ?thesis using PollOp
    by (intro exI[of _ e'] exI[of _ "Granted b"])
      (cases b; simp add: grants_def sets_in_def)
next
  case (DropOp p)
  then obtain a where "auto_heap e p = Some a" using ok by (auto simp: auto_allowed_def)
  from auto_drop_wait_spec[OF wf this, of debug] obtain e' w where "auto_drop_wait debug e p = Some (e', w)"
    "auto_wf (free_awaiter e' p)" "tokens (free_awaiter e' p) \<le> tokens e"
    by (metis diff_le_self order_refl)
  then show ?thesis using DropOp
    by (intro exI[of _ "free_awaiter e' p"] exI[of _ "Woke w"]) (simp add: free_awaiter_def grants_def sets_in_def)
qed

lemma auto_run_spec:
  "auto_wf e \<Longrightarrow> auto_script debug e ops \<Longrightarrow>
   \<exists>e' outs. auto_run debug e ops = Some (e', outs) \<and> auto_wf e' \<and> tokens e' + grants outs \<le> tokens e + sets_in ops"
proof (induction ops arbitrary: e)
  case Nil
  then show ?case by (simp add: grants_def sets_in_def)
next
  case (Cons op ops)
  obtain e1 out where e1: "auto_step debug e op = Some (e1, out)" "auto_wf e1"
    "tokens e1 + grants [out] \<le> tokens e + sets_in [op]"
    using auto_step_spec[OF Cons.prems(1)] Cons.prems(2) by (metis auto_script.simps(2))
  then have "auto_script debug e1 ops" using Cons.prems(2) by simp
  then obtain e' outs where e': "auto_run debug e1 ops = Some (e', outs)" "auto_wf e'"
    "tokens e' + grants outs \<le> tokens e1 + sets_in ops"
    using Cons.IH[OF e1(2)] by blast
  have "grants (out # outs) = grants [out] + grants outs" "sets_in (op # ops) = sets_in [op] + sets_in ops"
    by (simp_all add: grants_def sets_in_def)
  with e1 e' show ?case by auto
qed

section \<open>Properties\<close>

text \<open>C16: Whatever single-threaded code does with the event and its futures, reentrantly out of wakers
  or not, no run panics or reads a freed awaiter, and the futures and \<open>try_wait\<close> calls that got
  through are never more than the calls of \<open>set\<close>.\<close>

theorem auto_reset_grants_bounded:
  assumes "0 < n" and "auto_script debug (local_auto_new n :: 'w local_auto) ops"
  shows "\<exists>e outs. auto_run debug (local_auto_new n) ops = Some (e, outs)
    \<and> grants outs \<le> sets_in ops
    \<and> (auto_state e = SetState \<longrightarrow> (\<forall>p a. auto_heap e p = Some a \<longrightarrow> phase a \<noteq> WAITING))"
proof -
  obtain e outs where "auto_run debug (local_auto_new n) ops = Some (e, outs)" "auto_wf e"
    "tokens e + grants outs \<le> tokens (local_auto_new n :: 'w local_auto) + sets_in ops"
    using auto_run_spec[OF _ assms(2)] auto_new_wf[OF assms(1)] by blast
  moreover have "tokens (local_auto_new n :: 'w local_auto) = 0" using auto_new_wf[OF assms(1)] by blast
  moreover have "auto_state e = SetState \<Longrightarrow> \<forall>p a. auto_heap e p = Some a \<longrightarrow> phase a \<noteq> WAITING"
    using \<open>auto_wf e\<close> by (simp add: auto_wf_def)
  ultimately show ?thesis by auto
qed

definition demo_script :: "nat auto_op list" where
  "demo_script = [NewFuture 8, PollOp 8 100, SetOp, SetOp, PollOp 8 100, TryWaitOp, TryWaitOp, DropOp 8]"

lemmas auto_eval = demo_script_def local_auto_new_def auto_allowed_def awaiter_set_new_def awaiter_new_def
  auto_poll_wait_def take_notification_def set_register_def auto_set_def hand_off_def set_notify_one_def
  pick_one_def set_remove_def set_unlink_def debug_assert_owns_def auto_try_wait_def auto_unset_def
  auto_drop_wait_def is_registered_def is_notified_def Let_def

theorem auto_reset_grants_bounded_witness:
  "\<exists>e. auto_run True (local_auto_new 1) demo_script = Some (e,
      [Created, Granted False, Woke (Some 100), Woke None, Granted True, Granted True, Granted False, Woke None])
    \<and> auto_state e \<noteq> SetState"
proof -
  have "auto_script True (local_auto_new 1) demo_script" by (simp add: auto_eval)
  moreover have "\<exists>e. auto_run True (local_auto_new 1) demo_script = Some (e,
      [Created, Granted False, Woke (Some 100), Woke None, Granted True, Granted True, Granted False, Woke None])
    \<and> auto_state e \<noteq> SetState" by (simp add: auto_eval)
  ultimately show ?thesis using auto_reset_grants_bounded[of 1 True demo_script] by blast
qed

text \<open>A \<open>set\<close> on an event without a stored signal adds exactly one signal, and never stores it
  while somebody waits: it wakes a waiter exactly when there is one. A poll or \<open>try_wait\<close> that
  succeeds takes exactly one, and dropping a future that was notified hands its signal on.\<close>

theorem auto_reset_conserves_signals:
  assumes "auto_wf e"
  shows "(\<forall>s. auto_state e = Unset s \<longrightarrow> (\<exists>e' w. auto_set debug e = Some (e', w) \<and> tokens e' = Suc (tokens e)
        \<and> (w = None) = (\<forall>p. auto_phase e p \<noteq> Some WAITING)))
    \<and> (\<forall>a. auto_heap e p = Some a \<longrightarrow> (\<exists>e' b. auto_poll_wait e p w = Some (e', b)
        \<and> tokens e' + (if b then 1 else 0) = tokens e))
    \<and> (\<forall>a s. auto_heap e p = Some a \<and> auto_state e = Unset s \<longrightarrow>
        (\<exists>e' v. auto_drop_wait debug e p = Some (e', v) \<and> tokens (free_awaiter e' p) = tokens e))"
proof -
  have "\<exists>e' w. auto_set debug e = Some (e', w) \<and> tokens e' = Suc (tokens e)
      \<and> (w = None) = (\<forall>p. auto_phase e p \<noteq> Some WAITING)" if "auto_state e = Unset s" for s
    using hand_off_spec[OF assms that, of debug] that by (auto simp: auto_set_def)
  moreover have "\<exists>e' v. auto_drop_wait debug e p = Some (e', v) \<and> tokens (free_awaiter e' p) = tokens e"
    if "auto_heap e p = Some a" "auto_state e = Unset s" for a s
    using auto_drop_wait_spec[OF assms that(1), of debug] that(2) by auto
  ultimately show ?thesis using auto_poll_wait_spec[OF assms] by blast
qed

theorem auto_reset_conserves_signals_witness:
  "\<exists>e w. auto_set True (local_auto_new 1 :: nat local_auto) = Some (e, w) \<and> w = None \<and> tokens e = 1"
proof -
  have wf: "auto_wf (local_auto_new 1 :: nat local_auto)" "tokens (local_auto_new 1 :: nat local_auto) = 0"
    using auto_new_wf[of 1] by auto
  obtain e w where "auto_set True (local_auto_new 1 :: nat local_auto) = Some (e, w)" "tokens e = Suc 0"
    "(w = None) = (\<forall>p. auto_phase (local_auto_new 1 :: nat local_auto) p \<noteq> Some WAITING)"
    using auto_reset_conserves_signals[OF wf(1), of True] wf(2) by (auto simp: local_auto_new_def)
  then show ?thesis by (auto simp: auto_phase_def local_auto_new_def)
qed

end
