(* ===== verification/AwaiterQueues.thy ===== *)
theory AwaiterQueues
  imports AwaiterSet
begin

text \<open>
  What the concurrent events need of the awaiter set: its operations seen only through the lifecycle
  phases of the awaiters, with the queue behind them hidden. The events that hold an awaiter set
  behind a mutex rest on these lemmas.
\<close>

section \<open>Queues seen through the phases of the awaiters\<close>

type_synonym phases = "ptr \<Rightarrow> lifecycle option"

abbreviation nobody_waits :: "phases \<Rightarrow> bool" where
  "nobody_waits f \<equiv> \<forall>q. f q \<noteq> Some WAITING"

text \<open>The set represents a queue, and whoever waits is in it.\<close>

definition queue_ok :: "'w awaiter_heap \<Rightarrow> awaiter_set \<Rightarrow> bool" where
  "queue_ok h ws =
     (\<exists>qs. queue_repr h ws qs \<and> (\<forall>p a. h p = Some a \<longrightarrow> phase a = WAITING \<longrightarrow> p \<in> who ` set qs))"

lemma queue_ok_phase:
  assumes "queue_ok h ws"
  obtains qs where "queue_repr h ws qs" "\<And>p. ((map_option phase \<circ> h) p = Some WAITING) = (p \<in> who ` set qs)"
proof -
  obtain qs where qs: "queue_repr h ws qs" "\<forall>p a. h p = Some a \<longrightarrow> phase a = WAITING \<longrightarrow> p \<in> who ` set qs"
    using assms by (auto simp: queue_ok_def)
  have "((map_option phase \<circ> h) p = Some WAITING) = (p \<in> who ` set qs)" for p
    using qs queue_repr_waiting[OF qs(1)] by force
  with qs(1) that show ?thesis by blast
qed

lemma queue_okI:
  assumes "queue_repr h ws qs" and "\<And>p. (map_option phase \<circ> h) p = Some WAITING \<Longrightarrow> p \<in> who ` set qs"
  shows "queue_ok h ws \<and> set_is_empty ws = nobody_waits (map_option phase \<circ> h)"
proof -
  have "\<forall>p a. h p = Some a \<longrightarrow> phase a = WAITING \<longrightarrow> p \<in> who ` set qs" using assms(2) by auto
  then have "queue_ok h ws" using assms(1) by (auto simp: queue_ok_def)
  moreover have "nobody_waits (map_option phase \<circ> h) = (qs = [])"
    using assms(2) queue_repr_waiting[OF assms(1)] by (cases qs) force+
  ultimately show ?thesis using queue_repr_empty[OF assms(1)] by simp
qed

lemma queue_ok_consume:
  assumes "queue_ok h ws" and "h p = Some a" and "phase a \<noteq> WAITING" and "phase b \<noteq> WAITING"
  shows "queue_ok (h(p \<mapsto> b)) ws" and "queue_ok (h(p := None)) ws"
proof -
  obtain qs where qs: "queue_repr h ws qs" "\<And>p. ((map_option phase \<circ> h) p = Some WAITING) = (p \<in> who ` set qs)"
    using queue_ok_phase[OF assms(1)] by blast
  show "queue_ok (h(p \<mapsto> b)) ws"
    using qs(2) assms(4) queue_repr_other[OF qs(1) assms(2-4)]
    by (intro queue_okI[THEN conjunct1]) (auto split: if_splits)
  show "queue_ok (h(p := None)) ws"
    using qs(2) queue_repr_free[OF qs(1) assms(2,3)]
    by (intro queue_okI[THEN conjunct1]) (auto split: if_splits)
qed

section \<open>Generations\<close>

text \<open>Everybody who waits registered before the last advance.\<close>

definition prior_only :: "'w awaiter_heap \<Rightarrow> awaiter_set \<Rightarrow> bool" where
  "prior_only h ws = (\<forall>p a. h p = Some a \<longrightarrow> phase a = WAITING \<longrightarrow> stamp a < generation ws)"

lemma prior_only_iff:
  assumes "queue_repr h ws qs" and "\<And>p. ((map_option phase \<circ> h) p = Some WAITING) = (p \<in> who ` set qs)"
  shows "prior_only h ws = (\<forall>q \<in> set qs. since q < generation ws)"
proof
  assume p: "prior_only h ws"
  show "\<forall>q \<in> set qs. since q < generation ws"
  proof
    fix q assume "q \<in> set qs"
    then obtain a where "h (who q) = Some a" "phase a = WAITING" "stamp a = since q"
      using assms(1) by (auto simp: queue_repr_def holds_def split: option.splits)
    with p show "since q < generation ws" unfolding prior_only_def by metis
  qed
next
  assume all: "\<forall>q \<in> set qs. since q < generation ws"
  show "prior_only h ws"
    unfolding prior_only_def
  proof (intro allI impI)
    fix p a assume a: "h p = Some a" "phase a = WAITING"
    then obtain q where q: "q \<in> set qs" "p = who q" using assms(2)[of p] by auto
    then have "stamp a = since q" using assms(1) a by (auto simp: queue_repr_def holds_def split: option.splits)
    with all q(1) show "stamp a < generation ws" by simp
  qed
qed

lemma queue_notify_prior:
  assumes "queue_ok h ws"
  obtains (none) "set_notify_prior h ws = Some (h, ws, None)" "prior_only h ws \<Longrightarrow> nobody_waits (map_option phase \<circ> h)"
      "set_is_empty ws = nobody_waits (map_option phase \<circ> h)"
  | (notified) q h' ws' w where "(map_option phase \<circ> h) q = Some WAITING" "set_notify_prior h ws = Some (h', ws', Some w)"
      "queue_ok h' ws'" "map_option phase \<circ> h' = (map_option phase \<circ> h)(q \<mapsto> NOTIFIED)"
      "set_is_empty ws' = nobody_waits ((map_option phase \<circ> h)(q \<mapsto> NOTIFIED))"
      "generation ws' = generation ws" "prior_only h ws \<Longrightarrow> prior_only h' ws'"
proof -
  obtain qs where qs: "queue_repr h ws qs" "\<And>p. ((map_option phase \<circ> h) p = Some WAITING) = (p \<in> who ` set qs)"
    using queue_ok_phase[OF assms] by blast
  note prior = prior_only_iff[OF qs]
  have empty: "set_is_empty ws = nobody_waits (map_option phase \<circ> h)" using queue_okI[OF qs(1)] qs(2) by blast
  have world: "world_queued (h, ws) qs" using qs(1) by (simp add: world_queued_def)
  show ?thesis
  proof (cases "\<exists>q ys. qs = q # ys \<and> since q < generation ws")
    case True
    then obtain q ys where q: "qs = q # ys" "since q < generation ws" by blast
    obtain h' ws' where n: "world_notify_prior (h, ws) = Some ((h', ws'), Some (wake q))" "world_queued (h', ws') ys"
      "world_phase (h', ws') = (world_phase (h, ws))(who q \<mapsto> NOTIFIED)" "generation ws' = generation ws"
      using awaiters.prior_some[of "(h, ws)" q ys] world q by auto
    have r: "queue_repr h' ws' ys" "map_option phase \<circ> h' = (map_option phase \<circ> h)(who q \<mapsto> NOTIFIED)"
      using n(2,3) by (simp_all add: world_queued_def world_phase_def)
    have "distinct (map who qs)" using qs(1) by (simp add: queue_repr_def)
    then have waits: "((map_option phase \<circ> h') p = Some WAITING) = (p \<in> who ` set ys)" for p
      using qs(2)[of p] q(1) unfolding r(2) by auto
    have "prior_only h ws \<Longrightarrow> prior_only h' ws'"
      using prior prior_only_iff[OF r(1) waits] q(1) n(4) by simp
    moreover have "queue_ok h' ws'" "set_is_empty ws' = nobody_waits (map_option phase \<circ> h')"
      using queue_okI[OF r(1)] waits by blast+
    moreover have "set_notify_prior h ws = Some (h', ws', Some (wake q))"
      using n(1) by (auto simp: world_notify_prior_def bind_eq_Some_iff)
    moreover have "(map_option phase \<circ> h) (who q) = Some WAITING" using qs(2) q(1) by simp
    ultimately show ?thesis using notified[of "who q" h' ws' "wake q"] n(4) r(2) by simp
  next
    case False
    have sorted: "sorted (map since qs)" using qs(1) by (simp add: queue_repr_def)
    have "\<forall>q \<in> set qs. generation ws \<le> since q"
    proof (cases qs)
      case (Cons q ys)
      then have "generation ws \<le> since q" using False by simp
      with sorted Cons show ?thesis by auto
    qed simp
    then have "world_notify_prior (h, ws) = Some ((h, ws), None)"
      using awaiters.prior_none[of "(h, ws)" qs] world by simp
    then have "set_notify_prior h ws = Some (h, ws, None)" by (auto simp: world_notify_prior_def bind_eq_Some_iff)
    moreover have "nobody_waits (map_option phase \<circ> h)" if "prior_only h ws"
      using that prior \<open>\<forall>q \<in> set qs. generation ws \<le> since q\<close> qs(2) by (cases qs) auto
    ultimately show ?thesis using none empty by blast
  qed
qed

lemma queue_advance:
  assumes "queue_ok h ws" and "Suc (generation ws) < usize_range"
  shows "queue_ok h (advance_generation ws) \<and> prior_only h (advance_generation ws)
    \<and> generation (advance_generation ws) = Suc (generation ws)"
proof -
  obtain qs where qs: "queue_repr h ws qs" "\<And>p. ((map_option phase \<circ> h) p = Some WAITING) = (p \<in> who ` set qs)"
    using queue_ok_phase[OF assms(1)] by blast
  have gen: "generation (advance_generation ws) = Suc (generation ws)"
    using assms(2) by (simp add: advance_generation_def wrapping_add_def)
  have r: "queue_repr h (advance_generation ws) qs"
    using qs(1) gen by (auto simp: queue_repr_def advance_generation_def)
  have "\<forall>q \<in> set qs. since q < generation (advance_generation ws)" using qs(1) gen by (auto simp: queue_repr_def)
  then show ?thesis using queue_okI[OF r] prior_only_iff[OF r qs(2)] qs(2) gen by simp
qed

section \<open>Operations under the lock\<close>

lemma queue_notify_one:
  assumes "queue_ok h ws"
  obtains (nobody) "nobody_waits (map_option phase \<circ> h)" "set_notify_one debug h ws = Some (h, ws, None)"
  | (notified) q h' ws' w where "(map_option phase \<circ> h) q = Some WAITING"
      "set_notify_one debug h ws = Some (h', ws', Some w)" "queue_ok h' ws'"
      "map_option phase \<circ> h' = (map_option phase \<circ> h)(q \<mapsto> NOTIFIED)"
      "set_is_empty ws' = nobody_waits ((map_option phase \<circ> h)(q \<mapsto> NOTIFIED))"
proof -
  obtain qs where qs: "queue_repr h ws qs" "\<And>p. ((map_option phase \<circ> h) p = Some WAITING) = (p \<in> who ` set qs)"
    using queue_ok_phase[OF assms] by blast
  show ?thesis
  proof (cases "qs = []")
    case True
    have "head ws = 0" using queue_repr_empty[OF qs(1)] True by (simp add: set_is_empty_def)
    then show ?thesis using nobody qs(2) True by (simp add: set_notify_one_def)
  next
    case False
    then obtain xs q ys h' s' where n: "qs = xs @ q # ys" "set_notify_one debug h ws = Some (h', s', Some (wake q))"
      "queue_repr h' s' (xs @ ys)" "map_option phase \<circ> h' = (map_option phase \<circ> h)(who q \<mapsto> NOTIFIED)"
      using notify_one_repr[OF qs(1) False, of debug] by blast
    have "queue_ok h' s' \<and> set_is_empty s' = nobody_waits (map_option phase \<circ> h')"
      using qs(2) n(1) by (intro queue_okI[OF n(3)]) (auto simp del: comp_apply simp: n(4) split: if_splits)
    then show ?thesis using notified[of "who q" h' s' "wake q"] n(2) qs(2) n(1,4) by simp
  qed
qed

lemma queue_register:
  assumes "queue_ok h ws" and "(map_option phase \<circ> h) p = Some f" and "f \<noteq> NOTIFIED"
  obtains h' ws' where "set_register h ws p w = Some (h', ws')" "queue_ok h' ws'"
    "map_option phase \<circ> h' = (map_option phase \<circ> h)(p \<mapsto> WAITING)" "generation ws' = generation ws"
proof -
  obtain qs where qs: "queue_repr h ws qs" "\<And>p. ((map_option phase \<circ> h) p = Some WAITING) = (p \<in> who ` set qs)"
    using queue_ok_phase[OF assms(1)] by blast
  obtain a where a: "h p = Some a" "phase a = f" using assms(2) by auto
  show ?thesis
  proof (cases "f = IDLE")
    case True
    then obtain h' ws' where r: "set_register h ws p w = Some (h', ws')"
      "queue_repr h' ws' (qs @ [\<lparr>who = p, wake = w, since = generation ws\<rparr>])"
      "map_option phase \<circ> h' = (map_option phase \<circ> h)(p \<mapsto> WAITING)" "generation ws' = generation ws"
      using register_new_repr[OF qs(1) a(1)] a(2) by blast
    have "queue_ok h' ws'" using qs(2)
      by (auto intro!: queue_okI[OF r(2), THEN conjunct1] simp del: comp_apply simp: r(3) split: if_splits)
    with r that show ?thesis by blast
  next
    case False
    then have "f = WAITING" using assms(3) by (cases f) auto
    then have "p \<in> who ` set qs" using qs(2) assms(2) by simp
    then obtain xs q ys where e: "qs = xs @ q # ys" "who q = p" by (metis imageE split_list)
    then obtain h' where r: "set_register h ws p w = Some (h', ws)"
      "queue_repr h' ws (xs @ q\<lparr>wake := w\<rparr> # ys)" "map_option phase \<circ> h' = map_option phase \<circ> h"
      using register_again_repr[of h ws xs q ys w] qs(1) by blast
    have "queue_ok h' ws" using qs(2) e
      by (auto intro!: queue_okI[OF r(2), THEN conjunct1] simp del: comp_apply simp: r(3))
    moreover have "map_option phase \<circ> h' = (map_option phase \<circ> h)(p \<mapsto> WAITING)"
      using r(3) assms(2) \<open>f = WAITING\<close> by auto
    ultimately show ?thesis using r that by blast
  qed
qed

lemma queue_unregister:
  assumes "queue_ok h ws" and "(map_option phase \<circ> h) p = Some WAITING"
  obtains h' ws' where "set_unregister h ws p = Some (h', ws')" "queue_ok h' ws'"
    "map_option phase \<circ> h' = (map_option phase \<circ> h)(p \<mapsto> IDLE)"
    "set_is_empty ws' = nobody_waits ((map_option phase \<circ> h)(p \<mapsto> IDLE))"
    "generation ws' = generation ws" "prior_only h ws \<Longrightarrow> prior_only h' ws'"
proof -
  obtain qs where qs: "queue_repr h ws qs" "\<And>p. ((map_option phase \<circ> h) p = Some WAITING) = (p \<in> who ` set qs)"
    using queue_ok_phase[OF assms(1)] by blast
  then have "p \<in> who ` set qs" using assms(2) by blast
  then obtain xs q ys where e: "qs = xs @ q # ys" "who q = p" by (metis imageE split_list)
  then obtain h' ws' where r: "set_unregister h ws p = Some (h', ws')" "queue_repr h' ws' (xs @ ys)"
    "map_option phase \<circ> h' = (map_option phase \<circ> h)(p \<mapsto> IDLE)" "generation ws' = generation ws"
    using unregister_repr[of h ws xs q ys] qs(1) by blast
  have "distinct (map who qs)" using qs(1) by (simp add: queue_repr_def)
  then have waits: "((map_option phase \<circ> h') p' = Some WAITING) = (p' \<in> who ` set (xs @ ys))" for p'
    using qs(2)[of p'] e unfolding r(3) by auto
  have "queue_ok h' ws' \<and> set_is_empty ws' = nobody_waits (map_option phase \<circ> h')"
    using queue_okI[OF r(2)] waits by blast
  moreover have "prior_only h ws \<Longrightarrow> prior_only h' ws'"
    using prior_only_iff[OF qs] prior_only_iff[OF r(2) waits] e r(4) by simp
  ultimately show ?thesis using that r by metis
qed

end
