(* ===== verification/AutoReset.thy ===== *)
theory AutoReset
  imports AwaiterQueues
begin

text \<open>
  Package \<open>events\<close>, \<open>auto.rs\<close>: the thread-safe auto-reset event as a transition system.

  Every thread runs one call at a time; a step of a thread is one atomic operation on the state word,
  on a lifecycle field or on the mutex, or one action on the awaiter set under the mutex. Any
  interleaving of steps is possible. Memory is sequentially consistent: the orderings the source
  chooses are not modelled. A waker is invoked after the mutex is released, so it appears as the last
  action of its call; what it runs is further calls. Wakers do not unwind, and dropping one under the mutex, as
  \<open>poll_wait\<close> does with the waker it replaces and \<open>drop_wait\<close> with the waker it takes out, has no effect on
  the event.
\<close>

section \<open>Model\<close>

definition AUTO_IDLE :: "8 word" where "AUTO_IDLE = 0"
definition SIGNALED :: "8 word" where "SIGNALED = 1"
definition HAS_WAITERS :: "8 word" where "HAS_WAITERS = 2"

text \<open>Where a thread is in \<open>set\<close>, \<open>try_wait\<close>, \<open>poll_wait\<close> or \<open>drop_wait\<close>.\<close>

datatype 'w pc =
    Idle
  | SetCas | SetLoad | SetLock | SetNotify | SetClear 'w | SetStore | SetUnlock "'w option"
  | TryWait
  | PollTry1 ptr 'w | PollTake1 ptr 'w | PollLock ptr 'w | PollTake2 ptr 'w | PollTry2 ptr 'w
  | PollOr ptr 'w | PollTry3 ptr 'w | PollClear ptr | PollRegister ptr 'w | PollUnlock ptr
  | DropCheck ptr | DropLock ptr | DropDecide ptr
  | DropForward ptr | DropForwardClear ptr 'w | DropStore ptr | DropForwardUnlock ptr "'w option"
  | DropUnregister ptr | DropClear ptr | DropUnlock ptr

type_synonym thread = nat

text \<open>\<open>set_calls\<close>, \<open>granted\<close> and \<open>woken\<close> record the calls of \<open>set\<close>, the waits that
  got through and the wakers invoked.\<close>

record 'w auto_sys =
  state_bits :: "8 word"
  heap :: "'w awaiter_heap"
  slow :: awaiter_set
  mutex :: "thread option"
  pcs :: "thread \<Rightarrow> 'w pc"
  set_calls :: nat
  granted :: nat
  woken :: "'w list"

definition auto_sys_new :: "nat \<Rightarrow> 'w auto_sys" where
  "auto_sys_new n = \<lparr>state_bits = AUTO_IDLE, heap = Map.empty, slow = awaiter_set_new n, mutex = None,
     pcs = (\<lambda>t. Idle), set_calls = 0, granted = 0, woken = []\<rparr>"

definition goto :: "thread \<Rightarrow> 'w pc \<Rightarrow> 'w auto_sys \<Rightarrow> 'w auto_sys" where
  "goto t c s = s\<lparr>pcs := (pcs s)(t := c)\<rparr>"

definition unlock :: "'w auto_sys \<Rightarrow> 'w auto_sys" where
  "unlock s = s\<lparr>mutex := None\<rparr>"

definition grant :: "'w auto_sys \<Rightarrow> 'w auto_sys" where
  "grant s = s\<lparr>granted := Suc (granted s)\<rparr>"

text \<open>\<open>try_wait\<close>: one \<open>fetch_and\<close>; whether the bit was set.\<close>

definition consume_signal :: "'w auto_sys \<Rightarrow> 'w auto_sys \<times> bool" where
  "consume_signal s =
     (let prev = state_bits s; s = s\<lparr>state_bits := prev AND NOT SIGNALED\<rparr>
      in if prev AND SIGNALED \<noteq> 0 then (grant s, True) else (s, False))"

definition clear_has_waiters :: "'w auto_sys \<Rightarrow> 'w auto_sys" where
  "clear_has_waiters s = s\<lparr>state_bits := state_bits s AND NOT HAS_WAITERS\<rparr>"

definition acquire :: "thread \<Rightarrow> 'w auto_sys \<Rightarrow> 'w auto_sys option" where
  "acquire t s = (if mutex s = None then Some (s\<lparr>mutex := Some t\<rparr>) else None)"

definition sys_notify :: "bool \<Rightarrow> 'w auto_sys \<Rightarrow> ('w auto_sys \<times> 'w option) option" where
  "sys_notify debug s = do {
     (h, ws, w) \<leftarrow> set_notify_one debug (heap s) (slow s);
     Some (s\<lparr>heap := h, slow := ws\<rparr>, w)
   }"

text \<open>One step of a thread in \<open>set\<close>.\<close>

definition set_step :: "bool \<Rightarrow> thread \<Rightarrow> 'w auto_sys \<Rightarrow> 'w auto_sys option" where
  "set_step debug t s =
     (case pcs s t of
        SetCas \<Rightarrow> Some (if state_bits s = AUTO_IDLE then goto t Idle (s\<lparr>state_bits := SIGNALED\<rparr>)
                       else goto t SetLoad s)
      | SetLoad \<Rightarrow> Some (goto t (if state_bits s AND SIGNALED \<noteq> 0 then Idle else SetLock) s)
      | SetLock \<Rightarrow> map_option (goto t SetNotify) (acquire t s)
      | SetNotify \<Rightarrow> do {
          (s, w) \<leftarrow> sys_notify debug s;
          Some (case w of
              Some w \<Rightarrow> goto t (if set_is_empty (slow s) then SetClear w else SetUnlock (Some w)) s
            | None \<Rightarrow> goto t SetStore s)
        }
      | SetClear w \<Rightarrow> Some (goto t (SetUnlock (Some w)) (clear_has_waiters s))
      | SetStore \<Rightarrow> Some (goto t (SetUnlock None) (s\<lparr>state_bits := SIGNALED\<rparr>))
      | SetUnlock w \<Rightarrow> Some (goto t Idle ((unlock s)\<lparr>woken := woken s @ (case w of None \<Rightarrow> [] | Some w \<Rightarrow> [w])\<rparr>))
      | _ \<Rightarrow> None)"

definition sys_take :: "'w auto_sys \<Rightarrow> ptr \<Rightarrow> ('w auto_sys \<times> bool) option" where
  "sys_take s p = do {
     (h, taken) \<leftarrow> take_notification (heap s) p;
     Some (if taken then grant (s\<lparr>heap := h\<rparr>) else s\<lparr>heap := h\<rparr>, taken)
   }"

text \<open>One step of a thread in \<open>try_wait\<close> or \<open>poll_wait\<close>.\<close>

definition poll_step :: "thread \<Rightarrow> 'w auto_sys \<Rightarrow> 'w auto_sys option" where
  "poll_step t s =
     (case pcs s t of
        TryWait \<Rightarrow> Some (goto t Idle (fst (consume_signal s)))
      | PollTry1 p w \<Rightarrow> (case consume_signal s of (s, b) \<Rightarrow> Some (goto t (if b then Idle else PollTake1 p w) s))
      | PollTake1 p w \<Rightarrow> do { (s, b) \<leftarrow> sys_take s p; Some (goto t (if b then Idle else PollLock p w) s) }
      | PollLock p w \<Rightarrow> map_option (goto t (PollTake2 p w)) (acquire t s)
      | PollTake2 p w \<Rightarrow> do { (s, b) \<leftarrow> sys_take s p; Some (goto t (if b then PollUnlock p else PollTry2 p w) s) }
      | PollTry2 p w \<Rightarrow> (case consume_signal s of (s, b) \<Rightarrow> Some (goto t (if b then PollUnlock p else PollOr p w) s))
      | PollOr p w \<Rightarrow> Some (goto t (PollTry3 p w) (s\<lparr>state_bits := state_bits s OR HAS_WAITERS\<rparr>))
      | PollTry3 p w \<Rightarrow> (case consume_signal s of (s, b) \<Rightarrow> Some (goto t (if b then PollClear p else PollRegister p w) s))
      | PollClear p \<Rightarrow> Some (goto t (PollUnlock p) (clear_has_waiters s))
      | PollRegister p w \<Rightarrow> do {
          (h, ws) \<leftarrow> set_register (heap s) (slow s) p w;
          Some (goto t (PollUnlock p) (s\<lparr>heap := h, slow := ws\<rparr>))
        }
      | PollUnlock p \<Rightarrow> Some (goto t Idle (unlock s))
      | _ \<Rightarrow> None)"

text \<open>One step of a thread in \<open>drop_wait\<close>; the future's memory goes with its last step.\<close>

definition release_future :: "ptr \<Rightarrow> 'w auto_sys \<Rightarrow> 'w auto_sys" where
  "release_future p s = s\<lparr>heap := (heap s)(p := None)\<rparr>"

definition drop_step :: "bool \<Rightarrow> thread \<Rightarrow> 'w auto_sys \<Rightarrow> 'w auto_sys option" where
  "drop_step debug t s =
     (case pcs s t of
        DropCheck p \<Rightarrow> do {
          a \<leftarrow> heap s p;
          Some (if is_registered a then goto t (DropLock p) s else goto t Idle (release_future p s))
        }
      | DropLock p \<Rightarrow> map_option (goto t (DropDecide p)) (acquire t s)
      | DropDecide p \<Rightarrow> do {
          a \<leftarrow> heap s p;
          Some (goto t (if is_notified a then DropForward p else DropUnregister p) s)
        }
      | DropForward p \<Rightarrow> do {
          (s, w) \<leftarrow> sys_notify debug s;
          Some (case w of
              Some w \<Rightarrow> goto t (if set_is_empty (slow s) then DropForwardClear p w else DropForwardUnlock p (Some w)) s
            | None \<Rightarrow> goto t (DropStore p) s)
        }
      | DropForwardClear p w \<Rightarrow> Some (goto t (DropForwardUnlock p (Some w)) (clear_has_waiters s))
      | DropStore p \<Rightarrow> Some (goto t (DropForwardUnlock p None) (s\<lparr>state_bits := SIGNALED\<rparr>))
      | DropForwardUnlock p w \<Rightarrow>
          Some (goto t Idle (release_future p ((unlock s)\<lparr>woken := woken s @ (case w of None \<Rightarrow> [] | Some w \<Rightarrow> [w])\<rparr>)))
      | DropUnregister p \<Rightarrow> do {
          (h, ws) \<leftarrow> set_unregister (heap s) (slow s) p;
          let s = s\<lparr>heap := h, slow := ws\<rparr>;
          Some (goto t (if set_is_empty ws then DropClear p else DropUnlock p) s)
        }
      | DropClear p \<Rightarrow> Some (goto t (DropUnlock p) (clear_has_waiters s))
      | DropUnlock p \<Rightarrow> Some (goto t Idle (release_future p (unlock s)))
      | _ \<Rightarrow> None)"

text \<open>The call a program counter belongs to, and the future it works on.\<close>

fun pc_future :: "'w pc \<Rightarrow> ptr option" where
  "pc_future (PollTry1 p w) = Some p" | "pc_future (PollTake1 p w) = Some p" | "pc_future (PollLock p w) = Some p"
| "pc_future (PollTake2 p w) = Some p" | "pc_future (PollTry2 p w) = Some p" | "pc_future (PollOr p w) = Some p"
| "pc_future (PollTry3 p w) = Some p" | "pc_future (PollClear p) = Some p" | "pc_future (PollRegister p w) = Some p"
| "pc_future (PollUnlock p) = Some p" | "pc_future (DropCheck p) = Some p" | "pc_future (DropLock p) = Some p"
| "pc_future (DropDecide p) = Some p" | "pc_future (DropForward p) = Some p" | "pc_future (DropForwardClear p w) = Some p"
| "pc_future (DropStore p) = Some p" | "pc_future (DropForwardUnlock p v) = Some p" | "pc_future (DropUnregister p) = Some p"
| "pc_future (DropClear p) = Some p" | "pc_future (DropUnlock p) = Some p" | "pc_future c = None"

definition thread_step :: "bool \<Rightarrow> thread \<Rightarrow> 'w auto_sys \<Rightarrow> 'w auto_sys option" where
  "thread_step debug t s =
     (case set_step debug t s of
        Some s' \<Rightarrow> Some s'
      | None \<Rightarrow> (case poll_step t s of Some s' \<Rightarrow> Some s' | None \<Rightarrow> drop_step debug t s))"

text \<open>
  All behaviours: an idle thread calls an operation, or some thread takes its next step. A future is
  polled or dropped by one task at a time, as its exclusive reference demands.
\<close>

inductive sys_step :: "bool \<Rightarrow> 'w auto_sys \<Rightarrow> 'w auto_sys \<Rightarrow> bool" for debug where
  call_set: "pcs s t = Idle \<Longrightarrow> sys_step debug s ((goto t SetCas s)\<lparr>set_calls := Suc (set_calls s)\<rparr>)"
| call_try_wait: "pcs s t = Idle \<Longrightarrow> sys_step debug s (goto t TryWait s)"
| call_wait: "p \<noteq> 0 \<Longrightarrow> heap s p = None \<Longrightarrow> sys_step debug s (s\<lparr>heap := (heap s)(p \<mapsto> awaiter_new)\<rparr>)"
| call_poll: "pcs s t = Idle \<Longrightarrow> p \<in> dom (heap s) \<Longrightarrow> \<forall>u. pc_future (pcs s u) \<noteq> Some p \<Longrightarrow>
    sys_step debug s (goto t (PollTry1 p w) s)"
| call_drop: "pcs s t = Idle \<Longrightarrow> p \<in> dom (heap s) \<Longrightarrow> \<forall>u. pc_future (pcs s u) \<noteq> Some p \<Longrightarrow>
    sys_step debug s (goto t (DropCheck p) s)"
| thread_runs: "thread_step debug t s = Some s' \<Longrightarrow> sys_step debug s s'"

inductive reachable :: "bool \<Rightarrow> 'w auto_sys \<Rightarrow> bool" for debug where
  fresh: "0 < n \<Longrightarrow> reachable debug (auto_sys_new n)"
| onward: "reachable debug s \<Longrightarrow> sys_step debug s s' \<Longrightarrow> reachable debug s'"

section \<open>Invariant\<close>

abbreviation sg :: "8 word \<Rightarrow> bool" where "sg b \<equiv> b AND SIGNALED \<noteq> 0"
abbreviation hw :: "8 word \<Rightarrow> bool" where "hw b \<equiv> b AND HAS_WAITERS \<noteq> 0"

definition bits_ok :: "8 word \<Rightarrow> bool" where
  "bits_ok b = (b \<in> {0, 1, 2, 3})"

lemma bits_simps [simp]:
  "SIGNALED \<noteq> 0" "sg SIGNALED" "\<not> hw SIGNALED" "\<not> sg AUTO_IDLE" "\<not> hw AUTO_IDLE"
  "bits_ok SIGNALED" "bits_ok AUTO_IDLE"
  by (simp_all add: bits_ok_def AUTO_IDLE_def SIGNALED_def HAS_WAITERS_def)

lemma bits_ops:
  assumes "bits_ok b"
  shows "bits_ok (b AND NOT SIGNALED)" "\<not> sg (b AND NOT SIGNALED)" "hw (b AND NOT SIGNALED) = hw b"
    "bits_ok (b AND NOT HAS_WAITERS)" "sg (b AND NOT HAS_WAITERS) = sg b" "\<not> hw (b AND NOT HAS_WAITERS)"
    "bits_ok (b OR HAS_WAITERS)" "sg (b OR HAS_WAITERS) = sg b" "hw (b OR HAS_WAITERS)"
    "(b = AUTO_IDLE) = (\<not> sg b \<and> \<not> hw b)"
  using assms by (auto simp: bits_ok_def AUTO_IDLE_def SIGNALED_def HAS_WAITERS_def)

text \<open>The program counters inside the critical section.\<close>

fun holds_lock :: "'w pc \<Rightarrow> bool" where
  "holds_lock SetNotify = True" | "holds_lock (SetClear w) = True" | "holds_lock SetStore = True"
| "holds_lock (SetUnlock v) = True"
| "holds_lock (PollTake2 p w) = True" | "holds_lock (PollTry2 p w) = True" | "holds_lock (PollOr p w) = True"
| "holds_lock (PollTry3 p w) = True" | "holds_lock (PollClear p) = True" | "holds_lock (PollRegister p w) = True"
| "holds_lock (PollUnlock p) = True"
| "holds_lock (DropDecide p) = True" | "holds_lock (DropForward p) = True" | "holds_lock (DropForwardClear p w) = True"
| "holds_lock (DropStore p) = True" | "holds_lock (DropForwardUnlock p v) = True"
| "holds_lock (DropUnregister p) = True" | "holds_lock (DropClear p) = True" | "holds_lock (DropUnlock p) = True"
| "holds_lock c = False"

definition sys_phase :: "'w auto_sys \<Rightarrow> phases" where
  "sys_phase s = map_option phase \<circ> heap s"

text \<open>What each program counter knows of the awaiters and the state word.\<close>

fun pc_knows :: "'w pc \<Rightarrow> phases \<Rightarrow> 8 word \<Rightarrow> bool" where
  "pc_knows (SetClear w) f b = nobody_waits f"
| "pc_knows SetStore f b = nobody_waits f"
| "pc_knows (PollTry2 p w) f b = (f p \<noteq> Some NOTIFIED)"
| "pc_knows (PollOr p w) f b = (f p \<noteq> Some NOTIFIED)"
| "pc_knows (PollTry3 p w) f b = (f p \<noteq> Some NOTIFIED \<and> hw b)"
| "pc_knows (PollClear p) f b = nobody_waits f"
| "pc_knows (PollRegister p w) f b = (f p \<noteq> Some NOTIFIED \<and> hw b \<and> \<not> sg b)"
| "pc_knows (DropLock p) f b = (f p \<noteq> Some IDLE)"
| "pc_knows (DropDecide p) f b = (f p \<noteq> Some IDLE)"
| "pc_knows (DropForward p) f b = (f p = Some NOTIFIED)"
| "pc_knows (DropForwardClear p w) f b = (f p = Some NOTIFIED \<and> nobody_waits f)"
| "pc_knows (DropStore p) f b = (f p = Some NOTIFIED \<and> nobody_waits f)"
| "pc_knows (DropForwardUnlock p v) f b = (f p = Some NOTIFIED)"
| "pc_knows (DropUnregister p) f b = (f p = Some WAITING)"
| "pc_knows (DropClear p) f b = (f p = Some IDLE \<and> nobody_waits f)"
| "pc_knows (DropUnlock p) f b = (f p = Some IDLE)"
| "pc_knows c f b = True"

definition pc_safe :: "'w pc \<Rightarrow> phases \<Rightarrow> 8 word \<Rightarrow> bool" where
  "pc_safe c f b = (pc_knows c f b \<and> (\<forall>p. pc_future c = Some p \<longrightarrow> p \<in> dom f))"

definition sys_ok :: "'w auto_sys \<Rightarrow> bool" where
  "sys_ok s =
     (queue_ok (heap s) (slow s) \<and> bits_ok (state_bits s) \<and> finite (dom (heap s)) \<and> finite {t. pcs s t \<noteq> Idle}
      \<and> (nobody_waits (sys_phase s) \<or> hw (state_bits s) \<and> \<not> sg (state_bits s))
      \<and> (\<forall>t. holds_lock (pcs s t) = (mutex s = Some t))
      \<and> (\<forall>t. pc_safe (pcs s t) (sys_phase s) (state_bits s))
      \<and> (\<forall>t u p. pc_future (pcs s t) = Some p \<longrightarrow> pc_future (pcs s u) = Some p \<longrightarrow> t = u))"

section \<open>Interference\<close>

text \<open>What a step of one thread may change for the others.\<close>

definition meddles :: "bool \<Rightarrow> ptr option \<Rightarrow> phases \<Rightarrow> 8 word \<Rightarrow> phases \<Rightarrow> 8 word \<Rightarrow> bool" where
  "meddles lk mine f b f' b' =
     ((\<forall>q. mine \<noteq> Some q \<longrightarrow> f' q = f q \<or> lk \<and> f q = Some WAITING \<and> f' q = Some NOTIFIED)
      \<and> (\<not> lk \<longrightarrow> hw b' = hw b \<and> (sg b' \<longrightarrow> sg b \<or> \<not> hw b) \<and> (\<forall>q. f' q = Some WAITING \<longrightarrow> f q = Some WAITING)))"

lemma pc_safe_frame:
  assumes "pc_safe c f b" and "meddles lk mine f b f' b'" and "\<not> (lk \<and> holds_lock c)"
    and "\<And>p. pc_future c = Some p \<Longrightarrow> mine \<noteq> Some p"
  shows "pc_safe c f' b'"
proof (cases "pc_future c")
  case None
  with assms(1-3) show ?thesis by (cases c) (auto simp: pc_safe_def meddles_def)
next
  case (Some p)
  then have "f' p = f p \<or> lk \<and> f p = Some WAITING \<and> f' p = Some NOTIFIED"
    using assms(2,4) by (auto simp: meddles_def)
  with Some assms(1-3) show ?thesis by (cases c) (auto simp: pc_safe_def meddles_def dom_def)
qed

lemma sys_ok_step:
  assumes ok: "sys_ok s" and pcs: "pcs s' = (pcs s)(t := c)"
    and q: "queue_ok (heap s') (slow s')" and b: "bits_ok (state_bits s')"
    and w: "nobody_waits (sys_phase s') \<or> hw (state_bits s') \<and> \<not> sg (state_bits s')"
    and lock: "mutex s' = (if holds_lock c then Some t else if holds_lock (pcs s t) then None else mutex s)"
    and acq: "holds_lock c \<Longrightarrow> holds_lock (pcs s t) \<or> mutex s = None"
    and fut: "pc_future c = pc_future (pcs s t) \<or> pc_future c = None \<or> (\<forall>u. pc_future (pcs s u) \<noteq> pc_future c)"
    and safe: "pc_safe c (sys_phase s') (state_bits s')"
    and med: "meddles (holds_lock (pcs s t)) (pc_future (pcs s t)) (sys_phase s) (state_bits s)
      (sys_phase s') (state_bits s')"
  shows "sys_ok s'"
proof -
  note inv = ok[unfolded sys_ok_def]
  have lk: "holds_lock (pcs s u) = (mutex s = Some u)" for u using inv by blast
  have "holds_lock (pcs s' u) = (mutex s' = Some u)" for u
    using lk[of u] lk[of t] lock acq pcs by (auto split: if_splits)
  moreover have "pc_safe (pcs s' u) (sys_phase s') (state_bits s')" for u
  proof (cases "u = t")
    case False
    have "pc_safe (pcs s u) (sys_phase s') (state_bits s')"
    proof (rule pc_safe_frame[OF _ med])
      show "pc_safe (pcs s u) (sys_phase s) (state_bits s)" using inv by blast
      show "\<not> (holds_lock (pcs s t) \<and> holds_lock (pcs s u))" using lk[of u] lk[of t] False by auto
      show "pc_future (pcs s t) \<noteq> Some p" if "pc_future (pcs s u) = Some p" for p using inv that False by metis
    qed
    with False pcs show ?thesis by simp
  qed (use safe pcs in simp)
  moreover have "t1 = t2" if p: "pc_future (pcs s' t1) = Some p" "pc_future (pcs s' t2) = Some p" for t1 t2 p
  proof -
    have one: "u1 = u2" if "pc_future (pcs s u1) = Some p" "pc_future (pcs s u2) = Some p" for u1 u2
      using inv that by metis
    show ?thesis
    proof (cases "\<forall>u. pc_future (pcs s u) \<noteq> pc_future c")
      case True
      then show ?thesis using p pcs one by (auto split: if_splits)
    next
      case False
      have "pc_future (pcs s u) = Some p" if "pc_future (pcs s' u) = Some p" for u
        using that pcs fut False by (auto split: if_splits)
      with p one show ?thesis by metis
    qed
  qed
  moreover have "finite (dom (heap s'))"
  proof (rule finite_subset)
    have d: "dom (heap r) = {q. sys_phase r q \<noteq> None}" for r :: "'a auto_sys" by (auto simp: sys_phase_def)
    show "dom (heap s') \<subseteq> dom (heap s) \<union> {q. pc_future (pcs s t) = Some q}"
      unfolding d using med by (auto simp: meddles_def)
    have "finite {q. pc_future (pcs s t) = Some q}" by (cases "pc_future (pcs s t)") auto
    then show "finite (dom (heap s) \<union> {q. pc_future (pcs s t) = Some q})" using inv by blast
  qed
  moreover have "finite {u. pcs s' u \<noteq> Idle}"
    using inv pcs by (auto intro!: finite_subset[of _ "insert t {u. pcs s u \<noteq> Idle}"] split: if_splits)
  ultimately show ?thesis unfolding sys_ok_def using q b w by blast
qed

section \<open>The awaiter set under the lock\<close>

lemma sys_notify_spec:
  assumes "queue_ok (heap s) (slow s)"
  obtains (nobody) "nobody_waits (sys_phase s)" "sys_notify debug s = Some (s, None)"
  | (notified) q h ws w where "sys_phase s q = Some WAITING"
      "sys_notify debug s = Some (s\<lparr>heap := h, slow := ws\<rparr>, Some w)" "queue_ok h ws"
      "map_option phase \<circ> h = (sys_phase s)(q \<mapsto> NOTIFIED)"
      "set_is_empty ws = nobody_waits ((sys_phase s)(q \<mapsto> NOTIFIED))"
  using assms by (cases rule: queue_notify_one[where debug = debug]) (auto simp: sys_notify_def sys_phase_def)

lemma sys_register_spec:
  assumes "queue_ok (heap s) (slow s)" and "sys_phase s p = Some f" and "f \<noteq> NOTIFIED"
  obtains h ws where "set_register (heap s) (slow s) p w = Some (h, ws)" "queue_ok h ws"
    "map_option phase \<circ> h = (sys_phase s)(p \<mapsto> WAITING)"
  using queue_register[OF assms(1) assms(2)[unfolded sys_phase_def] assms(3)] unfolding sys_phase_def by metis

lemma sys_unregister_spec:
  assumes "queue_ok (heap s) (slow s)" and "sys_phase s p = Some WAITING"
  obtains h ws where "set_unregister (heap s) (slow s) p = Some (h, ws)" "queue_ok h ws"
    "map_option phase \<circ> h = (sys_phase s)(p \<mapsto> IDLE)" "set_is_empty ws = nobody_waits ((sys_phase s)(p \<mapsto> IDLE))"
  using queue_unregister[OF assms(1) assms(2)[unfolded sys_phase_def]] unfolding sys_phase_def by metis

section \<open>Accounting of signals\<close>

text \<open>
  A thread about to notify or store carries a signal; a dropped future whose signal has been
  forwarded is still marked notified until its memory goes.
\<close>

fun weight :: "'w pc \<Rightarrow> int" where
  "weight SetCas = 1" | "weight SetLoad = 1" | "weight SetLock = 1" | "weight SetNotify = 1" | "weight SetStore = 1"
| "weight (DropForwardClear p w) = -1" | "weight (DropForwardUnlock p v) = -1" | "weight c = 0"

definition settled :: "'w auto_sys \<Rightarrow> int" where
  "settled s = int (granted s) + (if sg (state_bits s) then 1 else 0)
     + int (card {p. sys_phase s p = Some NOTIFIED})"

definition carried :: "'w auto_sys \<Rightarrow> int" where
  "carried s = (\<Sum>t \<in> {t. pcs s t \<noteq> Idle}. weight (pcs s t))"

lemma carried_step:
  assumes "finite {t. pcs s t \<noteq> Idle}" and "pcs s' = (pcs s)(t := c)"
  shows "carried s' + weight (pcs s t) = carried s + weight c"
proof -
  let ?T = "insert t {u. pcs s u \<noteq> Idle}"
  have fin: "finite ?T" using assms(1) by simp
  have wide: "carried r = (\<Sum>u \<in> ?T. weight (pcs r u))" if "{u. pcs r u \<noteq> Idle} \<subseteq> ?T" for r :: "'a auto_sys"
    unfolding carried_def using that fin by (intro sum.mono_neutral_left) auto
  have eq: "carried r = weight (pcs r t) + (\<Sum>u \<in> ?T - {t}. weight (pcs r u))"
    if "{u. pcs r u \<noteq> Idle} \<subseteq> ?T" for r :: "'a auto_sys"
    using wide[OF that] fin by (simp only: sum.remove[of ?T t] insertI1)
  have sub: "{u. pcs s u \<noteq> Idle} \<subseteq> ?T" "{u. pcs s' u \<noteq> Idle} \<subseteq> ?T"
    using assms(2) by (auto split: if_splits)
  have "(\<Sum>u \<in> ?T - {t}. weight (pcs s' u)) = (\<Sum>u \<in> ?T - {t}. weight (pcs s u))"
    using assms(2) by (intro sum.cong) auto
  with eq[OF sub(1)] eq[OF sub(2)] assms(2) show ?thesis by simp
qed

text \<open>A step of thread \<open>t\<close> that keeps the invariant and creates no signal.\<close>

definition good_step :: "thread \<Rightarrow> 'w auto_sys \<Rightarrow> 'w auto_sys \<Rightarrow> bool" where
  "good_step t s s' =
     (sys_ok s' \<and> set_calls s' = set_calls s
      \<and> (\<exists>c. pcs s' = (pcs s)(t := c) \<and> settled s' + weight c \<le> settled s + weight (pcs s t)))"

text \<open>Steps that leave heap and set alone.\<close>

lemma bits_step:
  assumes ok: "sys_ok s" and pcs: "pcs r = (pcs s)(t := c)" and same: "heap r = heap s" "slow r = slow s"
    "set_calls r = set_calls s"
    and b: "bits_ok (state_bits r)"
    and w: "nobody_waits (sys_phase s) \<or> hw (state_bits r) \<and> \<not> sg (state_bits r)"
    and lock: "mutex r = (if holds_lock c then Some t else if holds_lock (pcs s t) then None else mutex s)"
    and acq: "holds_lock c \<Longrightarrow> holds_lock (pcs s t) \<or> mutex s = None"
    and fut: "pc_future c = pc_future (pcs s t) \<or> pc_future c = None"
    and safe: "pc_knows c (sys_phase s) (state_bits r)"
    and med: "holds_lock (pcs s t) \<or> hw (state_bits r) = hw (state_bits s)
      \<and> (sg (state_bits r) \<longrightarrow> sg (state_bits s) \<or> \<not> hw (state_bits s))"
    and bal: "int (granted r) + (if sg (state_bits r) then 1 else 0) + weight c
      \<le> int (granted s) + (if sg (state_bits s) then 1 else 0) + weight (pcs s t)"
  shows "good_step t s r"
proof -
  have ph: "sys_phase r = sys_phase s" using same by (simp add: sys_phase_def)
  have "pc_safe (pcs s t) (sys_phase s) (state_bits s)" using ok by (simp add: sys_ok_def)
  then have "pc_safe c (sys_phase r) (state_bits r)" using safe fut ph by (auto simp: pc_safe_def)
  moreover have "meddles (holds_lock (pcs s t)) (pc_future (pcs s t)) (sys_phase s) (state_bits s)
      (sys_phase r) (state_bits r)" using med ph by (auto simp: meddles_def)
  moreover have "queue_ok (heap r) (slow r)" using ok same by (simp add: sys_ok_def)
  ultimately have "sys_ok r" using b w ph lock acq fut by (intro sys_ok_step[OF ok pcs]) auto
  moreover have "settled r + weight c \<le> settled s + weight (pcs s t)" using bal ph by (simp add: settled_def)
  ultimately show ?thesis using pcs same(3) by (auto simp: good_step_def)
qed

text \<open>Steps that move one awaiter of the heap to another phase.\<close>

lemma heap_step:
  assumes ok: "sys_ok s" and pcs: "pcs r = (pcs s)(t := c)"
    and same: "set_calls r = set_calls s" "state_bits r = state_bits s"
    and ph: "sys_phase r = (sys_phase s)(q := g)" and q: "queue_ok (heap r) (slow r)"
    and w: "g = Some WAITING \<Longrightarrow> hw (state_bits s) \<and> \<not> sg (state_bits s)"
    and lock: "mutex r = (if holds_lock c then Some t else if holds_lock (pcs s t) then None else mutex s)"
    and acq: "holds_lock c \<Longrightarrow> holds_lock (pcs s t)"
    and fut: "pc_future c = pc_future (pcs s t) \<and> g \<noteq> None \<or> pc_future c = None"
    and safe: "pc_knows c (sys_phase r) (state_bits s)"
    and med: "pc_future (pcs s t) = Some q \<and> (holds_lock (pcs s t) \<or> g \<noteq> Some WAITING)
      \<or> holds_lock (pcs s t) \<and> sys_phase s q = Some WAITING \<and> g = Some NOTIFIED"
    and bal: "int (granted r) + (if g = Some NOTIFIED then 1 else 0) + weight c
      \<le> int (granted s) + (if sys_phase s q = Some NOTIFIED then 1 else 0) + weight (pcs s t)"
  shows "good_step t s r"
proof -
  note inv = ok[unfolded sys_ok_def]
  have "pc_safe (pcs s t) (sys_phase s) (state_bits s)" using inv by blast
  then have "\<forall>p. pc_future (pcs s t) = Some p \<longrightarrow> sys_phase s p \<noteq> None" by (auto simp: pc_safe_def)
  then have "\<forall>p. pc_future c = Some p \<longrightarrow> sys_phase r p \<noteq> None" using fut ph by auto
  then have "pc_safe c (sys_phase r) (state_bits r)" using safe same(2) by (auto simp: pc_safe_def)
  moreover have "meddles (holds_lock (pcs s t)) (pc_future (pcs s t)) (sys_phase s) (state_bits s)
      (sys_phase r) (state_bits r)" using med ph same(2) by (auto simp: meddles_def)
  moreover have "nobody_waits (sys_phase r) \<or> hw (state_bits r) \<and> \<not> sg (state_bits r)"
    using inv w ph same(2) by auto
  moreover have "bits_ok (state_bits r)" using inv same(2) by simp
  ultimately have "sys_ok r" using q lock acq fut by (intro sys_ok_step[OF ok pcs]) auto
  moreover have "settled r + weight c \<le> settled s + weight (pcs s t)"
  proof -
    have fin: "finite (dom (sys_phase s))" using inv by (auto simp: sys_phase_def dom_def)
    have "int (card {p. sys_phase r p = Some NOTIFIED}) + (if sys_phase s q = Some NOTIFIED then 1 else 0)
      = int (card {p. sys_phase s p = Some NOTIFIED}) + (if g = Some NOTIFIED then 1 else 0)"
    proof (cases "sys_phase s q = Some NOTIFIED")
      case True
      then show ?thesis using card_unnotify[OF fin True, of g] ph by (cases "g = Some NOTIFIED") (auto simp: fun_upd_idem)
    next
      case False
      then show ?thesis using card_notify[of "sys_phase s" q] card_same[of "sys_phase s" q g] fin False ph
        by (cases "g = Some NOTIFIED") auto
    qed
    with bal same(2) show ?thesis by (simp add: settled_def)
  qed
  ultimately show ?thesis using pcs same(1) by (auto simp: good_step_def)
qed

section \<open>Every step is good\<close>

lemma moves_simps [simp]:
  "pcs (goto t c s) = (pcs s)(t := c)" "heap (goto t c s) = heap s" "slow (goto t c s) = slow s"
  "state_bits (goto t c s) = state_bits s" "mutex (goto t c s) = mutex s" "set_calls (goto t c s) = set_calls s"
  "granted (goto t c s) = granted s"
  "pcs (unlock s) = pcs s" "heap (unlock s) = heap s" "slow (unlock s) = slow s" "mutex (unlock s) = None"
  "state_bits (unlock s) = state_bits s" "set_calls (unlock s) = set_calls s" "granted (unlock s) = granted s"
  "pcs (clear_has_waiters s) = pcs s" "heap (clear_has_waiters s) = heap s" "slow (clear_has_waiters s) = slow s"
  "mutex (clear_has_waiters s) = mutex s" "set_calls (clear_has_waiters s) = set_calls s"
  "granted (clear_has_waiters s) = granted s"
  "state_bits (clear_has_waiters s) = state_bits s AND NOT HAS_WAITERS"
  by (simp_all add: goto_def unlock_def clear_has_waiters_def)

lemma consume_simps [simp]:
  "pcs (fst (consume_signal s)) = pcs s" "heap (fst (consume_signal s)) = heap s"
  "slow (fst (consume_signal s)) = slow s" "mutex (fst (consume_signal s)) = mutex s"
  "set_calls (fst (consume_signal s)) = set_calls s"
  "state_bits (fst (consume_signal s)) = state_bits s AND NOT SIGNALED"
  "granted (fst (consume_signal s)) = granted s + (if sg (state_bits s) then 1 else 0)"
  "snd (consume_signal s) = sg (state_bits s)"
  by (simp_all add: consume_signal_def grant_def Let_def)

text \<open>The threads that wait for the mutex.\<close>

fun wants_lock :: "'w pc \<Rightarrow> bool" where
  "wants_lock SetLock = True" | "wants_lock (PollLock p w) = True" | "wants_lock (DropLock p) = True"
| "wants_lock c = False"

definition advances :: "bool \<Rightarrow> thread \<Rightarrow> 'w auto_sys \<Rightarrow> bool" where
  "advances debug t s = (\<exists>s'. thread_step debug t s = Some s' \<and> good_step t s s')"

lemma advancesI: "thread_step debug t s = Some s' \<Longrightarrow> good_step t s s' \<Longrightarrow> advances debug t s"
  by (auto simp: advances_def)

lemmas step_defs = thread_step_def set_step_def poll_step_def drop_step_def

lemma sys_ok_own:
  assumes "sys_ok s"
  shows "bits_ok (state_bits s)" "queue_ok (heap s) (slow s)"
    "nobody_waits (sys_phase s) \<or> hw (state_bits s) \<and> \<not> sg (state_bits s)"
    "pc_knows (pcs s t) (sys_phase s) (state_bits s)"
    "holds_lock (pcs s t) = (mutex s = Some t)"
    "\<And>p. pc_future (pcs s t) = Some p \<Longrightarrow> \<exists>f. sys_phase s p = Some f"
  using assms by (auto simp: sys_ok_def pc_safe_def)

lemma advance_set:
  assumes ok: "sys_ok s" and pc: "pcs s t \<in> {SetCas, SetLoad, SetStore} \<or> pcs s t = SetLock \<and> mutex s = None
    \<or> (\<exists>w. pcs s t = SetClear w) \<or> (\<exists>v. pcs s t = SetUnlock v)"
  shows "advances debug t s"
proof -
  note own = sys_ok_own[OF ok] and k = sys_ok_own(4,5)[OF ok, of t] and bo = bits_ops[OF sys_ok_own(1)[OF ok]]
  note defs = step_defs acquire_def
  consider "pcs s t = SetCas" | "pcs s t = SetLoad" | "pcs s t = SetStore" | "pcs s t = SetLock" "mutex s = None"
    | w where "pcs s t = SetClear w" | v where "pcs s t = SetUnlock v" using pc by auto
  then show ?thesis
  proof cases
    case 1
    show ?thesis
    proof (cases "state_bits s = AUTO_IDLE")
      case True
      then show ?thesis using 1 own(3) bo(10)
        by (intro advancesI, simp add: defs, intro bits_step[OF ok], simp) (simp_all split: if_splits)
    next
      case False
      then show ?thesis using 1 own(1,3)
        by (intro advancesI, simp add: defs, intro bits_step[OF ok], simp) (simp_all split: if_splits)
    qed
  next
    case 2
    then show ?thesis using own(1,3)
      by (intro advancesI, simp add: defs, intro bits_step[OF ok], simp) (simp_all split: if_splits)
  next
    case 3
    then show ?thesis using own(1,3) k
      by (intro advancesI, simp add: defs, intro bits_step[OF ok], simp) (simp_all split: if_splits)
  next
    case 4
    then show ?thesis using own(1,3) k
      by (intro advancesI, simp add: defs, intro bits_step[OF ok], simp) (simp_all split: if_splits)
  next
    case 5
    then show ?thesis using own(1,3) k bo
      by (intro advancesI, simp add: defs, intro bits_step[OF ok], simp) (simp_all split: if_splits)
  next
    case 6
    then show ?thesis using own(1,3) k
      by (intro advancesI, simp add: defs, intro bits_step[OF ok], simp) (simp_all split: if_splits)
  qed
qed

lemma advance_poll:
  assumes ok: "sys_ok s" and pc: "pcs s t = TryWait \<or> pcs s t = PollTry1 p w \<or> pcs s t = PollTry2 p w
    \<or> pcs s t = PollOr p w \<or> pcs s t = PollTry3 p w \<or> pcs s t = PollClear p \<or> pcs s t = PollUnlock p
    \<or> pcs s t = PollLock p w \<and> mutex s = None"
  shows "advances debug t s"
proof -
  note own = sys_ok_own[OF ok] and k = sys_ok_own(4,5)[OF ok, of t] and bo = bits_ops[OF sys_ok_own(1)[OF ok]]
  note defs = step_defs acquire_def split_beta
  consider "pcs s t = TryWait" | "pcs s t = PollTry1 p w" | "pcs s t = PollTry2 p w" | "pcs s t = PollOr p w"
    | "pcs s t = PollTry3 p w" | "pcs s t = PollClear p" | "pcs s t = PollUnlock p"
    | "pcs s t = PollLock p w" "mutex s = None" using pc by auto
  then show ?thesis
  proof cases
    case 1
    then show ?thesis using own(3) bo k
      by (intro advancesI, simp add: defs, intro bits_step[OF ok], simp) (auto split: if_splits)
  next
    case 2
    then show ?thesis using own(3) bo k
      by (intro advancesI, simp add: defs, intro bits_step[OF ok], simp) (auto split: if_splits)
  next
    case 3
    then show ?thesis using own(3) bo k
      by (intro advancesI, simp add: defs, intro bits_step[OF ok], simp) (auto split: if_splits)
  next
    case 4
    then show ?thesis using own(3) bo k
      by (intro advancesI, simp add: defs, intro bits_step[OF ok], simp) (auto split: if_splits)
  next
    case 5
    then show ?thesis using own(3) bo k
      by (intro advancesI, simp add: defs, intro bits_step[OF ok], simp) (auto split: if_splits)
  next
    case 6
    then show ?thesis using own(3) bo k
      by (intro advancesI, simp add: defs, intro bits_step[OF ok], simp) (auto split: if_splits)
  next
    case 7
    then show ?thesis using own(1,3) k
      by (intro advancesI, simp add: defs, intro bits_step[OF ok], simp) (auto split: if_splits)
  next
    case 8
    then show ?thesis using own(1,3) k
      by (intro advancesI, simp add: defs, intro bits_step[OF ok], simp) (auto split: if_splits)
  qed
qed

lemma release_simps [simp]:
  "pcs (release_future p s) = pcs s" "slow (release_future p s) = slow s" "mutex (release_future p s) = mutex s"
  "state_bits (release_future p s) = state_bits s" "set_calls (release_future p s) = set_calls s"
  "granted (release_future p s) = granted s" "heap (release_future p s) = (heap s)(p := None)"
  by (simp_all add: release_future_def)

lemma sys_phase_upd [simp]:
  "sys_phase (goto t c s) = sys_phase s" "sys_phase (unlock s) = sys_phase s"
  "sys_phase (s\<lparr>state_bits := b\<rparr>) = sys_phase s" "sys_phase (s\<lparr>mutex := m\<rparr>) = sys_phase s"
  "sys_phase (s\<lparr>woken := ws\<rparr>) = sys_phase s" "sys_phase (s\<lparr>slow := u\<rparr>) = sys_phase s"
  "sys_phase (grant s) = sys_phase s"
  "sys_phase (s\<lparr>heap := h\<rparr>) = map_option phase \<circ> h"
  "sys_phase (release_future p s) = (sys_phase s)(p := None)"
  by (auto simp: sys_phase_def goto_def unlock_def grant_def release_future_def)

lemma grant_simps [simp]:
  "pcs (grant s) = pcs s" "heap (grant s) = heap s" "slow (grant s) = slow s" "mutex (grant s) = mutex s"
  "state_bits (grant s) = state_bits s" "set_calls (grant s) = set_calls s" "granted (grant s) = Suc (granted s)"
  by (simp_all add: grant_def)

lemma sys_phase_at: "sys_phase s p = Some f \<Longrightarrow> \<exists>a. heap s p = Some a \<and> phase a = f"
  by (auto simp: sys_phase_def)

lemma phase_upd: "map_option phase \<circ> (h(p \<mapsto> a)) = (map_option phase \<circ> h)(p \<mapsto> phase a)"
  by auto

lemma advance_take:
  assumes ok: "sys_ok s" and pc: "pcs s t = PollTake1 p w \<or> pcs s t = PollTake2 p w"
  shows "advances debug t s"
proof -
  note own = sys_ok_own[OF ok] and k = sys_ok_own(4,5)[OF ok, of t]
  obtain f where f: "sys_phase s p = Some f" using own(6)[of t p] pc by auto
  then obtain a where a: "heap s p = Some a" "phase a = f" using sys_phase_at by blast
  show ?thesis
  proof (cases "f = NOTIFIED")
    case True
    let ?h = "(heap s)(p \<mapsto> a\<lparr>phase := IDLE\<rparr>)"
    have take: "sys_take s p = Some (grant (s\<lparr>heap := ?h\<rparr>), True)"
      using a True by (simp add: sys_take_def take_notification_def)
    have ph: "map_option phase \<circ> ?h = (sys_phase s)(p := Some IDLE)" by (auto simp: sys_phase_def)
    have q: "queue_ok ?h (slow s)" using queue_ok_consume(1)[OF own(2) a(1)] a(2) True by simp
    from pc show ?thesis
    proof
      assume c: "pcs s t = PollTake1 p w"
      have "good_step t s (goto t Idle (grant (s\<lparr>heap := ?h\<rparr>)))"
        using c k q f True ph by (intro heap_step[OF ok, of _ _ Idle p "Some IDLE"]) (simp_all del: fun_upd_apply)
      then show ?thesis using c take by (intro advancesI) (simp_all add: step_defs)
    next
      assume c: "pcs s t = PollTake2 p w"
      have "good_step t s (goto t (PollUnlock p) (grant (s\<lparr>heap := ?h\<rparr>)))"
        using c k q f True ph
        by (intro heap_step[OF ok, of _ _ "PollUnlock p" p "Some IDLE"]) (simp_all del: fun_upd_apply)
      then show ?thesis using c take by (intro advancesI) (simp_all add: step_defs)
    qed
  next
    case False
    then have take: "sys_take s p = Some (s, False)"
      using a by (simp add: sys_take_def take_notification_def)
    from pc show ?thesis
    proof
      assume "pcs s t = PollTake1 p w"
      then show ?thesis using k take own(1,3)
        by (intro advancesI, simp add: step_defs, intro bits_step[OF ok], simp) (auto split: if_splits)
    next
      assume "pcs s t = PollTake2 p w"
      then show ?thesis using k take own(1,3) f False
        by (intro advancesI, simp add: step_defs, intro bits_step[OF ok], simp) (auto split: if_splits)
    qed
  qed
qed

lemma advance_register:
  assumes ok: "sys_ok s" and pc: "pcs s t = PollRegister p w"
  shows "advances debug t s"
proof -
  note own = sys_ok_own[OF ok] and k = sys_ok_own(4,5)[OF ok, of t]
  obtain f where f: "sys_phase s p = Some f" "f \<noteq> NOTIFIED" using own(6)[of t p] k(1) pc by auto
  obtain h ws where r: "set_register (heap s) (slow s) p w = Some (h, ws)" "queue_ok h ws"
    "map_option phase \<circ> h = (sys_phase s)(p \<mapsto> WAITING)"
    using sys_register_spec[OF own(2) f] by blast
  have "good_step t s (goto t (PollUnlock p) (s\<lparr>heap := h, slow := ws\<rparr>))"
    using pc k r f by (intro heap_step[OF ok, of _ _ "PollUnlock p" p "Some WAITING"]) (simp_all del: fun_upd_apply)
  then show ?thesis using pc r by (intro advancesI) (simp_all add: step_defs)
qed

lemma advance_notify:
  assumes ok: "sys_ok s" and pc: "pcs s t = SetNotify \<or> pcs s t = DropForward p"
  shows "advances debug t s"
proof -
  note own = sys_ok_own[OF ok] and k = sys_ok_own(4,5)[OF ok, of t]
  from own(2) show ?thesis
  proof (cases rule: sys_notify_spec[where debug = debug])
    case nobody
    from pc show ?thesis
    proof
      assume "pcs s t = SetNotify"
      then show ?thesis using k nobody own(1)
        by (intro advancesI, simp add: step_defs, intro bits_step[OF ok], simp) (auto split: if_splits)
    next
      assume "pcs s t = DropForward p"
      then show ?thesis using k nobody own(1)
        by (intro advancesI, simp add: step_defs, intro bits_step[OF ok], simp) (auto split: if_splits)
    qed
  next
    case (notified q h ws w)
    let ?r = "s\<lparr>heap := h, slow := ws\<rparr>"
    from pc show ?thesis
    proof
      assume c: "pcs s t = SetNotify"
      let ?c = "if set_is_empty ws then SetClear w else SetUnlock (Some w)"
      have "good_step t s (goto t ?c ?r)"
        using c k notified by (intro heap_step[OF ok, of _ _ ?c q "Some NOTIFIED"]) (simp_all del: fun_upd_apply)
      then show ?thesis using c notified(2) by (intro advancesI) (simp_all add: step_defs)
    next
      assume c: "pcs s t = DropForward p"
      let ?c = "if set_is_empty ws then DropForwardClear p w else DropForwardUnlock p (Some w)"
      have "((sys_phase s)(q \<mapsto> NOTIFIED)) p = Some NOTIFIED" using c k by simp
      then have "good_step t s (goto t ?c ?r)"
        using c k notified by (intro heap_step[OF ok, of _ _ ?c q "Some NOTIFIED"]) (auto simp del: fun_upd_apply)
      then show ?thesis using c notified(2) by (intro advancesI) (simp_all add: step_defs)
    qed
  qed
qed

lemma advance_unregister:
  assumes ok: "sys_ok s" and pc: "pcs s t = DropUnregister p"
  shows "advances debug t s"
proof -
  note own = sys_ok_own[OF ok] and k = sys_ok_own(4,5)[OF ok, of t]
  have w: "sys_phase s p = Some WAITING" using k(1) pc by simp
  from own(2) w show ?thesis
  proof (rule sys_unregister_spec)
    fix h ws
    assume r: "set_unregister (heap s) (slow s) p = Some (h, ws)" "queue_ok h ws"
      "map_option phase \<circ> h = (sys_phase s)(p \<mapsto> IDLE)" "set_is_empty ws = nobody_waits ((sys_phase s)(p \<mapsto> IDLE))"
    let ?c = "if set_is_empty ws then DropClear p else DropUnlock p"
    have "((sys_phase s)(p \<mapsto> IDLE)) p = Some IDLE" by simp
    then have "good_step t s (goto t ?c (s\<lparr>heap := h, slow := ws\<rparr>))"
      using pc k w r by (intro heap_step[OF ok, of _ _ ?c p "Some IDLE"]) (auto simp del: fun_upd_apply)
    then show ?thesis using pc r(1) by (intro advancesI) (simp_all add: step_defs)
  qed
qed

lemma advance_release:
  assumes ok: "sys_ok s" and pc: "pcs s t = DropUnlock p \<or> (\<exists>v. pcs s t = DropForwardUnlock p v)
    \<or> pcs s t = DropCheck p \<and> sys_phase s p = Some IDLE"
  shows "advances debug t s"
proof -
  note own = sys_ok_own[OF ok] and k = sys_ok_own(4,5)[OF ok, of t]
  have ph: "sys_phase s p = Some (if holds_lock (pcs s t) \<and> pcs s t \<noteq> DropUnlock p then NOTIFIED else IDLE)"
    using pc k(1) by auto
  then obtain a where a: "heap s p = Some a" "phase a \<noteq> WAITING" "phase a = NOTIFIED \<or> phase a = IDLE"
    using sys_phase_at[OF ph] by (auto split: if_splits)
  have q: "queue_ok ((heap s)(p := None)) (slow s)"
    using queue_ok_consume(2)[OF own(2) a(1,2), of awaiter_new] by (simp add: awaiter_new_def)
  consider "pcs s t = DropUnlock p" | v where "pcs s t = DropForwardUnlock p v"
    | "pcs s t = DropCheck p" "sys_phase s p = Some IDLE" using pc by auto
  then show ?thesis
  proof cases
    case 1
    have "good_step t s (goto t Idle (release_future p (unlock s)))"
      using 1 k q ph by (intro heap_step[OF ok, of _ _ Idle p None]) (simp_all del: fun_upd_apply)
    then show ?thesis using 1 by (intro advancesI) (simp_all add: step_defs)
  next
    case 2
    let ?s = "(unlock s)\<lparr>woken := woken s @ (case v of None \<Rightarrow> [] | Some w \<Rightarrow> [w])\<rparr>"
    have "good_step t s (goto t Idle (release_future p ?s))"
      using 2 k q ph by (intro heap_step[OF ok, of _ _ Idle p None]) (simp_all del: fun_upd_apply)
    then show ?thesis using 2 by (intro advancesI) (simp_all add: step_defs)
  next
    case 3
    have "good_step t s (goto t Idle (release_future p s))"
      using 3 k q ph by (intro heap_step[OF ok, of _ _ Idle p None]) (simp_all del: fun_upd_apply)
    moreover have "phase a = IDLE" using 3(2) a(1) by (simp add: sys_phase_def)
    ultimately show ?thesis using 3 a(1) by (intro advancesI) (simp_all add: step_defs is_registered_def)
  qed
qed

lemma advance_drop:
  assumes ok: "sys_ok s" and pc: "pcs s t = DropCheck p \<and> sys_phase s p \<noteq> Some IDLE
    \<or> pcs s t = DropLock p \<and> mutex s = None \<or> pcs s t = DropDecide p \<or> (\<exists>w. pcs s t = DropForwardClear p w)
    \<or> pcs s t = DropStore p \<or> pcs s t = DropClear p"
  shows "advances debug t s"
proof -
  note own = sys_ok_own[OF ok] and k = sys_ok_own(4,5)[OF ok, of t] and bo = bits_ops[OF sys_ok_own(1)[OF ok]]
  note defs = step_defs acquire_def is_registered_def is_notified_def
  obtain f where f: "sys_phase s p = Some f" using own(6)[of t p] pc by auto
  then obtain a where a: "heap s p = Some a" "phase a = f" using sys_phase_at by blast
  consider "pcs s t = DropCheck p" "sys_phase s p \<noteq> Some IDLE" | "pcs s t = DropLock p" "mutex s = None"
    | "pcs s t = DropDecide p" | w where "pcs s t = DropForwardClear p w" | "pcs s t = DropStore p"
    | "pcs s t = DropClear p" using pc by auto
  then show ?thesis
  proof cases
    case 1
    then show ?thesis using own(1,3) k f a
      by (intro advancesI, simp add: defs, intro bits_step[OF ok], simp) (auto split: if_splits)
  next
    case 2
    then show ?thesis using own(1,3) k f a
      by (intro advancesI, simp add: defs, intro bits_step[OF ok], simp) (auto split: if_splits)
  next
    case 3
    then show ?thesis using own(1,3) k f a
      by (cases f; intro advancesI, simp add: defs, intro bits_step[OF ok], simp) (auto split: if_splits)
  next
    case 4
    then show ?thesis using own(1,3) k f a bo
      by (intro advancesI, simp add: defs, intro bits_step[OF ok], simp) (auto split: if_splits)
  next
    case 5
    then show ?thesis using own(1,3) k f a bo
      by (intro advancesI, simp add: defs, intro bits_step[OF ok], simp) (auto split: if_splits)
  next
    case 6
    then show ?thesis using own(1,3) k f a bo
      by (intro advancesI, simp add: defs, intro bits_step[OF ok], simp) (auto split: if_splits)
  qed
qed

lemma thread_advances:
  assumes ok: "sys_ok s" and busy: "pcs s t \<noteq> Idle" and free: "wants_lock (pcs s t) \<Longrightarrow> mutex s = None"
  shows "advances debug t s"
proof (cases "pcs s t")
  case (DropCheck p)
  then show ?thesis using advance_release[OF ok] advance_drop[OF ok] by (cases "sys_phase s p = Some IDLE") blast+
next
  case SetCas
  then show ?thesis using advance_set[OF ok, of t] by simp
next
  case SetLoad
  then show ?thesis using advance_set[OF ok, of t] by simp
next
  case SetLock
  then show ?thesis using advance_set[OF ok, of t] free by simp
next
  case SetNotify
  then show ?thesis using advance_notify[OF ok, of t] by simp
next
  case (SetClear w)
  then show ?thesis using advance_set[OF ok, of t] by simp
next
  case SetStore
  then show ?thesis using advance_set[OF ok, of t] by simp
next
  case (SetUnlock v)
  then show ?thesis using advance_set[OF ok, of t] by simp
next
  case TryWait
  then show ?thesis using advance_poll[OF ok, of t] by simp
next
  case (PollTry1 p w)
  then show ?thesis using advance_poll[OF ok, of t p w] by simp
next
  case (PollTake1 p w)
  then show ?thesis using advance_take[OF ok, of t p w] by simp
next
  case (PollLock p w)
  then show ?thesis using advance_poll[OF ok, of t p w] free by simp
next
  case (PollTake2 p w)
  then show ?thesis using advance_take[OF ok, of t p w] by simp
next
  case (PollTry2 p w)
  then show ?thesis using advance_poll[OF ok, of t p w] by simp
next
  case (PollOr p w)
  then show ?thesis using advance_poll[OF ok, of t p w] by simp
next
  case (PollTry3 p w)
  then show ?thesis using advance_poll[OF ok, of t p w] by simp
next
  case (PollClear p)
  then show ?thesis using advance_poll[OF ok, of t p] by simp
next
  case (PollRegister p w)
  then show ?thesis using advance_register[OF ok, of t p w] by simp
next
  case (PollUnlock p)
  then show ?thesis using advance_poll[OF ok, of t p] by simp
next
  case (DropLock p)
  then show ?thesis using advance_drop[OF ok, of t p] free by simp
next
  case (DropDecide p)
  then show ?thesis using advance_drop[OF ok, of t p] by simp
next
  case (DropForward p)
  then show ?thesis using advance_notify[OF ok, of t p] by simp
next
  case (DropForwardClear p w)
  then show ?thesis using advance_drop[OF ok, of t p] by simp
next
  case (DropStore p)
  then show ?thesis using advance_drop[OF ok, of t p] by simp
next
  case (DropForwardUnlock p v)
  then show ?thesis using advance_release[OF ok, of t p] by simp
next
  case (DropUnregister p)
  then show ?thesis using advance_unregister[OF ok, of t p] by simp
next
  case (DropClear p)
  then show ?thesis using advance_drop[OF ok, of t p] by simp
next
  case (DropUnlock p)
  then show ?thesis using advance_release[OF ok, of t p] by simp
qed (use busy in simp)

section \<open>Reachable states\<close>

definition accounted :: "'w auto_sys \<Rightarrow> bool" where
  "accounted s = (settled s + carried s \<le> int (set_calls s))"

lemma sys_ok_call:
  assumes ok: "sys_ok s" and idle: "pcs s t = Idle" and c: "\<not> holds_lock c" "pc_knows c (sys_phase s) (state_bits s)"
    and fut: "\<And>p. pc_future c = Some p \<Longrightarrow> p \<in> dom (heap s) \<and> (\<forall>u. pc_future (pcs s u) \<noteq> Some p)"
    and r: "pcs r = (pcs s)(t := c)" "heap r = heap s" "slow r = slow s" "state_bits r = state_bits s"
      "mutex r = mutex s"
  shows "sys_ok r"
proof -
  have ph: "sys_phase r = sys_phase s" using r by (simp add: sys_phase_def)
  have "pc_safe c (sys_phase r) (state_bits r)"
    using c(2) fut ph r(4) by (auto simp: pc_safe_def sys_phase_def dom_def)
  moreover have "pc_future c = None \<or> (\<forall>u. pc_future (pcs s u) \<noteq> pc_future c)"
    using fut by (cases "pc_future c") auto
  ultimately show ?thesis
    using sys_ok_own(1-3)[OF ok] r c(1) ph idle by (intro sys_ok_step[OF ok r(1)]) (auto simp: meddles_def)
qed

lemma sys_ok_alloc:
  assumes ok: "sys_ok s" and p: "p \<noteq> 0" "heap s p = None"
  shows "sys_ok (s\<lparr>heap := (heap s)(p \<mapsto> awaiter_new)\<rparr>)"
proof -
  let ?r = "s\<lparr>heap := (heap s)(p \<mapsto> awaiter_new)\<rparr>"
  note inv = ok[unfolded sys_ok_def]
  have ph: "sys_phase ?r = (sys_phase s)(p \<mapsto> IDLE)" by (auto simp: sys_phase_def awaiter_new_def)
  have np: "sys_phase s p = None" using p(2) by (simp add: sys_phase_def)
  obtain qs where qs: "queue_repr (heap s) (slow s) qs" "\<And>q. (sys_phase s q = Some WAITING) = (q \<in> who ` set qs)"
    using queue_ok_phase[OF sys_ok_own(2)[OF ok]] by (auto simp: sys_phase_def)
  have "queue_ok (heap ?r) (slow ?r) \<and> set_is_empty (slow ?r) = nobody_waits (map_option phase \<circ> heap ?r)"
  proof (rule queue_okI)
    show "queue_repr (heap ?r) (slow ?r) qs" using queue_repr_alloc[OF qs(1) p(2,1)] by simp
    show "q \<in> who ` set qs" if "(map_option phase \<circ> heap ?r) q = Some WAITING" for q
      using that qs(2) unfolding sys_phase_def[of ?r, symmetric] ph by (auto split: if_splits)
  qed
  moreover have "pc_safe (pcs s t) (sys_phase ?r) (state_bits s)" for t
  proof (rule pc_safe_frame[of _ "sys_phase s" "state_bits s" False "Some p"])
    show safe: "pc_safe (pcs s t) (sys_phase s) (state_bits s)" using inv by blast
    show "Some p \<noteq> Some q" if "pc_future (pcs s t) = Some q" for q
      using safe that np by (auto simp: pc_safe_def)
  qed (unfold ph, auto simp: meddles_def)
  moreover have "nobody_waits (sys_phase ?r) \<or> hw (state_bits s) \<and> \<not> sg (state_bits s)" using inv ph by auto
  ultimately show ?thesis using inv by (auto simp: sys_ok_def)
qed

lemma thread_step_enabled:
  assumes "thread_step debug t s = Some s'"
  shows "pcs s t \<noteq> Idle" and "wants_lock (pcs s t) \<Longrightarrow> mutex s = None"
proof -
  show "pcs s t \<noteq> Idle" using assms by (auto simp: step_defs)
  show "mutex s = None" if w: "wants_lock (pcs s t)"
  proof (rule ccontr)
    assume "mutex s \<noteq> None"
    with w have "thread_step debug t s = None" by (cases "pcs s t") (simp_all add: step_defs acquire_def)
    with assms show False by simp
  qed
qed

lemma sys_step_ok:
  assumes "sys_step debug s s'" and "sys_ok s" and "accounted s"
  shows "sys_ok s' \<and> accounted s'"
  using assms
proof (induction rule: sys_step.induct)
  case (call_set s t)
  let ?r = "(goto t SetCas s)\<lparr>set_calls := Suc (set_calls s)\<rparr>"
  have "sys_ok ?r" by (rule sys_ok_call[of s t SetCas]) (use call_set in auto)
  moreover have "finite {u. pcs s u \<noteq> Idle}" using call_set.prems(1) by (simp add: sys_ok_def)
  then have "carried ?r + weight (pcs s t) = carried s + weight (SetCas :: 'a pc)" by (intro carried_step) simp_all
  moreover have "settled ?r = settled s" by (simp add: settled_def sys_phase_def goto_def)
  ultimately show ?case using call_set by (simp add: accounted_def)
next
  case (call_try_wait s t)
  have "sys_ok (goto t TryWait s)" by (rule sys_ok_call[of s t TryWait]) (use call_try_wait in auto)
  moreover have "finite {u. pcs s u \<noteq> Idle}" using call_try_wait.prems(1) by (simp add: sys_ok_def)
  then have "carried (goto t TryWait s) + weight (pcs s t) = carried s + weight (TryWait :: 'a pc)"
    by (intro carried_step) simp_all
  ultimately show ?case using call_try_wait by (simp add: accounted_def settled_def)
next
  case (call_wait p s)
  let ?r = "s\<lparr>heap := (heap s)(p \<mapsto> awaiter_new)\<rparr>"
  have "sys_phase ?r = (sys_phase s)(p \<mapsto> IDLE)" "sys_phase s p = None"
    using call_wait(2) by (auto simp: sys_phase_def awaiter_new_def)
  then have "settled ?r = settled s" using card_same[of "sys_phase s" p "Some IDLE"] by (simp add: settled_def)
  moreover have "carried ?r = carried s" by (simp add: carried_def)
  ultimately show ?case using call_wait sys_ok_alloc[of s p] by (simp add: accounted_def)
next
  case (call_poll s t p w)
  have "sys_ok (goto t (PollTry1 p w) s)" by (rule sys_ok_call[of s t "PollTry1 p w"]) (use call_poll in auto)
  moreover have "finite {u. pcs s u \<noteq> Idle}" using call_poll.prems(1) by (simp add: sys_ok_def)
  then have "carried (goto t (PollTry1 p w) s) + weight (pcs s t) = carried s + weight (PollTry1 p w)"
    by (intro carried_step) simp_all
  ultimately show ?case using call_poll by (simp add: accounted_def settled_def)
next
  case (call_drop s t p)
  have "sys_ok (goto t (DropCheck p) s)" by (rule sys_ok_call[of s t "DropCheck p"]) (use call_drop in auto)
  moreover have "finite {u. pcs s u \<noteq> Idle}" using call_drop.prems(1) by (simp add: sys_ok_def)
  then have "carried (goto t (DropCheck p) s) + weight (pcs s t) = carried s + weight (DropCheck p :: 'a pc)"
    by (intro carried_step) simp_all
  ultimately show ?case using call_drop by (simp add: accounted_def settled_def)
next
  case (thread_runs t s s')
  have busy: "pcs s t \<noteq> Idle" and free: "wants_lock (pcs s t) \<Longrightarrow> mutex s = None"
    using thread_step_enabled[OF thread_runs.hyps] by blast+
  then have g: "good_step t s s'"
    using thread_advances[OF thread_runs.prems(1), of t debug] thread_runs.hyps by (auto simp: advances_def)
  then obtain c where c: "pcs s' = (pcs s)(t := c)" "settled s' + weight c \<le> settled s + weight (pcs s t)"
    "set_calls s' = set_calls s" by (auto simp: good_step_def)
  have "finite {u. pcs s u \<noteq> Idle}" using thread_runs.prems(1) by (simp add: sys_ok_def)
  from carried_step[OF this c(1)] c(2,3) g thread_runs.prems show ?case by (auto simp: good_step_def accounted_def)
qed

lemma reachable_ok: "reachable debug s \<Longrightarrow> sys_ok s \<and> accounted s"
proof (induction rule: reachable.induct)
  case (fresh n)
  have "queue_repr Map.empty (awaiter_set_new n) ([] :: 'a waiter list)" using fresh by (intro queue_repr_new) auto
  then have "sys_ok (auto_sys_new n :: 'a auto_sys)"
    by (auto simp: sys_ok_def auto_sys_new_def queue_ok_def pc_safe_def sys_phase_def)
  then show ?case by (simp add: accounted_def settled_def carried_def auto_sys_new_def sys_phase_def)
qed (use sys_step_ok in blast)

section \<open>Properties\<close>

text \<open>A thread that runs alone, for at most \<open>n\<close> steps or until its call returns.\<close>

fun run_thread :: "bool \<Rightarrow> thread \<Rightarrow> nat \<Rightarrow> 'w auto_sys \<Rightarrow> 'w auto_sys option" where
  "run_thread debug t 0 s = Some s"
| "run_thread debug t (Suc n) s = (if pcs s t = Idle then Some s else thread_step debug t s \<bind> run_thread debug t n)"

lemma run_thread_reachable: "reachable debug s \<Longrightarrow> run_thread debug t n s = Some s' \<Longrightarrow> reachable debug s'"
proof (induction n arbitrary: s)
  case (Suc n)
  then show ?case by (auto simp: bind_eq_Some_iff split: if_splits dest: reachable.onward[OF _ sys_step.thread_runs])
qed simp

text \<open>A first future polled by thread 1 on a new event: it registers.\<close>

definition demo_polled :: "nat auto_sys" where
  "demo_polled = (goto 1 (PollTry1 8 100) ((auto_sys_new 1)\<lparr>heap := [8 \<mapsto> awaiter_new]\<rparr>))"

lemma demo_polled_reachable: "reachable debug demo_polled"
proof -
  have "reachable debug (auto_sys_new 1 :: nat auto_sys)" by (intro reachable.fresh) simp
  then have "reachable debug ((auto_sys_new 1 :: nat auto_sys)\<lparr>heap := (heap (auto_sys_new 1))(8 \<mapsto> awaiter_new)\<rparr>)"
    by (intro reachable.onward[OF _ sys_step.call_wait]) (simp_all add: auto_sys_new_def)
  then have "reachable debug ((auto_sys_new 1 :: nat auto_sys)\<lparr>heap := [8 \<mapsto> awaiter_new]\<rparr>)"
    by (simp add: auto_sys_new_def)
  then show ?thesis unfolding demo_polled_def
    by (intro reachable.onward[OF _ sys_step.call_poll]) (simp_all add: auto_sys_new_def)
qed

lemmas auto_sys_eval = auto_sys_new_def AUTO_IDLE_def SIGNALED_def HAS_WAITERS_def awaiter_new_def awaiter_set_new_def
  step_defs acquire_def consume_signal_def grant_def goto_def unlock_def clear_has_waiters_def sys_take_def
  take_notification_def set_register_def sys_notify_def set_notify_one_def pick_one_def set_remove_def
  set_unlink_def debug_assert_owns_def set_is_empty_def Let_def

lemma demo_polled_runs:
  "\<exists>s. run_thread True 1 9 demo_polled = Some s \<and> pcs s 1 = Idle \<and> mutex s = None \<and> pcs s 2 = Idle
     \<and> state_bits s = HAS_WAITERS \<and> (\<exists>a. heap s 8 = Some a \<and> phase a = WAITING)"
  by (simp add: demo_polled_def auto_sys_eval numeral_nat)

text \<open>C2: In every reachable state of the concurrent auto-reset event, under any interleaving of calls:
  when \<open>HAS_WAITERS\<close> is clear the awaiter set is empty; the signal is never stored while a future is
  registered and waiting (no lost wake-up); no more waits got through than \<open>set\<close> was called.\<close>

theorem auto_event_sound:
  assumes "reachable debug s"
  shows "(state_bits s AND HAS_WAITERS = 0 \<longrightarrow> set_is_empty (slow s))
    \<and> (\<forall>p a. heap s p = Some a \<and> phase a = WAITING \<longrightarrow> state_bits s AND SIGNALED = 0)
    \<and> granted s \<le> set_calls s"
proof -
  have ok: "sys_ok s" and acc: "accounted s" using reachable_ok[OF assms] by auto
  note inv = ok[unfolded sys_ok_def]
  obtain qs where qs: "queue_repr (heap s) (slow s) qs" "\<And>q. (sys_phase s q = Some WAITING) = (q \<in> who ` set qs)"
    using queue_ok_phase[OF sys_ok_own(2)[OF ok]] by (auto simp: sys_phase_def)
  have "set_is_empty (slow s) = nobody_waits (sys_phase s)"
    using queue_repr_empty[OF qs(1)] qs(2) by (cases qs) (auto simp del: not_None_eq)
  moreover have "granted s \<le> set_calls s"
  proof -
    let ?B = "{t. pcs s t \<noteq> Idle}" and ?N = "{p. sys_phase s p = Some NOTIFIED}"
    let ?S = "{t \<in> ?B. weight (pcs s t) = -1}"
    have fin: "finite ?B" "finite ?N"
      using inv by (auto intro: finite_subset[of _ "dom (heap s)"] simp: sys_phase_def)
    have spent: "\<exists>p. pc_future c = Some p \<and> (pc_knows c f b \<longrightarrow> f p = Some NOTIFIED)"
      if "weight c = -1" for c :: "'a pc" and f b using that by (cases c) auto
    have "card ?S \<le> card ?N"
    proof (rule card_inj_on_le)
      let ?g = "\<lambda>t. the (pc_future (pcs s t))"
      have known: "\<exists>p. pc_future (pcs s t) = Some p \<and> sys_phase s p = Some NOTIFIED" if "t \<in> ?S" for t
        using that spent[of "pcs s t" "sys_phase s" "state_bits s"] sys_ok_own(4)[OF ok, of t] by auto
      show "inj_on ?g ?S"
      proof (rule inj_onI)
        fix t u assume tu: "t \<in> ?S" "u \<in> ?S" "?g t = ?g u"
        then obtain p where "pc_future (pcs s t) = Some p" "pc_future (pcs s u) = Some p"
          using known[of t] known[of u] by auto
        with inv show "t = u" by metis
      qed
      show "?g ` ?S \<subseteq> ?N" using known by fastforce
    qed (use fin in simp)
    moreover have "- int (card ?S) \<le> carried s"
    proof -
      have "(\<Sum>t \<in> ?B. if weight (pcs s t) = -1 then -1 else 0) \<le> carried s"
        unfolding carried_def
      proof (rule sum_mono)
        fix t
        show "(if weight (pcs s t) = -1 then -1 else 0) \<le> weight (pcs s t)" by (cases "pcs s t") auto
      qed
      moreover have "(\<Sum>t \<in> ?B. if weight (pcs s t) = -1 then -1 else (0::int)) = - int (card ?S)"
        using fin(1) by (simp add: sum.If_cases sum_negf Collect_conj_eq)
      ultimately show ?thesis by simp
    qed
    ultimately show ?thesis using acc by (simp add: accounted_def settled_def split: if_splits)
  qed
  moreover have "state_bits s AND SIGNALED = 0" if "heap s p = Some a \<and> phase a = WAITING" for p a
  proof -
    have "sys_phase s p = Some WAITING" using that by (simp add: sys_phase_def)
    with inv show ?thesis by blast
  qed
  ultimately show ?thesis using inv by blast
qed

theorem auto_event_sound_witness:
  "\<exists>s. run_thread True 1 9 demo_polled = Some s \<and> (\<exists>a. heap s 8 = Some a \<and> phase a = WAITING)
     \<and> state_bits s AND SIGNALED = 0 \<and> granted s \<le> set_calls s"
proof -
  obtain s where "run_thread True 1 9 demo_polled = Some s" "\<exists>a. heap s 8 = Some a \<and> phase a = WAITING"
    using demo_polled_runs by blast
  moreover from this have "reachable True s" using run_thread_reachable[OF demo_polled_reachable] by blast
  ultimately show ?thesis using auto_event_sound[of True s] by blast
qed

text \<open>C17: In every reachable state a thread inside a call can take its next step, or it waits for the mutex
  and the thread that holds the mutex can: no assertion of the awaiter set fails, no freed awaiter is
  read, nothing deadlocks. When no thread is inside the critical section, every thread can.\<close>

theorem auto_event_progress:
  assumes "reachable debug s" and "pcs s t \<noteq> Idle"
  shows "(\<exists>s'. thread_step debug t s = Some s')
    \<or> wants_lock (pcs s t) \<and> (\<exists>u s'. mutex s = Some u \<and> thread_step debug u s = Some s')"
proof (cases "wants_lock (pcs s t) \<and> mutex s \<noteq> None")
  case True
  have ok: "sys_ok s" using reachable_ok[OF assms(1)] by blast
  obtain u where u: "mutex s = Some u" using True by auto
  then have "holds_lock (pcs s u)" using sys_ok_own(5)[OF ok, of u] by simp
  then have "pcs s u \<noteq> Idle" "\<not> wants_lock (pcs s u)" by (cases "pcs s u"; simp)+
  then have "advances debug u s" using thread_advances[OF ok] by blast
  with True u show ?thesis by (auto simp: advances_def)
next
  case False
  then show ?thesis using thread_advances[of s t debug] reachable_ok[OF assms(1)] assms(2)
    by (auto simp: advances_def)
qed

theorem auto_event_progress_witness:
  "\<exists>s'. thread_step True 1 demo_polled = Some s'"
  using auto_event_progress[OF demo_polled_reachable, of 1 True] by (simp add: demo_polled_def)

text \<open>From any reachable state, a call of \<open>set\<close> that finds a waiting future and runs undisturbed
  notifies one such future, invokes its waker and leaves no signal behind, within seven steps.\<close>

theorem auto_set_wakes:
  assumes "reachable debug s" and "pcs s t = SetCas" and "mutex s = None"
    and "heap s p = Some a" and "phase a = WAITING"
  shows "\<exists>s' q w. run_thread debug t 7 s = Some s' \<and> pcs s' t = Idle \<and> mutex s' = None
    \<and> sys_phase s q = Some WAITING \<and> sys_phase s' = (sys_phase s)(q \<mapsto> NOTIFIED)
    \<and> woken s' = woken s @ [w] \<and> state_bits s' AND SIGNALED = 0 \<and> granted s' = granted s"
proof -
  have ok: "sys_ok s" using reachable_ok[OF assms(1)] by blast
  have wait: "sys_phase s p = Some WAITING" using assms(4,5) by (simp add: sys_phase_def)
  then have bits: "hw (state_bits s)" "\<not> sg (state_bits s)" using sys_ok_own(3)[OF ok] by auto
  then have ni: "state_bits s \<noteq> AUTO_IDLE" by auto
  let ?s3 = "goto t SetNotify ((goto t SetLock (goto t SetLoad s))\<lparr>mutex := Some t\<rparr>)"
  have three: "run_thread debug t (Suc (Suc (Suc n))) s = run_thread debug t n ?s3" for n
    using assms(2,3) bits ni by (simp add: step_defs acquire_def)
  have q3: "queue_ok (heap ?s3) (slow ?s3)" using sys_ok_own(2)[OF ok] by simp
  from q3 show ?thesis
  proof (cases rule: sys_notify_spec[where debug = debug])
    case (notified q h ws w)
    let ?s4 = "?s3\<lparr>heap := h, slow := ws\<rparr>"
    have four: "run_thread debug t (Suc n) ?s3 =
        run_thread debug t n (goto t (if set_is_empty ws then SetClear w else SetUnlock (Some w)) ?s4)" for n
      using notified(2) by (simp add: step_defs)
    show ?thesis
    using notified(1,4) three[of 4] four[of 3] bits(2) bits_ops(5)[OF sys_ok_own(1)[OF ok]]
    by (intro exI[of _ "the (run_thread debug t 7 s)"] exI[of _ q] exI[of _ w])
      (simp add: step_defs numeral_nat goto_def unlock_def clear_has_waiters_def sys_phase_def)
  qed (use wait in simp)
qed

theorem auto_set_wakes_witness:
  "\<exists>s s'. run_thread True 1 9 demo_polled = Some s
     \<and> run_thread True 2 7 ((goto 2 SetCas s)\<lparr>set_calls := Suc (set_calls s)\<rparr>) = Some s'
     \<and> length (woken s') = Suc (length (woken s))"
proof -
  obtain s a where s: "run_thread True 1 9 demo_polled = Some s" "pcs s 2 = Idle" "mutex s = None"
    "heap s 8 = Some a" "phase a = WAITING" using demo_polled_runs by blast
  have r: "reachable True s" using run_thread_reachable[OF demo_polled_reachable s(1)] .
  let ?s = "(goto 2 SetCas s)\<lparr>set_calls := Suc (set_calls s)\<rparr>"
  have "reachable True ?s" using reachable.onward[OF r sys_step.call_set[of s 2]] s(2) by simp
  then obtain s' w where s': "run_thread True 2 7 ?s = Some s'" "woken s' = woken ?s @ [w]"
    using auto_set_wakes[of True ?s 2 8 a] s by auto
  have "woken ?s = woken s" by (simp add: goto_def)
  with s' s(1) show ?thesis by (intro exI[of _ s] exI[of _ s']) simp
qed

end
