(* ===== verification/ManualReset.thy ===== *)
theory ManualReset
  imports AwaiterQueues
begin

text \<open>
  Package \<open>events\<close>, \<open>manual.rs\<close>: the thread-safe manual-reset event as a transition system, in the
  style of \<open>AutoReset\<close>: a step is one atomic operation on the state word, on a lifecycle field or on
  the mutex, or one action on the awaiter set under the mutex; memory is sequentially consistent.

  The source claims that a clear \<open>HAS_WAITERS\<close> means an empty awaiter set. That is not an invariant:
  a poll that loses the race against \<open>set\<close> clears the bit although other futures are registered. What
  does hold, and is proved here, is that then a call of \<open>set\<close> is under way that will notify them.

  Wakers are values here. Those \<open>poll_wait\<close> replaces and \<open>drop_wait\<close> takes out are dropped under the
  mutex without effect on the event, and an invoked waker returns: a waker that unwinds out of the
  drain loop of \<open>set\<close> would leave the waiters after it registered until the next \<open>set\<close>; that is not
  modelled.
\<close>

section \<open>Model\<close>

definition MANUAL_IDLE :: "8 word" where "MANUAL_IDLE = 0"
definition IS_SET :: "8 word" where "IS_SET = 1"
definition MANUAL_HAS_WAITERS :: "8 word" where "MANUAL_HAS_WAITERS = 2"

text \<open>Where a thread is in \<open>set\<close>, \<open>reset\<close>, \<open>try_wait\<close>, \<open>poll_wait\<close> or \<open>drop_wait\<close>.\<close>

datatype 'w mpc =
    MIdle
  | MSetOr | MAdvLock | MAdv | MAdvUnlock | MLoop | MNotify | MClear "'w option" | MUnlock "'w option"
  | MReset | MTryWait
  | MPoll1 ptr 'w | MTake1 ptr 'w | MPollLock ptr 'w | MTake2 ptr 'w | MPoll2 ptr 'w | MOr ptr 'w
  | MPoll3 ptr 'w | MPollClear ptr | MRegister ptr 'w | MPollUnlock ptr
  | MDropCheck ptr | MDropLock ptr | MUnregister ptr | MDropClear ptr | MDropUnlock ptr

text \<open>\<open>advances\<close> counts the generations, \<open>passed\<close> the waits that got through, \<open>m_woken\<close> records the
  wakers invoked.\<close>

record 'w manual_sys =
  m_bits :: "8 word"
  m_heap :: "'w awaiter_heap"
  m_slow :: awaiter_set
  m_mutex :: "nat option"
  m_pcs :: "nat \<Rightarrow> 'w mpc"
  advances_made :: nat
  passed :: nat
  m_woken :: "'w list"

definition manual_sys_new :: "nat \<Rightarrow> 'w manual_sys" where
  "manual_sys_new n = \<lparr>m_bits = MANUAL_IDLE, m_heap = Map.empty, m_slow = awaiter_set_new n, m_mutex = None,
     m_pcs = (\<lambda>t. MIdle), advances_made = 0, passed = 0, m_woken = []\<rparr>"

definition mgoto :: "nat \<Rightarrow> 'w mpc \<Rightarrow> 'w manual_sys \<Rightarrow> 'w manual_sys" where
  "mgoto t c s = s\<lparr>m_pcs := (m_pcs s)(t := c)\<rparr>"

definition m_unlock :: "'w manual_sys \<Rightarrow> 'w manual_sys" where
  "m_unlock s = s\<lparr>m_mutex := None\<rparr>"

definition m_acquire :: "nat \<Rightarrow> 'w manual_sys \<Rightarrow> 'w manual_sys option" where
  "m_acquire t s = (if m_mutex s = None then Some (s\<lparr>m_mutex := Some t\<rparr>) else None)"

definition m_clear :: "'w manual_sys \<Rightarrow> 'w manual_sys" where
  "m_clear s = s\<lparr>m_bits := m_bits s AND NOT MANUAL_HAS_WAITERS\<rparr>"

definition m_is_set :: "'w manual_sys \<Rightarrow> bool" where
  "m_is_set s = (m_bits s AND IS_SET \<noteq> 0)"

text \<open>Counts a wait that returned \<open>Ready\<close>.\<close>

definition m_pass :: "'w manual_sys \<Rightarrow> 'w manual_sys" where
  "m_pass s = s\<lparr>passed := Suc (passed s)\<rparr>"

definition m_set_step :: "nat \<Rightarrow> 'w manual_sys \<Rightarrow> 'w manual_sys option" where
  "m_set_step t s =
     (case m_pcs s t of
        MSetOr \<Rightarrow> Some (mgoto t (if m_bits s AND MANUAL_HAS_WAITERS = 0 then MIdle else MAdvLock)
                       (s\<lparr>m_bits := m_bits s OR IS_SET\<rparr>))
      | MAdvLock \<Rightarrow> map_option (mgoto t MAdv) (m_acquire t s)
      | MAdv \<Rightarrow> Some (mgoto t MAdvUnlock (s\<lparr>m_slow := advance_generation (m_slow s), advances_made := Suc (advances_made s)\<rparr>))
      | MAdvUnlock \<Rightarrow> Some (mgoto t MLoop (m_unlock s))
      | MLoop \<Rightarrow> map_option (mgoto t MNotify) (m_acquire t s)
      | MNotify \<Rightarrow> do {
          (h, ws, w) \<leftarrow> set_notify_prior (m_heap s) (m_slow s);
          Some (mgoto t (if set_is_empty ws then MClear w else MUnlock w) (s\<lparr>m_heap := h, m_slow := ws\<rparr>))
        }
      | MClear w \<Rightarrow> Some (mgoto t (MUnlock w) (m_clear s))
      | MUnlock w \<Rightarrow> Some (case w of
            None \<Rightarrow> mgoto t MIdle (m_unlock s)
          | Some w \<Rightarrow> mgoto t MLoop ((m_unlock s)\<lparr>m_woken := m_woken s @ [w]\<rparr>))
      | MReset \<Rightarrow> Some (mgoto t MIdle (s\<lparr>m_bits := m_bits s AND NOT IS_SET\<rparr>))
      | _ \<Rightarrow> None)"

definition m_take :: "'w manual_sys \<Rightarrow> ptr \<Rightarrow> ('w manual_sys \<times> bool) option" where
  "m_take s p = do {
     (h, taken) \<leftarrow> take_notification (m_heap s) p;
     Some (if taken then m_pass (s\<lparr>m_heap := h\<rparr>) else s\<lparr>m_heap := h\<rparr>, taken)
   }"

definition m_poll_step :: "nat \<Rightarrow> 'w manual_sys \<Rightarrow> 'w manual_sys option" where
  "m_poll_step t s =
     (case m_pcs s t of
        MTryWait \<Rightarrow> Some (mgoto t MIdle (if m_is_set s then m_pass s else s))
      | MPoll1 p w \<Rightarrow> Some (if m_is_set s then mgoto t MIdle (m_pass s) else mgoto t (MTake1 p w) s)
      | MTake1 p w \<Rightarrow> do { (s, b) \<leftarrow> m_take s p; Some (mgoto t (if b then MIdle else MPollLock p w) s) }
      | MPollLock p w \<Rightarrow> map_option (mgoto t (MTake2 p w)) (m_acquire t s)
      | MTake2 p w \<Rightarrow> do { (s, b) \<leftarrow> m_take s p; Some (mgoto t (if b then MPollUnlock p else MPoll2 p w) s) }
      | MPoll2 p w \<Rightarrow> Some (if m_is_set s then mgoto t (MPollUnlock p) (m_pass s) else mgoto t (MOr p w) s)
      | MOr p w \<Rightarrow> Some (mgoto t (MPoll3 p w) (s\<lparr>m_bits := m_bits s OR MANUAL_HAS_WAITERS\<rparr>))
      | MPoll3 p w \<Rightarrow> Some (if m_is_set s then mgoto t (MPollClear p) (m_pass s) else mgoto t (MRegister p w) s)
      | MPollClear p \<Rightarrow> Some (mgoto t (MPollUnlock p) (m_clear s))
      | MRegister p w \<Rightarrow> do {
          (h, ws) \<leftarrow> set_register (m_heap s) (m_slow s) p w;
          Some (mgoto t (MPollUnlock p) (s\<lparr>m_heap := h, m_slow := ws\<rparr>))
        }
      | MPollUnlock p \<Rightarrow> Some (mgoto t MIdle (m_unlock s))
      | _ \<Rightarrow> None)"

definition m_release :: "ptr \<Rightarrow> 'w manual_sys \<Rightarrow> 'w manual_sys" where
  "m_release p s = s\<lparr>m_heap := (m_heap s)(p := None)\<rparr>"

definition m_drop_step :: "nat \<Rightarrow> 'w manual_sys \<Rightarrow> 'w manual_sys option" where
  "m_drop_step t s =
     (case m_pcs s t of
        MDropCheck p \<Rightarrow> do {
          a \<leftarrow> m_heap s p;
          Some (if is_registered a then mgoto t (MDropLock p) s else mgoto t MIdle (m_release p s))
        }
      | MDropLock p \<Rightarrow> map_option (mgoto t (MUnregister p)) (m_acquire t s)
      | MUnregister p \<Rightarrow> do {
          (h, ws) \<leftarrow> set_unregister (m_heap s) (m_slow s) p;
          Some (mgoto t (if set_is_empty ws then MDropClear p else MDropUnlock p) (s\<lparr>m_heap := h, m_slow := ws\<rparr>))
        }
      | MDropClear p \<Rightarrow> Some (mgoto t (MDropUnlock p) (m_clear s))
      | MDropUnlock p \<Rightarrow> Some (mgoto t MIdle (m_release p (m_unlock s)))
      | _ \<Rightarrow> None)"

definition m_step :: "nat \<Rightarrow> 'w manual_sys \<Rightarrow> 'w manual_sys option" where
  "m_step t s =
     (case m_set_step t s of
        Some s' \<Rightarrow> Some s'
      | None \<Rightarrow> (case m_poll_step t s of Some s' \<Rightarrow> Some s' | None \<Rightarrow> m_drop_step t s))"

fun m_future :: "'w mpc \<Rightarrow> ptr option" where
  "m_future (MPoll1 p w) = Some p" | "m_future (MTake1 p w) = Some p" | "m_future (MPollLock p w) = Some p"
| "m_future (MTake2 p w) = Some p" | "m_future (MPoll2 p w) = Some p" | "m_future (MOr p w) = Some p"
| "m_future (MPoll3 p w) = Some p" | "m_future (MPollClear p) = Some p" | "m_future (MRegister p w) = Some p"
| "m_future (MPollUnlock p) = Some p" | "m_future (MDropCheck p) = Some p" | "m_future (MDropLock p) = Some p"
| "m_future (MUnregister p) = Some p" | "m_future (MDropClear p) = Some p" | "m_future (MDropUnlock p) = Some p"
| "m_future c = None"

text \<open>An idle thread calls an operation, or some thread takes its next step; a future is polled or
  dropped by one task at a time.\<close>

inductive manual_step :: "'w manual_sys \<Rightarrow> 'w manual_sys \<Rightarrow> bool" where
  m_call: "m_pcs s t = MIdle \<Longrightarrow> c \<in> {MSetOr, MReset, MTryWait} \<Longrightarrow> manual_step s (mgoto t c s)"
| m_call_wait: "p \<noteq> 0 \<Longrightarrow> m_heap s p = None \<Longrightarrow> manual_step s (s\<lparr>m_heap := (m_heap s)(p \<mapsto> awaiter_new)\<rparr>)"
| m_call_poll: "m_pcs s t = MIdle \<Longrightarrow> p \<in> dom (m_heap s) \<Longrightarrow> \<forall>u. m_future (m_pcs s u) \<noteq> Some p \<Longrightarrow>
    manual_step s (mgoto t (MPoll1 p w) s)"
| m_call_drop: "m_pcs s t = MIdle \<Longrightarrow> p \<in> dom (m_heap s) \<Longrightarrow> \<forall>u. m_future (m_pcs s u) \<noteq> Some p \<Longrightarrow>
    manual_step s (mgoto t (MDropCheck p) s)"
| m_runs: "m_step t s = Some s' \<Longrightarrow> manual_step s s'"

inductive manual_reachable :: "'w manual_sys \<Rightarrow> bool" where
  m_fresh: "0 < n \<Longrightarrow> manual_reachable (manual_sys_new n)"
| m_onward: "manual_reachable s \<Longrightarrow> manual_step s s' \<Longrightarrow> manual_reachable s'"

section \<open>Invariant\<close>

abbreviation gate :: "8 word \<Rightarrow> bool" where "gate b \<equiv> b AND IS_SET \<noteq> 0"
abbreviation mhw :: "8 word \<Rightarrow> bool" where "mhw b \<equiv> b AND MANUAL_HAS_WAITERS \<noteq> 0"

definition mbits_ok :: "8 word \<Rightarrow> bool" where
  "mbits_ok b = (b \<in> {0, 1, 2, 3})"

lemma mbits_ops:
  assumes "mbits_ok b"
  shows "mbits_ok (b AND NOT IS_SET)" "\<not> gate (b AND NOT IS_SET)" "mhw (b AND NOT IS_SET) = mhw b"
    "mbits_ok (b AND NOT MANUAL_HAS_WAITERS)" "gate (b AND NOT MANUAL_HAS_WAITERS) = gate b"
    "\<not> mhw (b AND NOT MANUAL_HAS_WAITERS)"
    "mbits_ok (b OR MANUAL_HAS_WAITERS)" "gate (b OR MANUAL_HAS_WAITERS) = gate b" "mhw (b OR MANUAL_HAS_WAITERS)"
    "mbits_ok (b OR IS_SET)" "gate (b OR IS_SET)" "mhw (b OR IS_SET) = mhw b"
  using assms by (auto simp: mbits_ok_def IS_SET_def MANUAL_HAS_WAITERS_def)

fun m_locked :: "'w mpc \<Rightarrow> bool" where
  "m_locked MAdv = True" | "m_locked MAdvUnlock = True" | "m_locked MNotify = True" | "m_locked (MClear w) = True"
| "m_locked (MUnlock w) = True" | "m_locked (MTake2 p v) = True" | "m_locked (MPoll2 p v) = True"
| "m_locked (MOr p v) = True" | "m_locked (MPoll3 p v) = True" | "m_locked (MPollClear p) = True"
| "m_locked (MRegister p v) = True" | "m_locked (MPollUnlock p) = True" | "m_locked (MUnregister p) = True"
| "m_locked (MDropClear p) = True" | "m_locked (MDropUnlock p) = True" | "m_locked c = False"

text \<open>Threads in \<open>set\<close> before the generation advances, and those that still drain.\<close>

fun before_advance :: "'w mpc \<Rightarrow> bool" where
  "before_advance MAdvLock = True" | "before_advance MAdv = True" | "before_advance c = False"

fun draining :: "'w mpc \<Rightarrow> bool" where
  "draining MAdvUnlock = True" | "draining MLoop = True" | "draining MNotify = True"
| "draining (MClear w) = (w \<noteq> None)" | "draining (MUnlock w) = (w \<noteq> None)" | "draining c = False"

definition m_phase :: "'w manual_sys \<Rightarrow> phases" where
  "m_phase s = map_option phase \<circ> m_heap s"

definition pending_set :: "'w manual_sys \<Rightarrow> bool" where
  "pending_set s = (\<exists>t. before_advance (m_pcs s t))"

text \<open>Some call of \<open>set\<close> under way will notify everybody who waits.\<close>

definition covered :: "'w manual_sys \<Rightarrow> bool" where
  "covered s = (pending_set s \<or> (\<exists>t. draining (m_pcs s t)) \<and> prior_only (m_heap s) (m_slow s))"

fun m_knows :: "'w mpc \<Rightarrow> phases \<Rightarrow> 8 word \<Rightarrow> bool \<Rightarrow> bool \<Rightarrow> bool" where
  "m_knows (MClear w) f b pre cov = nobody_waits f"
| "m_knows (MPoll2 p w) f b pre cov = (f p \<noteq> Some NOTIFIED)"
| "m_knows (MOr p w) f b pre cov = (f p \<noteq> Some NOTIFIED)"
| "m_knows (MPoll3 p w) f b pre cov = (f p \<noteq> Some NOTIFIED \<and> mhw b)"
| "m_knows (MPollClear p) f b pre cov = (nobody_waits f \<or> cov)"
| "m_knows (MRegister p w) f b pre cov = (f p \<noteq> Some NOTIFIED \<and> mhw b \<and> (gate b \<longrightarrow> pre))"
| "m_knows (MDropLock p) f b pre cov = (f p \<noteq> Some IDLE)"
| "m_knows (MUnregister p) f b pre cov = (f p \<noteq> Some IDLE)"
| "m_knows (MDropClear p) f b pre cov = nobody_waits f"
| "m_knows (MDropUnlock p) f b pre cov = (f p \<noteq> Some WAITING)"
| "m_knows c f b pre cov = True"

definition m_safe :: "'w mpc \<Rightarrow> phases \<Rightarrow> 8 word \<Rightarrow> bool \<Rightarrow> bool \<Rightarrow> bool" where
  "m_safe c f b pre cov = (m_knows c f b pre cov \<and> (\<forall>p. m_future c = Some p \<longrightarrow> p \<in> dom f))"

definition manual_ok :: "'w manual_sys \<Rightarrow> bool" where
  "manual_ok s =
     (queue_ok (m_heap s) (m_slow s) \<and> mbits_ok (m_bits s) \<and> generation (m_slow s) = Suc (advances_made s)
      \<and> (nobody_waits (m_phase s) \<or> mhw (m_bits s) \<and> \<not> gate (m_bits s) \<or> covered s)
      \<and> (\<forall>t. m_locked (m_pcs s t) = (m_mutex s = Some t))
      \<and> (\<forall>t. m_safe (m_pcs s t) (m_phase s) (m_bits s) (pending_set s) (covered s))
      \<and> (\<forall>t u p. m_future (m_pcs s t) = Some p \<longrightarrow> m_future (m_pcs s u) = Some p \<longrightarrow> t = u))"

section \<open>Interference\<close>

definition m_meddles :: "bool \<Rightarrow> ptr option \<Rightarrow> phases \<Rightarrow> 8 word \<Rightarrow> phases \<Rightarrow> 8 word \<Rightarrow> bool \<Rightarrow> bool" where
  "m_meddles lk mine f b f' b' pre' =
     ((\<forall>q. mine \<noteq> Some q \<longrightarrow> f' q = f q \<or> lk \<and> f q = Some WAITING \<and> f' q = Some NOTIFIED)
      \<and> (\<not> lk \<longrightarrow> mhw b' = mhw b \<and> (gate b' \<longrightarrow> gate b \<or> \<not> mhw b \<or> pre') \<and> (\<forall>q. f' q = Some WAITING \<longrightarrow> f q = Some WAITING)))"

lemma m_safe_frame:
  assumes "m_safe c f b pre cov" and "m_meddles lk mine f b f' b' pre'" and "\<not> (lk \<and> m_locked c)"
    and "\<And>p. m_future c = Some p \<Longrightarrow> mine \<noteq> Some p" and "\<not> lk \<Longrightarrow> (pre \<longrightarrow> pre') \<and> (cov \<longrightarrow> cov')"
  shows "m_safe c f' b' pre' cov'"
proof (cases "m_future c")
  case None
  with assms(1-3) show ?thesis by (cases c) (auto simp: m_safe_def m_meddles_def)
next
  case (Some p)
  then have "f' p = f p \<or> lk \<and> f p = Some WAITING \<and> f' p = Some NOTIFIED"
    using assms(2,4) by (auto simp: m_meddles_def)
  with Some assms(1-3,5) show ?thesis by (cases c) (auto simp: m_safe_def m_meddles_def dom_def)
qed

lemma manual_ok_step:
  assumes ok: "manual_ok s" and pcs: "m_pcs s' = (m_pcs s)(t := c)"
    and q: "queue_ok (m_heap s') (m_slow s')" and b: "mbits_ok (m_bits s')"
    and g: "generation (m_slow s') = Suc (advances_made s')"
    and w: "nobody_waits (m_phase s') \<or> mhw (m_bits s') \<and> \<not> gate (m_bits s') \<or> covered s'"
    and lock: "m_mutex s' = (if m_locked c then Some t else if m_locked (m_pcs s t) then None else m_mutex s)"
    and acq: "m_locked c \<Longrightarrow> m_locked (m_pcs s t) \<or> m_mutex s = None"
    and fut: "m_future c = m_future (m_pcs s t) \<or> m_future c = None \<or> (\<forall>u. m_future (m_pcs s u) \<noteq> m_future c)"
    and safe: "m_safe c (m_phase s') (m_bits s') (pending_set s') (covered s')"
    and med: "m_meddles (m_locked (m_pcs s t)) (m_future (m_pcs s t)) (m_phase s) (m_bits s)
      (m_phase s') (m_bits s') (pending_set s')"
    and cov: "\<not> m_locked (m_pcs s t) \<Longrightarrow> (pending_set s \<longrightarrow> pending_set s') \<and> (covered s \<longrightarrow> covered s')"
  shows "manual_ok s'"
proof -
  note inv = ok[unfolded manual_ok_def]
  have lk: "m_locked (m_pcs s u) = (m_mutex s = Some u)" for u using inv by blast
  have "m_locked (m_pcs s' u) = (m_mutex s' = Some u)" for u
    using lk[of u] lk[of t] lock acq pcs by (auto split: if_splits)
  moreover have "m_safe (m_pcs s' u) (m_phase s') (m_bits s') (pending_set s') (covered s')" for u
  proof (cases "u = t")
    case False
    have "m_safe (m_pcs s u) (m_phase s') (m_bits s') (pending_set s') (covered s')"
    proof (rule m_safe_frame[OF _ med _ _ cov])
      show "m_safe (m_pcs s u) (m_phase s) (m_bits s) (pending_set s) (covered s)" using inv by blast
      show "\<not> (m_locked (m_pcs s t) \<and> m_locked (m_pcs s u))" using lk[of u] lk[of t] False by auto
      show "m_future (m_pcs s t) \<noteq> Some p" if "m_future (m_pcs s u) = Some p" for p using inv that False by metis
    qed
    with False pcs show ?thesis by simp
  qed (use safe pcs in simp)
  moreover have "t1 = t2" if p: "m_future (m_pcs s' t1) = Some p" "m_future (m_pcs s' t2) = Some p" for t1 t2 p
  proof -
    have one: "u1 = u2" if "m_future (m_pcs s u1) = Some p" "m_future (m_pcs s u2) = Some p" for u1 u2
      using inv that by metis
    show ?thesis
    proof (cases "\<forall>u. m_future (m_pcs s u) \<noteq> m_future c")
      case True
      then show ?thesis using p pcs one by (auto split: if_splits)
    next
      case False
      have "m_future (m_pcs s u) = Some p" if "m_future (m_pcs s' u) = Some p" for u
        using that pcs fut False by (auto split: if_splits)
      with p one show ?thesis by metis
    qed
  qed
  ultimately show ?thesis unfolding manual_ok_def using q b g w by blast
qed

text \<open>Calls of \<open>set\<close> under way stay under way.\<close>

lemma covered_keep:
  assumes "m_pcs r = (m_pcs s)(t := c)" and "before_advance (m_pcs s t) \<longrightarrow> before_advance c"
  shows "pending_set s \<longrightarrow> pending_set r"
    and "(draining (m_pcs s t) \<longrightarrow> draining c) \<and> (prior_only (m_heap s) (m_slow s) \<longrightarrow> prior_only (m_heap r) (m_slow r)) \<Longrightarrow>
      covered s \<longrightarrow> covered r"
proof -
  show pre: "pending_set s \<longrightarrow> pending_set r"
    using assms by (auto simp: pending_set_def split: if_splits)
  assume "(draining (m_pcs s t) \<longrightarrow> draining c) \<and> (prior_only (m_heap s) (m_slow s) \<longrightarrow> prior_only (m_heap r) (m_slow r))"
  with pre assms show "covered s \<longrightarrow> covered r" by (auto simp: covered_def split: if_splits)
qed

lemma before_advance_pending: "m_pcs r = (m_pcs s)(t := c) \<Longrightarrow> before_advance c \<Longrightarrow> pending_set r"
  by (auto simp: pending_set_def)

lemma pending_covered: "pending_set r \<Longrightarrow> covered r"
  by (simp add: covered_def)

text \<open>Steps that leave heap and set alone.\<close>

lemma m_bits_step:
  assumes ok: "manual_ok s" and pcs: "m_pcs r = (m_pcs s)(t := c)"
    and same: "m_heap r = m_heap s" "m_slow r = m_slow s" "advances_made r = advances_made s"
    and keep: "before_advance (m_pcs s t) \<longrightarrow> before_advance c" "draining (m_pcs s t) \<longrightarrow> draining c"
    and b: "mbits_ok (m_bits r)"
    and w: "nobody_waits (m_phase s) \<or> mhw (m_bits r) \<and> \<not> gate (m_bits r) \<or> covered r"
    and lock: "m_mutex r = (if m_locked c then Some t else if m_locked (m_pcs s t) then None else m_mutex s)"
    and acq: "m_locked c \<Longrightarrow> m_locked (m_pcs s t) \<or> m_mutex s = None"
    and fut: "m_future c = m_future (m_pcs s t) \<or> m_future c = None"
    and safe: "m_knows c (m_phase s) (m_bits r) (pending_set r) (covered r)"
    and med: "m_locked (m_pcs s t) \<or> mhw (m_bits r) = mhw (m_bits s)
      \<and> (gate (m_bits r) \<longrightarrow> gate (m_bits s) \<or> \<not> mhw (m_bits s) \<or> pending_set r)"
  shows "manual_ok r"
proof -
  have ph: "m_phase r = m_phase s" using same by (simp add: m_phase_def)
  have inv: "m_safe (m_pcs s t) (m_phase s) (m_bits s) (pending_set s) (covered s)" "queue_ok (m_heap s) (m_slow s)"
    "generation (m_slow s) = Suc (advances_made s)" using ok by (auto simp: manual_ok_def)
  have "m_safe c (m_phase r) (m_bits r) (pending_set r) (covered r)"
    using inv(1) safe fut ph by (auto simp: m_safe_def)
  moreover have "(pending_set s \<longrightarrow> pending_set r) \<and> (covered s \<longrightarrow> covered r)"
    using covered_keep[OF pcs keep(1)] keep(2) same by simp
  moreover have "m_meddles (m_locked (m_pcs s t)) (m_future (m_pcs s t)) (m_phase s) (m_bits s)
      (m_phase r) (m_bits r) (pending_set r)" using med ph by (auto simp: m_meddles_def)
  ultimately show ?thesis
    using b w ph lock acq fut inv same by (intro manual_ok_step[OF ok pcs]) auto
qed

text \<open>Steps that move one awaiter of the heap to another phase.\<close>

lemma m_heap_step:
  assumes ok: "manual_ok s" and pcs: "m_pcs r = (m_pcs s)(t := c)"
    and same: "m_bits r = m_bits s" "advances_made r = advances_made s" "generation (m_slow r) = generation (m_slow s)"
    and ph: "m_phase r = (m_phase s)(q := g)" and q: "queue_ok (m_heap r) (m_slow r)"
    and prior: "prior_only (m_heap s) (m_slow s) \<Longrightarrow> g \<noteq> Some WAITING \<Longrightarrow> prior_only (m_heap r) (m_slow r)"
    and keep: "\<not> before_advance (m_pcs s t)" "draining (m_pcs s t) \<Longrightarrow> draining c \<or> nobody_waits (m_phase r)"
    and w: "g = Some WAITING \<Longrightarrow> mhw (m_bits s) \<and> \<not> gate (m_bits s) \<or> pending_set s"
    and lock: "m_mutex r = (if m_locked c then Some t else if m_locked (m_pcs s t) then None else m_mutex s)"
    and acq: "m_locked c \<Longrightarrow> m_locked (m_pcs s t)"
    and fut: "m_future c = m_future (m_pcs s t) \<and> g \<noteq> None \<or> m_future c = None"
    and safe: "m_knows c (m_phase r) (m_bits s) (pending_set r) (covered r)"
    and med: "m_future (m_pcs s t) = Some q \<and> (m_locked (m_pcs s t) \<or> g \<noteq> Some WAITING \<and> \<not> draining (m_pcs s t))
      \<or> m_locked (m_pcs s t) \<and> m_phase s q = Some WAITING \<and> g = Some NOTIFIED"
  shows "manual_ok r"
proof -
  note inv = ok[unfolded manual_ok_def]
  have "m_safe (m_pcs s t) (m_phase s) (m_bits s) (pending_set s) (covered s)" using inv by blast
  then have "\<forall>p. m_future (m_pcs s t) = Some p \<longrightarrow> m_phase s p \<noteq> None" by (auto simp: m_safe_def)
  then have "\<forall>p. m_future c = Some p \<longrightarrow> m_phase r p \<noteq> None" using fut ph by auto
  then have "m_safe c (m_phase r) (m_bits r) (pending_set r) (covered r)" using safe same(1) by (auto simp: m_safe_def)
  moreover have pre: "pending_set s \<longrightarrow> pending_set r" using covered_keep(1)[OF pcs] keep(1) by simp
  moreover have cov: "covered s \<longrightarrow> covered r" if "g \<noteq> Some WAITING" "draining (m_pcs s t) \<longrightarrow> draining c"
    using covered_keep(2)[OF pcs] keep(1) prior that by simp
  moreover have "m_meddles (m_locked (m_pcs s t)) (m_future (m_pcs s t)) (m_phase s) (m_bits s)
      (m_phase r) (m_bits r) (pending_set r)" using med ph same(1) by (auto simp: m_meddles_def)
  moreover have "nobody_waits (m_phase r) \<or> mhw (m_bits r) \<and> \<not> gate (m_bits r) \<or> covered r"
  proof (cases "g = Some WAITING")
    case True
    then show ?thesis using w pre pending_covered[of r] same(1) by auto
  next
    case False
    then have "nobody_waits (m_phase s) \<Longrightarrow> nobody_waits (m_phase r)" using ph by auto
    then show ?thesis using inv keep(2) cov False same(1) by auto
  qed
  moreover have "(pending_set s \<longrightarrow> pending_set r) \<and> (covered s \<longrightarrow> covered r)" if "\<not> m_locked (m_pcs s t)"
    using that pre cov med by auto
  ultimately show ?thesis using q lock acq fut inv same by (intro manual_ok_step[OF ok pcs]) auto
qed

section \<open>Every step keeps the invariant\<close>

lemma m_moves_simps [simp]:
  "m_pcs (mgoto t c s) = (m_pcs s)(t := c)" "m_heap (mgoto t c s) = m_heap s" "m_slow (mgoto t c s) = m_slow s"
  "m_bits (mgoto t c s) = m_bits s" "m_mutex (mgoto t c s) = m_mutex s" "advances_made (mgoto t c s) = advances_made s"
  "m_pcs (m_unlock s) = m_pcs s" "m_heap (m_unlock s) = m_heap s" "m_slow (m_unlock s) = m_slow s"
  "m_mutex (m_unlock s) = None" "m_bits (m_unlock s) = m_bits s" "advances_made (m_unlock s) = advances_made s"
  "m_pcs (m_clear s) = m_pcs s" "m_heap (m_clear s) = m_heap s" "m_slow (m_clear s) = m_slow s"
  "m_mutex (m_clear s) = m_mutex s" "advances_made (m_clear s) = advances_made s"
  "m_bits (m_clear s) = m_bits s AND NOT MANUAL_HAS_WAITERS"
  "m_pcs (m_pass s) = m_pcs s" "m_heap (m_pass s) = m_heap s" "m_slow (m_pass s) = m_slow s"
  "m_mutex (m_pass s) = m_mutex s" "m_bits (m_pass s) = m_bits s" "advances_made (m_pass s) = advances_made s"
  "m_pcs (m_release p s) = m_pcs s" "m_slow (m_release p s) = m_slow s" "m_mutex (m_release p s) = m_mutex s"
  "m_bits (m_release p s) = m_bits s" "advances_made (m_release p s) = advances_made s"
  "m_heap (m_release p s) = (m_heap s)(p := None)"
  by (simp_all add: mgoto_def m_unlock_def m_clear_def m_pass_def m_release_def)

lemma m_phase_upd [simp]:
  "m_phase (mgoto t c s) = m_phase s" "m_phase (m_unlock s) = m_phase s" "m_phase (m_pass s) = m_phase s"
  "m_phase (s\<lparr>m_bits := b\<rparr>) = m_phase s" "m_phase (s\<lparr>m_mutex := m\<rparr>) = m_phase s"
  "m_phase (s\<lparr>m_woken := ws\<rparr>) = m_phase s" "m_phase (s\<lparr>m_slow := u\<rparr>) = m_phase s"
  "m_phase (s\<lparr>m_heap := h\<rparr>) = map_option phase \<circ> h"
  "m_phase (m_release p s) = (m_phase s)(p := None)"
  by (auto simp: m_phase_def mgoto_def m_unlock_def m_pass_def m_release_def)

text \<open>The threads that wait for the mutex.\<close>

fun m_wants_lock :: "'w mpc \<Rightarrow> bool" where
  "m_wants_lock MAdvLock = True" | "m_wants_lock MLoop = True" | "m_wants_lock (MPollLock p w) = True"
| "m_wants_lock (MDropLock p) = True" | "m_wants_lock c = False"

text \<open>A thread can step, and the invariant holds again unless the 64-bit generation has run out.\<close>

definition m_advances :: "nat \<Rightarrow> 'w manual_sys \<Rightarrow> bool" where
  "m_advances t s = (\<exists>s'. m_step t s = Some s' \<and> advances_made s \<le> advances_made s'
     \<and> (Suc (advances_made s') < usize_range \<longrightarrow> manual_ok s'))"

lemma m_advancesI: "m_step t s = Some s' \<Longrightarrow> advances_made s' = advances_made s \<Longrightarrow> manual_ok s' \<Longrightarrow> m_advances t s"
  by (auto simp: m_advances_def)

lemmas m_step_defs = m_step_def m_set_step_def m_poll_step_def m_drop_step_def m_acquire_def

lemma manual_ok_own:
  assumes "manual_ok s"
  shows "mbits_ok (m_bits s)" "queue_ok (m_heap s) (m_slow s)"
    "nobody_waits (m_phase s) \<or> mhw (m_bits s) \<and> \<not> gate (m_bits s) \<or> covered s"
    "m_knows (m_pcs s t) (m_phase s) (m_bits s) (pending_set s) (covered s)"
    "m_locked (m_pcs s t) = (m_mutex s = Some t)"
    "\<And>p. m_future (m_pcs s t) = Some p \<Longrightarrow> \<exists>f. m_phase s p = Some f"
    "generation (m_slow s) = Suc (advances_made s)"
  using assms by (auto simp: manual_ok_def m_safe_def)

lemma covered_moves:
  assumes "m_pcs r = (m_pcs s)(t := c)" and "m_heap r = m_heap s" and "m_slow r = m_slow s"
    and "before_advance (m_pcs s t) \<longrightarrow> before_advance c" and "draining (m_pcs s t) \<longrightarrow> draining c"
    and "covered s"
  shows "covered r"
  using covered_keep(2)[OF assms(1,4)] assms by simp

lemma m_advance_gate:
  assumes ok: "manual_ok s" and pc: "m_pcs s t = MSetOr"
  shows "m_advances t s"
proof -
  note own = manual_ok_own[OF ok] and k = manual_ok_own(5)[OF ok, of t] and bo = mbits_ops[OF manual_ok_own(1)[OF ok]]
  let ?c = "if m_bits s AND MANUAL_HAS_WAITERS = 0 then MIdle else MAdvLock"
  let ?r = "mgoto t ?c (s\<lparr>m_bits := m_bits s OR IS_SET\<rparr>)"
  have pre: "mhw (m_bits s) \<Longrightarrow> pending_set ?r" by (rule before_advance_pending[of _ s t MAdvLock]) simp_all
  have cov: "covered s \<Longrightarrow> covered ?r" by (rule covered_moves[of _ s t ?c]) (simp_all add: pc)
  have "nobody_waits (m_phase s) \<or> covered ?r"
    using own(3) cov pre pending_covered[of ?r] by blast
  then have "manual_ok ?r"
    using pc k bo pre by (intro m_bits_step[OF ok, of _ t ?c]) (auto split: if_splits)
  then show ?thesis using pc by (intro m_advancesI) (simp_all add: m_step_defs)
qed

lemma m_advance_generation:
  assumes ok: "manual_ok s" and pc: "m_pcs s t = MAdv"
  shows "m_advances t s"
proof -
  note own = manual_ok_own[OF ok] and k = manual_ok_own(5)[OF ok, of t]
  let ?r = "mgoto t MAdvUnlock (s\<lparr>m_slow := advance_generation (m_slow s), advances_made := Suc (advances_made s)\<rparr>)"
  have "manual_ok ?r" if small: "Suc (advances_made ?r) < usize_range"
  proof (rule manual_ok_step[OF ok, of _ t MAdvUnlock])
    note adv = queue_advance[OF own(2)]
    show "queue_ok (m_heap ?r) (m_slow ?r)" using adv own(7) small by simp
    have "prior_only (m_heap ?r) (m_slow ?r)" using adv own(7) small by simp
    moreover have "\<exists>t'. draining (m_pcs ?r t')" by (rule exI[of _ t]) simp
    ultimately show "nobody_waits (m_phase ?r) \<or> mhw (m_bits ?r) \<and> \<not> gate (m_bits ?r) \<or> covered ?r"
      by (simp add: covered_def)
    show "generation (m_slow ?r) = Suc (advances_made ?r)" using adv own(7) small by simp
  qed (use own(1) k pc in \<open>simp_all add: m_safe_def m_meddles_def m_phase_def\<close>)
  then show ?thesis using pc by (auto simp: m_advances_def m_step_defs)
qed

lemma m_advance_set:
  assumes ok: "manual_ok s" and pc: "m_pcs s t = MAdvLock \<and> m_mutex s = None \<or> m_pcs s t = MAdvUnlock
    \<or> m_pcs s t = MLoop \<and> m_mutex s = None \<or> m_pcs s t = MClear v \<or> m_pcs s t = MUnlock v \<or> m_pcs s t = MReset"
  shows "m_advances t s"
proof -
  note own = manual_ok_own[OF ok] and k = manual_ok_own(4,5)[OF ok, of t] and bo = mbits_ops[OF manual_ok_own(1)[OF ok]]
  have cov: "covered s \<Longrightarrow> covered r"
    if "m_pcs r = (m_pcs s)(t := c)" "m_heap r = m_heap s" "m_slow r = m_slow s"
      "before_advance (m_pcs s t) \<longrightarrow> before_advance c" "draining (m_pcs s t) \<longrightarrow> draining c" for r c
    using covered_moves[OF that] by blast
  consider "m_pcs s t = MAdvLock" "m_mutex s = None" | "m_pcs s t = MAdvUnlock" | "m_pcs s t = MLoop" "m_mutex s = None"
    | "m_pcs s t = MClear v" | "m_pcs s t = MUnlock v" | "m_pcs s t = MReset" using pc by auto
  then show ?thesis
  proof cases
    case 1
    let ?r = "mgoto t MAdv (s\<lparr>m_mutex := Some t\<rparr>)"
    have "manual_ok ?r" using 1 k own(1,3) cov[of ?r MAdv]
      by (intro m_bits_step[OF ok, of _ t MAdv]) (auto simp: before_advance_pending)
    then show ?thesis using 1 by (intro m_advancesI) (simp_all add: m_step_defs)
  next
    case 2
    let ?r = "mgoto t MLoop (m_unlock s)"
    have "manual_ok ?r" using 2 k own(1,3) cov[of ?r MLoop] by (intro m_bits_step[OF ok, of _ t MLoop]) auto
    then show ?thesis using 2 by (intro m_advancesI) (simp_all add: m_step_defs)
  next
    case 3
    let ?r = "mgoto t MNotify (s\<lparr>m_mutex := Some t\<rparr>)"
    have "manual_ok ?r" using 3 k own(1,3) cov[of ?r MNotify] by (intro m_bits_step[OF ok, of _ t MNotify]) auto
    then show ?thesis using 3 by (intro m_advancesI) (simp_all add: m_step_defs)
  next
    case 4
    let ?r = "mgoto t (MUnlock v) (m_clear s)"
    have "manual_ok ?r" using 4 k own(1,3) bo by (intro m_bits_step[OF ok, of _ t "MUnlock v"]) auto
    then show ?thesis using 4 by (intro m_advancesI) (simp_all add: m_step_defs)
  next
    case 5
    show ?thesis
    proof (cases v)
      case None
      let ?r = "mgoto t MIdle (m_unlock s)"
      have "manual_ok ?r" using 5 None k own(1,3) cov[of ?r MIdle] by (intro m_bits_step[OF ok, of _ t MIdle]) auto
      then show ?thesis using 5 None by (intro m_advancesI) (simp_all add: m_step_defs)
    next
      case (Some w)
      let ?r = "mgoto t MLoop ((m_unlock s)\<lparr>m_woken := m_woken s @ [w]\<rparr>)"
      have "manual_ok ?r" using 5 Some k own(1,3) cov[of ?r MLoop] by (intro m_bits_step[OF ok, of _ t MLoop]) auto
      then show ?thesis using 5 Some by (intro m_advancesI) (simp_all add: m_step_defs)
    qed
  next
    case 6
    let ?r = "mgoto t MIdle (s\<lparr>m_bits := m_bits s AND NOT IS_SET\<rparr>)"
    have "manual_ok ?r" using 6 k own(1,3) bo cov[of ?r MIdle] by (intro m_bits_step[OF ok, of _ t MIdle]) auto
    then show ?thesis using 6 by (intro m_advancesI) (simp_all add: m_step_defs)
  qed
qed

lemma m_advance_notify:
  assumes ok: "manual_ok s" and pc: "m_pcs s t = MNotify"
  shows "m_advances t s"
proof -
  note own = manual_ok_own[OF ok] and k = manual_ok_own(4,5)[OF ok, of t]
  from own(2) show ?thesis
  proof (cases rule: queue_notify_prior)
    case none
    let ?c = "if set_is_empty (m_slow s) then MClear None else MUnlock None"
    let ?r = "mgoto t ?c s"
    have ph: "map_option phase \<circ> m_heap s = m_phase s" by (simp add: m_phase_def)
    have "covered ?r" if "covered s" "\<not> nobody_waits (m_phase s)"
    proof -
      have "pending_set s" using that none(2) unfolding ph covered_def by blast
      then show ?thesis using covered_keep(1)[of ?r s t ?c] pc pending_covered[of ?r] by simp
    qed
    then have w: "nobody_waits (m_phase s) \<or> mhw (m_bits s) \<and> \<not> gate (m_bits s) \<or> covered ?r" using own(3) by blast
    have "manual_ok ?r"
    proof (rule manual_ok_step[OF ok, of _ t ?c])
      show "m_safe ?c (m_phase ?r) (m_bits ?r) (pending_set ?r) (covered ?r)"
        using none(3) ph by (simp add: m_safe_def)
    qed (use own k pc w in \<open>simp_all add: m_meddles_def\<close>)
    then show ?thesis using pc none(1) by (intro m_advancesI) (simp_all add: m_step_defs)
  next
    case (notified q h ws w)
    let ?c = "if set_is_empty ws then MClear (Some w) else MUnlock (Some w)"
    let ?r = "mgoto t ?c (s\<lparr>m_heap := h, m_slow := ws\<rparr>)"
    have ph: "m_phase ?r = (m_phase s)(q := Some NOTIFIED)" using notified(4) by (simp add: m_phase_def)
    have "manual_ok ?r"
      using pc k notified ph
      by (intro m_heap_step[OF ok, of ?r t ?c q "Some NOTIFIED"]) (simp_all add: m_phase_def del: fun_upd_apply)
    then show ?thesis using pc notified(2) by (intro m_advancesI) (simp_all add: m_step_defs)
  qed
qed

lemma m_advance_poll:
  assumes ok: "manual_ok s" and pc: "m_pcs s t = MTryWait \<or> m_pcs s t = MPoll1 p w \<or> m_pcs s t = MPoll2 p w
    \<or> m_pcs s t = MOr p w \<or> m_pcs s t = MPoll3 p w \<or> m_pcs s t = MPollClear p \<or> m_pcs s t = MPollUnlock p
    \<or> m_pcs s t = MPollLock p w \<and> m_mutex s = None"
  shows "m_advances t s"
proof -
  note own = manual_ok_own[OF ok] and k = manual_ok_own(4,5)[OF ok, of t] and bo = mbits_ops[OF manual_ok_own(1)[OF ok]]
  have cov: "covered s \<Longrightarrow> covered r"
    if "m_pcs r = (m_pcs s)(t := c)" "m_heap r = m_heap s" "m_slow r = m_slow s"
      "before_advance (m_pcs s t) \<longrightarrow> before_advance c" "draining (m_pcs s t) \<longrightarrow> draining c" for r c
    using covered_moves[OF that] by blast
  consider "m_pcs s t = MTryWait" | "m_pcs s t = MPoll1 p w" | "m_pcs s t = MPoll2 p w" | "m_pcs s t = MOr p w"
    | "m_pcs s t = MPoll3 p w" | "m_pcs s t = MPollClear p" | "m_pcs s t = MPollUnlock p"
    | "m_pcs s t = MPollLock p w" "m_mutex s = None" using pc by auto
  then show ?thesis
  proof cases
    case 1
    let ?r = "mgoto t MIdle (if m_is_set s then m_pass s else s)"
    have "manual_ok ?r" using 1 k own(1,3) cov[of ?r MIdle] by (intro m_bits_step[OF ok, of _ t MIdle]) auto
    then show ?thesis using 1 by (intro m_advancesI) (simp_all add: m_step_defs)
  next
    case 2
    have y: "manual_ok (mgoto t MIdle (m_pass s))" using 2 k own(1,3) cov[of "mgoto t MIdle (m_pass s)" MIdle]
      by (intro m_bits_step[OF ok, of _ t MIdle]) auto
    have n: "manual_ok (mgoto t (MTake1 p w) s)" using 2 k own(1,3) cov[of "mgoto t (MTake1 p w) s" "MTake1 p w"]
      by (intro m_bits_step[OF ok, of _ t "MTake1 p w"]) auto
    have "manual_ok (if m_is_set s then mgoto t MIdle (m_pass s) else mgoto t (MTake1 p w) s)" using y n by simp
    then show ?thesis using 2 by (intro m_advancesI) (simp_all add: m_step_defs)
  next
    case 3
    have y: "manual_ok (mgoto t (MPollUnlock p) (m_pass s))"
      using 3 k own(1,3) cov[of "mgoto t (MPollUnlock p) (m_pass s)" "MPollUnlock p"]
      by (intro m_bits_step[OF ok, of _ t "MPollUnlock p"]) auto
    have n: "manual_ok (mgoto t (MOr p w) s)" using 3 k own(1,3) cov[of "mgoto t (MOr p w) s" "MOr p w"]
      by (intro m_bits_step[OF ok, of _ t "MOr p w"]) auto
    have "manual_ok (if m_is_set s then mgoto t (MPollUnlock p) (m_pass s) else mgoto t (MOr p w) s)" using y n by simp
    then show ?thesis using 3 by (intro m_advancesI) (simp_all add: m_step_defs)
  next
    case 4
    let ?r = "mgoto t (MPoll3 p w) (s\<lparr>m_bits := m_bits s OR MANUAL_HAS_WAITERS\<rparr>)"
    have "manual_ok ?r" using 4 k own(1,3) bo cov[of ?r "MPoll3 p w"]
      by (intro m_bits_step[OF ok, of _ t "MPoll3 p w"]) auto
    then show ?thesis using 4 by (intro m_advancesI) (simp_all add: m_step_defs)
  next
    case 5
    have y: "manual_ok (mgoto t (MPollClear p) (m_pass s))" if "m_is_set s"
      using that 5 k own(1,3) cov[of "mgoto t (MPollClear p) (m_pass s)" "MPollClear p"]
      by (intro m_bits_step[OF ok, of _ t "MPollClear p"]) (auto simp: m_is_set_def)
    have n: "manual_ok (mgoto t (MRegister p w) s)" if "\<not> m_is_set s"
      using that 5 k own(1,3) cov[of "mgoto t (MRegister p w) s" "MRegister p w"]
      by (intro m_bits_step[OF ok, of _ t "MRegister p w"]) (auto simp: m_is_set_def)
    have "manual_ok (if m_is_set s then mgoto t (MPollClear p) (m_pass s) else mgoto t (MRegister p w) s)" using y n by simp
    then show ?thesis using 5 by (intro m_advancesI) (simp_all add: m_step_defs)
  next
    case 6
    let ?r = "mgoto t (MPollUnlock p) (m_clear s)"
    have "manual_ok ?r" using 6 k own(1,3) bo cov[of ?r "MPollUnlock p"]
      by (intro m_bits_step[OF ok, of _ t "MPollUnlock p"]) auto
    then show ?thesis using 6 by (intro m_advancesI) (simp_all add: m_step_defs)
  next
    case 7
    let ?r = "mgoto t MIdle (m_unlock s)"
    have "manual_ok ?r" using 7 k own(1,3) cov[of ?r MIdle] by (intro m_bits_step[OF ok, of _ t MIdle]) auto
    then show ?thesis using 7 by (intro m_advancesI) (simp_all add: m_step_defs)
  next
    case 8
    let ?r = "mgoto t (MTake2 p w) (s\<lparr>m_mutex := Some t\<rparr>)"
    have "manual_ok ?r" using 8 k own(1,3) cov[of ?r "MTake2 p w"]
      by (intro m_bits_step[OF ok, of _ t "MTake2 p w"]) auto
    then show ?thesis using 8 by (intro m_advancesI) (simp_all add: m_step_defs)
  qed
qed

lemma m_phase_at: "m_phase s p = Some f \<Longrightarrow> \<exists>a. m_heap s p = Some a \<and> phase a = f"
  by (auto simp: m_phase_def)

lemma prior_only_upd:
  "prior_only h ws \<Longrightarrow> phase b \<noteq> WAITING \<Longrightarrow> prior_only (h(p \<mapsto> b)) ws"
  "prior_only h ws \<Longrightarrow> prior_only (h(p := None)) ws"
  by (auto simp: prior_only_def split: if_splits)

lemma m_advance_take:
  assumes ok: "manual_ok s" and pc: "m_pcs s t = MTake1 p w \<or> m_pcs s t = MTake2 p w"
  shows "m_advances t s"
proof -
  note own = manual_ok_own[OF ok] and k = manual_ok_own(4,5)[OF ok, of t]
  have cov: "covered s \<Longrightarrow> covered r"
    if "m_pcs r = (m_pcs s)(t := c)" "m_heap r = m_heap s" "m_slow r = m_slow s" for r c
    using covered_moves[OF that] pc by auto
  obtain f where f: "m_phase s p = Some f" using own(6)[of t p] pc by auto
  then obtain a where a: "m_heap s p = Some a" "phase a = f" using m_phase_at by blast
  show ?thesis
  proof (cases "f = NOTIFIED")
    case True
    let ?b = "a\<lparr>phase := IDLE\<rparr>"
    let ?h = "(m_heap s)(p \<mapsto> ?b)"
    have take: "m_take s p = Some (m_pass (s\<lparr>m_heap := ?h\<rparr>), True)"
      using a True by (simp add: m_take_def take_notification_def)
    have ph: "map_option phase \<circ> ?h = (m_phase s)(p := Some IDLE)" by (auto simp: m_phase_def)
    have q: "queue_ok ?h (m_slow s)" using queue_ok_consume(1)[OF own(2) a(1)] a(2) True by simp
    have pr: "prior_only (m_heap s) (m_slow s) \<Longrightarrow> prior_only ?h (m_slow s)" by (simp add: prior_only_upd)
    let ?c = "if m_pcs s t = MTake1 p w then MIdle else MPollUnlock p"
    let ?r = "mgoto t ?c (m_pass (s\<lparr>m_heap := ?h\<rparr>))"
    have "manual_ok ?r" using pc k q f True ph pr
      by (intro m_heap_step[OF ok, of _ t ?c p "Some IDLE"]) (auto simp del: fun_upd_apply)
    then show ?thesis using pc take by (intro m_advancesI) (auto simp: m_step_defs)
  next
    case False
    then have take: "m_take s p = Some (s, False)"
      using a by (simp add: m_take_def take_notification_def)
    let ?c = "if m_pcs s t = MTake1 p w then MPollLock p w else MPoll2 p w"
    let ?r = "mgoto t ?c s"
    have "manual_ok ?r" using pc k own(1,3) f False cov[of ?r ?c]
      by (intro m_bits_step[OF ok, of _ t ?c]) auto
    then show ?thesis using pc take by (intro m_advancesI) (auto simp: m_step_defs)
  qed
qed

lemma m_advance_register:
  assumes ok: "manual_ok s" and pc: "m_pcs s t = MRegister p w"
  shows "m_advances t s"
proof -
  note own = manual_ok_own[OF ok] and k = manual_ok_own(4,5)[OF ok, of t]
  obtain f where f: "m_phase s p = Some f" "f \<noteq> NOTIFIED" using own(6)[of t p] k(1) pc by auto
  obtain h ws where r: "set_register (m_heap s) (m_slow s) p w = Some (h, ws)" "queue_ok h ws"
    "map_option phase \<circ> h = (m_phase s)(p \<mapsto> WAITING)" "generation ws = generation (m_slow s)"
    using queue_register[OF own(2) f(1)[unfolded m_phase_def] f(2)] unfolding m_phase_def by metis
  let ?r = "mgoto t (MPollUnlock p) (s\<lparr>m_heap := h, m_slow := ws\<rparr>)"
  have "m_phase ?r = (m_phase s)(p := Some WAITING)" using r(3) by (simp add: m_phase_def)
  then have "manual_ok ?r"
    using pc k r f by (intro m_heap_step[OF ok, of _ t "MPollUnlock p" p "Some WAITING"]) (auto simp del: fun_upd_apply)
  then show ?thesis using pc r by (intro m_advancesI) (simp_all add: m_step_defs)
qed

lemma m_advance_unregister:
  assumes ok: "manual_ok s" and pc: "m_pcs s t = MUnregister p"
  shows "m_advances t s"
proof -
  note own = manual_ok_own[OF ok] and k = manual_ok_own(4,5)[OF ok, of t]
  obtain f where f: "m_phase s p = Some f" "f \<noteq> IDLE" using own(6)[of t p] k(1) pc by auto
  then obtain a where a: "m_heap s p = Some a" "phase a = f" using m_phase_at by blast
  show ?thesis
  proof (cases "f = WAITING")
    case True
    obtain h ws where r: "set_unregister (m_heap s) (m_slow s) p = Some (h, ws)" "queue_ok h ws"
      "map_option phase \<circ> h = (m_phase s)(p \<mapsto> IDLE)" "set_is_empty ws = nobody_waits ((m_phase s)(p \<mapsto> IDLE))"
      "generation ws = generation (m_slow s)" "prior_only (m_heap s) (m_slow s) \<Longrightarrow> prior_only h ws"
      using queue_unregister[OF own(2) f(1)[unfolded m_phase_def True]] unfolding m_phase_def by metis
    let ?c = "if set_is_empty ws then MDropClear p else MDropUnlock p"
    let ?r = "mgoto t ?c (s\<lparr>m_heap := h, m_slow := ws\<rparr>)"
    have ph: "m_phase ?r = (m_phase s)(p := Some IDLE)" "((m_phase s)(p := Some IDLE)) p = Some IDLE"
      using r(3) by (simp_all add: m_phase_def)
    have "manual_ok ?r" using pc k r f True ph
      by (intro m_heap_step[OF ok, of _ t ?c p "Some IDLE"]) (auto simp del: fun_upd_apply)
    then show ?thesis using pc r by (intro m_advancesI) (simp_all add: m_step_defs)
  next
    case False
    then have run: "set_unregister (m_heap s) (m_slow s) p = Some (m_heap s, m_slow s)"
      using a f(2) by (simp add: set_unregister_def)
    have e: "set_is_empty (m_slow s) = nobody_waits (m_phase s)"
      using queue_ok_phase[OF own(2)] queue_okI unfolding m_phase_def by metis
    have cov: "covered s \<Longrightarrow> covered (mgoto t c s)" for c using covered_moves[of "mgoto t c s" s t c] pc by simp
    have y: "manual_ok (mgoto t (MDropClear p) s)" if "set_is_empty (m_slow s)"
      using that pc k own(1,3) f False cov[of "MDropClear p"] e
      by (intro m_bits_step[OF ok, of _ t "MDropClear p"]) auto
    have n: "manual_ok (mgoto t (MDropUnlock p) s)"
      using pc k own(1,3) f False cov[of "MDropUnlock p"]
      by (intro m_bits_step[OF ok, of _ t "MDropUnlock p"]) auto
    have "manual_ok (mgoto t (if set_is_empty (m_slow s) then MDropClear p else MDropUnlock p) s)" using y n by simp
    then show ?thesis using pc run by (intro m_advancesI) (simp_all add: m_step_defs)
  qed
qed

lemma m_advance_drop:
  assumes ok: "manual_ok s" and pc: "m_pcs s t = MDropCheck p
    \<or> m_pcs s t = MDropLock p \<and> m_mutex s = None \<or> m_pcs s t = MDropClear p"
  shows "m_advances t s"
proof -
  note own = manual_ok_own[OF ok] and k = manual_ok_own(4,5)[OF ok, of t] and bo = mbits_ops[OF manual_ok_own(1)[OF ok]]
  have cov: "covered s \<Longrightarrow> covered r"
    if "m_pcs r = (m_pcs s)(t := c)" "m_heap r = m_heap s" "m_slow r = m_slow s" for r c
    using covered_moves[OF that] pc by auto
  obtain f where f: "m_phase s p = Some f" using own(6)[of t p] pc by auto
  then obtain a where a: "m_heap s p = Some a" "phase a = f" using m_phase_at by blast
  consider "m_pcs s t = MDropCheck p" "f = IDLE" | "m_pcs s t = MDropCheck p" "f \<noteq> IDLE"
    | "m_pcs s t = MDropLock p" "m_mutex s = None" | "m_pcs s t = MDropClear p" using pc by auto
  then show ?thesis
  proof cases
    case 1
    let ?r = "mgoto t MIdle (m_release p s)"
    have "queue_ok ((m_heap s)(p := None)) (m_slow s)"
      using queue_ok_consume(2)[OF own(2) a(1), of awaiter_new] a(2) 1 by (simp add: awaiter_new_def)
    then have "manual_ok ?r" using 1 k f
      by (intro m_heap_step[OF ok, of _ t MIdle p None]) (auto simp: prior_only_upd simp del: fun_upd_apply)
    then show ?thesis using 1 a by (intro m_advancesI) (simp_all add: m_step_defs is_registered_def)
  next
    case 2
    let ?r = "mgoto t (MDropLock p) s"
    have "manual_ok ?r" using 2 k own(1,3) f cov[of ?r "MDropLock p"]
      by (intro m_bits_step[OF ok, of _ t "MDropLock p"]) auto
    then show ?thesis using 2 a by (intro m_advancesI) (simp_all add: m_step_defs is_registered_def)
  next
    case 3
    let ?r = "mgoto t (MUnregister p) (s\<lparr>m_mutex := Some t\<rparr>)"
    have "manual_ok ?r" using 3 k own(1,3) f cov[of ?r "MUnregister p"]
      by (intro m_bits_step[OF ok, of _ t "MUnregister p"]) auto
    then show ?thesis using 3 by (intro m_advancesI) (simp_all add: m_step_defs)
  next
    case 4
    let ?r = "mgoto t (MDropUnlock p) (m_clear s)"
    have "manual_ok ?r" using 4 k own(1,3) bo cov[of ?r "MDropUnlock p"]
      by (intro m_bits_step[OF ok, of _ t "MDropUnlock p"]) auto
    then show ?thesis using 4 by (intro m_advancesI) (simp_all add: m_step_defs)
  qed
qed

lemma m_advance_release:
  assumes ok: "manual_ok s" and pc: "m_pcs s t = MDropUnlock p"
  shows "m_advances t s"
proof -
  note own = manual_ok_own[OF ok] and k = manual_ok_own(4,5)[OF ok, of t]
  obtain f where f: "m_phase s p = Some f" "f \<noteq> WAITING" using own(6)[of t p] k(1) pc by auto
  then obtain a where a: "m_heap s p = Some a" "phase a = f" using m_phase_at by blast
  let ?r = "mgoto t MIdle (m_release p (m_unlock s))"
  have "queue_ok ((m_heap s)(p := None)) (m_slow s)"
    using queue_ok_consume(2)[OF own(2) a(1), of awaiter_new] a(2) f(2) by (simp add: awaiter_new_def)
  then have "manual_ok ?r" using pc k f
    by (intro m_heap_step[OF ok, of _ t MIdle p None]) (auto simp: prior_only_upd simp del: fun_upd_apply)
  then show ?thesis using pc by (intro m_advancesI) (simp_all add: m_step_defs)
qed

lemma m_thread_advances:
  assumes ok: "manual_ok s" and busy: "m_pcs s t \<noteq> MIdle" and free: "m_wants_lock (m_pcs s t) \<Longrightarrow> m_mutex s = None"
  shows "m_advances t s"
proof (cases "m_pcs s t")
  case MSetOr
  then show ?thesis using m_advance_gate[OF ok] by simp
next
  case MAdvLock
  then show ?thesis using m_advance_set[OF ok, of t] free by simp
next
  case MAdv
  then show ?thesis using m_advance_generation[OF ok] by simp
next
  case MAdvUnlock
  then show ?thesis using m_advance_set[OF ok, of t] by simp
next
  case MLoop
  then show ?thesis using m_advance_set[OF ok, of t] free by simp
next
  case MNotify
  then show ?thesis using m_advance_notify[OF ok] by simp
next
  case (MClear v)
  then show ?thesis using m_advance_set[OF ok, of t v] by simp
next
  case (MUnlock v)
  then show ?thesis using m_advance_set[OF ok, of t v] by simp
next
  case MReset
  then show ?thesis using m_advance_set[OF ok, of t] by simp
next
  case MTryWait
  then show ?thesis using m_advance_poll[OF ok, of t] by simp
next
  case (MPoll1 p w)
  then show ?thesis using m_advance_poll[OF ok, of t p w] by simp
next
  case (MTake1 p w)
  then show ?thesis using m_advance_take[OF ok, of t p w] by simp
next
  case (MPollLock p w)
  then show ?thesis using m_advance_poll[OF ok, of t p w] free by simp
next
  case (MTake2 p w)
  then show ?thesis using m_advance_take[OF ok, of t p w] by simp
next
  case (MPoll2 p w)
  then show ?thesis using m_advance_poll[OF ok, of t p w] by simp
next
  case (MOr p w)
  then show ?thesis using m_advance_poll[OF ok, of t p w] by simp
next
  case (MPoll3 p w)
  then show ?thesis using m_advance_poll[OF ok, of t p w] by simp
next
  case (MPollClear p)
  then show ?thesis using m_advance_poll[OF ok, of t p] by simp
next
  case (MRegister p w)
  then show ?thesis using m_advance_register[OF ok, of t p w] by simp
next
  case (MPollUnlock p)
  then show ?thesis using m_advance_poll[OF ok, of t p] by simp
next
  case (MDropCheck p)
  then show ?thesis using m_advance_drop[OF ok, of t p] by simp
next
  case (MDropLock p)
  then show ?thesis using m_advance_drop[OF ok, of t p] free by simp
next
  case (MUnregister p)
  then show ?thesis using m_advance_unregister[OF ok, of t p] by simp
next
  case (MDropClear p)
  then show ?thesis using m_advance_drop[OF ok, of t p] by simp
next
  case (MDropUnlock p)
  then show ?thesis using m_advance_release[OF ok, of t p] by simp
qed (use busy in simp)

section \<open>Reachable states\<close>

lemma manual_ok_call:
  assumes ok: "manual_ok s" and idle: "m_pcs s t = MIdle" and c: "\<not> m_locked c" "\<And>f b pre cov. m_knows c f b pre cov"
    and fut: "\<And>p. m_future c = Some p \<Longrightarrow> p \<in> dom (m_heap s) \<and> (\<forall>u. m_future (m_pcs s u) \<noteq> Some p)"
  shows "manual_ok (mgoto t c s)"
proof -
  have "m_safe c (m_phase s) b pre cov" for b pre cov
    using c(2) fut by (auto simp: m_safe_def m_phase_def dom_def)
  moreover have "m_future c = None \<or> (\<forall>u. m_future (m_pcs s u) \<noteq> m_future c)"
    using fut by (cases "m_future c") auto
  moreover have "(pending_set s \<longrightarrow> pending_set (mgoto t c s)) \<and> (covered s \<longrightarrow> covered (mgoto t c s))"
    using covered_keep[of "mgoto t c s" s t c] idle by simp
  ultimately show ?thesis
    using manual_ok_own(1-3,5,7)[OF ok] c(1) idle
    by (intro manual_ok_step[OF ok, of _ t c]) (auto simp: m_meddles_def)
qed

lemma manual_ok_alloc:
  assumes ok: "manual_ok s" and p: "p \<noteq> 0" "m_heap s p = None"
  shows "manual_ok (s\<lparr>m_heap := (m_heap s)(p \<mapsto> awaiter_new)\<rparr>)"
proof -
  let ?r = "s\<lparr>m_heap := (m_heap s)(p \<mapsto> awaiter_new)\<rparr>"
  note inv = ok[unfolded manual_ok_def]
  have ph: "m_phase ?r = (m_phase s)(p \<mapsto> IDLE)" by (auto simp: m_phase_def awaiter_new_def)
  have np: "m_phase s p = None" using p(2) by (simp add: m_phase_def)
  obtain qs where qs: "queue_repr (m_heap s) (m_slow s) qs" "\<And>q. (m_phase s q = Some WAITING) = (q \<in> who ` set qs)"
    using queue_ok_phase[OF manual_ok_own(2)[OF ok]] by (auto simp: m_phase_def)
  have "queue_ok (m_heap ?r) (m_slow ?r) \<and> set_is_empty (m_slow ?r) = nobody_waits (map_option phase \<circ> m_heap ?r)"
  proof (rule queue_okI)
    show "queue_repr (m_heap ?r) (m_slow ?r) qs" using queue_repr_alloc[OF qs(1) p(2,1)] by simp
    show "q \<in> who ` set qs" if "(map_option phase \<circ> m_heap ?r) q = Some WAITING" for q
      using that qs(2) unfolding m_phase_def[of ?r, symmetric] ph by (auto split: if_splits)
  qed
  moreover have cov: "covered s \<longrightarrow> covered ?r"
    using prior_only_upd(1)[of "m_heap s" "m_slow s" awaiter_new p]
    by (auto simp: covered_def pending_set_def awaiter_new_def)
  moreover have pre: "pending_set ?r = pending_set s" by (simp add: pending_set_def)
  moreover have "m_safe (m_pcs s t) (m_phase ?r) (m_bits s) (pending_set ?r) (covered ?r)" for t
  proof (rule m_safe_frame[of _ "m_phase s" "m_bits s" "pending_set s" "covered s" False "Some p"])
    show safe: "m_safe (m_pcs s t) (m_phase s) (m_bits s) (pending_set s) (covered s)" using inv by blast
    show "Some p \<noteq> Some q" if "m_future (m_pcs s t) = Some q" for q
      using safe that np by (auto simp: m_safe_def)
    show "(pending_set s \<longrightarrow> pending_set ?r) \<and> (covered s \<longrightarrow> covered ?r)" using cov pre by blast
  qed (unfold ph, auto simp: m_meddles_def)
  moreover have "nobody_waits (m_phase ?r) \<or> mhw (m_bits s) \<and> \<not> gate (m_bits s) \<or> covered ?r"
    using inv ph cov by auto
  ultimately show ?thesis using inv unfolding manual_ok_def by simp
qed

lemma m_step_enabled:
  assumes "m_step t s = Some s'"
  shows "m_pcs s t \<noteq> MIdle" and "m_wants_lock (m_pcs s t) \<Longrightarrow> m_mutex s = None"
proof -
  show "m_pcs s t \<noteq> MIdle" using assms by (auto simp: m_step_defs)
  show "m_mutex s = None" if w: "m_wants_lock (m_pcs s t)"
  proof (rule ccontr)
    assume "m_mutex s \<noteq> None"
    with w have "m_step t s = None" by (cases "m_pcs s t") (simp_all add: m_step_defs)
    with assms show False by simp
  qed
qed

lemma manual_step_ok:
  assumes "manual_step s s'" and "manual_ok s"
  shows "advances_made s \<le> advances_made s' \<and> (Suc (advances_made s') < usize_range \<longrightarrow> manual_ok s')"
  using assms
proof (induction rule: manual_step.induct)
  case (m_call s t c)
  then show ?case using manual_ok_call[of s t c] by auto
next
  case (m_call_wait p s)
  then show ?case using manual_ok_alloc[of s p] by simp
next
  case (m_call_poll s t p w)
  then show ?case using manual_ok_call[of s t "MPoll1 p w"] by auto
next
  case (m_call_drop s t p)
  then show ?case using manual_ok_call[of s t "MDropCheck p"] by auto
next
  case (m_runs t s s')
  have "m_pcs s t \<noteq> MIdle" "m_wants_lock (m_pcs s t) \<Longrightarrow> m_mutex s = None"
    using m_step_enabled[OF m_runs.hyps] by blast+
  then have "m_advances t s" using m_thread_advances[OF m_runs.prems] by blast
  with m_runs.hyps show ?case by (auto simp: m_advances_def)
qed

lemma manual_step_mono: "manual_step s s' \<Longrightarrow> advances_made s \<le> advances_made s'"
proof (induction rule: manual_step.induct)
  case (m_runs t s s')
  then show ?case
    by (cases "m_pcs s t") (auto simp: m_step_defs m_take_def bind_eq_Some_iff split: if_splits option.splits)
qed auto

lemma manual_reachable_ok:
  "manual_reachable s \<Longrightarrow> Suc (advances_made s) < usize_range \<Longrightarrow> manual_ok s"
proof (induction rule: manual_reachable.induct)
  case (m_fresh n)
  have "queue_repr Map.empty (awaiter_set_new n) ([] :: 'a waiter list)" using m_fresh(1) by (intro queue_repr_new) auto
  then show ?case
    by (auto simp: manual_ok_def manual_sys_new_def queue_ok_def m_safe_def m_phase_def awaiter_set_new_def
        mbits_ok_def MANUAL_IDLE_def)
next
  case (m_onward s s')
  then show ?case using manual_step_mono[OF m_onward.hyps(2)] manual_step_ok[OF m_onward.hyps(2)] by auto
qed

section \<open>Properties\<close>

text \<open>A thread that runs alone, for at most \<open>n\<close> steps or until its call returns.\<close>

fun run_manual :: "nat \<Rightarrow> nat \<Rightarrow> 'w manual_sys \<Rightarrow> 'w manual_sys option" where
  "run_manual t 0 s = Some s"
| "run_manual t (Suc n) s = (if m_pcs s t = MIdle then Some s else m_step t s \<bind> run_manual t n)"

lemma run_manual_reachable: "manual_reachable s \<Longrightarrow> run_manual t n s = Some s' \<Longrightarrow> manual_reachable s'"
proof (induction n arbitrary: s)
  case (Suc n)
  then show ?case by (auto simp: bind_eq_Some_iff split: if_splits dest: manual_reachable.m_onward[OF _ manual_step.m_runs])
qed simp

lemma run_manual_idle: "m_pcs s t = MIdle \<Longrightarrow> run_manual t n s = Some s"
  by (cases n) auto

text \<open>The drain loop, alone, over a queue whose waiters all registered before the generation advanced.\<close>

lemma drain_alone:
  assumes "m_pcs s t = MLoop" and "m_mutex s = None" and "queue_repr (m_heap s) (m_slow s) qs"
    and "\<forall>p. (m_phase s p = Some WAITING) = (p \<in> who ` set qs)"
    and "\<forall>q \<in> set qs. since q < generation (m_slow s)" and "4 * length qs + 4 \<le> k"
  shows "\<exists>s'. run_manual t k s = Some s' \<and> m_pcs s' t = MIdle \<and> m_mutex s' = None
    \<and> m_phase s' = (\<lambda>p. if m_phase s p = Some WAITING then Some NOTIFIED else m_phase s p)
    \<and> m_woken s' = m_woken s @ map wake qs \<and> m_bits s' = m_bits s AND NOT MANUAL_HAS_WAITERS"
  using assms
proof (induction qs arbitrary: s k)
  case Nil
  obtain j where j: "k = Suc (Suc (Suc (Suc j)))" using le_Suc_ex[OF Nil(6)] by (auto simp: numeral_nat)
  have "set_notify_prior (m_heap s) (m_slow s) = Some (m_heap s, m_slow s, None)" "set_is_empty (m_slow s)"
    using notify_nobody[of "m_heap s" "m_slow s"] queue_repr_empty[of "m_heap s" "m_slow s" "[]"] Nil(3) by simp_all
  then have "run_manual t k s = run_manual t j (s\<lparr>m_pcs := (m_pcs s)(t := MIdle), m_mutex := None,
      m_bits := m_bits s AND NOT MANUAL_HAS_WAITERS\<rparr>)"
    using Nil(1,2) unfolding j by (cases s) (simp add: m_step_defs mgoto_def m_clear_def m_unlock_def)
  then show ?case using Nil(4) by (simp add: run_manual_idle) (auto simp: m_phase_def)
next
  case (Cons q qs)
  have "since q < generation (m_slow s)" using Cons.prems(5) by simp
  then obtain h ws where n: "set_notify_prior (m_heap s) (m_slow s) = Some (h, ws, Some (wake q))"
    "took_out (m_heap s) (m_slow s) q NOTIFIED qs h ws"
    using notify_prior_cases[OF Cons.prems(3)] by auto
  then have r: "queue_repr h ws qs" "map_option phase \<circ> h = (map_option phase \<circ> m_heap s)(who q \<mapsto> NOTIFIED)"
    "generation ws = generation (m_slow s)" by (simp_all add: took_out_def)
  obtain i where i: "k = 4 * Suc (length qs) + 4 + i" using le_Suc_ex[OF Cons.prems(6)] by auto
  define j where "j = 4 * length qs + 4 + i"
  have j: "k = Suc (Suc (Suc (Suc j)))" "4 * length qs + 4 \<le> j" using i by (simp_all add: j_def)
  let ?b = "if set_is_empty ws then m_bits s AND NOT MANUAL_HAS_WAITERS else m_bits s"
  let ?f = "if set_is_empty ws then j else Suc j"
  let ?m = "s\<lparr>m_pcs := (m_pcs s)(t := MLoop), m_heap := h, m_slow := ws, m_bits := ?b,
    m_woken := m_woken s @ [wake q]\<rparr>"
  have step: "run_manual t k s = run_manual t ?f ?m"
    using n(1) Cons.prems(1,2) unfolding j(1)
    by (cases s) (simp add: m_step_defs mgoto_def m_unlock_def m_clear_def)
  have ph: "m_phase ?m = (m_phase s)(who q \<mapsto> NOTIFIED)" using r(2) by (simp add: m_phase_def)
  have q: "m_phase s (who q) = Some WAITING" using Cons.prems(4) by simp
  have "distinct (map who (q # qs))" using Cons.prems(3) by (simp add: queue_repr_def)
  then have rest: "\<forall>p. (m_phase ?m p = Some WAITING) = (p \<in> who ` set qs)"
    unfolding ph using Cons.prems(4) by (auto simp: image_iff)
  have "\<exists>s'. run_manual t ?f ?m = Some s' \<and> m_pcs s' t = MIdle \<and> m_mutex s' = None
    \<and> m_phase s' = (\<lambda>p. if m_phase ?m p = Some WAITING then Some NOTIFIED else m_phase ?m p)
    \<and> m_woken s' = m_woken ?m @ map wake qs \<and> m_bits s' = m_bits ?m AND NOT MANUAL_HAS_WAITERS"
    by (rule Cons.IH) (use r rest Cons.prems j(2) in simp_all)
  then obtain s' where s': "run_manual t ?f ?m = Some s'" "m_pcs s' t = MIdle" "m_mutex s' = None"
    "m_phase s' = (\<lambda>p. if m_phase ?m p = Some WAITING then Some NOTIFIED else m_phase ?m p)"
    "m_woken s' = m_woken ?m @ map wake qs" "m_bits s' = m_bits ?m AND NOT MANUAL_HAS_WAITERS" by blast
  have "m_phase s' = (\<lambda>p. if m_phase s p = Some WAITING then Some NOTIFIED else m_phase s p)"
    unfolding s'(4) ph using q by auto
  moreover have "m_bits s' = m_bits s AND NOT MANUAL_HAS_WAITERS"
    unfolding s'(6) by (simp add: and.assoc)
  moreover have "m_woken s' = m_woken s @ map wake (q # qs)" using s'(5) by simp
  ultimately show ?case using s'(1-3) unfolding step by blast
qed

text \<open>The wakers of a queue are those stored in its awaiters, one each.\<close>

lemma queue_repr_wakers:
  assumes "queue_repr h s qs"
  shows "image_mset Some (mset (map wake qs)) = image_mset (\<lambda>p. h p \<bind> waker) (mset_set (who ` set qs))"
proof -
  have "distinct (map who qs)" using assms by (simp add: queue_repr_def)
  then have "mset_set (who ` set qs) = mset (map who qs)"
    using mset_set_set[of "map who qs"] by simp
  moreover have "h (who q) \<bind> waker = Some (wake q)" if "q \<in> set qs" for q
    using assms that by (auto simp: queue_repr_def holds_def split: option.splits)
  then have "image_mset (\<lambda>q. h (who q) \<bind> waker) (mset qs) = image_mset (\<lambda>q. Some (wake q)) (mset qs)"
    by (intro image_mset_cong) simp
  ultimately show ?thesis by (simp add: multiset.map_comp comp_def)
qed

lemma queue_ok_finite: "queue_ok (m_heap s) (m_slow s) \<Longrightarrow> finite {p. m_phase s p = Some WAITING}"
proof -
  assume q: "queue_ok (m_heap s) (m_slow s)"
  obtain qs where "queue_repr (m_heap s) (m_slow s) qs"
    "\<And>p. ((map_option phase \<circ> m_heap s) p = Some WAITING) = (p \<in> who ` set qs)"
    using queue_ok_phase[OF q] by blast
  then have "{p. m_phase s p = Some WAITING} = who ` set qs" by (simp add: m_phase_def del: comp_apply)
  then show ?thesis by simp
qed

text \<open>C8: In every reachable state of the concurrent manual-reset event, as long as the 64-bit generation has
  not run out: if some future waits although the gate is open or \<open>HAS_WAITERS\<close> is clear, then a call of
  \<open>set\<close> is under way that has yet to advance the generation, or one that is draining and everybody who
  waits registered before its generation. So when no \<open>set\<close> is under way, a clear \<open>HAS_WAITERS\<close> does mean
  an empty set, and nobody waits at an open gate.\<close>

theorem manual_event_sound:
  assumes "manual_reachable s" and "Suc (advances_made s) < usize_range"
  shows "(\<forall>p a. m_heap s p = Some a \<and> phase a = WAITING \<longrightarrow>
      m_bits s AND MANUAL_HAS_WAITERS \<noteq> 0 \<and> m_bits s AND IS_SET = 0 \<or> covered s)
    \<and> ((\<forall>t. \<not> before_advance (m_pcs s t) \<and> \<not> draining (m_pcs s t)) \<longrightarrow>
      m_bits s AND MANUAL_HAS_WAITERS = 0 \<or> m_bits s AND IS_SET \<noteq> 0 \<longrightarrow> set_is_empty (m_slow s))"
proof -
  have ok: "manual_ok s" using manual_reachable_ok[OF assms] .
  obtain qs where qs: "queue_repr (m_heap s) (m_slow s) qs" "\<And>q. (m_phase s q = Some WAITING) = (q \<in> who ` set qs)"
    using queue_ok_phase[OF manual_ok_own(2)[OF ok]] by (auto simp: m_phase_def)
  have empty: "set_is_empty (m_slow s) = nobody_waits (m_phase s)"
    using queue_repr_empty[OF qs(1)] qs(2) by (cases qs) (auto simp del: not_None_eq)
  have w: "nobody_waits (m_phase s) \<or> mhw (m_bits s) \<and> \<not> gate (m_bits s) \<or> covered s"
    using manual_ok_own(3)[OF ok] .
  have "m_bits s AND MANUAL_HAS_WAITERS \<noteq> 0 \<and> m_bits s AND IS_SET = 0 \<or> covered s"
    if "m_heap s p = Some a \<and> phase a = WAITING" for p a
  proof -
    have "m_phase s p = Some WAITING" using that by (simp add: m_phase_def)
    with w show ?thesis by blast
  qed
  moreover have "\<not> covered s" if "\<forall>t. \<not> before_advance (m_pcs s t) \<and> \<not> draining (m_pcs s t)"
    using that by (simp add: covered_def pending_set_def)
  ultimately show ?thesis using w empty by blast
qed

text \<open>A trace: a first future registers; a second is about to set \<open>HAS_WAITERS\<close> when another thread calls
  \<open>set\<close>; its last check of the gate then clears the bit although the first future is registered.\<close>

definition manual_demo :: "nat manual_sys" where
  "manual_demo = mgoto 1 (MPoll1 8 100)
     ((manual_sys_new 1)\<lparr>m_heap := Map.empty(8 \<mapsto> awaiter_new, 16 \<mapsto> awaiter_new)\<rparr>)"

definition manual_race :: "nat manual_sys option" where
  "manual_race = do {
     s \<leftarrow> run_manual 1 9 manual_demo;
     s \<leftarrow> run_manual 2 5 (mgoto 2 (MPoll1 16 200) s);
     s \<leftarrow> run_manual 3 1 (mgoto 3 MSetOr s);
     run_manual 2 3 s
   }"

lemmas manual_eval = manual_sys_new_def MANUAL_IDLE_def IS_SET_def MANUAL_HAS_WAITERS_def awaiter_new_def
  awaiter_set_new_def m_step_defs m_take_def m_pass_def mgoto_def m_unlock_def m_clear_def m_is_set_def
  take_notification_def set_register_def set_is_empty_def Let_def

lemma manual_demo_reachable: "manual_reachable manual_demo"
proof -
  let ?n = "manual_sys_new 1 :: nat manual_sys" and ?h = "Map.empty(8 \<mapsto> awaiter_new) :: nat awaiter_heap"
  have "manual_reachable ?n" by (intro manual_reachable.m_fresh) simp
  then have "manual_reachable (?n\<lparr>m_heap := (m_heap ?n)(8 \<mapsto> awaiter_new)\<rparr>)"
    by (intro manual_reachable.m_onward[OF _ manual_step.m_call_wait]) (simp_all add: manual_sys_new_def)
  then have "manual_reachable (?n\<lparr>m_heap := ?h\<rparr>)" by (simp add: manual_sys_new_def)
  then have "manual_reachable ((?n\<lparr>m_heap := ?h\<rparr>)\<lparr>m_heap := (m_heap (?n\<lparr>m_heap := ?h\<rparr>))(16 \<mapsto> awaiter_new)\<rparr>)"
    by (intro manual_reachable.m_onward[OF _ manual_step.m_call_wait]) simp_all
  then have "manual_reachable (?n\<lparr>m_heap := ?h(16 \<mapsto> awaiter_new)\<rparr>)" by simp
  then have "manual_reachable (mgoto 1 (MPoll1 8 100) (?n\<lparr>m_heap := ?h(16 \<mapsto> awaiter_new)\<rparr>))"
    by (intro manual_reachable.m_onward[OF _ manual_step.m_call_poll]) (simp_all add: manual_sys_new_def)
  then show ?thesis by (simp add: manual_demo_def)
qed

lemma manual_race_runs:
  "\<exists>s. manual_race = Some s \<and> m_bits s = IS_SET \<and> \<not> set_is_empty (m_slow s) \<and> advances_made s = 0"
  by (simp add: manual_race_def manual_demo_def manual_eval numeral_nat)

lemma manual_race_reachable: "manual_race = Some s \<Longrightarrow> manual_reachable s"
proof -
  assume "manual_race = Some s"
  then obtain s1 s2 s3 where r: "run_manual 1 9 manual_demo = Some s1"
    "run_manual 2 5 (mgoto 2 (MPoll1 16 200) s1) = Some s2" "run_manual 3 1 (mgoto 3 MSetOr s2) = Some s3"
    "run_manual 2 3 s3 = Some s" by (auto simp: manual_race_def bind_eq_Some_iff)
  note r1 = run_manual_reachable[OF manual_demo_reachable r(1)]
  have "m_pcs s1 t = MIdle" "16 \<in> dom (m_heap s1)" for t
    using r(1) by (simp add: manual_demo_def manual_eval numeral_nat; force)+
  then have "manual_reachable (mgoto 2 (MPoll1 16 200) s1)"
    by (intro manual_reachable.m_onward[OF r1 manual_step.m_call_poll]) simp_all
  note r2 = run_manual_reachable[OF this r(2)]
  have "m_pcs s2 3 = MIdle" using r(1,2) by (auto simp: manual_demo_def manual_eval numeral_nat)
  then have "manual_reachable (mgoto 3 MSetOr s2)"
    by (intro manual_reachable.m_onward[OF r2 manual_step.m_call]) simp_all
  from run_manual_reachable[OF this r(3)] r(4) show ?thesis by (rule run_manual_reachable)
qed

theorem manual_event_sound_witness:
  "\<exists>s. manual_race = Some s \<and> (\<forall>p a. m_heap s p = Some a \<and> phase a = WAITING \<longrightarrow> covered s)"
proof -
  obtain s where s: "manual_race = Some s" "m_bits s = IS_SET" "advances_made s = 0" using manual_race_runs by blast
  have "m_heap s p = Some a \<and> phase a = WAITING \<longrightarrow> covered s" for p a
    using manual_event_sound[OF manual_race_reachable[OF s(1)]] s(2,3)
    by (auto simp: IS_SET_def MANUAL_HAS_WAITERS_def)
  with s(1) show ?thesis by blast
qed

text \<open>The source states as its key invariant that a clear \<open>HAS_WAITERS\<close> means an empty awaiter set. It
  is not one: a state where the bit is clear and a future is registered can be reached.\<close>

theorem manual_has_waiters_misses:
  "\<exists>s. manual_reachable (s :: nat manual_sys) \<and> m_bits s AND MANUAL_HAS_WAITERS = 0 \<and> \<not> set_is_empty (m_slow s)"
proof -
  obtain s where s: "manual_race = Some s" "m_bits s = IS_SET" "\<not> set_is_empty (m_slow s)" using manual_race_runs by blast
  then show ?thesis using manual_race_reachable[OF s(1)]
    by (intro exI[of _ s]) (simp add: IS_SET_def MANUAL_HAS_WAITERS_def)
qed

text \<open>C27: In every reachable state of the manual-reset event, as long as the 64-bit generation has not run out, a thread inside a call can take its next step,
  or waits for the mutex whose holder can: no assertion fails, no freed awaiter is read, nothing
  deadlocks.\<close>

theorem manual_event_progress:
  assumes "manual_reachable s" and "Suc (advances_made s) < usize_range" and "m_pcs s t \<noteq> MIdle"
  shows "(\<exists>s'. m_step t s = Some s')
    \<or> m_wants_lock (m_pcs s t) \<and> (\<exists>u s'. m_mutex s = Some u \<and> m_step u s = Some s')"
proof (cases "m_wants_lock (m_pcs s t) \<and> m_mutex s \<noteq> None")
  case True
  have ok: "manual_ok s" using manual_reachable_ok[OF assms(1,2)] .
  obtain u where u: "m_mutex s = Some u" using True by auto
  then have "m_locked (m_pcs s u)" using manual_ok_own(5)[OF ok, of u] by simp
  then have "m_pcs s u \<noteq> MIdle" "\<not> m_wants_lock (m_pcs s u)" by (cases "m_pcs s u"; simp)+
  then have "m_advances u s" using m_thread_advances[OF ok] by blast
  with True u show ?thesis by (auto simp: m_advances_def)
next
  case False
  then show ?thesis using m_thread_advances[of s t] manual_reachable_ok[OF assms(1,2)] assms(3)
    by (auto simp: m_advances_def)
qed

theorem manual_event_progress_witness: "\<exists>s'. m_step 1 manual_demo = Some s'"
  using manual_event_progress[OF manual_demo_reachable, of 1]
  by (simp add: manual_demo_def manual_sys_new_def usize_range_def)

text \<open>C28: From any reachable state where \<open>HAS_WAITERS\<close> is set and fewer than \<open>2 ^ 64 - 2\<close> generations were
  opened, a call of \<open>set\<close> that runs undisturbed returns after at most four steps per waiting future and
  eight more. It opens the gate, moves every waiting future, and no other, to notified, clears
  \<open>HAS_WAITERS\<close>, and invokes exactly the wakers of the waiting futures, each once, in the order of the
  set. The wakers return.\<close>

theorem manual_set_wakes_all:
  assumes "manual_reachable s" and "Suc (Suc (advances_made s)) < usize_range"
    and "m_pcs s t = MSetOr" and "m_mutex s = None" and "m_bits s AND MANUAL_HAS_WAITERS \<noteq> 0"
  shows "\<exists>s' qs. run_manual t (4 * card {p. m_phase s p = Some WAITING} + 8) s = Some s'
    \<and> m_pcs s' t = MIdle \<and> m_mutex s' = None
    \<and> m_phase s' = (\<lambda>p. if m_phase s p = Some WAITING then Some NOTIFIED else m_phase s p)
    \<and> queue_repr (m_heap s) (m_slow s) qs \<and> m_woken s' = m_woken s @ map wake qs
    \<and> image_mset Some (mset (map wake qs))
        = image_mset (\<lambda>p. m_heap s p \<bind> waker) (mset_set {p. m_phase s p = Some WAITING})
    \<and> length qs = card {p. m_phase s p = Some WAITING}
    \<and> m_bits s' = (m_bits s OR IS_SET) AND NOT MANUAL_HAS_WAITERS"
proof -
  have ok: "manual_ok s" using manual_reachable_ok[OF assms(1)] assms(2) by simp
  obtain qs where qs: "queue_repr (m_heap s) (m_slow s) qs"
    "\<And>p. (m_phase s p = Some WAITING) = (p \<in> who ` set qs)"
    using queue_ok_phase[OF manual_ok_own(2)[OF ok]] by (auto simp: m_phase_def)
  have waiting: "{p. m_phase s p = Some WAITING} = who ` set qs" using qs(2) by blast
  have "distinct (map who qs)" using qs(1) by (simp add: queue_repr_def)
  then have n: "card {p. m_phase s p = Some WAITING} = length qs"
    unfolding waiting using distinct_card[of "map who qs"] by simp
  let ?ws = "advance_generation (m_slow s)"
  let ?s = "s\<lparr>m_pcs := (m_pcs s)(t := MLoop), m_bits := m_bits s OR IS_SET,
    m_slow := ?ws, advances_made := Suc (advances_made s)\<rparr>"
  have eight: "4 * length qs + 8 = Suc (Suc (Suc (Suc (4 * length qs + 4))))" by simp
  have "run_manual t (Suc (Suc (Suc (Suc k)))) s = run_manual t k ?s" for k
    using assms(3-5) by (cases s) (simp add: m_step_defs mgoto_def m_unlock_def)
  then have four: "run_manual t (4 * length qs + 8) s = run_manual t (4 * length qs + 4) ?s" unfolding eight .
  have ph: "m_phase ?s = m_phase s" by (simp add: m_phase_def)
  have g: "generation (m_slow s) = Suc (advances_made s)" using manual_ok_own(7)[OF ok] by simp
  have adv: "queue_repr (m_heap s) ?ws qs" "generation ?ws = Suc (generation (m_slow s))"
    using awaiters.advance_ok[of "(m_heap s, m_slow s)" qs] qs(1) g assms(2) by (simp_all add: world_queued_def)
  have old: "\<forall>q \<in> set qs. since q < generation ?ws" using qs(1) adv(2) by (auto simp: queue_repr_def less_Suc_eq_le)
  have "\<exists>s'. run_manual t (4 * length qs + 4) ?s = Some s' \<and> m_pcs s' t = MIdle \<and> m_mutex s' = None
    \<and> m_phase s' = (\<lambda>p. if m_phase ?s p = Some WAITING then Some NOTIFIED else m_phase ?s p)
    \<and> m_woken s' = m_woken ?s @ map wake qs \<and> m_bits s' = m_bits ?s AND NOT MANUAL_HAS_WAITERS"
    by (rule drain_alone) (use assms(4) adv(1) old ph qs(2) in simp_all)
  then obtain s' where s': "run_manual t (4 * length qs + 8) s = Some s'" "m_pcs s' t = MIdle" "m_mutex s' = None"
    "m_phase s' = (\<lambda>p. if m_phase s p = Some WAITING then Some NOTIFIED else m_phase s p)"
    "m_woken s' = m_woken s @ map wake qs" "m_bits s' = (m_bits s OR IS_SET) AND NOT MANUAL_HAS_WAITERS"
    unfolding four ph by auto
  show ?thesis
    unfolding n unfolding waiting
    by (intro exI[of _ s'] exI[of _ qs] conjI s' qs(1) queue_repr_wakers[OF qs(1)] refl)
qed

theorem manual_set_wakes_all_witness:
  "\<exists>s s'. run_manual 1 9 manual_demo = Some s
     \<and> run_manual 2 (4 * card {p. m_phase s p = Some WAITING} + 8) (mgoto 2 MSetOr s) = Some s'
     \<and> m_woken s' = m_woken s @ [100]"
proof -
  obtain s where s: "run_manual 1 9 manual_demo = Some s" "m_pcs s 2 = MIdle" "m_mutex s = None"
    "m_bits s = MANUAL_HAS_WAITERS" "advances_made s = 0" "m_heap s 8 \<bind> waker = Some 100"
    "m_phase s = [8 \<mapsto> WAITING, 16 \<mapsto> IDLE]"
    by (simp add: manual_demo_def manual_eval numeral_nat m_phase_def fun_eq_iff)
  have "manual_reachable (mgoto 2 MSetOr s)"
    using manual_reachable.m_onward[OF run_manual_reachable[OF manual_demo_reachable s(1)] manual_step.m_call[of s 2 MSetOr]]
      s(2) by simp
  then obtain s' and qs :: "nat waiter list" where r: "run_manual 2 (4 * card {p. m_phase s p = Some WAITING} + 8) (mgoto 2 MSetOr s) = Some s'"
    "m_woken s' = m_woken s @ map wake qs"
    "image_mset Some (mset (map wake qs)) = image_mset (\<lambda>p. m_heap s p \<bind> waker) (mset_set {p. m_phase s p = Some WAITING})"
  proof -
    have m: "m_phase (mgoto 2 MSetOr s) = m_phase s" "m_heap (mgoto 2 MSetOr s) = m_heap s"
        "m_woken (mgoto 2 MSetOr s) = m_woken s"
      by (simp_all add: mgoto_def m_phase_def)
    have "Suc (Suc (advances_made (mgoto 2 MSetOr s))) < usize_range" "m_pcs (mgoto 2 MSetOr s) 2 = MSetOr"
        "m_mutex (mgoto 2 MSetOr s) = None" "m_bits (mgoto 2 MSetOr s) AND MANUAL_HAS_WAITERS \<noteq> 0"
      using s(3-5) by (simp_all add: MANUAL_HAS_WAITERS_def usize_range_def mgoto_def)
    from manual_set_wakes_all[OF \<open>manual_reachable (mgoto 2 MSetOr s)\<close> this] show thesis
      unfolding m by (elim exE conjE) (rule that)
  qed
  have "{p. m_phase s p = Some WAITING} = {8}" using s(7) by auto
  then have "map wake qs = [100]" using r(3) s(6) by (cases qs) auto
  then show ?thesis using s(1) r(1,2) by (intro exI[of _ s] exI[of _ s']) simp
qed

end
