(* ===== verification/EventOnce.thy ===== *)
theory EventOnce
  imports Prelude "HOL-Library.Multiset"
begin

text \<open>
  Package \<open>events_once\<close>, \<open>core/state.rs\<close>, \<open>core/sync/event.rs\<close>, \<open>core/sync_sender.rs\<close> and
  \<open>core/sync_receiver.rs\<close>: the thread-safe event that hands at most one value from a sender to a
  receiver, as a transition system of the two endpoints.

  \<^item> A step is one atomic operation on the state byte, one access to a cell, one release of the
    storage or one call of user code. Sender and receiver interleave arbitrarily; memory is
    sequentially consistent.
  \<^item> \<open>MaybeUninit\<close> cells are options, \<open>None\<close> while uninitialized. Reading an uninitialized cell, touching
    an event whose storage is released, releasing it again and the \<open>unreachable!\<close> arms have no next
    state.
  \<^item> User code that runs inside \<open>poll\<close> (cloning a waker, dropping the previous one) may unwind; the
    parameter \<open>unwinds\<close> of a receiver step says whether it does. Unwinding out of the sender's \<open>wake\<close>
    or out of the destructors that run last changes nothing of the event.
  \<^item> Debug-only backtraces are not modelled.
\<close>

section \<open>Model\<close>

definition EVENT_BOUND :: "8 word" where "EVENT_BOUND = 0"
definition EVENT_SET :: "8 word" where "EVENT_SET = 1"
definition EVENT_AWAITING :: "8 word" where "EVENT_AWAITING = 2"
definition EVENT_SIGNALING :: "8 word" where "EVENT_SIGNALING = 3"
definition EVENT_DISCONNECTED :: "8 word" where "EVENT_DISCONNECTED = 4"

text \<open>Where the sender is in \<open>send\<close> or in its destructor.\<close>

datatype ('v, 'w) sender_pc =
    SOpen | SWrite 'v | SAdd | SSwap | SWaker "8 word" | SPublish "8 word" "'w option"
  | SReclaim | SRelease "'v option" | SWake 'w | SDone

text \<open>What \<open>poll\<close> does once a waker is destroyed.\<close>

datatype 'w after = ToWrite 'w | ToTake | ToSpin | ToGone

text \<open>Where the receiver is in \<open>poll\<close>, \<open>into_value\<close> or its destructor.\<close>

datatype ('v, 'w) receiver_pc =
    ROpen | RPoll 'w | RWrite 'w | RCas | RDestroy "'w after" | RUnregister 'w | RSpin | RTake
  | RFinish "'v option" | RInto | RExchange
  | RCancel | RCancelWaker | RCancelLoad "'w option" | RCancelCas "8 word" "'w option"
  | RCancelValue "'w option" | RCancelRelease "'v option" "'w option" | RDone

text \<open>
  \<open>sent\<close>, \<open>outcome\<close>, \<open>discarded\<close>, \<open>woken\<close> and \<open>retired\<close> record the value sent, what the receiver got
  (\<open>Some None\<close> is a disconnection), the payloads dropped unread, the wakers invoked and the wakers
  dropped; \<open>cloned\<close> the wakers stored.
\<close>

record ('v, 'w) once =
  state :: "8 word"
  awaiter_cell :: "'w option"
  value_cell :: "'v option"
  released :: bool
  sender :: "('v, 'w) sender_pc"
  receiver :: "('v, 'w) receiver_pc"
  sent :: "'v option"
  outcome :: "'v option option"
  discarded :: "'v list"
  woken :: "'w list"
  retired :: "'w list"
  cloned :: "'w list"

definition once_new :: "('v, 'w) once" where
  "once_new = \<lparr>state = EVENT_BOUND, awaiter_cell = None, value_cell = None, released = False,
     sender = SOpen, receiver = ROpen, sent = None, outcome = None, discarded = [], woken = [],
     retired = [], cloned = []\<rparr>"

definition release_event :: "('v, 'w) once \<Rightarrow> ('v, 'w) once option" where
  "release_event e = do { require (\<not> released e); Some (e\<lparr>released := True\<rparr>) }"

text \<open>\<open>Event::set\<close>: after the increment, by the previous state.\<close>

definition set_transition :: "('v, 'w) once \<Rightarrow> ('v, 'w) once option" where
  "set_transition e =
     (let prev = state e; e = e\<lparr>state := prev + 1\<rparr>
      in if prev = EVENT_BOUND then Some (e\<lparr>sender := SDone\<rparr>)
         else if prev = EVENT_AWAITING then Some (e\<lparr>sender := SWaker EVENT_SET\<rparr>)
         else if prev = EVENT_DISCONNECTED then Some (e\<lparr>sender := SReclaim\<rparr>)
         else None)"

text \<open>\<open>Event::sender_dropped_without_set\<close>: after the swap, by the previous state.\<close>

definition disconnect_transition :: "('v, 'w) once \<Rightarrow> ('v, 'w) once option" where
  "disconnect_transition e =
     (let prev = state e; e = e\<lparr>state := EVENT_SIGNALING\<rparr>
      in if prev = EVENT_BOUND then Some (e\<lparr>sender := SPublish EVENT_DISCONNECTED None\<rparr>)
         else if prev = EVENT_AWAITING then Some (e\<lparr>sender := SWaker EVENT_DISCONNECTED\<rparr>)
         else if prev = EVENT_DISCONNECTED then Some (e\<lparr>sender := SRelease None\<rparr>)
         else None)"

text \<open>Whether the next step of an endpoint touches the event.\<close>

fun s_touches :: "('v, 'w) sender_pc \<Rightarrow> bool" where
  "s_touches SOpen = False" | "s_touches (SWake w) = False" | "s_touches SDone = False" | "s_touches c = True"

definition sender_step :: "('v, 'w) once \<Rightarrow> ('v, 'w) once option" where
  "sender_step e = do {
     require (s_touches (sender e) \<longrightarrow> \<not> released e);
     case sender e of
       SWrite v \<Rightarrow> Some (e\<lparr>value_cell := Some v, sent := Some v, sender := SAdd\<rparr>)
     | SAdd \<Rightarrow> set_transition e
     | SSwap \<Rightarrow> disconnect_transition e
     | SWaker f \<Rightarrow> do { w \<leftarrow> awaiter_cell e; Some (e\<lparr>awaiter_cell := None, sender := SPublish f (Some w)\<rparr>) }
     | SPublish f ow \<Rightarrow> Some (e\<lparr>state := f, sender := (case ow of None \<Rightarrow> SDone | Some w \<Rightarrow> SWake w)\<rparr>)
     | SWake w \<Rightarrow> Some (e\<lparr>woken := woken e @ [w], sender := SDone\<rparr>)
     | SReclaim \<Rightarrow> do { v \<leftarrow> value_cell e; Some (e\<lparr>value_cell := None, sender := SRelease (Some v)\<rparr>) }
     | SRelease ov \<Rightarrow> do {
         e \<leftarrow> release_event e;
         Some (e\<lparr>discarded := discarded e @ (case ov of None \<Rightarrow> [] | Some v \<Rightarrow> [v]), sender := SDone\<rparr>)
       }
     | _ \<Rightarrow> None
   }"

fun r_touches :: "('v, 'w) receiver_pc \<Rightarrow> bool" where
  "r_touches ROpen = False" | "r_touches RDone = False" | "r_touches c = True"

text \<open>\<open>Event::poll\<close> and the dispatch on the observed state, for a first look and after a spin.\<close>

definition poll_dispatch :: "'w \<Rightarrow> ('v, 'w) once \<Rightarrow> ('v, 'w) once option" where
  "poll_dispatch w e =
     (if state e = EVENT_BOUND then Some (e\<lparr>receiver := RWrite w\<rparr>)
      else if state e = EVENT_SET then Some (e\<lparr>receiver := RTake\<rparr>)
      else if state e = EVENT_AWAITING then Some (e\<lparr>receiver := RUnregister w\<rparr>)
      else if state e = EVENT_SIGNALING then Some (e\<lparr>receiver := RSpin\<rparr>)
      else if state e = EVENT_DISCONNECTED then Some (e\<lparr>receiver := RFinish None\<rparr>)
      else None)"

definition poll_bound_cas :: "('v, 'w) once \<Rightarrow> ('v, 'w) once option" where
  "poll_bound_cas e =
     (if state e = EVENT_BOUND then Some (e\<lparr>state := EVENT_AWAITING, receiver := ROpen\<rparr>)
      else if state e = EVENT_SET then Some (e\<lparr>receiver := RDestroy ToTake\<rparr>)
      else if state e = EVENT_SIGNALING then Some (e\<lparr>receiver := RDestroy ToSpin\<rparr>)
      else if state e = EVENT_DISCONNECTED then Some (e\<lparr>receiver := RDestroy ToGone\<rparr>)
      else None)"

definition poll_awaiting_cas :: "'w \<Rightarrow> ('v, 'w) once \<Rightarrow> ('v, 'w) once option" where
  "poll_awaiting_cas w e =
     (if state e = EVENT_AWAITING then Some (e\<lparr>state := EVENT_BOUND, receiver := RDestroy (ToWrite w)\<rparr>)
      else if state e = EVENT_SET then Some (e\<lparr>receiver := RTake\<rparr>)
      else if state e = EVENT_SIGNALING then Some (e\<lparr>receiver := RSpin\<rparr>)
      else if state e = EVENT_DISCONNECTED then Some (e\<lparr>receiver := RFinish None\<rparr>)
      else None)"

definition poll_signaling :: "('v, 'w) once \<Rightarrow> ('v, 'w) once option" where
  "poll_signaling e =
     (if state e = EVENT_SIGNALING then Some e
      else if state e = EVENT_SET then Some (e\<lparr>receiver := RTake\<rparr>)
      else if state e = EVENT_DISCONNECTED then Some (e\<lparr>receiver := RFinish None\<rparr>)
      else None)"

definition destroy_awaiter :: "bool \<Rightarrow> 'w after \<Rightarrow> ('v, 'w) once \<Rightarrow> ('v, 'w) once option" where
  "destroy_awaiter unwinds k e = do {
     w \<leftarrow> awaiter_cell e;
     let e = e\<lparr>awaiter_cell := None, retired := retired e @ [w]\<rparr>;
     Some (e\<lparr>receiver := (if unwinds then ROpen
       else (case k of ToWrite w' \<Rightarrow> RWrite w' | ToTake \<Rightarrow> RTake | ToSpin \<Rightarrow> RSpin | ToGone \<Rightarrow> RFinish None))\<rparr>)
   }"

text \<open>\<open>Event::take_result\<close>: the exchange of a completed event.\<close>

definition take_result :: "('v, 'w) once \<Rightarrow> ('v, 'w) once option" where
  "take_result e =
     (let prev = state e; e = e\<lparr>state := EVENT_DISCONNECTED\<rparr>
      in if prev = EVENT_SET then Some (e\<lparr>receiver := RTake\<rparr>)
         else if prev = EVENT_DISCONNECTED then Some (e\<lparr>receiver := RFinish None\<rparr>)
         else None)"

text \<open>\<open>Event::cancel\<close>: the loop that publishes the disconnection.\<close>

definition cancel_cas :: "8 word \<Rightarrow> 'w option \<Rightarrow> ('v, 'w) once \<Rightarrow> ('v, 'w) once option" where
  "cancel_cas current ow e =
     (if state e \<noteq> current then Some (e\<lparr>receiver := RCancelLoad ow\<rparr>)
      else let e = e\<lparr>state := EVENT_DISCONNECTED\<rparr>
        in if current = EVENT_BOUND
           then Some (e\<lparr>retired := retired e @ (case ow of None \<Rightarrow> [] | Some w \<Rightarrow> [w]), receiver := RDone\<rparr>)
           else if current = EVENT_SET then Some (e\<lparr>receiver := RCancelValue ow\<rparr>)
           else if current = EVENT_DISCONNECTED then Some (e\<lparr>receiver := RCancelRelease None ow\<rparr>)
           else None)"

definition receiver_step :: "bool \<Rightarrow> ('v, 'w) once \<Rightarrow> ('v, 'w) once option" where
  "receiver_step unwinds e = do {
     require (r_touches (receiver e) \<longrightarrow> \<not> released e);
     case receiver e of
       RPoll w \<Rightarrow> poll_dispatch w e
     | RWrite w \<Rightarrow> Some (if unwinds then e\<lparr>receiver := ROpen\<rparr>
         else e\<lparr>awaiter_cell := Some w, cloned := cloned e @ [w], receiver := RCas\<rparr>)
     | RCas \<Rightarrow> poll_bound_cas e
     | RDestroy k \<Rightarrow> destroy_awaiter unwinds k e
     | RUnregister w \<Rightarrow> poll_awaiting_cas w e
     | RSpin \<Rightarrow> poll_signaling e
     | RTake \<Rightarrow> do { v \<leftarrow> value_cell e; Some (e\<lparr>value_cell := None, receiver := RFinish (Some v)\<rparr>) }
     | RFinish r \<Rightarrow> do { e \<leftarrow> release_event e; Some (e\<lparr>outcome := Some r, receiver := RDone\<rparr>) }
     | RInto \<Rightarrow>
         if state e \<in> {EVENT_BOUND, EVENT_AWAITING, EVENT_SIGNALING} then Some (e\<lparr>receiver := ROpen\<rparr>)
         else if state e \<in> {EVENT_SET, EVENT_DISCONNECTED} then Some (e\<lparr>receiver := RExchange\<rparr>)
         else None
     | RExchange \<Rightarrow> take_result e
     | RCancel \<Rightarrow> Some (if state e = EVENT_AWAITING then e\<lparr>state := EVENT_BOUND, receiver := RCancelWaker\<rparr>
         else e\<lparr>receiver := RCancelLoad None\<rparr>)
     | RCancelWaker \<Rightarrow> do { w \<leftarrow> awaiter_cell e; Some (e\<lparr>awaiter_cell := None, receiver := RCancelLoad (Some w)\<rparr>) }
     | RCancelLoad ow \<Rightarrow> Some (if state e = EVENT_SIGNALING then e else e\<lparr>receiver := RCancelCas (state e) ow\<rparr>)
     | RCancelCas c ow \<Rightarrow> cancel_cas c ow e
     | RCancelValue ow \<Rightarrow> do { v \<leftarrow> value_cell e; Some (e\<lparr>value_cell := None, receiver := RCancelRelease (Some v) ow\<rparr>) }
     | RCancelRelease ov ow \<Rightarrow> do {
         e \<leftarrow> release_event e;
         Some (e\<lparr>discarded := discarded e @ (case ov of None \<Rightarrow> [] | Some v \<Rightarrow> [v]),
           retired := retired e @ (case ow of None \<Rightarrow> [] | Some w \<Rightarrow> [w]), receiver := RDone\<rparr>)
       }
     | _ \<Rightarrow> None
   }"

text \<open>\<open>is_ready\<close>; it panics once the receiver has completed.\<close>

definition is_ready :: "('v, 'w) once \<Rightarrow> bool option" where
  "is_ready e = do {
     require (receiver e \<noteq> RDone \<and> \<not> released e);
     Some (state e \<in> {EVENT_SET, EVENT_DISCONNECTED})
   }"

text \<open>All behaviours of the two endpoints and of the code that owns them.\<close>

inductive once_step :: "('v, 'w) once \<Rightarrow> ('v, 'w) once \<Rightarrow> bool" where
  call_send: "sender e = SOpen \<Longrightarrow> once_step e (e\<lparr>sender := SWrite v\<rparr>)"
| call_drop_sender: "sender e = SOpen \<Longrightarrow> once_step e (e\<lparr>sender := SSwap\<rparr>)"
| call_poll: "receiver e = ROpen \<Longrightarrow> once_step e (e\<lparr>receiver := RPoll w\<rparr>)"
| call_into_value: "receiver e = ROpen \<Longrightarrow> once_step e (e\<lparr>receiver := RInto\<rparr>)"
| call_drop_receiver: "receiver e = ROpen \<Longrightarrow> once_step e (e\<lparr>receiver := RCancel\<rparr>)"
| sender_runs: "sender_step e = Some e' \<Longrightarrow> once_step e e'"
| receiver_runs: "receiver_step unwinds e = Some e' \<Longrightarrow> once_step e e'"

inductive once_reachable :: "('v, 'w) once \<Rightarrow> bool" where
  created: "once_reachable once_new"
| further: "once_reachable e \<Longrightarrow> once_step e e' \<Longrightarrow> once_reachable e'"

section \<open>Invariant\<close>

lemma event_states [simp]:
  "EVENT_BOUND \<noteq> EVENT_SET" "EVENT_BOUND \<noteq> EVENT_AWAITING" "EVENT_BOUND \<noteq> EVENT_SIGNALING"
  "EVENT_BOUND \<noteq> EVENT_DISCONNECTED" "EVENT_SET \<noteq> EVENT_BOUND" "EVENT_SET \<noteq> EVENT_AWAITING"
  "EVENT_SET \<noteq> EVENT_SIGNALING" "EVENT_SET \<noteq> EVENT_DISCONNECTED" "EVENT_AWAITING \<noteq> EVENT_BOUND"
  "EVENT_AWAITING \<noteq> EVENT_SET" "EVENT_AWAITING \<noteq> EVENT_SIGNALING" "EVENT_AWAITING \<noteq> EVENT_DISCONNECTED"
  "EVENT_SIGNALING \<noteq> EVENT_BOUND" "EVENT_SIGNALING \<noteq> EVENT_SET" "EVENT_SIGNALING \<noteq> EVENT_AWAITING"
  "EVENT_SIGNALING \<noteq> EVENT_DISCONNECTED" "EVENT_DISCONNECTED \<noteq> EVENT_BOUND" "EVENT_DISCONNECTED \<noteq> EVENT_SET"
  "EVENT_DISCONNECTED \<noteq> EVENT_AWAITING" "EVENT_DISCONNECTED \<noteq> EVENT_SIGNALING"
  "EVENT_BOUND + 1 = EVENT_SET" "EVENT_AWAITING + 1 = EVENT_SIGNALING" "EVENT_DISCONNECTED + 1 \<noteq> EVENT_AWAITING"
  by (simp_all add: EVENT_BOUND_def EVENT_SET_def EVENT_AWAITING_def EVENT_SIGNALING_def EVENT_DISCONNECTED_def)

abbreviation terminal :: "8 word \<Rightarrow> bool" where
  "terminal b \<equiv> b = EVENT_SET \<or> b = EVENT_DISCONNECTED"

text \<open>What the sender's position says of the state, the storage and the value sent.\<close>

fun sender_knows :: "('v, 'w) sender_pc \<Rightarrow> ('v, 'w) receiver_pc \<Rightarrow> 8 word \<Rightarrow> bool \<Rightarrow> 'v option \<Rightarrow> bool" where
  "sender_knows (SWaker f) r b rel v =
     (\<not> rel \<and> r \<noteq> RDone \<and> b = EVENT_SIGNALING \<and> terminal f \<and> (f = EVENT_SET) = (v \<noteq> None))"
| "sender_knows (SPublish f ow) r b rel v =
     (\<not> rel \<and> r \<noteq> RDone \<and> b = EVENT_SIGNALING \<and> terminal f \<and> (f = EVENT_SET) = (v \<noteq> None))"
| "sender_knows SReclaim r b rel v = (\<not> rel \<and> r = RDone \<and> b \<noteq> EVENT_AWAITING \<and> v \<noteq> None)"
| "sender_knows (SRelease ov) r b rel v = (\<not> rel \<and> r = RDone \<and> b \<noteq> EVENT_AWAITING \<and> ov = v)"
| "sender_knows (SWake w) r b rel v = (rel = (r = RDone) \<and> (r \<noteq> RDone \<longrightarrow> terminal b) \<and> b \<noteq> EVENT_AWAITING)"
| "sender_knows SDone r b rel v = (rel = (r = RDone) \<and> (r \<noteq> RDone \<longrightarrow> terminal b) \<and> b \<noteq> EVENT_AWAITING)"
| "sender_knows c r b rel v = (\<not> rel \<and> (if r = RDone then b = EVENT_DISCONNECTED else b = EVENT_BOUND \<or> b = EVENT_AWAITING)
     \<and> (v \<noteq> None) = (c = SAdd))"

text \<open>The sender is about to take the waker.\<close>

fun takes_waker :: "('v, 'w) sender_pc \<Rightarrow> bool" where
  "takes_waker (SWaker f) = True" | "takes_waker c = False"

abbreviation agrees :: "8 word \<Rightarrow> 'v option \<Rightarrow> bool" where
  "agrees b v \<equiv> (b = EVENT_DISCONNECTED \<longrightarrow> v = None) \<and> (b = EVENT_SET \<longrightarrow> v \<noteq> None)"

fun receiver_knows :: "('v, 'w) receiver_pc \<Rightarrow> ('v, 'w) sender_pc \<Rightarrow> 8 word \<Rightarrow> 'v option \<Rightarrow> bool" where
  "receiver_knows (RWrite w) c b v = (b \<noteq> EVENT_AWAITING \<and> \<not> takes_waker c \<and> agrees b v)"
| "receiver_knows RCas c b v = (b \<noteq> EVENT_AWAITING \<and> \<not> takes_waker c \<and> agrees b v)"
| "receiver_knows (RDestroy k) c b v = (b \<noteq> EVENT_AWAITING \<and> \<not> takes_waker c \<and> agrees b v
     \<and> (case k of ToWrite w \<Rightarrow> True | ToTake \<Rightarrow> b = EVENT_SET | ToSpin \<Rightarrow> b = EVENT_SIGNALING \<or> terminal b
        | ToGone \<Rightarrow> b = EVENT_DISCONNECTED))"
| "receiver_knows (RUnregister w) c b v = (b \<noteq> EVENT_BOUND \<and> agrees b v)"
| "receiver_knows RSpin c b v = ((b = EVENT_SIGNALING \<or> terminal b) \<and> agrees b v)"
| "receiver_knows RTake c b v = (terminal b \<and> v \<noteq> None)"
| "receiver_knows (RFinish r) c b v = (terminal b \<and> r = v)"
| "receiver_knows RExchange c b v = (terminal b \<and> agrees b v)"
| "receiver_knows RCancelWaker c b v = (b \<noteq> EVENT_AWAITING \<and> \<not> takes_waker c \<and> agrees b v)"
| "receiver_knows (RCancelLoad ow) c b v = (b \<noteq> EVENT_AWAITING \<and> agrees b v
     \<and> (ow \<noteq> None \<longrightarrow> \<not> takes_waker c))"
| "receiver_knows (RCancelCas d ow) c b v = (b \<noteq> EVENT_AWAITING \<and> agrees b v
     \<and> (ow \<noteq> None \<longrightarrow> \<not> takes_waker c) \<and> (d = EVENT_BOUND \<or> terminal d) \<and> (terminal d \<longrightarrow> b = d))"
| "receiver_knows (RCancelValue ow) c b v = (b = EVENT_DISCONNECTED \<and> v \<noteq> None)"
| "receiver_knows (RCancelRelease ov ow) c b v = (b = EVENT_DISCONNECTED \<and> ov = v)"
| "receiver_knows RDone c b v = True"
| "receiver_knows r c b v = agrees b v"

text \<open>Who holds the waker, and who the value.\<close>

fun r_owns_awaiter :: "('v, 'w) receiver_pc \<Rightarrow> bool" where
  "r_owns_awaiter RCas = True" | "r_owns_awaiter (RDestroy k) = True" | "r_owns_awaiter RCancelWaker = True"
| "r_owns_awaiter r = False"

fun r_holds_value :: "('v, 'w) receiver_pc \<Rightarrow> bool" where
  "r_holds_value (RFinish r) = True" | "r_holds_value (RCancelRelease ov ow) = True" | "r_holds_value r = False"

fun s_holds_value :: "('v, 'w) sender_pc \<Rightarrow> bool" where
  "s_holds_value (SRelease ov) = True" | "s_holds_value c = False"

fun s_waker :: "('v, 'w) sender_pc \<Rightarrow> 'w option" where
  "s_waker (SPublish f ow) = ow" | "s_waker (SWake w) = Some w" | "s_waker c = None"

fun r_waker :: "('v, 'w) receiver_pc \<Rightarrow> 'w option" where
  "r_waker (RCancelLoad ow) = ow" | "r_waker (RCancelCas d ow) = ow" | "r_waker (RCancelValue ow) = ow"
| "r_waker (RCancelRelease ov ow) = ow" | "r_waker r = None"

abbreviation bag :: "'x option \<Rightarrow> 'x multiset" where
  "bag x \<equiv> (case x of None \<Rightarrow> {#} | Some y \<Rightarrow> {#y#})"

abbreviation as_list :: "'x option \<Rightarrow> 'x list" where
  "as_list x \<equiv> (case x of None \<Rightarrow> [] | Some y \<Rightarrow> [y])"

definition once_ok :: "('v, 'w) once \<Rightarrow> bool" where
  "once_ok e =
     (sender_knows (sender e) (receiver e) (state e) (released e) (sent e)
      \<and> receiver_knows (receiver e) (sender e) (state e) (sent e)
      \<and> (awaiter_cell e \<noteq> None) = (state e = EVENT_AWAITING \<or> takes_waker (sender e) \<or> r_owns_awaiter (receiver e))
      \<and> value_cell e = (if released e \<or> r_holds_value (receiver e) \<or> s_holds_value (sender e) then None else sent e)
      \<and> (if released e then outcome e = Some (sent e) \<and> discarded e = [] \<or> outcome e = None \<and> discarded e = as_list (sent e)
         else outcome e = None \<and> discarded e = [])
      \<and> mset (cloned e) = mset (woken e) + mset (retired e) + bag (awaiter_cell e) + bag (s_waker (sender e))
          + bag (r_waker (receiver e)))"

lemma once_okI:
  assumes "sender_knows (sender e) (receiver e) (state e) (released e) (sent e)"
    and "receiver_knows (receiver e) (sender e) (state e) (sent e)"
    and "(awaiter_cell e \<noteq> None) = (state e = EVENT_AWAITING \<or> takes_waker (sender e) \<or> r_owns_awaiter (receiver e))"
    and "value_cell e = (if released e \<or> r_holds_value (receiver e) \<or> s_holds_value (sender e) then None else sent e)"
    and "if released e then outcome e = Some (sent e) \<and> discarded e = [] \<or> outcome e = None \<and> discarded e = as_list (sent e)
         else outcome e = None \<and> discarded e = []"
    and "mset (cloned e) = mset (woken e) + mset (retired e) + bag (awaiter_cell e) + bag (s_waker (sender e))
          + bag (r_waker (receiver e))"
  shows "once_ok e"
  using assms unfolding once_ok_def by blast

lemma once_okD:
  assumes "once_ok e"
  shows "sender_knows (sender e) (receiver e) (state e) (released e) (sent e)"
    and "receiver_knows (receiver e) (sender e) (state e) (sent e)"
    and "(awaiter_cell e \<noteq> None) = (state e = EVENT_AWAITING \<or> takes_waker (sender e) \<or> r_owns_awaiter (receiver e))"
    and "value_cell e = (if released e \<or> r_holds_value (receiver e) \<or> s_holds_value (sender e) then None else sent e)"
    and "if released e then outcome e = Some (sent e) \<and> discarded e = [] \<or> outcome e = None \<and> discarded e = as_list (sent e)
         else outcome e = None \<and> discarded e = []"
    and "mset (cloned e) = mset (woken e) + mset (retired e) + bag (awaiter_cell e) + bag (s_waker (sender e))
          + bag (r_waker (receiver e))"
  using assms unfolding once_ok_def by blast+

section \<open>Interference\<close>

lemma r_owns_awaiter_knows:
  "r_owns_awaiter r \<Longrightarrow> receiver_knows r c b v \<Longrightarrow> b \<noteq> EVENT_AWAITING \<and> \<not> takes_waker c"
  by (cases r) auto

lemma r_holds_value_knows: "r_holds_value r \<Longrightarrow> receiver_knows r c b v \<Longrightarrow> terminal b \<and> r \<noteq> RDone"
  by (cases r) auto

text \<open>The sender's transitions keep what the receiver knows.\<close>

lemma receiver_knows_bound:
  "receiver_knows r c EVENT_BOUND v \<Longrightarrow> \<not> takes_waker c' \<Longrightarrow> b' = EVENT_BOUND \<or> b' = EVENT_SET \<and> v' \<noteq> None \<or> b' = EVENT_SIGNALING \<Longrightarrow>
   receiver_knows r c' b' v'"
  by (cases r) (auto split: after.splits)

lemma receiver_knows_awaiting:
  "receiver_knows r c EVENT_AWAITING v \<Longrightarrow> b' = EVENT_AWAITING \<or> b' = EVENT_SIGNALING \<Longrightarrow> receiver_knows r c' b' v'"
  by (cases r) auto

lemma receiver_knows_signaling:
  "receiver_knows r c EVENT_SIGNALING v \<Longrightarrow> \<not> takes_waker c' \<Longrightarrow>
   b' = EVENT_SIGNALING \<or> b' = EVENT_SET \<and> v' \<noteq> None \<or> b' = EVENT_DISCONNECTED \<and> v' = None \<Longrightarrow> receiver_knows r c' b' v'"
  by (cases r) (auto split: after.splits)

lemma receiver_knows_same:
  "receiver_knows r c b v \<Longrightarrow> takes_waker c' \<longrightarrow> takes_waker c \<Longrightarrow> receiver_knows r c' b v"
  by (cases r) auto

text \<open>The receiver's transitions keep what the sender knows.\<close>

lemma sender_knows_same:
  "sender_knows c r b rel v \<Longrightarrow> r \<noteq> RDone \<Longrightarrow> r' \<noteq> RDone \<Longrightarrow> sender_knows c r' b rel v"
  by (cases c) auto

lemma sender_knows_waits:
  "sender_knows c r b rel v \<Longrightarrow> r \<noteq> RDone \<Longrightarrow> r' \<noteq> RDone \<Longrightarrow> b \<in> {EVENT_BOUND, EVENT_AWAITING} \<Longrightarrow>
   b' \<in> {EVENT_BOUND, EVENT_AWAITING} \<Longrightarrow> sender_knows c r' b' rel v"
  by (cases c) auto

lemma sender_done:
  assumes "sender_knows c r b rel v" and "r \<noteq> RDone" and "terminal b"
  shows "c = SDone \<or> (\<exists>w. c = SWake w)" and "\<not> rel"
  using assms by (cases c; auto)+

lemma sender_open:
  assumes "sender_knows c r EVENT_BOUND rel v" and "r \<noteq> RDone"
  shows "sender_knows c RDone EVENT_DISCONNECTED rel v" and "\<not> rel"
  using assms by (cases c; auto)+

lemma sender_done_knows:
  "c = SDone \<or> (\<exists>w. c = SWake w) \<Longrightarrow> sender_knows c r b rel v =
     (rel = (r = RDone) \<and> (r \<noteq> RDone \<longrightarrow> terminal b) \<and> b \<noteq> EVENT_AWAITING)"
  by auto

lemma not_released: "sender_knows c r b rel v \<Longrightarrow> r \<noteq> RDone \<Longrightarrow> \<not> rel"
  by (cases c) auto

section \<open>Every step keeps the invariant and is possible\<close>

text \<open>An endpoint that has something to do can do it, and the invariant holds again.\<close>

definition s_advances :: "('v, 'w) once \<Rightarrow> bool" where
  "s_advances e = (\<exists>e'. sender_step e = Some e' \<and> once_ok e')"

lemma s_advancesI: "sender_step e = Some e' \<Longrightarrow> once_ok e' \<Longrightarrow> s_advances e"
  by (auto simp: s_advances_def)

lemma sender_writes:
  assumes ok: "once_ok e" and pc: "sender e = SWrite v"
  shows "s_advances e"
proof (rule s_advancesI)
  note inv = once_okD[OF ok, unfolded pc]
  show "sender_step e = Some (e\<lparr>value_cell := Some v, sent := Some v, sender := SAdd\<rparr>)"
    using inv(1) by (simp add: sender_step_def pc)
  have "receiver_knows (receiver e) SAdd (state e) (Some v)"
    using inv(1,2) receiver_knows_bound[of "receiver e" "SWrite v" "sent e" SAdd "state e" "Some v"]
      receiver_knows_awaiting[of "receiver e" "SWrite v" "sent e" "state e" SAdd "Some v"]
    by (cases "receiver e = RDone") auto
  moreover have "\<not> r_holds_value (receiver e)" using inv(1) r_holds_value_knows[OF _ inv(2)] by auto
  ultimately show "once_ok (e\<lparr>value_cell := Some v, sent := Some v, sender := SAdd\<rparr>)"
    using inv by (intro once_okI) simp_all
qed

lemma sender_adds:
  assumes ok: "once_ok e" and pc: "sender e = SAdd"
  shows "s_advances e"
proof -
  note inv = once_okD[OF ok, unfolded pc]
  have v: "sent e \<noteq> None" "\<not> released e" using inv(1) by auto
  have nh: "\<not> r_holds_value (receiver e)" if "receiver e \<noteq> RDone"
    using inv(1) r_holds_value_knows[OF _ inv(2)] that by auto
  consider "receiver e \<noteq> RDone" "state e = EVENT_BOUND" | "receiver e \<noteq> RDone" "state e = EVENT_AWAITING"
    | "receiver e = RDone" "state e = EVENT_DISCONNECTED" using inv(1) by (auto split: if_splits)
  then show ?thesis
  proof cases
    case 1
    then have "receiver_knows (receiver e) SDone EVENT_SET (sent e)"
      using inv(2) v(1) receiver_knows_bound[of "receiver e" SAdd "sent e" SDone EVENT_SET "sent e"] by simp
    with 1 inv v nh show ?thesis
      by (intro s_advancesI, simp add: sender_step_def pc set_transition_def Let_def) (intro once_okI; simp)
  next
    case 2
    then have "receiver_knows (receiver e) (SWaker EVENT_SET) EVENT_SIGNALING (sent e)"
      using inv(2) receiver_knows_awaiting[of "receiver e" SAdd "sent e" EVENT_SIGNALING "SWaker EVENT_SET" "sent e"] by simp
    with 2 inv v nh show ?thesis
      by (intro s_advancesI, simp add: sender_step_def pc set_transition_def Let_def) (intro once_okI; simp)
  next
    case 3
    with inv v show ?thesis
      by (intro s_advancesI, simp add: sender_step_def pc set_transition_def Let_def) (intro once_okI; simp)
  qed
qed

lemma sender_swaps:
  assumes ok: "once_ok e" and pc: "sender e = SSwap"
  shows "s_advances e"
proof -
  note inv = once_okD[OF ok, unfolded pc]
  have v: "sent e = None" "\<not> released e" using inv(1) by auto
  consider "receiver e \<noteq> RDone" "state e = EVENT_BOUND" | "receiver e \<noteq> RDone" "state e = EVENT_AWAITING"
    | "receiver e = RDone" "state e = EVENT_DISCONNECTED" using inv(1) by (auto split: if_splits)
  then show ?thesis
  proof cases
    case 1
    let ?c = "SPublish EVENT_DISCONNECTED None :: ('a, 'b) sender_pc"
    have "receiver_knows (receiver e) ?c EVENT_SIGNALING None"
      using 1 inv(2) v(1) receiver_knows_bound[of "receiver e" SSwap "sent e" ?c EVENT_SIGNALING None] by simp
    with 1 inv v show ?thesis
      by (intro s_advancesI, simp add: sender_step_def pc disconnect_transition_def Let_def) (intro once_okI; simp)
  next
    case 2
    let ?c = "SWaker EVENT_DISCONNECTED :: ('a, 'b) sender_pc"
    have "receiver_knows (receiver e) ?c EVENT_SIGNALING None"
      using 2 inv(2) v(1) receiver_knows_awaiting[of "receiver e" SSwap "sent e" EVENT_SIGNALING ?c None] by simp
    with 2 inv v show ?thesis
      by (intro s_advancesI, simp add: sender_step_def pc disconnect_transition_def Let_def) (intro once_okI; simp)
  next
    case 3
    with inv v show ?thesis
      by (intro s_advancesI, simp add: sender_step_def pc disconnect_transition_def Let_def) (intro once_okI; simp)
  qed
qed

lemma sender_takes_waker:
  assumes ok: "once_ok e" and pc: "sender e = SWaker f"
  shows "s_advances e"
proof -
  note inv = once_okD[OF ok, unfolded pc]
  obtain w where w: "awaiter_cell e = Some w" using inv(3) by auto
  have "\<not> r_owns_awaiter (receiver e)" using r_owns_awaiter_knows[OF _ inv(2)] by auto
  moreover have "receiver_knows (receiver e) (SPublish f (Some w)) (state e) (sent e)"
    using inv(2) receiver_knows_same[of "receiver e" "SWaker f" "state e" "sent e" "SPublish f (Some w)"] by simp
  ultimately show ?thesis using inv w
    by (intro s_advancesI, simp add: sender_step_def pc) (intro once_okI; auto)
qed

lemma sender_publishes:
  assumes ok: "once_ok e" and pc: "sender e = SPublish f ow"
  shows "s_advances e"
proof -
  note inv = once_okD[OF ok, unfolded pc]
  let ?c = "case ow of None \<Rightarrow> SDone | Some w \<Rightarrow> SWake w"
  have tw: "\<not> takes_waker ?c" by (cases ow) auto
  then have "receiver_knows (receiver e) ?c f (sent e)"
    using inv(1,2) receiver_knows_signaling[of "receiver e" "SPublish f ow" "sent e" ?c f "sent e"] by auto
  moreover have "\<not> r_holds_value (receiver e)" using inv(1) r_holds_value_knows[OF _ inv(2)] by auto
  ultimately show ?thesis using inv
    by (cases ow; intro s_advancesI, simp add: sender_step_def pc; intro once_okI) auto
qed

lemma sender_reclaims:
  assumes ok: "once_ok e" and pc: "sender e = SReclaim"
  shows "s_advances e"
proof -
  note inv = once_okD[OF ok, unfolded pc]
  obtain v where "sent e = Some v" using inv(1) by auto
  with inv show ?thesis by (intro s_advancesI, simp add: sender_step_def pc) (intro once_okI; simp)
qed

lemma sender_releases:
  assumes ok: "once_ok e" and pc: "sender e = SRelease ov"
  shows "s_advances e"
proof -
  note inv = once_okD[OF ok, unfolded pc]
  show ?thesis using inv
    by (intro s_advancesI, simp add: sender_step_def pc release_event_def) (intro once_okI; simp)
qed

lemma sender_wakes:
  assumes ok: "once_ok e" and pc: "sender e = SWake w"
  shows "s_advances e"
proof -
  note inv = once_okD[OF ok, unfolded pc]
  have "receiver_knows (receiver e) SDone (state e) (sent e)"
    using inv(2) receiver_knows_same[of "receiver e" "SWake w" "state e" "sent e" SDone] by simp
  with inv show ?thesis by (intro s_advancesI, simp add: sender_step_def pc) (intro once_okI; simp)
qed

lemma sender_advances:
  assumes "once_ok e" and "sender e \<noteq> SOpen" and "sender e \<noteq> SDone"
  shows "s_advances e"
  using assms(2,3) sender_writes[OF assms(1)] sender_adds[OF assms(1)] sender_swaps[OF assms(1)]
    sender_takes_waker[OF assms(1)] sender_publishes[OF assms(1)] sender_reclaims[OF assms(1)]
    sender_releases[OF assms(1)] sender_wakes[OF assms(1)]
  by (cases "sender e") blast+

definition r_advances :: "bool \<Rightarrow> ('v, 'w) once \<Rightarrow> bool" where
  "r_advances unwinds e = (\<exists>e'. receiver_step unwinds e = Some e' \<and> once_ok e')"

lemma r_advancesI: "receiver_step unwinds e = Some e' \<Longrightarrow> once_ok e' \<Longrightarrow> r_advances unwinds e"
  by (auto simp: r_advances_def)

lemma receiver_moves:
  assumes ok: "once_ok e" and "receiver e \<noteq> RDone" and "r \<noteq> RDone"
    and "receiver_knows r (sender e) (state e) (sent e)" and "r_owns_awaiter r = r_owns_awaiter (receiver e)"
    and "r_holds_value r = r_holds_value (receiver e) \<or> sent e = None" and "r_waker r = r_waker (receiver e)"
  shows "once_ok (e\<lparr>receiver := r\<rparr>)"
proof -
  note inv = once_okD[OF ok]
  show ?thesis using inv assms(2-) sender_knows_same[OF inv(1) assms(2,3)] by (intro once_okI) auto
qed

text \<open>While the receiver is connected, the state is one of the five.\<close>

lemma state_cases:
  assumes "sender_knows c r b rel v" and "r \<noteq> RDone"
  obtains "b = EVENT_BOUND" "\<not> takes_waker c" | "b = EVENT_AWAITING" "\<not> takes_waker c" | "b = EVENT_SIGNALING"
    | "b = EVENT_SET" "\<not> takes_waker c" | "b = EVENT_DISCONNECTED" "\<not> takes_waker c"
  using assms by (cases c) auto

text \<open>A step that only moves the receiver on.\<close>

lemma receiver_just_moves:
  assumes ok: "once_ok e" and pc: "receiver e \<noteq> RDone" "r_owns_awaiter r = r_owns_awaiter (receiver e)"
      "r_waker r = r_waker (receiver e)" "r_holds_value r = r_holds_value (receiver e) \<or> sent e = None"
    and st: "receiver_step unwinds e = Some (e\<lparr>receiver := r\<rparr>)"
    and r: "receiver_knows r (sender e) (state e) (sent e)" "r \<noteq> RDone"
  shows "r_advances unwinds e"
  using st receiver_moves[OF ok pc(1) r(2,1) pc(2,4,3)] by (rule r_advancesI)

lemma receiver_dispatches:
  assumes ok: "once_ok e" and pc: "receiver e = RPoll w"
  shows "r_advances unwinds e"
proof -
  note inv = once_okD[OF ok, unfolded pc]
  have st: "receiver_step unwinds e = poll_dispatch w e"
    using not_released[OF inv(1)] by (simp add: receiver_step_def pc)
  note move = receiver_just_moves[OF ok, unfolded pc st]
  from inv(1) show ?thesis
  proof (rule state_cases)
    assume "state e = EVENT_BOUND" "\<not> takes_waker (sender e)"
    then show ?thesis using inv(2) by (intro move[of "RWrite w"]) (simp_all add: st poll_dispatch_def)
  next
    assume "state e = EVENT_AWAITING"
    then show ?thesis using inv(2) by (intro move[of "RUnregister w"]) (simp_all add: st poll_dispatch_def)
  next
    assume "state e = EVENT_SIGNALING"
    then show ?thesis using inv(2) by (intro move[of RSpin]) (simp_all add: st poll_dispatch_def)
  next
    assume "state e = EVENT_SET"
    then show ?thesis using inv(2) by (intro move[of RTake]) (simp_all add: st poll_dispatch_def)
  next
    assume "state e = EVENT_DISCONNECTED"
    then show ?thesis using inv(2) by (intro move[of "RFinish None"]) (simp_all add: st poll_dispatch_def)
  qed simp
qed

lemma receiver_spins:
  assumes ok: "once_ok e" and pc: "receiver e = RSpin"
  shows "r_advances unwinds e"
proof -
  note inv = once_okD[OF ok, unfolded pc]
  have st: "receiver_step unwinds e = poll_signaling e"
    using not_released[OF inv(1)] by (simp add: receiver_step_def pc)
  note move = receiver_just_moves[OF ok, unfolded pc st]
  consider "state e = EVENT_SIGNALING" | "state e = EVENT_SET" | "state e = EVENT_DISCONNECTED" using inv(2) by auto
  then show ?thesis
  proof cases
    case 1
    then show ?thesis using ok st by (intro r_advancesI[of _ _ e]) (simp_all add: st poll_signaling_def)
  next
    case 2
    then show ?thesis using inv(2) by (intro move[of RTake]) (simp_all add: st poll_signaling_def)
  next
    case 3
    then show ?thesis using inv(2) by (intro move[of "RFinish None"]) (simp_all add: st poll_signaling_def)
  qed
qed

lemma receiver_writes:
  assumes ok: "once_ok e" and pc: "receiver e = RWrite w"
  shows "r_advances unwinds e"
proof -
  note inv = once_okD[OF ok, unfolded pc]
  let ?e = "if unwinds then e\<lparr>receiver := ROpen\<rparr>
    else e\<lparr>awaiter_cell := Some w, cloned := cloned e @ [w], receiver := RCas\<rparr>"
  have st: "receiver_step unwinds e = Some ?e"
    using not_released[OF inv(1)] by (simp add: receiver_step_def pc)
  have "once_ok ?e"
  proof (cases unwinds)
    case True
    then show ?thesis using receiver_moves[OF ok, of ROpen] inv(2) pc by simp
  next
    case False
    then show ?thesis using inv sender_knows_same[OF inv(1), of RCas] by (intro once_okI) simp_all
  qed
  with st show ?thesis by (rule r_advancesI)
qed

lemma receiver_registers:
  assumes ok: "once_ok e" and pc: "receiver e = RCas"
  shows "r_advances unwinds e"
proof -
  note inv = once_okD[OF ok, unfolded pc]
  have st: "receiver_step unwinds e = poll_bound_cas e"
    using not_released[OF inv(1)] by (simp add: receiver_step_def pc)
  note move = receiver_just_moves[OF ok, unfolded pc st]
  from inv(1) show ?thesis
  proof (rule state_cases)
    assume b: "state e = EVENT_BOUND" "\<not> takes_waker (sender e)"
    have "once_ok (e\<lparr>state := EVENT_AWAITING, receiver := ROpen\<rparr>)"
      using inv b sender_knows_waits[OF inv(1), of ROpen EVENT_AWAITING] by (intro once_okI) simp_all
    then show ?thesis using st b by (intro r_advancesI) (simp_all add: st poll_bound_cas_def)
  next
    assume "state e = EVENT_AWAITING"
    then show ?thesis using inv(2) by simp
  next
    assume "state e = EVENT_SIGNALING"
    then show ?thesis using inv(2) by (intro move[of "RDestroy ToSpin"]) (simp_all add: st poll_bound_cas_def)
  next
    assume "state e = EVENT_SET"
    then show ?thesis using inv(2) by (intro move[of "RDestroy ToTake"]) (simp_all add: st poll_bound_cas_def)
  next
    assume "state e = EVENT_DISCONNECTED"
    then show ?thesis using inv(2) by (intro move[of "RDestroy ToGone"]) (simp_all add: st poll_bound_cas_def)
  qed simp
qed

lemma receiver_destroys:
  assumes ok: "once_ok e" and pc: "receiver e = RDestroy k"
  shows "r_advances unwinds e"
proof -
  note inv = once_okD[OF ok, unfolded pc]
  obtain w where w: "awaiter_cell e = Some w" using inv(3) by auto
  let ?r = "if unwinds then ROpen
    else (case k of ToWrite w' \<Rightarrow> RWrite w' | ToTake \<Rightarrow> RTake | ToSpin \<Rightarrow> RSpin | ToGone \<Rightarrow> RFinish None)"
  have st: "receiver_step unwinds e = Some (e\<lparr>awaiter_cell := None, retired := retired e @ [w], receiver := ?r\<rparr>)"
    using not_released[OF inv(1)] w by (simp add: receiver_step_def pc destroy_awaiter_def Let_def)
  have r: "?r \<noteq> RDone" "\<not> r_owns_awaiter ?r" "r_waker ?r = None" "r_holds_value ?r \<longrightarrow> sent e = None"
    "receiver_knows ?r (sender e) (state e) (sent e)"
    using inv(2) by (cases k; auto)+
  have "once_ok (e\<lparr>awaiter_cell := None, retired := retired e @ [w], receiver := r\<rparr>)"
    if "r \<noteq> RDone" "\<not> r_owns_awaiter r" "r_waker r = None" "r_holds_value r \<longrightarrow> sent e = None"
      "receiver_knows r (sender e) (state e) (sent e)" for r
    using inv w that sender_knows_same[OF inv(1) _ that(1)] by (intro once_okI) auto
  from st this[OF r] show ?thesis by (rule r_advancesI)
qed

lemma receiver_unregisters:
  assumes ok: "once_ok e" and pc: "receiver e = RUnregister w"
  shows "r_advances unwinds e"
proof -
  note inv = once_okD[OF ok, unfolded pc]
  have st: "receiver_step unwinds e = poll_awaiting_cas w e"
    using not_released[OF inv(1)] by (simp add: receiver_step_def pc)
  note move = receiver_just_moves[OF ok, unfolded pc st]
  from inv(1) show ?thesis
  proof (rule state_cases)
    assume "state e = EVENT_BOUND"
    then show ?thesis using inv(2) by simp
  next
    assume b: "state e = EVENT_AWAITING" "\<not> takes_waker (sender e)"
    have "once_ok (e\<lparr>state := EVENT_BOUND, receiver := RDestroy (ToWrite w)\<rparr>)"
      using inv b sender_knows_waits[OF inv(1), of "RDestroy (ToWrite w)" EVENT_BOUND] by (intro once_okI) simp_all
    then show ?thesis using st b by (intro r_advancesI) (simp_all add: poll_awaiting_cas_def)
  next
    assume "state e = EVENT_SIGNALING"
    then show ?thesis using inv(2) by (intro move[of RSpin]) (simp_all add: st poll_awaiting_cas_def)
  next
    assume "state e = EVENT_SET"
    then show ?thesis using inv(2) by (intro move[of RTake]) (simp_all add: st poll_awaiting_cas_def)
  next
    assume "state e = EVENT_DISCONNECTED"
    then show ?thesis using inv(2) by (intro move[of "RFinish None"]) (simp_all add: st poll_awaiting_cas_def)
  qed simp
qed

text \<open>Once the state is terminal the sender is through with the event.\<close>

lemma receiver_takes:
  assumes ok: "once_ok e" and pc: "receiver e = RTake \<or> receiver e = RCancelValue ow"
  shows "r_advances unwinds e"
proof -
  note inv = once_okD[OF ok]
  have r: "receiver e \<noteq> RDone" "terminal (state e)" "\<not> r_holds_value (receiver e)" using pc inv(2) by auto
  note fin = sender_done[OF inv(1) r(1,2)]
  obtain v where v: "sent e = Some v" "value_cell e = Some v" using pc inv(2,4) r(3) fin by auto
  from pc show ?thesis
  proof
    assume c: "receiver e = RTake"
    have "once_ok (e\<lparr>value_cell := None, receiver := RFinish (Some v)\<rparr>)"
      using inv c v sender_knows_same[OF inv(1) r(1), of "RFinish (Some v)"] by (intro once_okI) simp_all
    then show ?thesis using c v fin by (intro r_advancesI) (simp_all add: receiver_step_def)
  next
    assume c: "receiver e = RCancelValue ow"
    have "once_ok (e\<lparr>value_cell := None, receiver := RCancelRelease (Some v) ow\<rparr>)"
      using inv c v sender_knows_same[OF inv(1) r(1), of "RCancelRelease (Some v) ow"] by (intro once_okI) simp_all
    then show ?thesis using c v fin by (intro r_advancesI) (simp_all add: receiver_step_def)
  qed
qed

lemma receiver_releases:
  assumes ok: "once_ok e" and pc: "receiver e = RFinish ov \<or> receiver e = RCancelRelease ov ow"
  shows "r_advances unwinds e"
proof -
  note inv = once_okD[OF ok]
  have r: "receiver e \<noteq> RDone" "terminal (state e)" "ov = sent e" using pc inv(2) by auto
  note fin = sender_done[OF inv(1) r(1,2)]
  have s: "sender_knows (sender e) RDone (state e) True (sent e)" "\<not> takes_waker (sender e)"
    using sender_done_knows[OF fin(1)] fin(1) r(2) by auto
  from pc show ?thesis
  proof
    assume c: "receiver e = RFinish ov"
    have "once_ok (e\<lparr>released := True, outcome := Some ov, receiver := RDone\<rparr>)"
      using inv c r s fin(2) by (intro once_okI) auto
    then show ?thesis using c fin by (intro r_advancesI) (simp_all add: receiver_step_def release_event_def)
  next
    assume c: "receiver e = RCancelRelease ov ow"
    have "once_ok (e\<lparr>released := True, discarded := discarded e @ as_list ov, retired := retired e @ as_list ow,
        receiver := RDone\<rparr>)"
      using inv c r s fin(2) by (intro once_okI) (auto split: option.split)
    then show ?thesis using c fin by (intro r_advancesI) (simp_all add: receiver_step_def release_event_def)
  qed
qed

lemma receiver_inspects:
  assumes ok: "once_ok e" and pc: "receiver e = RInto"
  shows "r_advances unwinds e"
proof -
  note inv = once_okD[OF ok, unfolded pc]
  have st: "receiver_step unwinds e =
      (if state e \<in> {EVENT_BOUND, EVENT_AWAITING, EVENT_SIGNALING} then Some (e\<lparr>receiver := ROpen\<rparr>)
       else if state e \<in> {EVENT_SET, EVENT_DISCONNECTED} then Some (e\<lparr>receiver := RExchange\<rparr>) else None)"
    using not_released[OF inv(1)] by (simp add: receiver_step_def pc)
  note move = receiver_just_moves[OF ok, unfolded pc st]
  consider "state e \<in> {EVENT_BOUND, EVENT_AWAITING, EVENT_SIGNALING}" | "terminal (state e)"
    using state_cases[OF inv(1)] by auto
  then show ?thesis
  proof cases
    case 1
    then show ?thesis using inv(2) by (intro move[of ROpen]) (auto simp: st)
  next
    case 2
    then show ?thesis using inv(2) by (intro move[of RExchange]) (auto simp: st)
  qed
qed

lemma receiver_exchanges:
  assumes ok: "once_ok e" and pc: "receiver e = RExchange"
  shows "r_advances unwinds e"
proof -
  note inv = once_okD[OF ok, unfolded pc]
  have ended: "terminal (state e)" using inv(2) by simp
  note fin = sender_done[OF inv(1) _ ended]
  have st: "receiver_step unwinds e = take_result e"
    using not_released[OF inv(1)] by (simp add: receiver_step_def pc)
  let ?r = "if state e = EVENT_SET then RTake else RFinish None"
  have s: "sender_knows (sender e) ?r EVENT_DISCONNECTED (released e) (sent e)" "\<not> takes_waker (sender e)"
    using fin sender_done_knows[of "sender e" ?r EVENT_DISCONNECTED "released e" "sent e"] by auto
  have "once_ok (e\<lparr>state := EVENT_DISCONNECTED, receiver := ?r\<rparr>)"
    using inv s ended by (intro once_okI) (auto split: if_splits)
  then show ?thesis using st ended by (intro r_advancesI) (auto simp: take_result_def Let_def)
qed

lemma receiver_cancels:
  assumes ok: "once_ok e" and pc: "receiver e = RCancel"
  shows "r_advances unwinds e"
proof -
  note inv = once_okD[OF ok, unfolded pc]
  have st: "receiver_step unwinds e =
      Some (if state e = EVENT_AWAITING then e\<lparr>state := EVENT_BOUND, receiver := RCancelWaker\<rparr>
         else e\<lparr>receiver := RCancelLoad None\<rparr>)"
    using not_released[OF inv(1)] by (simp add: receiver_step_def pc)
  show ?thesis
  proof (cases "state e = EVENT_AWAITING")
    case True
    then have "\<not> takes_waker (sender e)" using state_cases[OF inv(1)] by auto
    then have "once_ok (e\<lparr>state := EVENT_BOUND, receiver := RCancelWaker\<rparr>)"
      using inv True sender_knows_waits[OF inv(1), of RCancelWaker EVENT_BOUND] by (intro once_okI) simp_all
    then show ?thesis using st True by (intro r_advancesI) simp_all
  next
    case False
    then show ?thesis using inv(2) pc st receiver_just_moves[OF ok, of "RCancelLoad None" unwinds] by simp
  qed
qed

lemma receiver_takes_own_waker:
  assumes ok: "once_ok e" and pc: "receiver e = RCancelWaker"
  shows "r_advances unwinds e"
proof -
  note inv = once_okD[OF ok, unfolded pc]
  obtain w where w: "awaiter_cell e = Some w" using inv(3) by auto
  have "once_ok (e\<lparr>awaiter_cell := None, receiver := RCancelLoad (Some w)\<rparr>)"
    using inv w sender_knows_same[OF inv(1), of "RCancelLoad (Some w)"] by (intro once_okI) auto
  then show ?thesis using w not_released[OF inv(1)] by (intro r_advancesI) (simp_all add: receiver_step_def pc)
qed

lemma receiver_loads:
  assumes ok: "once_ok e" and pc: "receiver e = RCancelLoad ow"
  shows "r_advances unwinds e"
proof -
  note inv = once_okD[OF ok, unfolded pc]
  have st: "receiver_step unwinds e =
      Some (if state e = EVENT_SIGNALING then e else e\<lparr>receiver := RCancelCas (state e) ow\<rparr>)"
    using not_released[OF inv(1)] by (simp add: receiver_step_def pc)
  show ?thesis
  proof (cases "state e = EVENT_SIGNALING")
    case True
    then show ?thesis using ok st by (intro r_advancesI) simp_all
  next
    case False
    then have "state e = EVENT_BOUND \<or> terminal (state e)" using state_cases[OF inv(1)] inv(2) by auto
    then have "receiver_knows (RCancelCas (state e) ow) (sender e) (state e) (sent e)" using inv(2) by auto
    then show ?thesis using False pc st receiver_just_moves[OF ok, of "RCancelCas (state e) ow" unwinds] by simp
  qed
qed

lemma receiver_disconnects:
  assumes ok: "once_ok e" and pc: "receiver e = RCancelCas d ow"
  shows "r_advances unwinds e"
proof -
  note inv = once_okD[OF ok, unfolded pc]
  have st: "receiver_step unwinds e = cancel_cas d ow e"
    using not_released[OF inv(1)] by (simp add: receiver_step_def pc)
  consider "state e \<noteq> d" | "state e = d" "d = EVENT_BOUND" | "state e = d" "terminal d" using inv(2) by auto
  then show ?thesis
  proof cases
    case 1
    then show ?thesis using inv(2) pc st receiver_just_moves[OF ok, of "RCancelLoad ow" unwinds]
      by (simp add: cancel_cas_def)
  next
    case 2
    have tw: "\<not> takes_waker (sender e)" using state_cases[OF inv(1)] 2 by auto
    have s: "sender_knows (sender e) RDone EVENT_DISCONNECTED (released e) (sent e)" "\<not> released e"
      using sender_open[of "sender e" "RCancelCas d ow"] inv(1) 2 by auto
    have "once_ok (e\<lparr>state := EVENT_DISCONNECTED, retired := retired e @ as_list ow, receiver := RDone\<rparr>)"
      using inv s tw 2 by (intro once_okI) (auto split: option.split)
    then show ?thesis using 2 st by (intro r_advancesI) (simp_all add: cancel_cas_def)
  next
    case 3
    then have ended: "terminal (state e)" by simp
    note fin = sender_done[OF inv(1) _ ended]
    let ?r = "if d = EVENT_SET then RCancelValue ow else RCancelRelease None ow"
    have s: "sender_knows (sender e) ?r EVENT_DISCONNECTED (released e) (sent e)" "\<not> takes_waker (sender e)"
      using fin sender_done_knows[of "sender e" ?r EVENT_DISCONNECTED "released e" "sent e"] by auto
    have "once_ok (e\<lparr>state := EVENT_DISCONNECTED, receiver := ?r\<rparr>)"
      using inv s ended 3 by (intro once_okI) (auto split: if_splits)
    then show ?thesis using st 3 by (intro r_advancesI) (auto simp: cancel_cas_def Let_def)
  qed
qed

lemma receiver_advances:
  assumes "once_ok e" and "receiver e \<noteq> ROpen" and "receiver e \<noteq> RDone"
  shows "r_advances unwinds e"
proof (cases "receiver e")
  case (RPoll w)
  then show ?thesis using receiver_dispatches[OF assms(1)] by simp
next
  case (RWrite w)
  then show ?thesis using receiver_writes[OF assms(1)] by simp
next
  case RCas
  then show ?thesis using receiver_registers[OF assms(1)] by simp
next
  case (RDestroy k)
  then show ?thesis using receiver_destroys[OF assms(1)] by simp
next
  case (RUnregister w)
  then show ?thesis using receiver_unregisters[OF assms(1)] by simp
next
  case RSpin
  then show ?thesis using receiver_spins[OF assms(1)] by simp
next
  case RTake
  then show ?thesis using receiver_takes[OF assms(1)] by simp
next
  case (RFinish ov)
  then show ?thesis using receiver_releases[OF assms(1)] by simp
next
  case RInto
  then show ?thesis using receiver_inspects[OF assms(1)] by simp
next
  case RExchange
  then show ?thesis using receiver_exchanges[OF assms(1)] by simp
next
  case RCancel
  then show ?thesis using receiver_cancels[OF assms(1)] by simp
next
  case RCancelWaker
  then show ?thesis using receiver_takes_own_waker[OF assms(1)] by simp
next
  case (RCancelLoad ow)
  then show ?thesis using receiver_loads[OF assms(1)] by simp
next
  case (RCancelCas d ow)
  then show ?thesis using receiver_disconnects[OF assms(1)] by simp
next
  case (RCancelValue ow)
  then show ?thesis using receiver_takes[OF assms(1)] by simp
next
  case (RCancelRelease ov ow)
  then show ?thesis using receiver_releases[OF assms(1)] by simp
qed (use assms(2,3) in simp_all)

lemma once_step_ok:
  assumes "once_step e e'" and "once_ok e"
  shows "once_ok e'"
  using assms
proof (induction rule: once_step.induct)
  case (call_send e v)
  note inv = once_okD[OF call_send(2), unfolded call_send(1)]
  show ?case using inv receiver_knows_same[OF inv(2), of "SWrite v"] by (intro once_okI) simp_all
next
  case (call_drop_sender e)
  note inv = once_okD[OF call_drop_sender(2), unfolded call_drop_sender(1)]
  show ?case using inv receiver_knows_same[OF inv(2), of SSwap] by (intro once_okI) simp_all
next
  case (call_poll e w)
  then show ?case using receiver_moves[of e "RPoll w"] once_okD(2)[of e] by simp
next
  case (call_into_value e)
  then show ?case using receiver_moves[of e RInto] once_okD(2)[of e] by simp
next
  case (call_drop_receiver e)
  then show ?case using receiver_moves[of e RCancel] once_okD(2)[of e] by simp
next
  case (sender_runs e e')
  have "sender e \<noteq> SOpen" "sender e \<noteq> SDone" using sender_runs(1) by (auto simp: sender_step_def)
  with sender_runs show ?case using sender_advances[of e] by (auto simp: s_advances_def)
next
  case (receiver_runs unwinds e e')
  have "receiver e \<noteq> ROpen" "receiver e \<noteq> RDone" using receiver_runs(1) by (auto simp: receiver_step_def)
  with receiver_runs show ?case using receiver_advances[of e unwinds] by (auto simp: r_advances_def)
qed

lemma once_reachable_ok: "once_reachable e \<Longrightarrow> once_ok e"
proof (induction rule: once_reachable.induct)
  case created
  show ?case by (intro once_okI) (simp_all add: once_new_def)
qed (use once_step_ok in blast)

section \<open>Endpoints that run alone\<close>

fun sender_run :: "nat \<Rightarrow> ('v, 'w) once \<Rightarrow> ('v, 'w) once option" where
  "sender_run 0 e = Some e"
| "sender_run (Suc n) e = (if sender e = SOpen \<or> sender e = SDone then Some e else sender_step e \<bind> sender_run n)"

fun receiver_run :: "nat \<Rightarrow> ('v, 'w) once \<Rightarrow> ('v, 'w) once option" where
  "receiver_run 0 e = Some e"
| "receiver_run (Suc n) e =
     (if receiver e = ROpen \<or> receiver e = RDone then Some e else receiver_step False e \<bind> receiver_run n)"

text \<open>Bounds on the steps a call still takes; the receiver's while the sender is not signaling.\<close>

fun s_rank :: "('v, 'w) sender_pc \<Rightarrow> nat" where
  "s_rank (SWrite v) = 5" | "s_rank SAdd = 4" | "s_rank SSwap = 4" | "s_rank (SWaker f) = 3"
| "s_rank (SPublish f ow) = 2" | "s_rank SReclaim = 2" | "s_rank (SRelease ov) = 1" | "s_rank (SWake w) = 1"
| "s_rank c = 0"

fun r_rank :: "('v, 'w) receiver_pc \<Rightarrow> 8 word \<Rightarrow> nat" where
  "r_rank (RPoll w) b = 9" | "r_rank (RUnregister w) b = 8" | "r_rank (RDestroy (ToWrite w)) b = 7"
| "r_rank (RWrite w) b = 6" | "r_rank RCas b = 5" | "r_rank (RDestroy k) b = 4" | "r_rank RSpin b = 3"
| "r_rank RTake b = 2" | "r_rank (RFinish r) b = 1" | "r_rank RInto b = 4" | "r_rank RExchange b = 3"
| "r_rank RCancel b = 6" | "r_rank RCancelWaker b = 5" | "r_rank (RCancelLoad ow) b = 4"
| "r_rank (RCancelCas d ow) b = (if b = d then 3 else 5)" | "r_rank (RCancelValue ow) b = 2"
| "r_rank (RCancelRelease ov ow) b = 1" | "r_rank r b = 0"

lemma s_rank_decreases: "sender_step e = Some e' \<Longrightarrow> s_rank (sender e') < s_rank (sender e)"
  by (cases "sender e")
    (auto simp: sender_step_def set_transition_def disconnect_transition_def release_event_def Let_def bind_eq_Some_iff
      split: if_splits option.splits)

lemma sender_run_ends:
  "once_ok e \<Longrightarrow> s_rank (sender e) \<le> n \<Longrightarrow>
   \<exists>e'. sender_run n e = Some e' \<and> once_ok e' \<and> (sender e' = SOpen \<or> sender e' = SDone)"
proof (induction n arbitrary: e)
  case 0
  then show ?case by (cases "sender e") auto
next
  case (Suc n)
  show ?case
  proof (cases "sender e = SOpen \<or> sender e = SDone")
    case True
    with Suc.prems show ?thesis by auto
  next
    case False
    then obtain e1 where e1: "sender_step e = Some e1" "once_ok e1"
      using sender_advances[OF Suc.prems(1)] by (auto simp: s_advances_def)
    then show ?thesis using Suc.IH[of e1] Suc.prems(2) s_rank_decreases[OF e1(1)] False by simp
  qed
qed

lemma r_rank_decreases:
  assumes "receiver_step False e = Some e'" and "state e \<noteq> EVENT_SIGNALING"
  shows "r_rank (receiver e') (state e') < r_rank (receiver e) (state e) \<and> state e' \<noteq> EVENT_SIGNALING"
proof (cases "receiver e")
  case (RDestroy k)
  then show ?thesis using assms
    by (cases k) (auto simp: receiver_step_def destroy_awaiter_def Let_def bind_eq_Some_iff)
qed (use assms in \<open>auto simp: receiver_step_def poll_dispatch_def poll_bound_cas_def poll_awaiting_cas_def
    poll_signaling_def take_result_def cancel_cas_def release_event_def Let_def bind_eq_Some_iff split: if_splits\<close>)

lemma receiver_run_ends:
  "once_ok e \<Longrightarrow> r_rank (receiver e) (state e) \<le> n \<Longrightarrow> state e \<noteq> EVENT_SIGNALING \<Longrightarrow>
   \<exists>e'. receiver_run n e = Some e' \<and> once_ok e' \<and> (receiver e' = ROpen \<or> receiver e' = RDone)"
proof (induction n arbitrary: e)
  case 0
  have "receiver e = ROpen \<or> receiver e = RDone"
  proof (cases "receiver e")
    case (RDestroy k)
    then show ?thesis using 0 by (cases k) auto
  qed (use 0 in \<open>auto split: if_splits\<close>)
  with 0 show ?case by auto
next
  case (Suc n)
  show ?case
  proof (cases "receiver e = ROpen \<or> receiver e = RDone")
    case True
    with Suc.prems show ?thesis by auto
  next
    case False
    then obtain e1 where e1: "receiver_step False e = Some e1" "once_ok e1"
      using receiver_advances[OF Suc.prems(1), of False] by (auto simp: r_advances_def)
    then show ?thesis using Suc.IH[of e1] Suc.prems(2) r_rank_decreases[OF e1(1) Suc.prems(3)] False by simp
  qed
qed

lemma r_rank_bound: "r_rank r b \<le> 9"
proof (cases r)
  case (RDestroy k)
  then show ?thesis by (cases k) auto
qed auto

section \<open>Properties\<close>

text \<open>C1: Whatever the two endpoints do, in any interleaving: what the receiver gets is what was sent.
  Once both endpoints are finished the storage has been released and both cells are empty, a sent
  value was either delivered or dropped, exactly once, and every waker that was stored was either
  invoked or dropped, exactly once.\<close>

theorem once_exchange:
  assumes "once_reachable e"
  shows "(outcome e = Some (Some v) \<longrightarrow> sent e = Some v)
    \<and> (sender e = SDone \<and> receiver e = RDone \<longrightarrow>
        released e \<and> awaiter_cell e = None \<and> value_cell e = None
        \<and> (outcome e = Some (sent e) \<and> discarded e = []
           \<or> outcome e = None \<and> discarded e = (case sent e of None \<Rightarrow> [] | Some v \<Rightarrow> [v]))
        \<and> mset (cloned e) = mset (woken e) + mset (retired e))"
proof -
  note inv = once_okD[OF once_reachable_ok[OF assms]]
  have "outcome e = Some (Some v) \<Longrightarrow> sent e = Some v" using inv(5) by (auto split: if_splits)
  moreover have "released e \<and> awaiter_cell e = None \<and> value_cell e = None
      \<and> (outcome e = Some (sent e) \<and> discarded e = [] \<or> outcome e = None \<and> discarded e = as_list (sent e))
      \<and> mset (cloned e) = mset (woken e) + mset (retired e)"
    if "sender e = SDone" "receiver e = RDone" using inv that by (auto split: if_splits)
  ultimately show ?thesis by blast
qed

text \<open>C7: In every reachable state an endpoint inside a call has a next step, whether user code unwinds or
  not: no \<open>unreachable!\<close> arm is taken, no uninitialized cell is read, no event is touched or released
  after its storage was released. And the endpoints are never both about to access the same cell.\<close>

theorem once_never_stuck:
  assumes "once_reachable e"
  shows "(sender e \<notin> {SOpen, SDone} \<longrightarrow> (\<exists>e'. sender_step e = Some e'))
    \<and> (receiver e \<notin> {ROpen, RDone} \<longrightarrow> (\<exists>e'. receiver_step unwinds e = Some e'))
    \<and> \<not> ((\<exists>f. sender e = SWaker f)
         \<and> ((\<exists>w. receiver e = RWrite w) \<or> (\<exists>k. receiver e = RDestroy k) \<or> receiver e = RCancelWaker))
    \<and> \<not> (((\<exists>v. sender e = SWrite v) \<or> sender e = SReclaim)
         \<and> (receiver e = RTake \<or> (\<exists>ow. receiver e = RCancelValue ow)))"
proof -
  have ok: "once_ok e" using once_reachable_ok[OF assms] .
  note inv = once_okD[OF ok]
  have "\<exists>e'. sender_step e = Some e'" if "sender e \<notin> {SOpen, SDone}"
    using sender_advances[OF ok] that by (auto simp: s_advances_def)
  moreover have "\<exists>e'. receiver_step unwinds e = Some e'" if "receiver e \<notin> {ROpen, RDone}"
    using receiver_advances[OF ok] that by (auto simp: r_advances_def)
  moreover have "\<not> ((\<exists>f. sender e = SWaker f)
      \<and> ((\<exists>w. receiver e = RWrite w) \<or> (\<exists>k. receiver e = RDestroy k) \<or> receiver e = RCancelWaker))"
    using inv(2) by auto
  moreover have "\<not> (((\<exists>v. sender e = SWrite v) \<or> sender e = SReclaim)
      \<and> (receiver e = RTake \<or> (\<exists>ow. receiver e = RCancelValue ow)))"
    using inv(1,2) by auto
  ultimately show ?thesis by blast
qed


text \<open>A value sent while the receiver is connected and between calls reaches it: \<open>send\<close> run to its end wakes
  the registered waker, if there is one, and \<open>into_value\<close> then completes with the value and releases
  the storage. Without a send, dropping the sender makes \<open>into_value\<close> report a disconnection.\<close>

theorem once_delivers:
  assumes "once_reachable e" and "sender e = SOpen" and "receiver e = ROpen"
  shows "(\<exists>e1 e2. sender_run 5 (e\<lparr>sender := SWrite v\<rparr>) = Some e1 \<and> sender e1 = SDone
      \<and> woken e1 = woken e @ (case awaiter_cell e of None \<Rightarrow> [] | Some w \<Rightarrow> [w])
      \<and> is_ready e1 = Some True
      \<and> receiver_run 4 (e1\<lparr>receiver := RInto\<rparr>) = Some e2 \<and> outcome e2 = Some (Some v) \<and> released e2)
    \<and> (\<exists>e1 e2. sender_run 5 (e\<lparr>sender := SSwap\<rparr>) = Some e1 \<and> sender e1 = SDone
      \<and> woken e1 = woken e @ (case awaiter_cell e of None \<Rightarrow> [] | Some w \<Rightarrow> [w])
      \<and> is_ready e1 = Some True
      \<and> receiver_run 4 (e1\<lparr>receiver := RInto\<rparr>) = Some e2 \<and> outcome e2 = Some None \<and> released e2)"
proof -
  note inv = once_okD[OF once_reachable_ok[OF assms(1)], unfolded assms(2,3)]
  have base: "\<not> released e" using inv(1) by simp
  note evs = sender_step_def set_transition_def disconnect_transition_def receiver_step_def take_result_def
    release_event_def is_ready_def Let_def numeral_nat
  consider "state e = EVENT_BOUND" "awaiter_cell e = None"
    | w where "state e = EVENT_AWAITING" "awaiter_cell e = Some w" using inv(1,3) by auto
  then show ?thesis
    using base assms(2,3) by cases (intro conjI; simp add: evs)+
qed

text \<open>A concrete exchange: the receiver polls, the sender sends 42, the receiver takes it.\<close>

lemma sender_run_reachable: "once_reachable e \<Longrightarrow> sender_run n e = Some e' \<Longrightarrow> once_reachable e'"
proof (induction n arbitrary: e)
  case (Suc n)
  then show ?case
    by (auto simp: bind_eq_Some_iff split: if_splits dest: once_reachable.further[OF _ once_step.sender_runs])
qed simp

lemma receiver_run_reachable: "once_reachable e \<Longrightarrow> receiver_run n e = Some e' \<Longrightarrow> once_reachable e'"
proof (induction n arbitrary: e)
  case (Suc n)
  then show ?case
    by (auto simp: bind_eq_Some_iff split: if_splits dest: once_reachable.further[OF _ once_step.receiver_runs])
qed simp

definition demo_waiting :: "(nat, nat) once" where
  "demo_waiting = once_new\<lparr>state := EVENT_AWAITING, awaiter_cell := Some 7, cloned := [7]\<rparr>"

definition demo_sending :: "(nat, nat) once" where
  "demo_sending = demo_waiting\<lparr>sender := SWrite 42\<rparr>"

definition demo_finished :: "(nat, nat) once" where
  "demo_finished = once_new\<lparr>state := EVENT_DISCONNECTED, released := True, sender := SDone, receiver := RDone,
     sent := Some 42, outcome := Some (Some 42), woken := [7], cloned := [7]\<rparr>"

lemmas once_eval = sender_step_def set_transition_def receiver_step_def poll_dispatch_def poll_bound_cas_def
  take_result_def release_event_def Let_def numeral_nat once_new_def

lemma demo_waiting_reachable: "once_reachable demo_waiting"
proof -
  have "once_reachable (once_new\<lparr>receiver := RPoll 7\<rparr> :: (nat, nat) once)"
    by (rule once_reachable.further[OF once_reachable.created once_step.call_poll]) (simp add: once_new_def)
  moreover have "receiver_run 3 (once_new\<lparr>receiver := RPoll 7\<rparr>) = Some demo_waiting"
    by (simp add: once_eval demo_waiting_def)
  ultimately show ?thesis by (rule receiver_run_reachable)
qed

lemma demo_sending_reachable: "once_reachable demo_sending"
  unfolding demo_sending_def
  by (rule once_reachable.further[OF demo_waiting_reachable once_step.call_send])
    (simp add: demo_waiting_def once_new_def)

lemma demo_finished_reachable: "once_reachable demo_finished"
proof -
  let ?e = "demo_finished\<lparr>state := EVENT_SET, value_cell := Some 42, released := False, receiver := ROpen, outcome := None\<rparr>"
  have "sender_run 5 demo_sending = Some ?e"
    by (simp add: once_eval demo_sending_def demo_waiting_def demo_finished_def)
  then have "once_reachable ?e" by (rule sender_run_reachable[OF demo_sending_reachable])
  then have "once_reachable (?e\<lparr>receiver := RInto\<rparr>)" by (rule once_reachable.further[OF _ once_step.call_into_value]) simp
  moreover have "receiver_run 4 (?e\<lparr>receiver := RInto\<rparr>) = Some demo_finished"
    by (simp add: once_eval demo_finished_def)
  ultimately show ?thesis by (rule receiver_run_reachable)
qed

theorem once_exchange_witness:
  "sender demo_finished = SDone \<and> receiver demo_finished = RDone \<and> outcome demo_finished = Some (Some 42)
   \<and> released demo_finished \<and> value_cell demo_finished = None \<and> sent demo_finished = Some 42"
proof -
  have d: "sender demo_finished = SDone" "receiver demo_finished = RDone" "outcome demo_finished = Some (Some 42)"
    by (simp_all add: demo_finished_def)
  note x = once_exchange[OF demo_finished_reachable, of 42]
  have "released demo_finished" "value_cell demo_finished = None" using x d(1,2) by blast+
  moreover have "sent demo_finished = Some 42" using x d(3) by blast
  ultimately show ?thesis using d by blast
qed

theorem once_never_stuck_witness: "\<exists>e'. sender_step demo_sending = Some e'"
  using once_never_stuck[OF demo_sending_reachable, of False] by (simp add: demo_sending_def)


theorem once_delivers_witness:
  "\<exists>e1 e2. sender_run 5 demo_sending = Some e1 \<and> woken e1 = [7] \<and> is_ready e1 = Some True
     \<and> receiver_run 4 (e1\<lparr>receiver := RInto\<rparr>) = Some e2 \<and> outcome e2 = Some (Some 42)"
proof -
  have d: "sender demo_waiting = SOpen" "receiver demo_waiting = ROpen" "woken demo_waiting = []"
    "awaiter_cell demo_waiting = Some 7"
    by (simp_all add: demo_waiting_def once_new_def)
  obtain e1 e2 where "sender_run 5 demo_sending = Some e1" "woken e1 = [7]" "is_ready e1 = Some True"
    "receiver_run 4 (e1\<lparr>receiver := RInto\<rparr>) = Some e2" "outcome e2 = Some (Some 42)"
    using once_delivers[OF demo_waiting_reachable d(1,2), of 42, folded demo_sending_def] d(3,4) by (simp only: option.case append_Nil) blast
  then show ?thesis by blast
qed

end
