(* ===== verification/NmBag.thy ===== *)
theory NmBag
  imports Prelude
begin

text \<open>
  Package \<open>nm_impl\<close>, \<open>observations/bag.rs\<close> and \<open>pusher.rs\<close>: the observation bags of an event, the copy
  of a thread's bag into its shared bag through the bitmap of dirty buckets, merging and snapshots, and
  the pusher. Counts and magnitudes are 64-bit words, so every addition wraps as in the source; \<open>usize\<close>
  batch sizes are 64-bit words too. \<open>None\<close> is a panic or an unchecked access out of bounds.
\<close>

section \<open>Bits\<close>

definition count_ones :: "'a::len word \<Rightarrow> nat" where
  "count_ones w = length (filter (bit w) [0..<LENGTH('a)])"

definition clear_lowest_set_bit :: "64 word \<Rightarrow> 64 word" where
  "clear_lowest_set_bit value = value AND (value - 1)"

lemma trailing_zeros_bit: "w \<noteq> 0 \<Longrightarrow> bit w (trailing_zeros w)"
  using word_nonzero_has_bit trailing_zeros_least by blast

lemma trailing_zeros_lt: "w \<noteq> 0 \<Longrightarrow> trailing_zeros (w :: 'a::len word) < LENGTH('a)"
  using trailing_zeros_bit bit_imp_le_length by blast

text \<open>Subtracting one turns the lowest set bit off and the zeros below it on.\<close>

lemma minus_one_split:
  assumes "w \<noteq> (0 :: 'a::len word)"
  defines "t \<equiv> trailing_zeros w"
  shows "w - 1 = (w AND NOT (push_bit t 1)) OR mask t"
proof -
  let ?r = "w AND NOT (push_bit t 1)"
  have t: "bit w t" "t < LENGTH('a)" "\<And>i. i < t \<Longrightarrow> \<not> bit w i"
    using trailing_zeros_bit[OF assms(1)] trailing_zeros_lt[OF assms(1)] trailing_zeros_below unfolding t_def by blast+
  have r: "bit ?r i = (bit w i \<and> i \<noteq> t)" for i
    using bit_imp_le_length[of w i] by (auto simp: bit_simps)
  have "w = ?r OR push_bit t 1" using t by (intro bit_word_eqI) (auto simp: bit_simps)
  also have "\<dots> = ?r + push_bit t 1"
    by (rule disjunctive_add[symmetric]) (simp only: r bit_one_shifted, blast)
  finally have "w - 1 = ?r + (push_bit t 1 - 1)" by simp
  also have "push_bit t (1 :: 'a word) - 1 = mask t" by (simp add: mask_eq_decr_exp push_bit_eq_mult)
  also have "?r + mask t = ?r OR mask t"
    using t(3) by (intro disjunctive_add) (simp only: r bit_mask_iff, blast)
  finally show ?thesis .
qed

lemma bit_clear_lowest:
  assumes "w \<noteq> 0"
  shows "bit (clear_lowest_set_bit w) i = (bit w i \<and> i \<noteq> trailing_zeros w)"
proof -
  have "bit (clear_lowest_set_bit w) i = (bit w i \<and> (bit w i \<and> \<not> bit (push_bit (trailing_zeros w) (1 :: 64 word)) i
      \<or> i < trailing_zeros w))"
    using bit_imp_le_length[of w i] unfolding clear_lowest_set_bit_def minus_one_split[OF assms]
    by (auto simp: bit_simps)
  then show ?thesis using trailing_zeros_below[of i w] bit_imp_le_length[of w i] trailing_zeros_lt[OF assms]
      trailing_zeros_bit[OF assms] by (auto simp: bit_exp_iff)
qed

lemma count_ones_card: "count_ones (w :: 'a::len word) = card {i. bit w i}"
proof -
  have "card {i. bit w i} = card (set (filter (bit w) [0..<LENGTH('a)]))"
    by (rule arg_cong[of _ _ card]) (auto dest: bit_imp_le_length)
  then show ?thesis by (simp only: count_ones_def distinct_card distinct_filter distinct_upt)
qed

lemma count_ones_clear:
  assumes "w \<noteq> 0"
  shows "count_ones (clear_lowest_set_bit w) < count_ones w"
proof -
  have "{i. bit (clear_lowest_set_bit w) i} = {i. bit w i} - {trailing_zeros w}"
    using bit_clear_lowest[OF assms] by auto
  moreover have "finite {i. bit w i}" by (rule finite_subset[of _ "{..<64}"]) (auto dest: bit_imp_le_length)
  ultimately show ?thesis
    using trailing_zeros_bit[OF assms] by (simp only: count_ones_card) (rule card_Diff1_less, simp_all)
qed

section \<open>Model\<close>

type_synonym magnitude = "64 word"

definition observation_increments :: "magnitude \<Rightarrow> 64 word \<Rightarrow> 64 word \<times> magnitude" where
  "observation_increments m count = (count, m * count)"

definition select_bucket :: "magnitude list \<Rightarrow> magnitude \<Rightarrow> nat option" where
  "select_bucket magnitudes m = first_true (map (\<lambda>b. m \<le>s b) magnitudes)"

record observation_bag =
  bag_count :: "64 word"
  bag_sum :: magnitude
  bag_buckets :: "64 word list"
  bag_magnitudes :: "magnitude list"
  dirty_buckets :: "64 word"

record sync_bag =
  sync_count :: "64 word"
  sync_sum :: magnitude
  sync_buckets :: "64 word list"
  sync_magnitudes :: "magnitude list"

record snapshot =
  snap_count :: "64 word"
  snap_sum :: magnitude
  snap_magnitudes :: "magnitude list"
  snap_buckets :: "64 word list"

definition bag_new :: "magnitude list \<Rightarrow> observation_bag" where
  "bag_new ms = \<lparr>bag_count = 0, bag_sum = 0, bag_buckets = replicate (length ms) 0, bag_magnitudes = ms,
     dirty_buckets = 0\<rparr>"

definition sync_new :: "magnitude list \<Rightarrow> sync_bag" where
  "sync_new ms = \<lparr>sync_count = 0, sync_sum = 0, sync_buckets = replicate (length ms) 0, sync_magnitudes = ms\<rparr>"

definition take_dirty_buckets :: "observation_bag \<Rightarrow> 64 word \<times> observation_bag" where
  "take_dirty_buckets b = (dirty_buckets b, b\<lparr>dirty_buckets := 0\<rparr>)"

definition DIRTY_BUCKETS_OVERFLOW_INDEX :: nat where
  "DIRTY_BUCKETS_OVERFLOW_INDEX = 63"

text \<open>The bucket of an observation, when there is one, is incremented through an unchecked index.\<close>

definition bag_insert :: "observation_bag \<Rightarrow> magnitude \<Rightarrow> 64 word \<Rightarrow> observation_bag option" where
  "bag_insert b m count =
     (if count = 0 then Some b
      else let (c, s) = observation_increments m count;
               b = b\<lparr>bag_count := bag_count b + c, bag_sum := bag_sum b + s\<rparr> in
        if bag_magnitudes b = [] then Some b
        else case select_bucket (bag_magnitudes b) m of
            None \<Rightarrow> Some b
          | Some i \<Rightarrow> do {
              require (i < length (bag_buckets b));
              Some (b\<lparr>bag_buckets := (bag_buckets b)[i := bag_buckets b ! i + c],
                dirty_buckets := dirty_buckets b OR push_bit (min i DIRTY_BUCKETS_OVERFLOW_INDEX) 1\<rparr>)
            })"

definition sync_insert :: "sync_bag \<Rightarrow> magnitude \<Rightarrow> 64 word \<Rightarrow> sync_bag option" where
  "sync_insert b m count =
     (if count = 0 then Some b
      else let (c, s) = observation_increments m count;
               b = b\<lparr>sync_count := sync_count b + c, sync_sum := sync_sum b + s\<rparr> in
        if sync_magnitudes b = [] then Some b
        else case select_bucket (sync_magnitudes b) m of
            None \<Rightarrow> Some b
          | Some i \<Rightarrow> do {
              require (i < length (sync_buckets b));
              Some (b\<lparr>sync_buckets := (sync_buckets b)[i := sync_buckets b ! i + c]\<rparr>)
            })"

definition is_compatible_with :: "sync_bag \<Rightarrow> sync_bag \<Rightarrow> bool" where
  "is_compatible_with a b = (sync_magnitudes a = sync_magnitudes b)"

text \<open>Adding bucket by bucket over the zipped slices: the target keeps what the source lacks.\<close>

fun add_buckets :: "64 word list \<Rightarrow> 64 word list \<Rightarrow> 64 word list" where
  "add_buckets (t # ts) (s # ss) = (t + s) # add_buckets ts ss"
| "add_buckets ts [] = ts"
| "add_buckets [] ss = []"

definition merge_from :: "sync_bag \<Rightarrow> sync_bag \<Rightarrow> sync_bag option" where
  "merge_from b other = do {
     require (is_compatible_with b other);
     Some (b\<lparr>sync_count := sync_count b + sync_count other, sync_sum := sync_sum b + sync_sum other,
       sync_buckets := add_buckets (sync_buckets b) (sync_buckets other)\<rparr>)
   }"

definition sync_snapshot :: "sync_bag \<Rightarrow> snapshot" where
  "sync_snapshot b = \<lparr>snap_count = sync_count b, snap_sum = sync_sum b, snap_magnitudes = sync_magnitudes b,
     snap_buckets = sync_buckets b\<rparr>"

definition merge_from_observations :: "snapshot \<Rightarrow> sync_bag \<Rightarrow> snapshot option" where
  "merge_from_observations s other = do {
     require (snap_magnitudes s = sync_magnitudes other);
     Some (s\<lparr>snap_count := snap_count s + sync_count other, snap_sum := snap_sum s + sync_sum other,
       snap_buckets := add_buckets (snap_buckets s) (sync_buckets other)\<rparr>)
   }"

text \<open>The scan of the buckets at and above the overflow index.\<close>

fun store_buckets :: "nat list \<Rightarrow> 64 word list \<Rightarrow> 64 word list \<Rightarrow> 64 word list option" where
  "store_buckets [] src tgt = Some tgt"
| "store_buckets (i # is) src tgt = do {
     require (i < length src);
     require (i < length tgt);
     store_buckets is src (tgt[i := src ! i])
   }"

definition drain_overflow_buckets ::
    "sync_bag \<Rightarrow> observation_bag \<Rightarrow> 64 word \<Rightarrow> (sync_bag \<times> 64 word) option" where
  "drain_overflow_buckets b data dirty = do {
     require (length (sync_buckets b) = length (bag_buckets data));
     let overflow_mask = push_bit DIRTY_BUCKETS_OVERFLOW_INDEX 1;
     if dirty AND overflow_mask = 0 then Some (b, dirty)
     else do {
       bs \<leftarrow> store_buckets [DIRTY_BUCKETS_OVERFLOW_INDEX..<length (bag_buckets data)] (bag_buckets data) (sync_buckets b);
       Some (b\<lparr>sync_buckets := bs\<rparr>, dirty AND NOT overflow_mask)
     }
   }"

text \<open>The loop over the set bits of the bitmap, with the assertion that the population count decreases.\<close>

function copy_dirty :: "64 word \<Rightarrow> 64 word list \<Rightarrow> 64 word list \<Rightarrow> 64 word list option" where
  "copy_dirty dirty src tgt =
     (if dirty = 0 then Some tgt
      else let i = trailing_zeros dirty; rest = clear_lowest_set_bit dirty in do {
        require (count_ones rest < count_ones dirty);
        require (i < length src);
        require (i < length tgt);
        copy_dirty rest src (tgt[i := src ! i])
      })"
  by pat_completeness auto
termination by (relation "measure (\<lambda>(d, _, _). count_ones d)") (auto simp: count_ones_clear)

definition copy_from :: "sync_bag \<Rightarrow> observation_bag \<Rightarrow> (sync_bag \<times> observation_bag) option" where
  "copy_from b data = do {
     require (sync_magnitudes b = bag_magnitudes data);
     let b = b\<lparr>sync_count := bag_count data, sync_sum := bag_sum data\<rparr>;
     let (dirty, data) = take_dirty_buckets data;
     (b, dirty) \<leftarrow> drain_overflow_buckets b data dirty;
     bs \<leftarrow> copy_dirty dirty (bag_buckets data) (sync_buckets b);
     Some (b\<lparr>sync_buckets := bs\<rparr>, data)
   }"

declare copy_dirty.simps [simp del]

section \<open>What the bags record\<close>

text \<open>The reference: the occurrences in a list of observations \<open>(magnitude, batch size)\<close>, counted modulo
  \<open>2 ^ 64\<close>. \<open>in_bucket\<close> selects those that fall into a bucket.\<close>

type_synonym observation = "magnitude \<times> 64 word"

definition total_of :: "observation list \<Rightarrow> 64 word" where
  "total_of os = sum_list (map snd os)"

definition sum_of :: "observation list \<Rightarrow> magnitude" where
  "sum_of os = sum_list (map (\<lambda>(m, c). m * c) os)"

definition in_bucket :: "magnitude list \<Rightarrow> nat \<Rightarrow> magnitude \<Rightarrow> bool" where
  "in_bucket ms i m = (m \<le>s ms ! i \<and> (\<forall>j < i. ms ! j <s m))"

definition tally :: "magnitude list \<Rightarrow> observation list \<Rightarrow> snapshot" where
  "tally ms os = \<lparr>snap_count = total_of os, snap_sum = sum_of os, snap_magnitudes = ms,
     snap_buckets = map (\<lambda>i. total_of (filter (\<lambda>(m, c). in_bucket ms i m) os)) [0..<length ms]\<rparr>"

lemma total_of_simps [simp]:
  "total_of [] = 0" "total_of (x # os) = snd x + total_of os" "total_of (os @ os') = total_of os + total_of os'"
  by (simp_all add: total_of_def)

lemma sum_of_simps [simp]:
  "sum_of [] = 0" "sum_of ((m, c) # os) = m * c + sum_of os" "sum_of (os @ os') = sum_of os + sum_of os'"
  by (simp_all add: sum_of_def)

lemma select_bucket_Some:
  "select_bucket ms m = Some i \<longleftrightarrow> i < length ms \<and> in_bucket ms i m"
  by (auto simp: select_bucket_def first_true_Some_iff in_bucket_def word_sle_eq word_sless_alt)

lemma select_bucket_unique: "i < length ms \<Longrightarrow> in_bucket ms i m = (select_bucket ms m = Some i)"
  by (simp add: select_bucket_Some)

text \<open>The contract of an observation bag: inserting adds one observation to what a snapshot shows.\<close>

locale recorder =
  fixes fresh :: "magnitude list \<Rightarrow> 'b"
    and insert :: "'b \<Rightarrow> magnitude \<Rightarrow> 64 word \<Rightarrow> 'b option"
    and view :: "'b \<Rightarrow> snapshot"
  assumes view_fresh: "view (fresh ms) = tally ms []"
    and view_insert: "view b = tally ms os \<Longrightarrow> \<exists>b'. insert b m c = Some b' \<and> view b' = tally ms (os @ [(m, c)])"
begin

fun insert_all :: "'b \<Rightarrow> observation list \<Rightarrow> 'b option" where
  "insert_all b [] = Some b"
| "insert_all b ((m, c) # os) = insert b m c \<bind> (\<lambda>b. insert_all b os)"

lemma insert_all_view:
  "view b = tally ms os \<Longrightarrow> \<exists>b'. insert_all b os' = Some b' \<and> view b' = tally ms (os @ os')"
proof (induction os' arbitrary: b os)
  case (Cons x os')
  obtain m c where x: "x = (m, c)" by force
  obtain b' where "insert b m c = Some b'" "view b' = tally ms (os @ [(m, c)])" using view_insert[OF Cons.prems] by blast
  with Cons.IH[of b' "os @ [(m, c)]"] show ?case by (simp add: x)
qed simp

lemma insert_all_fresh: "\<exists>b'. insert_all (fresh ms) os = Some b' \<and> view b' = tally ms os"
  using insert_all_view[OF view_fresh, of ms os] by simp

end

definition bag_view :: "observation_bag \<Rightarrow> snapshot" where
  "bag_view b = \<lparr>snap_count = bag_count b, snap_sum = bag_sum b, snap_magnitudes = bag_magnitudes b,
     snap_buckets = bag_buckets b\<rparr>"

lemma tally_snoc_none:
  "c = 0 \<or> select_bucket ms m = None \<Longrightarrow> tally ms (os @ [(m, c)]) =
     (tally ms os)\<lparr>snap_count := total_of os + c, snap_sum := sum_of os + m * c\<rparr>"
  by (auto simp: tally_def select_bucket_unique)

lemma tally_snoc_some:
  assumes "select_bucket ms m = Some i"
  shows "tally ms (os @ [(m, c)]) =
     (tally ms os)\<lparr>snap_count := total_of os + c, snap_sum := sum_of os + m * c,
        snap_buckets := (snap_buckets (tally ms os))[i := snap_buckets (tally ms os) ! i + c]\<rparr>"
proof -
  have "i < length ms" using assms by (simp add: select_bucket_Some)
  then have "map (\<lambda>i. total_of (filter (\<lambda>(m, c). in_bucket ms i m) (os @ [(m, c)]))) [0..<length ms] =
    (map (\<lambda>i. total_of (filter (\<lambda>(m, c). in_bucket ms i m) os)) [0..<length ms])[i :=
      total_of (filter (\<lambda>(m, c). in_bucket ms i m) os) + c]"
    using assms by (intro nth_equalityI) (auto simp: nth_list_update select_bucket_unique)
  with \<open>i < length ms\<close> show ?thesis by (simp add: tally_def)
qed

interpretation local_bag: recorder bag_new bag_insert bag_view
proof
  show "bag_view (bag_new ms) = tally ms []" for ms
    by (auto simp: bag_view_def bag_new_def tally_def intro!: nth_equalityI)
  fix b :: observation_bag and ms os m c
  assume v: "bag_view b = tally ms os"
  then have b: "bag_count b = total_of os" "bag_sum b = sum_of os" "bag_magnitudes b = ms"
    "bag_buckets b = snap_buckets (tally ms os)" "length (bag_buckets b) = length ms"
    by (simp_all add: bag_view_def tally_def)
  show "\<exists>b'. bag_insert b m c = Some b' \<and> bag_view b' = tally ms (os @ [(m, c)])"
  proof (cases "c = 0 \<or> select_bucket ms m = None")
    case True
    then show ?thesis unfolding tally_snoc_none[OF True] v[symmetric]
      using b by (auto simp: bag_insert_def observation_increments_def bag_view_def Let_def)
  next
    case False
    then obtain i where i: "select_bucket ms m = Some i" by auto
    then have "i < length ms" "ms \<noteq> []" by (auto simp: select_bucket_Some)
    then show ?thesis unfolding tally_snoc_some[OF i] v[symmetric]
      using b False i by (auto simp: bag_insert_def observation_increments_def bag_view_def Let_def)
  qed
qed

interpretation shared_bag: recorder sync_new sync_insert sync_snapshot
proof
  show "sync_snapshot (sync_new ms) = tally ms []" for ms
    by (auto simp: sync_snapshot_def sync_new_def tally_def intro!: nth_equalityI)
  fix b :: sync_bag and ms os m c
  assume v: "sync_snapshot b = tally ms os"
  then have b: "sync_count b = total_of os" "sync_sum b = sum_of os" "sync_magnitudes b = ms"
    "sync_buckets b = snap_buckets (tally ms os)" "length (sync_buckets b) = length ms"
    by (simp_all add: sync_snapshot_def tally_def)
  show "\<exists>b'. sync_insert b m c = Some b' \<and> sync_snapshot b' = tally ms (os @ [(m, c)])"
  proof (cases "c = 0 \<or> select_bucket ms m = None")
    case True
    then show ?thesis unfolding tally_snoc_none[OF True] v[symmetric]
      using b by (auto simp: sync_insert_def observation_increments_def sync_snapshot_def Let_def)
  next
    case False
    then obtain i where i: "select_bucket ms m = Some i" by auto
    then have "i < length ms" "ms \<noteq> []" by (auto simp: select_bucket_Some)
    then show ?thesis unfolding tally_snoc_some[OF i] v[symmetric]
      using b False i by (auto simp: sync_insert_def observation_increments_def sync_snapshot_def Let_def)
  qed
qed

section \<open>The dirty bitmap\<close>

text \<open>A set bit stands for a bucket that exists, the overflow bit for some bucket at or above its index.\<close>

definition dirty_ok :: "observation_bag \<Rightarrow> bool" where
  "dirty_ok b = (length (bag_buckets b) = length (bag_magnitudes b)
     \<and> (\<forall>i. bit (dirty_buckets b) i \<longrightarrow> i < length (bag_buckets b)))"

text \<open>The shared bag lags behind the thread's bag at most in dirty buckets.\<close>

definition follows :: "sync_bag \<Rightarrow> observation_bag \<Rightarrow> bool" where
  "follows s b = (sync_magnitudes s = bag_magnitudes b \<and> length (sync_buckets s) = length (bag_buckets b)
     \<and> (\<forall>i < length (bag_buckets b). \<not> bit (dirty_buckets b) (min i DIRTY_BUCKETS_OVERFLOW_INDEX) \<longrightarrow>
          sync_buckets s ! i = bag_buckets b ! i))"

lemma store_buckets_spec:
  "distinct is \<Longrightarrow> \<forall>i \<in> set is. i < length src \<Longrightarrow> length tgt = length src \<Longrightarrow>
   \<exists>t. store_buckets is src tgt = Some t \<and> length t = length src
     \<and> (\<forall>j < length src. t ! j = (if j \<in> set is then src ! j else tgt ! j))"
proof (induction "is" arbitrary: tgt)
  case (Cons i "is")
  have "distinct is" "\<forall>i \<in> set is. i < length src" "length (tgt[i := src ! i]) = length src" using Cons.prems by simp_all
  from Cons.IH[OF this] obtain t where t: "store_buckets is src (tgt[i := src ! i]) = Some t" "length t = length src"
    "\<And>j. j < length src \<Longrightarrow> t ! j = (if j \<in> set is then src ! j else tgt[i := src ! i] ! j)" by blast
  have "t ! j = (if j \<in> set (i # is) then src ! j else tgt ! j)" if "j < length src" for j
    using t(3)[OF that] that Cons.prems by (auto simp: nth_list_update)
  with t Cons.prems show ?case by (intro exI[of _ t]) simp
qed simp

lemma copy_dirty_spec:
  "\<forall>i. bit d i \<longrightarrow> i < length src \<Longrightarrow> length tgt = length src \<Longrightarrow>
   \<exists>t. copy_dirty d src tgt = Some t \<and> length t = length src
     \<and> (\<forall>j < length src. t ! j = (if bit d j then src ! j else tgt ! j))"
proof (induction d src tgt rule: copy_dirty.induct)
  case (1 d src tgt)
  show ?case
  proof (cases "d = 0")
    case True
    then show ?thesis using 1(3) by (simp add: copy_dirty.simps)
  next
    case False
    let ?i = "trailing_zeros d" and ?d = "clear_lowest_set_bit d"
    have i: "?i < length src" using 1(2) trailing_zeros_bit[OF False] by blast
    obtain t where t: "copy_dirty ?d src (tgt[?i := src ! ?i]) = Some t" "length t = length src"
      "\<And>j. j < length src \<Longrightarrow> t ! j = (if bit ?d j then src ! j else tgt[?i := src ! ?i] ! j)"
      using 1(1)[OF False refl refl, of "()" "()" "()"] 1(2,3) i count_ones_clear[OF False] bit_clear_lowest[OF False]
      by auto
    have "copy_dirty d src tgt = Some t"
      using False i t(1) 1(3) count_ones_clear[OF False] by (subst copy_dirty.simps) (simp add: Let_def)
    moreover have "t ! j = (if bit d j then src ! j else tgt ! j)" if "j < length src" for j
      using t(3)[OF that] that 1(3) trailing_zeros_bit[OF False] bit_clear_lowest[OF False]
      by (auto simp: nth_list_update)
    ultimately show ?thesis using t(2) by blast
  qed
qed

lemma drain_overflow_spec:
  assumes "follows s b" and "dirty_ok b"
  shows "\<exists>s'. drain_overflow_buckets s b (dirty_buckets b) =
      Some (s', dirty_buckets b AND NOT (push_bit DIRTY_BUCKETS_OVERFLOW_INDEX 1))
    \<and> sync_count s' = sync_count s \<and> sync_sum s' = sync_sum s \<and> sync_magnitudes s' = sync_magnitudes s
    \<and> length (sync_buckets s') = length (bag_buckets b)
    \<and> (\<forall>i < length (bag_buckets b). i \<ge> DIRTY_BUCKETS_OVERFLOW_INDEX \<or> \<not> bit (dirty_buckets b) i \<longrightarrow>
         sync_buckets s' ! i = bag_buckets b ! i)"
proof -
  let ?k = DIRTY_BUCKETS_OVERFLOW_INDEX and ?n = "length (bag_buckets b)"
  have len: "length (sync_buckets s) = ?n" using assms(1) by (simp add: follows_def)
  have k: "?k < LENGTH(64)" by (simp add: DIRTY_BUCKETS_OVERFLOW_INDEX_def)
  note test = and_shifted_one_nonzero[OF k, of "dirty_buckets b"]
  show ?thesis
  proof (cases "bit (dirty_buckets b) ?k")
    case False
    have "dirty_buckets b AND NOT (push_bit ?k 1) = dirty_buckets b"
      using False by (intro bit_word_eqI) (auto simp: bit_simps)
    moreover have "sync_buckets s ! i = bag_buckets b ! i" if "i < ?n" "i \<ge> ?k \<or> \<not> bit (dirty_buckets b) i" for i
      using assms(1) that False by (auto simp: follows_def min_def split: if_splits)
    ultimately show ?thesis using False test len
      by (intro exI[of _ s]) (simp add: drain_overflow_buckets_def Let_def)
  next
    case True
    obtain t where t: "store_buckets [?k..<?n] (bag_buckets b) (sync_buckets s) = Some t" "length t = ?n"
      "\<And>j. j < ?n \<Longrightarrow> t ! j = (if j \<in> set [?k..<?n] then bag_buckets b ! j else sync_buckets s ! j)"
      using store_buckets_spec[of "[?k..<?n]" "bag_buckets b" "sync_buckets s"] len by auto
    have "t ! i = bag_buckets b ! i" if "i < ?n" "i \<ge> ?k \<or> \<not> bit (dirty_buckets b) i" for i
      using assms(1) that t(3)[OF that(1)] by (auto simp: follows_def min_def split: if_splits)
    with True test len t(1,2) show ?thesis
      by (intro exI[of _ "s\<lparr>sync_buckets := t\<rparr>"]) (simp add: drain_overflow_buckets_def Let_def)
  qed
qed

lemma copy_from_spec:
  assumes "follows s b" and "dirty_ok b"
  shows "\<exists>s'. copy_from s b = Some (s', b\<lparr>dirty_buckets := 0\<rparr>) \<and> sync_snapshot s' = bag_view b"
proof -
  let ?s = "s\<lparr>sync_count := bag_count b, sync_sum := bag_sum b\<rparr>" and ?k = DIRTY_BUCKETS_OVERFLOW_INDEX
  let ?d = "dirty_buckets b AND NOT (push_bit ?k 1)" and ?b = "b\<lparr>dirty_buckets := 0\<rparr>" and ?n = "length (bag_buckets b)"
  have "follows ?s b" using assms(1) by (simp add: follows_def)
  then obtain s1 where s1: "drain_overflow_buckets ?s b (dirty_buckets b) = Some (s1, ?d)"
    "sync_count s1 = bag_count b" "sync_sum s1 = bag_sum b" "sync_magnitudes s1 = sync_magnitudes s"
    "length (sync_buckets s1) = ?n"
    "\<And>i. i < ?n \<Longrightarrow> i \<ge> ?k \<or> \<not> bit (dirty_buckets b) i \<Longrightarrow> sync_buckets s1 ! i = bag_buckets b ! i"
    using drain_overflow_spec[of ?s b] assms(2) by auto
  have "drain_overflow_buckets ?s ?b (dirty_buckets b) = drain_overflow_buckets ?s b (dirty_buckets b)"
    by (simp add: drain_overflow_buckets_def Let_def)
  with s1(1) have same: "drain_overflow_buckets ?s ?b (dirty_buckets b) = Some (s1, ?d)" by simp
  have bits: "\<forall>i. bit ?d i \<longrightarrow> i < ?n" using assms(2) by (auto simp: dirty_ok_def bit_and_iff)
  obtain t where t: "copy_dirty ?d (bag_buckets b) (sync_buckets s1) = Some t" "length t = ?n"
    "\<And>j. j < ?n \<Longrightarrow> t ! j = (if bit ?d j then bag_buckets b ! j else sync_buckets s1 ! j)"
    using copy_dirty_spec[OF bits s1(5)] by blast
  have "t ! j = bag_buckets b ! j" if "j < ?n" for j
  proof (cases "bit ?d j")
    case False
    then have "j \<ge> ?k \<or> \<not> bit (dirty_buckets b) j"
      using bit_imp_le_length[of "dirty_buckets b" j] by (auto simp: bit_simps)
    then show ?thesis using t(3)[OF that] s1(6)[OF that] False by simp
  qed (use t(3)[OF that] in simp)
  then have "t = bag_buckets b" using t(2) by (intro nth_equalityI) auto
  moreover have "sync_magnitudes s = bag_magnitudes b" using assms(1) by (simp add: follows_def)
  ultimately show ?thesis using same t(1) s1(2-4)
    by (simp add: copy_from_def take_dirty_buckets_def Let_def sync_snapshot_def bag_view_def)
qed

lemma follows_new: "follows (sync_new ms) (bag_new ms)"
  by (auto simp: follows_def sync_new_def bag_new_def)

lemma dirty_ok_new: "dirty_ok (bag_new ms)"
  by (simp add: dirty_ok_def bag_new_def)

lemma follows_clean: "sync_snapshot s = bag_view b \<Longrightarrow> follows s (b\<lparr>dirty_buckets := 0\<rparr>)"
  by (simp add: follows_def sync_snapshot_def bag_view_def)

lemma bag_insert_keeps:
  assumes "dirty_ok b" and "follows s b" and "bag_insert b m c = Some b'"
  shows "dirty_ok b' \<and> follows s b'"
proof (cases "c = 0 \<or> bag_magnitudes b = [] \<or> select_bucket (bag_magnitudes b) m = None")
  case True
  then have "dirty_buckets b' = dirty_buckets b \<and> bag_buckets b' = bag_buckets b \<and> bag_magnitudes b' = bag_magnitudes b"
    using assms(3) by (auto simp: bag_insert_def Let_def observation_increments_def split: if_splits)
  with assms(1,2) show ?thesis by (auto simp: dirty_ok_def follows_def)
next
  case False
  then obtain i where i: "select_bucket (bag_magnitudes b) m = Some i" by auto
  let ?d = "min i DIRTY_BUCKETS_OVERFLOW_INDEX"
  have b': "dirty_buckets b' = dirty_buckets b OR push_bit ?d 1" "bag_buckets b' = (bag_buckets b)[i := bag_buckets b ! i + c]"
    "bag_magnitudes b' = bag_magnitudes b" and lt: "i < length (bag_buckets b)"
    using assms(3) False i by (auto simp: bag_insert_def Let_def observation_increments_def)
  have bit: "bit (dirty_buckets b') j = (bit (dirty_buckets b) j \<or> j = ?d)" for j
    using bit_imp_le_length[of "dirty_buckets b" j]
    unfolding b'(1) bit_or_iff bit_one_shifted by (auto simp: DIRTY_BUCKETS_OVERFLOW_INDEX_def)
  have "dirty_ok b'" using assms(1) lt unfolding dirty_ok_def bit b'(2,3) by auto
  moreover have "follows s b'" using assms(2) unfolding follows_def bit b'(2,3) by (auto simp: nth_list_update)
  ultimately show ?thesis ..
qed

section \<open>The pusher\<close>

text \<open>One event of a pusher: the thread's bag, the shared bag and the count at the last push. Bags are
  reached only through the pair, so the pair holds them by value.\<close>

record push_pair =
  pair_local :: observation_bag
  pair_global :: sync_bag
  last_pushed_count :: "64 word"

definition pusher_register :: "push_pair list \<Rightarrow> magnitude list \<Rightarrow> push_pair list" where
  "pusher_register ps ms = ps @ [\<lparr>pair_local = bag_new ms, pair_global = sync_new ms, last_pushed_count = 0\<rparr>]"

definition push_one :: "push_pair \<Rightarrow> push_pair option" where
  "push_one p =
     (let current_count = bag_count (pair_local p) in
      if current_count = last_pushed_count p then Some p
      else do {
        (g, l) \<leftarrow> copy_from (pair_global p) (pair_local p);
        Some \<lparr>pair_local = l, pair_global = g, last_pushed_count = current_count\<rparr>
      })"

fun pusher_push :: "push_pair list \<Rightarrow> push_pair list option" where
  "pusher_push [] = Some []"
| "pusher_push (p # ps) = do { p \<leftarrow> push_one p; ps \<leftarrow> pusher_push ps; Some (p # ps) }"

text \<open>An event of the pusher observes through its handle.\<close>

definition pusher_observe :: "push_pair list \<Rightarrow> nat \<Rightarrow> magnitude \<Rightarrow> 64 word \<Rightarrow> push_pair list option" where
  "pusher_observe ps k m c = do {
     require (k < length ps);
     b \<leftarrow> bag_insert (pair_local (ps ! k)) m c;
     Some (ps[k := (ps ! k)\<lparr>pair_local := b\<rparr>])
   }"

datatype pusher_op = RegisterEvent "magnitude list" | ObserveEvent nat magnitude "64 word" | PushAll

fun pusher_apply :: "push_pair list \<Rightarrow> pusher_op \<Rightarrow> push_pair list option" where
  "pusher_apply ps (RegisterEvent ms) = Some (pusher_register ps ms)"
| "pusher_apply ps (ObserveEvent k m c) = pusher_observe ps k m c"
| "pusher_apply ps PushAll = pusher_push ps"

fun pusher_run :: "push_pair list \<Rightarrow> pusher_op list \<Rightarrow> push_pair list option" where
  "pusher_run ps [] = Some ps"
| "pusher_run ps (op # ops) = pusher_apply ps op \<bind> (\<lambda>ps. pusher_run ps ops)"

text \<open>What event \<open>k\<close> observed, what it observed since the last push, and that no batch sizes of one push
  interval add up to \<open>2 ^ 64\<close> or more, the case the source accepts as data mangling.\<close>

fun observed :: "nat \<Rightarrow> pusher_op list \<Rightarrow> observation list" where
  "observed k [] = []"
| "observed k (ObserveEvent j m c # ops) = (if j = k then (m, c) # observed k ops else observed k ops)"
| "observed k (op # ops) = observed k ops"

definition batches :: "observation list \<Rightarrow> nat" where
  "batches os = sum_list (map (unat \<circ> snd) os)"

fun no_wrap :: "nat \<Rightarrow> observation list \<Rightarrow> pusher_op list \<Rightarrow> bool" where
  "no_wrap k pend [] = True"
| "no_wrap k pend (ObserveEvent j m c # ops) = no_wrap k (if j = k then pend @ [(m, c)] else pend) ops"
| "no_wrap k pend (RegisterEvent ms # ops) = no_wrap k pend ops"
| "no_wrap k pend (PushAll # ops) = (batches pend < usize_range \<and> no_wrap k [] ops)"

fun unpushed :: "nat \<Rightarrow> observation list \<Rightarrow> pusher_op list \<Rightarrow> observation list" where
  "unpushed k pend [] = pend"
| "unpushed k pend (ObserveEvent j m c # ops) = unpushed k (if j = k then pend @ [(m, c)] else pend) ops"
| "unpushed k pend (RegisterEvent ms # ops) = unpushed k pend ops"
| "unpushed k pend (PushAll # ops) = unpushed k [] ops"

fun histograms :: "pusher_op list \<Rightarrow> magnitude list list" where
  "histograms [] = []"
| "histograms (RegisterEvent ms # ops) = ms # histograms ops"
| "histograms (op # ops) = histograms ops"

text \<open>Operations name events that are registered by then.\<close>

fun well_indexed :: "nat \<Rightarrow> pusher_op list \<Rightarrow> bool" where
  "well_indexed n [] = True"
| "well_indexed n (RegisterEvent ms # ops) = well_indexed (Suc n) ops"
| "well_indexed n (ObserveEvent k m c # ops) = (k < n \<and> well_indexed n ops)"
| "well_indexed n (PushAll # ops) = well_indexed n ops"

section \<open>Pushing publishes everything\<close>

lemma batches_simps [simp]: "batches [] = 0" "batches (x # os) = unat (snd x) + batches os"
  "batches (os @ os') = batches os + batches os'"
  by (simp_all add: batches_def)

lemma total_of_batches: "total_of os = of_nat (batches os)"
  by (induction os) auto

lemma silent_batches:
  assumes "total_of pend = 0" and "batches pend < usize_range"
  shows "\<forall>x \<in> set pend. snd x = 0"
proof -
  have "unat (of_nat (batches pend) :: 64 word) = batches pend"
    using assms(2) by (simp add: unat_of_nat_64 usize_range_def)
  then have "batches pend = 0" using assms(1) total_of_batches[of pend] by simp
  then show ?thesis by (induction pend) (auto simp: unat_eq_0)
qed

lemma tally_silent: "\<forall>x \<in> set pend. snd x = 0 \<Longrightarrow> tally ms (os @ pend) = tally ms os"
proof (induction pend arbitrary: os)
  case (Cons x pend)
  obtain m where x: "x = (m, 0)" using Cons.prems by (cases x) auto
  have "tally ms (os @ [(m, 0)]) = tally ms os" using tally_snoc_none[of 0 ms m os] by (simp add: tally_def)
  moreover have "tally ms ((os @ [x]) @ pend) = tally ms (os @ [x])" using Cons.IH[of "os @ [x]"] Cons.prems by simp
  ultimately show ?case by (simp add: x)
qed simp

text \<open>A pair whose event observed \<open>os\<close>, the last \<open>pend\<close> of it since the last push.\<close>

definition pair_ok :: "push_pair \<Rightarrow> magnitude list \<Rightarrow> observation list \<Rightarrow> observation list \<Rightarrow> bool" where
  "pair_ok p ms os pend = (bag_view (pair_local p) = tally ms os \<and> dirty_ok (pair_local p)
     \<and> follows (pair_global p) (pair_local p)
     \<and> (\<exists>before. os = before @ pend \<and> last_pushed_count p = total_of before
          \<and> sync_snapshot (pair_global p) = tally ms before))"

lemma pair_ok_new: "pair_ok \<lparr>pair_local = bag_new ms, pair_global = sync_new ms, last_pushed_count = 0\<rparr> ms [] []"
  by (simp add: pair_ok_def local_bag.view_fresh shared_bag.view_fresh dirty_ok_new follows_new)

lemma pair_ok_observe:
  assumes "pair_ok p ms os pend"
  shows "\<exists>b. bag_insert (pair_local p) m c = Some b \<and> pair_ok (p\<lparr>pair_local := b\<rparr>) ms (os @ [(m, c)]) (pend @ [(m, c)])"
proof -
  note p = assms[unfolded pair_ok_def]
  obtain b where b: "bag_insert (pair_local p) m c = Some b" "bag_view b = tally ms (os @ [(m, c)])"
    using local_bag.view_insert[of "pair_local p" ms os m c] p by blast
  then show ?thesis using p bag_insert_keeps[OF _ _ b(1), of "pair_global p"] by (simp add: pair_ok_def)
qed

lemma pair_ok_push:
  assumes "pair_ok p ms os pend" and "batches pend < usize_range"
  shows "\<exists>p'. push_one p = Some p' \<and> pair_ok p' ms os [] \<and> sync_snapshot (pair_global p') = tally ms os"
proof -
  note p = assms(1)[unfolded pair_ok_def]
  obtain before where b: "os = before @ pend" "last_pushed_count p = total_of before"
    "sync_snapshot (pair_global p) = tally ms before" using p by blast
  have count: "bag_count (pair_local p) = total_of os" using p by (simp add: bag_view_def tally_def)
  show ?thesis
  proof (cases "total_of pend = 0")
    case True
    then have "tally ms os = tally ms before" using silent_batches[OF True assms(2)] tally_silent b(1) by blast
    then have "pair_ok p ms os []" using p b True by (simp add: pair_ok_def)
    then show ?thesis using count b True \<open>tally ms os = tally ms before\<close> by (simp add: push_one_def)
  next
    case False
    obtain s where s: "copy_from (pair_global p) (pair_local p) = Some (s, (pair_local p)\<lparr>dirty_buckets := 0\<rparr>)"
      "sync_snapshot s = bag_view (pair_local p)" using copy_from_spec p by blast
    let ?p = "\<lparr>pair_local = (pair_local p)\<lparr>dirty_buckets := 0\<rparr>, pair_global = s, last_pushed_count = total_of os\<rparr>"
    have "push_one p = Some ?p" using s(1) count b False by (simp add: push_one_def)
    moreover have "pair_ok ?p ms os []"
      using p s(2) follows_clean[OF s(2)] by (simp add: pair_ok_def bag_view_def dirty_ok_def)
    ultimately show ?thesis using s(2) p by simp
  qed
qed

lemma pusher_push_map:
  "\<forall>p \<in> set ps. push_one p = Some (f p) \<Longrightarrow> pusher_push ps = Some (map f ps)"
  by (induction ps) auto

text \<open>The state of a pusher against ghost histories: one list of observations and of those since the last
  push for every event.\<close>

definition pusher_ok ::
    "push_pair list \<Rightarrow> magnitude list list \<Rightarrow> (nat \<Rightarrow> observation list) \<Rightarrow> (nat \<Rightarrow> observation list) \<Rightarrow> bool" where
  "pusher_ok ps mss os pend = (length mss = length ps
     \<and> (\<forall>k < length ps. pair_ok (ps ! k) (mss ! k) (os k) (pend k)) \<and> (\<forall>k \<ge> length ps. os k = [] \<and> pend k = []))"

lemma pusher_ok_register:
  "pusher_ok ps mss os pend \<Longrightarrow> pusher_ok (pusher_register ps ms) (mss @ [ms]) os pend"
  using pair_ok_new[of ms] by (auto simp: pusher_ok_def pusher_register_def nth_append less_Suc_eq)

lemma pusher_ok_observe:
  assumes "pusher_ok ps mss os pend" and "k < length ps"
  shows "\<exists>ps'. pusher_observe ps k m c = Some ps' \<and> length ps' = length ps
    \<and> pusher_ok ps' mss (os(k := os k @ [(m, c)])) (pend(k := pend k @ [(m, c)]))"
proof -
  have "pair_ok (ps ! k) (mss ! k) (os k) (pend k)" using assms by (simp add: pusher_ok_def)
  then obtain b where b: "bag_insert (pair_local (ps ! k)) m c = Some b"
    "pair_ok ((ps ! k)\<lparr>pair_local := b\<rparr>) (mss ! k) (os k @ [(m, c)]) (pend k @ [(m, c)])"
    using pair_ok_observe by blast
  have "pusher_ok (ps[k := (ps ! k)\<lparr>pair_local := b\<rparr>]) mss (os(k := os k @ [(m, c)])) (pend(k := pend k @ [(m, c)]))"
    using assms b(2) by (auto simp: pusher_ok_def nth_list_update)
  with b(1) assms(2) show ?thesis by (simp add: pusher_observe_def)
qed

lemma pusher_ok_push:
  assumes "pusher_ok ps mss os pend" and "\<forall>k < length ps. batches (pend k) < usize_range"
  shows "\<exists>ps'. pusher_push ps = Some ps' \<and> length ps' = length ps \<and> pusher_ok ps' mss os (\<lambda>_. [])
    \<and> (\<forall>k < length ps. sync_snapshot (pair_global (ps' ! k)) = tally (mss ! k) (os k))"
proof -
  let ?f = "\<lambda>p. the (push_one p)"
  have one: "\<exists>p'. push_one (ps ! k) = Some p' \<and> pair_ok p' (mss ! k) (os k) []
      \<and> sync_snapshot (pair_global p') = tally (mss ! k) (os k)" if "k < length ps" for k
    using pair_ok_push assms that by (auto simp: pusher_ok_def)
  then have "\<forall>p \<in> set ps. push_one p = Some (?f p)" by (force simp: in_set_conv_nth)
  then have "pusher_push ps = Some (map ?f ps)" by (rule pusher_push_map)
  moreover have "pair_ok (map ?f ps ! k) (mss ! k) (os k) []
      \<and> sync_snapshot (pair_global (map ?f ps ! k)) = tally (mss ! k) (os k)" if "k < length ps" for k
    using one[OF that] that by auto
  moreover have "pusher_ok (map ?f ps) mss os (\<lambda>_. [])"
    using calculation(2) assms(1) by (auto simp: pusher_ok_def)
  ultimately show ?thesis by (intro exI[of _ "map ?f ps"]) simp
qed

lemma pusher_run_ok:
  assumes "pusher_ok ps mss os pend" and "well_indexed (length ps) ops"
    and "\<forall>k. no_wrap k (pend k) ops"
  shows "\<exists>ps'. pusher_run ps ops = Some ps'
    \<and> pusher_ok ps' (mss @ histograms ops) (\<lambda>k. os k @ observed k ops) (\<lambda>k. unpushed k (pend k) ops)"
  using assms
proof (induction ops arbitrary: ps mss os pend)
  case (Cons op ops)
  show ?case
  proof (cases op)
    case (RegisterEvent ms)
    then show ?thesis
      using Cons.IH[OF pusher_ok_register[OF Cons.prems(1), of ms]] Cons.prems(2,3) by (simp add: pusher_register_def)
  next
    case (ObserveEvent k m c)
    let ?os = "os(k := os k @ [(m, c)])" and ?pend = "pend(k := pend k @ [(m, c)])"
    have "k < length ps" using Cons.prems(2) ObserveEvent by simp
    from pusher_ok_observe[OF Cons.prems(1) this, of m c] obtain ps' where ps': "pusher_observe ps k m c = Some ps'"
      "length ps' = length ps" "pusher_ok ps' mss ?os ?pend" by blast
    have wrap: "\<forall>j. no_wrap j (?pend j) ops"
    proof
      show "no_wrap j (?pend j) ops" for j using spec[OF Cons.prems(3), of j] ObserveEvent by (cases "j = k") simp_all
    qed
    have "well_indexed (length ps') ops" using Cons.prems(2) ObserveEvent ps'(2) by simp
    from Cons.IH[OF ps'(3) this wrap] obtain ps2 where r: "pusher_run ps' ops = Some ps2"
      "pusher_ok ps2 (mss @ histograms ops) (\<lambda>j. ?os j @ observed j ops) (\<lambda>j. unpushed j (?pend j) ops)" by blast
    have "(\<lambda>j. ?os j @ observed j ops) = (\<lambda>j. os j @ observed j (op # ops))"
      "(\<lambda>j. unpushed j (?pend j) ops) = (\<lambda>j. unpushed j (pend j) (op # ops))"
      using ObserveEvent by auto
    with r ps'(1) ObserveEvent show ?thesis by auto
  next
    case PushAll
    then have "\<forall>k < length ps. batches (pend k) < usize_range" using Cons.prems(3) by simp
    from pusher_ok_push[OF Cons.prems(1) this] obtain ps' where ps': "pusher_push ps = Some ps'" "length ps' = length ps"
      "pusher_ok ps' mss os (\<lambda>_. [])" by blast
    then show ?thesis using Cons.IH[OF ps'(3)] Cons.prems(2,3) PushAll by simp
  qed
qed auto

lemma no_wrap_append: "no_wrap k pend (ops @ ops') = (no_wrap k pend ops \<and> no_wrap k (unpushed k pend ops) ops')"
  by (induction k pend ops rule: no_wrap.induct) auto

lemma pusher_ok_start: "pusher_ok [] [] (\<lambda>_. []) (\<lambda>_. [])"
  by (simp add: pusher_ok_def)

section \<open>Properties\<close>

lemma pusher_run_append:
  "pusher_run ps (ops @ ops') = pusher_run ps ops \<bind> (\<lambda>ps. pusher_run ps ops')"
  by (induction ops arbitrary: ps) (auto simp: Option.bind_assoc)

text \<open>C22: Whatever events are registered with a pusher and observed, and however often it pushed before: a push
  succeeds, and then the shared bag of every event holds exactly what that event ever observed, in the
  count, the sum and every bucket, as if it had been observed into the shared bag directly, provided the
  batch sizes observed for one event between two pushes never add up to \<open>2 ^ 64\<close> or more.\<close>

theorem push_publishes_all:
  assumes "well_indexed 0 ops" and "\<forall>k. no_wrap k [] (ops @ [PushAll])"
  shows "\<exists>ps. pusher_run [] (ops @ [PushAll]) = Some ps \<and> length ps = length (histograms ops)
    \<and> (\<forall>k < length ps. sync_snapshot (pair_global (ps ! k)) = tally (histograms ops ! k) (observed k ops)
        \<and> map_option sync_snapshot (shared_bag.insert_all (sync_new (histograms ops ! k)) (observed k ops))
          = Some (sync_snapshot (pair_global (ps ! k))))"
proof -
  have "\<forall>k. no_wrap k [] ops" and small: "batches (unpushed k [] ops) < usize_range" for k
    using assms(2) by (auto simp: no_wrap_append)
  then obtain ps where ps: "pusher_run [] ops = Some ps"
    "pusher_ok ps (histograms ops) (\<lambda>k. observed k ops) (\<lambda>k. unpushed k [] ops)"
    using pusher_run_ok[OF pusher_ok_start, of ops] assms(1) by auto
  obtain ps' where ps': "pusher_push ps = Some ps'" "length ps' = length ps"
    "\<forall>k < length ps. sync_snapshot (pair_global (ps' ! k)) = tally (histograms ops ! k) (observed k ops)"
    using pusher_ok_push[OF ps(2)] small by blast
  have "pusher_run [] (ops @ [PushAll]) = Some ps'" using ps(1) ps'(1) by (simp add: pusher_run_append)
  moreover have "length ps' = length (histograms ops)" using ps'(2) ps(2) by (simp add: pusher_ok_def)
  moreover have "map_option sync_snapshot (shared_bag.insert_all (sync_new ms) os) = Some (tally ms os)" for ms os
    using shared_bag.insert_all_fresh[of ms os] by auto
  ultimately show ?thesis using ps'(2,3) by auto
qed

theorem push_publishes_all_witness:
  "\<exists>ps. pusher_run [] ([RegisterEvent [10, 100], ObserveEvent 0 5 3, PushAll, ObserveEvent 0 (-7) 1,
       ObserveEvent 0 50 2, ObserveEvent 0 1000 1] @ [PushAll]) = Some ps
     \<and> sync_snapshot (pair_global (ps ! 0)) = \<lparr>snap_count = 7, snap_sum = 1108, snap_magnitudes = [10, 100],
         snap_buckets = [4, 2]\<rparr>"
proof -
  let ?ops = "[RegisterEvent [10, 100], ObserveEvent 0 5 3, PushAll, ObserveEvent 0 (-7) 1,
       ObserveEvent 0 50 2, ObserveEvent 0 1000 1]"
  have "well_indexed 0 ?ops" and "\<forall>k. no_wrap k [] (?ops @ [PushAll])" by (simp_all add: usize_range_def)
  from push_publishes_all[OF this] obtain ps where "pusher_run [] (?ops @ [PushAll]) = Some ps"
    "sync_snapshot (pair_global (ps ! 0)) = tally [10, 100] (observed 0 ?ops)" by auto
  moreover have "tally [10, 100] (observed 0 ?ops) = \<lparr>snap_count = 7, snap_sum = 1108, snap_magnitudes = [10, 100],
         snap_buckets = [4, 2]\<rparr>"
    by code_simp
  ultimately show ?thesis by auto
qed

end
