(* ===== verification/NmReport.thy ===== *)
theory NmReport
  imports NmBag "HOL-Library.AList" "HOL-Library.List_Lexorder" "HOL-Library.Char_ord" "HOL-Library.Signed_Division"
begin

text \<open>
  Package \<open>nm_impl\<close>, \<open>registries.rs\<close> and \<open>reports.rs\<close>: the registry of the threads' observation bags with
  its archive of the bags of finished threads, and the report collected from it. A \<open>HashMap\<close> is an
  association list with distinct keys in some order of iteration; an event handle writes to the bag that
  its thread registered under its name.
\<close>

section \<open>Model: the registry\<close>

type_synonym event_name = string
type_synonym observation_bag_map = "(event_name \<times> sync_bag) list"

record registry =
  thread_bags :: "(nat \<times> observation_bag_map) list"
  archived_bags :: "observation_bag_map list"

definition registry_new :: registry where
  "registry_new = \<lparr>thread_bags = [], archived_bags = []\<rparr>"

text \<open>A duplicate name is handed back and the map left alone.\<close>

definition register_core :: "event_name \<Rightarrow> sync_bag \<Rightarrow> observation_bag_map \<Rightarrow> event_name + observation_bag_map" where
  "register_core name bag bags = (if name \<in> fst ` set bags then Inl name else Inr ((name, bag) # bags))"

text \<open>\<open>Inl\<close> is the panic on a duplicate registration, raised after the locks are released and with the
  registry unchanged.\<close>

definition registry_register :: "registry \<Rightarrow> nat \<Rightarrow> event_name \<Rightarrow> sync_bag \<Rightarrow> event_name + registry" where
  "registry_register g t name bag =
     (case map_of (thread_bags g) t of
        Some bags \<Rightarrow> (case register_core name bag bags of
            Inl n \<Rightarrow> Inl n
          | Inr bags \<Rightarrow> Inr (g\<lparr>thread_bags := AList.update t bags (thread_bags g)\<rparr>))
      | None \<Rightarrow> (case register_core name bag [] of
            Inl n \<Rightarrow> Inl n
          | Inr bags \<Rightarrow> Inr (g\<lparr>thread_bags := (t, bags) # thread_bags g\<rparr>)))"

definition archive_observation_bag ::
    "observation_bag_map list \<Rightarrow> event_name \<Rightarrow> sync_bag \<Rightarrow> observation_bag_map list option" where
  "archive_observation_bag archives name bag =
     (case first_true (map (\<lambda>a. case map_of a name of None \<Rightarrow> False | Some b \<Rightarrow> is_compatible_with b bag) archives) of
        Some i \<Rightarrow> do {
          b \<leftarrow> map_of (archives ! i) name;
          m \<leftarrow> merge_from b bag;
          Some (archives[i := AList.update name m (archives ! i)])
        }
      | None \<Rightarrow> (case first_true (map (\<lambda>a. name \<notin> fst ` set a) archives) of
            Some i \<Rightarrow> Some (archives[i := (name, bag) # archives ! i])
          | None \<Rightarrow> Some (archives @ [[(name, bag)]])))"

fun archive_all :: "observation_bag_map list \<Rightarrow> observation_bag_map \<Rightarrow> observation_bag_map list option" where
  "archive_all archives [] = Some archives"
| "archive_all archives ((name, bag) # bags) =
     archive_observation_bag archives name bag \<bind> (\<lambda>a. archive_all a bags)"

definition unregister_thread :: "registry \<Rightarrow> nat \<Rightarrow> registry option" where
  "unregister_thread g t =
     (case map_of (thread_bags g) t of
        None \<Rightarrow> Some g
      | Some removed \<Rightarrow> do {
          archives \<leftarrow> archive_all (archived_bags g) removed;
          Some (g\<lparr>thread_bags := AList.delete t (thread_bags g), archived_bags := archives\<rparr>)
        })"

definition registry_inspect :: "registry \<Rightarrow> observation_bag_map list" where
  "registry_inspect g = map snd (thread_bags g) @ archived_bags g"

text \<open>A live event observes into the bag it shares with the registry.\<close>

definition registry_observe :: "registry \<Rightarrow> nat \<Rightarrow> event_name \<Rightarrow> magnitude \<Rightarrow> 64 word \<Rightarrow> registry option" where
  "registry_observe g t name m c = do {
     bags \<leftarrow> map_of (thread_bags g) t;
     b \<leftarrow> map_of bags name;
     b \<leftarrow> sync_insert b m c;
     Some (g\<lparr>thread_bags := AList.update t (AList.update name b bags) (thread_bags g)\<rparr>)
   }"

section \<open>Model: reports\<close>

record histogram =
  hist_magnitudes :: "magnitude list"
  hist_counts :: "64 word list"
  overflow_bucket_count :: "64 word"

record event_metrics =
  metrics_name :: event_name
  metrics_count :: "64 word"
  metrics_sum :: magnitude
  metrics_histogram :: "histogram option"

definition saturating_sub_64 :: "64 word \<Rightarrow> 64 word \<Rightarrow> 64 word" where
  "saturating_sub_64 a b = (if b \<le> a then a - b else 0)"

definition event_metrics_new :: "event_name \<Rightarrow> snapshot \<Rightarrow> event_metrics" where
  "event_metrics_new name s = \<lparr>metrics_name = name, metrics_count = snap_count s, metrics_sum = snap_sum s,
     metrics_histogram =
       (if snap_magnitudes s = [] then None
        else let explicit_bucket_count = foldl (+) 0 (snap_buckets s) in
          Some \<lparr>hist_magnitudes = snap_magnitudes s, hist_counts = snap_buckets s,
            overflow_bucket_count = saturating_sub_64 (snap_count s) explicit_bucket_count\<rparr>)\<rparr>"

definition metrics_mean :: "event_metrics \<Rightarrow> magnitude" where
  "metrics_mean e =
     (if metrics_count e \<noteq> 0 \<and> 0 \<le>s metrics_count e 
      then word_of_int (sint (metrics_sum e) sdiv sint (metrics_count e)) else 0)"

definition MAGNITUDE_MAX :: magnitude where
  "MAGNITUDE_MAX = 2 ^ 63 - 1"

definition histogram_buckets :: "histogram \<Rightarrow> (magnitude \<times> 64 word) list" where
  "histogram_buckets h =
     zip (hist_magnitudes h @ [MAGNITUDE_MAX]) (hist_counts h @ [overflow_bucket_count h])"

fun collect_bags :: "(event_name \<times> snapshot) list \<Rightarrow> observation_bag_map \<Rightarrow> (event_name \<times> snapshot) list option" where
  "collect_bags merged [] = Some merged"
| "collect_bags merged ((name, bag) # bags) =
     (case map_of merged name of
        Some existing \<Rightarrow> merge_from_observations existing bag \<bind> (\<lambda>s. collect_bags (AList.update name s merged) bags)
      | None \<Rightarrow> collect_bags ((name, sync_snapshot bag) # merged) bags)"

definition from_unsorted_events :: "event_metrics list \<Rightarrow> event_metrics list" where
  "from_unsorted_events = sort_key metrics_name"

definition collect_from :: "registry \<Rightarrow> event_metrics list option" where
  "collect_from g = do {
     merged \<leftarrow> collect_bags [] (concat (registry_inspect g));
     Some (from_unsorted_events (map (\<lambda>(name, s). event_metrics_new name s) merged))
   }"

section \<open>Adding up entries\<close>

text \<open>What the entries under a name add up to in one component of the bags, and the configurations they have.\<close>

definition weigh :: "(sync_bag \<Rightarrow> 64 word) \<Rightarrow> event_name \<Rightarrow> observation_bag_map \<Rightarrow> 64 word" where
  "weigh f n es = sum_list (map (f \<circ> snd) (filter (\<lambda>e. fst e = n) es))"

definition shapes :: "event_name \<Rightarrow> observation_bag_map \<Rightarrow> magnitude list set" where
  "shapes n es = (sync_magnitudes \<circ> snd) ` set (filter (\<lambda>e. fst e = n) es)"

definition bucket_at :: "nat \<Rightarrow> sync_bag \<Rightarrow> 64 word" where
  "bucket_at i b = (if i < length (sync_buckets b) then sync_buckets b ! i else 0)"

definition bag_ok :: "sync_bag \<Rightarrow> bool" where
  "bag_ok b = (length (sync_buckets b) = length (sync_magnitudes b))"

definition component :: "(sync_bag \<Rightarrow> 64 word) \<Rightarrow> bool" where
  "component f = (f = sync_count \<or> f = sync_sum \<or> (\<exists>i. f = bucket_at i))"

lemma weigh_simps [simp]:
  "weigh f n [] = 0" "weigh f n (e # es) = (if fst e = n then f (snd e) else 0) + weigh f n es"
  "weigh f n (es @ es') = weigh f n es + weigh f n es'"
  by (simp_all add: weigh_def)

lemma shapes_simps [simp]:
  "shapes n [] = {}" "shapes n (e # es) = (if fst e = n then {sync_magnitudes (snd e)} else {}) \<union> shapes n es"
  "shapes n (es @ es') = shapes n es \<union> shapes n es'"
  by (auto simp: shapes_def)

lemma add_buckets_zip: "length xs = length ys \<Longrightarrow> add_buckets xs ys = map2 (+) xs ys"
  by (induction xs ys rule: add_buckets.induct) auto

lemma merge_adds:
  assumes "is_compatible_with a b" and "bag_ok a" and "bag_ok b"
  shows "\<exists>m. merge_from a b = Some m \<and> bag_ok m \<and> sync_magnitudes m = sync_magnitudes a
    \<and> (\<forall>f. component f \<longrightarrow> f m = f a + f b)"
  using assms by (auto simp: merge_from_def bag_ok_def is_compatible_with_def component_def bucket_at_def add_buckets_zip)

text \<open>Replacing one entry.\<close>

lemma update_weigh:
  "distinct (map fst es) \<Longrightarrow> map_of es n = Some b \<Longrightarrow>
   weigh f k (AList.update n b' es) = weigh f k es + (if k = n then f b' - f b else 0)"
proof (induction es)
  case (Cons e es)
  then show ?case by (cases e) (auto simp: algebra_simps)
qed simp

lemma update_shapes:
  "distinct (map fst es) \<Longrightarrow> map_of es n = Some b \<Longrightarrow> sync_magnitudes b' = sync_magnitudes b \<Longrightarrow>
   shapes k (AList.update n b' es) = shapes k es"
proof (induction es)
  case (Cons e es)
  then show ?case by (cases e) auto
qed simp

lemma concat_update_weigh:
  "distinct (map fst ts) \<Longrightarrow> map_of ts t = Some es \<Longrightarrow>
   weigh f k (concat (map snd (AList.update t es' ts))) = weigh f k (concat (map snd ts)) + weigh f k es' - weigh f k es"
proof (induction ts)
  case (Cons e ts)
  then show ?case by (cases e) (auto simp: algebra_simps)
qed simp

lemma concat_update_shapes:
  "distinct (map fst ts) \<Longrightarrow> map_of ts t = Some es \<Longrightarrow> shapes k es \<subseteq> shapes k es' \<Longrightarrow>
   shapes k (concat (map snd (AList.update t es' ts))) = shapes k (concat (map snd ts)) \<union> shapes k es'"
proof (induction ts)
  case (Cons e ts)
  then show ?case by (cases e) auto
qed simp

lemma concat_nth_weigh:
  "i < length as \<Longrightarrow> weigh f k (concat (as[i := a])) = weigh f k (concat as) + weigh f k a - weigh f k (as ! i)"
proof (induction as arbitrary: i)
  case (Cons x as)
  then show ?case by (cases i) (auto simp: algebra_simps)
qed simp

lemma concat_nth_shapes:
  "i < length as \<Longrightarrow> shapes k (as ! i) \<subseteq> shapes k a \<Longrightarrow>
   shapes k (concat (as[i := a])) = shapes k (concat as) \<union> shapes k a"
proof (induction as arbitrary: i)
  case (Cons x as)
  then show ?case by (cases i) auto
qed simp

section \<open>The archive loses nothing\<close>

definition entries_ok :: "observation_bag_map \<Rightarrow> bool" where
  "entries_ok es = (distinct (map fst es) \<and> (\<forall>e \<in> set es. bag_ok (snd e)))"

text \<open>Two collections of entries that every report sees alike.\<close>

definition same_content :: "observation_bag_map \<Rightarrow> observation_bag_map \<Rightarrow> bool" where
  "same_content es es' = (\<forall>k. (\<forall>f. component f \<longrightarrow> weigh f k es = weigh f k es') \<and> shapes k es = shapes k es')"

lemma entries_ok_update:
  assumes "entries_ok es" and "map_of es n = Some b" and "bag_ok b'"
  shows "entries_ok (AList.update n b' es)"
proof -
  have "set (AList.update n b' es) \<subseteq> insert (n, b') (set es)" for es :: observation_bag_map
    by (induction es) (auto split: if_splits)
  then show ?thesis using assms by (fastforce simp: entries_ok_def distinct_update)
qed

lemma map_of_shape: "map_of es n = Some b \<Longrightarrow> sync_magnitudes b \<in> shapes n es"
  by (force simp: shapes_def dest: map_of_SomeD)

lemma shapes_concat: "a \<in> set as \<Longrightarrow> shapes k a \<subseteq> shapes k (concat as)"
  by (auto simp: shapes_def)

lemma archive_one:
  assumes "\<forall>a \<in> set as. entries_ok a" and "bag_ok b"
  shows "\<exists>as'. archive_observation_bag as n b = Some as' \<and> (\<forall>a \<in> set as'. entries_ok a)
    \<and> same_content (concat as') ((n, b) # concat as)"
proof (cases "first_true (map (\<lambda>a. case map_of a n of None \<Rightarrow> False | Some b' \<Rightarrow> is_compatible_with b' b) as)")
  case (Some i)
  then have i: "i < length as" "case map_of (as ! i) n of None \<Rightarrow> False | Some b' \<Rightarrow> is_compatible_with b' b"
    by (auto simp: first_true_Some_iff)
  then obtain b' where b': "map_of (as ! i) n = Some b'" "is_compatible_with b' b" by (auto split: option.splits)
  have ok: "entries_ok (as ! i)" using assms(1) i(1) by simp
  then have "bag_ok b'" using map_of_SomeD[OF b'(1)] by (force simp: entries_ok_def)
  then obtain m where m: "merge_from b' b = Some m" "bag_ok m" "sync_magnitudes m = sync_magnitudes b'"
    "\<And>f. component f \<Longrightarrow> f m = f b' + f b" using merge_adds[OF b'(2) _ assms(2)] by blast
  let ?a = "AList.update n m (as ! i)"
  have d: "distinct (map fst (as ! i))" using ok by (simp add: entries_ok_def)
  have "weigh f k (concat (as[i := ?a])) = weigh f k ((n, b) # concat as)" if "component f" for f k
    using update_weigh[OF d b'(1), of f k m] m(4)[OF that] concat_nth_weigh[OF i(1), of f k ?a] by simp
  moreover have "shapes k (concat (as[i := ?a])) = shapes k ((n, b) # concat as)" for k
  proof -
    have a: "shapes k ?a = shapes k (as ! i)" using update_shapes[OF d b'(1) m(3)] .
    have "sync_magnitudes b \<in> shapes n (as ! i)" using map_of_shape[OF b'(1)] b'(2) by (simp add: is_compatible_with_def)
    moreover have "shapes k (as ! i) \<subseteq> shapes k (concat as)" using shapes_concat i(1) by simp
    ultimately show ?thesis using concat_nth_shapes[OF i(1), of k ?a] a by auto
  qed
  moreover have "\<forall>x \<in> set (as[i := ?a]). entries_ok x"
    using assms(1) entries_ok_update[OF ok b'(1) m(2)] set_update_subset_insert[of as i ?a] by blast
  ultimately show ?thesis using Some b'(1) m(1)
    by (intro exI[of _ "as[i := ?a]"]) (simp add: archive_observation_bag_def same_content_def)
next
  case None
  note none = this
  show ?thesis
  proof (cases "first_true (map (\<lambda>a. n \<notin> fst ` set a) as)")
    case (Some i)
    let ?a = "(n, b) # as ! i"
    have i: "i < length as" "n \<notin> fst ` set (as ! i)" using Some by (simp_all add: first_true_Some_iff cong: conj_cong)
    have "shapes k (concat (as[i := ?a])) = shapes k ((n, b) # concat as)" for k
      using concat_nth_shapes[OF i(1), of k ?a] shapes_concat[of "as ! i" as k] i(1) by auto
    then have "same_content (concat (as[i := ?a])) ((n, b) # concat as)"
      using concat_nth_weigh[OF i(1), of _ _ ?a] by (simp add: same_content_def)
    moreover have "entries_ok ?a" using assms i by (auto simp: entries_ok_def)
    then have "\<forall>x \<in> set (as[i := ?a]). entries_ok x"
      using assms(1) set_update_subset_insert[of as i ?a] by blast
    ultimately show ?thesis using none Some by (simp add: archive_observation_bag_def)
  next
    case None
    have "same_content (concat (as @ [[(n, b)]])) ((n, b) # concat as)" by (auto simp: same_content_def)
    then show ?thesis using none None assms by (simp add: archive_observation_bag_def entries_ok_def)
  qed
qed

lemma archive_all_keeps:
  "\<forall>a \<in> set as. entries_ok a \<Longrightarrow> \<forall>e \<in> set es. bag_ok (snd e) \<Longrightarrow>
   \<exists>as'. archive_all as es = Some as' \<and> (\<forall>a \<in> set as'. entries_ok a) \<and> same_content (concat as') (es @ concat as)"
proof (induction es arbitrary: as)
  case (Cons e es)
  obtain n b where e: "e = (n, b)" by force
  obtain as1 where a1: "archive_observation_bag as n b = Some as1" "\<forall>a \<in> set as1. entries_ok a"
    "same_content (concat as1) ((n, b) # concat as)" using archive_one[OF Cons.prems(1), of b n] Cons.prems(2) e by auto
  obtain as2 where a2: "archive_all as1 es = Some as2" "\<forall>a \<in> set as2. entries_ok a"
    "same_content (concat as2) (es @ concat as1)" using Cons.IH[OF a1(2)] Cons.prems(2) by auto
  have "same_content (concat as2) ((e # es) @ concat as)" using a1(3) a2(3) e by (auto simp: same_content_def)
  with a1(1) a2(1,2) e show ?case by auto
qed (auto simp: same_content_def)

section \<open>Registry invariant\<close>

definition registry_ok :: "registry \<Rightarrow> bool" where
  "registry_ok g = (distinct (map fst (thread_bags g)) \<and> (\<forall>m \<in> set (registry_inspect g). entries_ok m))"

lemma delete_weigh:
  "distinct (map fst ts) \<Longrightarrow> map_of ts t = Some es \<Longrightarrow>
   weigh f k (concat (map snd (AList.delete t ts))) + weigh f k es = weigh f k (concat (map snd ts))"
proof (induction ts)
  case (Cons e ts)
  then show ?case by (cases e) (auto simp: algebra_simps AList.delete_idem)
qed simp

lemma delete_shapes:
  "distinct (map fst ts) \<Longrightarrow> map_of ts t = Some es \<Longrightarrow>
   shapes k (concat (map snd (AList.delete t ts))) \<union> shapes k es = shapes k (concat (map snd ts))"
proof (induction ts)
  case (Cons e ts)
  then show ?case by (cases e) (auto simp: AList.delete_idem)
qed simp

lemma unregister_keeps:
  assumes "registry_ok g"
  shows "\<exists>g'. unregister_thread g t = Some g' \<and> registry_ok g' \<and> map_of (thread_bags g') t = None
    \<and> same_content (concat (registry_inspect g')) (concat (registry_inspect g))"
proof (cases "map_of (thread_bags g) t")
  case None
  then show ?thesis using assms by (simp add: unregister_thread_def same_content_def)
next
  case (Some es)
  have ok: "distinct (map fst (thread_bags g))" "\<forall>m \<in> snd ` set (thread_bags g). entries_ok m"
    "\<forall>a \<in> set (archived_bags g). entries_ok a" using assms by (auto simp: registry_ok_def registry_inspect_def)
  then have "entries_ok es" using map_of_SomeD[OF Some] by force
  then have "\<forall>e \<in> set es. bag_ok (snd e)" by (simp add: entries_ok_def)
  from archive_all_keeps[OF ok(3) this] obtain as where as: "archive_all (archived_bags g) es = Some as"
    "\<forall>a \<in> set as. entries_ok a" "same_content (concat as) (es @ concat (archived_bags g))" by blast
  let ?g = "g\<lparr>thread_bags := AList.delete t (thread_bags g), archived_bags := as\<rparr>"
  have "set (AList.delete t (thread_bags g)) \<subseteq> set (thread_bags g)" by (auto simp: AList.delete_eq)
  then have "registry_ok ?g" using ok as(2) by (auto simp: registry_ok_def registry_inspect_def distinct_delete)
  moreover have "same_content (concat (registry_inspect ?g)) (concat (registry_inspect g))"
    using as(3) delete_weigh[OF ok(1) Some] delete_shapes[OF ok(1) Some]
    by (auto simp: same_content_def registry_inspect_def add.assoc[symmetric] Un_assoc[symmetric] simp del: weigh_simps(2))
  moreover have "map_of (AList.delete t (thread_bags g)) t = None" by (simp add: AList.delete_conv')
  ultimately show ?thesis using Some as(1) by (simp add: unregister_thread_def)
qed

lemma registry_ok_bags:
  assumes "registry_ok g" and "map_of (thread_bags g) t = Some bags"
  shows "entries_ok bags"
  using assms map_of_SomeD[OF assms(2)] by (force simp: registry_ok_def registry_inspect_def)

lemma registry_ok_update:
  assumes "registry_ok g" and "entries_ok bags"
  shows "registry_ok (g\<lparr>thread_bags := AList.update t bags (thread_bags g)\<rparr>)"
proof -
  have "set (AList.update t bags ts) \<subseteq> insert (t, bags) (set ts)" for ts :: "(nat \<times> observation_bag_map) list"
    by (induction ts) (auto split: if_splits)
  then show ?thesis using assms by (fastforce simp: registry_ok_def registry_inspect_def distinct_update)
qed

lemma register_keeps:
  assumes "registry_ok g" and "registry_register g t n b = Inr g'" and "bag_ok b"
  shows "registry_ok g' \<and> same_content (concat (registry_inspect g')) ((n, b) # concat (registry_inspect g))"
proof (cases "map_of (thread_bags g) t")
  case None
  then have "g' = g\<lparr>thread_bags := (t, [(n, b)]) # thread_bags g\<rparr>"
    using assms(2) by (auto simp: registry_register_def register_core_def)
  then show ?thesis using assms(1,3) None
    by (auto simp: registry_ok_def registry_inspect_def same_content_def entries_ok_def map_of_eq_None_iff)
next
  case (Some bags)
  let ?bags = "(n, b) # bags"
  have g': "g' = g\<lparr>thread_bags := AList.update t ?bags (thread_bags g)\<rparr>" and new: "n \<notin> fst ` set bags"
    using assms(2) Some by (auto simp: registry_register_def register_core_def split: if_splits)
  have "entries_ok ?bags" using registry_ok_bags[OF assms(1) Some] assms(3) new by (simp add: entries_ok_def)
  then have "registry_ok g'" using registry_ok_update[OF assms(1)] g' by simp
  moreover have d: "distinct (map fst (thread_bags g))" using assms(1) by (simp add: registry_ok_def)
  have "shapes k bags \<subseteq> shapes k (concat (map snd (thread_bags g)))" for k
    using shapes_concat[of bags "map snd (thread_bags g)" k] map_of_SomeD[OF Some] by force
  then have "same_content (concat (registry_inspect g')) ((n, b) # concat (registry_inspect g))"
    using concat_update_weigh[OF d Some, of _ _ ?bags] concat_update_shapes[OF d Some, of _ ?bags] g'
    by (auto simp: same_content_def registry_inspect_def)
  ultimately show ?thesis ..
qed

text \<open>What one observation adds to a component of its bag.\<close>

definition gain :: "(sync_bag \<Rightarrow> 64 word) \<Rightarrow> magnitude list \<Rightarrow> magnitude \<Rightarrow> 64 word \<Rightarrow> 64 word" where
  "gain f ms m c = (if f = sync_count then c else if f = sync_sum then m * c
     else case select_bucket ms m of Some i \<Rightarrow> if f = bucket_at i then c else 0 | None \<Rightarrow> 0)"

lemma components_differ:
  "(sync_count :: sync_bag \<Rightarrow> _) \<noteq> sync_sum" "bucket_at i \<noteq> sync_count" "bucket_at i \<noteq> sync_sum" "(bucket_at i = bucket_at j) = (i = j)"
proof -
  let ?b = "\<lparr>sync_count = 1, sync_sum = 2, sync_buckets = [], sync_magnitudes = []\<rparr>"
  have b: "sync_count ?b \<noteq> sync_sum ?b" "bucket_at i ?b \<noteq> sync_count ?b" "bucket_at i ?b \<noteq> sync_sum ?b"
    by (simp_all add: bucket_at_def)
  show "(sync_count :: sync_bag \<Rightarrow> _) \<noteq> sync_sum" using b(1) by metis
  show "bucket_at i \<noteq> sync_count" using b(2) by metis
  show "bucket_at i \<noteq> sync_sum" using b(3) by metis
  let ?c = "?b\<lparr>sync_buckets := replicate i 0 @ [1]\<rparr>"
  have "bucket_at i ?c = 1" "j \<noteq> i \<Longrightarrow> bucket_at j ?c = 0" by (auto simp: bucket_at_def nth_append)
  then show "(bucket_at i = bucket_at j) = (i = j)" by (metis zero_neq_one)
qed

lemma sync_insert_gain:
  assumes "bag_ok b"
  shows "\<exists>b'. sync_insert b m c = Some b' \<and> bag_ok b' \<and> sync_magnitudes b' = sync_magnitudes b
    \<and> (\<forall>f. component f \<longrightarrow> f b' = f b + gain f (sync_magnitudes b) m c)"
proof (cases "c = 0 \<or> select_bucket (sync_magnitudes b) m = None")
  case True
  then show ?thesis using assms
    by (auto simp: sync_insert_def observation_increments_def Let_def bag_ok_def component_def gain_def
        components_differ components_differ(1)[symmetric] bucket_at_def split: option.splits)
next
  case False
  then obtain i where i: "select_bucket (sync_magnitudes b) m = Some i" "i < length (sync_magnitudes b)" "c \<noteq> 0"
    using select_bucket_Some by auto
  then show ?thesis using assms
    by (auto simp: sync_insert_def observation_increments_def Let_def bag_ok_def component_def gain_def
        components_differ components_differ(1)[symmetric]) (auto simp: bucket_at_def nth_list_update)
qed

lemma observe_keeps:
  assumes "registry_ok g" and "map_of (thread_bags g) t = Some bags" and "map_of bags n = Some b"
  shows "\<exists>g'. registry_observe g t n m c = Some g' \<and> registry_ok g'
    \<and> (\<forall>f k. component f \<longrightarrow> weigh f k (concat (registry_inspect g')) =
          weigh f k (concat (registry_inspect g)) + (if k = n then gain f (sync_magnitudes b) m c else 0))
    \<and> (\<forall>k. shapes k (concat (registry_inspect g')) = shapes k (concat (registry_inspect g)))"
proof -
  have ok: "entries_ok bags" using registry_ok_bags[OF assms(1,2)] .
  then have d: "distinct (map fst bags)" and b: "bag_ok b" using map_of_SomeD[OF assms(3)] by (force simp: entries_ok_def)+
  obtain b' where b': "sync_insert b m c = Some b'" "bag_ok b'" "sync_magnitudes b' = sync_magnitudes b"
    "\<And>f. component f \<Longrightarrow> f b' = f b + gain f (sync_magnitudes b) m c" using sync_insert_gain[OF b] by blast
  let ?bags = "AList.update n b' bags"
  let ?g = "g\<lparr>thread_bags := AList.update t ?bags (thread_bags g)\<rparr>"
  have dt: "distinct (map fst (thread_bags g))" using assms(1) by (simp add: registry_ok_def)
  have sh: "shapes k ?bags = shapes k bags" for k using update_shapes[OF d assms(3) b'(3)] .
  have "shapes k bags \<subseteq> shapes k (concat (map snd (thread_bags g)))" for k
    using shapes_concat[of bags "map snd (thread_bags g)" k] map_of_SomeD[OF assms(2)] by force
  then have "\<forall>k. shapes k (concat (registry_inspect ?g)) = shapes k (concat (registry_inspect g))"
    using concat_update_shapes[OF dt assms(2), of _ ?bags] sh by (auto simp: registry_inspect_def)
  moreover have "weigh f k (concat (registry_inspect ?g)) =
      weigh f k (concat (registry_inspect g)) + (if k = n then gain f (sync_magnitudes b) m c else 0)" if "component f" for f k
    using concat_update_weigh[OF dt assms(2), of f k ?bags] update_weigh[OF d assms(3), of f k b'] b'(4)[OF that]
    by (simp add: registry_inspect_def)
  ultimately show ?thesis
    using registry_ok_update[OF assms(1) entries_ok_update[OF ok assms(3) b'(2)], of t] assms(2,3) b'(1)
    by (intro exI[of _ ?g]) (simp add: registry_observe_def)
qed

section \<open>Collecting a report\<close>

definition as_bag :: "snapshot \<Rightarrow> sync_bag" where
  "as_bag s = \<lparr>sync_count = snap_count s, sync_sum = snap_sum s, sync_buckets = snap_buckets s,
     sync_magnitudes = snap_magnitudes s\<rparr>"

definition merged_entries :: "(event_name \<times> snapshot) list \<Rightarrow> observation_bag_map" where
  "merged_entries merged = map (\<lambda>(n, s). (n, as_bag s)) merged"

lemma merged_entries_simps [simp]:
  "merged_entries [] = []" "merged_entries ((n, s) # ms) = (n, as_bag s) # merged_entries ms"
  "merged_entries (AList.update n s ms) = AList.update n (as_bag s) (merged_entries ms)"
  "map fst (merged_entries ms) = map fst ms" "map_of (merged_entries ms) n = map_option as_bag (map_of ms n)"
proof -
  show "merged_entries (AList.update n s ms) = AList.update n (as_bag s) (merged_entries ms)"
    by (induction ms) (auto simp: merged_entries_def)
  show "map_of (merged_entries ms) n = map_option as_bag (map_of ms n)"
    by (induction ms) (auto simp: merged_entries_def)
qed (auto simp: merged_entries_def)

lemma as_bag_inj: "as_bag s = as_bag s' \<Longrightarrow> s = s'"
  by (cases s; cases s') (simp add: as_bag_def)

lemma merge_observations_bag:
  "merge_from_observations s b = map_option (\<lambda>m. \<lparr>snap_count = sync_count m, snap_sum = sync_sum m,
     snap_magnitudes = sync_magnitudes m, snap_buckets = sync_buckets m\<rparr>) (merge_from (as_bag s) b)"
  by (cases "snap_magnitudes s = sync_magnitudes b")
    (simp_all add: merge_from_observations_def merge_from_def as_bag_def is_compatible_with_def)

lemma as_bag_view: "as_bag \<lparr>snap_count = sync_count m, snap_sum = sync_sum m, snap_magnitudes = sync_magnitudes m,
    snap_buckets = sync_buckets m\<rparr> = m"
  by (simp add: as_bag_def)

text \<open>Collecting succeeds and adds everything up, or two configurations of one name meet.\<close>

definition clash :: "observation_bag_map \<Rightarrow> bool" where
  "clash es = (\<exists>k ms ms'. ms \<noteq> ms' \<and> ms \<in> shapes k es \<and> ms' \<in> shapes k es)"

definition collected :: "(event_name \<times> snapshot) list option \<Rightarrow> observation_bag_map \<Rightarrow> bool" where
  "collected r es = (case r of Some out \<Rightarrow> entries_ok (merged_entries out) \<and> same_content (merged_entries out) es
     | None \<Rightarrow> clash es)"

lemma collected_same: "collected r es \<Longrightarrow> same_content es es' \<Longrightarrow> collected r es'"
  by (auto simp: collected_def same_content_def clash_def split: option.splits)

lemma collect_bags_spec:
  "entries_ok (merged_entries merged) \<Longrightarrow> \<forall>e \<in> set es. bag_ok (snd e) \<Longrightarrow>
   collected (collect_bags merged es) (merged_entries merged @ es)"
proof (induction merged es rule: collect_bags.induct)
  case (2 merged n b es)
  show ?case
  proof (cases "map_of merged n")
    case None
    let ?m = "(n, sync_snapshot b) # merged"
    have bag: "as_bag (sync_snapshot b) = b" by (simp add: as_bag_def sync_snapshot_def)
    have "map_of (merged_entries merged) n = None" using None by simp
    then have "n \<notin> fst ` set (merged_entries merged)" by (simp only: map_of_eq_None_iff) simp
    then have "entries_ok (merged_entries ?m)" using 2(3,4) bag
      by (simp add: entries_ok_def del: merged_entries_simps(4))
    from 2(1)[OF None this] 2(4) have "collected (collect_bags ?m es) (merged_entries ?m @ es)" by simp
    moreover have "same_content (merged_entries ?m @ es) (merged_entries merged @ (n, b) # es)"
      using bag by (auto simp: same_content_def)
    ultimately have "collected (collect_bags ?m es) (merged_entries merged @ (n, b) # es)" by (rule collected_same)
    then show ?thesis using None by simp
  next
    case (Some s)
    have s: "map_of (merged_entries merged) n = Some (as_bag s)" using Some by simp
    have d: "distinct (map fst (merged_entries merged))" and ok: "bag_ok (as_bag s)"
      using 2(3) map_of_SomeD[OF s] by (force simp: entries_ok_def)+
    have sh: "sync_magnitudes (as_bag s) \<in> shapes n (merged_entries merged)" using map_of_shape[OF s] .
    show ?thesis
    proof (cases "is_compatible_with (as_bag s) b")
      case False
      then have "merge_from_observations s b = None" by (simp add: merge_observations_bag merge_from_def)
      moreover have "sync_magnitudes (as_bag s) \<noteq> sync_magnitudes b" using False by (simp add: is_compatible_with_def)
      moreover have "sync_magnitudes b \<in> shapes n ((n, b) # es)" by simp
      ultimately have "clash (merged_entries merged @ (n, b) # es)" using sh unfolding clash_def shapes_simps(3) by blast
      with Some \<open>merge_from_observations s b = None\<close> show ?thesis by (simp add: collected_def)
    next
      case True
      then obtain m where m: "merge_from (as_bag s) b = Some m" "bag_ok m" "sync_magnitudes m = sync_magnitudes (as_bag s)"
        "\<And>f. component f \<Longrightarrow> f m = f (as_bag s) + f b" using merge_adds[OF True ok] 2(4) by auto
      let ?v = "\<lparr>snap_count = sync_count m, snap_sum = sync_sum m, snap_magnitudes = sync_magnitudes m,
        snap_buckets = sync_buckets m\<rparr>"
      let ?m = "AList.update n ?v merged"
      have run: "merge_from_observations s b = Some ?v" using m(1) by (simp add: merge_observations_bag)
      have e: "merged_entries ?m = AList.update n m (merged_entries merged)" by (simp add: as_bag_view)
      have "entries_ok (merged_entries ?m)" unfolding e by (rule entries_ok_update[OF 2(3) s m(2)])
      from 2(2)[OF Some run this] 2(4) have "collected (collect_bags ?m es) (merged_entries ?m @ es)" by simp
      moreover have "same_content (merged_entries ?m @ es) (merged_entries merged @ (n, b) # es)"
      proof -
        have "f m - f (as_bag s) = f b" if "component f" for f using m(4)[OF that] by simp
        then show ?thesis unfolding e using update_weigh[OF d s, of _ _ m] update_shapes[OF d s m(3)] m(3) sh True
          by (auto simp: same_content_def is_compatible_with_def)
      qed
      ultimately have "collected (collect_bags ?m es) (merged_entries merged @ (n, b) # es)" by (rule collected_same)
      then show ?thesis using Some run by simp
    qed
  qed
qed (simp add: same_content_def collected_def)

lemma one_entry:
  assumes "distinct (map fst es)" and "map_of es n = Some b"
  shows "weigh f n es = f b \<and> shapes n es = {sync_magnitudes b}"
  using assms
proof (induction es)
  case (Cons e es)
  show ?case
  proof (cases "fst e = n")
    case True
    then have "n \<notin> fst ` set es" using Cons.prems(1) by auto
    then have "filter (\<lambda>e. fst e = n) es = []" by (force simp: filter_empty_conv)
    then show ?thesis using True Cons.prems by (cases e) (simp add: weigh_def shapes_def)
  next
    case False
    then show ?thesis using Cons by (cases e) auto
  qed
qed simp

text \<open>The snapshot under a name is determined by what the entries add up to.\<close>

lemma same_snapshot:
  assumes "entries_ok es" and "entries_ok es'" and "same_content es es'" and "map_of es n = Some b"
  shows "map_of es' n = Some b"
proof -
  note one = one_entry
  have d: "distinct (map fst es)" "distinct (map fst es')" using assms(1,2) by (simp_all add: entries_ok_def)
  have "shapes n es' = {sync_magnitudes b}" using one[OF d(1) assms(4)] assms(3) by (simp add: same_content_def)
  then obtain e where "e \<in> set es'" "fst e = n" by (force simp: shapes_def)
  then obtain b' where b': "map_of es' n = Some b'" using d(2) by (metis map_of_is_SomeI prod.collapse)
  have ok: "bag_ok b" "bag_ok b'"
    using assms(1,2) map_of_SomeD[OF assms(4)] map_of_SomeD[OF b'] by (force simp: entries_ok_def)+
  have eq: "f b = f b'" if "component f" for f
    using one[OF d(1) assms(4)] one[OF d(2) b'] assms(3) that by (metis same_content_def)
  have mags: "sync_magnitudes b = sync_magnitudes b'"
    using one[OF d(1) assms(4)] one[OF d(2) b'] assms(3) by (simp add: same_content_def)
  have "sync_buckets b ! i = sync_buckets b' ! i" if "i < length (sync_buckets b)" for i
    using eq[of "bucket_at i"] that ok mags by (auto simp: component_def bucket_at_def bag_ok_def split: if_splits)
  then have "sync_buckets b = sync_buckets b'" using ok mags by (intro nth_equalityI) (auto simp: bag_ok_def)
  then have "b = b'" using eq[of sync_count] eq[of sync_sum] mags by (simp add: component_def)
  with b' show ?thesis by simp
qed

lemma same_content_sym: "same_content es es' \<Longrightarrow> same_content es' es"
  by (simp add: same_content_def)

lemma same_content_trans: "same_content es es' \<Longrightarrow> same_content es' es'' \<Longrightarrow> same_content es es''"
  by (simp add: same_content_def)

lemma shapes_absent: "n \<notin> fst ` set es \<Longrightarrow> shapes n es = {}"
  by (force simp: shapes_def)

lemma shapes_present: "(n \<in> fst ` set es) = (shapes n es \<noteq> {})"
  by (force simp: shapes_def filter_empty_conv)

lemma one_shape:
  assumes "distinct (map fst es)" and "ms \<in> shapes k es" and "ms' \<in> shapes k es"
  shows "ms = ms'"
  using assms
proof (induction es)
  case (Cons e es)
  then show ?case using shapes_absent[of "fst e" es] by (cases "fst e = k") auto
qed simp

lemma metrics_name_new [simp]: "metrics_name (event_metrics_new n s) = n"
  by (simp add: event_metrics_new_def)

lemma registry_bags_ok: "registry_ok g \<Longrightarrow> \<forall>e \<in> set (concat (registry_inspect g)). bag_ok (snd e)"
  by (auto simp: registry_ok_def entries_ok_def)

text \<open>A report depends only on what the entries add up to.\<close>

lemma collect_same:
  assumes "registry_ok g" and "registry_ok g'" and "same_content (concat (registry_inspect g)) (concat (registry_inspect g'))"
  shows "collect_from g = collect_from g'"
proof -
  let ?e = "concat (registry_inspect g)" and ?e' = "concat (registry_inspect g')"
  have spec: "collected (collect_bags [] (concat (registry_inspect h))) (concat (registry_inspect h))" if "registry_ok h" for h
    using collect_bags_spec[of "[]", OF _ registry_bags_ok[OF that]] by (simp add: entries_ok_def)
  have clash: False if h: "registry_ok h" "registry_ok h'" "collect_bags [] (concat (registry_inspect h)) = Some out"
    "collect_bags [] (concat (registry_inspect h')) = None"
    "same_content (concat (registry_inspect h)) (concat (registry_inspect h'))" for h h' out
  proof -
    obtain k ms ms' where c: "ms \<noteq> ms'" "ms \<in> shapes k (concat (registry_inspect h'))"
      "ms' \<in> shapes k (concat (registry_inspect h'))"
      using spec[OF h(2)] h(4) by (auto simp: collected_def clash_def)
    have "entries_ok (merged_entries out)" "same_content (merged_entries out) (concat (registry_inspect h))"
      using spec[OF h(1)] h(3) by (simp_all add: collected_def)
    then show False using h(5) c one_shape[of "merged_entries out" ms k ms'] by (simp add: entries_ok_def same_content_def)
  qed
  show ?thesis
  proof (cases "collect_bags [] ?e")
    case None
    then have "collect_bags [] ?e' = None"
      using clash[OF assms(2,1)] same_content_sym[OF assms(3)] by (cases "collect_bags [] ?e'") auto
    with None show ?thesis by (simp add: collect_from_def)
  next
    case (Some out)
    then obtain out' where out': "collect_bags [] ?e' = Some out'"
      using clash[OF assms(1,2)] assms(3) by (cases "collect_bags [] ?e'") auto
    have o: "entries_ok (merged_entries out)" "same_content (merged_entries out) ?e"
      "entries_ok (merged_entries out')" "same_content (merged_entries out') ?e'"
      using spec[OF assms(1)] spec[OF assms(2)] Some out' by (simp_all add: collected_def)
    have c: "same_content (merged_entries out) (merged_entries out')"
      using o(2,4) assms(3) same_content_sym same_content_trans by blast
    have sub: "set x \<subseteq> set y" if "entries_ok (merged_entries x)" "entries_ok (merged_entries y)"
      "same_content (merged_entries x) (merged_entries y)" for x y
    proof
      fix e assume "e \<in> set x"
      moreover obtain n s where e: "e = (n, s)" by force
      ultimately have "map_of x n = Some s" using that(1) by (simp add: entries_ok_def)
      then have "map_of (merged_entries y) n = Some (as_bag s)" using same_snapshot[OF that] by simp
      then obtain s' where "map_of y n = Some s'" "as_bag s' = as_bag s" by auto
      moreover have "s' = s" using calculation(2) by (cases s; cases s') (simp add: as_bag_def)
      ultimately show "e \<in> set y" using e map_of_SomeD by fastforce
    qed
    have set: "set out = set out'" using sub[OF o(1,3) c] sub[OF o(3,1) same_content_sym[OF c]] by blast
    let ?f = "\<lambda>(n, s). event_metrics_new n s"
    have names: "map metrics_name (map ?f x) = map fst x" for x by (induction x) auto
    have "sort_key metrics_name (map ?f out) = sort_key metrics_name (map ?f out')"
    proof (rule map_sorted_distinct_set_unique[of metrics_name])
      have dist: "distinct (map metrics_name (sort_key metrics_name (map ?f x)))" if "entries_ok (merged_entries x)" for x
      proof -
        have "distinct (map metrics_name (map ?f x))" using that unfolding names by (simp add: entries_ok_def)
        then show ?thesis by (metis distinct_map distinct_sort set_sort)
      qed
      show "distinct (map metrics_name (sort_key metrics_name (map ?f out)))" by (rule dist[OF o(1)])
      show "distinct (map metrics_name (sort_key metrics_name (map ?f out')))" by (rule dist[OF o(3)])
      show "inj_on metrics_name (set (sort_key metrics_name (map ?f out)) \<union> set (sort_key metrics_name (map ?f out')))"
        using dist[OF o(1)] set by (simp add: distinct_map)
    qed (use set in simp_all)
    then show ?thesis using Some out' by (simp add: collect_from_def from_unsorted_events_def)
  qed
qed

section \<open>Histories of the registry\<close>

text \<open>Threads register events, observe through them and end, in any interleaving. The history keeps the
  registered configurations and the observations by event name.\<close>

inductive registry_history ::
    "registry \<Rightarrow> (event_name \<times> magnitude list) list \<Rightarrow> (event_name \<times> observation) list \<Rightarrow> bool" where
  no_history: "registry_history registry_new [] []"
| registered: "registry_history g cfgs obs \<Longrightarrow> registry_register g t n (sync_new ms) = Inr g' \<Longrightarrow>
    registry_history g' ((n, ms) # cfgs) obs"
| observes: "registry_history g cfgs obs \<Longrightarrow> registry_observe g t n m c = Some g' \<Longrightarrow>
    registry_history g' cfgs (obs @ [(n, (m, c))])"
| thread_ends: "registry_history g cfgs obs \<Longrightarrow> unregister_thread g t = Some g' \<Longrightarrow> registry_history g' cfgs obs"

definition consistent :: "(event_name \<times> magnitude list) list \<Rightarrow> bool" where
  "consistent cfgs = (\<forall>(n, ms) \<in> set cfgs. \<forall>(n', ms') \<in> set cfgs. n = n' \<longrightarrow> ms = ms')"

definition observed_as :: "event_name \<Rightarrow> (event_name \<times> observation) list \<Rightarrow> observation list" where
  "observed_as n obs = map snd (filter (\<lambda>e. fst e = n) obs)"

lemma component_tally_nil: "component f \<Longrightarrow> f (as_bag (tally ms [])) = 0"
  by (auto simp: component_def as_bag_def tally_def bucket_at_def)

lemma component_tally_snoc:
  assumes "component f"
  shows "f (as_bag (tally ms (os @ [(m, c)]))) = f (as_bag (tally ms os)) + gain f ms m c"
proof -
  note rules = component_def gain_def components_differ components_differ(1)[symmetric] bucket_at_def
  have parts: "sync_count (as_bag (tally ms os)) = total_of os" "sync_sum (as_bag (tally ms os)) = sum_of os"
    "sync_buckets (as_bag (tally ms os)) = snap_buckets (tally ms os)" "length (snap_buckets (tally ms os)) = length ms"
    by (simp_all add: as_bag_def tally_def)
  show ?thesis
  proof (cases "select_bucket ms m")
    case None
    have "as_bag (tally ms (os @ [(m, c)])) =
        (as_bag (tally ms os))\<lparr>sync_count := total_of os + c, sync_sum := sum_of os + m * c\<rparr>"
      using tally_snoc_none[of c ms m os] None by (simp add: as_bag_def)
    then show ?thesis using assms None parts by (auto simp: rules)
  next
    case (Some i)
    then have "i < length ms" by (simp add: select_bucket_Some)
    have "as_bag (tally ms (os @ [(m, c)])) =
        (as_bag (tally ms os))\<lparr>sync_count := total_of os + c, sync_sum := sum_of os + m * c,
          sync_buckets := (snap_buckets (tally ms os))[i := snap_buckets (tally ms os) ! i + c]\<rparr>"
      using tally_snoc_some[OF Some, of os c] by (simp add: as_bag_def)
    then show ?thesis using assms Some \<open>i < length ms\<close> parts by (auto simp: rules nth_list_update)
  qed
qed

lemma sync_new_tally: "sync_new ms = as_bag (tally ms [])"
  by (auto simp: sync_new_def as_bag_def tally_def intro!: nth_equalityI)

definition history_ok :: "registry \<Rightarrow> (event_name \<times> magnitude list) list \<Rightarrow> (event_name \<times> observation) list \<Rightarrow> bool" where
  "history_ok g cfgs obs = (registry_ok g \<and> fst ` set obs \<subseteq> fst ` set cfgs
     \<and> (\<forall>k. shapes k (concat (registry_inspect g)) = {ms. (k, ms) \<in> set cfgs})
     \<and> (consistent cfgs \<longrightarrow> (\<forall>k ms f. (k, ms) \<in> set cfgs \<longrightarrow> component f \<longrightarrow>
          weigh f k (concat (registry_inspect g)) = f (as_bag (tally ms (observed_as k obs)))))
     \<and> (\<forall>k f. component f \<longrightarrow> k \<notin> fst ` set cfgs \<longrightarrow> weigh f k (concat (registry_inspect g)) = 0))"

lemma history_ok_weigh:
  "history_ok g cfgs obs \<Longrightarrow> consistent cfgs \<Longrightarrow> (k, ms) \<in> set cfgs \<Longrightarrow> component f \<Longrightarrow>
   weigh f k (concat (registry_inspect g)) = f (as_bag (tally ms (observed_as k obs)))"
  by (simp add: history_ok_def)

lemma history_ok_same:
  assumes "history_ok g cfgs obs" and "registry_ok g'"
    and "same_content (concat (registry_inspect g')) (concat (registry_inspect g))"
  shows "history_ok g' cfgs obs"
  using assms by (simp add: history_ok_def same_content_def)

lemma history_ok_register:
  assumes h: "history_ok g cfgs obs" and r: "registry_register g t n (sync_new ms) = Inr g'"
  shows "history_ok g' ((n, ms) # cfgs) obs"
proof -
  have "bag_ok (sync_new ms)" by (simp add: bag_ok_def sync_new_def)
  from register_keeps[OF _ r this] have k: "registry_ok g'"
    "same_content (concat (registry_inspect g')) ((n, sync_new ms) # concat (registry_inspect g))"
    using h by (simp_all add: history_ok_def)
  have f0: "f (sync_new ms) = 0" if "component f" for f using component_tally_nil[OF that] by (simp add: sync_new_tally)
  have w: "weigh f x (concat (registry_inspect g')) = weigh f x (concat (registry_inspect g))" if "component f" for f x
    using k(2) f0[OF that] that by (simp add: same_content_def)
  have "shapes x (concat (registry_inspect g')) = {ms'. (x, ms') \<in> set ((n, ms) # cfgs)}" for x
    using k(2) h by (auto simp: same_content_def history_ok_def sync_new_def)
  moreover have "weigh f x (concat (registry_inspect g')) = f (as_bag (tally ms' (observed_as x obs)))"
    if c: "consistent ((n, ms) # cfgs)" "(x, ms') \<in> set ((n, ms) # cfgs)" "component f" for x ms' f
  proof (cases "x \<in> fst ` set cfgs")
    case True
    then obtain ms2 where "(x, ms2) \<in> set cfgs" by auto
    moreover from this have "ms2 = ms'" using c(1,2) by (auto simp: consistent_def)
    moreover have "consistent cfgs" using c(1) by (auto simp: consistent_def)
    ultimately show ?thesis using h c(3) w[OF c(3)] by (simp add: history_ok_def)
  next
    case False
    then have "observed_as x obs = []" using h by (auto simp: observed_as_def history_ok_def filter_empty_conv)
    then show ?thesis using False h c(3) w[OF c(3)] component_tally_nil[OF c(3)] by (simp add: history_ok_def)
  qed
  ultimately show ?thesis using h k(1) w by (auto simp: history_ok_def)
qed

lemma history_ok_observe:
  assumes h: "history_ok g cfgs obs" and r: "registry_observe g t n m c = Some g'"
  shows "history_ok g' cfgs (obs @ [(n, (m, c))])"
proof -
  obtain bags b where b: "map_of (thread_bags g) t = Some bags" "map_of bags n = Some b"
    using r by (auto simp: registry_observe_def bind_eq_Some_iff)
  have ok: "registry_ok g" using h by (simp add: history_ok_def)
  have k: "registry_ok g'" "\<And>f x. component f \<Longrightarrow> weigh f x (concat (registry_inspect g')) =
        weigh f x (concat (registry_inspect g)) + (if x = n then gain f (sync_magnitudes b) m c else 0)"
      "\<And>x. shapes x (concat (registry_inspect g')) = shapes x (concat (registry_inspect g))"
    using observe_keeps[OF ok b, of m c] unfolding r by blast+
  have "sync_magnitudes b \<in> shapes n bags" using map_of_shape[OF b(2)] .
  moreover have "bags \<in> set (registry_inspect g)" using map_of_SomeD[OF b(1)] by (force simp: registry_inspect_def)
  ultimately have "sync_magnitudes b \<in> shapes n (concat (registry_inspect g))"
    using shapes_concat[of bags "registry_inspect g" n] by blast
  then have cfg: "(n, sync_magnitudes b) \<in> set cfgs" using h by (simp add: history_ok_def)
  have "weigh f x (concat (registry_inspect g')) = f (as_bag (tally ms (observed_as x (obs @ [(n, (m, c))]))))"
    if i: "consistent cfgs" "(x, ms) \<in> set cfgs" "component f" for x ms f
  proof (cases "x = n")
    case True
    then have "ms = sync_magnitudes b" using i(1,2) cfg by (auto simp: consistent_def)
    then show ?thesis using True k(2)[OF i(3), of x] h i component_tally_snoc[OF i(3), of ms "observed_as n obs" m c]
      by (simp add: history_ok_def observed_as_def)
  next
    case False
    then show ?thesis using k(2)[OF i(3), of x] h i by (simp add: history_ok_def observed_as_def)
  qed
  moreover have "weigh f x (concat (registry_inspect g')) = 0" if "component f" "x \<notin> fst ` set cfgs" for f x
    proof -
    have "x \<noteq> n" using that(2) cfg by force
    then show ?thesis using k(2)[OF that(1), of x] h that by (simp add: history_ok_def)
  qed
  moreover have "n \<in> fst ` set cfgs" using cfg by force
  ultimately show ?thesis using h k(1,3) by (simp add: history_ok_def)
qed

lemma registry_history_ok: "registry_history g cfgs obs \<Longrightarrow> history_ok g cfgs obs"
proof (induction rule: registry_history.induct)
  case no_history
  then show ?case by (simp add: history_ok_def registry_new_def registry_ok_def registry_inspect_def)
next
  case (thread_ends g cfgs obs t g')
  then show ?case using unregister_keeps[of g t] history_ok_same[of g cfgs obs g'] unfolding history_ok_def[of g] by force
qed (use history_ok_register history_ok_observe in blast)+

section \<open>Properties\<close>

lemma consistent_iff: "consistent cfgs = (\<forall>n ms ms'. (n, ms) \<in> set cfgs \<longrightarrow> (n, ms') \<in> set cfgs \<longrightarrow> ms = ms')"
  by (fastforce simp: consistent_def)

lemma consistent_map_of: "consistent cfgs \<Longrightarrow> (n, ms) \<in> set cfgs \<Longrightarrow> map_of cfgs n = Some ms"
proof -
  assume c: "consistent cfgs" "(n, ms) \<in> set cfgs"
  then have "n \<in> fst ` set cfgs" by force
  then obtain ms' where "map_of cfgs n = Some ms'" by (metis map_of_eq_None_iff not_None_eq)
  then show ?thesis using c map_of_SomeD[of cfgs n ms'] by (auto simp: consistent_def)
qed

lemma sort_key_names:
  assumes "distinct (map fst out)" and "\<forall>(n, s) \<in> set out. s = F n"
  shows "from_unsorted_events (map (\<lambda>(n, s). event_metrics_new n s) out) =
    map (\<lambda>n. event_metrics_new n (F n)) (sorted_list_of_set (fst ` set out))"
proof -
  let ?xs = "map (\<lambda>(n, s). event_metrics_new n s) out" and ?ys = "map (\<lambda>n. event_metrics_new n (F n)) (sorted_list_of_set (fst ` set out))"
  have names: "map metrics_name ?xs = map fst out" by (induction out) auto
  have n2: "map metrics_name ?ys = sorted_list_of_set (fst ` set out)" by (simp add: comp_def)
  have "distinct (map metrics_name ?xs)" using assms(1) unfolding names .
  then have d: "distinct (map metrics_name (sort_key metrics_name ?xs))" by (metis distinct_map distinct_sort set_sort)
  have set: "set ?xs = set ?ys" using assms(2) by (force simp: image_image)
  have "sort_key metrics_name ?xs = ?ys"
  proof (rule map_sorted_distinct_set_unique[of metrics_name])
    show "inj_on metrics_name (set (sort_key metrics_name ?xs) \<union> set ?ys)" using d set by (simp add: distinct_map)
    show "distinct (map metrics_name (sort_key metrics_name ?xs))" using d .
    show "sorted (map metrics_name ?ys)" "distinct (map metrics_name ?ys)" unfolding n2 by simp_all
    show "set (sort_key metrics_name ?xs) = set ?ys" using set by simp
  qed simp
  then show ?thesis by (simp add: from_unsorted_events_def)
qed

lemma clash_iff:
  assumes "\<And>k. shapes k es = {ms. (k, ms) \<in> set cfgs}"
  shows "clash es = (\<not> consistent cfgs)"
  using assms by (simp add: clash_def consistent_iff) metis

text \<open>C9: Whatever threads registered, observed and ended, a report shows for every event name, in ascending
  order, exactly the observations that any thread, living or ended, ever made under that name; it panics
  exactly when one name was registered with different histogram boundaries.\<close>

theorem report_exact:
  assumes "registry_history g cfgs obs"
  shows "collect_from g = (if consistent cfgs
    then Some (map (\<lambda>n. event_metrics_new n (tally (the (map_of cfgs n)) (observed_as n obs)))
                (sorted_list_of_set (fst ` set cfgs)))
    else None)"
proof -
  let ?e = "concat (registry_inspect g)"
  have h: "history_ok g cfgs obs" using registry_history_ok[OF assms] .
  then have ok: "registry_ok g" and sh: "\<And>k. shapes k ?e = {ms. (k, ms) \<in> set cfgs}" by (simp_all add: history_ok_def)
  have clash: "clash ?e = (\<not> consistent cfgs)" using clash_iff[OF sh] .
  have spec: "collected (collect_bags [] ?e) ?e"
    using collect_bags_spec[of "[]", OF _ registry_bags_ok[OF ok]] by (simp add: entries_ok_def)
  show ?thesis
  proof (cases "collect_bags [] ?e")
    case None
    then show ?thesis using spec clash by (simp add: collected_def collect_from_def)
  next
    case (Some out)
    have o: "entries_ok (merged_entries out)" "same_content (merged_entries out) ?e"
      using spec Some by (simp_all add: collected_def)
    then have d: "distinct (map fst out)" by (simp add: entries_ok_def)
    have "\<not> clash (merged_entries out)" using one_shape[of "merged_entries out"] d by (simp add: clash_def) blast
    then have "\<not> clash ?e" using o(2) by (simp add: clash_def same_content_def)
    then have c: "consistent cfgs" using clash by simp
    let ?F = "\<lambda>n. tally (the (map_of cfgs n)) (observed_as n obs)"
    have val: "\<forall>(n, s) \<in> set out. s = ?F n"
    proof clarify
      fix n s assume "(n, s) \<in> set out"
      then have s: "map_of (merged_entries out) n = Some (as_bag s)" using d by simp
      then have "sync_magnitudes (as_bag s) \<in> shapes n ?e" using map_of_shape[OF s] o(2) by (simp add: same_content_def)
      then have cfg: "(n, snap_magnitudes s) \<in> set cfgs" by (simp add: sh as_bag_def)
      let ?t = "tally (snap_magnitudes s) (observed_as n obs)"
      have F: "?F n = ?t" using consistent_map_of[OF c cfg] by simp
      have "same_content [(n, as_bag s)] [(n, as_bag ?t)]"
      proof -
        have w: "weigh f n (merged_entries out) = f (as_bag s)" for f
          using one_entry[OF _ s] d by simp
        have "f (as_bag s) = f (as_bag ?t)" if "component f" for f
        proof -
          have "weigh f n ?e = f (as_bag ?t)" by (rule history_ok_weigh[OF h c cfg that])
          then show ?thesis using w[of f] o(2) that by (simp add: same_content_def)
        qed
        then show ?thesis by (simp add: same_content_def as_bag_def tally_def)
      qed
      moreover have len: "length (snap_buckets s) = length (snap_magnitudes s)"
        using o(1) map_of_SomeD[OF s] by (force simp: entries_ok_def bag_ok_def as_bag_def)
      then have ent: "entries_ok [(n, as_bag s)]" "entries_ok [(n, as_bag ?t)]"
        by (simp_all add: entries_ok_def bag_ok_def as_bag_def tally_def)
      ultimately have "as_bag ?t = as_bag s"
        using same_snapshot[of "[(n, as_bag s)]" "[(n, as_bag ?t)]" n "as_bag s"] ent by simp
      then have "s = ?t" by (rule as_bag_inj[THEN sym])
      with F show "s = ?F n" by simp
    qed
    have "fst ` set out = fst ` set cfgs"
    proof -
      have "fst ` set out = fst ` set (merged_entries out)" using merged_entries_simps(4)[of out] by (metis set_map)
      moreover have "(n \<in> fst ` set (merged_entries out)) = (n \<in> fst ` set cfgs)" for n
      proof -
        have "shapes n (merged_entries out) = {ms. (n, ms) \<in> set cfgs}" using o(2) sh[of n] by (simp add: same_content_def)
        moreover have "(n \<in> fst ` set cfgs) = ({ms. (n, ms) \<in> set cfgs} \<noteq> {})" by force
        ultimately show ?thesis using shapes_present[of n "merged_entries out"] by simp
      qed
      ultimately show ?thesis by (simp only: set_eq_iff) simp
    qed
    then show ?thesis using Some c sort_key_names[OF d val] by (simp add: collect_from_def)
  qed
qed

text \<open>A thread with one histogram event and one counter observes and ends; a second thread observes the
  same counter.\<close>

definition demo_registry :: "registry option" where
  "demo_registry = do {
     g \<leftarrow> case registry_register registry_new 1 ''read'' (sync_new [10]) of Inl _ \<Rightarrow> None | Inr g \<Rightarrow> Some g;
     g \<leftarrow> registry_observe g 1 ''read'' 4 2;
     g \<leftarrow> unregister_thread g 1;
     g \<leftarrow> case registry_register g 2 ''read'' (sync_new [10]) of Inl _ \<Rightarrow> None | Inr g \<Rightarrow> Some g;
     registry_observe g 2 ''read'' 99 1
   }"

lemma demo_registry_runs: "demo_registry \<noteq> None"
  by code_simp

lemma demo_registry_history:
  assumes "demo_registry = Some g"
  shows "registry_history g [(''read'', [10]), (''read'', [10])] [(''read'', (4, 2)), (''read'', (99, 1))]"
proof -
  obtain g1 g2 g3 g4 where g: "registry_register registry_new 1 ''read'' (sync_new [10]) = Inr g1"
    "registry_observe g1 1 ''read'' 4 2 = Some g2" "unregister_thread g2 1 = Some g3"
    "registry_register g3 2 ''read'' (sync_new [10]) = Inr g4" "registry_observe g4 2 ''read'' 99 1 = Some g"
    using assms unfolding demo_registry_def bind_eq_Some_iff by (elim exE conjE) (simp split: sum.splits)
  from observes[OF registered[OF thread_ends[OF observes[OF registered[OF no_history g(1)] g(2)] g(3)] g(4)] g(5)]
  show ?thesis by simp
qed

theorem report_exact_witness:
  "\<exists>g. demo_registry = Some g \<and> collect_from g = Some [\<lparr>metrics_name = ''read'', metrics_count = 3, metrics_sum = 107,
     metrics_histogram = Some \<lparr>hist_magnitudes = [10], hist_counts = [2], overflow_bucket_count = 1\<rparr>\<rparr>]"
proof -
  obtain g where g: "demo_registry = Some g" using demo_registry_runs by auto
  have "event_metrics_new ''read'' (tally [10] (observed_as ''read'' [(''read'', (4, 2)), (''read'', (99, 1))])) =
    \<lparr>metrics_name = ''read'', metrics_count = 3, metrics_sum = 107,
     metrics_histogram = Some \<lparr>hist_magnitudes = [10], hist_counts = [2], overflow_bucket_count = 1\<rparr>\<rparr>" by code_simp
  then have "collect_from g = Some [\<lparr>metrics_name = ''read'', metrics_count = 3, metrics_sum = 107,
     metrics_histogram = Some \<lparr>hist_magnitudes = [10], hist_counts = [2], overflow_bucket_count = 1\<rparr>\<rparr>]"
    using report_exact[OF demo_registry_history[OF g]] by (simp add: consistent_def)
  with g show ?thesis by blast
qed

text \<open>The end of a thread changes no report: unregistering it never panics, whatever configurations meet in
  the archive, removes the thread, and leaves what a report shows, or the panic of the report, as it was.\<close>

theorem thread_exit_keeps_report:
  assumes "registry_history g cfgs obs"
  shows "\<exists>g'. unregister_thread g t = Some g' \<and> map_of (thread_bags g') t = None \<and> collect_from g' = collect_from g"
proof -
  have ok: "registry_ok g" using registry_history_ok[OF assms] by (simp add: history_ok_def)
  obtain g' where g': "unregister_thread g t = Some g'" "registry_ok g'" "map_of (thread_bags g') t = None"
    "same_content (concat (registry_inspect g')) (concat (registry_inspect g))" using unregister_keeps[OF ok] by blast
  then show ?thesis using collect_same[OF g'(2) ok g'(4)] by blast
qed

theorem thread_exit_keeps_report_witness:
  "\<exists>g g'. demo_registry = Some g \<and> unregister_thread g 2 = Some g' \<and> collect_from g' = collect_from g"
proof -
  obtain g where g: "demo_registry = Some g" using demo_registry_runs by auto
  then show ?thesis using thread_exit_keeps_report[OF demo_registry_history[OF g], of 2] by auto
qed

section \<open>Histograms\<close>

definition above_all :: "magnitude list \<Rightarrow> observation list \<Rightarrow> observation list" where
  "above_all ms os = filter (\<lambda>(m, c). \<forall>b \<in> set ms. b <s m) os"

definition within :: "magnitude list \<Rightarrow> nat \<Rightarrow> observation list \<Rightarrow> observation list" where
  "within ms i os = filter (\<lambda>(m, c). in_bucket ms i m) os"

lemma select_bucket_None: "(select_bucket ms m = None) = (\<forall>b \<in> set ms. b <s m)"
  by (auto simp: select_bucket_def first_true_None_iff word_sle_eq word_sless_alt not_le)

lemma batches_partition:
  "(\<Sum>i < length ms. batches (within ms i os)) + batches (above_all ms os) = batches os"
proof (induction os)
  case (Cons x os)
  obtain m c where x: "x = (m, c)" by force
  have one: "batches (within ms i (x # os)) = (if select_bucket ms m = Some i then unat c else 0) + batches (within ms i os)"
    if "i < length ms" for i using select_bucket_unique[OF that] by (simp add: within_def x)
  have "(\<Sum>i < length ms. batches (within ms i (x # os))) =
      (\<Sum>i < length ms. if select_bucket ms m = Some i then unat c else 0) + (\<Sum>i < length ms. batches (within ms i os))"
    unfolding sum.distrib[symmetric] using one by (intro sum.cong) simp_all
  moreover have "(\<Sum>i < length ms. if select_bucket ms m = Some i then unat c else 0) + batches (above_all ms (x # os)) =
      unat c + batches (above_all ms os)"
  proof (cases "select_bucket ms m")
    case None
    then show ?thesis using select_bucket_None[of ms m] by (simp add: above_all_def x)
  next
    case (Some i)
    then have "i < length ms" "\<not> (\<forall>b \<in> set ms. b <s m)"
      using select_bucket_Some[of ms m i] select_bucket_None[of ms m] by simp_all
    then show ?thesis using Some by (auto simp: above_all_def x)
  qed
  ultimately show ?case using Cons.IH by (simp add: x)
qed (simp add: within_def above_all_def)

lemma foldl_words: "foldl (+) (a :: 64 word) (map (\<lambda>i. of_nat (f i)) [0..<n]) = a + of_nat (\<Sum>i < n. f i)"
  by (induction n) (simp_all add: algebra_simps)

text \<open>As long as the batch sizes of an event add up to less than \<open>2 ^ 64\<close>, its histogram sorts the observations
  without loss: the bucket appended for the largest magnitude counts exactly those above every configured
  boundary, every configured bucket those that no lower boundary accepts, and the buckets add up to the
  reported count.\<close>

theorem histogram_partitions:
  assumes "ms \<noteq> []" and "batches os < usize_range"
  shows "\<exists>h. metrics_histogram (event_metrics_new n (tally ms os)) = Some h
    \<and> histogram_buckets h = zip (ms @ [MAGNITUDE_MAX])
        (map (\<lambda>i. total_of (within ms i os)) [0..<length ms] @ [total_of (above_all ms os)])
    \<and> sum_list (map (unat \<circ> snd) (histogram_buckets h)) = unat (metrics_count (event_metrics_new n (tally ms os)))"
proof -
  let ?cs = "map (\<lambda>i. total_of (within ms i os)) [0..<length ms]"
  have part: "(\<Sum>i < length ms. batches (within ms i os)) + batches (above_all ms os) = batches os"
    by (rule batches_partition)
  have counts: "snap_buckets (tally ms os) = ?cs" by (simp add: tally_def within_def)
  have explicit: "foldl (+) 0 ?cs = of_nat (\<Sum>i < length ms. batches (within ms i os))"
    using foldl_words[of 0 "\<lambda>i. batches (within ms i os)" "length ms"] by (simp add: total_of_batches)
  have un: "unat (of_nat k :: 64 word) = k" if "k \<le> batches os" for k
    using that assms(2) by (simp add: unat_of_nat_64 usize_range_def)
  have over: "saturating_sub_64 (total_of os) (foldl (+) 0 ?cs) = total_of (above_all ms os)"
  proof -
    have "of_nat (\<Sum>i < length ms. batches (within ms i os)) \<le> total_of os"
      unfolding total_of_batches word_le_nat_alt by (subst (1 2) un) (use part in auto)
    moreover have "total_of os = of_nat (\<Sum>i < length ms. batches (within ms i os)) + total_of (above_all ms os)"
      unfolding total_of_batches part[symmetric] by simp
    ultimately show ?thesis unfolding explicit saturating_sub_64_def by simp
  qed
  let ?h = "\<lparr>hist_magnitudes = ms, hist_counts = ?cs, overflow_bucket_count = total_of (above_all ms os)\<rparr>"
  have "metrics_histogram (event_metrics_new n (tally ms os)) = Some ?h"
    using assms(1) over counts unfolding event_metrics_new_def Let_def counts by (simp add: tally_def)
  moreover have "sum_list (map (unat \<circ> snd) (histogram_buckets ?h)) = batches os"
  proof -
    have "map (unat \<circ> snd) (histogram_buckets ?h) = map unat (map snd (histogram_buckets ?h))" by simp
    also have "map snd (histogram_buckets ?h) = ?cs @ [total_of (above_all ms os)]" by (simp add: histogram_buckets_def)
    also have "sum_list (map unat \<dots>) = (\<Sum>i < length ms. unat (total_of (within ms i os))) + unat (total_of (above_all ms os))"
      by (simp add: interv_sum_list_conv_sum_set_nat atLeast0LessThan comp_def)
    also have "\<dots> = (\<Sum>i < length ms. batches (within ms i os)) + batches (above_all ms os)"
    proof -
      have "batches (within ms i os) \<le> batches os" if "i < length ms" for i
        using part member_le_sum[of i "{..<length ms}" "\<lambda>i. batches (within ms i os)"] that by simp
      then show ?thesis using part un by (simp add: total_of_batches)
    qed
    finally show ?thesis using part by (simp add: comp_def)
  qed
  moreover have "unat (metrics_count (event_metrics_new n (tally ms os))) = batches os"
    using un by (simp add: event_metrics_new_def tally_def total_of_batches)
  ultimately show ?thesis by (simp add: histogram_buckets_def)
qed

theorem histogram_partitions_witness:
  "\<exists>h. metrics_histogram (event_metrics_new ''read'' (tally [0, 10] [(5, 2), (-3, 1), (11, 4)])) = Some h
     \<and> map snd (histogram_buckets h) = [1, 2, 4]"
proof -
  have "batches [(5, 2), (-3, 1), (11, 4)] < usize_range" by (simp add: usize_range_def)
  from histogram_partitions[OF _ this, of "[0, 10]" "''read''"] obtain h where
    h: "metrics_histogram (event_metrics_new ''read'' (tally [0, 10] [(5, 2), (-3, 1), (11, 4)])) = Some h"
    "histogram_buckets h = zip ([0, 10] @ [MAGNITUDE_MAX]) (map (\<lambda>i. total_of (within [0, 10] i [(5, 2), (-3, 1), (11, 4)]))
      [0..<length [0, 10 :: 64 word]] @ [total_of (above_all [0, 10] [(5, 2), (-3, 1), (11, 4)])])" by auto
  have "map snd (zip ([0, 10] @ [MAGNITUDE_MAX]) (map (\<lambda>i. total_of (within [0, 10] i [(5, 2), (-3, 1), (11, 4)]))
      [0..<length [0, 10 :: 64 word]] @ [total_of (above_all [0, 10] [(5, 2), (-3, 1), (11, 4)])])) = [1, 2, 4]"
    by code_simp
  with h show ?thesis by auto
qed

end
