(* ===== verification/DureProtocol.thy ===== *)
theory DureProtocol
  imports Prelude
begin

text \<open>
  Package \<open>dure\<close>, \<open>protocol.rs\<close>, \<open>pal/transport/framing/reader.rs\<close>, \<open>session_id.rs\<close> and the window size of
  \<open>pal/pseudoconsole/abstractions.rs\<close>: the messages between a client and the supervisor of a session, their
  encoding as length-prefixed frames, and the reader that accumulates a frame from partial reads.

  A \<open>NonZero\<close> integer is the word with the invariant in \<open>message_ok\<close>; a Rust string is its UTF-8 bytes,
  \<open>utf8_valid\<close> deciding which byte strings are one. The connection that delivers the bytes is the parameter
  \<open>read\<close>.
\<close>

section \<open>Messages\<close>

type_synonym byte = "8 word"

record window_size =
  cols :: "16 word"
  rows :: "16 word"

definition MAX_DIMENSION :: "16 word" where
  "MAX_DIMENSION = 0x7FFF"

definition window_size_new :: "16 word \<Rightarrow> 16 word \<Rightarrow> window_size option" where
  "window_size_new c r =
     (if c > MAX_DIMENSION \<or> r > MAX_DIMENSION then None
      else if c = 0 \<or> r = 0 then None
      else Some \<lparr>cols = c, rows = r\<rparr>)"

definition session_id_from :: "32 word \<Rightarrow> 32 word option" where
  "session_id_from i = (if i = 0 then None else Some i)"

datatype launcher_tie = Confirmed | Unknown | NoneDetected

datatype startup_step = LifetimeJob | PseudoconsoleStep | AppStep | ListenerStep | IdentityStep | SessionIdStep | PublishRecord

datatype message =
    Attach window_size
  | Input "byte list"
  | Resize window_size
  | Attached "32 word"
  | Output "byte list"
  | Displaced
  | AppExited "32 word"
  | StartupOk "32 word" launcher_tie "byte list"
  | StartupErr startup_step
  | StartupCommit

definition KIND_ATTACH :: byte where "KIND_ATTACH = 1"
definition KIND_INPUT :: byte where "KIND_INPUT = 2"
definition KIND_RESIZE :: byte where "KIND_RESIZE = 3"
definition KIND_ATTACHED :: byte where "KIND_ATTACHED = 4"
definition KIND_OUTPUT :: byte where "KIND_OUTPUT = 5"
definition KIND_DISPLACED :: byte where "KIND_DISPLACED = 6"
definition KIND_APP_EXITED :: byte where "KIND_APP_EXITED = 7"
definition KIND_STARTUP_OK :: byte where "KIND_STARTUP_OK = 8"
definition KIND_STARTUP_ERR :: byte where "KIND_STARTUP_ERR = 9"
definition KIND_STARTUP_COMMIT :: byte where "KIND_STARTUP_COMMIT = 10"

lemmas kinds = KIND_ATTACH_def KIND_INPUT_def KIND_RESIZE_def KIND_ATTACHED_def KIND_OUTPUT_def
  KIND_DISPLACED_def KIND_APP_EXITED_def KIND_STARTUP_OK_def KIND_STARTUP_ERR_def KIND_STARTUP_COMMIT_def

fun step_byte :: "startup_step \<Rightarrow> byte" where
  "step_byte LifetimeJob = 1"
| "step_byte PseudoconsoleStep = 2"
| "step_byte AppStep = 3"
| "step_byte ListenerStep = 4"
| "step_byte IdentityStep = 5"
| "step_byte SessionIdStep = 6"
| "step_byte PublishRecord = 7"

fun tie_byte :: "launcher_tie \<Rightarrow> byte" where
  "tie_byte NoneDetected = 1"
| "tie_byte Confirmed = 2"
| "tie_byte Unknown = 3"

section \<open>Little-endian integers\<close>

definition le16 :: "16 word \<Rightarrow> byte list" where
  "le16 w = [ucast w, ucast (drop_bit 8 w)]"

definition le32 :: "32 word \<Rightarrow> byte list" where
  "le32 w = [ucast w, ucast (drop_bit 8 w), ucast (drop_bit 16 w), ucast (drop_bit 24 w)]"

fun from_le16 :: "byte list \<Rightarrow> 16 word option" where
  "from_le16 [a, b] = Some (ucast a OR push_bit 8 (ucast b))"
| "from_le16 bs = None"

fun from_le32 :: "byte list \<Rightarrow> 32 word option" where
  "from_le32 [a, b, c, d] = Some (ucast a OR push_bit 8 (ucast b) OR push_bit 16 (ucast c) OR push_bit 24 (ucast d))"
| "from_le32 bs = None"

section \<open>UTF-8\<close>

definition cont :: "byte \<Rightarrow> bool" where
  "cont b = (0x80 \<le> b \<and> b \<le> 0xBF)"

text \<open>\<open>str::from_utf8\<close> accepts exactly the well-formed sequences: no overlong forms, no surrogates, nothing
  above U+10FFFF.\<close>

fun utf8_valid :: "byte list \<Rightarrow> bool" where
  "utf8_valid [] = True"
| "utf8_valid (a # bs) =
     (if a < 0x80 then utf8_valid bs
      else case bs of
          [] \<Rightarrow> False
        | b # bs2 \<Rightarrow>
            if 0xC2 \<le> a \<and> a \<le> 0xDF then cont b \<and> utf8_valid bs2
            else (case bs2 of
                [] \<Rightarrow> False
              | c # bs3 \<Rightarrow>
                  if 0xE0 \<le> a \<and> a \<le> 0xEF
                  then cont b \<and> cont c \<and> (a = 0xE0 \<longrightarrow> 0xA0 \<le> b) \<and> (a = 0xED \<longrightarrow> b \<le> 0x9F) \<and> utf8_valid bs3
                  else (case bs3 of
                      [] \<Rightarrow> False
                    | d # bs4 \<Rightarrow> 0xF0 \<le> a \<and> a \<le> 0xF4 \<and> cont b \<and> cont c \<and> cont d
                        \<and> (a = 0xF0 \<longrightarrow> 0x90 \<le> b) \<and> (a = 0xF4 \<longrightarrow> b \<le> 0x8F) \<and> utf8_valid bs4)))"

section \<open>Encoding\<close>

fun encode_payload :: "message \<Rightarrow> byte list" where
  "encode_payload (Attach sz) = KIND_ATTACH # le16 (cols sz) @ le16 (rows sz)"
| "encode_payload (Input data) = KIND_INPUT # data"
| "encode_payload (Resize sz) = KIND_RESIZE # le16 (cols sz) @ le16 (rows sz)"
| "encode_payload (Attached i) = KIND_ATTACHED # le32 i"
| "encode_payload (Output data) = KIND_OUTPUT # data"
| "encode_payload Displaced = [KIND_DISPLACED]"
| "encode_payload (AppExited status) = KIND_APP_EXITED # le32 status"
| "encode_payload (StartupOk i tie name) = KIND_STARTUP_OK # le32 i @ [tie_byte tie] @ name"
| "encode_payload (StartupErr step) = [KIND_STARTUP_ERR, step_byte step]"
| "encode_payload StartupCommit = [KIND_STARTUP_COMMIT]"

text \<open>A payload that \<open>u32\<close> cannot count panics.\<close>

definition encode_into :: "message \<Rightarrow> byte list option" where
  "encode_into m = do {
     let payload = encode_payload m;
     require (length payload < 2 ^ 32);
     Some (le32 (of_nat (length payload)) @ payload)
   }"

section \<open>Decoding\<close>

datatype decode_error = Invalid

definition decode_size :: "byte list \<Rightarrow> decode_error + window_size" where
  "decode_size rest = ok_or Invalid (do {
     require (2 \<le> length rest);
     let (cols_bytes, rest) = (take 2 rest, drop 2 rest);
     require (2 \<le> length rest);
     let (rows_bytes, rest) = (take 2 rest, drop 2 rest);
     require (rest = []);
     c \<leftarrow> from_le16 cols_bytes;
     r \<leftarrow> from_le16 rows_bytes;
     window_size_new c r
   })"

definition decode_u32 :: "byte list \<Rightarrow> decode_error + 32 word" where
  "decode_u32 rest = ok_or Invalid (do {
     require (4 \<le> length rest);
     require (drop 4 rest = []);
     from_le32 (take 4 rest)
   })"

definition decode_session_id :: "byte list \<Rightarrow> decode_error + 32 word" where
  "decode_session_id rest =
     (case decode_u32 rest of Inl e \<Rightarrow> Inl e | Inr i \<Rightarrow> ok_or Invalid (session_id_from i))"

definition map_result :: "('a \<Rightarrow> 'b) \<Rightarrow> 'e + 'a \<Rightarrow> 'e + 'b" where
  "map_result f r = (case r of Inl e \<Rightarrow> Inl e | Inr x \<Rightarrow> Inr (f x))"

definition decode_tie :: "byte \<Rightarrow> launcher_tie option" where
  "decode_tie b = (if b = 1 then Some NoneDetected else if b = 2 then Some Confirmed else if b = 3 then Some Unknown
     else None)"

definition decode_step :: "byte \<Rightarrow> startup_step option" where
  "decode_step b = (if b = 1 then Some LifetimeJob else if b = 2 then Some PseudoconsoleStep
     else if b = 3 then Some AppStep else if b = 4 then Some ListenerStep else if b = 5 then Some IdentityStep
     else if b = 6 then Some SessionIdStep else if b = 7 then Some PublishRecord else None)"

definition decode_startup_ok :: "byte list \<Rightarrow> decode_error + message" where
  "decode_startup_ok rest =
     (if length rest < 4 then Inl Invalid
      else let id_bytes = take 4 rest in
        case drop 4 rest of
          [] \<Rightarrow> Inl Invalid
        | t # pipe_name \<Rightarrow> (case decode_tie t of
              None \<Rightarrow> Inl Invalid
            | Some tie \<Rightarrow>
                if \<not> utf8_valid pipe_name then Inl Invalid
                else map_result (\<lambda>i. StartupOk i tie pipe_name) (decode_session_id id_bytes)))"

definition decode_rest :: "byte \<Rightarrow> byte list \<Rightarrow> decode_error + message" where
  "decode_rest kind rest =
     (if kind = KIND_ATTACH then map_result Attach (decode_size rest)
      else if kind = KIND_RESIZE then map_result Resize (decode_size rest)
      else if kind = KIND_ATTACHED then map_result Attached (decode_session_id rest)
      else if kind = KIND_DISPLACED \<and> rest = [] then Inr Displaced
      else if kind = KIND_APP_EXITED then map_result AppExited (decode_u32 rest)
      else if kind = KIND_STARTUP_OK then decode_startup_ok rest
      else if kind = KIND_STARTUP_ERR then
        (case rest of [step] \<Rightarrow> map_result StartupErr (ok_or Invalid (decode_step step)) | _ \<Rightarrow> Inl Invalid)
      else if kind = KIND_STARTUP_COMMIT \<and> rest = [] then Inr StartupCommit
      else Inl Invalid)"

definition decode_body :: "byte \<Rightarrow> byte list \<Rightarrow> decode_error + message" where
  "decode_body kind body =
     (if kind = KIND_INPUT then Inr (Input body)
      else if kind = KIND_OUTPUT then Inr (Output body)
      else decode_rest kind body)"

definition MAX_FRAME_LEN :: nat where
  "MAX_FRAME_LEN = 1024 * 1024"

definition payload_len_ok :: "32 word \<Rightarrow> bool" where
  "payload_len_ok len = (0 < unat len \<and> unat len \<le> MAX_FRAME_LEN)"

section \<open>Reading frames\<close>

datatype pal_error = Timeout | BreakawayDenied | InspectFailed | NotFound | Disconnected | OtherError

text \<open>\<open>read n r\<close> is one call of the connection's read with a buffer of \<open>n\<close> bytes in state \<open>r\<close>: the bytes it
  wrote, or an error.\<close>

type_synonym 'r reader = "nat \<Rightarrow> 'r \<Rightarrow> pal_error + byte list \<times> 'r"

function fill :: "'r reader \<Rightarrow> nat \<Rightarrow> 'r \<Rightarrow> pal_error + byte list \<times> 'r" where
  "fill read n r =
     (if n = 0 then Inr ([], r)
      else case read n r of
          Inl e \<Rightarrow> Inl e
        | Inr (bs, r) \<Rightarrow>
            if bs = [] then Inl Disconnected
            else if length bs > n then Inl OtherError
            else (case fill read (n - length bs) r of
                Inl e \<Rightarrow> Inl e
              | Inr (later, r) \<Rightarrow> Inr (bs @ later, r)))"
  by pat_completeness auto
termination by (relation "measure (\<lambda>(_, n, _). n)") auto

declare fill.simps [simp del]

definition read_frame :: "'r reader \<Rightarrow> 'r \<Rightarrow> pal_error + message \<times> 'r" where
  "read_frame read r =
     (case fill read 4 r of
        Inl e \<Rightarrow> Inl e
      | Inr (header, r) \<Rightarrow>
          let len = the (from_le32 header) in
          if \<not> payload_len_ok len then Inl OtherError
          else (case fill read 1 r of
              Inl e \<Rightarrow> Inl e
            | Inr (kind, r) \<Rightarrow> (case fill read (unat len - 1) r of
                  Inl e \<Rightarrow> Inl e
                | Inr (body, r) \<Rightarrow> (case decode_body (hd kind) body of
                      Inl _ \<Rightarrow> Inl OtherError
                    | Inr m \<Rightarrow> Inr (m, r)))))"

section \<open>Codec lemmas\<close>

lemma le16_inverse: "from_le16 (le16 w) = Some w"
proof -
  have "ucast (ucast w :: byte) OR push_bit 8 (ucast (ucast (drop_bit 8 w) :: byte)) = w"
    by (rule bit_word_eqI) (auto simp: bit_simps)
  then show ?thesis by (simp add: le16_def)
qed

lemma le32_inverse: "from_le32 (le32 w) = Some w"
proof -
  have "ucast (ucast w :: byte) OR push_bit 8 (ucast (ucast (drop_bit 8 w) :: byte)) OR
      push_bit 16 (ucast (ucast (drop_bit 16 w) :: byte)) OR push_bit 24 (ucast (ucast (drop_bit 24 w) :: byte)) = w"
  proof (rule bit_word_eqI)
    fix n assume n: "n < LENGTH(32)"
    then consider "n < 8" | "8 \<le> n \<and> n < 16" | "16 \<le> n \<and> n < 24" | "24 \<le> n \<and> n < 32" by fastforce
    then show "bit ((ucast (ucast w :: byte) :: 32 word) OR push_bit 8 (ucast (ucast (drop_bit 8 w) :: byte)) OR
      push_bit 16 (ucast (ucast (drop_bit 16 w) :: byte)) OR push_bit 24 (ucast (ucast (drop_bit 24 w) :: byte))) n
      = bit w n"
      by cases (use n in \<open>auto simp: bit_simps\<close>)
  qed
  then show ?thesis by (simp add: le32_def)
qed

lemma bit_byte_le [simp]: "8 \<le> n \<Longrightarrow> \<not> bit (b :: byte) n"
  by (auto dest: bit_imp_le_length)

lemma from_le16_inverse: "from_le16 bs = Some w \<Longrightarrow> le16 w = bs"
  by (induction bs rule: from_le16.induct) (auto simp: le16_def bit_simps intro!: bit_word_eqI)

lemma from_le32_inverse: "from_le32 bs = Some w \<Longrightarrow> le32 w = bs"
  by (induction bs rule: from_le32.induct) (auto simp: le32_def bit_simps intro!: bit_word_eqI)

lemma le32_inject [simp]: "le32 v = le32 w \<longleftrightarrow> v = w"
  using le32_inverse by (metis option.inject)

lemma from_le_total: "length bs = 4 \<Longrightarrow> \<exists>w. from_le32 bs = Some w" "length bs = 2 \<Longrightarrow> \<exists>v. from_le16 bs = Some v"
  by (auto simp: numeral_eq_Suc length_Suc_conv)

lemma length_le [simp]: "length (le16 v) = 2" "length (le32 w) = 4"
  by (simp_all add: le16_def le32_def)

text \<open>What the Rust types guarantee of a message.\<close>

fun message_ok :: "message \<Rightarrow> bool" where
  "message_ok (Attach sz) = (window_size_new (cols sz) (rows sz) = Some sz)"
| "message_ok (Resize sz) = (window_size_new (cols sz) (rows sz) = Some sz)"
| "message_ok (Attached i) = (i \<noteq> 0)"
| "message_ok (StartupOk i tie name) = (i \<noteq> 0 \<and> utf8_valid name)"
| "message_ok m = True"

lemma decode_size_iff: "decode_size bs = Inr sz \<longleftrightarrow>
    window_size_new (cols sz) (rows sz) = Some sz \<and> bs = le16 (cols sz) @ le16 (rows sz)"
proof
  assume "decode_size bs = Inr sz"
  then obtain c r where d: "length bs = 4" "from_le16 (take 2 bs) = Some c" "from_le16 (drop 2 bs) = Some r"
    "window_size_new c r = Some sz"
    by (auto simp: decode_size_def ok_or_def bind_eq_Some_iff split: option.splits)
  moreover have "cols sz = c" "rows sz = r" using d(4) by (auto simp: window_size_new_def split: if_splits)
  ultimately show "window_size_new (cols sz) (rows sz) = Some sz \<and> bs = le16 (cols sz) @ le16 (rows sz)"
    using from_le16_inverse by (metis append_take_drop_id)
next
  assume "window_size_new (cols sz) (rows sz) = Some sz \<and> bs = le16 (cols sz) @ le16 (rows sz)"
  then show "decode_size bs = Inr sz" by (simp add: decode_size_def ok_or_def le16_inverse)
qed

lemma decode_u32_iff: "decode_u32 bs = Inr w \<longleftrightarrow> bs = le32 w"
proof
  assume "decode_u32 bs = Inr w"
  then show "bs = le32 w" using from_le32_inverse[of bs w]
    by (auto simp: decode_u32_def ok_or_def bind_eq_Some_iff split: option.splits)
next
  assume "bs = le32 w"
  then show "decode_u32 bs = Inr w" by (simp add: decode_u32_def ok_or_def le32_inverse)
qed

lemma decode_session_id_iff: "decode_session_id bs = Inr i \<longleftrightarrow> i \<noteq> 0 \<and> bs = le32 i"
proof (cases "decode_u32 bs")
  case (Inl e)
  then show ?thesis using decode_u32_iff[of bs i] by (simp add: decode_session_id_def)
next
  case (Inr j)
  then show ?thesis using decode_u32_iff[of bs j]
    by (auto simp: decode_session_id_def session_id_from_def ok_or_def)
qed

lemma decode_tie_iff: "decode_tie b = Some t \<longleftrightarrow> b = tie_byte t"
  by (cases t) (auto simp: decode_tie_def)

lemma decode_step_iff: "decode_step b = Some t \<longleftrightarrow> b = step_byte t"
  by (cases t) (auto simp: decode_step_def)

lemma map_result_iff: "map_result f r = Inr y \<longleftrightarrow> (\<exists>x. r = Inr x \<and> f x = y)"
  by (auto simp: map_result_def split: sum.splits)

lemma decode_startup_ok_iff: "decode_startup_ok bs = Inr m \<longleftrightarrow>
    (\<exists>i tie name. m = StartupOk i tie name \<and> i \<noteq> 0 \<and> utf8_valid name \<and> bs = le32 i @ tie_byte tie # name)"
proof
  assume "decode_startup_ok bs = Inr m"
  then obtain t name tie i where d: "4 \<le> length bs" "drop 4 bs = t # name" "decode_tie t = Some tie" "utf8_valid name"
    "decode_session_id (take 4 bs) = Inr i" "m = StartupOk i tie name"
    by (auto simp: decode_startup_ok_def Let_def map_result_iff split: if_splits list.splits option.splits)
  then show "\<exists>i tie name. m = StartupOk i tie name \<and> i \<noteq> 0 \<and> utf8_valid name \<and> bs = le32 i @ tie_byte tie # name"
    using decode_tie_iff decode_session_id_iff by (metis append_take_drop_id)
next
  assume "\<exists>i tie name. m = StartupOk i tie name \<and> i \<noteq> 0 \<and> utf8_valid name \<and> bs = le32 i @ tie_byte tie # name"
  then show "decode_startup_ok bs = Inr m"
    by (auto simp: decode_startup_ok_def Let_def map_result_iff decode_session_id_iff decode_tie_iff[THEN iffD2])
qed

text \<open>The decoder accepts exactly what the encoder writes.\<close>

lemma decode_body_iff: "decode_body k b = Inr m \<longleftrightarrow> message_ok m \<and> encode_payload m = k # b"
proof (cases m)
  case (StartupErr st)
  then show ?thesis
    by (auto simp: decode_body_def decode_rest_def kinds map_result_iff ok_or_iff decode_step_iff decode_startup_ok_iff
        split: list.splits)
qed (auto simp: decode_body_def decode_rest_def kinds map_result_iff ok_or_iff decode_size_iff decode_u32_iff
    decode_session_id_iff decode_startup_ok_iff split: list.splits)

lemma encode_payload_Cons: "\<exists>k b. encode_payload m = k # b"
  by (cases m) auto

section \<open>Frame lemmas\<close>

text \<open>A connection over a byte stream: a read returns at least one and at most the requested number of the
  bytes that remain, or nothing at the end of the stream.\<close>

definition delivers :: "'r reader \<Rightarrow> ('r \<Rightarrow> byte list) \<Rightarrow> bool" where
  "delivers read remaining = (\<forall>n r. 0 < n \<longrightarrow> (\<exists>bs r'. read n r = Inr (bs, r') \<and> length bs \<le> n
     \<and> remaining r = bs @ remaining r' \<and> (bs = [] \<longrightarrow> remaining r = [])))"

lemma fill_spec:
  assumes "delivers read remaining"
  shows "if n \<le> length (remaining r)
    then \<exists>r'. fill read n r = Inr (take n (remaining r), r') \<and> remaining r' = drop n (remaining r)
    else fill read n r = Inl Disconnected"
  using assms
proof (induction read n r rule: fill.induct)
  case (1 read n r)
  show ?case
  proof (cases "n = 0")
    case True
    then show ?thesis by (simp add: fill.simps)
  next
    case False
    then obtain bs r1 where rd: "read n r = Inr (bs, r1)" "length bs \<le> n" "remaining r = bs @ remaining r1"
      "bs = [] \<Longrightarrow> remaining r = []" using 1(2) unfolding delivers_def by (metis neq0_conv)
    show ?thesis
    proof (cases "bs = []")
      case True
      then show ?thesis using False rd by (simp add: fill.simps)
    next
      case bs: False
      have "if n - length bs \<le> length (remaining r1)
        then \<exists>r'. fill read (n - length bs) r1 = Inr (take (n - length bs) (remaining r1), r')
          \<and> remaining r' = drop (n - length bs) (remaining r1)
        else fill read (n - length bs) r1 = Inl Disconnected"
        using 1(1)[OF False rd(1) refl bs _ 1(2)] rd(2) by simp
      note rest = this
      have step: "fill read n r = (case fill read (n - length bs) r1 of
          Inl e \<Rightarrow> Inl e | Inr (later, r) \<Rightarrow> Inr (bs @ later, r))"
        using False rd bs by (simp add: fill.simps[of read n r])
      show ?thesis
      proof (cases "n \<le> length (remaining r)")
        case True
        then obtain r' where "fill read (n - length bs) r1 = Inr (take (n - length bs) (remaining r1), r')"
          "remaining r' = drop (n - length bs) (remaining r1)" using rest rd(3) by (auto split: if_splits)
        then show ?thesis using True rd step by simp
      next
        case False
        then show ?thesis using rest rd step by (auto split: if_splits)
      qed
    qed
  qed
qed

lemma fill_enough:
  assumes "delivers read remaining" "n \<le> length (remaining r)"
  obtains r' where "fill read n r = Inr (take n (remaining r), r')" "remaining r' = drop n (remaining r)"
  using fill_spec[OF assms(1), of n r] assms(2) by auto

lemma fill_short: "delivers read remaining \<Longrightarrow> length (remaining r) < n \<Longrightarrow> fill read n r = Inl Disconnected"
  using fill_spec[of read remaining n r] by simp

lemma from_le32_take: "4 \<le> length bs \<Longrightarrow> \<exists>len. from_le32 (take 4 bs) = Some len \<and> take 4 bs = le32 len"
  using from_le_total(1)[of "take 4 bs"] from_le32_inverse by fastforce

text \<open>What the reader does with the bytes that remain, however they are delivered.\<close>

definition frame_outcome :: "byte list \<Rightarrow> pal_error + message \<times> byte list" where
  "frame_outcome bs =
     (if length bs < 4 then Inl Disconnected
      else let len = the (from_le32 (take 4 bs)) in
        if \<not> payload_len_ok len then Inl OtherError
        else if length bs < 4 + unat len then Inl Disconnected
        else (case decode_body (bs ! 4) (take (unat len - 1) (drop 5 bs)) of
            Inl _ \<Rightarrow> Inl OtherError
          | Inr m \<Rightarrow> Inr (m, drop (4 + unat len) bs)))"

lemma read_frame_outcome:
  assumes d: "delivers read remaining"
  shows "map_result (map_prod (\<lambda>m. m) remaining) (read_frame read r) = frame_outcome (remaining r)"
proof (cases "length (remaining r) < 4")
  case True
  then show ?thesis by (simp add: read_frame_def fill_short[OF d] frame_outcome_def map_result_def)
next
  case False
  then have "4 \<le> length (remaining r)" by simp
  from fill_enough[OF d this] obtain r1 where f1: "fill read 4 r = Inr (take 4 (remaining r), r1)"
    "remaining r1 = drop 4 (remaining r)" .
  define len where "len = the (from_le32 (take 4 (remaining r)))"
  consider "\<not> payload_len_ok len" | "payload_len_ok len" "length (remaining r1) < 1"
    | "payload_len_ok len" "1 \<le> length (remaining r1)" by linarith
  then show ?thesis
  proof cases
    case 3
    from fill_enough[OF d this(2)] obtain r2 where f2: "fill read 1 r1 = Inr (take 1 (remaining r1), r2)"
      "remaining r2 = drop 1 (remaining r1)" .
    have kind: "hd (take 1 (remaining r1)) = remaining r ! 4" using 3(2) f1(2) by (simp add: hd_conv_nth)
    show ?thesis
    proof (cases "unat len - 1 \<le> length (remaining r2)")
      case True
      from fill_enough[OF d this] obtain r3 where f3:
        "fill read (unat len - 1) r2 = Inr (take (unat len - 1) (remaining r2), r3)"
        "remaining r3 = drop (unat len - 1) (remaining r2)" .
      show ?thesis using False 3 f1 f2 f3 True kind
        by (auto simp: read_frame_def frame_outcome_def map_result_def Let_def payload_len_ok_def add.commute
            simp flip: len_def split: sum.splits)
    next
      case short: False
      then have "fill read (unat len - 1) r2 = Inl Disconnected" using fill_short[OF d] by simp
      then show ?thesis using False 3 f1 f2 short
        by (auto simp: read_frame_def frame_outcome_def map_result_def Let_def payload_len_ok_def simp flip: len_def)
    qed
  qed (use False f1 fill_short[OF d] in
      \<open>auto simp: read_frame_def frame_outcome_def map_result_def Let_def payload_len_ok_def simp flip: len_def\<close>)
qed

lemma frame_outcome_accepts: "frame_outcome bs = Inr (m, rest) \<longleftrightarrow>
    message_ok m \<and> length (encode_payload m) \<le> MAX_FRAME_LEN \<and> (\<exists>f. encode_into m = Some f \<and> bs = f @ rest)"
    (is "?l \<longleftrightarrow> ?r")
proof
  assume l: ?l
  then have n: "4 \<le> length bs" by (simp add: frame_outcome_def split: if_splits)
  then obtain len where len: "from_le32 (take 4 bs) = Some len" "take 4 bs = le32 len" using from_le32_take by blast
  from l n len(1) have ok: "payload_len_ok len" "4 + unat len \<le> length bs" "rest = drop (4 + unat len) bs"
    and "decode_body (bs ! 4) (take (unat len - 1) (drop 5 bs)) = Inr m"
    by (simp_all add: frame_outcome_def Let_def split: if_splits sum.splits)
  then have m: "message_ok m" "encode_payload m = bs ! 4 # take (unat len - 1) (drop 5 bs)"
    by (auto simp: decode_body_iff)
  have "drop 4 bs = bs ! 4 # drop 5 bs" "unat len = Suc (unat len - 1)" using ok Cons_nth_drop_Suc[of 4 bs]
    by (simp_all add: payload_len_ok_def)
  then have pay: "encode_payload m = take (unat len) (drop 4 bs)" using m(2) by (metis take_Suc_Cons)
  then have n: "length (encode_payload m) = unat len" using ok by simp
  then have "encode_into m = Some (le32 len @ encode_payload m)" using ok
    by (simp add: encode_into_def payload_len_ok_def MAX_FRAME_LEN_def)
  moreover have "drop (4 + unat len) bs = drop (unat len) (drop 4 bs)" by (simp add: add.commute)
  then have "bs = (le32 len @ encode_payload m) @ rest"
    unfolding len(2)[symmetric] pay ok(3) append_assoc by (metis append_take_drop_id)
  moreover have "length (encode_payload m) \<le> MAX_FRAME_LEN" using n ok(1) by (simp add: payload_len_ok_def)
  ultimately show ?r using m(1) by blast
next
  assume ?r
  then obtain f where r: "message_ok m" "length (encode_payload m) \<le> MAX_FRAME_LEN" "encode_into m = Some f" "bs = f @ rest"
    by blast
  obtain k b where kb: "encode_payload m = k # b" using encode_payload_Cons by blast
  define len :: "32 word" where "len = of_nat (length (encode_payload m))"
  have "unat len = length (encode_payload m)" using r(2) by (simp add: len_def MAX_FRAME_LEN_def unat_of_nat)
  then have len: "unat len = Suc (length b)" "payload_len_ok len" using r(2) kb by (auto simp: payload_len_ok_def)
  have bs: "bs = le32 len @ k # b @ rest" using r kb by (auto simp: encode_into_def bind_eq_Some_iff len_def)
  have "decode_body k b = Inr m" using r(1) kb by (simp add: decode_body_iff)
  then show ?l using len le32_inverse[of len]
    by (simp add: bs frame_outcome_def nth_append)
qed

lemma frame_read_iff:
  assumes "delivers read remaining"
  shows "(\<exists>r'. read_frame read r = Inr (m, r') \<and> remaining r' = rest) \<longleftrightarrow>
    frame_outcome (remaining r) = Inr (m, rest)"
  by (subst read_frame_outcome[OF assms, symmetric]) (auto simp: map_result_def split: sum.splits)

lemma frame_error_iff:
  assumes "delivers read remaining"
  shows "read_frame read r = Inl e \<longleftrightarrow> frame_outcome (remaining r) = Inl e"
  by (subst read_frame_outcome[OF assms, symmetric]) (auto simp: map_result_def split: sum.splits)

section \<open>Properties\<close>

text \<open>A connection that holds the bytes still to come and the sizes its next reads return.\<close>

fun chunked_read :: "(byte list \<times> nat list) reader" where
  "chunked_read n (bs, []) = Inr (take n bs, (drop n bs, []))"
| "chunked_read n (bs, c # cs) = (let k = min n (Suc c) in Inr (take k bs, (drop k bs, cs)))"

lemma chunked_delivers: "delivers chunked_read fst"
  unfolding delivers_def
proof (intro allI impI)
  fix n :: nat and r :: "byte list \<times> nat list"
  assume "0 < n"
  then show "\<exists>bs r'. chunked_read n r = Inr (bs, r') \<and> length bs \<le> n \<and> fst r = bs @ fst r' \<and> (bs = [] \<longrightarrow> fst r = [])"
    by (cases "(n, r)" rule: chunked_read.cases) (auto simp: Let_def)
qed

text \<open>C13: reading a frame returns a message, leaving exactly the rest of the stream, if and only if the stream
  begins with that message's encoding, its values are ones the types allow and its payload is within the frame
  cap - however the connection splits the bytes over its reads. Encoding and reading are inverse on frames, and no
  other byte string is accepted.\<close>

theorem frame_read_exact:
  assumes "delivers read remaining"
  shows "(\<exists>r'. read_frame read r = Inr (m, r') \<and> remaining r' = rest) \<longleftrightarrow>
    message_ok m \<and> length (encode_payload m) \<le> MAX_FRAME_LEN
    \<and> (\<exists>f. encode_into m = Some f \<and> remaining r = f @ rest)"
  by (simp add: frame_read_iff[OF assms] frame_outcome_accepts)

theorem frame_read_exact_witness:
  "\<exists>r'. read_frame chunked_read ([5, 0, 0, 0, 1, 80, 0, 24, 0, 9, 9], [1, 0, 2]) = Inr (Attach \<lparr>cols = 80, rows = 24\<rparr>, r')
     \<and> fst r' = [9, 9]"
  by (subst frame_read_exact[OF chunked_delivers]) (simp add: window_size_new_def MAX_DIMENSION_def KIND_ATTACH_def
      MAX_FRAME_LEN_def encode_into_def le16_def le32_def)

text \<open>the reader reports a disconnect exactly when the stream ends inside the length prefix or before the
  payload that an acceptable prefix announces; it never reads past an unacceptable prefix.\<close>

theorem frame_disconnect_iff:
  assumes "delivers read remaining"
  shows "read_frame read r = Inl Disconnected \<longleftrightarrow>
    length (remaining r) < 4
    \<or> (\<exists>len rest. remaining r = le32 len @ rest \<and> payload_len_ok len \<and> length rest < unat len)"
proof (cases "length (remaining r) < 4")
  case True
  then show ?thesis by (simp add: frame_error_iff[OF assms] frame_outcome_def)
next
  case False
  then obtain len where len: "from_le32 (take 4 (remaining r)) = Some len" "take 4 (remaining r) = le32 len"
    using from_le32_take by (metis not_less)
  then have eq: "remaining r = le32 len @ drop 4 (remaining r)" by (metis append_take_drop_id)
  then have "(\<exists>l rest. remaining r = le32 l @ rest \<and> payload_len_ok l \<and> length rest < unat l) \<longleftrightarrow>
      payload_len_ok len \<and> length (remaining r) < 4 + unat len"
    by (metis (no_types, lifting) append_eq_append_conv le32_inject length_append length_le(2) nat_add_left_cancel_less)
  then show ?thesis using False len(1)
    by (auto simp: frame_error_iff[OF assms] frame_outcome_def split: sum.splits)
qed

theorem frame_disconnect_iff_witness: "read_frame chunked_read ([3, 0, 0, 0, 2, 65], [0, 0, 0]) = Inl Disconnected"
  by (subst frame_disconnect_iff[OF chunked_delivers])
    (auto simp: payload_len_ok_def MAX_FRAME_LEN_def le32_def intro!: exI[of _ "3 :: 32 word"])

end
