(* ===== verification/DureOutbox.thy ===== *)
theory DureOutbox
  imports DureProtocol "HOL-Library.Sublist"
begin

text \<open>
  Package \<open>dure\<close>, \<open>outbox.rs\<close>: the queued write side of one client connection. The lock makes every operation
  atomic; the writer thread takes a message under the lock and writes it outside of it. What the transport
  answers is the argument of the writer's step.

  The fields \<open>accepted\<close>, \<open>taken\<close>, \<open>written\<close> and \<open>broken\<close> are history only: no operation reads them. \<open>crashed\<close> is
  what the join of the writer thread reports: that it ended in a panic of the transport.
\<close>

section \<open>Operations\<close>

definition MAX_CLIENT_BACKLOG_BYTES :: nat where
  "MAX_CLIENT_BACKLOG_BYTES = 4 * 1024 * 1024"

fun payload_len :: "message \<Rightarrow> nat" where
  "payload_len (Output data) = length data"
| "payload_len (Input data) = length data"
| "payload_len m = 0"

definition saturating_add :: "usize \<Rightarrow> usize \<Rightarrow> usize" where
  "saturating_add a b = min (a + b) (usize_range - 1)"

datatype writer_pc = WTake | WSend message | WClose | WStopped

record outbox =
  box_conn :: nat
  queued :: "message list"
  pending_bytes :: usize
  abandoned :: bool
  box_finished :: bool
  writer :: writer_pc
  accepted :: "message list"
  taken :: "message list"
  written :: "message list"
  broken :: bool
  crashed :: bool

definition outbox_start :: "nat \<Rightarrow> outbox" where
  "outbox_start conn =
     \<lparr>box_conn = conn, queued = [], pending_bytes = 0, abandoned = False, box_finished = False, writer = WTake,
      accepted = [], taken = [], written = [], broken = False, crashed = False\<rparr>"

text \<open>\<open>send\<close>, up to the release of the lock; the flag says that it goes on to abandon the client.\<close>

definition outbox_send :: "message \<Rightarrow> outbox \<Rightarrow> outbox \<times> bool" where
  "outbox_send m b =
     (if abandoned b \<or> box_finished b then (b, False)
      else let b = b\<lparr>pending_bytes := saturating_add (pending_bytes b) (payload_len m), queued := queued b @ [m],
                     accepted := accepted b @ [m]\<rparr>
        in (b, MAX_CLIENT_BACKLOG_BYTES < pending_bytes b))"

text \<open>\<open>abandon\<close>, up to the release of the lock; the flag says that it goes on to disconnect.\<close>

definition outbox_abandon :: "outbox \<Rightarrow> outbox \<times> bool" where
  "outbox_abandon b =
     (if abandoned b then (b, False) else (b\<lparr>abandoned := True, queued := [], pending_bytes := 0\<rparr>, True))"

definition outbox_finish :: "outbox \<Rightarrow> outbox" where
  "outbox_finish b = b\<lparr>box_finished := True\<rparr>"

text \<open>\<open>None\<close> is a wait for the condition variable.\<close>

definition take_next :: "outbox \<Rightarrow> (outbox \<times> message option) option" where
  "take_next b =
     (if abandoned b then Some (b, None)
      else case queued b of
          m # ms \<Rightarrow> Some (b\<lparr>queued := ms, pending_bytes := pending_bytes b - payload_len m, taken := taken b @ [m]\<rparr>, Some m)
        | [] \<Rightarrow> if box_finished b then Some (b, None) else None)"

datatype wire_result = Sent | Refused | Crashed

text \<open>A step of the writer, with the result of its call of the transport: \<open>write_loop\<close> until it has disconnected.
  A panic of the transport ends the thread, and whoever joins it.\<close>

definition writer_step :: "wire_result \<Rightarrow> outbox \<Rightarrow> outbox option" where
  "writer_step res b =
     (case writer b of
        WTake \<Rightarrow> (case take_next b of
            None \<Rightarrow> None
          | Some (b, None) \<Rightarrow> Some (b\<lparr>writer := WClose\<rparr>)
          | Some (b, Some m) \<Rightarrow> Some (b\<lparr>writer := WSend m\<rparr>))
      | WSend m \<Rightarrow> (case res of
            Sent \<Rightarrow> Some (b\<lparr>written := written b @ [m], writer := WTake\<rparr>)
          | Refused \<Rightarrow> Some (b\<lparr>broken := True, writer := WClose\<rparr>)
          | Crashed \<Rightarrow> Some (b\<lparr>broken := True, crashed := True, writer := WStopped\<rparr>))
      | WClose \<Rightarrow> Some (b\<lparr>writer := WStopped\<rparr>)
      | WStopped \<Rightarrow> None)"

section \<open>Invariant\<close>

definition backlog :: "message list \<Rightarrow> nat" where
  "backlog ms = sum_list (map payload_len ms)"

lemma backlog_simps [simp]: "backlog [] = 0" "backlog (m # ms) = payload_len m + backlog ms"
    "backlog (ms @ ms') = backlog ms + backlog ms'"
  by (simp_all add: backlog_def)

fun writer_agrees :: "writer_pc \<Rightarrow> outbox \<Rightarrow> bool" where
  "writer_agrees WTake b = (taken b = written b)"
| "writer_agrees (WSend m) b = (taken b = written b @ [m])"
| "writer_agrees pc b =
     (prefix (written b) (taken b) \<and> (abandoned b \<or> broken b \<or> box_finished b \<and> written b = accepted b))"

definition outbox_ok :: "outbox \<Rightarrow> bool" where
  "outbox_ok b =
     (prefix (taken b) (accepted b) \<and> (if abandoned b then queued b = [] else accepted b = taken b @ queued b)
      \<and> pending_bytes b \<le> backlog (queued b) \<and> writer_agrees (writer b) b)"

lemma outbox_ok_start: "outbox_ok (outbox_start c)"
  by (simp add: outbox_ok_def outbox_start_def)

lemma writer_agrees_send:
  "writer_agrees pc b \<Longrightarrow> \<not> box_finished b \<Longrightarrow> \<not> abandoned b
    \<Longrightarrow> writer_agrees pc (b\<lparr>pending_bytes := k, queued := ms, accepted := ms'\<rparr>)"
  by (cases pc) auto

lemma outbox_ok_send: "outbox_ok b \<Longrightarrow> outbox_ok (fst (outbox_send m b))"
  by (auto simp: outbox_ok_def outbox_send_def Let_def saturating_add_def writer_agrees_send)

lemma outbox_ok_abandon: "outbox_ok b \<Longrightarrow> outbox_ok (fst (outbox_abandon b))"
  by (cases "writer b") (auto simp: outbox_ok_def outbox_abandon_def)

lemma outbox_ok_finish: "outbox_ok b \<Longrightarrow> outbox_ok (outbox_finish b)"
  by (cases "writer b") (auto simp: outbox_ok_def outbox_finish_def)

lemma outbox_ok_writer:
  assumes "outbox_ok b" "writer_step res b = Some b'"
  shows "outbox_ok b'"
  using assms
  by (cases "writer b")
    (auto simp: outbox_ok_def writer_step_def take_next_def split: if_splits list.splits wire_result.splits)

lemma outbox_send_overflow:
  "outbox_ok b \<Longrightarrow> snd (outbox_send m b) \<Longrightarrow> MAX_CLIENT_BACKLOG_BYTES < backlog (queued (fst (outbox_send m b)))"
  using outbox_ok_send[of b m] by (auto simp: outbox_ok_def outbox_send_def Let_def split: if_splits)

text \<open>The history only grows, and not at all once the outbox is finished or abandoned.\<close>

lemma outbox_send_accepted: "accepted (fst (outbox_send m b)) =
    accepted b @ (if abandoned b \<or> box_finished b then [] else [m])"
  by (simp add: outbox_send_def Let_def)

lemma outbox_send_simps [simp]:
  "abandoned (fst (outbox_send m b)) = abandoned b" "box_finished (fst (outbox_send m b)) = box_finished b"
  "box_conn (fst (outbox_send m b)) = box_conn b"
  by (simp_all add: outbox_send_def Let_def)

lemma outbox_abandon_simps [simp]:
  "abandoned (fst (outbox_abandon b))" "box_finished (fst (outbox_abandon b)) = box_finished b"
  "accepted (fst (outbox_abandon b)) = accepted b" "box_conn (fst (outbox_abandon b)) = box_conn b"
  by (simp_all add: outbox_abandon_def)

lemma outbox_finish_simps [simp]:
  "abandoned (outbox_finish b) = abandoned b" "box_finished (outbox_finish b)"
  "accepted (outbox_finish b) = accepted b" "box_conn (outbox_finish b) = box_conn b"
  by (simp_all add: outbox_finish_def)

lemma writer_step_keeps:
  assumes "writer_step res b = Some b'"
  shows "abandoned b' = abandoned b" "box_finished b' = box_finished b" "accepted b' = accepted b"
    "box_conn b' = box_conn b"
  using assms
  by (auto simp: writer_step_def take_next_def split: writer_pc.splits if_splits list.splits wire_result.splits)

section \<open>Histories of one outbox\<close>

datatype outbox_event = Post message | GiveUp | Seal | Write wire_result

text \<open>An event that cannot happen leaves the outbox alone: a writer that waits or has stopped.\<close>

fun outbox_react :: "outbox_event \<Rightarrow> outbox \<Rightarrow> outbox" where
  "outbox_react (Post m) b = fst (outbox_send m b)"
| "outbox_react GiveUp b = fst (outbox_abandon b)"
| "outbox_react Seal b = outbox_finish b"
| "outbox_react (Write res) b = (case writer_step res b of None \<Rightarrow> b | Some b' \<Rightarrow> b')"

lemma outbox_ok_event: "outbox_ok b \<Longrightarrow> outbox_ok (outbox_react ev b)"
  by (cases ev) (auto simp: outbox_ok_send outbox_ok_abandon outbox_ok_finish outbox_ok_writer split: option.splits)

lemma outbox_ok_events: "outbox_ok b \<Longrightarrow> outbox_ok (fold outbox_react evs b)"
  by (induction evs arbitrary: b) (auto simp: outbox_ok_event)

text \<open>whatever the senders, the one who gives up and the transport do and in whatever order, the messages written
  to the connection are a prefix of the messages accepted, in the order they were accepted; and a writer that has
  stopped although nobody gave up and no write failed has written every one of them.\<close>

theorem outbox_delivers_in_order:
  "let b = fold outbox_react evs (outbox_start conn) in
     prefix (written b) (accepted b)
     \<and> (writer b = WStopped \<and> \<not> abandoned b \<and> \<not> broken b \<longrightarrow> written b = accepted b)"
proof -
  define b where "b = fold outbox_react evs (outbox_start conn)"
  have "outbox_ok b" unfolding b_def by (rule outbox_ok_events[OF outbox_ok_start])
  then show ?thesis unfolding outbox_ok_def b_def[symmetric] Let_def
    by (cases "writer b") (auto intro: prefix_order.trans dest: append_prefixD)
qed

theorem outbox_delivers_in_order_witness:
  "written (fold outbox_react [Post Displaced, Write Sent, Post (Output [1]), Write Sent, Seal, Write Sent, Write Sent,
     Write Sent, Write Sent] (outbox_start 7)) = [Displaced, Output [1]]"
  using outbox_delivers_in_order[of "[Post Displaced, Write Sent, Post (Output [1]), Write Sent, Seal, Write Sent,
    Write Sent, Write Sent, Write Sent]" 7]
  by (simp add: outbox_start_def outbox_send_def outbox_finish_def writer_step_def take_next_def saturating_add_def
      usize_range_def MAX_CLIENT_BACKLOG_BYTES_def)

text \<open>What the writer still has to do once no more messages come.\<close>

definition writer_work :: "outbox \<Rightarrow> nat" where
  "writer_work b = 2 * length (queued b) + (case writer b of WTake \<Rightarrow> 2 | WSend m \<Rightarrow> 3 | WClose \<Rightarrow> 1 | WStopped \<Rightarrow> 0)"

lemma writer_progress:
  assumes "abandoned b \<or> box_finished b" "writer b \<noteq> WStopped"
  shows "\<exists>b'. writer_step res b = Some b' \<and> writer_work b' < writer_work b \<and> (abandoned b' \<or> box_finished b')"
  using assms
  by (cases "writer b"; cases "queued b"; cases res) (auto simp: writer_step_def take_next_def writer_work_def)

lemma writer_stays_stopped: "writer b = WStopped \<Longrightarrow> fold (\<lambda>res. outbox_react (Write res)) rs b = b"
  by (induction rs) (simp_all add: writer_step_def)

lemma writer_ends_within:
  assumes "abandoned b \<or> box_finished b" "writer_work b \<le> length rs"
  shows "writer (fold (\<lambda>res. outbox_react (Write res)) rs b) = WStopped"
  using assms
proof (induction rs arbitrary: b)
  case Nil
  then show ?case by (cases "writer b") (auto simp: writer_work_def)
next
  case (Cons res rs)
  show ?case
  proof (cases "writer b = WStopped")
    case True
    then show ?thesis using writer_stays_stopped[OF True, of "res # rs"] by metis
  next
    case False
    then obtain b' where "writer_step res b = Some b'" "writer_work b' < writer_work b" "abandoned b' \<or> box_finished b'"
      using writer_progress[OF Cons.prems(1)] by blast
    then show ?thesis using Cons by simp
  qed
qed

text \<open>once the outbox is finished or abandoned its writer ends after at most two steps per queued message and
  three more, whatever the transport answers: waiting for the writer returns.\<close>

theorem outbox_writer_ends:
  assumes "abandoned b \<or> box_finished b" "2 * length (queued b) + 3 \<le> length rs"
  shows "writer (fold (\<lambda>res. outbox_react (Write res)) rs b) = WStopped"
proof (rule writer_ends_within[OF assms(1)])
  show "writer_work b \<le> length rs" using assms(2) by (cases "writer b") (auto simp: writer_work_def)
qed

theorem outbox_writer_ends_witness:
  "writer (fold (\<lambda>res. outbox_react (Write res)) [Sent, Sent, Refused, Sent, Sent]
     (outbox_finish (fst (outbox_send Displaced (outbox_start 7))))) = WStopped"
  by (rule outbox_writer_ends) (simp_all add: outbox_send_def outbox_start_def outbox_finish_def Let_def)

end
