(* ===== verification/DureSession.thy ===== *)
theory DureSession
  imports DureOutbox
begin

text \<open>
  Package \<open>dure\<close>, \<open>supervisor/ownership.rs\<close>, \<open>supervisor/shared.rs\<close>, \<open>supervisor/relay.rs\<close> and
  \<open>supervisor/record_writer.rs\<close>: the threads of a live session and what they share, as a transition system.

  Threads: one relay per connection (\<open>client_loop\<close> with the transactions \<open>attach_client\<close>, \<open>apply_client_message\<close>
  and \<open>detach_client\<close>), the accept loop, the output pump, the wait for the initiator, the teardown in \<open>serve\<close>, the
  record writer and one outbox writer per attached connection. A step is one atomic access, one critical section
  that makes no call, or one call into an outbox; the attach lock and the client lock are held over several steps
  where the code holds them over calls: an attach over the messages it opens with, an applied message over the call of
  the console, which may take as long as the platform likes. The argument of a step is what the platform answers: the transport, the
  pseudoconsole, the processes and the store are not under this model's control.

  A disconnect is taken to return: it reports no error, and the code relies on it not to panic where it joins the pump.
  Every other call of the platform may panic where the code provides for it; a writer thread that panicked makes the
  teardown that waits for it panic too.

  \<open>app_log\<close>, \<open>routed\<close> and \<open>opened_with\<close> are history only; an applied message is logged when its call starts. The generation is a natural number: the code's \<open>u64\<close>
  panics when the process has changed owners that often.
\<close>

section \<open>State\<close>

type_synonym conn = nat
type_synonym box_id = nat

text \<open>Calls into an outbox. One that overflows goes on to abandon, one that abandons to disconnect.\<close>

datatype outbox_call = Send box_id message | Abandon box_id | HangUp box_id | Finish box_id

datatype client_pc =
    CNew | CRecv | CRefuse
  | CLock window_size | CCheck window_size | CStart window_size | CClosePanic
  | CSlot window_size box_id | CTake window_size box_id | CReplace window_size box_id
  | CNote window_size box_id "box_id option" nat | CResize window_size box_id nat
  | CPublish nat | CLoop | CApply message | CApplying
  | CDetach bool | CPublishOff nat | CHangUp | CDone
  | CCalls "outbox_call list" client_pc

datatype pump_pc = PCheck | PRead | PRoute "byte list" | PCalls "outbox_call list" | PEnd bool

datatype main_pc =
    MWait | MGate "32 word option" | MAwait "32 word option" | MJoin "32 word option"
  | MLock "32 word option" bool | MStop "32 word option" bool | MTake "32 word option" bool
  | MCalls "32 word option" bool "outbox_call list" "box_id option"
  | MRecord "32 word option" bool "box_id option" | MJoinRecord "32 word option" bool "box_id option"
  | MDelete "32 word option" bool "box_id option" | MAwaitWriter "32 word option" bool bool "box_id option"
  | MDone "32 word option" | MPanicked

datatype acceptor_pc = ACheck | AAccept | ADone

datatype record_command = SetAttached nat bool | StopRecord

datatype recorder_pc = RRecv | RCheck nat bool | RStore nat bool | RStopped

datatype holder = HClient conn | HMain

datatype app_event = Owns conn | Released | Typed conn "byte list" | Resized conn window_size

record session =
  boxes :: "outbox list"
  slot :: "(conn \<times> box_id) option"
  slot_lock :: "conn option"
  attach_lock :: "holder option"
  attached_generation :: nat
  preamble :: "byte list option"
  claimed :: bool
  initiator_gone :: bool
  stopping :: bool
  clients :: "conn \<Rightarrow> client_pc"
  pump :: pump_pc
  main :: main_pc
  acceptor :: acceptor_pc
  recorder :: recorder_pc
  updates :: "record_command list"
  record_attached :: bool
  store_failed :: bool
  hung_up :: "conn list"
  app_log :: "app_event list"
  routed :: "(box_id option \<times> byte list) list"
  opened_with :: "(box_id \<times> byte list) option"

definition session_new :: session where
  "session_new =
     \<lparr>boxes = [], slot = None, slot_lock = None, attach_lock = None, attached_generation = 0, preamble = Some [],
      claimed = False, initiator_gone = False, stopping = False, clients = (\<lambda>_. CNew), pump = PCheck, main = MWait,
      acceptor = ACheck, recorder = RRecv, updates = [], record_attached = False, store_failed = False, hung_up = [],
      app_log = [], routed = [], opened_with = None\<rparr>"

text \<open>What the platform answers.\<close>

datatype answer = Ret | Err | Panic | Msg message | Burst "byte list" | Eof | Exit "32 word" | Conn conn

section \<open>Shared operations\<close>

definition MAX_OUTPUT_CHUNK_BYTES :: nat where
  "MAX_OUTPUT_CHUNK_BYTES = MAX_FRAME_LEN - 1"

fun chunks :: "nat \<Rightarrow> 'a list \<Rightarrow> 'a list list" where
  "chunks n xs = (if n = 0 \<or> xs = [] then [] else take n xs # chunks n (drop n xs))"

declare chunks.simps [simp del]

definition preamble_messages :: "byte list \<Rightarrow> message list" where
  "preamble_messages held = map Output (chunks MAX_OUTPUT_CHUNK_BYTES held)"

text \<open>Output from before the first attach, up to the backlog cap; nothing once it has been taken.\<close>

definition hold_for_first_client :: "byte list \<Rightarrow> session \<Rightarrow> session" where
  "hold_for_first_client bytes s =
     (case preamble s of
        None \<Rightarrow> s
      | Some held \<Rightarrow> s\<lparr>preamble := Some (held @ take (MAX_CLIENT_BACKLOG_BYTES - length held) bytes)\<rparr>)"

definition take_preamble :: "session \<Rightarrow> byte list option \<times> session" where
  "take_preamble s =
     ((case preamble s of Some held \<Rightarrow> if held = [] then None else Some held | None \<Rightarrow> None), s\<lparr>preamble := None\<rparr>)"

definition next_attached_generation :: "session \<Rightarrow> nat" where
  "next_attached_generation s = Suc (attached_generation s)"

definition disconnect :: "conn \<Rightarrow> session \<Rightarrow> session" where
  "disconnect c s = s\<lparr>hung_up := hung_up s @ [c]\<rparr>"

text \<open>One call into an outbox and what it leaves to be called.\<close>

fun run_call :: "outbox_call \<Rightarrow> session \<Rightarrow> session \<times> outbox_call list" where
  "run_call (Send i m) s =
     (let (b, overflowed) = outbox_send m (boxes s ! i)
      in (s\<lparr>boxes := (boxes s)[i := b]\<rparr>, if overflowed then [Abandon i] else []))"
| "run_call (Abandon i) s =
     (let (b, first) = outbox_abandon (boxes s ! i)
      in (s\<lparr>boxes := (boxes s)[i := b]\<rparr>, if first then [HangUp i] else []))"
| "run_call (HangUp i) s = (disconnect (box_conn (boxes s ! i)) s, [])"
| "run_call (Finish i) s = (s\<lparr>boxes := (boxes s)[i := outbox_finish (boxes s ! i)]\<rparr>, [])"

section \<open>The relay of a connection\<close>

definition relay_goto :: "conn \<Rightarrow> client_pc \<Rightarrow> session \<Rightarrow> session" where
  "relay_goto c pc s = s\<lparr>clients := (clients s)(c := pc)\<rparr>"

definition owns :: "conn \<Rightarrow> session \<Rightarrow> bool" where
  "owns c s = (map_option fst (slot s) = Some c)"

definition release_attach :: "session \<Rightarrow> session" where
  "release_attach s = s\<lparr>attach_lock := None\<rparr>"

definition log_app :: "app_event \<Rightarrow> session \<Rightarrow> session" where
  "log_app ev s = s\<lparr>app_log := app_log s @ [ev]\<rparr>"

text \<open>\<open>client_loop\<close> up to a valid \<open>Attach\<close>.\<close>

fun recv_step :: "conn \<Rightarrow> answer \<Rightarrow> session \<Rightarrow> session option" where
  "recv_step c (Msg (Attach sz)) s = Some (relay_goto c (CLock sz) s)"
| "recv_step c (Msg m) s = Some (relay_goto c CRefuse s)"
| "recv_step c Err s = Some (relay_goto c CRefuse s)"
| "recv_step c Panic s = Some (relay_goto c (CDetach True) s)"
| "recv_step c res s = None"

text \<open>\<open>attach_client\<close>. A panic of \<open>Outbox::start\<close> or of the resize releases the attach lock first.\<close>

definition attach_step :: "32 word \<Rightarrow> conn \<Rightarrow> answer \<Rightarrow> client_pc \<Rightarrow> session \<Rightarrow> session option" where
  "attach_step sid c res pc s =
     (case pc of
        CLock sz \<Rightarrow> if attach_lock s = None then Some (relay_goto c (CCheck sz) (s\<lparr>attach_lock := Some (HClient c)\<rparr>)) else None
      | CCheck sz \<Rightarrow> Some (if stopping s then relay_goto c CRefuse (release_attach s) else relay_goto c (CStart sz) s)
      | CStart sz \<Rightarrow> (case res of
            Ret \<Rightarrow> Some (relay_goto c (CSlot sz (length (boxes s))) (s\<lparr>boxes := boxes s @ [outbox_start c]\<rparr>))
          | Panic \<Rightarrow> Some (relay_goto c CClosePanic (release_attach s))
          | _ \<Rightarrow> None)
      | CSlot sz i \<Rightarrow>
          if slot_lock s = None
          then Some (relay_goto c (CCalls [Send i (Attached sid)] (CTake sz i)) (s\<lparr>slot_lock := Some c\<rparr>))
          else None
      | CTake sz i \<Rightarrow>
          (let (held, s) = take_preamble s;
               messages = (case held of None \<Rightarrow> [] | Some held \<Rightarrow> preamble_messages held);
               s = (case held of None \<Rightarrow> s | Some held \<Rightarrow> s\<lparr>opened_with := Some (i, held)\<rparr>)
           in Some (relay_goto c (CCalls (map (Send i) messages) (CReplace sz i)) s))
      | CReplace sz i \<Rightarrow>
          (let g = next_attached_generation s
           in Some (relay_goto c (CNote sz i (map_option snd (slot s)) g)
                (log_app (Owns c) (s\<lparr>slot := Some (c, i), attached_generation := g, slot_lock := None\<rparr>))))
      | CNote sz i old g \<Rightarrow>
          Some (relay_goto c (CCalls (case old of None \<Rightarrow> [] | Some j \<Rightarrow> [Send j Displaced, Finish j]) (CResize sz i g))
            (s\<lparr>claimed := True\<rparr>))
      | CResize sz i g \<Rightarrow>
          (let s' = release_attach (log_app (Resized c sz) s)
           in case res of
                Panic \<Rightarrow> Some (relay_goto c (CCalls [Abandon i] (CDetach True)) s')
              | Ret \<Rightarrow> Some (relay_goto c (CPublish g) s')
              | Err \<Rightarrow> Some (relay_goto c (CPublish g) s')
              | _ \<Rightarrow> None)
      | _ \<Rightarrow> None)"

text \<open>\<open>apply_client_message\<close>: the check of the owner, which takes the client lock, and the end of the call of the
  console, which holds it until then.\<close>

definition apply_step :: "conn \<Rightarrow> message \<Rightarrow> session \<Rightarrow> session option" where
  "apply_step c m s =
     (if slot_lock s \<noteq> None then None
      else if \<not> owns c s then Some (relay_goto c (CDetach False) s)
      else case m of
          Input data \<Rightarrow> Some (relay_goto c CApplying (log_app (Typed c data) (s\<lparr>slot_lock := Some c\<rparr>)))
        | Resize sz \<Rightarrow> Some (relay_goto c CApplying (log_app (Resized c sz) (s\<lparr>slot_lock := Some c\<rparr>)))
        | _ \<Rightarrow> Some (relay_goto c (CDetach False) s))"

definition applied_step :: "conn \<Rightarrow> answer \<Rightarrow> session \<Rightarrow> session option" where
  "applied_step c res s =
     (let s = s\<lparr>slot_lock := None\<rparr> in
      case res of
        Ret \<Rightarrow> Some (relay_goto c CLoop s)
      | Err \<Rightarrow> Some (relay_goto c CLoop s)
      | Panic \<Rightarrow> Some (relay_goto c (CDetach True) s)
      | _ \<Rightarrow> None)"

text \<open>\<open>detach_client\<close> and the end of \<open>client_loop\<close>.\<close>

definition detach_step :: "conn \<Rightarrow> bool \<Rightarrow> session \<Rightarrow> session option" where
  "detach_step c panicked s =
     (if slot_lock s \<noteq> None then None
      else case slot s of
          Some (c', i) \<Rightarrow>
            if c' = c
            then (let g = next_attached_generation s
                  in Some (relay_goto c (CCalls [Abandon i] (CPublishOff g))
                       (log_app Released (s\<lparr>slot := None, attached_generation := g\<rparr>))))
            else Some (relay_goto c (if panicked then CHangUp else CDone) s)
        | None \<Rightarrow> Some (relay_goto c (if panicked then CHangUp else CDone) s))"

definition client_step :: "32 word \<Rightarrow> conn \<Rightarrow> answer \<Rightarrow> session \<Rightarrow> session option" where
  "client_step sid c res s =
     (case clients s c of
        CNew \<Rightarrow> None
      | CRecv \<Rightarrow> recv_step c res s
      | CRefuse \<Rightarrow> Some (relay_goto c (CDetach False) (disconnect c s))
      | CClosePanic \<Rightarrow> Some (relay_goto c (CDetach True) (disconnect c s))
      | CPublish g \<Rightarrow> Some (relay_goto c CLoop (s\<lparr>updates := updates s @ [SetAttached g True]\<rparr>))
      | CLoop \<Rightarrow> (case res of
            Msg m \<Rightarrow> Some (relay_goto c (CApply m) s)
          | Err \<Rightarrow> Some (relay_goto c (CDetach False) s)
          | Panic \<Rightarrow> Some (relay_goto c (CDetach True) s)
          | _ \<Rightarrow> None)
      | CApply m \<Rightarrow> apply_step c m s
      | CApplying \<Rightarrow> applied_step c res s
      | CDetach panicked \<Rightarrow> detach_step c panicked s
      | CPublishOff g \<Rightarrow> Some (relay_goto c CDone (s\<lparr>updates := updates s @ [SetAttached g False]\<rparr>))
      | CHangUp \<Rightarrow> Some (relay_goto c CDone (disconnect c s))
      | CDone \<Rightarrow> None
      | CCalls [] pc \<Rightarrow> Some (relay_goto c pc s)
      | CCalls (k # ks) pc \<Rightarrow> (let (s, next_calls) = run_call k s in Some (relay_goto c (CCalls (next_calls @ ks) pc) s))
      | pc \<Rightarrow> attach_step sid c res pc s)"

section \<open>The other threads\<close>

text \<open>\<open>pty_output_loop\<close> with \<open>route_output\<close>.\<close>

definition route_output :: "byte list \<Rightarrow> session \<Rightarrow> session" where
  "route_output bytes s =
     (case slot s of
        Some (c, i) \<Rightarrow> s\<lparr>routed := routed s @ [(Some i, bytes)], pump := PCalls [Send i (Output bytes)]\<rparr>
      | None \<Rightarrow> hold_for_first_client bytes (s\<lparr>routed := routed s @ [(None, bytes)], pump := PCheck\<rparr>))"

definition pump_step :: "answer \<Rightarrow> session \<Rightarrow> session option" where
  "pump_step res s =
     (case pump s of
        PCheck \<Rightarrow> Some (s\<lparr>pump := if stopping s then PEnd True else PRead\<rparr>)
      | PRead \<Rightarrow> (case res of
            Burst bytes \<Rightarrow> Some (s\<lparr>pump := PRoute bytes\<rparr>)
          | Eof \<Rightarrow> Some (s\<lparr>pump := PEnd True\<rparr>)
          | Err \<Rightarrow> Some (s\<lparr>pump := PEnd False\<rparr>)
          | _ \<Rightarrow> None)
      | PRoute bytes \<Rightarrow> if slot_lock s = None then Some (route_output bytes s) else None
      | PCalls [] \<Rightarrow> Some (s\<lparr>pump := PCheck\<rparr>)
      | PCalls (k # ks) \<Rightarrow> (let (s, next_calls) = run_call k s in Some (s\<lparr>pump := PCalls (next_calls @ ks)\<rparr>))
      | PEnd clean \<Rightarrow> None)"

text \<open>\<open>stop_clients\<close> and the messages \<open>serve\<close> owes the last owner.\<close>

definition farewell :: "32 word option \<Rightarrow> bool \<Rightarrow> box_id option \<Rightarrow> outbox_call list" where
  "farewell waited pumped client =
     (case client of
        None \<Rightarrow> []
      | Some i \<Rightarrow> (case waited of Some status \<Rightarrow> if pumped then [Send i (AppExited status)] else [] | None \<Rightarrow> []) @ [Finish i])"

definition main_step :: "answer \<Rightarrow> session \<Rightarrow> session option" where
  "main_step res s =
     (case main s of
        MWait \<Rightarrow> (case res of
            Exit status \<Rightarrow> Some (s\<lparr>main := MGate (Some status)\<rparr>)
          | Err \<Rightarrow> Some (s\<lparr>main := MGate None\<rparr>)
          | _ \<Rightarrow> None)
      | MGate waited \<Rightarrow> Some (s\<lparr>main := if waited \<noteq> None \<and> pump s \<noteq> PEnd False then MAwait waited else MJoin waited\<rparr>)
      | MAwait waited \<Rightarrow> if claimed s \<or> initiator_gone s then Some (s\<lparr>main := MJoin waited\<rparr>) else None
      | MJoin waited \<Rightarrow> (case pump s of PEnd pumped \<Rightarrow> Some (s\<lparr>main := MLock waited pumped\<rparr>) | _ \<Rightarrow> None)
      | MLock waited pumped \<Rightarrow>
          if attach_lock s = None then Some (s\<lparr>main := MStop waited pumped, attach_lock := Some HMain\<rparr>) else None
      | MStop waited pumped \<Rightarrow> Some (s\<lparr>main := MTake waited pumped, stopping := True\<rparr>)
      | MTake waited pumped \<Rightarrow>
          if slot_lock s = None
          then (let client = map_option snd (slot s)
                in Some (log_app Released (release_attach
                     (s\<lparr>main := MCalls waited pumped (farewell waited pumped client) client, slot := None\<rparr>))))
          else None
      | MCalls waited pumped [] client \<Rightarrow> Some (s\<lparr>main := MRecord waited pumped client\<rparr>)
      | MCalls waited pumped (k # ks) client \<Rightarrow>
          (let (s, next_calls) = run_call k s in Some (s\<lparr>main := MCalls waited pumped (next_calls @ ks) client\<rparr>))
      | MRecord waited pumped client \<Rightarrow>
          Some (s\<lparr>main := MJoinRecord waited pumped client, updates := updates s @ [StopRecord]\<rparr>)
      | MJoinRecord waited pumped client \<Rightarrow>
          if recorder s = RStopped then Some (s\<lparr>main := MDelete waited pumped client\<rparr>) else None
      | MDelete waited pumped client \<Rightarrow> (case res of
            Ret \<Rightarrow> Some (s\<lparr>main := MAwaitWriter waited pumped True client\<rparr>)
          | Err \<Rightarrow> Some (s\<lparr>main := MAwaitWriter waited pumped False client\<rparr>)
          | _ \<Rightarrow> None)
      | MAwaitWriter waited pumped deleted client \<Rightarrow>
          if (case client of None \<Rightarrow> True | Some i \<Rightarrow> writer (boxes s ! i) = WStopped)
          then Some (s\<lparr>main := if (case client of None \<Rightarrow> False | Some i \<Rightarrow> crashed (boxes s ! i)) then MPanicked
                     else MDone (if pumped \<and> deleted then waited else None)\<rparr>)
          else None
      | MDone result \<Rightarrow> None
      | MPanicked \<Rightarrow> None)"

text \<open>\<open>accept_loop\<close>: the relay of a new connection starts.\<close>

definition accept_step :: "answer \<Rightarrow> session \<Rightarrow> session option" where
  "accept_step res s =
     (case acceptor s of
        ACheck \<Rightarrow> Some (s\<lparr>acceptor := if stopping s then ADone else AAccept\<rparr>)
      | AAccept \<Rightarrow> (case res of
            Conn c \<Rightarrow> if clients s c = CNew then Some (relay_goto c CRecv (s\<lparr>acceptor := ACheck\<rparr>)) else None
          | Err \<Rightarrow> Some (s\<lparr>acceptor := ADone\<rparr>)
          | _ \<Rightarrow> None)
      | ADone \<Rightarrow> None)"

text \<open>\<open>publish_updates\<close>: an update whose generation is no longer current is skipped.\<close>

definition record_step :: "answer \<Rightarrow> session \<Rightarrow> session option" where
  "record_step res s =
     (case recorder s of
        RRecv \<Rightarrow> (case updates s of
            [] \<Rightarrow> None
          | SetAttached g attached # us \<Rightarrow> Some (s\<lparr>updates := us, recorder := RCheck g attached\<rparr>)
          | StopRecord # us \<Rightarrow> Some (s\<lparr>updates := us, recorder := RStopped\<rparr>))
      | RCheck g attached \<Rightarrow> Some (s\<lparr>recorder := if attached_generation s = g then RStore g attached else RRecv\<rparr>)
      | RStore g attached \<Rightarrow> (case res of
            Ret \<Rightarrow> Some (s\<lparr>record_attached := attached, recorder := RRecv\<rparr>)
          | Err \<Rightarrow> Some (s\<lparr>store_failed := True, recorder := RRecv\<rparr>)
          | _ \<Rightarrow> None)
      | RStopped \<Rightarrow> None)"

text \<open>The thread that waits for the startup connection to close.\<close>

definition initiator_step :: "session \<Rightarrow> session option" where
  "initiator_step s = (if initiator_gone s then None else Some (s\<lparr>initiator_gone := True\<rparr>))"

fun wire_answer :: "answer \<Rightarrow> wire_result" where
  "wire_answer Ret = Sent"
| "wire_answer Panic = Crashed"
| "wire_answer res = Refused"

text \<open>The writer of an outbox disconnects when it closes.\<close>

definition box_writer_step :: "box_id \<Rightarrow> answer \<Rightarrow> session \<Rightarrow> session option" where
  "box_writer_step i res s =
     (if i < length (boxes s)
      then do {
        b \<leftarrow> writer_step (wire_answer res) (boxes s ! i);
        let s' = s\<lparr>boxes := (boxes s)[i := b]\<rparr>;
        Some (if writer (boxes s ! i) = WClose then disconnect (box_conn b) s' else s')
      }
      else None)"

datatype session_thread = Client conn | BoxWriter box_id | Pump | Main | Acceptor | Recorder | Initiator

fun session_step :: "32 word \<Rightarrow> session_thread \<Rightarrow> answer \<Rightarrow> session \<Rightarrow> session option" where
  "session_step sid (Client c) res s = client_step sid c res s"
| "session_step sid (BoxWriter i) res s = box_writer_step i res s"
| "session_step sid Pump res s = pump_step res s"
| "session_step sid Main res s = main_step res s"
| "session_step sid Acceptor res s = accept_step res s"
| "session_step sid Recorder res s = record_step res s"
| "session_step sid Initiator res s = initiator_step s"

inductive session_reachable :: "32 word \<Rightarrow> session \<Rightarrow> bool" for sid where
  session_starts: "session_reachable sid session_new"
| session_moves: "session_reachable sid s \<Longrightarrow> session_step sid w res s = Some s' \<Longrightarrow> session_reachable sid s'"


section \<open>Frame lemmas\<close>

lemmas session_updates = relay_goto_def release_attach_def log_app_def disconnect_def

lemma run_call_frame [simp]:
  "slot (fst (run_call k s)) = slot s" "slot_lock (fst (run_call k s)) = slot_lock s"
  "attach_lock (fst (run_call k s)) = attach_lock s" "clients (fst (run_call k s)) = clients s"
  "attached_generation (fst (run_call k s)) = attached_generation s" "preamble (fst (run_call k s)) = preamble s"
  "claimed (fst (run_call k s)) = claimed s" "initiator_gone (fst (run_call k s)) = initiator_gone s"
  "stopping (fst (run_call k s)) = stopping s" "pump (fst (run_call k s)) = pump s" "main (fst (run_call k s)) = main s"
  "acceptor (fst (run_call k s)) = acceptor s" "recorder (fst (run_call k s)) = recorder s"
  "updates (fst (run_call k s)) = updates s" "record_attached (fst (run_call k s)) = record_attached s"
  "store_failed (fst (run_call k s)) = store_failed s" "app_log (fst (run_call k s)) = app_log s"
  "routed (fst (run_call k s)) = routed s" "opened_with (fst (run_call k s)) = opened_with s"
  "length (boxes (fst (run_call k s))) = length (boxes s)"
  by (cases k; auto simp: Let_def disconnect_def split: prod.splits)+

lemma run_call_clients: "run_call k s = (s', ks) \<Longrightarrow> clients s' = clients s"
  using run_call_frame(4)[of k s] by simp

text \<open>The moves of a relay, one per branch of the code.\<close>

inductive relay_move :: "32 word \<Rightarrow> conn \<Rightarrow> session \<Rightarrow> session \<Rightarrow> bool" for sid c s where
  rm_plain: "clients s c = pc \<Longrightarrow> pc' = CLock sz \<and> pc = CRecv \<or> pc' = CRefuse \<and> pc = CRecv
      \<or> pc' = CDetach p \<and> (pc = CRecv \<or> pc = CLoop) \<or> pc' = CApply m \<and> pc = CLoop
      \<or> pc' = CStart sz \<and> pc = CCheck sz \<and> \<not> stopping s \<or> pc = CCalls [] pc'
      \<or> pc = CApply m \<and> pc' = CDetach False
      \<or> pc = CDetach p \<and> pc' \<in> {CHangUp, CDone} \<and> slot_lock s = None \<and> map_option fst (slot s) \<noteq> Some c
    \<Longrightarrow> relay_move sid c s (s\<lparr>clients := (clients s)(c := pc')\<rparr>)"
| rm_disconnect: "clients s c = CRefuse \<and> pc' = CDetach False \<or> clients s c = CClosePanic \<and> pc' = CDetach True
      \<or> clients s c = CHangUp \<and> pc' = CDone
    \<Longrightarrow> relay_move sid c s (s\<lparr>hung_up := hung_up s @ [c],
          clients := (clients s)(c := pc')\<rparr>)"
| rm_lock: "clients s c = CLock sz \<Longrightarrow> attach_lock s = None
    \<Longrightarrow> relay_move sid c s (s\<lparr>attach_lock := Some (HClient c),
          clients := (clients s)(c := CCheck sz)\<rparr>)"
| rm_unlock: "clients s c = CCheck sz \<and> stopping s \<and> pc' = CRefuse \<or> clients s c = CStart sz \<and> pc' = CClosePanic
    \<Longrightarrow> relay_move sid c s (s\<lparr>attach_lock := None,
          clients := (clients s)(c := pc')\<rparr>)"
| rm_start: "clients s c = CStart sz
    \<Longrightarrow> relay_move sid c s (s\<lparr>boxes := boxes s @ [outbox_start c],
          clients := (clients s)(c := CSlot sz (length (boxes s)))\<rparr>)"
| rm_slot: "clients s c = CSlot sz i \<Longrightarrow> slot_lock s = None
    \<Longrightarrow> relay_move sid c s (s\<lparr>slot_lock := Some c,
          clients := (clients s)(c := CCalls [Send i (Attached sid)] (CTake sz i))\<rparr>)"
| rm_take_none: "clients s c = CTake sz i \<Longrightarrow> preamble s \<in> {None, Some []}
    \<Longrightarrow> relay_move sid c s (s\<lparr>preamble := None,
          clients := (clients s)(c := CCalls [] (CReplace sz i))\<rparr>)"
| rm_take: "clients s c = CTake sz i \<Longrightarrow> preamble s = Some held \<Longrightarrow> held \<noteq> []
    \<Longrightarrow> relay_move sid c s (s\<lparr>preamble := None, opened_with := Some (i, held),
          clients := (clients s)(c := CCalls (map (Send i) (preamble_messages held)) (CReplace sz i))\<rparr>)"
| rm_replace: "clients s c = CReplace sz i
    \<Longrightarrow> relay_move sid c s (s\<lparr>slot := Some (c, i), attached_generation := Suc (attached_generation s), slot_lock := None,
          app_log := app_log s @ [Owns c],
          clients := (clients s)(c := CNote sz i (map_option snd (slot s)) (Suc (attached_generation s)))\<rparr>)"
| rm_note: "clients s c = CNote sz i old g
    \<Longrightarrow> relay_move sid c s (s\<lparr>claimed := True,
          clients := (clients s)(c := CCalls (case old of None \<Rightarrow> [] | Some j \<Rightarrow> [Send j Displaced, Finish j]) (CResize sz i g))\<rparr>)"
| rm_resize: "clients s c = CResize sz i g \<Longrightarrow> pc' = CPublish g \<or> pc' = CCalls [Abandon i] (CDetach True)
    \<Longrightarrow> relay_move sid c s (s\<lparr>app_log := app_log s @ [Resized c sz], attach_lock := None,
          clients := (clients s)(c := pc')\<rparr>)"
| rm_apply: "clients s c = CApply m \<Longrightarrow> slot_lock s = None \<Longrightarrow> map_option fst (slot s) = Some c
      \<Longrightarrow> (\<exists>data. m = Input data \<and> ev = Typed c data) \<or> (\<exists>sz. m = Resize sz \<and> ev = Resized c sz)
    \<Longrightarrow> relay_move sid c s (s\<lparr>slot_lock := Some c, app_log := app_log s @ [ev],
          clients := (clients s)(c := CApplying)\<rparr>)"
| rm_applied: "clients s c = CApplying \<Longrightarrow> pc' = CLoop \<or> pc' = CDetach True
    \<Longrightarrow> relay_move sid c s (s\<lparr>slot_lock := None,
          clients := (clients s)(c := pc')\<rparr>)"
| rm_detach: "clients s c = CDetach p \<Longrightarrow> slot_lock s = None \<Longrightarrow> slot s = Some (c, i)
    \<Longrightarrow> relay_move sid c s (s\<lparr>slot := None, attached_generation := Suc (attached_generation s),
          app_log := app_log s @ [Released],
          clients := (clients s)(c := CCalls [Abandon i] (CPublishOff (Suc (attached_generation s))))\<rparr>)"
| rm_publish: "clients s c = CPublish g \<and> pc' = CLoop \<and> flag \<or> clients s c = CPublishOff g \<and> pc' = CDone \<and> \<not> flag
    \<Longrightarrow> relay_move sid c s (s\<lparr>updates := updates s @ [SetAttached g flag],
          clients := (clients s)(c := pc')\<rparr>)"
| rm_call: "clients s c = CCalls (k # ks) pc
    \<Longrightarrow> relay_move sid c s ((fst (run_call k s))\<lparr>clients := (clients s)(c := CCalls (snd (run_call k s) @ ks) pc)\<rparr>)"

lemma attach_step_moves:
  assumes "attach_step sid c res pc s = Some s'" "clients s c = pc"
  shows "relay_move sid c s s'"
proof (cases pc)
  case (CTake sz i)
  then show ?thesis using assms rm_take[of s c sz i _ sid] rm_take_none[of s c sz i sid]
    by (cases "preamble s") (auto simp: attach_step_def take_preamble_def session_updates split: if_splits)
next
  case (CCheck sz)
  then show ?thesis using assms rm_plain[of s c pc "CStart sz"] rm_unlock[of s c sz CRefuse]
    by (auto simp: attach_step_def session_updates split: if_splits)
next
  case (CStart sz)
  then show ?thesis using assms rm_start[of s c sz] rm_unlock[of s c sz CClosePanic]
    by (auto simp: attach_step_def session_updates split: answer.splits)
next
  case (CResize sz i g)
  then show ?thesis
    using assms rm_resize[of s c sz i g "CPublish g"] rm_resize[of s c sz i g "CCalls [Abandon i] (CDetach True)"]
    by (auto simp: attach_step_def session_updates Let_def split: answer.splits)
qed (use assms in \<open>auto simp: attach_step_def session_updates next_attached_generation_def Let_def
    intro: rm_lock rm_slot rm_replace rm_note split: if_splits\<close>)

lemma relay_move_plain:
  "clients s c = CRecv \<Longrightarrow> relay_move sid c s (relay_goto c (CLock sz) s)"
  "clients s c = CRecv \<Longrightarrow> relay_move sid c s (relay_goto c CRefuse s)"
  "clients s c = CRecv \<or> clients s c = CLoop \<Longrightarrow> relay_move sid c s (relay_goto c (CDetach p) s)"
  "clients s c = CLoop \<Longrightarrow> relay_move sid c s (relay_goto c (CApply m) s)"
  "clients s c = CCalls [] pc \<Longrightarrow> relay_move sid c s (relay_goto c pc s)"
  "clients s c = CApply m \<Longrightarrow> relay_move sid c s (relay_goto c (CDetach False) s)"
  "clients s c = CDetach p \<Longrightarrow> slot_lock s = None \<Longrightarrow> map_option fst (slot s) \<noteq> Some c \<Longrightarrow> pc \<in> {CHangUp, CDone}
    \<Longrightarrow> relay_move sid c s (relay_goto c pc s)"
  unfolding relay_goto_def by (rule rm_plain, assumption, auto)+

lemma client_step_moves:
  assumes "client_step sid c res s = Some s'"
  shows "relay_move sid c s s'"
proof (cases "clients s c")
  case CRecv
  then show ?thesis using assms
    by (cases "(c, res, s)" rule: recv_step.cases) (auto simp: client_step_def intro: relay_move_plain)
next
  case (CCalls ks pc)
  show ?thesis
  proof (cases ks)
    case (Cons k ks')
    then have "s' = (fst (run_call k s))\<lparr>clients := (clients s)(c := CCalls (snd (run_call k s) @ ks') pc)\<rparr>"
      using assms CCalls by (simp add: client_step_def relay_goto_def Let_def split_beta)
    then show ?thesis using rm_call[of s c k ks' pc] CCalls Cons by simp
  qed (use CCalls assms in \<open>auto simp: client_step_def intro: relay_move_plain(5)\<close>)
next
  case (CApply m)
  then show ?thesis using assms rm_apply[of s c m] relay_move_plain(6)[of s c m]
    by (auto simp: client_step_def apply_step_def owns_def session_updates Let_def split: if_splits message.splits)
next
  case CApplying
  then show ?thesis using assms rm_applied[of s c CLoop] rm_applied[of s c "CDetach True"]
    by (auto simp: client_step_def applied_step_def session_updates Let_def split: answer.splits)
next
  case (CDetach p)
  then show ?thesis using assms rm_detach[of s c p] relay_move_plain(7)[of s c p]
    by (auto simp: client_step_def detach_step_def session_updates next_attached_generation_def Let_def
        split: if_splits option.splits)
next
  case CLoop
  then show ?thesis using assms relay_move_plain(3,4)[of s c]
    by (auto simp: client_step_def split: answer.splits)
qed (use assms in \<open>auto simp: client_step_def session_updates intro: rm_disconnect rm_publish attach_step_moves\<close>)

text \<open>What the steps of the other threads change.\<close>

lemma box_writer_frame:
  assumes "box_writer_step i res s = Some s'"
  obtains b h where "i < length (boxes s)" "writer_step (wire_answer res) (boxes s ! i) = Some b"
    "s' = s\<lparr>boxes := (boxes s)[i := b], hung_up := h\<rparr>"
proof -
  obtain b where b: "i < length (boxes s)" "writer_step (wire_answer res) (boxes s ! i) = Some b"
    using assms by (auto simp: box_writer_step_def bind_eq_Some_iff split: if_splits)
  then have "s' = s\<lparr>boxes := (boxes s)[i := b], hung_up := hung_up s'\<rparr>"
    using assms by (auto simp: box_writer_step_def disconnect_def Let_def split: if_splits)
  with b that show thesis by blast
qed

inductive other_move :: "session \<Rightarrow> session \<Rightarrow> bool" for s where
  om_writer: "i < length (boxes s) \<Longrightarrow> writer_step res (boxes s ! i) = Some b
    \<Longrightarrow> other_move s (s\<lparr>boxes := (boxes s)[i := b], hung_up := h\<rparr>)"
| om_pump_plain: "pump s = PCheck \<and> pc = PRead \<or> pump s = PCheck \<and> stopping s \<and> pc = PEnd True
      \<or> pump s = PRead \<and> (pc = PRoute bytes \<or> pc = PEnd clean) \<or> pump s = PCalls [] \<and> pc = PCheck
    \<Longrightarrow> other_move s (s\<lparr>pump := pc\<rparr>)"
| om_route: "pump s = PRoute bytes \<Longrightarrow> slot_lock s = None \<Longrightarrow> other_move s (route_output bytes s)"
| om_pump_call: "pump s = PCalls (k # ks)
    \<Longrightarrow> other_move s ((fst (run_call k s))\<lparr>pump := PCalls (snd (run_call k s) @ ks)\<rparr>)"
| om_main_plain: "main s = MWait \<and> pc = MGate w \<or> main s = MGate w \<and> (pc = MAwait w \<or> pc = MJoin w)
      \<or> main s = MAwait w \<and> pc = MJoin w \<or> main s = MJoin w \<and> pump s = PEnd clean \<and> pc = MLock w clean
      \<or> main s = MCalls w clean [] cl \<and> pc = MRecord w clean cl
      \<or> main s = MJoinRecord w clean cl \<and> pc = MDelete w clean cl
    \<Longrightarrow> other_move s (s\<lparr>main := pc\<rparr>)"
| om_main_delete: "main s = MDelete w clean cl \<Longrightarrow> other_move s (s\<lparr>main := MAwaitWriter w clean deleted cl\<rparr>)"
| om_main_done: "main s = MAwaitWriter w clean deleted cl \<Longrightarrow> \<forall>i. cl = Some i \<longrightarrow> writer (boxes s ! i) = WStopped
    \<Longrightarrow> pc = MDone (if clean \<and> deleted then w else None) \<or> pc = MPanicked \<Longrightarrow> other_move s (s\<lparr>main := pc\<rparr>)"
| om_main_lock: "main s = MLock w clean \<Longrightarrow> attach_lock s = None
    \<Longrightarrow> other_move s (s\<lparr>main := MStop w clean, attach_lock := Some HMain\<rparr>)"
| om_main_stop: "main s = MStop w clean \<Longrightarrow> other_move s (s\<lparr>main := MTake w clean, stopping := True\<rparr>)"
| om_main_take: "main s = MTake w clean \<Longrightarrow> slot_lock s = None \<Longrightarrow> cl = map_option snd (slot s)
    \<Longrightarrow> other_move s (s\<lparr>main := MCalls w clean (farewell w clean cl) cl, slot := None, attach_lock := None,
          app_log := app_log s @ [Released]\<rparr>)"
| om_main_call: "main s = MCalls w clean (k # ks) cl
    \<Longrightarrow> other_move s ((fst (run_call k s))\<lparr>main := MCalls w clean (snd (run_call k s) @ ks) cl\<rparr>)"
| om_main_record: "main s = MRecord w clean cl
    \<Longrightarrow> other_move s (s\<lparr>main := MJoinRecord w clean cl, updates := updates s @ [StopRecord]\<rparr>)"
| om_accept: "clients s c = CNew \<Longrightarrow> other_move s (s\<lparr>acceptor := ACheck, clients := (clients s)(c := CRecv)\<rparr>)"
| om_acceptor: "other_move s (s\<lparr>acceptor := pc\<rparr>)"
| om_receive: "recorder s = RRecv \<Longrightarrow> updates s = SetAttached g flag # us
    \<Longrightarrow> other_move s (s\<lparr>updates := us, recorder := RCheck g flag\<rparr>)"
| om_receive_stop: "recorder s = RRecv \<Longrightarrow> updates s = StopRecord # us
    \<Longrightarrow> other_move s (s\<lparr>updates := us, recorder := RStopped\<rparr>)"
| om_check: "recorder s = RCheck g flag
    \<Longrightarrow> other_move s (s\<lparr>recorder := if attached_generation s = g then RStore g flag else RRecv\<rparr>)"
| om_store: "recorder s = RStore g flag \<Longrightarrow> other_move s (s\<lparr>record_attached := flag, recorder := RRecv\<rparr>)"
| om_store_fails: "recorder s = RStore g flag \<Longrightarrow> other_move s (s\<lparr>store_failed := True, recorder := RRecv\<rparr>)"
| om_initiator: "other_move s (s\<lparr>initiator_gone := True\<rparr>)"

lemma pump_step_moves:
  assumes "pump_step res s = Some s'"
  shows "other_move s s'"
proof (cases "pump s")
  case (PCalls ks)
  show ?thesis
  proof (cases ks)
    case (Cons k ks')
    then have "s' = (fst (run_call k s))\<lparr>pump := PCalls (snd (run_call k s) @ ks')\<rparr>"
      using assms PCalls by (simp add: pump_step_def Let_def split_beta)
    then show ?thesis using om_pump_call[of s k ks'] PCalls Cons by simp
  qed (use PCalls assms in \<open>auto simp: pump_step_def intro: om_pump_plain\<close>)
qed (use assms in \<open>auto simp: pump_step_def intro: om_route om_pump_plain split: if_splits answer.splits\<close>)

lemma main_step_moves:
  assumes "main_step res s = Some s'"
  shows "other_move s s'"
proof (cases "main s")
  case (MCalls w clean ks cl)
  show ?thesis
  proof (cases ks)
    case (Cons k ks')
    then have "s' = (fst (run_call k s))\<lparr>main := MCalls w clean (snd (run_call k s) @ ks') cl\<rparr>"
      using assms MCalls by (simp add: main_step_def Let_def split_beta)
    then show ?thesis using om_main_call[of s w clean k ks'] MCalls Cons by simp
  qed (use MCalls assms in \<open>auto simp: main_step_def intro: om_main_plain\<close>)
next
  case (MTake w clean)
  then show ?thesis using assms om_main_take[of s w clean]
    by (auto simp: main_step_def session_updates Let_def split: if_splits)
next
  case (MAwaitWriter w clean deleted cl)
  then show ?thesis using assms om_main_done[of s w clean deleted cl MPanicked] om_main_done[of s w clean deleted cl "MDone x" for x]
    by (auto simp: main_step_def split: if_splits option.splits)
qed (use assms in \<open>auto simp: main_step_def intro: om_main_plain om_main_lock om_main_stop om_main_record om_main_delete
    split: if_splits answer.splits pump_pc.splits\<close>)

lemma session_step_moves:
  assumes "session_step sid w res s = Some s'"
  shows "(\<exists>c. relay_move sid c s s') \<or> other_move s s'"
proof (cases w)
  case (BoxWriter i)
  then show ?thesis using assms om_writer by (auto elim!: box_writer_frame)
next
  case Recorder
  then show ?thesis using assms
    by (auto simp: record_step_def intro: om_receive om_receive_stop om_check om_store om_store_fails
        split: recorder_pc.splits list.splits record_command.splits answer.splits)
qed (use assms in \<open>auto simp: accept_step_def initiator_step_def session_updates
    intro: client_step_moves pump_step_moves main_step_moves om_accept om_acceptor om_initiator
    split: acceptor_pc.splits answer.splits if_splits\<close>)

end
