(* ===== verification/DureOwnership.thy ===== *)
theory DureOwnership
  imports DureSession
begin

section \<open>Locks\<close>

fun in_attach :: "client_pc \<Rightarrow> bool" where
  "in_attach (CCheck sz) = True" | "in_attach (CStart sz) = True" | "in_attach (CSlot sz i) = True"
| "in_attach (CTake sz i) = True" | "in_attach (CReplace sz i) = True" | "in_attach (CNote sz i old g) = True"
| "in_attach (CResize sz i g) = True" | "in_attach (CCalls ks pc) = in_attach pc" | "in_attach pc = False"

fun in_slot :: "client_pc \<Rightarrow> bool" where
  "in_slot (CTake sz i) = True" | "in_slot (CReplace sz i) = True" | "in_slot CApplying = True"
| "in_slot (CCalls ks pc) = in_slot pc"
| "in_slot pc = False"

fun main_in_attach :: "main_pc \<Rightarrow> bool" where
  "main_in_attach (MStop waited pumped) = True" | "main_in_attach (MTake waited pumped) = True"
| "main_in_attach pc = False"

definition locks_ok :: "session \<Rightarrow> bool" where
  "locks_ok s =
     ((\<forall>c. in_attach (clients s c) = (attach_lock s = Some (HClient c)))
      \<and> main_in_attach (main s) = (attach_lock s = Some HMain)
      \<and> (\<forall>c. in_slot (clients s c) = (slot_lock s = Some c)))"

text \<open>A thread whose lock does not change keeps the discipline whatever else its step does.\<close>

lemma locks_ok_same:
  assumes "locks_ok s" "attach_lock s' = attach_lock s" "slot_lock s' = slot_lock s" "main_in_attach (main s') = main_in_attach (main s)"
    "clients s' = (clients s)(c := pc)" "in_attach pc = in_attach (clients s c)" "in_slot pc = in_slot (clients s c)"
  shows "locks_ok s'"
  using assms by (auto simp: locks_ok_def)

lemma locks_ok_at:
  assumes "locks_ok s" "clients s c = pc"
  shows "in_attach pc = (attach_lock s = Some (HClient c))" "in_slot pc = (slot_lock s = Some c)"
  using assms by (auto simp: locks_ok_def)

lemma locks_ok_relay:
  assumes ok: "locks_ok s" and "relay_move sid c s s'"
  shows "locks_ok s'"
  using assms(2)
proof cases
  case (rm_plain pc pc' sz p m)
  then show ?thesis by (intro locks_ok_same[OF ok, of s' c pc']) auto
next
  case (rm_disconnect pc')
  then show ?thesis by (intro locks_ok_same[OF ok, of s' c pc']) auto
next
  case (rm_lock sz)
  then have "slot_lock s \<noteq> Some c" using locks_ok_at(2)[OF ok, of c] by auto
  then show ?thesis using ok rm_lock by (auto simp: locks_ok_def)
next
  case (rm_unlock sz pc')
  then have "attach_lock s = Some (HClient c)" "slot_lock s \<noteq> Some c" using locks_ok_at[OF ok] by fastforce+
  then show ?thesis using ok rm_unlock by (auto simp: locks_ok_def)
next
  case (rm_slot sz i)
  then have "attach_lock s = Some (HClient c)" using ok by (auto simp: locks_ok_def)
  then show ?thesis using ok rm_slot by (auto simp: locks_ok_def)
next
  case (rm_replace sz i)
  then have "attach_lock s = Some (HClient c)" "slot_lock s = Some c" using ok by (auto simp: locks_ok_def)
  then show ?thesis using ok rm_replace by (auto simp: locks_ok_def)
next
  case (rm_resize sz i g pc')
  then have "attach_lock s = Some (HClient c)" "slot_lock s \<noteq> Some c" using locks_ok_at[OF ok, of c] by auto
  then show ?thesis using ok rm_resize by (auto simp: locks_ok_def)
next
  case (rm_apply m ev)
  then have "attach_lock s \<noteq> Some (HClient c)" using locks_ok_at(1)[OF ok, of c] by auto
  then show ?thesis using ok rm_apply by (auto simp: locks_ok_def)
next
  case (rm_applied pc')
  then have "attach_lock s \<noteq> Some (HClient c)" "slot_lock s = Some c" using locks_ok_at[OF ok, of c] by auto
  then show ?thesis using ok rm_applied by (auto simp: locks_ok_def)
next
  case (rm_start sz)
  then show ?thesis by (intro locks_ok_same[OF ok, of s' c "clients s' c"]) auto
qed ((rule locks_ok_same[OF ok, of s' c "clients s' c"]; auto)+)

lemma locks_ok_other:
  assumes ok: "locks_ok s" and "other_move s s'"
  shows "locks_ok s'"
  using assms(2)
proof cases
  case (om_route bytes)
  then show ?thesis using ok
    by (auto simp: locks_ok_def route_output_def hold_for_first_client_def split: option.splits prod.splits)
next
  case (om_accept c)
  then show ?thesis by (intro locks_ok_same[OF ok, of s' c CRecv]) auto
qed (use ok in \<open>auto simp: locks_ok_def\<close>)

lemma locks_ok_new: "locks_ok session_new"
  by (simp add: locks_ok_def session_new_def)

lemma locks_ok_step: "locks_ok s \<Longrightarrow> session_step sid w res s = Some s' \<Longrightarrow> locks_ok s'"
  using session_step_moves locks_ok_relay locks_ok_other by blast


section \<open>What is on the wire\<close>

text \<open>Where a connection is in the conversation: nothing sent; attached; displaced; one burst of output after the
  displacement, from a pump that had looked up the client before; the app has exited; anything else.\<close>

datatype wire = Unopened | Live | GoneAway | StaleOut | Ended | Garbled

fun wire_next :: "32 word \<Rightarrow> message \<Rightarrow> wire \<Rightarrow> wire" where
  "wire_next sid (Attached i) Unopened = (if i = sid then Live else Garbled)"
| "wire_next sid (Output data) Live = Live"
| "wire_next sid Displaced Live = GoneAway"
| "wire_next sid (AppExited status) Live = Ended"
| "wire_next sid (Output data) GoneAway = StaleOut"
| "wire_next sid m w = Garbled"

definition wire_state :: "32 word \<Rightarrow> message list \<Rightarrow> wire" where
  "wire_state sid ms = fold (wire_next sid) ms Unopened"

lemma wire_state_simps [simp]:
  "wire_state sid [] = Unopened" "wire_state sid (ms @ [m]) = wire_next sid m (wire_state sid ms)"
  by (simp_all add: wire_state_def)

abbreviation box_wire :: "32 word \<Rightarrow> outbox \<Rightarrow> wire" where
  "box_wire sid b \<equiv> wire_state sid (accepted b)"

abbreviation shut :: "outbox \<Rightarrow> bool" where
  "shut b \<equiv> abandoned b \<or> box_finished b"

section \<open>What each thread knows\<close>

text \<open>A relay before it has an outbox, one that opens it, and one past the installation.\<close>

fun stage :: "client_pc \<Rightarrow> nat" where
  "stage CNew = 0" | "stage CRecv = 0" | "stage (CLock sz) = 0" | "stage (CCheck sz) = 0" | "stage (CStart sz) = 0"
| "stage (CSlot sz i) = 1" | "stage (CTake sz i) = 1" | "stage (CReplace sz i) = 1" | "stage (CCalls ks pc) = stage pc"
| "stage pc = 2"

fun opening_box :: "client_pc \<Rightarrow> box_id option" where
  "opening_box (CSlot sz i) = Some i" | "opening_box (CTake sz i) = Some i" | "opening_box (CReplace sz i) = Some i"
| "opening_box (CCalls ks pc) = opening_box pc" | "opening_box pc = None"

fun displacing :: "client_pc \<Rightarrow> box_id option" where
  "displacing (CNote sz i old g) = old"
| "displacing (CCalls (Send j m # ks) (CResize sz i g)) = Some j"
| "displacing pc = None"

text \<open>The calls that are left of \<open>[Send j m, Finish j]\<close>, of \<open>[Send j m]\<close> and of \<open>[Abandon j]\<close>.\<close>

definition last_words :: "box_id \<Rightarrow> message \<Rightarrow> outbox_call list \<Rightarrow> bool" where
  "last_words j m ks = (ks \<in> {[Send j m, Finish j], [Abandon j, Finish j], [HangUp j, Finish j], [Finish j], []})"

definition one_send :: "box_id \<Rightarrow> message \<Rightarrow> outbox_call list \<Rightarrow> bool" where
  "one_send j m ks = (ks \<in> {[Send j m], [Abandon j], [HangUp j], []})"

definition giving_up :: "box_id \<Rightarrow> outbox_call list \<Rightarrow> bool" where
  "giving_up j ks = (ks \<in> {[Abandon j], [HangUp j], []})"

definition box_of :: "outbox list \<Rightarrow> conn \<Rightarrow> box_id \<Rightarrow> bool" where
  "box_of bs c i = (i < length bs \<and> box_conn (bs ! i) = c)"

definition opening_ok :: "32 word \<Rightarrow> outbox list \<Rightarrow> conn \<Rightarrow> box_id \<Rightarrow> message list \<Rightarrow> message list \<Rightarrow> bool" where
  "opening_ok sid bs c i sent left =
     (box_of bs c i \<and> \<not> shut (bs ! i) \<and> accepted (bs ! i) = sent \<and> backlog (sent @ left) \<le> MAX_CLIENT_BACKLOG_BYTES)"

fun relay_ok :: "32 word \<Rightarrow> outbox list \<Rightarrow> (conn \<times> box_id) option \<Rightarrow> conn \<Rightarrow> client_pc \<Rightarrow> bool" where
  "relay_ok sid bs sl c (CSlot sz i) = opening_ok sid bs c i [] [Attached sid]"
| "relay_ok sid bs sl c (CTake sz i) = opening_ok sid bs c i [Attached sid] []"
| "relay_ok sid bs sl c (CReplace sz i) = (\<exists>ds. opening_ok sid bs c i (Attached sid # map Output ds) [])"
| "relay_ok sid bs sl c (CNote sz i old g) = (sl = Some (c, i) \<and> (case old of None \<Rightarrow> True
     | Some j \<Rightarrow> j < length bs \<and> j \<noteq> i \<and> box_wire sid (bs ! j) = Live))"
| "relay_ok sid bs sl c (CResize sz i g) = (sl = Some (c, i))"
| "relay_ok sid bs sl c (CCalls ks (CTake sz i)) =
     (\<exists>sent left. ks = map (Send i) left \<and> sent @ left = [Attached sid] \<and> opening_ok sid bs c i sent left)"
| "relay_ok sid bs sl c (CCalls ks (CReplace sz i)) =
     (\<exists>sent left. ks = map (Send i \<circ> Output) left \<and> opening_ok sid bs c i (Attached sid # map Output sent) (map Output left))"
| "relay_ok sid bs sl c (CCalls ks (CResize sz i g)) = (sl = Some (c, i) \<and> (ks = [] \<or> (\<exists>j. last_words j Displaced ks
     \<and> j < length bs \<and> j \<noteq> i \<and> (Send j Displaced \<in> set ks \<longrightarrow> box_wire sid (bs ! j) = Live))))"
| "relay_ok sid bs sl c (CCalls ks (CDetach p)) = (\<exists>j. giving_up j ks \<and> box_of bs c j)"
| "relay_ok sid bs sl c (CCalls ks (CPublishOff g)) = (\<exists>j. giving_up j ks \<and> box_of bs c j)"
| "relay_ok sid bs sl c (CCalls ks pc) = False"
| "relay_ok sid bs sl c pc = True"

definition settled :: "session \<Rightarrow> box_id \<Rightarrow> bool" where
  "settled s i = (i < length (boxes s) \<and> stage (clients s (box_conn (boxes s ! i))) = 2)"

fun pump_ok :: "32 word \<Rightarrow> session \<Rightarrow> pump_pc \<Rightarrow> bool" where
  "pump_ok sid s (PCalls ks) = (\<exists>j data. one_send j (Output data) ks \<and> settled s j
     \<and> (Send j (Output data) \<in> set ks \<longrightarrow> box_wire sid (boxes s ! j) \<in> {Live, GoneAway}))"
| "pump_ok sid s pc = True"

fun past_take :: "main_pc \<Rightarrow> bool" where
  "past_take (MCalls w clean ks cl) = True" | "past_take (MRecord w clean cl) = True"
| "past_take (MJoinRecord w clean cl) = True" | "past_take (MDelete w clean cl) = True"
| "past_take (MAwaitWriter w clean deleted cl) = True" | "past_take (MDone result) = True" | "past_take MPanicked = True" | "past_take pc = False"

fun main_ok :: "32 word \<Rightarrow> session \<Rightarrow> main_pc \<Rightarrow> bool" where
  "main_ok sid s (MLock w clean) = (pump s = PEnd clean)"
| "main_ok sid s (MStop w clean) = (pump s = PEnd clean)"
| "main_ok sid s (MTake w clean) = (pump s = PEnd clean \<and> stopping s)"
| "main_ok sid s (MCalls w cleanly ks cl) = (slot s = None \<and> stopping s \<and> (\<exists>clean. pump s = PEnd clean)
     \<and> (case cl of None \<Rightarrow> ks = [] | Some j \<Rightarrow> settled s j \<and> (\<exists>status. last_words j (AppExited status) ks
       \<and> (Send j (AppExited status) \<in> set ks \<longrightarrow> box_wire sid (boxes s ! j) = Live))))"
| "main_ok sid s pc = (past_take pc \<longrightarrow> slot s = None \<and> stopping s \<and> (\<exists>clean. pump s = PEnd clean))"

definition session_ok :: "32 word \<Rightarrow> session \<Rightarrow> bool" where
  "session_ok sid s =
     (locks_ok s \<and> (\<forall>b \<in> set (boxes s). outbox_ok b \<and> box_wire sid b \<noteq> Garbled)
      \<and> (\<forall>c i. slot s = Some (c, i) \<longrightarrow> box_of (boxes s) c i \<and> stage (clients s c) = 2 \<and> box_wire sid (boxes s ! i) = Live)
      \<and> (\<forall>c. relay_ok sid (boxes s) (slot s) c (clients s c))
      \<and> pump_ok sid s (pump s) \<and> main_ok sid s (main s)
      \<and> (stopping s \<longrightarrow> (\<forall>c. in_attach (clients s c) \<longrightarrow> (\<exists>sz. clients s c = CCheck sz)))
      \<and> (\<forall>held. preamble s = Some held \<longrightarrow> length held \<le> MAX_CLIENT_BACKLOG_BYTES))"

lemma stage_opening: "opening_box pc = Some i \<Longrightarrow> stage pc = 1 \<and> in_attach pc"
  by (induction pc) auto

lemma displacing_attach: "displacing pc = Some i \<Longrightarrow> in_attach pc"
  by (induction pc rule: displacing.induct) auto

text \<open>What may happen to the outboxes under a relay that looks on.\<close>

lemma relay_ok_frame:
  assumes "relay_ok sid bs sl c pc" "length bs \<le> length bs'"
    and "\<And>i. i < length bs \<Longrightarrow> box_conn (bs' ! i) = box_conn (bs ! i)"
    and "\<And>i. i < length bs \<Longrightarrow> opening_box pc = Some i \<Longrightarrow>
      accepted (bs' ! i) = accepted (bs ! i) \<and> shut (bs' ! i) = shut (bs ! i)"
    and "\<And>i. i < length bs \<Longrightarrow> displacing pc = Some i \<Longrightarrow> box_wire sid (bs ! i) = Live \<Longrightarrow> box_wire sid (bs' ! i) = Live"
    and "in_attach pc \<Longrightarrow> stage pc = 2 \<Longrightarrow> sl' = sl"
  shows "relay_ok sid bs' sl' c pc"
  using assms
  by (induction sid bs sl c pc rule: relay_ok.induct)
    (auto simp: opening_ok_def box_of_def last_words_def split: option.splits, blast)


lemma session_okD:
  assumes "session_ok sid s"
  shows "locks_ok s" "b \<in> set (boxes s) \<Longrightarrow> outbox_ok b \<and> box_wire sid b \<noteq> Garbled"
    "slot s = Some (c, i) \<Longrightarrow> box_of (boxes s) c i \<and> stage (clients s c) = 2 \<and> box_wire sid (boxes s ! i) = Live"
    "relay_ok sid (boxes s) (slot s) c (clients s c)" "pump_ok sid s (pump s)" "main_ok sid s (main s)"
    "stopping s \<Longrightarrow> in_attach (clients s c) \<Longrightarrow> \<exists>sz. clients s c = CCheck sz"
    "preamble s = Some held \<Longrightarrow> length held \<le> MAX_CLIENT_BACKLOG_BYTES"
  using assms by (auto simp: session_ok_def)

text \<open>The pump and the teardown under steps of others.\<close>

lemma pump_ok_frame:
  assumes "pump_ok sid s pc" and "\<And>j. settled s j \<Longrightarrow> settled s' j"
    and "\<And>j. settled s j \<Longrightarrow> box_wire sid (boxes s ! j) \<in> {Live, GoneAway} \<Longrightarrow> box_wire sid (boxes s' ! j) \<in> {Live, GoneAway}"
  shows "pump_ok sid s' pc"
proof (cases pc)
  case (PCalls ks)
  with assms(1) obtain j data where "one_send j (Output data) ks" "settled s j"
    "Send j (Output data) \<in> set ks \<Longrightarrow> box_wire sid (boxes s ! j) \<in> {Live, GoneAway}" by auto
  with assms(2,3) PCalls show ?thesis by (auto intro!: exI[of _ j] exI[of _ data])
qed auto

lemma main_ok_frame:
  assumes "main_ok sid s pc" and "\<And>j. settled s j \<Longrightarrow> settled s' j"
    and "\<And>j. settled s j \<Longrightarrow> slot s = None \<Longrightarrow> stopping s \<Longrightarrow> \<exists>clean. pump s = PEnd clean
      \<Longrightarrow> box_wire sid (boxes s ! j) = Live \<Longrightarrow> box_wire sid (boxes s' ! j) = Live"
    and "\<And>clean. pump s = PEnd clean \<Longrightarrow> pump s' = PEnd clean" "stopping s \<Longrightarrow> stopping s'"
    and "slot s = None \<Longrightarrow> stopping s \<Longrightarrow> slot s' = None"
  shows "main_ok sid s' pc"
proof (cases pc)
  case (MCalls w cleanly ks cl)
  show ?thesis
  proof (cases cl)
    case None
    then show ?thesis using MCalls assms by auto
  next
    case (Some j)
    with assms(1) MCalls obtain status where "last_words j (AppExited status) ks" "settled s j"
      "Send j (AppExited status) \<in> set ks \<Longrightarrow> box_wire sid (boxes s ! j) = Live" "slot s = None" "stopping s"
      "\<exists>clean. pump s = PEnd clean" by auto
    with assms(2-6) MCalls Some show ?thesis by (auto intro!: exI[of _ status])
  qed
qed (use assms in auto)

text \<open>A step of a relay that leaves outboxes and slot alone.\<close>

lemma session_ok_quiet:
  assumes ok: "session_ok sid s" and "locks_ok s'"
    and same: "boxes s' = boxes s" "slot s' = slot s" "pump s' = pump s" "main s' = main s" "stopping s' = stopping s"
    and pre: "preamble s' = preamble s \<or> preamble s' = None" and pcs: "clients s' = (clients s)(c := pc')"
    and knows: "relay_ok sid (boxes s) (slot s) c pc'"
    and mono: "stage (clients s c) = 2 \<Longrightarrow> stage pc' = 2"
    and stop: "stopping s \<Longrightarrow> in_attach pc' \<Longrightarrow> \<exists>sz. pc' = CCheck sz"
  shows "session_ok sid s'"
  unfolding session_ok_def
proof (intro conjI ballI allI impI)
  have st: "settled s j \<Longrightarrow> settled s' j" for j using mono by (auto simp: settled_def same pcs)
  show "pump_ok sid s' (pump s')"
    using pump_ok_frame[OF session_okD(5)[OF ok] st] by (simp add: same)
  show "main_ok sid s' (main s')"
    using main_ok_frame[OF session_okD(6)[OF ok] st] by (simp add: same)
qed (use session_okD[OF ok] assms in \<open>auto simp: same pcs\<close>)

lemma relay_ok_attaching:
  assumes "session_ok sid s" "in_attach (clients s c)" "c' \<noteq> c"
  shows "\<not> in_attach (clients s c')" "opening_box (clients s c') = None" "displacing (clients s c') = None"
proof -
  show n: "\<not> in_attach (clients s c')" using assms session_okD(1)[OF assms(1)] by (auto simp: locks_ok_def)
  show "opening_box (clients s c') = None" "displacing (clients s c') = None"
    using n stage_opening displacing_attach by (metis not_None_eq)+
qed

lemma backlog_output: "backlog (map Output ds) = length (concat ds)"
  by (induction ds) auto

lemma concat_chunks: "0 < n \<Longrightarrow> concat (chunks n xs) = xs"
  by (induction n xs rule: chunks.induct) (subst chunks.simps, simp)

lemma output_chunk_pos: "0 < MAX_OUTPUT_CHUNK_BYTES"
  by (simp add: MAX_OUTPUT_CHUNK_BYTES_def MAX_FRAME_LEN_def)

lemma session_ok_quiet_moves:
  assumes ok: "session_ok sid s" and mv: "relay_move sid c s s'"
    and quiet: "boxes s' = boxes s" "slot s' = slot s" and notcall: "\<And>k ks pc. clients s c \<noteq> CCalls (k # ks) pc"
  shows "session_ok sid s'"
proof -
  note locks = locks_ok_relay[OF session_okD(1)[OF ok] mv]
  note knows = session_okD(4)[OF ok, of c]
  have stop: "stopping s \<Longrightarrow> in_attach (clients s c) \<Longrightarrow> \<exists>sz. clients s c = CCheck sz" by (rule session_okD(7)[OF ok])
  show ?thesis using mv
  proof cases
    case (rm_plain pc pc' sz p m)
    show ?thesis
    proof (cases "pc = CCalls [] pc'")
      case True
      then have c: "clients s c = CCalls [] pc'" using rm_plain by simp
      have "relay_ok sid (boxes s) (slot s) c pc' \<and> stage pc' = stage (clients s c)"
        using knows unfolding c by (cases pc') (auto simp: opening_ok_def)
      then show ?thesis using stop c rm_plain by (intro session_ok_quiet[OF ok locks, of c pc']) auto
    next
      case False
      then show ?thesis using rm_plain by (intro session_ok_quiet[OF ok locks, of c pc']) auto
    qed
  next
    case (rm_take sz i held)
    have "length held \<le> MAX_CLIENT_BACKLOG_BYTES" using rm_take session_okD(8)[OF ok] by simp
    then have "relay_ok sid (boxes s) (slot s) c (CCalls (map (Send i) (preamble_messages held)) (CReplace sz i))"
      using knows rm_take
      by (auto simp: opening_ok_def preamble_messages_def backlog_output concat_chunks output_chunk_pos
          intro!: exI[of _ "[]"] exI[of _ "chunks MAX_OUTPUT_CHUNK_BYTES held"])
    from session_ok_quiet[OF ok locks _ _ _ _ _ _ _ this] show ?thesis using stop rm_take by auto
  next
    case (rm_note sz i old g)
    then show ?thesis using knows stop
      by (intro session_ok_quiet[OF ok locks, of c "clients s' c"]) (auto simp: last_words_def split: option.splits)
  next
    case (rm_resize sz i g pc')
    then have "box_of (boxes s) c i" using knows session_okD(3)[OF ok] by auto
    then show ?thesis using rm_resize knows
      by (intro session_ok_quiet[OF ok locks, of c pc']) (auto simp: giving_up_def)
  next
    case (rm_apply m ev)
    then show ?thesis by (intro session_ok_quiet[OF ok locks, of c CApplying]) auto
  next
    case (rm_applied pc')
    then show ?thesis by (intro session_ok_quiet[OF ok locks, of c pc']) auto
  next
    case (rm_publish g pc' flag)
    then show ?thesis by (intro session_ok_quiet[OF ok locks, of c pc']) auto
  next
    case (rm_replace sz i)
    then have "slot s = Some (c, i)" using quiet by simp
    then show ?thesis using session_okD(3)[OF ok] rm_replace by fastforce
  next
    case (rm_call k ks pc)
    then show ?thesis using notcall by blast
  next
    case (rm_detach p i)
    then show ?thesis using quiet by simp
  qed ((rule session_ok_quiet[OF ok locks, of c "clients s' c"]; insert knows stop quiet; auto simp: opening_ok_def)+)
qed

text \<open>A new outbox.\<close>

lemma session_ok_start:
  assumes ok: "session_ok sid s" and c: "clients s c = CStart sz"
    and s': "s' = s\<lparr>boxes := boxes s @ [outbox_start c], clients := (clients s)(c := CSlot sz (length (boxes s)))\<rparr>"
    and locks: "locks_ok s'"
  shows "session_ok sid s'"
  unfolding session_ok_def
proof (intro conjI ballI allI impI)
  note old = session_okD[OF ok]
  have st: "settled s j \<Longrightarrow> settled s' j" for j using c by (auto simp: settled_def s' nth_append)
  show "pump_ok sid s' (pump s')"
    using pump_ok_frame[OF old(5) st] by (auto simp: s' nth_append settled_def)
  show "main_ok sid s' (main s')"
    using main_ok_frame[OF old(6) st] by (auto simp: s' nth_append settled_def)
  fix d
  show "relay_ok sid (boxes s') (slot s') d (clients s' d)"
  proof (cases "d = c")
    case True
    then show ?thesis
      by (simp add: s' opening_ok_def box_of_def outbox_start_def MAX_CLIENT_BACKLOG_BYTES_def)
  next
    case False
    then show ?thesis using old(4)[of d] unfolding s'
      by (auto intro!: relay_ok_frame[where bs = "boxes s" and sl = "slot s"] simp: nth_append)
  qed
next
  note old = session_okD[OF ok]
  show "outbox_ok b" "box_wire sid b \<noteq> Garbled" if "b \<in> set (boxes s')" for b
    using that old(2) outbox_ok_start by (auto simp: s') (simp add: outbox_start_def)
qed (use session_okD[OF ok] session_okD(7)[OF ok, of c] c locks in \<open>auto simp: s' box_of_def nth_append\<close>)

text \<open>A change of the slot.\<close>

lemma session_ok_slot:
  assumes ok: "session_ok sid s" and locks: "locks_ok s'"
    and same: "boxes s' = boxes s" "pump s' = pump s" "main s' = main s" "stopping s' = stopping s"
      "preamble s' = preamble s" "clients s' = (clients s)(c := pc')"
    and others: "\<And>d. d \<noteq> c \<Longrightarrow> in_attach (clients s d) \<Longrightarrow> stage (clients s d) = 2 \<Longrightarrow> slot s' = slot s"
    and stage: "stage pc' = 2"
    and knows: "relay_ok sid (boxes s) (slot s') c pc'"
    and owner: "slot s' = None \<or> (\<exists>i. slot s' = Some (c, i) \<and> box_of (boxes s) c i \<and> box_wire sid (boxes s ! i) = Live \<and> \<not> stopping s)"
    and stop: "stopping s \<Longrightarrow> \<not> in_attach pc'"
  shows "session_ok sid s'"
  unfolding session_ok_def
proof (intro conjI ballI allI impI)
  note old = session_okD[OF ok]
  have st: "settled s j \<Longrightarrow> settled s' j" for j using stage by (auto simp: settled_def same)
  show "pump_ok sid s' (pump s')"
    using pump_ok_frame[OF old(5) st] by (simp add: same)
  show "main_ok sid s' (main s')"
    using main_ok_frame[OF old(6) st] owner by (auto simp: same)
  fix d
  show "relay_ok sid (boxes s') (slot s') d (clients s' d)"
  proof (cases "d = c")
    case True
    then show ?thesis using knows by (simp add: same)
  next
    case False
    then show ?thesis using old(4)[of d] others[OF False] unfolding same
      by (auto intro!: relay_ok_frame[where bs = "boxes s" and sl = "slot s"])
  qed
qed (use session_okD[OF ok] locks owner stage stop in \<open>auto simp: same\<close>)


text \<open>The attacher past the installation is the owner.\<close>

lemma relay_ok_owner:
  "relay_ok sid bs sl c pc \<Longrightarrow> in_attach pc \<Longrightarrow> stage pc = 2 \<Longrightarrow> \<exists>i. sl = Some (c, i)"
  by (induction sid bs sl c pc rule: relay_ok.induct) auto

lemma wire_opened: "wire_state sid (Attached sid # map Output ds) = Live"
proof -
  have "fold (wire_next sid) (map Output ds) Live = Live" by (induction ds) auto
  then show ?thesis by (simp add: wire_state_def)
qed

lemma opening_not_settled:
  assumes "box_of (boxes s) c i" "stage (clients s c) = 1"
  shows "\<not> settled s i"
  using assms by (auto simp: settled_def box_of_def)

lemma session_ok_replace:
  assumes ok: "session_ok sid s" and mv: "relay_move sid c s s'" and c: "clients s c = CReplace sz i"
    and s': "s' = s\<lparr>slot := Some (c, i), attached_generation := Suc (attached_generation s), slot_lock := None,
      app_log := app_log s @ [Owns c],
      clients := (clients s)(c := CNote sz i (map_option snd (slot s)) (Suc (attached_generation s)))\<rparr>"
  shows "session_ok sid s'"
proof -
  from session_okD(4)[OF ok, of c] c obtain ds where o: "box_of (boxes s) c i"
    "accepted (boxes s ! i) = Attached sid # map Output ds" by (auto simp: opening_ok_def)
  have live: "box_wire sid (boxes s ! i) = Live" using o(2) wire_opened by simp
  have run: "\<not> stopping s" using session_okD(7)[OF ok, of c] c by auto
  have "j < length (boxes s) \<and> j \<noteq> i \<and> box_wire sid (boxes s ! j) = Live" if "slot s = Some (c0, j)" for c0 j
    using session_okD(3)[OF ok that] o(1) c by (auto simp: box_of_def)
  then have "relay_ok sid (boxes s) (slot s') c (CNote sz i (map_option snd (slot s)) (Suc (attached_generation s)))"
    by (auto simp: s' split: option.splits)
  then show ?thesis
    using o(1) live run relay_ok_attaching[OF ok, of c] c
    by (intro session_ok_slot[OF ok locks_ok_relay[OF session_okD(1)[OF ok] mv], of c]) (auto simp: s')
qed

lemma session_ok_detach:
  assumes ok: "session_ok sid s" and mv: "relay_move sid c s s'" and c: "clients s c = CDetach p" "slot s = Some (c, i)"
    and s': "s' = s\<lparr>slot := None, attached_generation := Suc (attached_generation s), app_log := app_log s @ [Released],
      clients := (clients s)(c := CCalls [Abandon i] (CPublishOff (Suc (attached_generation s))))\<rparr>"
  shows "session_ok sid s'"
proof (rule session_ok_slot[OF ok locks_ok_relay[OF session_okD(1)[OF ok] mv], of c])
  show "slot s' = slot s" if "d \<noteq> c" "in_attach (clients s d)" "stage (clients s d) = 2" for d
    using relay_ok_owner[OF session_okD(4)[OF ok] that(2,3)] c(2) that(1) by simp
  show "relay_ok sid (boxes s) (slot s') c (CCalls [Abandon i] (CPublishOff (Suc (attached_generation s))))"
    using session_okD(3)[OF ok c(2)] by (auto simp: giving_up_def)
qed (simp_all add: s')

section \<open>Calls into outboxes\<close>

fun call_target :: "outbox_call \<Rightarrow> box_id" where
  "call_target (Send i m) = i" | "call_target (Abandon i) = i" | "call_target (HangUp i) = i" | "call_target (Finish i) = i"

fun call_effect :: "outbox_call \<Rightarrow> outbox \<Rightarrow> outbox" where
  "call_effect (Send i m) b = fst (outbox_send m b)"
| "call_effect (Abandon i) b = fst (outbox_abandon b)"
| "call_effect (HangUp i) b = b"
| "call_effect (Finish i) b = outbox_finish b"

lemma run_call_boxes [simp]:
  "boxes (fst (run_call k s)) = (boxes s)[call_target k := call_effect k (boxes s ! call_target k)]"
  by (cases k) (auto simp: Let_def split_beta disconnect_def)

lemma call_effect_keeps [simp]:
  "box_conn (call_effect k b) = box_conn b" "outbox_ok b \<Longrightarrow> outbox_ok (call_effect k b)"
  by (cases k; simp add: outbox_ok_send outbox_ok_abandon outbox_ok_finish)+

lemma call_effect_accepted: "accepted (call_effect k b) =
    accepted b @ (case k of Send i m \<Rightarrow> if shut b then [] else [m] | _ \<Rightarrow> [])"
  by (cases k) (auto simp: outbox_send_accepted)

lemma updated_box:
  assumes "i < length bs"
  shows "box_finished (bs[j := call_effect k (bs ! j)] ! i) = (box_finished (bs ! i) \<or> i = j \<and> (\<exists>j. k = Finish j))"
    and "abandoned (bs[j := call_effect k (bs ! j)] ! i) = (abandoned (bs ! i) \<or> i = j \<and> (\<exists>j. k = Abandon j))"
    and "\<forall>j m. k \<noteq> Send j m \<Longrightarrow> accepted (bs[j := call_effect k (bs ! j)] ! i) = accepted (bs ! i)"
  using assms by (cases "i = j"; cases k; auto)+

lemma run_call_next:
  "snd (run_call (Send i m) s) = (if snd (outbox_send m (boxes s ! i)) then [Abandon i] else [])"
  "snd (run_call (Abandon i) s) = (if abandoned (boxes s ! i) then [] else [HangUp i])"
  "snd (run_call (HangUp i) s) = []" "snd (run_call (Finish i) s) = []"
  by (auto simp: Let_def split_beta outbox_abandon_def)

text \<open>One call into an outbox by any thread: what is to be shown of it.\<close>

lemma session_ok_call:
  assumes ok: "session_ok sid s" and locks: "locks_ok s'"
    and bs: "boxes s' = (boxes s)[i := b]" and box: "i < length (boxes s)" "outbox_ok b" "box_conn b = box_conn (boxes s ! i)"
      "box_wire sid b \<noteq> Garbled"
    and same: "slot s' = slot s" "stopping s' = stopping s" "preamble s' = preamble s"
    and stage: "\<And>d. stage (clients s' d) = stage (clients s d)"
    and owner: "\<And>d. slot s = Some (d, i) \<Longrightarrow> box_wire sid b = Live"
    and relays: "\<And>d. relay_ok sid (boxes s') (slot s) d (clients s' d)"
    and others: "pump_ok sid s' (pump s')" "main_ok sid s' (main s')"
    and stop: "\<And>d. stopping s \<Longrightarrow> in_attach (clients s' d) \<Longrightarrow> \<exists>sz. clients s' d = CCheck sz"
  shows "session_ok sid s'"
  unfolding session_ok_def
proof (intro conjI ballI allI impI)
  fix x assume "x \<in> set (boxes s')"
  then show "outbox_ok x" "box_wire sid x \<noteq> Garbled"
    using session_okD(2)[OF ok] box set_update_subset_insert[of "boxes s" i b] by (auto simp: bs)
next
  fix c j assume "slot s' = Some (c, j)"
  then show "box_of (boxes s') c j" "stage (clients s' c) = 2" "box_wire sid (boxes s' ! j) = Live"
    using session_okD(3)[OF ok] box stage owner same by (auto simp: bs box_of_def nth_list_update)
qed (use session_okD(8)[OF ok] locks relays others stop same in auto)

lemma settled_call:
  assumes "boxes s' = (boxes s)[i := b]" "box_conn b = box_conn (boxes s ! i)" "\<And>d. stage (clients s' d) = stage (clients s d)"
  shows "settled s' j = settled s j"
  using assms by (cases "j = i") (auto simp: settled_def nth_list_update)


lemma relay_ok_opening: "relay_ok sid bs sl c pc \<Longrightarrow> opening_box pc = Some i \<Longrightarrow> box_of bs c i"
  by (induction sid bs sl c pc rule: relay_ok.induct) (auto simp: opening_ok_def)

lemma opening_send:
  assumes "opening_ok sid bs c i sent (m # left)" "outbox_ok (bs ! i)"
  shows "\<not> snd (outbox_send m (bs ! i))" "opening_ok sid (bs[i := fst (outbox_send m (bs ! i))]) c i (sent @ [m]) left"
proof -
  let ?b = "fst (outbox_send m (bs ! i))"
  have a: "accepted ?b = sent @ [m]" using assms(1) by (simp add: opening_ok_def outbox_send_accepted)
  have "outbox_ok ?b" using assms(2) by (rule outbox_ok_send)
  then have "backlog (queued ?b) \<le> backlog (accepted ?b)" using assms(1) by (auto simp: outbox_ok_def opening_ok_def)
  then have "backlog (queued ?b) \<le> MAX_CLIENT_BACKLOG_BYTES" using assms(1) a by (simp add: opening_ok_def)
  then show "\<not> snd (outbox_send m (bs ! i))" using outbox_send_overflow[OF assms(2), of m] by auto
  show "opening_ok sid (bs[i := ?b]) c i (sent @ [m]) left" using assms(1) a by (simp add: opening_ok_def box_of_def)
qed

text \<open>The opening messages: no one else knows the outbox, and they never overflow it.\<close>

lemma session_ok_opening_call:
  assumes ok: "session_ok sid s" and mv: "relay_move sid c s s'" and c: "clients s c = CCalls (Send i m # ks) pc"
    and s': "s' = (fst (run_call (Send i m) s))\<lparr>clients := (clients s)(c := CCalls (snd (run_call (Send i m) s) @ ks) pc)\<rparr>"
    and op: "stage pc = 1" "in_attach pc" "opening_ok sid (boxes s) c i sent (m # left)"
    and wire: "wire_state sid (sent @ [m]) \<noteq> Garbled"
    and knows: "\<And>bs. opening_ok sid bs c i (sent @ [m]) left \<Longrightarrow> relay_ok sid bs (slot s) c (CCalls ks pc)"
  shows "session_ok sid s'"
proof -
  let ?b = "fst (outbox_send m (boxes s ! i))"
  have i: "i < length (boxes s)" "box_conn (boxes s ! i) = c" using op(3) by (auto simp: opening_ok_def box_of_def)
  then have box: "outbox_ok (boxes s ! i)" using session_okD(2)[OF ok] by simp
  note sent = opening_send[OF op(3) box]
  have bs: "boxes s' = (boxes s)[i := ?b]" and cl: "clients s' = (clients s)(c := CCalls ks pc)"
    using sent(1) unfolding s' by (simp_all add: Let_def split_beta)
  have notset: "\<not> settled s i" using opening_not_settled[of s c i] i c op(1) by (simp add: box_of_def)
  have stage: "stage (clients s' d) = stage (clients s d)" for d by (simp add: cl c)
  have st: "settled s' j = settled s j" for j by (rule settled_call[OF bs _ stage]) simp
  have mains: "pump s' = pump s" "main s' = main s" by (simp_all add: s' Let_def split_beta)
  have away: "settled s j \<Longrightarrow> boxes s' ! j = boxes s ! j" for j using notset by (cases "j = i") (auto simp: bs)
  have run: "\<not> stopping s" using session_okD(7)[OF ok, of c] c op by auto
  show ?thesis
  proof (rule session_ok_call[OF ok locks_ok_relay[OF session_okD(1)[OF ok] mv] bs i(1)])
    show "relay_ok sid (boxes s') (slot s) d (clients s' d)" for d
    proof (cases "d = c")
      case True
      then show ?thesis using knows[OF sent(2)] by (simp add: cl bs)
    next
      case False
      then have "opening_box (clients s d) = None" "displacing (clients s d) = None"
        using relay_ok_attaching[OF ok, of c d] c op by auto
      then show ?thesis using False session_okD(4)[OF ok, of d] i
        by (auto simp: cl bs nth_list_update intro!: relay_ok_frame[where bs = "boxes s" and sl = "slot s"])
    qed
    show "pump_ok sid s' (pump s')"
      using pump_ok_frame[OF session_okD(5)[OF ok], of s'] st away by (simp add: mains)
    show "main_ok sid s' (main s')"
      using main_ok_frame[OF session_okD(6)[OF ok], of s'] st away run by (simp add: mains)
    show "box_wire sid ?b = Live" if "slot s = Some (d, i)" for d
      using session_okD(3)[OF ok that] i c op(1) by (simp add: box_of_def)
    show "box_wire sid ?b \<noteq> Garbled" using op(3) wire by (simp add: outbox_send_accepted opening_ok_def)
  qed (use box run stage outbox_ok_send in \<open>auto simp: s' Let_def split_beta\<close>)
qed

text \<open>Any other call: into an outbox nobody is opening.\<close>

lemma session_ok_known_call:
  assumes ok: "session_ok sid s" and locks: "locks_ok s'"
    and bs: "boxes s' = (boxes s)[i := call_effect k (boxes s ! i)]" and i: "i < length (boxes s)"
    and known: "\<And>d. opening_box (clients s d) \<noteq> Some i"
    and same: "slot s' = slot s" "stopping s' = stopping s" "preamble s' = preamble s"
    and stage: "\<And>d. stage (clients s' d) = stage (clients s d)"
    and live: "\<And>d. slot s = Some (d, i) \<Longrightarrow> box_wire sid (call_effect k (boxes s ! i)) = Live"
    and good: "box_wire sid (call_effect k (boxes s ! i)) \<noteq> Garbled"
    and relays: "\<And>d. clients s' d = clients s d \<or> relay_ok sid (boxes s') (slot s) d (clients s' d)"
    and displacing: "\<And>d. clients s' d = clients s d \<Longrightarrow> displacing (clients s d) = Some i \<Longrightarrow> box_wire sid (boxes s ! i) = Live
      \<Longrightarrow> box_wire sid (call_effect k (boxes s ! i)) = Live"
    and others: "pump_ok sid s' (pump s')" "main_ok sid s' (main s')"
    and stop: "\<And>d. stopping s \<Longrightarrow> in_attach (clients s' d) \<Longrightarrow> \<exists>sz. clients s' d = CCheck sz"
  shows "session_ok sid s'"
proof (rule session_ok_call[OF ok locks bs])
  show "relay_ok sid (boxes s') (slot s) d (clients s' d)" for d
  proof (cases "clients s' d = clients s d")
    case True
    then show ?thesis using known[of d] session_okD(4)[OF ok, of d] i displacing[OF True]
      by (auto simp: bs nth_list_update intro!: relay_ok_frame[where bs = "boxes s" and sl = "slot s"])
  next
    case False
    then show ?thesis using relays by blast
  qed
qed (use assms session_okD(2)[OF ok] in auto)


text \<open>A pending list of calls stays of its form, and a message is sent once.\<close>

lemma pending_next:
  assumes "ks' = snd (run_call k s) @ ks"
  shows "last_words j m (k # ks) \<Longrightarrow> last_words j m ks' \<and> Send j m \<notin> set ks'"
    and "one_send j m (k # ks) \<Longrightarrow> one_send j m ks' \<and> Send j m \<notin> set ks'"
    and "giving_up j (k # ks) \<Longrightarrow> giving_up j ks'"
  using assms by (auto simp: last_words_def one_send_def giving_up_def split_beta split: if_splits)

lemma settled_known:
  assumes "session_ok sid s" "settled s i"
  shows "i < length (boxes s)" "opening_box (clients s d) \<noteq> Some i"
  using assms relay_ok_opening[OF session_okD(4)[OF assms(1), of d], of i] stage_opening[of "clients s d" i]
    opening_not_settled[of s d i] by (auto simp: settled_def)


text \<open>A relay's call that is not an opening one changes the wire only when it displaces somebody.\<close>

lemma session_ok_relay_known:
  assumes ok: "session_ok sid s" and mv: "relay_move sid c s s'" and c: "clients s c = CCalls (k # ks) pc"
    and s': "s' = (fst (run_call k s))\<lparr>clients := (clients s)(c := CCalls (snd (run_call k s) @ ks) pc)\<rparr>"
    and j: "call_target k = j" "j < length (boxes s)" "\<And>d. opening_box (clients s d) \<noteq> Some j"
    and owner: "\<And>d. slot s = Some (d, j) \<Longrightarrow> \<forall>m. k \<noteq> Send j m"
    and send: "\<And>m. k = Send j m \<Longrightarrow> m = Displaced \<and> box_wire sid (boxes s ! j) = Live \<and> in_attach pc \<and> stage pc = 2"
    and knows: "\<And>bs. length bs = length (boxes s) \<Longrightarrow> box_conn (bs ! j) = box_conn (boxes s ! j)
      \<Longrightarrow> relay_ok sid bs (slot s) c (CCalls (snd (run_call k s) @ ks) pc)"
  shows "session_ok sid s'"
proof -
  let ?b = "call_effect k (boxes s ! j)"
  have bs: "boxes s' = (boxes s)[j := ?b]" by (simp add: s' j(1))
  have mains: "pump s' = pump s" "main s' = main s" "slot s' = slot s" "stopping s' = stopping s" "preamble s' = preamble s"
    and cl: "clients s' = (clients s)(c := CCalls (snd (run_call k s) @ ks) pc)" by (simp_all add: s')
  have stage: "stage (clients s' d) = stage (clients s d)" for d by (simp add: cl c)
  have st: "settled s' i = settled s i" for i by (rule settled_call[OF bs _ stage]) simp
  have wire: "box_wire sid ?b = box_wire sid (boxes s ! j) \<or>
      k = Send j Displaced \<and> box_wire sid (boxes s ! j) = Live \<and> box_wire sid ?b = GoneAway"
    using send j(1) by (cases k) (auto simp: outbox_send_accepted)
  have good: "box_wire sid (boxes s ! j) \<noteq> Garbled" using session_okD(2)[OF ok] j(2) by auto
  show ?thesis
  proof (rule session_ok_known_call[OF ok locks_ok_relay[OF session_okD(1)[OF ok] mv] bs j(2,3) mains(3-5) stage])
    show "box_wire sid ?b = Live" if "slot s = Some (d, j)" for d
      using wire owner[OF that] session_okD(3)[OF ok that] by auto
    show "clients s' d = clients s d \<or> relay_ok sid (boxes s') (slot s) d (clients s' d)" for d
      using knows[of "boxes s'"] j(2) by (auto simp: cl bs)
    show "box_wire sid ?b = Live" if d: "clients s' d = clients s d" "displacing (clients s d) = Some j"
      and live: "box_wire sid (boxes s ! j) = Live" for d
    proof (rule ccontr)
      assume "box_wire sid ?b \<noteq> Live"
      then have k: "k = Send j Displaced" using wire live by auto
      then have "in_attach pc" using send by blast
      then have "d = c" using relay_ok_attaching(3)[OF ok, of c d] c d(2) by auto
      then show False using d(1) by (auto simp: cl c k split_beta split: if_splits)
    qed
    show "pump_ok sid s' (pump s')"
      unfolding mains
      by (rule pump_ok_frame[OF session_okD(5)[OF ok]])
        (use st wire j(2) in \<open>auto simp: bs nth_list_update\<close>)
    have "box_wire sid ?b = Live" if "slot s = None" "box_wire sid (boxes s ! j) = Live"
      using wire that send relay_ok_owner[OF session_okD(4)[OF ok, of c]] c by force
    then show "main_ok sid s' (main s')"
      unfolding mains
      by (intro main_ok_frame[OF session_okD(6)[OF ok]]) (use st j(2) in \<open>auto simp: bs nth_list_update mains\<close>)
    show "\<exists>sz. clients s' d = CCheck sz" if "stopping s" "in_attach (clients s' d)" for d
      using session_okD(7)[OF ok that(1), of d] that(2) c session_okD(7)[OF ok that(1), of c] by (auto simp: cl split: if_splits)
    show "box_wire sid ?b \<noteq> Garbled" using wire good by auto
  qed
qed

lemma session_ok_relay_call:
  assumes ok: "session_ok sid s" and mv: "relay_move sid c s s'" and c: "clients s c = CCalls (k # ks) pc"
    and s': "s' = (fst (run_call k s))\<lparr>clients := (clients s)(c := CCalls (snd (run_call k s) @ ks) pc)\<rparr>"
  shows "session_ok sid s'"
proof -
  have knows: "relay_ok sid (boxes s) (slot s) c (CCalls (k # ks) pc)" using session_okD(4)[OF ok, of c] c by simp
  have give: ?thesis if g: "giving_up j (k # ks)" "box_of (boxes s) c j" and pc: "stage pc = 2"
      "\<And>bs ks. giving_up j ks \<Longrightarrow> box_of bs c j \<Longrightarrow> relay_ok sid bs (slot s) c (CCalls ks pc)" for j
  proof (rule session_ok_relay_known[OF ok mv c s', of j])
    have "settled s j" using g pc c by (simp add: settled_def box_of_def)
    then show "j < length (boxes s)" "\<And>d. opening_box (clients s d) \<noteq> Some j" by (rule settled_known[OF ok])+
    show "relay_ok sid bs (slot s) c (CCalls (snd (run_call k s) @ ks) pc)"
      if "length bs = length (boxes s)" "box_conn (bs ! j) = box_conn (boxes s ! j)" for bs
      using g that pending_next(3)[OF refl g(1)] by (intro pc(2)) (auto simp: giving_up_def box_of_def)
  qed (use g in \<open>auto simp: giving_up_def\<close>)
  show ?thesis
  proof (cases pc)
    case (CTake sz i)
    obtain sent left where "k # ks = map (Send i) left" "sent @ left = [Attached sid]"
      "opening_ok sid (boxes s) c i sent left" using knows unfolding CTake relay_ok.simps by (elim exE conjE) (rule that)
    then have k: "k = Send i (Attached sid)" "ks = []" "opening_ok sid (boxes s) c i [] [Attached sid]"
      by (auto simp: append_eq_Cons_conv)
    show ?thesis
      by (rule session_ok_opening_call[OF ok mv c[unfolded k(1)] s'[unfolded k(1)] _ _ k(3)])
        (use k CTake wire_opened[of sid "[]"] in \<open>auto intro: exI[of _ "[Attached sid]"]\<close>)
  next
    case (CReplace sz i)
    obtain sent left where l: "k # ks = map (Send i \<circ> Output) left"
      "opening_ok sid (boxes s) c i (Attached sid # map Output sent) (map Output left)"
      using knows unfolding CReplace relay_ok.simps by (elim exE conjE) (rule that)
    then obtain d ds where k: "left = d # ds" "k = Send i (Output d)" "ks = map (Send i \<circ> Output) ds" by (cases left) auto
    have op: "opening_ok sid (boxes s) c i (Attached sid # map Output sent) (Output d # map Output ds)" using l k by simp
    have kn: "relay_ok sid bs (slot s) c (CCalls ks pc)"
      if "opening_ok sid bs c i ((Attached sid # map Output sent) @ [Output d]) (map Output ds)" for bs
      unfolding CReplace relay_ok.simps by (rule exI[of _ "sent @ [d]"], rule exI[of _ ds]) (use that k in simp)
    show ?thesis
      by (rule session_ok_opening_call[OF ok mv c[unfolded k(2)] s'[unfolded k(2)] _ _ op _ kn])
        (use CReplace wire_opened[of sid "sent @ [d]"] in simp_all)
  next
    case (CResize sz i g)
    with knows obtain j where j: "slot s = Some (c, i)" "last_words j Displaced (k # ks)" "j < length (boxes s)" "j \<noteq> i"
      "k = Send j Displaced \<Longrightarrow> box_wire sid (boxes s ! j) = Live" by auto
    show ?thesis
    proof (rule session_ok_relay_known[OF ok mv c s', of j])
      show "opening_box (clients s d) \<noteq> Some j" for d
        using relay_ok_attaching(2)[OF ok, of c d] c CResize by (cases "d = c") auto
      show "relay_ok sid bs (slot s) c (CCalls (snd (run_call k s) @ ks) pc)"
        if "length bs = length (boxes s)" "box_conn (bs ! j) = box_conn (boxes s ! j)" for bs
        using j that CResize pending_next(1)[OF refl j(2)] by auto
    qed (use j CResize in \<open>auto simp: last_words_def\<close>)
  next
    case (CDetach p)
    then show ?thesis using knows give by auto
  next
    case (CPublishOff g)
    then show ?thesis using knows give by auto
  qed (use knows in auto)
qed

lemma session_ok_relay:
  assumes ok: "session_ok sid s" and mv: "relay_move sid c s s'"
  shows "session_ok sid s'"
  using mv
proof cases
  case (rm_start sz)
  then show ?thesis using session_ok_start[OF ok] locks_ok_relay[OF session_okD(1)[OF ok] mv] by blast
next
  case (rm_replace sz i)
  then show ?thesis using session_ok_replace[OF ok mv] by blast
next
  case (rm_detach p i)
  then show ?thesis using session_ok_detach[OF ok mv] by blast
next
  case (rm_call k ks pc)
  then show ?thesis using session_ok_relay_call[OF ok mv] by blast
qed (rule session_ok_quiet_moves[OF ok mv]; auto)+


section \<open>The other threads\<close>

text \<open>A step that leaves alone what the invariant speaks of, up to the pump and the teardown.\<close>

lemma session_ok_elsewhere:
  assumes ok: "session_ok sid s" and locks: "locks_ok s'"
    and same: "boxes s' = boxes s" "slot s' = slot s" "clients s' = clients s"
    and more: "stopping s' = stopping s" "preamble s' = preamble s"
    and pump: "pump_ok sid s (pump s')" and main: "main_ok sid s' (main s')"
  shows "session_ok sid s'"
proof -
  have st: "settled s' j = settled s j" for j by (simp add: settled_def same)
  have "pump_ok sid s' (pump s')" using pump_ok_frame[OF pump] st by (simp add: same)
  then show ?thesis using ok locks main by (auto simp: session_ok_def same more)
qed

lemma main_ok_same:
  assumes "main_ok sid s pc" "boxes s' = boxes s" "slot s' = slot s" "clients s' = clients s" "pump s' = pump s"
    "stopping s' = stopping s"
  shows "main_ok sid s' pc"
proof -
  have "settled s' j = settled s j" for j using assms by (simp add: settled_def)
  then show ?thesis using main_ok_frame[OF assms(1)] assms by simp
qed

lemma session_ok_writer:
  assumes ok: "session_ok sid s" and i: "i < length (boxes s)" and w: "writer_step res (boxes s ! i) = Some b"
    and s': "s' = s\<lparr>boxes := (boxes s)[i := b], hung_up := h\<rparr>"
  shows "session_ok sid s'"
proof -
  note keep = writer_step_keeps[OF w]
  have bs: "boxes s' = (boxes s)[i := b]" by (simp add: s')
  have nth: "accepted (boxes s' ! j) = accepted (boxes s ! j) \<and> shut (boxes s' ! j) = shut (boxes s ! j)
      \<and> box_conn (boxes s' ! j) = box_conn (boxes s ! j)" for j
    using keep i by (cases "j = i") (auto simp: bs)
  have st: "settled s' j = settled s j" for j by (rule settled_call[OF bs keep(4)]) (simp add: s')
  have box: "outbox_ok (boxes s ! i) \<and> box_wire sid (boxes s ! i) \<noteq> Garbled" using session_okD(2)[OF ok] i by simp
  show ?thesis
  proof (rule session_ok_call[OF ok _ bs i])
    show "relay_ok sid (boxes s') (slot s) d (clients s' d)" for d
      using session_okD(4)[OF ok, of d] nth
      by (auto simp: s' bs intro!: relay_ok_frame[where bs = "boxes s" and sl = "slot s"])
    show "pump_ok sid s' (pump s')"
      using pump_ok_frame[OF session_okD(5)[OF ok], of s'] st nth by (simp add: s')
    show "main_ok sid s' (main s')"
      using main_ok_frame[OF session_okD(6)[OF ok], of s'] st nth by (simp add: s')
    show "locks_ok s'" using session_okD(1)[OF ok] by (simp add: s' locks_ok_def)
    show "outbox_ok b" using box outbox_ok_writer[OF _ w] by blast
  qed (use keep box session_okD(3,7)[OF ok] in \<open>auto simp: s'\<close>)
qed

lemma session_ok_pump_call:
  assumes ok: "session_ok sid s" and p: "pump s = PCalls (k # ks)"
    and s': "s' = (fst (run_call k s))\<lparr>pump := PCalls (snd (run_call k s) @ ks)\<rparr>"
  shows "session_ok sid s'"
proof -
  obtain j data where j: "one_send j (Output data) (k # ks)" "settled s j"
      "Send j (Output data) \<in> set (k # ks) \<Longrightarrow> box_wire sid (boxes s ! j) \<in> {Live, GoneAway}"
    using session_okD(5)[OF ok] p by auto
  let ?b = "call_effect k (boxes s ! j)"
  have k: "call_target k = j" "k = Send j m \<Longrightarrow> m = Output data" for m using j(1) by (auto simp: one_send_def)
  have bs: "boxes s' = (boxes s)[j := ?b]" by (simp add: s' k(1))
  note jl = settled_known[OF ok j(2)]
  have st: "settled s' i = settled s i" for i by (rule settled_call[OF bs]) (simp_all add: s')
  have good: "box_wire sid (boxes s ! j) \<noteq> Garbled" using session_okD(2)[OF ok] jl(1) by auto
  have wire: "box_wire sid ?b = box_wire sid (boxes s ! j) \<or> box_wire sid (boxes s ! j) = GoneAway \<and> box_wire sid ?b = StaleOut"
    using j(3) k(1) k(2) by (cases k) (auto simp: outbox_send_accepted)
  show ?thesis
  proof (rule session_ok_known_call[OF ok _ bs jl])
    show "locks_ok s'" using session_okD(1)[OF ok] by (simp add: s' locks_ok_def)
    show "box_wire sid ?b = Live" if "slot s = Some (d, j)" for d
      using wire session_okD(3)[OF ok that] by auto
    have "one_send j (Output data) (snd (run_call k s) @ ks) \<and> Send j (Output data) \<notin> set (snd (run_call k s) @ ks)"
      using pending_next(2)[OF refl j(1)] .
    then show "pump_ok sid s' (pump s')" using j(2) st by (auto simp: s')
    show "main_ok sid s' (main s')"
      using main_ok_frame[OF session_okD(6)[OF ok], of s'] st p by (simp add: s')
  qed (use wire good session_okD(7)[OF ok] in \<open>auto simp: s'\<close>)
qed

lemma session_ok_main_call:
  assumes ok: "session_ok sid s" and p: "main s = MCalls w cleanly (k # ks) cl"
    and s': "s' = (fst (run_call k s))\<lparr>main := MCalls w cleanly (snd (run_call k s) @ ks) cl\<rparr>"
  shows "session_ok sid s'"
proof -
  from session_okD(6)[OF ok] p obtain j where cl: "cl = Some j" by (cases cl) auto
  with session_okD(6)[OF ok] p obtain status clean where j: "last_words j (AppExited status) (k # ks)" "settled s j"
      "Send j (AppExited status) \<in> set (k # ks) \<Longrightarrow> box_wire sid (boxes s ! j) = Live"
    and fin: "slot s = None" "stopping s" "pump s = PEnd clean" by auto
  let ?b = "call_effect k (boxes s ! j)"
  have k: "call_target k = j" "k = Send j m \<Longrightarrow> m = AppExited status" for m using j(1) by (auto simp: last_words_def)
  have bs: "boxes s' = (boxes s)[j := ?b]" by (simp add: s' k(1))
  note jl = settled_known[OF ok j(2)]
  have st: "settled s' i = settled s i" for i by (rule settled_call[OF bs]) (simp_all add: s')
  have good: "box_wire sid (boxes s ! j) \<noteq> Garbled" using session_okD(2)[OF ok] jl(1) by auto
  have wire: "box_wire sid ?b = box_wire sid (boxes s ! j) \<or> box_wire sid ?b = Ended"
    using j(3) k(1) k(2) by (cases k) (auto simp: outbox_send_accepted)
  show ?thesis
  proof (rule session_ok_known_call[OF ok _ bs jl])
    show "locks_ok s'" using session_okD(1)[OF ok] p by (simp add: s' locks_ok_def)
    show "box_wire sid ?b = Live" if "displacing (clients s d) = Some j" for d
    proof -
      have "in_attach (clients s d)" by (rule displacing_attach[OF that])
      then obtain sz where "clients s d = CCheck sz" using session_okD(7)[OF ok fin(2)] by blast
      then show ?thesis using that by simp
    qed
    show "pump_ok sid s' (pump s')" using fin by (simp add: s')
    have "last_words j (AppExited status) (snd (run_call k s) @ ks) \<and> Send j (AppExited status) \<notin> set (snd (run_call k s) @ ks)"
      using pending_next(1)[OF refl j(1)] .
    then show "main_ok sid s' (main s')" using j(2) st fin cl by (auto simp: s')
  qed (use wire good session_okD(7)[OF ok] fin in \<open>auto simp: s'\<close>)
qed

lemma session_ok_route:
  assumes ok: "session_ok sid s" and p: "pump s = PRoute bytes"
  shows "session_ok sid (route_output bytes s)"
proof (cases "slot s")
  case (Some ci)
  obtain c i where ci: "slot s = Some (c, i)" using Some by (cases ci) auto
  have "settled s i" "box_wire sid (boxes s ! i) = Live" using session_okD(3)[OF ok ci] by (auto simp: settled_def box_of_def)
  then show ?thesis
    using main_ok_frame[OF session_okD(6)[OF ok], of "route_output bytes s"] session_okD(1)[OF ok] p ci
    by (intro session_ok_elsewhere[OF ok])
      (auto simp: route_output_def locks_ok_def one_send_def settled_def)
next
  case None
  let ?s = "s\<lparr>routed := routed s @ [(None, bytes)], pump := PCheck\<rparr>"
  have "session_ok sid ?s"
    using main_ok_frame[OF session_okD(6)[OF ok], of ?s] session_okD(1)[OF ok] p
    by (intro session_ok_elsewhere[OF ok]) (auto simp: locks_ok_def settled_def)
  moreover have "session_ok sid (x\<lparr>preamble := Some held\<rparr>)" if "session_ok sid x" "length held \<le> MAX_CLIENT_BACKLOG_BYTES" for x held
    using that pump_ok_frame[OF session_okD(5)[OF that(1)], of "x\<lparr>preamble := Some held\<rparr>"]
      main_ok_same[OF session_okD(6)[OF that(1)], of "x\<lparr>preamble := Some held\<rparr>"]
    by (auto simp: session_ok_def locks_ok_def settled_def)
  ultimately show ?thesis using None session_okD(8)[OF ok]
    by (auto simp: route_output_def hold_for_first_client_def split: option.splits)
qed


lemma session_ok_no_attach:
  assumes "session_ok sid s" "attach_lock s = Some HMain"
  shows "\<not> in_attach (clients s c)"
  using session_okD(1)[OF assms(1)] assms(2) by (simp add: locks_ok_def)

lemma session_ok_main_take:
  assumes ok: "session_ok sid s" and m: "main s = MTake w clean" and locks: "locks_ok s'"
    and s': "s' = s\<lparr>main := MCalls w clean (farewell w clean (map_option snd (slot s))) (map_option snd (slot s)), slot := None,
      attach_lock := None, app_log := app_log s @ [Released]\<rparr>"
  shows "session_ok sid s'"
proof -
  have lock: "attach_lock s = Some HMain" using session_okD(1)[OF ok] m by (simp add: locks_ok_def)
  have st: "settled s' j = settled s j" for j by (simp add: settled_def s')
  have fin: "pump s = PEnd clean" "stopping s" using session_okD(6)[OF ok] m by auto
  have "settled s i \<and> box_wire sid (boxes s ! i) = Live" if "slot s = Some (c, i)" for c i
    using session_okD(3)[OF ok that] by (auto simp: settled_def box_of_def)
  then have "main_ok sid s' (main s')"
    using st fin by (cases "slot s") (auto simp: s' farewell_def last_words_def split: option.splits)
  moreover have "relay_ok sid (boxes s) None c (clients s c)" for c
    using session_okD(4)[OF ok, of c] session_ok_no_attach[OF ok lock, of c]
    by (auto intro: relay_ok_frame[where bs = "boxes s" and sl = "slot s"])
  moreover have "pump_ok sid s' (pump s')" using fin by (simp add: s')
  ultimately show ?thesis using session_okD[OF ok] locks by (auto simp: session_ok_def s')
qed

lemma session_ok_other:
  assumes ok: "session_ok sid s" and mv: "other_move s s'"
  shows "session_ok sid s'"
proof -
  note locks = locks_ok_other[OF session_okD(1)[OF ok] mv]
  note parts = session_okD(5,6)[OF ok]
  show ?thesis using mv
  proof cases
    case (om_writer i res b h)
    then show ?thesis using session_ok_writer[OF ok] by blast
  next
    case (om_route bytes)
    then show ?thesis using session_ok_route[OF ok] by blast
  next
    case (om_pump_call k ks)
    then show ?thesis using session_ok_pump_call[OF ok] by blast
  next
    case (om_main_call w clean k ks cl)
    then show ?thesis using session_ok_main_call[OF ok] by blast
  next
    case (om_main_take w clean cl)
    then show ?thesis using session_ok_main_take[OF ok _ locks] by blast
  next
    case (om_main_stop w clean)
    then have "attach_lock s = Some HMain" using session_okD(1)[OF ok] by (simp add: locks_ok_def)
    then have "\<not> in_attach (clients s c)" for c by (rule session_ok_no_attach[OF ok])
    moreover have "pump_ok sid s' (pump s')" using om_main_stop parts by simp
    ultimately show ?thesis using om_main_stop session_okD[OF ok] locks by (auto simp: session_ok_def)
  next
    case (om_accept c)
    have st: "settled s' j = settled s j" for j using om_accept by (auto simp: settled_def)
    have "pump_ok sid s' (pump s')" "main_ok sid s' (main s')"
      using pump_ok_frame[OF parts(1), of s'] main_ok_frame[OF parts(2), of s'] st om_accept by auto
    moreover have "slot s = Some (d, i) \<Longrightarrow> d \<noteq> c" for d i using session_okD(3)[OF ok] om_accept by fastforce
    ultimately show ?thesis using om_accept session_okD[OF ok] locks by (auto simp: session_ok_def)
  next
    case (om_pump_plain pc bytes clean)
    then have "main_ok sid s' (main s')" using parts(2) by (cases "main s") auto
    then show ?thesis using om_pump_plain by (intro session_ok_elsewhere[OF ok locks]) auto
  next
    case (om_main_plain pc w clean cl)
    then have "main_ok sid s' (main s')" using parts(2) by auto
    then show ?thesis using om_main_plain parts by (intro session_ok_elsewhere[OF ok locks]) auto
  next
    case (om_main_lock w clean)
    then show ?thesis using parts by (intro session_ok_elsewhere[OF ok locks]) auto
  next
    case (om_main_record w clean cl)
    then show ?thesis using parts by (intro session_ok_elsewhere[OF ok locks]) auto
  qed (rule session_ok_elsewhere[OF ok locks]; use parts main_ok_same[OF parts(2), of s'] in auto)+
qed

lemma session_ok_new: "session_ok sid session_new"
  using locks_ok_new by (simp add: session_ok_def session_new_def)

lemma session_ok_reachable: "session_reachable sid s \<Longrightarrow> session_ok sid s"
proof (induction rule: session_reachable.induct)
  case (session_moves s w res s')
  then show ?case using session_step_moves session_ok_relay session_ok_other by blast
qed (rule session_ok_new)


end
