(* ===== verification/DureConversation.thy ===== *)
theory DureConversation
  imports DureOwnership "HOL-Library.Code_Target_Nat"
begin

text \<open>
  Package \<open>dure\<close>: what the invariant of \<open>DureOwnership\<close> gives: the shape of every conversation, who reaches the
  app, which client gets which output, and the exit status.
\<close>

section \<open>Runs\<close>

fun session_run :: "32 word \<Rightarrow> (session_thread \<times> answer) list \<Rightarrow> session \<Rightarrow> session option" where
  "session_run sid [] s = Some s"
| "session_run sid ((w, res) # moves) s = (case session_step sid w res s of None \<Rightarrow> None | Some s' \<Rightarrow> session_run sid moves s')"

lemma session_run_reachable:
  "session_reachable sid s \<Longrightarrow> session_run sid moves s = Some s' \<Longrightarrow> session_reachable sid s'"
proof (induction moves arbitrary: s)
  case (Cons move moves)
  then show ?case using session_reachable.session_moves[of sid s "fst move" "snd move"]
    by (cases move) (auto split: option.splits)
qed simp

text \<open>A complete session: the app greets before its first client comes, the client types, is taken over while a
  burst of output is on its way to it, and the app exits.\<close>

definition attaches :: "conn \<Rightarrow> (session_thread \<times> answer) list" where
  "attaches c = [(Acceptor, Ret), (Acceptor, Conn c), (Client c, Msg (Attach \<lparr>cols = 80, rows = 24\<rparr>))]"

definition demo_moves :: "(session_thread \<times> answer) list" where
  "demo_moves =
     [(Pump, Ret), (Pump, Burst [104, 105]), (Pump, Ret)] @ attaches 1 @ replicate 14 (Client 1, Ret)
     @ [(Client 1, Msg (Input [120])), (Client 1, Ret), (Client 1, Ret)]
     @ [(Pump, Ret), (Pump, Burst [33]), (Pump, Ret)] @ attaches 2 @ replicate 11 (Client 2, Ret)
     @ [(Pump, Ret)] @ replicate 4 (Client 2, Ret)
     @ [(Pump, Ret), (Pump, Ret), (Pump, Eof), (Main, Exit 0)] @ replicate 10 (Main, Ret)
     @ replicate 6 (Recorder, Ret) @ replicate 2 (Main, Ret) @ replicate 6 (BoxWriter 1, Ret) @ [(Main, Ret)]"

definition demo_session :: session where
  "demo_session = the (session_run 7 demo_moves session_new)"

lemma demo_reachable: "session_reachable 7 demo_session"
proof -
  have "session_run 7 demo_moves session_new \<noteq> None" by code_simp
  then show ?thesis unfolding demo_session_def
    using session_run_reachable[OF session_starts] by (metis option.exhaust_sel)
qed

section \<open>Conversations\<close>

definition conversation_end :: "message list \<Rightarrow> bool" where
  "conversation_end fin =
     (fin \<in> {[], [Displaced]} \<or> (\<exists>data. fin = [Displaced, Output data]) \<or> (\<exists>status. fin = [AppExited status]))"

fun shaped :: "32 word \<Rightarrow> wire \<Rightarrow> message list \<Rightarrow> bool" where
  "shaped sid Unopened ms = (ms = [])"
| "shaped sid Live ms = (\<exists>ds. ms = Attached sid # map Output ds)"
| "shaped sid GoneAway ms = (\<exists>ds. ms = Attached sid # map Output ds @ [Displaced])"
| "shaped sid StaleOut ms = (\<exists>ds data. ms = Attached sid # map Output ds @ [Displaced, Output data])"
| "shaped sid Ended ms = (\<exists>ds status. ms = Attached sid # map Output ds @ [AppExited status])"
| "shaped sid Garbled ms = True"

lemma wire_shaped: "shaped sid (wire_state sid ms) ms"
proof (induction ms rule: rev_induct)
  case (snoc m ms)
  have st: "wire_state sid (ms @ [m]) = wire_next sid m (wire_state sid ms)" by simp
  have "shaped sid (wire_next sid m w) (ms @ [m])" if "shaped sid w ms" for w
  proof (cases "w = Live")
    case True
    with that obtain ds where "ms = Attached sid # map Output ds" by auto
    with True show ?thesis by (cases m) (auto intro: exI[of _ "ds @ [_]"])
  qed (use that in \<open>cases w; cases m; auto\<close>)
  then show ?case unfolding st using snoc by blast
qed simp

lemma shaped_conversation:
  assumes "shaped sid w ms" "w \<noteq> Garbled"
  shows "ms = [] \<or> (\<exists>ds fin. conversation_end fin \<and> ms = Attached sid # map Output ds @ fin)"
proof -
  have "ms = [] \<or> (\<exists>ds fin. fin = [] \<and> ms = Attached sid # map Output ds @ fin)
      \<or> (\<exists>ds fin. fin = [Displaced] \<and> ms = Attached sid # map Output ds @ fin)
      \<or> (\<exists>ds data fin. fin = [Displaced, Output data] \<and> ms = Attached sid # map Output ds @ fin)
      \<or> (\<exists>ds status fin. fin = [AppExited status] \<and> ms = Attached sid # map Output ds @ fin)"
    using assms by (cases w) simp_all
  then show ?thesis unfolding conversation_end_def by blast
qed

lemma session_box_ok:
  assumes "session_reachable sid s" "b \<in> set (boxes s)"
  shows "outbox_ok b" "box_wire sid b \<noteq> Garbled"
  using session_okD(2)[OF session_ok_reachable[OF assms(1)] assms(2)] by auto

lemma outbox_ok_prefix: "outbox_ok b \<Longrightarrow> prefix (written b) (accepted b)"
  unfolding outbox_ok_def by (cases "writer b") (auto intro: prefix_order.trans dest: append_prefixD)

text \<open>C4: in every reachable state of a session what a client has been sent is a prefix of a conversation that opens
  with \<open>Attached\<close> for this session, continues with output only and ends with nothing more, with \<open>Displaced\<close> -
  after which at most one burst of output follows, which the pump had routed before the displacement - or
  with the exit status of the app. No message comes before \<open>Attached\<close>, nothing follows the exit status.\<close>

theorem session_conversations:
  assumes "session_reachable sid s" "b \<in> set (boxes s)"
  shows "\<exists>ds fin. conversation_end fin \<and> prefix (written b) (Attached sid # map Output ds @ fin)"
proof -
  have "accepted b = [] \<or> (\<exists>ds fin. conversation_end fin \<and> accepted b = Attached sid # map Output ds @ fin)"
    using shaped_conversation[OF wire_shaped session_box_ok(2)[OF assms]] .
  moreover have "conversation_end []" by (simp add: conversation_end_def)
  moreover note outbox_ok_prefix[OF session_box_ok(1)[OF assms]]
  ultimately show ?thesis by (metis Nil_prefix prefix_Nil)
qed

theorem session_conversations_witness:
  "\<exists>ds fin. conversation_end fin \<and> prefix (written (boxes demo_session ! 1)) (Attached 7 # map Output ds @ fin)
     \<and> written (boxes demo_session ! 1) = [Attached 7, AppExited 0]"
proof -
  have b: "boxes demo_session ! 1 \<in> set (boxes demo_session)" "written (boxes demo_session ! 1) = [Attached 7, AppExited 0]"
    unfolding demo_session_def by code_simp+
  then show ?thesis using session_conversations[OF demo_reachable b(1)] by blast
qed

section \<open>Who reaches the app\<close>

definition owner_after :: "app_event \<Rightarrow> conn option \<Rightarrow> conn option" where
  "owner_after ev own = (case ev of Owns c \<Rightarrow> Some c | Released \<Rightarrow> None | _ \<Rightarrow> own)"

definition log_owner :: "app_event list \<Rightarrow> conn option" where
  "log_owner log = fold owner_after log None"

fun authorized :: "conn option \<Rightarrow> app_event \<Rightarrow> bool" where
  "authorized own (Typed c data) = (own = Some c)"
| "authorized own (Resized c sz) = (own = Some c)"
| "authorized own ev = True"

definition owned_log :: "app_event list \<Rightarrow> bool" where
  "owned_log log = (\<forall>earlier ev later. log = earlier @ ev # later \<longrightarrow> authorized (log_owner earlier) ev)"

lemma log_owner_snoc [simp]: "log_owner (log @ [ev]) = owner_after ev (log_owner log)"
  by (simp add: log_owner_def)

lemma owned_log_snoc: "owned_log (log @ [ev]) = (owned_log log \<and> authorized (log_owner log) ev)"
  unfolding owned_log_def
proof (intro iffI conjI allI impI)
  fix earlier ev' later
  assume own: "(\<forall>earlier ev later. log = earlier @ ev # later \<longrightarrow> authorized (log_owner earlier) ev) \<and> authorized (log_owner log) ev"
    and eq: "log @ [ev] = earlier @ ev' # later"
  show "authorized (log_owner earlier) ev'"
    using own eq by (cases later rule: rev_cases) auto
qed auto

definition app_ok :: "session \<Rightarrow> bool" where
  "app_ok s = (owned_log (app_log s) \<and> log_owner (app_log s) = map_option fst (slot s))"

lemma app_ok_step:
  assumes ok: "session_ok sid s" and app: "app_ok s" and step: "session_step sid w res s = Some s'"
  shows "app_ok s'"
proof -
  consider c where "relay_move sid c s s'" | "other_move s s'" using session_step_moves[OF step] by blast
  then show ?thesis
  proof cases
    case 1
    then show ?thesis
    proof cases
      case (rm_resize sz i g pc')
      then have "slot s = Some (c, i)" using session_okD(4)[OF ok, of c] by simp
      then show ?thesis using rm_resize app by (simp add: app_ok_def owned_log_snoc owner_after_def)
    qed (use app in \<open>auto simp: app_ok_def owned_log_snoc owner_after_def\<close>)
  next
    case 2
    then show ?thesis
    proof cases
      case (om_route bytes)
      then show ?thesis using app
        by (auto simp: app_ok_def route_output_def hold_for_first_client_def split: option.splits prod.splits)
    qed (use app in \<open>auto simp: app_ok_def owned_log_snoc owner_after_def\<close>)
  qed
qed

lemma app_ok_reachable: "session_reachable sid s \<Longrightarrow> app_ok s"
proof (induction rule: session_reachable.induct)
  case session_starts
  show ?case by (simp add: app_ok_def session_new_def owned_log_def log_owner_def)
next
  case (session_moves s w res s')
  then show ?case using app_ok_step session_ok_reachable by blast
qed

text \<open>The console does not change hands while a message is applied.\<close>

lemma applying_owns_step:
  assumes ok: "session_ok sid s" and own: "\<forall>d. clients s d = CApplying \<longrightarrow> owns d s"
    and step: "session_step sid w res s = Some s'"
  shows "\<forall>d. clients s' d = CApplying \<longrightarrow> owns d s'"
proof -
  have lock: "slot_lock s = Some d" if "clients s d = CApplying" for d
    using locks_ok_at(2)[OF session_okD(1)[OF ok] that] by simp
  consider c where "relay_move sid c s s'" | "other_move s s'" using session_step_moves[OF step] by blast
  then show ?thesis
  proof cases
    case 1
    then show ?thesis
    proof cases
      case (rm_plain pc pc' sz p m)
      have "pc' \<noteq> CApplying"
      proof
        assume "pc' = CApplying"
        with rm_plain have "clients s c = CCalls [] CApplying" by auto
        then show False using session_okD(4)[OF ok, of c] by simp
      qed
      then show ?thesis using rm_plain own by (auto simp: owns_def)
    next
      case (rm_replace sz i)
      then have "slot_lock s = Some c" using locks_ok_at(2)[OF session_okD(1)[OF ok], of c] by simp
      then show ?thesis using rm_replace lock by (auto simp: owns_def)
    next
      case (rm_detach p i)
      then show ?thesis using lock by auto
    qed (use own in \<open>auto simp: owns_def\<close>)
  next
    case 2
    then show ?thesis
    proof cases
      case (om_route bytes)
      then show ?thesis using own
        by (auto simp: owns_def route_output_def hold_for_first_client_def split: option.splits prod.splits)
    next
      case (om_main_take w clean cl)
      then show ?thesis using lock by auto
    qed (use own in \<open>auto simp: owns_def\<close>)
  qed
qed

lemma applying_owns: "session_reachable sid s \<Longrightarrow> \<forall>d. clients s d = CApplying \<longrightarrow> owns d s"
proof (induction rule: session_reachable.induct)
  case session_starts
  show ?case by (simp add: session_new_def)
next
  case (session_moves s w res s')
  then show ?case using applying_owns_step session_ok_reachable by blast
qed

text \<open>C18: every input and every resize that reaches the app comes from the client that owns the console at that
  moment: between taking the console over and losing it. A client that has been displaced or detached never reaches
  the app again, however its messages were in flight. While the console takes a message in, its sender still owns the
  console, however long that lasts.\<close>

theorem session_input_owned:
  assumes "session_reachable sid s" "app_log s = earlier @ ev # later"
  shows "authorized (log_owner earlier) ev \<and> (\<forall>c. clients s c = CApplying \<longrightarrow> owns c s)"
  using app_ok_reachable[OF assms(1)] applying_owns[OF assms(1)] assms(2) by (auto simp: app_ok_def owned_log_def)

theorem session_input_owned_witness: "authorized (log_owner [Owns 1, Resized 1 \<lparr>cols = 80, rows = 24\<rparr>]) (Typed 1 [120])"
proof -
  have "app_log demo_session = [Owns 1, Resized 1 \<lparr>cols = 80, rows = 24\<rparr>] @ Typed 1 [120] #
      [Owns 2, Resized 2 \<lparr>cols = 80, rows = 24\<rparr>, Released]"
    unfolding demo_session_def by code_simp
  from session_input_owned[OF demo_reachable this] show ?thesis by blast
qed

end
