(* ===== verification/DureRouting.thy ===== *)
theory DureRouting
  imports DureConversation
begin

text \<open>
  Package \<open>dure\<close>: where the app's output goes. Every burst the pump reads is due to the client that owns the
  console when the pump looks, or is held for the first client; an outbox has accepted exactly what is due to it,
  until its client is given up or told that it is over.
\<close>

section \<open>Bytes on their way\<close>

fun message_bytes :: "message \<Rightarrow> byte list" where
  "message_bytes (Output data) = data"
| "message_bytes m = []"

definition output_bytes :: "message list \<Rightarrow> byte list" where
  "output_bytes ms = concat (map message_bytes ms)"

fun call_bytes :: "box_id \<Rightarrow> outbox_call \<Rightarrow> byte list" where
  "call_bytes i (Send j m) = (if j = i then message_bytes m else [])"
| "call_bytes i k = []"

definition calls_bytes :: "box_id \<Rightarrow> outbox_call list \<Rightarrow> byte list" where
  "calls_bytes i ks = concat (map (call_bytes i) ks)"

fun relay_calls :: "client_pc \<Rightarrow> outbox_call list" where
  "relay_calls (CCalls ks pc) = ks" | "relay_calls pc = []"

fun pump_calls :: "pump_pc \<Rightarrow> outbox_call list" where
  "pump_calls (PCalls ks) = ks" | "pump_calls pc = []"

definition in_transit :: "session \<Rightarrow> box_id \<Rightarrow> byte list" where
  "in_transit s i = calls_bytes i (relay_calls (clients s (box_conn (boxes s ! i)))) @ calls_bytes i (pump_calls (pump s))"

definition routed_to :: "box_id \<Rightarrow> (box_id option \<times> byte list) list \<Rightarrow> byte list" where
  "routed_to i log = concat (map snd (filter (\<lambda>x. fst x = Some i) log))"

definition opening_bytes :: "session \<Rightarrow> box_id \<Rightarrow> byte list" where
  "opening_bytes s i = (case opened_with s of Some (j, held) \<Rightarrow> if j = i then held else [] | None \<Rightarrow> [])"

definition due :: "session \<Rightarrow> box_id \<Rightarrow> byte list" where
  "due s i = opening_bytes s i @ routed_to i (routed s)"

lemma bytes_simps [simp]:
  "output_bytes [] = []" "output_bytes (ms @ ms') = output_bytes ms @ output_bytes ms'"
  "output_bytes (m # ms) = message_bytes m @ output_bytes ms"
  "calls_bytes i [] = []" "calls_bytes i (k # ks) = call_bytes i k @ calls_bytes i ks"
  "calls_bytes i (ks @ ks') = calls_bytes i ks @ calls_bytes i ks'"
  "routed_to i [] = []" "routed_to i (log @ log') = routed_to i log @ routed_to i log'"
  "routed_to i [(t, data)] = (if t = Some i then data else [])"
  by (simp_all add: output_bytes_def calls_bytes_def routed_to_def)

lemma next_call_bytes [simp]: "calls_bytes i (snd (run_call k s)) = []"
  by (cases k) (auto simp: split_beta)

text \<open>A relay past the installation has no output to send.\<close>

lemma relay_ok_silent: "relay_ok sid bs sl c pc \<Longrightarrow> stage pc = 2 \<Longrightarrow> calls_bytes i (relay_calls pc) = []"
  by (induction sid bs sl c pc rule: relay_ok.induct) (auto simp: last_words_def giving_up_def)

lemma relay_ok_flat: "relay_ok sid bs sl c (CCalls ks pc) \<Longrightarrow> relay_calls pc = []"
  by (cases pc) auto

text \<open>A relay sends output only into the outbox it opens.\<close>

lemma relay_ok_output:
  assumes "relay_ok sid bs sl c (CCalls (k # ks) pc)" "call_bytes i k \<noteq> []"
  shows "box_of bs c i \<and> \<not> shut (bs ! i)"
proof (cases pc)
  case (CReplace sz j)
  obtain sent left where l: "k # ks = map (Send j \<circ> Output) left"
      "opening_ok sid bs c j (Attached sid # map Output sent) (map Output left)"
    using assms(1) unfolding CReplace relay_ok.simps by (elim exE conjE) (rule that)
  then have "i = j" using assms(2) by (cases left) (auto split: if_splits)
  then show ?thesis using l(2) by (simp add: opening_ok_def)
next
  case (CTake sz j)
  obtain sent left where l: "k # ks = map (Send j) left" "sent @ left = [Attached sid]"
    using assms(1) unfolding CTake relay_ok.simps by (elim exE conjE) (rule that)
  then have "k = Send j (Attached sid)" by (cases left) (auto simp: append_eq_Cons_conv)
  then show ?thesis using assms(2) by (simp split: if_splits)
qed (use assms in \<open>auto simp: last_words_def giving_up_def split: if_splits\<close>)

section \<open>Invariant\<close>

fun past_preamble :: "client_pc \<Rightarrow> bool" where
  "past_preamble (CReplace sz i) = True" | "past_preamble (CCalls ks pc) = past_preamble pc" | "past_preamble pc = False"

text \<open>Before the first attach all output is held; what is taken is its beginning, up to the cap.\<close>

definition opens_log :: "byte list \<Rightarrow> (box_id option \<times> byte list) list \<Rightarrow> bool" where
  "opens_log held log = (\<exists>before later. log = before @ later \<and> (\<forall>x \<in> set before. fst x = None)
     \<and> held = take MAX_CLIENT_BACKLOG_BYTES (concat (map snd before)))"

lemma opens_log_snoc: "opens_log held log \<Longrightarrow> opens_log held (log @ [x])"
  unfolding opens_log_def by (metis append.assoc)

definition held_ok :: "session \<Rightarrow> bool" where
  "held_ok s =
     ((\<forall>held. preamble s = Some held \<longrightarrow> opened_with s = None \<and> slot s = None \<and> (\<forall>x \<in> set (routed s). fst x = None)
         \<and> held = take MAX_CLIENT_BACKLOG_BYTES (concat (map snd (routed s))))
      \<and> (\<forall>i held. opened_with s = Some (i, held) \<longrightarrow> opens_log held (routed s))
      \<and> (\<forall>c. past_preamble (clients s c) \<longrightarrow> preamble s = None))"

definition delivery_ok :: "session \<Rightarrow> box_id \<Rightarrow> bool" where
  "delivery_ok s i =
     (prefix (output_bytes (accepted (boxes s ! i))) (due s i)
      \<and> (\<not> shut (boxes s ! i) \<longrightarrow> output_bytes (accepted (boxes s ! i)) @ in_transit s i = due s i))"

definition routing_ok :: "session \<Rightarrow> bool" where
  "routing_ok s =
     ((\<forall>i < length (boxes s). delivery_ok s i)
      \<and> (\<forall>i data. (Some i, data) \<in> set (routed s) \<longrightarrow> i < length (boxes s))
      \<and> (\<forall>i held. opened_with s = Some (i, held) \<longrightarrow> i < length (boxes s)))"

lemma held_ok_relay:
  assumes ok: "held_ok s" and mv: "relay_move sid c s s'"
  shows "held_ok s'"
  using mv
proof cases
  case (rm_plain pc pc' sz p m)
  then have "past_preamble pc' \<Longrightarrow> past_preamble (clients s c)" by (cases pc') auto
  then have "past_preamble pc' \<Longrightarrow> preamble s = None" using ok by (auto simp: held_ok_def)
  then show ?thesis using ok rm_plain unfolding held_ok_def by auto
next
  case (rm_take sz i held)
  then have "held = take MAX_CLIENT_BACKLOG_BYTES (concat (map snd (routed s)))" "\<forall>x \<in> set (routed s). fst x = None"
    using ok by (auto simp: held_ok_def)
  then have "opens_log held (routed s)" unfolding opens_log_def by (intro exI[of _ "routed s"] exI[of _ "[]"]) auto
  then show ?thesis using ok rm_take unfolding held_ok_def by auto
next
  case (rm_replace sz i)
  then have "past_preamble (clients s c)" by simp
  then have "preamble s = None" using ok unfolding held_ok_def by blast
  then show ?thesis using ok rm_replace unfolding held_ok_def by auto
next
  case (rm_call k ks pc)
  then have "past_preamble pc \<Longrightarrow> past_preamble (clients s c)" by simp
  then have "past_preamble pc \<Longrightarrow> preamble s = None" using ok by (auto simp: held_ok_def)
  then show ?thesis using ok rm_call unfolding held_ok_def by auto
next
  case (rm_note sz i old g)
  then show ?thesis using ok unfolding held_ok_def by auto
next
  case (rm_detach p i)
  then show ?thesis using ok unfolding held_ok_def by auto
next
  case (rm_resize sz i g pc')
  then show ?thesis using ok unfolding held_ok_def by auto
qed (use ok in \<open>auto simp: held_ok_def\<close>)

lemma held_ok_other:
  assumes ok: "held_ok s" and mv: "other_move s s'"
  shows "held_ok s'"
  using mv
proof cases
  case (om_route bytes)
  have "take n xs @ take (n - length (take n xs)) ys = take n (xs @ ys)" for n and xs ys :: "byte list"
    by (cases "n \<le> length xs") auto
  then show ?thesis using ok om_route
    by (auto simp: held_ok_def opens_log_snoc route_output_def hold_for_first_client_def split: option.splits)
next
  case (om_accept c)
  then show ?thesis using ok unfolding held_ok_def by auto
qed (use ok in \<open>auto simp: held_ok_def\<close>)

lemma held_ok_reachable: "session_reachable sid s \<Longrightarrow> held_ok s"
proof (induction rule: session_reachable.induct)
  case session_starts
  show ?case by (simp add: held_ok_def session_new_def)
next
  case (session_moves s w res s')
  then show ?case using session_step_moves held_ok_relay held_ok_other by blast
qed


section \<open>Delivery\<close>

text \<open>A step that neither fills an outbox nor makes output due, nor changes what is on its way.\<close>

lemma routing_ok_quiet:
  assumes ok: "routing_ok s" and bs: "boxes s' = boxes s" "routed s' = routed s" "opened_with s' = opened_with s"
    and transit: "\<And>i. i < length (boxes s) \<Longrightarrow> in_transit s' i = in_transit s i"
  shows "routing_ok s'"
  using assms by (simp add: routing_ok_def delivery_ok_def due_def opening_bytes_def)

lemma in_transit_relay:
  assumes "clients s' = (clients s)(c := pc')" "pump s' = pump s" "boxes s' = boxes s"
    "calls_bytes i (relay_calls pc') = calls_bytes i (relay_calls (clients s c))"
  shows "in_transit s' i = in_transit s i"
  using assms by (simp add: in_transit_def)

text \<open>One call by anybody: the bytes it moves into the outbox leave the transit.\<close>

lemma routing_ok_call:
  assumes ok: "routing_ok s" and bs: "boxes s' = boxes (fst (run_call k s))"
    and same: "routed s' = routed s" "opened_with s' = opened_with s"
    and transit: "\<And>i. i < length (boxes s) \<Longrightarrow> \<not> shut (boxes s ! i) \<Longrightarrow> in_transit s i = call_bytes i k @ in_transit s' i"
  shows "routing_ok s'"
  unfolding routing_ok_def
proof (intro conjI allI impI)
  fix i assume "i < length (boxes s')"
  then have i: "i < length (boxes s)" by (simp add: bs)
  have due: "due s' i = due s i" by (simp add: due_def opening_bytes_def same)
  have old: "delivery_ok s i" using ok i by (simp add: routing_ok_def)
  let ?b = "boxes s ! i" and ?b' = "boxes s' ! i"
  have nth: "?b' = (if i = call_target k then call_effect k ?b else ?b)" using i by (simp add: bs nth_list_update)
  have acc: "output_bytes (accepted ?b') = output_bytes (accepted ?b) @ (if shut ?b then [] else call_bytes i k)"
    unfolding nth by (cases k) (auto simp: outbox_send_accepted)
  have shut: "shut ?b \<Longrightarrow> shut ?b'"
    unfolding nth by (cases k) auto
  show "delivery_ok s' i"
  proof (cases "shut ?b")
    case True
    then show ?thesis using old shut acc by (auto simp: delivery_ok_def due)
  next
    case False
    have "output_bytes (accepted ?b') @ in_transit s' i = due s i"
      using old False acc transit[OF i False] by (simp add: delivery_ok_def)
    then show ?thesis unfolding delivery_ok_def due by (metis prefixI)
  qed
qed (use ok in \<open>auto simp: routing_ok_def bs same\<close>)

lemma routing_ok_relay:
  assumes ok: "session_ok sid s" and rt: "routing_ok s" and held: "held_ok s" and mv: "relay_move sid c s s'"
  shows "routing_ok s'"
  using mv
proof cases
  case (rm_plain pc pc' sz p m)
  have "relay_calls pc' = [] \<and> calls_bytes i (relay_calls (clients s c)) = []" for i
    using rm_plain relay_ok_flat[of sid "boxes s" "slot s" c "[]" pc'] session_okD(4)[OF ok, of c] by auto
  then show ?thesis using rm_plain by (intro routing_ok_quiet[OF rt] in_transit_relay[of s' s c pc']) auto
next
  case (rm_start sz)
  have "delivery_ok s' i" if i: "i < length (boxes s')" for i
  proof (cases "i < length (boxes s)")
    case True
    then have "in_transit s' i = in_transit s i" using rm_start by (auto simp: in_transit_def nth_append)
    then show ?thesis using rt True rm_start
      by (simp add: routing_ok_def delivery_ok_def due_def opening_bytes_def nth_append)
  next
    case False
    then have i: "i = length (boxes s)" using that rm_start by simp
    have "calls_bytes i (pump_calls (pump s)) = []"
      using session_okD(5)[OF ok] i by (cases "pump s") (auto simp: one_send_def settled_def)
    moreover have "routed_to i (routed s) = []"
      using rt i by (force simp: routing_ok_def routed_to_def filter_empty_conv)
    moreover have "opening_bytes s i = []" using rt i by (auto simp: routing_ok_def opening_bytes_def split: option.splits)
    ultimately show ?thesis using rm_start i
      by (simp add: delivery_ok_def due_def in_transit_def opening_bytes_def outbox_start_def nth_append)
  qed
  then show ?thesis using rt rm_start unfolding routing_ok_def by auto
next
  case (rm_take sz j held)
  have none: "opened_with s = None" using held rm_take by (simp add: held_ok_def)
  have know: "opening_ok sid (boxes s) c j [Attached sid] []" using session_okD(4)[OF ok, of c] rm_take by simp
  then have j: "j < length (boxes s)" "box_conn (boxes s ! j) = c" "\<not> shut (boxes s ! j)"
    "accepted (boxes s ! j) = [Attached sid]" by (auto simp: opening_ok_def box_of_def)
  have conn: "calls_bytes i (map (Send j) (preamble_messages held)) = (if i = j then held else [])" for i
  proof -
    have "concat (map message_bytes (preamble_messages held)) = held"
      using concat_chunks[OF output_chunk_pos] by (simp add: preamble_messages_def comp_def)
    then show ?thesis by (simp add: calls_bytes_def comp_def)
  qed
  have new: "in_transit s' i = (if i = j then held else []) @ in_transit s i" if "i < length (boxes s)" for i
    using rm_take j conn[of i] that by (auto simp: in_transit_def)
  have same: "due s' i = due s i" if "i \<noteq> j" for i using none rm_take that by (simp add: due_def opening_bytes_def)
  have still: "in_transit s j = []"
    using session_okD(5)[OF ok] opening_not_settled[of s c j] rm_take j
    by (cases "pump s") (auto simp: in_transit_def one_send_def box_of_def)
  have "delivery_ok s j" using rt j(1) by (simp add: routing_ok_def)
  then have "due s j = []" using j still by (simp add: delivery_ok_def)
  then have mine: "due s' j = held" using none rm_take by (simp add: due_def opening_bytes_def)
  have "delivery_ok s' i" if "i < length (boxes s)" for i
    using rt j that rm_take still new same mine by (cases "i = j") (simp_all add: routing_ok_def delivery_ok_def)
  then show ?thesis using rt rm_take j(1) unfolding routing_ok_def by auto
next
  case (rm_call k ks pc)
  have know: "relay_ok sid (boxes s) (slot s) c (CCalls (k # ks) pc)" using session_okD(4)[OF ok, of c] rm_call by simp
  show ?thesis
  proof (rule routing_ok_call[OF rt])
    fix i assume i: "i < length (boxes s)" "\<not> shut (boxes s ! i)"
    have conn: "box_conn (boxes s' ! i) = box_conn (boxes s ! i)"
      using i rm_call by (cases "i = call_target k") auto
    show "in_transit s i = call_bytes i k @ in_transit s' i"
      using rm_call conn relay_ok_output[OF know, of i] by (auto simp: in_transit_def box_of_def)
  qed (use rm_call in auto)
qed (rule routing_ok_quiet[OF rt]; auto intro!: in_transit_relay split: option.splits)+


lemma routing_ok_route:
  assumes ok: "session_ok sid s" and rt: "routing_ok s" and p: "pump s = PRoute bytes"
  shows "routing_ok (route_output bytes s)"
proof (cases "slot s")
  case None
  have "routing_ok (s\<lparr>routed := routed s @ [(None, bytes)], pump := PCheck\<rparr>)"
    using rt p by (auto simp: routing_ok_def delivery_ok_def due_def opening_bytes_def in_transit_def)
  moreover have "routing_ok (x\<lparr>preamble := held\<rparr>)" if "routing_ok x" for x held
    using that by (intro routing_ok_quiet[OF that]) (auto simp: in_transit_def)
  ultimately show ?thesis using None by (auto simp: route_output_def hold_for_first_client_def split: option.splits)
next
  case (Some ci)
  obtain c j where cj: "slot s = Some (c, j)" using Some by (cases ci) auto
  let ?s = "route_output bytes s"
  have bs: "boxes ?s = boxes s" by (simp add: route_output_def cj)
  have "delivery_ok ?s i" if "i < length (boxes s)" for i
  proof -
    have "due ?s i = due s i @ (if i = j then bytes else [])" "in_transit ?s i = in_transit s i @ (if i = j then bytes else [])"
      using p by (simp_all add: route_output_def cj due_def opening_bytes_def in_transit_def)
    then show ?thesis using rt that unfolding routing_ok_def delivery_ok_def bs by (auto simp: prefix_def)
  qed
  then show ?thesis using rt session_okD(3)[OF ok cj]
    by (auto simp: routing_ok_def bs route_output_def cj box_of_def)
qed

lemma routing_ok_other:
  assumes ok: "session_ok sid s" and rt: "routing_ok s" and mv: "other_move s s'"
  shows "routing_ok s'"
  using mv
proof cases
  case (om_writer i res b h)
  note keep = writer_step_keeps[OF om_writer(3)]
  have "accepted (boxes s' ! j) = accepted (boxes s ! j)" "shut (boxes s' ! j) = shut (boxes s ! j)"
    "box_conn (boxes s' ! j) = box_conn (boxes s ! j)" for j
    using keep om_writer by (cases "j = i"; simp)+
  then show ?thesis using rt om_writer
    by (auto simp: routing_ok_def delivery_ok_def due_def opening_bytes_def in_transit_def)
next
  case (om_route bytes)
  then show ?thesis using routing_ok_route[OF ok rt] by blast
next
  case (om_pump_call k ks)
  obtain j data where j: "one_send j (Output data) (k # ks)" "settled s j"
    using session_okD(5)[OF ok] om_pump_call by auto
  show ?thesis
  proof (rule routing_ok_call[OF rt])
    fix i assume i: "i < length (boxes s)"
    have "calls_bytes i (relay_calls (clients s (box_conn (boxes s ! i)))) = [] \<or> call_bytes i k = []"
    proof (cases "i = j")
      case True
      then show ?thesis using relay_ok_silent[OF session_okD(4)[OF ok]] j(2) by (simp add: settled_def)
    next
      case False
      then show ?thesis using j(1) by (auto simp: one_send_def)
    qed
    moreover have "box_conn (boxes s' ! i) = box_conn (boxes s ! i)" "clients s' = clients s"
      using i om_pump_call by (cases "i = call_target k"; auto)+
    ultimately show "in_transit s i = call_bytes i k @ in_transit s' i"
      using om_pump_call by (auto simp: in_transit_def)
  qed (use om_pump_call in auto)
next
  case (om_main_call w clean k ks cl)
  obtain j m where "last_words j m (k # ks)" "m = AppExited 0 \<or> (\<exists>status. m = AppExited status)"
    using session_okD(6)[OF ok] om_main_call by (auto split: option.splits)
  then have none: "call_bytes i k = []" for i by (auto simp: last_words_def)
  show ?thesis
  proof (rule routing_ok_call[OF rt])
    fix i assume i: "i < length (boxes s)"
    have "box_conn (boxes s' ! i) = box_conn (boxes s ! i)" "clients s' = clients s"
      using i om_main_call by (cases "i = call_target k"; auto)+
    then show "in_transit s i = call_bytes i k @ in_transit s' i"
      using om_main_call none by (auto simp: in_transit_def)
  qed (use om_main_call in auto)
next
  case (om_accept c)
  then show ?thesis by (intro routing_ok_quiet[OF rt] in_transit_relay[of s' s c CRecv]) auto
next
  case (om_pump_plain pc bytes clean)
  then have "calls_bytes i (pump_calls pc) = calls_bytes i (pump_calls (pump s))" for i by auto
  then show ?thesis using om_pump_plain by (intro routing_ok_quiet[OF rt]) (auto simp: in_transit_def)
qed (rule routing_ok_quiet[OF rt]; simp add: in_transit_def)+

lemma routing_ok_reachable: "session_reachable sid s \<Longrightarrow> routing_ok s"
proof (induction rule: session_reachable.induct)
  case session_starts
  show ?case by (simp add: routing_ok_def session_new_def)
next
  case (session_moves s w res s')
  then show ?case
    using session_step_moves routing_ok_relay routing_ok_other session_ok_reachable held_ok_reachable by blast
qed

section \<open>Properties\<close>

text \<open>C6: in every reachable state the output an outbox has accepted is the beginning of what is due to its client:
  the opening output if it is the client that opened the session, then every burst the pump routed to it, in order, byte for byte.
  As long as the client is neither given up nor told that it is over nothing is missing but what a thread is
  about to queue.\<close>

theorem session_output_exact:
  assumes "session_reachable sid s" "i < length (boxes s)"
  shows "prefix (output_bytes (accepted (boxes s ! i))) (due s i)
    \<and> (\<not> abandoned (boxes s ! i) \<and> \<not> box_finished (boxes s ! i)
       \<longrightarrow> output_bytes (accepted (boxes s ! i)) @ in_transit s i = due s i)"
  using routing_ok_reachable[OF assms(1)] assms(2) by (simp add: routing_ok_def delivery_ok_def)

definition burst_moves :: "(session_thread \<times> answer) list" where
  "burst_moves = [(Pump, Ret), (Pump, Burst [104, 105]), (Pump, Ret)] @ attaches 1 @ replicate 14 (Client 1, Ret)
     @ [(Pump, Ret), (Pump, Burst [33]), (Pump, Ret)]"

definition burst_session :: session where
  "burst_session = the (session_run 7 burst_moves session_new)"

lemma burst_reachable: "session_reachable 7 burst_session"
proof -
  have "session_run 7 burst_moves session_new \<noteq> None" by code_simp
  then show ?thesis unfolding burst_session_def
    using session_run_reachable[OF session_starts] by (metis option.exhaust_sel)
qed

theorem session_output_exact_witness:
  "due burst_session 0 = [104, 105, 33] \<and> output_bytes (accepted (boxes burst_session ! 0)) @ [33] = due burst_session 0"
proof -
  have b: "0 < length (boxes burst_session)" "\<not> abandoned (boxes burst_session ! 0)" "\<not> box_finished (boxes burst_session ! 0)"
    "in_transit burst_session 0 = [33]" "due burst_session 0 = [104, 105, 33]"
    unfolding burst_session_def by code_simp+
  then show ?thesis using session_output_exact[OF burst_reachable b(1)] by simp
qed

text \<open>the opening output is what the app wrote while nobody had attached, from its first byte up to the backlog
  cap, and it goes to a single client; until somebody takes it, it is held.\<close>

theorem session_opening_output:
  assumes "session_reachable sid s"
  shows "case preamble s of
      Some held \<Rightarrow> opened_with s = None \<and> held = take MAX_CLIENT_BACKLOG_BYTES (concat (map snd (routed s)))
    | None \<Rightarrow> (case opened_with s of
          None \<Rightarrow> True
        | Some (i, held) \<Rightarrow> (\<exists>before later. routed s = before @ later \<and> (\<forall>x \<in> set before. fst x = None)
            \<and> held = take MAX_CLIENT_BACKLOG_BYTES (concat (map snd before))))"
  using held_ok_reachable[OF assms] by (auto simp: held_ok_def opens_log_def split: option.splits)

theorem session_opening_output_witness:
  "\<exists>before later. routed demo_session = before @ later \<and> (\<forall>x \<in> set before. fst x = None)
     \<and> [104, 105] = take MAX_CLIENT_BACKLOG_BYTES (concat (map snd before))"
proof -
  have "preamble demo_session = None" "opened_with demo_session = Some (0, [104, 105])"
    unfolding demo_session_def by code_simp+
  then show ?thesis using session_opening_output[OF demo_reachable] by simp
qed

end
