(* ===== verification/DureTeardown.thy ===== *)
theory DureTeardown
  imports DureConversation
begin

text \<open>
  Package \<open>dure\<close>: the teardown hands the exit status to the last owner behind everything else it was sent, and the
  attach transaction ends: it takes a bounded number of own steps and waits, if at all, for one call of the console
  made on behalf of the present owner. Which thread gets a released lock next is up to the mutex.
\<close>

section \<open>The exit status\<close>

text \<open>What the teardown still has to call, with the outcome it owes and the client it owes it to.\<close>

fun parting :: "main_pc \<Rightarrow> (outbox_call list \<times> 32 word option \<times> bool \<times> box_id option) option" where
  "parting (MCalls w clean ks cl) = Some (ks, w, clean, cl)"
| "parting (MRecord w clean cl) = Some ([], w, clean, cl)"
| "parting (MJoinRecord w clean cl) = Some ([], w, clean, cl)"
| "parting (MDelete w clean cl) = Some ([], w, clean, cl)"
| "parting (MAwaitWriter w clean deleted cl) = Some ([], w, clean, cl)"
| "parting pc = None"

definition told :: "32 word \<Rightarrow> outbox_call list \<Rightarrow> box_id \<Rightarrow> outbox \<Rightarrow> bool" where
  "told status ks j b =
     ((\<forall>m. Send j m \<in> set ks \<longrightarrow> m = AppExited status)
      \<and> (Send j (AppExited status) \<in> set ks \<and> \<not> box_finished b
        \<or> abandoned b \<or> (\<forall>m. Send j m \<notin> set ks) \<and> (\<exists>ms. accepted b = ms @ [AppExited status])))"

definition exit_ok :: "session \<Rightarrow> bool" where
  "exit_ok s =
     ((\<forall>c i. slot s = Some (c, i) \<longrightarrow> \<not> box_finished (boxes s ! i))
      \<and> (\<forall>ks status j. parting (main s) = Some (ks, Some status, True, Some j) \<longrightarrow>
          j < length (boxes s) \<and> told status ks j (boxes s ! j)))"

lemma parting_past_take: "parting pc = Some x \<Longrightarrow> past_take pc"
  by (cases pc) auto

lemma past_take_alone:
  assumes "session_ok sid s" "past_take (main s)"
  shows "slot s = None" "stopping s" "in_attach (clients s c) \<Longrightarrow> \<exists>sz. clients s c = CCheck sz"
proof -
  show s: "slot s = None" "stopping s" using session_okD(6)[OF assms(1)] assms(2) by (cases "main s"; auto)+
  show "in_attach (clients s c) \<Longrightarrow> \<exists>sz. clients s c = CCheck sz" using session_okD(7)[OF assms(1) s(2)] by blast
qed

lemma exit_ok_boxes:
  assumes ok: "exit_ok s" and "slot s' = slot s" "main s' = main s" "length (boxes s) \<le> length (boxes s')"
    and "\<And>i c. slot s = Some (c, i) \<Longrightarrow> box_finished (boxes s' ! i) = box_finished (boxes s ! i)"
    and "\<And>j. past_take (main s) \<Longrightarrow> j < length (boxes s) \<Longrightarrow> accepted (boxes s' ! j) = accepted (boxes s ! j)
      \<and> box_finished (boxes s' ! j) = box_finished (boxes s ! j) \<and> (abandoned (boxes s ! j) \<longrightarrow> abandoned (boxes s' ! j))"
  shows "exit_ok s'"
  unfolding exit_ok_def
proof (intro conjI allI impI)
  fix ks status j assume p: "parting (main s') = Some (ks, Some status, True, Some j)"
  then have "past_take (main s)" using assms(3) parting_past_take by metis
  moreover have "j < length (boxes s)" "told status ks j (boxes s ! j)" using p ok assms(3) by (auto simp: exit_ok_def)
  ultimately show "j < length (boxes s')" "told status ks j (boxes s' ! j)"
    using assms(4) assms(6)[of j] by (auto simp: told_def)
qed (use assms in \<open>auto simp: exit_ok_def\<close>)

lemma relay_finish:
  assumes "relay_ok sid bs sl c (CCalls (k # ks) pc)"
  shows "k = Finish j \<Longrightarrow> \<exists>i. sl = Some (c, i) \<and> i \<noteq> j" "k = Send j m \<Longrightarrow> in_attach pc"
  using assms by (cases pc; auto simp: last_words_def giving_up_def)+

lemma exit_ok_relay:
  assumes ok: "session_ok sid s" and ex: "exit_ok s" and mv: "relay_move sid c s s'"
  shows "exit_ok s'"
  using mv
proof cases
  case (rm_start sz)
  then have "\<not> past_take (main s)" using past_take_alone(3)[OF ok, of c] by auto
  then show ?thesis using rm_start session_okD(3)[OF ok]
    by (intro exit_ok_boxes[OF ex]) (auto simp: nth_append box_of_def)
next
  case (rm_replace sz i)
  then have "\<not> past_take (main s)" using past_take_alone(3)[OF ok, of c] by auto
  moreover have "\<not> box_finished (boxes s ! i)" using session_okD(4)[OF ok, of c] rm_replace by (auto simp: opening_ok_def)
  ultimately show ?thesis using rm_replace parting_past_take[of "main s"] by (auto simp: exit_ok_def)
next
  case (rm_call k ks pc)
  have know: "relay_ok sid (boxes s) (slot s) c (CCalls (k # ks) pc)" using session_okD(4)[OF ok, of c] rm_call by simp
  show ?thesis
  proof (rule exit_ok_boxes[OF ex])
    fix i d assume sl: "slot s = Some (d, i)"
    then have "k \<noteq> Finish i" using relay_finish(1)[OF know] by auto
    then show "box_finished (boxes s' ! i) = box_finished (boxes s ! i)"
      using rm_call session_okD(3)[OF ok sl] by (cases k) (auto simp: updated_box box_of_def simp del: run_call.simps call_effect.simps)
  next
    fix j assume p: "past_take (main s)" and j: "j < length (boxes s)"
    have "\<not> in_attach pc" using past_take_alone(3)[OF ok p, of c] rm_call by auto
    then have "k \<noteq> Send i m" "k \<noteq> Finish i" for i m
      using relay_finish[OF know] past_take_alone(1)[OF ok p] by auto
    then show "accepted (boxes s' ! j) = accepted (boxes s ! j)
      \<and> box_finished (boxes s' ! j) = box_finished (boxes s ! j) \<and> (abandoned (boxes s ! j) \<longrightarrow> abandoned (boxes s' ! j))"
      using rm_call j by (auto simp: updated_box)
  qed (use rm_call in auto)
qed (use ex in \<open>auto simp: exit_ok_def\<close>)

lemma last_words_sends: "last_words j m ks \<Longrightarrow> Send j m' \<in> set ks \<Longrightarrow> m' = m"
  by (auto simp: last_words_def)

lemma told_call:
  assumes told: "told status (k # ks) j b" and lw: "last_words j (AppExited st) (k # ks)"
  shows "told status (snd (run_call k s) @ ks) j (call_effect k b)"
proof -
  have "last_words j (AppExited st) (snd (run_call k s) @ ks)" "Send j (AppExited st) \<notin> set (snd (run_call k s) @ ks)"
    using pending_next(1)[OF refl lw] by blast+
  then have none: "Send j m \<notin> set (snd (run_call k s) @ ks)" for m using last_words_sends by blast
  show ?thesis
  proof (cases "k = Send j (AppExited st)")
    case True
    then have "st = status" using told by (simp add: told_def)
    then show ?thesis using True told none by (auto simp: told_def outbox_send_accepted)
  next
    case False
    then have "Send j m \<notin> set (k # ks)" for m using lw by (auto simp: last_words_def)
    then have "abandoned b \<or> (\<exists>ms. accepted b = ms @ [AppExited status])" using told by (auto simp: told_def)
    moreover have "abandoned b \<Longrightarrow> abandoned (call_effect k b)" "accepted (call_effect k b) = accepted b"
      using False lw by (auto simp: last_words_def)
    ultimately show ?thesis using none by (auto simp: told_def)
  qed
qed

lemma exit_ok_other:
  assumes ok: "session_ok sid s" and ex: "exit_ok s" and mv: "other_move s s'"
  shows "exit_ok s'"
  using mv
proof cases
  case (om_writer i res b h)
  note keep = writer_step_keeps[OF om_writer(3)]
  show ?thesis using om_writer keep by (intro exit_ok_boxes[OF ex]) (auto simp: nth_list_update)
next
  case (om_route bytes)
  then show ?thesis using ex
    by (auto simp: exit_ok_def route_output_def hold_for_first_client_def split: option.splits prod.splits)
next
  case (om_pump_call k ks)
  then obtain j data where j: "one_send j (Output data) (k # ks)" using session_okD(5)[OF ok] by auto
  have "\<not> past_take (main s)"
  proof
    assume "past_take (main s)"
    then show False using session_okD(6)[OF ok] om_pump_call by (cases "main s") auto
  qed
  moreover have "k \<noteq> Finish i" for i using j by (auto simp: one_send_def)
  ultimately show ?thesis using om_pump_call
      session_okD(3)[OF ok]
    by (intro exit_ok_boxes[OF ex]) (auto simp: updated_box box_of_def)
next
  case (om_main_take w clean cl)
  have "\<not> box_finished (boxes s ! i)" "i < length (boxes s)" if "slot s = Some (c, i)" for c i
    using ex session_okD(3)[OF ok that] that by (auto simp: exit_ok_def box_of_def)
  then show ?thesis using om_main_take by (auto simp: exit_ok_def told_def farewell_def split: option.splits)
next
  case (om_main_call w clean k ks cl)
  have alone: "slot s = None" using past_take_alone(1)[OF ok] om_main_call by simp
  have "j < length (boxes s') \<and> told status (snd (run_call k s) @ ks) j (boxes s' ! j)"
    if w: "w = Some status" "clean" "cl = Some j" for status j
  proof -
    obtain st where lw: "last_words j (AppExited st) (k # ks)"
      using session_okD(6)[OF ok] om_main_call w by auto
    have old: "j < length (boxes s)" "told status (k # ks) j (boxes s ! j)" using ex om_main_call w by (auto simp: exit_ok_def)
    have tgt: "call_target k = j" using lw by (auto simp: last_words_def)
    have new: "boxes s' ! j = call_effect k (boxes s ! j)" using om_main_call old(1) tgt by simp
    have "told status (snd (run_call k s) @ ks) j (call_effect k (boxes s ! j))"
      by (rule told_call[OF old(2) lw])
    then show ?thesis using new old(1) om_main_call by simp
  qed
  then show ?thesis using om_main_call alone by (auto simp: exit_ok_def)
next
  case (om_main_plain pc w clean cl)
  then show ?thesis using ex by (auto simp: exit_ok_def told_def)
next
  case (om_main_record w clean cl)
  then show ?thesis using ex by (auto simp: exit_ok_def told_def)
next
  case (om_main_delete w clean cl deleted)
  then show ?thesis using ex by (auto simp: exit_ok_def told_def)
qed (use ex in \<open>auto simp: exit_ok_def\<close>)

lemma exit_ok_reachable: "session_reachable sid s \<Longrightarrow> exit_ok s"
proof (induction rule: session_reachable.induct)
  case session_starts
  show ?case by (simp add: exit_ok_def session_new_def)
next
  case (session_moves s w res s')
  then show ?case using session_step_moves exit_ok_relay exit_ok_other session_ok_reachable by blast
qed

text \<open>C14: when the supervisor returns after an app that exited and whose output was read to the end, the client that
  owned the console at the stop has been sent \<open>Attached\<close>, its output and then the exit status, unless it was given up
  for falling behind or its connection broke.\<close>

theorem session_exit_status:
  assumes "session_reachable sid s" "main s = MAwaitWriter (Some status) True deleted (Some i)"
    and "writer (boxes s ! i) = WStopped" "\<not> abandoned (boxes s ! i)" "\<not> broken (boxes s ! i)"
  shows "\<exists>ds. written (boxes s ! i) = Attached sid # map Output ds @ [AppExited status]"
proof -
  have i: "i < length (boxes s)" "told status [] i (boxes s ! i)"
    using exit_ok_reachable[OF assms(1)] assms(2) by (auto simp: exit_ok_def)
  then obtain ms where ms: "accepted (boxes s ! i) = ms @ [AppExited status]" using assms(4) by (auto simp: told_def)
  note box = session_box_ok[OF assms(1) nth_mem[OF i(1)]]
  have "written (boxes s ! i) = accepted (boxes s ! i)" using box(1) assms(3-5) by (simp add: outbox_ok_def)
  moreover have "box_wire sid (boxes s ! i) = Ended"
    using box(2) by (cases "wire_state sid ms") (simp_all add: ms)
  then have "\<exists>ds. accepted (boxes s ! i) = Attached sid # map Output ds @ [AppExited status]"
    using wire_shaped[of sid "accepted (boxes s ! i)"] ms by (auto simp: Cons_eq_append_conv)
  ultimately show ?thesis by simp
qed

definition exit_session :: session where
  "exit_session = the (session_run 7 (butlast demo_moves) session_new)"

theorem session_exit_status_witness:
  "\<exists>ds. written (boxes exit_session ! 1) = Attached 7 # map Output ds @ [AppExited 0]"
proof -
  have "session_run 7 (butlast demo_moves) session_new \<noteq> None" by code_simp
  then have r: "session_reachable 7 exit_session" unfolding exit_session_def
    using session_run_reachable[OF session_starts] by (metis option.exhaust_sel)
  have "main exit_session = MAwaitWriter (Some 0) True True (Some 1)" "writer (boxes exit_session ! 1) = WStopped"
    "\<not> abandoned (boxes exit_session ! 1)" "\<not> broken (boxes exit_session ! 1)"
    unfolding exit_session_def by code_simp+
  from session_exit_status[OF r this] show ?thesis .
qed


section \<open>The attach transaction ends\<close>

fun call_work :: "outbox_call \<Rightarrow> nat" where
  "call_work (Send i m) = 3" | "call_work (Abandon i) = 2" | "call_work (HangUp i) = 1" | "call_work (Finish i) = 1"

text \<open>At most how many own steps a relay still needs to release the attach lock.\<close>

fun attach_work :: "client_pc \<Rightarrow> nat" where
  "attach_work (CCheck sz) = 32" | "attach_work (CStart sz) = 31" | "attach_work (CSlot sz i) = 30"
| "attach_work (CTake sz i) = 25" | "attach_work (CReplace sz i) = 8" | "attach_work (CNote sz i old g) = 7"
| "attach_work (CResize sz i g) = 1" | "attach_work (CCalls ks pc) = sum_list (map call_work ks) + 1 + attach_work pc"
| "attach_work pc = 0"

lemma length_chunks: "0 < n \<Longrightarrow> length xs \<le> m * n \<Longrightarrow> length (chunks n xs) \<le> m"
proof (induction m arbitrary: xs)
  case 0
  then show ?case by (simp add: chunks.simps)
next
  case (Suc m)
  then show ?case using Suc.IH[of "drop n xs"] by (subst chunks.simps) (auto simp: algebra_simps)
qed

lemma preamble_messages_few:
  "length held \<le> MAX_CLIENT_BACKLOG_BYTES \<Longrightarrow> length (preamble_messages held) \<le> 5"
  using length_chunks[OF output_chunk_pos, of held 5]
  by (simp add: preamble_messages_def MAX_CLIENT_BACKLOG_BYTES_def MAX_OUTPUT_CHUNK_BYTES_def MAX_FRAME_LEN_def)

lemma next_call_work: "sum_list (map call_work (snd (run_call k s))) < call_work k"
  by (cases k) (auto simp: split_beta)

lemma attach_work_decreases:
  assumes ok: "session_ok sid s" and lock: "in_attach (clients s c)" and mv: "relay_move sid c s s'"
  shows "attach_lock s' = None \<or> in_attach (clients s' c) \<and> attach_work (clients s' c) < attach_work (clients s c)"
  using mv
proof cases
  case (rm_plain pc pc' sz p m)
  then show ?thesis using lock by auto
next
  case (rm_take sz i held)
  then have "length (preamble_messages held) \<le> 5" using preamble_messages_few session_okD(8)[OF ok] by simp
  moreover have "sum_list (map (call_work \<circ> Send i) ms) = 3 * length ms" for ms by (induction ms) auto
  ultimately show ?thesis using rm_take by simp
next
  case (rm_note sz i old g)
  then show ?thesis by (auto split: option.splits)
next
  case (rm_call k ks pc)
  then show ?thesis using next_call_work[of k s] lock by simp
qed (use lock in auto)

lemma relay_move_others: "relay_move sid c s s' \<Longrightarrow> d \<noteq> c \<Longrightarrow> clients s' d = clients s d"
  by (auto elim!: relay_move.cases)

lemma other_move_clients:
  assumes "other_move s s'"
  shows "clients s' d = clients s d \<or> clients s d = CNew \<and> clients s' d = CRecv"
  using assms
proof cases
  case (om_route bytes)
  then show ?thesis by (auto simp: route_output_def hold_for_first_client_def split: option.splits prod.splits)
qed auto

lemma attacher_enabled:
  assumes lock: "in_attach (clients s c)" and slot: "\<And>sz i. clients s c = CSlot sz i \<Longrightarrow> slot_lock s = None"
  shows "\<exists>s'. client_step sid c Ret s = Some s'"
proof (cases "clients s c")
  case (CCalls ks pc)
  then show ?thesis by (cases ks) (auto simp: client_step_def Let_def split_beta)
qed (use lock slot in \<open>auto simp: client_step_def attach_step_def take_preamble_def Let_def split: option.splits\<close>)

text \<open>The holder of the client lock is the relay that attaches or one whose message the console takes in.\<close>

lemma in_slot_cases: "in_slot pc \<Longrightarrow> relay_ok sid bs sl c pc \<Longrightarrow> in_attach pc \<or> pc = CApplying"
proof (cases pc)
  case (CCalls ks pc')
  assume "in_slot pc" "relay_ok sid bs sl c pc"
  with CCalls show ?thesis by (cases pc') auto
qed auto

lemma slot_holder:
  assumes ok: "session_ok sid s" and lock: "in_attach (clients s c)" and held: "slot_lock s = Some d"
    and wants: "\<not> in_slot (clients s c)"
  shows "d \<noteq> c" "clients s d = CApplying"
proof -
  have d: "in_slot (clients s d)" using session_okD(1)[OF ok] held by (simp add: locks_ok_def)
  with wants show ne: "d \<noteq> c" by auto
  have "\<not> in_attach (clients s d)" using relay_ok_attaching(1)[OF ok lock ne] .
  then show "clients s d = CApplying" using in_slot_cases[OF d session_okD(4)[OF ok]] by blast
qed

text \<open>Whatever the console answers, its call ends and gives the client lock back.\<close>

lemma applying_ends:
  assumes "clients s d = CApplying" "res \<in> {Ret, Err, Panic}"
  obtains s' where "client_step sid d res s = Some s'" "slot_lock s' = None" "\<And>e. e \<noteq> d \<Longrightarrow> clients s' e = clients s e"
  using assms by (auto simp: client_step_def applied_step_def relay_goto_def Let_def)

lemma attach_bounded: "session_reachable sid s \<Longrightarrow> in_attach (clients s c) \<Longrightarrow> attach_work (clients s c) \<le> 32"
proof (induction rule: session_reachable.induct)
  case session_starts
  then show ?case by (simp add: session_new_def)
next
  case (session_moves s w res s')
  note ok = session_ok_reachable[OF session_moves.hyps(1)]
  note locks' = locks_ok_step[OF session_okD(1)[OF ok] session_moves.hyps(2)]
  consider d where "relay_move sid d s s'" | "other_move s s'" using session_step_moves[OF session_moves.hyps(2)] by blast
  then show ?case
  proof cases
    case 1
    show ?thesis
    proof (cases "d = c \<and> in_attach (clients s c)")
      case True
      then show ?thesis
        using attach_work_decreases[OF ok, of c s'] 1 session_moves locks_ok_at(1)[OF locks' refl, of c] by auto
    next
      case False
      then show ?thesis using 1 session_moves by (cases "d = c") (auto elim!: relay_move.cases)
    qed
  next
    case 2
    then show ?thesis using other_move_clients[OF 2, of c] session_moves by auto
  qed
qed

text \<open>C29: a relay that holds the attach lock releases it after at most 32 steps of its own: each of them releases
  the lock or brings the release nearer, whatever the platform answers. It can always take its next step, unless it is
  about to install its client while the console takes in a message of the present owner; then it waits for the end of
  that one call, and whatever the console answers, the end of the call lets it go on. So no attach, steal or stop waits
  for a client that has stopped reading.\<close>

theorem session_attach_ends:
  assumes "session_reachable sid s" "attach_lock s = Some (HClient c)"
  shows "attach_work (clients s c) \<le> 32
    \<and> (\<forall>res s'. session_step sid (Client c) res s = Some s' \<longrightarrow>
        attach_lock s' = None \<or> attach_work (clients s' c) < attach_work (clients s c))
    \<and> ((\<exists>s'. session_step sid (Client c) Ret s = Some s')
      \<or> (\<exists>sz i d. clients s c = CSlot sz i \<and> slot_lock s = Some d \<and> clients s d = CApplying \<and> owns d s
          \<and> (\<forall>res \<in> {Ret, Err, Panic}. \<exists>s1 s2. session_step sid (Client d) res s = Some s1
              \<and> session_step sid (Client c) Ret s1 = Some s2)))"
proof (intro conjI allI impI)
  note ok = session_ok_reachable[OF assms(1)]
  have lock: "in_attach (clients s c)" using session_okD(1)[OF ok] assms(2) by (simp add: locks_ok_def)
  show "attach_work (clients s c) \<le> 32" by (rule attach_bounded[OF assms(1) lock])
  show "attach_lock s' = None \<or> attach_work (clients s' c) < attach_work (clients s c)"
    if "session_step sid (Client c) res s = Some s'" for res s'
    using attach_work_decreases[OF ok lock, of s'] client_step_moves[of sid c res s s'] that by auto
  show "(\<exists>s'. session_step sid (Client c) Ret s = Some s')
      \<or> (\<exists>sz i d. clients s c = CSlot sz i \<and> slot_lock s = Some d \<and> clients s d = CApplying \<and> owns d s
          \<and> (\<forall>res \<in> {Ret, Err, Panic}. \<exists>s1 s2. session_step sid (Client d) res s = Some s1
              \<and> session_step sid (Client c) Ret s1 = Some s2))"
  proof (cases "\<exists>sz i d. clients s c = CSlot sz i \<and> slot_lock s = Some d")
    case True
    then obtain sz i d where d: "clients s c = CSlot sz i" "slot_lock s = Some d" by blast
    have h: "d \<noteq> c" "clients s d = CApplying" using slot_holder[OF ok lock d(2)] d(1) by simp_all
    have "\<exists>s1 s2. session_step sid (Client d) res s = Some s1 \<and> session_step sid (Client c) Ret s1 = Some s2"
      if r: "res \<in> {Ret, Err, Panic}" for res
    proof -
      obtain s1 where s1: "client_step sid d res s = Some s1" "slot_lock s1 = None" "clients s1 c = clients s c"
        using applying_ends[OF h(2) r] h(1) by metis
      then obtain s2 where "client_step sid c Ret s1 = Some s2" using attacher_enabled[of s1 c sid] lock by auto
      with s1(1) show ?thesis by simp
    qed
    moreover have "owns d s" using applying_owns[OF assms(1)] h(2) by blast
    ultimately show ?thesis using d h(2) by blast
  next
    case False
    then have "\<And>sz i. clients s c = CSlot sz i \<Longrightarrow> slot_lock s = None" by auto
    then show ?thesis using attacher_enabled[OF lock] by simp
  qed
qed

text \<open>A second client that is about to take the console over while the first one's input is applied.\<close>

definition waiting_session :: session where
  "waiting_session = the (session_run 7 (attaches 1 @ replicate 13 (Client 1, Ret)
     @ [(Client 1, Msg (Input [120])), (Client 1, Ret)] @ attaches 2 @ replicate 3 (Client 2, Ret)) session_new)"

theorem session_attach_ends_witness:
  "\<exists>sz i s1 s2. clients waiting_session 2 = CSlot sz i
    \<and> session_step 7 (Client 1) Panic waiting_session = Some s1 \<and> session_step 7 (Client 2) Ret s1 = Some s2"
proof -
  have "session_run 7 (attaches 1 @ replicate 13 (Client 1, Ret)
     @ [(Client 1, Msg (Input [120])), (Client 1, Ret)] @ attaches 2 @ replicate 3 (Client 2, Ret)) session_new \<noteq> None"
    by code_simp
  then have r: "session_reachable 7 waiting_session" unfolding waiting_session_def
    using session_run_reachable[OF session_starts] by (metis option.exhaust_sel)
  have w: "attach_lock waiting_session = Some (HClient 2)" "slot_lock waiting_session = Some 1"
    "session_step 7 (Client 2) Ret waiting_session = None"
    unfolding waiting_session_def by code_simp+
  from session_attach_ends[OF r w(1)] w(2,3) show ?thesis by auto
qed

end
