(* ===== verification/DureRecord.thy ===== *)
theory DureRecord
  imports DureTeardown
begin

text \<open>
  Package \<open>dure\<close>: the advisory attached flag of the session record. Ownership never waits for the store: a
  change hands a generation to the record writer, which skips what is no longer current. The flag may be stale
  for a while, but not for good.
\<close>

section \<open>Updates on their way\<close>

fun carried :: "client_pc \<Rightarrow> (nat \<times> bool) option" where
  "carried (CNote sz i old g) = Some (g, True)" | "carried (CResize sz i g) = Some (g, True)"
| "carried (CPublish g) = Some (g, True)" | "carried (CPublishOff g) = Some (g, False)"
| "carried (CCalls ks pc) = carried pc" | "carried pc = None"

fun leaving :: "client_pc \<Rightarrow> bool" where
  "leaving (CDetach p) = True" | "leaving (CCalls ks pc) = leaving pc" | "leaving pc = False"

definition attached :: "session \<Rightarrow> bool" where
  "attached s = (slot s \<noteq> None)"

text \<open>The news of an owner change that has not reached the store.\<close>

definition news :: "session \<Rightarrow> (nat \<times> bool) set" where
  "news s =
     {(g, flag). SetAttached g flag \<in> set (updates s) \<or> recorder s = RCheck g flag \<or> recorder s = RStore g flag
        \<or> (\<exists>c. carried (clients s c) = Some (g, flag))}"

definition being_left :: "session \<Rightarrow> bool" where
  "being_left s = (\<exists>c i. slot s = Some (c, i) \<and> leaving (clients s c))"

definition settled_record :: "session \<Rightarrow> bool" where
  "settled_record s = (record_attached s = attached s \<and> (\<forall>g flag. recorder s = RStore g flag \<longrightarrow> flag = attached s))"

definition record_ok :: "session \<Rightarrow> bool" where
  "record_ok s =
     ((\<forall>(g, flag) \<in> news s. g \<le> attached_generation s)
      \<and> (\<not> past_take (main s) \<longrightarrow>
          (\<forall>(g, flag) \<in> news s. g = attached_generation s \<longrightarrow> flag = attached s)
          \<and> (settled_record s \<or> store_failed s \<or> (attached_generation s, attached s) \<in> news s \<or> being_left s)))"

lemma record_ok_same_owner:
  assumes ok: "record_ok s" and same: "attached_generation s' = attached_generation s" "slot s' = slot s"
    and main: "past_take (main s) \<Longrightarrow> past_take (main s')"
    and fewer: "news s' \<subseteq> news s"
    and rest: "\<not> past_take (main s) \<Longrightarrow> settled_record s \<Longrightarrow> settled_record s' \<or> store_failed s'" "store_failed s \<Longrightarrow> store_failed s'"
      "(attached_generation s, attached s) \<in> news s \<Longrightarrow> settled_record s' \<or> store_failed s' \<or>
        (attached_generation s, attached s) \<in> news s' \<or> being_left s'"
      "being_left s \<Longrightarrow> being_left s'"
  shows "record_ok s'"
  using assms unfolding record_ok_def attached_def by (simp add: subset_eq) blast

lemma news_relay:
  assumes "clients s' = (clients s)(c := pc')" "updates s' = updates s" "recorder s' = recorder s"
  shows "carried pc' = carried (clients s c) \<Longrightarrow> news s' = news s" "carried pc' = None \<Longrightarrow> news s' \<subseteq> news s"
proof -
  assume "carried pc' = carried (clients s c)"
  then have "carried (clients s' d) = carried (clients s d)" for d using assms(1) by simp
  then show "news s' = news s" using assms(2,3) by (simp add: news_def)
next
  assume "carried pc' = None"
  then have "carried (clients s' d) = Some x \<Longrightarrow> carried (clients s d) = Some x" for d x
    using assms(1) by (cases "d = c") auto
  then show "news s' \<subseteq> news s" using assms(2,3) by (auto simp: news_def)
qed

text \<open>A relay that goes on without touching the slot or the updates.\<close>

lemma record_ok_goes_on:
  assumes ok: "record_ok s" and same: "attached_generation s' = attached_generation s" "slot s' = slot s" "main s' = main s"
      "updates s' = updates s" "recorder s' = recorder s" "record_attached s' = record_attached s" "store_failed s' = store_failed s"
    and pcs: "clients s' = (clients s)(c := pc')"
    and carry: "carried pc' = carried (clients s c) \<or> carried pc' = None \<and> being_left s'"
    and leave: "leaving (clients s c) \<Longrightarrow> leaving pc' \<or> map_option fst (slot s) \<noteq> Some c"
  shows "record_ok s'"
proof (rule record_ok_same_owner[OF ok same(1,2)])
  show "news s' \<subseteq> news s" using carry news_relay[OF pcs same(4,5)] by auto
  show "settled_record s \<Longrightarrow> settled_record s' \<or> store_failed s'" using same by (simp add: settled_record_def attached_def)
  show "being_left s \<Longrightarrow> being_left s'" using leave by (auto simp: being_left_def same pcs)
  show "(attached_generation s, attached s) \<in> news s \<Longrightarrow> settled_record s' \<or> store_failed s'
      \<or> (attached_generation s, attached s) \<in> news s' \<or> being_left s'"
    using carry news_relay(1)[OF pcs same(4,5)] by auto
qed (use same in auto)

lemma record_ok_new_owner:
  assumes ok: "record_ok s" and g: "attached_generation s' = Suc (attached_generation s)"
    and news: "news s' \<subseteq> insert (Suc (attached_generation s), attached s') (news s)"
      "(Suc (attached_generation s), attached s') \<in> news s'"
  shows "record_ok s'"
proof -
  have old: "g \<le> attached_generation s" if "(g, flag) \<in> news s" for g flag using ok that by (auto simp: record_ok_def)
  have "(g, flag) = (Suc (attached_generation s), attached s') \<or> g \<le> attached_generation s"
    if "(g, flag) \<in> news s'" for g flag using old that news(1) by auto
  then show ?thesis using news(2) unfolding record_ok_def g by fastforce
qed

lemma record_ok_relay:
  assumes ok: "session_ok sid s" and rec: "record_ok s" and mv: "relay_move sid c s s'"
  shows "record_ok s'"
  using mv
proof cases
  case (rm_replace sz i)
  have new: "carried (clients s' d) = Some (g, flag) \<Longrightarrow>
      (g, flag) = (Suc (attached_generation s), True) \<or> carried (clients s d) = Some (g, flag)" for d g flag
    using rm_replace by (auto split: if_splits)
  have "carried (clients s' c) = Some (Suc (attached_generation s), True)" using rm_replace by simp
  then have "(Suc (attached_generation s), True) \<in> news s'" unfolding news_def by blast
  moreover have "news s' \<subseteq> insert (Suc (attached_generation s), True) (news s)"
    using rm_replace new unfolding news_def by auto
  ultimately show ?thesis using rm_replace by (intro record_ok_new_owner[OF rec]) (simp_all add: attached_def)
next
  case (rm_detach p i)
  have new: "carried (clients s' d) = Some (g, flag) \<Longrightarrow>
      (g, flag) = (Suc (attached_generation s), False) \<or> carried (clients s d) = Some (g, flag)" for d g flag
    using rm_detach by (auto split: if_splits)
  have "carried (clients s' c) = Some (Suc (attached_generation s), False)" using rm_detach by simp
  then have "(Suc (attached_generation s), False) \<in> news s'" unfolding news_def by blast
  moreover have "news s' \<subseteq> insert (Suc (attached_generation s), False) (news s)"
    using rm_detach new unfolding news_def by auto
  ultimately show ?thesis using rm_detach by (intro record_ok_new_owner[OF rec]) (simp_all add: attached_def)
next
  case (rm_resize sz i g pc')
  have "slot s = Some (c, i)" using session_okD(4)[OF ok, of c] rm_resize by simp
  then show ?thesis using rm_resize
    by (intro record_ok_goes_on[OF rec, where c = c and pc' = pc']) (auto simp: being_left_def)
next
  case (rm_publish g pc' flag)
  have c: "carried (clients s c) = Some (g, flag)" "carried pc' = None" "\<not> leaving (clients s c)" using rm_publish by auto
  have "carried (clients s' d) = (if d = c then None else carried (clients s d))" for d using rm_publish c(2) by simp
  then have "(\<exists>d. carried (clients s d) = Some x) = (x = (g, flag) \<or> (\<exists>d. carried (clients s' d) = Some x))" for x
    using c(1) by (metis option.inject option.discI)
  then have "news s' = news s" using rm_publish unfolding news_def by auto
  then show ?thesis using rm_publish c(3)
    by (intro record_ok_same_owner[OF rec]) (auto simp: settled_record_def attached_def being_left_def)
next
  case (rm_plain pc pc' sz p m)
  then show ?thesis
    by (intro record_ok_goes_on[OF rec, where c = c and pc' = pc']) (auto simp: being_left_def)
qed (rule record_ok_goes_on[OF rec, where c = c and pc' = "clients s' c"]; auto simp: being_left_def)+

text \<open>The record writer is stopped only after the last owner is gone.\<close>

definition stop_ok :: "session \<Rightarrow> bool" where
  "stop_ok s = (StopRecord \<in> set (updates s) \<longrightarrow> past_take (main s))"

lemma stop_ok_relay: "stop_ok s \<Longrightarrow> relay_move sid c s s' \<Longrightarrow> stop_ok s'"
  by (erule relay_move.cases) (auto simp: stop_ok_def)

lemma stop_ok_other:
  assumes "stop_ok s" "other_move s s'"
  shows "stop_ok s'"
  using assms(2)
proof cases
  case (om_route bytes)
  then show ?thesis using assms(1)
    by (auto simp: stop_ok_def route_output_def hold_for_first_client_def split: option.splits prod.splits)
qed (use assms(1) in \<open>auto simp: stop_ok_def\<close>)

lemma record_ok_other:
  assumes stop: "stop_ok s" and rec: "record_ok s" and mv: "other_move s s'"
  shows "record_ok s'"
  using mv
proof cases
  case (om_route bytes)
  then have "news s' = news s" "settled_record s' = settled_record s" "attached s' = attached s" "being_left s' = being_left s"
    "attached_generation s' = attached_generation s" "main s' = main s" "store_failed s' = store_failed s"
    by (auto simp: route_output_def hold_for_first_client_def news_def settled_record_def attached_def being_left_def
        split: option.splits prod.splits)
  then show ?thesis using rec by (simp add: record_ok_def)
next
  case (om_receive g flag us)
  then have "news s' = news s" by (auto simp: news_def)
  then show ?thesis using om_receive
    by (intro record_ok_same_owner[OF rec]) (auto simp: settled_record_def attached_def being_left_def)
next
  case (om_receive_stop us)
  then have "past_take (main s)" "news s' \<subseteq> news s" using stop by (auto simp: stop_ok_def news_def)
  then show ?thesis using om_receive_stop rec by (auto simp: record_ok_def)
next
  case (om_check g flag)
  show ?thesis
  proof (cases "attached_generation s = g")
    case True
    then have n: "news s' = news s" "(g, flag) \<in> news s" using om_check by (auto simp: news_def)
    then have "\<not> past_take (main s) \<Longrightarrow> flag = attached s" using rec True unfolding record_ok_def by blast
    then show ?thesis using om_check True n(1)
      by (intro record_ok_same_owner[OF rec]) (auto simp: settled_record_def attached_def being_left_def)
  next
    case False
    then have "news s' \<subseteq> news s" "(attached_generation s, attached s) \<in> news s \<Longrightarrow> (attached_generation s, attached s) \<in> news s'"
      using om_check by (auto simp: news_def)
    then show ?thesis using om_check False
      by (intro record_ok_same_owner[OF rec]) (auto simp: settled_record_def attached_def being_left_def)
  qed
next
  case (om_store g flag)
  then have "news s' \<subseteq> news s" "(attached_generation s, attached s) \<in> news s \<Longrightarrow> flag = attached s \<or>
      (attached_generation s, attached s) \<in> news s'" by (auto simp: news_def)
  then show ?thesis using om_store
    by (intro record_ok_same_owner[OF rec]) (auto simp: settled_record_def attached_def being_left_def)
next
  case (om_store_fails g flag)
  then have "news s' \<subseteq> news s" by (auto simp: news_def)
  then show ?thesis using om_store_fails
    by (intro record_ok_same_owner[OF rec]) (auto simp: being_left_def)
next
  case (om_accept c)
  then show ?thesis by (intro record_ok_goes_on[OF rec, where c = c and pc' = CRecv]) auto
next
  case (om_main_take w clean cl)
  then have "news s' = news s" by (auto simp: news_def)
  then show ?thesis using om_main_take rec by (simp add: record_ok_def)
qed (rule record_ok_same_owner[OF rec]; auto simp: settled_record_def attached_def being_left_def news_def)+

lemma record_ok_reachable: "session_reachable sid s \<Longrightarrow> record_ok s \<and> stop_ok s"
proof (induction rule: session_reachable.induct)
  case session_starts
  show ?case
    by (simp add: record_ok_def stop_ok_def news_def settled_record_def attached_def session_new_def)
next
  case (session_moves s w res s')
  then show ?case
    using session_step_moves session_ok_reachable record_ok_relay record_ok_other stop_ok_relay stop_ok_other by metis
qed

text \<open>C21: until the stopping session takes the last client out of the slot: once the updates have been worked off -
  none is queued or being written, no relay still carries one and the owner is not on its way out - the record says
  whether a client is attached, provided no write failed. Whatever stale value was written in between has been
  corrected. From the moment the stop empties the slot the record is no longer updated: it may go on naming the
  client that was attached until the session deletes it.\<close>

theorem session_record_settles:
  assumes "session_reachable sid s" "\<not> past_take (main s)" "\<not> store_failed s"
    and "updates s = []" "recorder s = RRecv" "\<forall>c. carried (clients s c) = None \<and> \<not> leaving (clients s c)"
  shows "record_attached s = (slot s \<noteq> None)"
proof -
  have "news s = {}" "\<not> being_left s" using assms(4-6) by (auto simp: news_def being_left_def)
  then have "settled_record s" using record_ok_reachable[OF assms(1)] assms(2,3) by (simp add: record_ok_def)
  then show ?thesis by (simp add: settled_record_def attached_def)
qed

text \<open>A connection nobody accepts stays unknown.\<close>

lemma session_step_unknown:
  assumes "session_step sid w res s = Some s'" "w \<noteq> Client c" "res \<noteq> Conn c"
  shows "clients s' c = clients s c"
proof (cases w)
  case (Client d)
  then show ?thesis using assms client_step_moves relay_move_others by fastforce
next
  case (BoxWriter i)
  then show ?thesis using assms by (auto elim!: box_writer_frame)
next
  case Pump
  then show ?thesis using assms
    by (auto simp: pump_step_def route_output_def hold_for_first_client_def Let_def split_beta
        split: pump_pc.splits answer.splits if_splits list.splits option.splits)
next
  case Main
  then show ?thesis using assms
    by (auto simp: main_step_def session_updates Let_def split_beta
        split: main_pc.splits pump_pc.splits answer.splits if_splits list.splits option.splits)
next
  case Recorder
  then show ?thesis using assms
    by (auto simp: record_step_def split: recorder_pc.splits list.splits record_command.splits answer.splits)
qed (use assms in \<open>auto simp: accept_step_def initiator_step_def session_updates
    split: acceptor_pc.splits answer.splits if_splits\<close>)

lemma session_run_unknown:
  assumes "session_run sid moves s = Some s'" "\<forall>(w, res) \<in> set moves. w \<noteq> Client c \<and> res \<noteq> Conn c"
  shows "clients s' c = clients s c"
  using assms
proof (induction moves arbitrary: s)
  case (Cons move moves)
  then obtain w res s1 where m: "move = (w, res)" "session_step sid w res s = Some s1" "session_run sid moves s1 = Some s'"
    by (cases move) (auto split: option.splits)
  have "clients s1 c = clients s c" using session_step_unknown[OF m(2)] m(1) Cons.prems(2) by simp
  then show ?case using Cons.IH[OF m(3)] Cons.prems(2) by simp
qed simp

definition record_moves :: "(session_thread \<times> answer) list" where
  "record_moves = attaches 1 @ replicate 13 (Client 1, Ret) @ replicate 3 (Recorder, Ret)"

definition record_session :: session where
  "record_session = the (session_run 7 record_moves session_new)"

theorem session_record_settles_witness: "record_attached record_session"
proof -
  have "session_run 7 record_moves session_new \<noteq> None" by code_simp
  then have run: "session_run 7 record_moves session_new = Some record_session" by (auto simp: record_session_def)
  have r: "session_reachable 7 record_session" by (rule session_run_reachable[OF session_starts run])
  have s: "\<not> past_take (main record_session)" "\<not> store_failed record_session" "updates record_session = []"
    "recorder record_session = RRecv" "slot record_session \<noteq> None" "clients record_session 1 = CLoop"
    unfolding record_session_def by code_simp+
  have "clients record_session c = CNew" if "c \<noteq> 1" for c
    using session_run_unknown[OF run, of c] that by (simp add: record_moves_def attaches_def session_new_def)
  then have "\<forall>c. carried (clients record_session c) = None \<and> \<not> leaving (clients record_session c)"
    using s(6) by (metis carried.simps leaving.simps)
  from session_record_settles[OF r s(1-4) this] s(5) show ?thesis by simp
qed

end
