(* ===== verification/FloatText.thy ===== *)
theory FloatText
  imports Complex_Main "HOL-Library.Code_Target_Nat" Cpulist
begin

text \<open>
  The parts of the Rust standard library that the Linux platform reads text with: lines, trimming, ASCII case,
  unsigned integers of a given radix and width, and binary floating point. A finite float is the rational number it
  stands for; \<open>round_to\<close> is the correctly rounded conversion (ties to even) into a format given by its
  precision and exponent range, so \<open>f32\<close> and \<open>f64\<close> arithmetic is exact arithmetic followed by it. Signed zeros
  are not told apart: no operation used here does.
\<close>

section \<open>Text\<close>

definition is_space :: "char \<Rightarrow> bool" where
  "is_space c = (of_char c \<in> {9, 10, 11, 12, 13, 32 :: nat})"

definition trim_start :: "string \<Rightarrow> string" where
  "trim_start = dropWhile is_space"

definition trim :: "string \<Rightarrow> string" where
  "trim s = rev (trim_start (rev (trim_start s)))"

definition newline :: char where
  "newline = char_of (10 :: nat)"

definition carriage_return :: char where
  "carriage_return = char_of (13 :: nat)"

text \<open>\<open>str::lines\<close>: split at newlines, a final newline ends the last line, one carriage return before a newline is
  dropped.\<close>

definition strip_cr :: "string \<Rightarrow> string" where
  "strip_cr s = (if s \<noteq> [] \<and> last s = carriage_return then butlast s else s)"

fun lines :: "string \<Rightarrow> string list" where
  "lines s = (case split_once newline s of
      Some (l, r) \<Rightarrow> strip_cr l # (if length r < length s then lines r else [])
    | None \<Rightarrow> if s = [] then [] else [s])"

declare lines.simps [simp del]

definition ascii_lower :: "char \<Rightarrow> char" where
  "ascii_lower c = (let n = of_char c :: nat in if 65 \<le> n \<and> n \<le> 90 then char_of (n + 32) else c)"

definition to_ascii_lowercase :: "string \<Rightarrow> string" where
  "to_ascii_lowercase s = map ascii_lower s"

fun starts_with :: "string \<Rightarrow> string \<Rightarrow> bool" where
  "starts_with [] _ = True"
| "starts_with (p # ps) [] = False"
| "starts_with (p # ps) (c # cs) = (p = c \<and> starts_with ps cs)"

section \<open>Unsigned integers\<close>

definition radix_digit :: "nat \<Rightarrow> char \<Rightarrow> nat option" where
  "radix_digit r c = (let n = of_char c :: nat;
      d = if 48 \<le> n \<and> n \<le> 57 then n - 48
          else if 65 \<le> n \<and> n \<le> 90 then n - 55
          else if 97 \<le> n \<and> n \<le> 122 then n - 87 else r in
    if d < r then Some d else None)"

fun radix_digits :: "nat \<Rightarrow> nat \<Rightarrow> string \<Rightarrow> nat option" where
  "radix_digits r acc [] = Some acc"
| "radix_digits r acc (c # cs) =
    (case radix_digit r c of None \<Rightarrow> None | Some d \<Rightarrow> radix_digits r (acc * r + d) cs)"

text \<open>\<open>from_str_radix\<close> of an unsigned type of \<open>w\<close> bits, its errors merged: at least one digit after an optional
  plus sign, and a value in range.\<close>

definition parse_unsigned :: "nat \<Rightarrow> nat \<Rightarrow> string \<Rightarrow> nat option" where
  "parse_unsigned r w s =
    (let t = (case s of c # cs \<Rightarrow> if c = CHR ''+'' then cs else s | [] \<Rightarrow> []) in
     if t = [] then None
     else case radix_digits r 0 t of
        Some n \<Rightarrow> if n < 2 ^ w then Some n else None
      | None \<Rightarrow> None)"

definition parse_u64 :: "string \<Rightarrow> nat option" where
  "parse_u64 = parse_unsigned 10 64"

definition hex_char :: "nat \<Rightarrow> char" where
  "hex_char d = (if d < 10 then char_of (48 + d) else char_of (87 + d))"

fun to_hex :: "nat \<Rightarrow> string" where
  "to_hex n = (if n < 16 then [hex_char n] else to_hex (n div 16) @ [hex_char (n mod 16)])"

declare to_hex.simps [simp del]

section \<open>Binary floating point\<close>

datatype flt = Finite rat | Infinite bool | Not_a_number

record float_format =
  precision :: nat
  min_exp :: int
  max_exp :: int

definition f32 :: float_format where
  "f32 = \<lparr>precision = 24, min_exp = - 126, max_exp = 127\<rparr>"

definition f64 :: float_format where
  "f64 = \<lparr>precision = 53, min_exp = - 1022, max_exp = 1023\<rparr>"

definition pow2 :: "int \<Rightarrow> rat" where
  "pow2 k = (if 0 \<le> k then 2 ^ nat k else 1 / 2 ^ nat (- k))"

definition round_even :: "rat \<Rightarrow> int" where
  "round_even q = (let f = \<lfloor>q\<rfloor>; d = q - of_int f in
    if d < 1 / 2 \<or> (d = 1 / 2 \<and> even f) then f else f + 1)"

function ilog2 :: "int \<Rightarrow> int" where
  "ilog2 n = (if n < 2 then 0 else ilog2 (n div 2) + 1)"
  by pat_completeness auto
termination by (relation "measure nat") auto

declare ilog2.simps [simp del]

text \<open>The exponent of the power of two at or below a positive rational.\<close>

definition binade :: "rat \<Rightarrow> int" where
  "binade q = (let (n, d) = quotient_of q in
    if d \<le> n then ilog2 (n div d)
    else - (ilog2 ((d + n - 1) div n - 1) + 1))"

definition round_magnitude :: "float_format \<Rightarrow> rat \<Rightarrow> rat" where
  "round_magnitude fmt q = (if q = 0 then 0
    else let ulp = pow2 (max (binade q) (min_exp fmt) - (int (precision fmt) - 1))
         in of_int (round_even (q / ulp)) * ulp)"

definition round_to :: "float_format \<Rightarrow> rat \<Rightarrow> flt" where
  "round_to fmt q = (let m = round_magnitude fmt \<bar>q\<bar> in
    if pow2 (max_exp fmt + 1) \<le> m then Infinite (q < 0)
    else Finite (if q < 0 then - m else m))"

text \<open>\<open>as\<close> between an unsigned integer type and a float: the integer rounds, the float truncates and saturates and
  not-a-number becomes zero.\<close>

definition float_of_nat :: "float_format \<Rightarrow> nat \<Rightarrow> flt" where
  "float_of_nat fmt n = round_to fmt (of_nat n)"

definition flt_to_unsigned :: "nat \<Rightarrow> flt \<Rightarrow> nat" where
  "flt_to_unsigned w x = (case x of
      Finite q \<Rightarrow> min (nat \<lfloor>q\<rfloor>) (2 ^ w - 1)
    | Infinite neg \<Rightarrow> if neg then 0 else 2 ^ w - 1
    | Not_a_number \<Rightarrow> 0)"

definition flt_div :: "float_format \<Rightarrow> flt \<Rightarrow> flt \<Rightarrow> flt" where
  "flt_div fmt x y = (case (x, y) of
      (Finite a, Finite b) \<Rightarrow>
        if b = 0 then (if a = 0 then Not_a_number else Infinite (a < 0)) else round_to fmt (a / b)
    | (Infinite s, Finite b) \<Rightarrow> Infinite (s \<noteq> (b < 0))
    | (Finite a, Infinite s) \<Rightarrow> Finite 0
    | _ \<Rightarrow> Not_a_number)"

text \<open>\<open>min\<close>: the other argument when one is not a number.\<close>

definition flt_min :: "flt \<Rightarrow> flt \<Rightarrow> flt" where
  "flt_min x y = (case (x, y) of
      (Not_a_number, _) \<Rightarrow> y
    | (_, Not_a_number) \<Rightarrow> x
    | (Infinite s, _) \<Rightarrow> if s then x else y
    | (_, Infinite s) \<Rightarrow> if s then y else x
    | (Finite a, Finite b) \<Rightarrow> if b < a then y else x)"

definition flt_floor :: "flt \<Rightarrow> flt" where
  "flt_floor x = (case x of Finite q \<Rightarrow> Finite (of_int \<lfloor>q\<rfloor>) | _ \<Rightarrow> x)"

text \<open>\<open>f32::round\<close>: to the nearest integer, halves away from zero.\<close>

definition flt_round :: "flt \<Rightarrow> flt" where
  "flt_round x = (case x of
      Finite q \<Rightarrow> Finite (of_int (if q < 0 then - \<lfloor>1 / 2 - q\<rfloor> else \<lfloor>q + 1 / 2\<rfloor>))
    | _ \<Rightarrow> x)"

section \<open>Reading a float\<close>

definition is_digit :: "char \<Rightarrow> bool" where
  "is_digit c = (to_digit c \<noteq> None)"

definition digits_value :: "string \<Rightarrow> int" where
  "digits_value s = foldl (\<lambda>a c. 10 * a + int (the (to_digit c))) 0 s"

text \<open>An exponent part: nothing, or \<open>e\<close>, an optional sign and at least one digit, up to the end.\<close>

definition parse_exponent :: "string \<Rightarrow> int option" where
  "parse_exponent s = (case s of
      [] \<Rightarrow> Some 0
    | c # cs \<Rightarrow>
        if ascii_lower c \<noteq> CHR ''e'' then None
        else let neg = (cs \<noteq> [] \<and> hd cs = CHR ''-'');
                 ds = (if cs \<noteq> [] \<and> (hd cs = CHR ''-'' \<or> hd cs = CHR ''+'') then tl cs else cs)
             in if ds = [] \<or> \<not> list_all is_digit ds then None
                else Some (if neg then - digits_value ds else digits_value ds))"

definition parse_decimal :: "string \<Rightarrow> rat option" where
  "parse_decimal s =
    (let whole = takeWhile is_digit s; r = dropWhile is_digit s;
         dot = (r \<noteq> [] \<and> hd r = CHR ''.'');
         frac = (if dot then takeWhile is_digit (tl r) else []);
         rest = (if dot then dropWhile is_digit (tl r) else r)
     in if whole = [] \<and> frac = [] then None
        else case parse_exponent rest of
            None \<Rightarrow> None
          | Some e \<Rightarrow> let k = e - int (length frac); m = of_int (digits_value (whole @ frac)) in
              Some (if 0 \<le> k then m * 10 ^ nat k else m / 10 ^ nat (- k)))"

definition parse_float :: "float_format \<Rightarrow> string \<Rightarrow> flt option" where
  "parse_float fmt s =
    (let neg = (s \<noteq> [] \<and> hd s = CHR ''-'');
         t = (if s \<noteq> [] \<and> (hd s = CHR ''-'' \<or> hd s = CHR ''+'') then tl s else s)
     in case parse_decimal t of
          Some q \<Rightarrow> Some (round_to fmt (if neg then - q else q))
        | None \<Rightarrow> (let l = to_ascii_lowercase t in
            if l = ''inf'' \<or> l = ''infinity'' then Some (Infinite neg)
            else if l = ''nan'' then Some Not_a_number else None))"

section \<open>Integers as floats\<close>

lemma ilog2_bounds:
  assumes "0 < n"
  shows "0 \<le> ilog2 n \<and> 2 ^ nat (ilog2 n) \<le> n \<and> n < 2 ^ nat (ilog2 n + 1)"
  using assms
proof (induction n rule: ilog2.induct)
  case (1 n)
  show ?case
  proof (cases "n < 2")
    case True
    with 1(2) have "n = 1" by simp
    then show ?thesis by (simp add: ilog2.simps[of 1])
  next
    case False
    let ?k = "ilog2 (n div 2)"
    have k: "0 \<le> ?k" "2 ^ nat ?k \<le> n div 2" "n div 2 < 2 ^ nat (?k + 1)"
      using 1 False by auto
    have "nat (?k + 1) = Suc (nat ?k)" "nat (?k + 1 + 1) = Suc (nat (?k + 1))" using k(1) by auto
    then have "2 ^ nat (?k + 1) \<le> n" "n < 2 ^ nat (?k + 1 + 1)"
      using k(2,3) by (simp_all only: power_Suc) linarith+
    then show ?thesis using k(1) False by (simp add: ilog2.simps[of n])
  qed
qed

lemma ilog2_less:
  assumes "0 < n" "n < 2 ^ p"
  shows "ilog2 n < int p"
proof (rule ccontr)
  assume "\<not> ?thesis"
  then have "p \<le> nat (ilog2 n)" by simp
  then have "(2 :: int) ^ p \<le> 2 ^ nat (ilog2 n)" by (rule power_increasing) simp
  with ilog2_bounds[OF assms(1)] assms(2) show False by simp
qed

lemma round_even_int [simp]: "round_even (of_int k) = k"
  by (simp add: round_even_def Let_def)

text \<open>Integers that fit the precision are exact.\<close>

lemma float_of_nat_exact:
  assumes "n < 2 ^ precision fmt" "int (precision fmt) \<le> max_exp fmt + 1" "min_exp fmt \<le> 0"
  shows "float_of_nat fmt n = Finite (of_nat n)"
proof (cases "n = 0")
  case True
  then show ?thesis by (auto simp: float_of_nat_def round_to_def round_magnitude_def pow2_def not_le)
next
  case False
  let ?p = "int (precision fmt)" and ?e = "ilog2 (int n)"
  have e: "0 \<le> ?e" "?e < ?p" using False assms(1) ilog2_bounds[of "int n"] ilog2_less[of "int n" "precision fmt"] by auto
  have q: "quotient_of (rat_of_nat n) = (int n, 1)" using quotient_of_int[of "int n"] by simp
  have "binade (rat_of_nat n) = ?e" using False by (simp add: binade_def q)
  then have m: "max (binade (rat_of_nat n)) (min_exp fmt) = ?e" using e assms(3) by simp
  define k where "k = nat (?p - 1 - ?e)"
  have k: "?p - 1 - ?e = int k" using e by (simp add: k_def)
  have u: "pow2 (?e - (?p - 1)) = 1 / 2 ^ k"
  proof -
    have "?e - (?p - 1) = - int k" using k by simp
    moreover have "pow2 (- int k) = 1 / 2 ^ k" by (cases k) (simp_all add: pow2_def nat_add_distrib)
    ultimately show ?thesis by metis
  qed
  have "round_even (rat_of_nat n * 2 ^ k) = int n * 2 ^ k" using round_even_int[of "int n * 2 ^ k"] by simp
  then have "round_magnitude fmt (rat_of_nat n) = rat_of_nat n"
    unfolding round_magnitude_def m u Let_def using False by simp
  moreover have "rat_of_nat n < pow2 (max_exp fmt + 1)"
  proof -
    have "rat_of_nat n < 2 ^ precision fmt" using assms(1) by (metis of_nat_less_iff of_nat_numeral of_nat_power)
    also have "\<dots> \<le> 2 ^ nat (max_exp fmt + 1)" using assms(2) by (intro power_increasing) auto
    finally show ?thesis using assms(2) by (simp add: pow2_def)
  qed
  ultimately show ?thesis by (simp add: float_of_nat_def round_to_def not_le)
qed

text \<open>No sign appears out of nowhere.\<close>

definition flt_nonneg :: "flt \<Rightarrow> bool" where
  "flt_nonneg x = (case x of Finite q \<Rightarrow> 0 \<le> q | Infinite neg \<Rightarrow> \<not> neg | Not_a_number \<Rightarrow> True)"

lemma flt_nonneg_simps [simp]:
  "flt_nonneg (Finite q) = (0 \<le> q)" "flt_nonneg (Infinite neg) = (\<not> neg)" "flt_nonneg Not_a_number"
  by (simp_all add: flt_nonneg_def)

lemma pow2_pos [simp]: "0 < pow2 k"
  by (simp add: pow2_def)

lemma round_magnitude_nonneg: "0 \<le> q \<Longrightarrow> 0 \<le> round_magnitude fmt q"
proof -
  assume q: "0 \<le> q"
  have "0 \<le> round_even r" if "0 \<le> r" for r :: rat
    using that by (auto simp: round_even_def Let_def)
  with q show ?thesis by (auto simp: round_magnitude_def Let_def less_imp_le)
qed

lemma round_to_nonneg: "0 \<le> q \<Longrightarrow> flt_nonneg (round_to fmt q)"
  by (auto simp: round_to_def Let_def round_magnitude_nonneg)

lemma float_of_nat_nonneg: "flt_nonneg (float_of_nat fmt n)"
  by (simp add: float_of_nat_def round_to_nonneg)

lemma flt_div_nonneg: "flt_nonneg x \<Longrightarrow> flt_nonneg y \<Longrightarrow> flt_nonneg (flt_div fmt x y)"
  by (cases x; cases y) (auto simp: flt_div_def not_less round_to_nonneg)

lemma flt_min_bounded:
  "flt_nonneg x \<Longrightarrow> 0 \<le> q \<Longrightarrow> \<exists>r. flt_min (Finite q) x = Finite r \<and> 0 \<le> r \<and> r \<le> q"
  by (cases x) (auto simp: flt_min_def)

end
