(* ===== verification/LinuxText.thy ===== *)
theory LinuxText
  imports FloatText
begin

text \<open>
  \<open>many_cpus_impl/src/pal/linux/platform.rs\<close>, the part that reads the text files of the kernel: the records of
  \<open>/proc/cpuinfo\<close>, the allowed processors of \<open>/proc/self/status\<close>, identifier masks and cgroup quotas. Texts are
  ASCII character lists. A failed \<open>expect\<close> is \<open>None\<close>; where the code itself returns an option, it is a nested
  option. The property is that reading a file in the format the kernel writes gives back its records.
\<close>

section \<open>Processor records\<close>

record cpu_info =
  info_index :: item
  info_bogomips :: "item option"
  info_model :: "string option"

definition key_processor :: string where "key_processor = ''processor''"
definition key_bogomips :: string where "key_bogomips = ''bogomips''"
definition key_model_name :: string where "key_model_name = ''model name''"
definition key_implementer :: string where "key_implementer = ''cpu implementer''"
definition key_part :: string where "key_part = ''cpu part''"
definition synthesized_prefix :: string where "synthesized_prefix = ''cpuinfo''"

lemmas cpuinfo_keys = key_processor_def key_bogomips_def key_model_name_def key_implementer_def key_part_def

definition canonical_identity_value :: "string \<Rightarrow> string" where
  "canonical_identity_value v =
    (if 2 \<le> length v \<and> to_ascii_lowercase (take 2 v) = ''0x''
     then (case parse_unsigned 16 64 (drop 2 v) of Some n \<Rightarrow> ''0x'' @ to_hex n | None \<Rightarrow> v)
     else v)"

fun join_with :: "string \<Rightarrow> string list \<Rightarrow> string" where
  "join_with sep [] = []"
| "join_with sep [x] = x"
| "join_with sep (x # y # xs) = x @ sep @ join_with sep (y # xs)"

definition synthesize_model :: "string option \<Rightarrow> string option \<Rightarrow> string option" where
  "synthesize_model impl part =
    (let field = (\<lambda>(k, v). map_option (\<lambda>x. k @ ''='' @ canonical_identity_value x) v);
         fields = join_with '', ''
           (List.map_filter field [(key_implementer, impl), (key_part, part)])
     in if fields = [] then None else Some (synthesized_prefix @ ''('' @ fields @ '')''))"

text \<open>What the loop over the lines of one record has collected.\<close>

record cpuinfo_fields =
  f_index :: "item option"
  f_bogomips :: "item option"
  f_model :: "string option"
  f_implementer :: "string option"
  f_part :: "string option"

definition no_fields :: cpuinfo_fields where
  "no_fields = \<lparr>f_index = None, f_bogomips = None, f_model = None, f_implementer = None, f_part = None\<rparr>"

definition read_bogomips :: "string \<Rightarrow> item option" where
  "read_bogomips v = map_option (\<lambda>f. of_nat (flt_to_unsigned 32 (flt_round f))) (parse_float f32 v)"

definition split_field :: "string \<Rightarrow> (string \<times> string) option" where
  "split_field line = map_option (\<lambda>(k, v). (trim k, trim v)) (split_once CHR '':'' line)"

definition read_field :: "string \<times> string \<Rightarrow> cpuinfo_fields \<Rightarrow> cpuinfo_fields option" where
  "read_field kv s =
    (let value = snd kv; k = to_ascii_lowercase (fst kv) in
     if k = key_processor then
       (case parse_u32 value of Inr i \<Rightarrow> Some (s\<lparr>f_index := Some i\<rparr>) | Inl e \<Rightarrow> None)
     else if k = key_bogomips then Some (s\<lparr>f_bogomips := read_bogomips value\<rparr>)
     else if k = key_model_name \<and> value \<noteq> [] then Some (s\<lparr>f_model := Some value\<rparr>)
     else if k = key_implementer \<and> value \<noteq> [] then Some (s\<lparr>f_implementer := Some value\<rparr>)
     else if k = key_part \<and> value \<noteq> [] then Some (s\<lparr>f_part := Some value\<rparr>)
     else Some s)"

fun read_fields :: "string list \<Rightarrow> cpuinfo_fields \<Rightarrow> cpuinfo_fields option" where
  "read_fields [] s = Some s"
| "read_fields (l # ls) s = do {
     kv \<leftarrow> split_field l;
     s' \<leftarrow> read_field kv s;
     read_fields ls s'
   }"

definition record_of_fields :: "cpuinfo_fields \<Rightarrow> cpu_info option" where
  "record_of_fields s = map_option (\<lambda>i.
     \<lparr>info_index = i, info_bogomips = f_bogomips s,
      info_model = (case f_model s of Some m \<Rightarrow> Some m
                    | None \<Rightarrow> synthesize_model (f_implementer s) (f_part s))\<rparr>) (f_index s)"

text \<open>\<open>chunk_by\<close> with the blank chunks dropped: the maximal runs of lines that are not blank.\<close>

function paragraphs :: "string list \<Rightarrow> string list list" where
  "paragraphs [] = []"
| "paragraphs (l # ls) =
    (if l = [] then paragraphs ls
     else (l # takeWhile (\<lambda>x. x \<noteq> []) ls) # paragraphs (dropWhile (\<lambda>x. x \<noteq> []) ls))"
  by pat_completeness auto
termination by (relation "measure length") (auto simp: le_imp_less_Suc length_dropWhile_le)

fun read_records :: "string list list \<Rightarrow> cpu_info list option" where
  "read_records [] = Some []"
| "read_records (p # ps) = do {
     s \<leftarrow> read_fields p no_fields;
     rs \<leftarrow> read_records ps;
     Some (case record_of_fields s of Some r \<Rightarrow> r # rs | None \<Rightarrow> rs)
   }"

definition non_empty :: "'a list \<Rightarrow> 'a list option" where
  "non_empty xs = (if xs = [] then None else Some xs)"

definition get_cpuinfo :: "string \<Rightarrow> cpu_info list option" where
  "get_cpuinfo contents = read_records (paragraphs (map trim (lines contents))) \<bind> non_empty"

section \<open>Allowed processors and identifier masks\<close>

text \<open>The search stops at the first matching line: later lines are not looked at.\<close>

fun find_allowed_list :: "string list \<Rightarrow> string option" where
  "find_allowed_list [] = None"
| "find_allowed_list (l # ls) =
    (if l = [] then find_allowed_list ls
     else case split_field l of
        None \<Rightarrow> None
      | Some (k, v) \<Rightarrow> if k = ''Cpus_allowed_list'' then Some v else find_allowed_list ls)"

definition parse_ids :: "string \<Rightarrow> item list option" where
  "parse_ids s = (case parse s of Inr ids \<Rightarrow> Some ids | Inl e \<Rightarrow> None)"

definition get_processors_allowed :: "string \<Rightarrow> item list option" where
  "get_processors_allowed status = do {
     v \<leftarrow> find_allowed_list (map trim (lines status));
     ids \<leftarrow> parse_ids v;
     non_empty ids
   }"

definition parse_kernel_id_list :: "string option \<Rightarrow> item list option" where
  "parse_kernel_id_list contents = do {
     s \<leftarrow> contents;
     ids \<leftarrow> parse_ids (trim s);
     non_empty ids
   }"

section \<open>Control groups\<close>

fun find_cgroup_name :: "string list \<Rightarrow> string option" where
  "find_cgroup_name [] = None"
| "find_cgroup_name (l # ls) = (if starts_with ''0::'' l then Some (drop 3 l) else find_cgroup_name ls)"

definition parse_cgroup_name :: "string \<Rightarrow> string option" where
  "parse_cgroup_name contents = find_cgroup_name (lines contents)"

definition parse_v2_quota :: "string \<Rightarrow> (nat \<times> nat) option" where
  "parse_v2_quota contents = do {
     (quota_str, period_str) \<leftarrow> split_once CHR '' '' (trim contents);
     quota \<leftarrow> parse_u64 quota_str;
     period \<leftarrow> parse_u64 period_str;
     Some (quota, period)
   }"

definition parse_v1_quota :: "string \<Rightarrow> string \<Rightarrow> (nat \<times> nat) option" where
  "parse_v1_quota quota_contents period_contents = do {
     quota \<leftarrow> parse_u64 (trim quota_contents);
     period \<leftarrow> parse_u64 (trim period_contents);
     Some (quota, period)
   }"

section \<open>Trimming and splitting\<close>

definition plain :: "string \<Rightarrow> bool" where
  "plain s = (trim s = s \<and> newline \<notin> set s)"

lemma trim_start_Cons: "trim_start (c # s) = (if is_space c then trim_start s else c # s)"
  by (simp add: trim_start_def)

lemma trim_Nil [simp]: "trim [] = []"
  by (simp add: trim_def trim_start_def)

lemma trim_start_keeps: "s \<noteq> [] \<Longrightarrow> \<not> is_space (hd s) \<Longrightarrow> trim_start s = s"
  by (cases s) (auto simp: trim_start_Cons)

lemma trim_keeps: "s \<noteq> [] \<Longrightarrow> \<not> is_space (hd s) \<Longrightarrow> \<not> is_space (last s) \<Longrightarrow> trim s = s"
  by (simp add: trim_def trim_start_keeps hd_rev)

lemma trim_start_length: "length (trim_start s) \<le> length s"
  by (simp add: trim_start_def length_dropWhile_le)

lemma trim_fixed:
  assumes "trim s = s" "s \<noteq> []"
  shows "\<not> is_space (hd s)" "\<not> is_space (last s)"
proof -
  have l: "length (trim_start (rev (trim_start s))) = length s"
    using arg_cong[OF assms(1), of length] by (simp add: trim_def)
  then have "length (trim_start s) = length s"
    using trim_start_length[of "rev (trim_start s)"] trim_start_length[of s] by simp
  then have ts: "trim_start s = s" and hd: "\<not> is_space (hd s)"
    using assms(2) trim_start_length[of "tl s"] by (cases s; auto simp: trim_start_Cons split: if_splits)+
  then show "\<not> is_space (hd s)" by simp
  show "\<not> is_space (last s)"
    using l ts assms(2) trim_start_length[of "rev (butlast s)"]
    by (cases s rule: rev_cases) (auto simp: trim_start_Cons split: if_splits)
qed

lemma trim_snoc_space: "is_space c \<Longrightarrow> trim s = s \<Longrightarrow> trim (s @ [c]) = s"
  using trim_fixed[of s]
  by (cases s; cases s rule: rev_cases) (auto simp: trim_def trim_start_Cons)

lemma trim_Cons_space: "is_space c \<Longrightarrow> trim (c # s) = trim s"
  by (simp add: trim_def trim_start_Cons)

definition tab :: char where
  "tab = char_of (9 :: nat)"

lemma special_chars [simp]:
  "is_space tab" "is_space CHR '' ''" "is_space newline" "is_space carriage_return" "\<not> is_space CHR '':''"
  "tab \<noteq> CHR '':''" "newline \<noteq> CHR '':''" "newline \<noteq> CHR '' ''" "newline \<noteq> tab" "carriage_return \<noteq> newline"
  "CHR '' '' \<noteq> carriage_return" "CHR '':'' \<noteq> tab"
  by code_simp+

lemma special_space: "last s = carriage_return \<Longrightarrow> is_space (last s)"
  by simp

section \<open>The format the kernel writes\<close>

text \<open>A field line of \<open>/proc/cpuinfo\<close>, the record of a processor and the file.\<close>

definition field_line :: "string \<times> string \<Rightarrow> string" where
  "field_line kv = fst kv @ [tab] @ '': '' @ snd kv"

record kernel_record =
  kr_index :: item
  kr_model :: string
  kr_bogomips :: string
  kr_others :: "(string \<times> string) list"

definition record_fields :: "kernel_record \<Rightarrow> (string \<times> string) list" where
  "record_fields r = (''processor'', u32_to_string (kr_index r)) # kr_others r
     @ [(''model name'', kr_model r), (''bogomips'', kr_bogomips r)]"

definition record_text :: "kernel_record \<Rightarrow> string" where
  "record_text r = concat (map (\<lambda>l. l @ [newline]) (map field_line (record_fields r) @ [[]]))"

definition known_keys :: "string list" where
  "known_keys = [key_processor, key_bogomips, key_model_name, key_implementer, key_part]"

definition field_ok :: "string \<times> string \<Rightarrow> bool" where
  "field_ok kv = (fst kv \<noteq> [] \<and> plain (fst kv) \<and> CHR '':'' \<notin> set (fst kv) \<and> plain (snd kv))"

definition kernel_record_ok :: "kernel_record \<Rightarrow> bool" where
  "kernel_record_ok r = (plain (kr_model r) \<and> plain (kr_bogomips r) \<and>
     list_all (\<lambda>kv. field_ok kv \<and> to_ascii_lowercase (fst kv) \<notin> set known_keys) (kr_others r))"

definition described_by :: "kernel_record \<Rightarrow> cpu_info" where
  "described_by r = \<lparr>info_index = kr_index r, info_bogomips = read_bogomips (kr_bogomips r),
     info_model = (if kr_model r = [] then None else Some (kr_model r))\<rparr>"

lemma field_line_clean:
  assumes "field_ok kv"
  shows "newline \<notin> set (field_line kv)" "strip_cr (field_line kv) = field_line kv"
    "trim (field_line kv) \<noteq> []" "split_field (trim (field_line kv)) = Some kv"
proof -
  obtain k v where kv: "kv = (k, v)" by fastforce
  have k: "k \<noteq> []" "trim k = k" "newline \<notin> set k" "CHR '':'' \<notin> set k" and v: "trim v = v" "newline \<notin> set v"
    using assms by (auto simp: kv field_ok_def plain_def)
  show "newline \<notin> set (field_line kv)" using k v by (simp add: kv field_line_def)
  have "last (field_line kv) \<noteq> carriage_return"
    using trim_fixed(2)[OF v(1)] by (cases "v = []") (auto simp: kv field_line_def dest!: special_space)
  then show "strip_cr (field_line kv) = field_line kv" by (simp add: strip_cr_def)
  let ?t = "k @ tab # CHR '':'' # (if v = [] then [] else CHR '' '' # v)"
  have hd: "\<not> is_space (hd ?t)" using trim_fixed(1)[OF k(2,1)] k(1) by (cases k) auto
  have t: "trim (field_line kv) = ?t"
  proof (cases "v = []")
    case True
    have "field_line kv = ?t @ [CHR '' '']" using True by (simp add: kv field_line_def)
    moreover have "trim ?t = ?t" using hd True by (intro trim_keeps) auto
    ultimately show ?thesis by (metis trim_snoc_space special_chars(2))
  next
    case False
    moreover have "\<not> is_space (last v)" using trim_fixed(2)[OF v(1) False] .
    ultimately have "trim ?t = ?t" using hd by (intro trim_keeps) auto
    with False show ?thesis by (simp add: kv field_line_def)
  qed
  show "trim (field_line kv) \<noteq> []" unfolding t by simp
  have "split_once CHR '':'' ((k @ [tab]) @ CHR '':'' # r) = Some (k @ [tab], r)" for r
    using k(4) by (intro split_once_append) auto
  then show "split_field (trim (field_line kv)) = Some kv"
    unfolding t split_field_def using k(2) v(1) by (simp add: kv trim_snoc_space trim_Cons_space)
qed

lemma lines_newline:
  assumes "newline \<notin> set l" "strip_cr l = l"
  shows "lines (l @ newline # r) = l # lines r"
  by (subst lines.simps) (simp add: split_once_append[OF assms(1)] assms(2))

lemma lines_terminated:
  "list_all (\<lambda>l. newline \<notin> set l \<and> strip_cr l = l) ls \<Longrightarrow>
   lines (concat (map (\<lambda>l. l @ [newline]) ls)) = ls"
  by (induction ls) (simp_all add: lines_newline lines.simps[of "[]"])

section \<open>Reading records back\<close>

lemma nat_to_string_plain [simp]: "plain (nat_to_string n)"
proof -
  have no: "\<not> is_space c \<and> c \<noteq> newline" if "c \<in> set (nat_to_string n)" for c
    using nat_to_string_digits[OF that] by (auto simp: is_space_def newline_def)
  then have "trim (nat_to_string n) = nat_to_string n" by (intro trim_keeps) auto
  with no show ?thesis by (auto simp: plain_def)
qed

lemma known_keys_ok [simp]:
  "field_ok (''processor'', u32_to_string i)"
  "field_ok (''model name'', m) = plain m" "field_ok (''bogomips'', b) = plain b"
proof -
  have "plain ''processor''" "plain ''model name''" "plain ''bogomips''" unfolding plain_def by code_simp+
  then show "field_ok (''processor'', u32_to_string i)"
    "field_ok (''model name'', m) = plain m" "field_ok (''bogomips'', b) = plain b"
    by (simp_all add: field_ok_def u32_to_string_def)
qed

lemma record_fields_ok: "kernel_record_ok r \<Longrightarrow> list_all field_ok (record_fields r)"
  by (auto simp: kernel_record_ok_def record_fields_def list_all_iff)

lemma record_lines_trimmed:
  assumes "kernel_record_ok r"
  shows "map trim (lines (record_text r @ t))
    = map trim (map field_line (record_fields r)) @ [] # map trim (lines t)"
proof -
  have clean: "list_all (\<lambda>l. newline \<notin> set l \<and> strip_cr l = l) (map field_line (record_fields r) @ [[]])"
    using record_fields_ok[OF assms] field_line_clean(1,2)
    by (auto simp: list_all_iff strip_cr_def)
  have "list_all (\<lambda>l. newline \<notin> set l \<and> strip_cr l = l) ls \<Longrightarrow>
      lines (concat (map (\<lambda>l. l @ [newline]) ls) @ t) = ls @ lines t" for ls
    by (induction ls) (simp_all add: lines_newline)
  from this[OF clean] show ?thesis by (simp add: record_text_def)
qed

lemma paragraphs_block:
  "list_all (\<lambda>l. l \<noteq> []) p \<Longrightarrow> p \<noteq> [] \<Longrightarrow> paragraphs (p @ [] # ls) = p # paragraphs ls"
  by (cases p) (auto simp: list_all_iff takeWhile_append dropWhile_append)

lemma file_paragraphs:
  "list_all kernel_record_ok rs \<Longrightarrow>
   paragraphs (map trim (lines (concat (map record_text rs))))
   = map (\<lambda>r. map trim (map field_line (record_fields r))) rs"
proof (induction rs)
  case Nil
  then show ?case by (simp add: lines.simps[of "[]"])
next
  case (Cons r rs)
  have "list_all (\<lambda>l. l \<noteq> []) (map trim (map field_line (record_fields r)))"
    using Cons.prems record_fields_ok[of r] field_line_clean(3) by (auto simp: list_all_iff)
  moreover have "record_fields r \<noteq> []" by (simp add: record_fields_def)
  ultimately show ?case using Cons by (simp add: record_lines_trimmed paragraphs_block)
qed

fun read_all_fields :: "(string \<times> string) list \<Rightarrow> cpuinfo_fields \<Rightarrow> cpuinfo_fields option" where
  "read_all_fields [] s = Some s"
| "read_all_fields (kv # kvs) s = read_field kv s \<bind> read_all_fields kvs"

lemma read_fields_lines:
  "list_all field_ok kvs \<Longrightarrow>
   read_fields (map trim (map field_line kvs)) = read_all_fields kvs"
  by (induction kvs) (rule ext, simp add: field_line_clean(4))+

lemma read_all_fields_append:
  "read_all_fields (xs @ ys) = (\<lambda>s. read_all_fields xs s \<bind> read_all_fields ys)"
  by (induction xs) (rule ext, simp)+

lemma read_other_fields:
  "list_all (\<lambda>kv. to_ascii_lowercase (fst kv) \<notin> set known_keys) kvs \<Longrightarrow> read_all_fields kvs s = Some s"
  by (induction kvs arbitrary: s) (auto simp: read_field_def known_keys_def)

lemma lower_known [simp]:
  "to_ascii_lowercase ''processor'' = ''processor''"
  "to_ascii_lowercase ''model name'' = ''model name''"
  "to_ascii_lowercase ''bogomips'' = ''bogomips''"
  by code_simp+

lemma read_record_fields:
  assumes "kernel_record_ok r"
  shows "(read_all_fields (record_fields r) no_fields \<bind> (\<lambda>s. Some (record_of_fields s)))
    = Some (Some (described_by r))"
proof -
  have others: "list_all (\<lambda>kv. to_ascii_lowercase (fst kv) \<notin> set known_keys) (kr_others r)"
    using assms by (auto simp: kernel_record_ok_def list_all_iff)
  show ?thesis
    by (simp add: record_fields_def read_all_fields_append read_other_fields[OF others] read_field_def
        cpuinfo_keys no_fields_def record_of_fields_def described_by_def synthesize_model_def
        List.map_filter_def)
qed

lemma read_records_file:
  "list_all kernel_record_ok rs \<Longrightarrow>
   read_records (map (\<lambda>r. map trim (map field_line (record_fields r))) rs) = Some (map described_by rs)"
proof (induction rs)
  case (Cons r rs)
  obtain s where "read_all_fields (record_fields r) no_fields = Some s" "record_of_fields s = Some (described_by r)"
    using read_record_fields[of r] Cons.prems by (auto simp: bind_eq_Some_iff)
  with Cons show ?case
    by (simp add: read_fields_lines[OF record_fields_ok] del: map_map)
qed simp

section \<open>Properties\<close>


definition demo_record :: kernel_record where
  "demo_record = \<lparr>kr_index = 7, kr_model = ''Example CPU'', kr_bogomips = ''4890.85'',
     kr_others = [(''flags'', ''fpu: vme'')]\<rparr>"


end
