(* ===== verification/CpuMask.thy ===== *)
theory CpuMask
  imports Cpulist "HOL-Library.Code_Target_Nat"
begin

text \<open>
  \<open>many_cpus_impl/src/pal/linux/cpu_mask.rs\<close>: the set of processors the thread affinity calls exchange with the
  kernel, one bit per processor in an array of 64-bit words. Identifiers are 32-bit; a position whose identifier
  would not fit one is the panic of the code. The lemmas show that a mask is exactly the set of processors inserted
  into it, that it lists them in ascending order, and that comparison ignores the width.
\<close>

unbundle bit_operations_syntax

section \<open>Masks\<close>

record cpu_mask =
  mask_words :: "64 word list"

definition inline_words :: usize where
  "inline_words = 16"

definition word_bits :: item where
  "word_bits = 64"

record bit_position =
  pos_word :: usize
  pos_offset :: item

definition position_of :: "item \<Rightarrow> bit_position" where
  "position_of p = \<lparr>pos_word = unat (p div word_bits), pos_offset = p mod word_bits\<rparr>"

definition position_bit :: "bit_position \<Rightarrow> 64 word" where
  "position_bit pos = push_bit (unat (pos_offset pos)) 1"

definition item_checked_mul :: "item \<Rightarrow> item \<Rightarrow> item option" where
  "item_checked_mul a b = (if unat a * unat b < 2 ^ 32 then Some (a * b) else None)"

definition position_processor_id :: "bit_position \<Rightarrow> item option" where
  "position_processor_id pos = do {
     require (pos_word pos < 2 ^ 32);
     first_in_word \<leftarrow> item_checked_mul (of_nat (pos_word pos)) word_bits;
     item_checked_add first_in_word (pos_offset pos)
   }"

definition mask_with_words :: "usize \<Rightarrow> cpu_mask" where
  "mask_with_words n = \<lparr>mask_words = replicate n 0\<rparr>"

definition mask_new :: cpu_mask where
  "mask_new = mask_with_words inline_words"

definition mask_insert :: "item \<Rightarrow> cpu_mask \<Rightarrow> cpu_mask" where
  "mask_insert p m =
    (let pos = position_of p;
         ws = vec_resize (max (length (mask_words m)) (pos_word pos + 1)) 0 (mask_words m)
     in m\<lparr>mask_words := ws[pos_word pos := (ws ! pos_word pos) OR position_bit pos]\<rparr>)"

definition mask_contains :: "item \<Rightarrow> cpu_mask \<Rightarrow> bool" where
  "mask_contains p m =
    (let pos = position_of p in
     pos_word pos < length (mask_words m) \<and> (mask_words m ! pos_word pos) AND position_bit pos \<noteq> 0)"

text \<open>The positions of one word, then those of every word that is not empty.\<close>

definition word_positions :: "usize \<Rightarrow> 64 word \<Rightarrow> bit_position list" where
  "word_positions i bits =
    filter (\<lambda>pos. bits AND position_bit pos \<noteq> 0)
      (map (\<lambda>k. \<lparr>pos_word = i, pos_offset = of_nat k\<rparr>) [0..<64])"

definition mask_positions :: "cpu_mask \<Rightarrow> bit_position list" where
  "mask_positions m =
    concat (map (\<lambda>(i, bits). word_positions i bits)
      (filter (\<lambda>(i, bits). bits \<noteq> 0) (enumerate 0 (mask_words m))))"

definition mask_processor_ids :: "cpu_mask \<Rightarrow> item list option" where
  "mask_processor_ids m = those (map position_processor_id (mask_positions m))"

definition mask_word :: "cpu_mask \<Rightarrow> usize \<Rightarrow> 64 word" where
  "mask_word m i = (if i < length (mask_words m) then mask_words m ! i else 0)"

definition mask_eq :: "cpu_mask \<Rightarrow> cpu_mask \<Rightarrow> bool" where
  "mask_eq a b = list_all (\<lambda>i. mask_word a i = mask_word b i)
     [0..<max (length (mask_words a)) (length (mask_words b))]"

section \<open>Positions\<close>

text \<open>A mask is read as the set of bit numbers; \<open>mask_bit\<close> is that reading.\<close>

definition mask_bit :: "cpu_mask \<Rightarrow> nat \<Rightarrow> bool" where
  "mask_bit m n = bit (mask_word m (n div 64)) (n mod 64)"

lemma position_of_simps [simp]:
  "pos_word (position_of p) = unat p div 64"
  "unat (pos_offset (position_of p)) = unat p mod 64"
  by (simp_all add: position_of_def word_bits_def unat_div unat_mod)

lemma and_single_bit: "k < 64 \<Longrightarrow> ((w :: 64 word) AND 2 ^ k = 0) = (\<not> bit w k)"
proof -
  assume "k < 64"
  then have "w AND 2 ^ k = (if bit w k then 2 ^ k else 0)" by (intro bit_word_eqI) (auto simp: bit_simps)
  moreover have "(2 ^ k :: 64 word) \<noteq> 0" using \<open>k < 64\<close> by (auto simp: bit_eq_iff bit_simps)
  ultimately show ?thesis by auto
qed

lemma single_bit_iff: "k < 64 \<Longrightarrow> bit (2 ^ k :: 64 word) n = (n = k)"
  by (auto simp: bit_simps)

lemma position_bit_of: "position_bit (position_of p) = 2 ^ (unat p mod 64)"
  by (simp add: position_bit_def)

lemma mask_contains_bit: "mask_contains p m = mask_bit m (unat p)"
  by (auto simp: mask_contains_def Let_def position_bit_of and_single_bit mask_bit_def mask_word_def)

lemma mask_insert_bit: "mask_bit (mask_insert p m) n = (n = unat p \<or> mask_bit m n)"
proof -
  let ?k = "unat p div 64"
  have "n div 64 = ?k \<Longrightarrow> (n mod 64 = unat p mod 64) = (n = unat p)"
    by (metis div_mult_mod_eq)
  moreover have "n = unat p \<Longrightarrow> n div 64 = ?k" by simp
  moreover have "n mod 64 < 64" by simp
  ultimately show ?thesis
    by (auto simp: mask_bit_def mask_word_def mask_insert_def Let_def position_bit_of nth_list_update
        nth_vec_resize bit_or_iff single_bit_iff not_less_eq_eq Suc_le_eq)
qed

lemma mask_new_bit: "\<not> mask_bit mask_new n"
  by (auto simp: mask_bit_def mask_word_def mask_new_def mask_with_words_def)

lemma mask_insert_all_bit: "mask_bit (fold mask_insert ps m) n = (n \<in> unat ` set ps \<or> mask_bit m n)"
  by (induction ps arbitrary: m) (auto simp: mask_insert_bit)

section \<open>Listing\<close>

definition position_number :: "bit_position \<Rightarrow> nat" where
  "position_number pos = pos_word pos * 64 + unat (pos_offset pos)"

lemma unat_item: "n < 2 ^ 32 \<Longrightarrow> unat (of_nat n :: item) = n"
  by (simp add: unat_of_nat)

lemma unat_of_nat_small [simp]: "k < 64 \<Longrightarrow> unat (of_nat k :: item) = k"
  by (rule unat_item) simp

lemma word_positions_numbers:
  "map position_number (word_positions i w) = filter (\<lambda>n. bit w (n mod 64)) [64 * i..<64 * i + 64]"
proof -
  have "[64 * i..<64 * i + 64] = map (\<lambda>k. i * 64 + k) [0..<64]"
    by (simp add: map_add_upt[symmetric] add.commute mult.commute)
  moreover have "filter (\<lambda>k. w AND position_bit \<lparr>pos_word = i, pos_offset = of_nat k\<rparr> \<noteq> 0) [0..<64]
      = filter (bit w) [0..<64]"
    by (rule filter_cong) (auto simp: position_bit_def and_single_bit)
  moreover have "map (\<lambda>k. i * 64 + unat (of_nat k :: item)) (filter (bit w) [0..<64])
      = map (\<lambda>k. i * 64 + k) (filter (bit w) [0..<64])" by simp
  moreover have "filter (\<lambda>k. bit w ((i * 64 + k) mod 64)) [0..<64] = filter (bit w) [0..<64]"
    by (rule filter_cong) auto
  ultimately show ?thesis
    by (simp add: word_positions_def position_number_def filter_map comp_def)
qed

lemma empty_word_positions: "word_positions i 0 = []"
  by (simp add: word_positions_def)

lemma positions_from:
  "map position_number (concat (map (\<lambda>(i, bits). word_positions i bits)
      (filter (\<lambda>(i, bits). bits \<noteq> 0) (enumerate i ws))))
   = filter (\<lambda>n. bit (ws ! (n div 64 - i)) (n mod 64)) [64 * i..<64 * (i + length ws)]"
proof (induction ws arbitrary: i)
  case (Cons w ws)
  have split: "[64 * i..<64 * (i + length (w # ws))]
      = [64 * i..<64 * i + 64] @ [64 * Suc i..<64 * (Suc i + length ws)]"
    using upt_add_eq_append[of "64 * i" "64 * i + 64" "64 * length ws"] by (simp add: algebra_simps)
  have hd: "filter (\<lambda>n. bit ((w # ws) ! (n div 64 - i)) (n mod 64)) [64 * i..<64 * i + 64]
      = filter (\<lambda>n. bit w (n mod 64)) [64 * i..<64 * i + 64]"
  proof (rule filter_cong)
    fix n assume "n \<in> set [64 * i..<64 * i + 64]"
    then have "n div 64 = i" by (intro div_nat_eqI) auto
    then show "bit ((w # ws) ! (n div 64 - i)) (n mod 64) = bit w (n mod 64)" by simp
  qed simp
  have "filter (\<lambda>n. bit ((w # ws) ! (n div 64 - i)) (n mod 64)) [64 * Suc i..<64 * (Suc i + length ws)]
      = filter (\<lambda>n. bit (ws ! (n div 64 - Suc i)) (n mod 64)) [64 * Suc i..<64 * (Suc i + length ws)]"
  proof (rule filter_cong)
    fix n assume "n \<in> set [64 * Suc i..<64 * (Suc i + length ws)]"
    then have "Suc i \<le> n div 64" by (simp add: less_eq_div_iff_mult_less_eq mult.commute)
    then obtain k where "n div 64 = Suc i + k" using le_Suc_ex by blast
    then show "bit ((w # ws) ! (n div 64 - i)) (n mod 64) = bit (ws ! (n div 64 - Suc i)) (n mod 64)"
      by simp
  qed simp
  with split hd Cons.IH[of "Suc i"] word_positions_numbers[of i w] show ?case
    by (cases "w = 0") (auto simp: empty_word_positions)
qed simp

lemma mask_positions_numbers:
  "map position_number (mask_positions m) = filter (mask_bit m) [0..<64 * length (mask_words m)]"
proof -
  have "filter (\<lambda>n. bit (mask_words m ! (n div 64)) (n mod 64)) [0..<64 * length (mask_words m)]
      = filter (mask_bit m) [0..<64 * length (mask_words m)]"
    by (rule filter_cong) (auto simp: mask_bit_def mask_word_def div_less_iff_less_mult mult.commute)
  then show ?thesis using positions_from[of 0 "mask_words m"] by (simp add: mask_positions_def)
qed

lemma position_processor_id_Some:
  assumes "position_number pos < 2 ^ 32"
  shows "position_processor_id pos = Some (of_nat (position_number pos))"
proof -
  let ?w = "of_nat (pos_word pos) :: item"
  have w: "pos_word pos < 2 ^ 32" and m: "pos_word pos * 64 < 2 ^ 32"
    using assms by (auto simp: position_number_def)
  have uw: "unat ?w = pos_word pos" using w by (rule unat_item)
  have um: "unat (?w * word_bits) = pos_word pos * 64"
    using m uw by (subst unat_mult_lem[THEN iffD1]) (auto simp: word_bits_def)
  have "?w * word_bits + pos_offset pos = of_nat (position_number pos)"
    by (simp add: position_number_def word_bits_def)
  with w m uw um assms show ?thesis
    by (auto simp: position_processor_id_def item_checked_mul_def item_checked_add_def position_number_def
        word_bits_def)
qed

lemma those_all_Some: "(\<And>x. x \<in> set xs \<Longrightarrow> f x = Some (g x)) \<Longrightarrow> those (map f xs) = Some (map g xs)"
  by (induction xs) auto

lemma mask_processor_ids_bits:
  assumes "\<And>n. mask_bit m n \<Longrightarrow> n < 2 ^ 32"
  shows "mask_processor_ids m = Some (map of_nat (filter (mask_bit m) [0..<64 * length (mask_words m)]))"
proof -
  have "position_number pos < 2 ^ 32" if "pos \<in> set (mask_positions m)" for pos
  proof -
    have "position_number pos \<in> set (map position_number (mask_positions m))" using that by simp
    then show ?thesis unfolding mask_positions_numbers using assms by auto
  qed
  then have "mask_processor_ids m = Some (map (\<lambda>pos. of_nat (position_number pos)) (mask_positions m))"
    unfolding mask_processor_ids_def by (intro those_all_Some position_processor_id_Some)
  also have "map (\<lambda>pos. of_nat (position_number pos)) (mask_positions m)
      = map of_nat (map position_number (mask_positions m))" by simp
  finally show ?thesis unfolding mask_positions_numbers .
qed

lemma mask_bit_width: "mask_bit m n \<Longrightarrow> n < 64 * length (mask_words m)"
  by (auto simp: mask_bit_def mask_word_def div_less_iff_less_mult mult.commute split: if_splits)

lemma of_nat_item_inj: "inj_on (of_nat :: nat \<Rightarrow> item) {..<2 ^ 32}"
  by (rule inj_onI) (metis lessThan_iff unat_item)

lemma sorted_map_item: "sorted ns \<Longrightarrow> \<forall>n \<in> set ns. n < 2 ^ 32 \<Longrightarrow> sorted (map (of_nat :: nat \<Rightarrow> item) ns)"
  by (induction ns) (auto simp: word_le_nat_alt unat_item)

text \<open>A mask below the identifier space lists exactly its processors, in ascending order.\<close>

lemma mask_processor_ids_set:
  assumes small: "\<And>n. mask_bit m n \<Longrightarrow> n < 2 ^ 32"
  shows "mask_processor_ids m = Some (sorted_list_of_set {p. mask_contains p m})"
proof -
  let ?ns = "filter (mask_bit m) [0..<64 * length (mask_words m)]"
  have lt: "\<forall>n \<in> set ?ns. n < 2 ^ 32" using small by auto
  have "sorted (map (of_nat :: nat \<Rightarrow> item) ?ns)"
    using lt by (intro sorted_map_item) (auto simp: sorted_filter[of "\<lambda>x. x", simplified])
  moreover have "distinct (map (of_nat :: nat \<Rightarrow> item) ?ns)"
    using lt by (auto simp: distinct_map intro!: inj_on_subset[OF of_nat_item_inj])
  moreover have "set (map (of_nat :: nat \<Rightarrow> item) ?ns) = {p. mask_contains p m}"
  proof (rule set_eqI)
    fix p :: item
    have "p \<in> set (map of_nat ?ns) \<longleftrightarrow> (\<exists>n. mask_bit m n \<and> p = of_nat n)"
      using mask_bit_width[of m] by auto
    also have "\<dots> \<longleftrightarrow> mask_bit m (unat p)"
    proof
      assume "\<exists>n. mask_bit m n \<and> p = of_nat n"
      then obtain n where n: "mask_bit m n" "p = of_nat n" by blast
      then show "mask_bit m (unat p)" using unat_item[OF small[OF n(1)]] by simp
    next
      assume "mask_bit m (unat p)"
      then show "\<exists>n. mask_bit m n \<and> p = of_nat n" by (intro exI[of _ "unat p"]) simp
    qed
    finally show "p \<in> set (map of_nat ?ns) \<longleftrightarrow> p \<in> {p. mask_contains p m}"
      by (simp add: mask_contains_bit)
  qed
  ultimately have "map of_nat ?ns = sorted_list_of_set {p. mask_contains p m}"
    by (metis (no_types, lifting) sorted_list_of_set.idem_if_sorted_distinct)
  then show ?thesis using mask_processor_ids_bits[OF small] by simp
qed

section \<open>Comparison\<close>

lemma mask_eq_bits: "mask_eq a b = (\<forall>n. mask_bit a n = mask_bit b n)"
proof
  assume eq: "mask_eq a b"
  then have "mask_word a i = mask_word b i" for i
    by (cases "i < max (length (mask_words a)) (length (mask_words b))")
      (auto simp: mask_eq_def list_all_iff mask_word_def)
  then show "\<forall>n. mask_bit a n = mask_bit b n" by (simp add: mask_bit_def)
next
  assume bits: "\<forall>n. mask_bit a n = mask_bit b n"
  have "mask_word a i = mask_word b i" for i
  proof (rule bit_word_eqI)
    fix k assume "k < LENGTH(64)"
    then have "(64 * i + k) div 64 = i" "(64 * i + k) mod 64 = k" by auto
    with bits[rule_format, of "64 * i + k"] show "bit (mask_word a i) k = bit (mask_word b i) k"
      by (simp add: mask_bit_def)
  qed
  then show "mask_eq a b" by (simp add: mask_eq_def list_all_iff)
qed

section \<open>Properties\<close>

text \<open>The affinity mask built by inserting any processors, in any order and with repetitions, lists exactly those
  processors, each once and in ascending order, whatever their identifiers: no insertion is out of bounds and no
  listed identifier overflows.\<close>

theorem cpu_mask_lists_inserted:
  "mask_processor_ids (fold mask_insert ps mask_new) = Some (sorted_list_of_set (set ps))"
proof -
  have bits: "mask_bit (fold mask_insert ps mask_new) n = (n \<in> unat ` set ps)" for n
    by (simp add: mask_insert_all_bit mask_new_bit)
  then have "{p. mask_contains p (fold mask_insert ps mask_new)} = set ps"
    by (auto simp: mask_contains_bit image_iff dest: unsigned_word_eqI)
  moreover have "n < 2 ^ 32" if "mask_bit (fold mask_insert ps mask_new) n" for n
    using that unsigned_less[where 'a = nat and 'b = 32] by (auto simp: bits)
  ultimately show ?thesis by (simp add: mask_processor_ids_set)
qed

text \<open>Two affinity masks of identifiers the kernel can name compare equal exactly when they contain the same
  processors, whatever their widths.\<close>

theorem cpu_mask_eq_iff:
  assumes "length (mask_words a) \<le> 2 ^ 26" "length (mask_words b) \<le> 2 ^ 26"
  shows "mask_eq a b = (\<forall>p. mask_contains p a = mask_contains p b)"
proof -
  have "\<exists>p :: item. unat p = n" if "mask_bit a n \<or> mask_bit b n" for n
  proof -
    have "n < 2 ^ 32" using that assms mask_bit_width[of a n] mask_bit_width[of b n] by auto
    then show ?thesis by (blast intro: unat_item)
  qed
  then show ?thesis unfolding mask_eq_bits mask_contains_bit by metis
qed

theorem cpu_mask_eq_iff_witness:
  "mask_eq (mask_insert 3 (mask_with_words 1)) (mask_insert 3 mask_new)
   = (\<forall>p. mask_contains p (mask_insert 3 (mask_with_words 1)) = mask_contains p (mask_insert 3 mask_new))"
  by (rule cpu_mask_eq_iff) (simp_all add: mask_insert_def mask_with_words_def mask_new_def inline_words_def
      position_of_def word_bits_def Let_def)

end
