(* ===== verification/LinuxPlatform.thy ===== *)
theory LinuxPlatform
  imports LinuxText CpuMask
begin

text \<open>
  \<open>many_cpus_impl/src/pal/linux/platform.rs\<close>: the machine as the Linux platform describes it. The files of the
  kernel are a parameter of every query and may differ from one query to the next; what the code keeps in
  \<open>OnceLock\<close> cells is the state, \<open>None\<close> while a cell is unset. A query returns its answer and the new state, or
  \<open>None\<close> where an \<open>expect\<close> fails. The affinity calls of the kernel are parameters too. The properties hold for any
  sequence of queries, whatever the files say at each.
\<close>

section \<open>Processors and platform state\<close>

datatype efficiency_class = Efficiency | Performance

definition undetermined_speed :: nat where
  "undetermined_speed = 2 ^ 64 - 1"

text \<open>\<open>RelativeSpeed\<close>: a bogomips value scaled by the \<open>f64\<close> constant closest to pi, never zero.\<close>

definition pi_f64 :: rat where
  "pi_f64 = 884279719003555 / 281474976710656"

definition speed_from_raw :: "nat \<Rightarrow> nat" where
  "speed_from_raw v = (if v = 0 then undetermined_speed else v)"

definition speed_from_os_metric :: "item \<Rightarrow> nat" where
  "speed_from_os_metric m =
    speed_from_raw (flt_to_unsigned 64 (round_to f64 (of_nat (unat m) * pi_f64)))"

record processor_impl =
  pi_id :: item
  pi_region :: item
  pi_class :: efficiency_class
  pi_speed :: nat
  pi_model :: "string option"
  pi_active :: bool

record filesystem =
  fs_cpuinfo :: string
  fs_possible_cpus :: "string option"
  fs_online_cpus :: "string option"
  fs_possible_nodes :: "string option"
  fs_node_cpulist :: "item \<Rightarrow> string option"
  fs_cpu_online :: "item \<Rightarrow> string option"
  fs_self_status :: string
  fs_self_cgroup :: "string option"
  fs_v2_quota :: "string \<Rightarrow> string option"
  fs_v1_quota :: "string \<Rightarrow> string option"
  fs_v1_period :: "string \<Rightarrow> string option"

record linux_state =
  cached_all :: "processor_impl list option"
  cached_max_processor :: "item option"
  cached_max_region :: "item option"
  cached_active :: "processor_impl list option"
  cached_count :: "usize option"
  cached_possible :: "item list option option"
  cached_online :: "item list option option"
  cached_regions :: "item list option option"
  affinity_words :: usize

definition platform_new :: linux_state where
  "platform_new = \<lparr>cached_all = None, cached_max_processor = None, cached_max_region = None, cached_active = None,
     cached_count = None, cached_possible = None, cached_online = None, cached_regions = None, affinity_words = 0\<rparr>"

section \<open>Identifier masks\<close>

definition get_possible_ids :: "filesystem \<Rightarrow> linux_state \<Rightarrow> item list option \<times> linux_state" where
  "get_possible_ids fs st = (case cached_possible st of
      Some v \<Rightarrow> (v, st)
    | None \<Rightarrow> let v = parse_kernel_id_list (fs_possible_cpus fs) in (v, st\<lparr>cached_possible := Some v\<rparr>))"

definition get_online_ids :: "filesystem \<Rightarrow> linux_state \<Rightarrow> item list option \<times> linux_state" where
  "get_online_ids fs st = (case cached_online st of
      Some v \<Rightarrow> (v, st)
    | None \<Rightarrow> let v = parse_kernel_id_list (fs_online_cpus fs) in (v, st\<lparr>cached_online := Some v\<rparr>))"

definition get_possible_regions :: "filesystem \<Rightarrow> linux_state \<Rightarrow> item list option \<times> linux_state" where
  "get_possible_regions fs st = (case cached_regions st of
      Some v \<Rightarrow> (v, st)
    | None \<Rightarrow> let v = parse_kernel_id_list (fs_possible_nodes fs) in (v, st\<lparr>cached_regions := Some v\<rparr>))"

definition list_max :: "item list \<Rightarrow> item" where
  "list_max xs = fold max (tl xs) (hd xs)"

definition single_region :: item where
  "single_region = 0"

definition region_space :: "item list option \<Rightarrow> item" where
  "region_space regions = (case regions of None \<Rightarrow> single_region | Some ids \<Rightarrow> list_max ids)"

definition get_max_region :: "filesystem \<Rightarrow> linux_state \<Rightarrow> item \<times> linux_state" where
  "get_max_region fs st = (case cached_max_region st of
      Some m \<Rightarrow> (m, st)
    | None \<Rightarrow> let (ids, st) = get_possible_regions fs st; m = region_space ids
              in (m, st\<lparr>cached_max_region := Some m\<rparr>))"

section \<open>Enumerating the processors\<close>

text \<open>The members of every node; a node with no list or an empty one holds no processor.\<close>

fun node_members :: "filesystem \<Rightarrow> item list \<Rightarrow> (item \<times> item list) list option" where
  "node_members fs [] = Some []"
| "node_members fs (node # nodes) = (case fs_node_cpulist fs node of
      None \<Rightarrow> node_members fs nodes
    | Some text \<Rightarrow> do {
        ids \<leftarrow> parse_ids (trim text);
        ns \<leftarrow> node_members fs nodes;
        Some (if ids = [] then ns else (node, ids) # ns)
      })"

definition get_numa_nodes ::
    "filesystem \<Rightarrow> item list option \<Rightarrow> (item \<times> item list) list option option" where
  "get_numa_nodes fs regions = (case regions of
      None \<Rightarrow> Some None
    | Some ids \<Rightarrow> map_option Some (node_members fs ids))"

definition region_of :: "(item \<times> item list) list \<Rightarrow> item \<Rightarrow> item" where
  "region_of nodes i = (case find (\<lambda>(node, ids). i \<in> set ids) nodes of
      Some (node, ids) \<Rightarrow> node | None \<Rightarrow> single_region)"

definition max_bogomips :: "cpu_info list \<Rightarrow> item option" where
  "max_bogomips infos = (let bs = List.map_filter info_bogomips infos in
     if bs = [] then None else Some (list_max bs))"

definition slower_than :: "item option \<Rightarrow> cpu_info \<Rightarrow> bool" where
  "slower_than fastest info = (case (info_bogomips info, fastest) of
      (Some b, Some m) \<Rightarrow> b < m | _ \<Rightarrow> False)"

definition is_online :: "filesystem \<Rightarrow> item \<Rightarrow> bool" where
  "is_online fs i = (case fs_cpu_online fs i of None \<Rightarrow> True | Some s \<Rightarrow> trim s = ''1'')"

definition describe_processor ::
    "filesystem \<Rightarrow> (item \<times> item list) list \<Rightarrow> item option \<Rightarrow> cpu_info \<Rightarrow> processor_impl" where
  "describe_processor fs nodes fastest info =
    \<lparr>pi_id = info_index info,
     pi_region = region_of nodes (info_index info),
     pi_class = (if slower_than fastest info then Efficiency else Performance),
     pi_speed = (case info_bogomips info of None \<Rightarrow> undetermined_speed | Some b \<Rightarrow> speed_from_os_metric b),
     pi_model = info_model info,
     pi_active = is_online fs (info_index info)\<rparr>"

definition load_all_processors :: "filesystem \<Rightarrow> linux_state \<Rightarrow> (processor_impl list \<times> linux_state) option" where
  "load_all_processors fs st = do {
     infos \<leftarrow> get_cpuinfo (fs_cpuinfo fs);
     let (regions, st) = get_possible_regions fs st;
     nodes \<leftarrow> get_numa_nodes fs regions;
     allowed \<leftarrow> get_processors_allowed (fs_self_status fs);
     infos \<leftarrow> non_empty (filter (\<lambda>i. info_index i \<in> set allowed) infos);
     let nodes = (case nodes of Some ns \<Rightarrow> ns | None \<Rightarrow> [(single_region, map info_index infos)]);
     Some (sort_key pi_id (map (describe_processor fs nodes (max_bogomips infos)) infos), st)
   }"

definition get_all_impl :: "filesystem \<Rightarrow> linux_state \<Rightarrow> (processor_impl list \<times> linux_state) option" where
  "get_all_impl fs st = (case cached_all st of
      Some ps \<Rightarrow> Some (ps, st)
    | None \<Rightarrow> do {
        (ps, st) \<leftarrow> load_all_processors fs st;
        Some (ps, st\<lparr>cached_all := Some ps\<rparr>)
      })"

definition get_active :: "filesystem \<Rightarrow> linux_state \<Rightarrow> (processor_impl list \<times> linux_state) option" where
  "get_active fs st = (case cached_active st of
      Some ps \<Rightarrow> Some (ps, st)
    | None \<Rightarrow> do {
        (ps, st) \<leftarrow> get_all_impl fs st;
        active \<leftarrow> non_empty (filter pi_active ps);
        Some (active, st\<lparr>cached_active := Some active\<rparr>)
      })"

section \<open>The identifier space\<close>

definition get_max_processor :: "filesystem \<Rightarrow> linux_state \<Rightarrow> (item \<times> linux_state) option" where
  "get_max_processor fs st = (case cached_max_processor st of
      Some m \<Rightarrow> Some (m, st)
    | None \<Rightarrow>
        let (possible, st) = get_possible_ids fs st in
        (case possible of
           Some ids \<Rightarrow> Some (list_max ids, st\<lparr>cached_max_processor := Some (list_max ids)\<rparr>)
         | None \<Rightarrow>
             let (online, st) = get_online_ids fs st in
             (case online of
                Some ids \<Rightarrow> Some (list_max ids, st\<lparr>cached_max_processor := Some (list_max ids)\<rparr>)
              | None \<Rightarrow> do {
                  (ps, st) \<leftarrow> get_all_impl fs st;
                  let m = list_max (map pi_id ps);
                  Some (m, st\<lparr>cached_max_processor := Some m\<rparr>)
                })))"

definition get_active_count :: "filesystem \<Rightarrow> linux_state \<Rightarrow> (usize \<times> linux_state) option" where
  "get_active_count fs st = (case cached_count st of
      Some n \<Rightarrow> Some (n, st)
    | None \<Rightarrow>
        let (online, st) = get_online_ids fs st in
        (case online of
           Some ids \<Rightarrow> Some (length ids, st\<lparr>cached_count := Some (length ids)\<rparr>)
         | None \<Rightarrow> do {
             (ps, st) \<leftarrow> get_active fs st;
             Some (length ps, st\<lparr>cached_count := Some (length ps)\<rparr>)
           }))"

section \<open>Processor time\<close>

definition cgroup_quota :: "filesystem \<Rightarrow> string \<Rightarrow> (nat \<times> nat) option" where
  "cgroup_quota fs name = (case fs_v2_quota fs name \<bind> parse_v2_quota of
      Some qp \<Rightarrow> Some qp
    | None \<Rightarrow> do {
        quota_contents \<leftarrow> fs_v1_quota fs name;
        period_contents \<leftarrow> fs_v1_period fs name;
        parse_v1_quota quota_contents period_contents
      })"

definition cgroups_max_processor_time :: "filesystem \<Rightarrow> flt option" where
  "cgroups_max_processor_time fs = do {
     name \<leftarrow> fs_self_cgroup fs \<bind> parse_cgroup_name;
     (quota, period) \<leftarrow> cgroup_quota fs name;
     Some (flt_div f64 (float_of_nat f64 quota) (float_of_nat f64 period))
   }"

definition get_max_processor_time :: "filesystem \<Rightarrow> linux_state \<Rightarrow> (flt \<times> linux_state) option" where
  "get_max_processor_time fs st = do {
     (ps, st) \<leftarrow> get_active fs st;
     let limit = float_of_nat f64 (length ps);
     Some (case cgroups_max_processor_time fs of
             Some cgroup \<Rightarrow> (flt_min limit cgroup, st)
           | None \<Rightarrow> (limit, st))
   }"

section \<open>Thread affinity\<close>

definition affinity_attempts :: nat where
  "affinity_attempts = 11"

definition affinity_growth :: usize where
  "affinity_growth = 2"

text \<open>The widths to try: the last one that worked, then ever wider ones.\<close>

fun grow_widths :: "nat \<Rightarrow> usize \<Rightarrow> usize list" where
  "grow_widths 0 w = []"
| "grow_widths (Suc n) w =
    w # (if w * affinity_growth < usize_range then grow_widths n (w * affinity_growth) else [])"

definition affinity_mask_widths :: "linux_state \<Rightarrow> usize list" where
  "affinity_mask_widths st =
    grow_widths affinity_attempts (if affinity_words st = 0 then inline_words else affinity_words st)"

text \<open>The kernel answers a read of the affinity with a mask or an error number.\<close>

definition einval :: int where
  "einval = 22"

fun try_widths ::
    "(usize \<Rightarrow> int option + cpu_mask) \<Rightarrow> usize list \<Rightarrow> linux_state \<Rightarrow> (cpu_mask \<times> linux_state) option" where
  "try_widths getaffinity [] st = None"
| "try_widths getaffinity (w # ws) st = (case getaffinity w of
      Inr m \<Rightarrow> Some (m, st\<lparr>affinity_words := w\<rparr>)
    | Inl e \<Rightarrow> if e = Some einval then try_widths getaffinity ws st else None)"

definition get_current_thread_affinity ::
    "(usize \<Rightarrow> int option + cpu_mask) \<Rightarrow> linux_state \<Rightarrow> (cpu_mask \<times> linux_state) option" where
  "get_current_thread_affinity getaffinity st = try_widths getaffinity (affinity_mask_widths st) st"

definition current_thread_processors ::
    "filesystem \<Rightarrow> (usize \<Rightarrow> int option + cpu_mask) \<Rightarrow> linux_state \<Rightarrow> (item list \<times> linux_state) option" where
  "current_thread_processors fs getaffinity st = do {
     (max_id, st) \<leftarrow> get_max_processor fs st;
     (affinity, st) \<leftarrow> get_current_thread_affinity getaffinity st;
     ids \<leftarrow> mask_processor_ids affinity;
     ids \<leftarrow> non_empty (filter (\<lambda>i. i \<le> max_id) ids);
     Some (ids, st)
   }"

text \<open>Pinning hands the kernel the mask of the processors; a refusal is a panic.\<close>

definition pin_mask :: "processor_impl list \<Rightarrow> cpu_mask" where
  "pin_mask ps = fold (\<lambda>p. mask_insert (pi_id p)) ps mask_new"

definition pin_current_thread_to :: "(cpu_mask \<Rightarrow> bool) \<Rightarrow> processor_impl list \<Rightarrow> unit option" where
  "pin_current_thread_to setaffinity ps = require (setaffinity (pin_mask ps))"

section \<open>Sequences of queries\<close>

text \<open>The queries, the internal ones too: a query that panics keeps the cells it had already set, which is the effect
  of the internal queries that set them. Every query reads files of its own, which only have to satisfy \<open>ok\<close>.\<close>

datatype platform_query =
    Query_possible | Query_online | Query_regions | Query_all
  | Query_active | Query_max_processor | Query_max_region | Query_count

definition run_query :: "filesystem \<Rightarrow> platform_query \<Rightarrow> linux_state \<Rightarrow> linux_state option" where
  "run_query fs q st = (case q of
      Query_possible \<Rightarrow> Some (snd (get_possible_ids fs st))
    | Query_online \<Rightarrow> Some (snd (get_online_ids fs st))
    | Query_regions \<Rightarrow> Some (snd (get_possible_regions fs st))
    | Query_all \<Rightarrow> map_option snd (get_all_impl fs st)
    | Query_active \<Rightarrow> map_option snd (get_active fs st)
    | Query_max_processor \<Rightarrow> map_option snd (get_max_processor fs st)
    | Query_max_region \<Rightarrow> Some (snd (get_max_region fs st))
    | Query_count \<Rightarrow> map_option snd (get_active_count fs st))"

inductive platform_reachable :: "(filesystem \<Rightarrow> bool) \<Rightarrow> linux_state \<Rightarrow> bool" for ok where
  new: "platform_reachable ok platform_new"
| query: "platform_reachable ok st \<Longrightarrow> ok fs \<Longrightarrow> run_query fs q st = Some st' \<Longrightarrow> platform_reachable ok st'"
| affinity: "platform_reachable ok st \<Longrightarrow> platform_reachable ok (st\<lparr>affinity_words := w\<rparr>)"

section \<open>Lists of identifiers\<close>

lemma fold_max_ge: "(m :: item) \<le> fold max xs m" "x \<in> set xs \<Longrightarrow> x \<le> fold max xs m"
proof -
  show ge: "m \<le> fold max xs m" for m :: item and xs
    by (induction xs arbitrary: m) (auto intro: order_trans[OF max.cobounded2])
  show "x \<in> set xs \<Longrightarrow> x \<le> fold max xs m"
    by (induction xs arbitrary: m) (auto intro: order_trans[OF max.cobounded1 ge])
qed

lemma list_max_ge: "x \<in> set xs \<Longrightarrow> x \<le> list_max xs"
  by (cases xs) (auto simp: list_max_def fold_max_ge)

lemma list_max_mem: "xs \<noteq> [] \<Longrightarrow> list_max xs \<in> set xs"
proof -
  have "fold max ys y \<in> insert y (set ys)" for y :: item and ys
    by (induction ys arbitrary: y) (force simp: max_def)+
  then show "xs \<noteq> [] \<Longrightarrow> list_max xs \<in> set xs" by (cases xs) (auto simp: list_max_def)
qed

lemma distinct_ids_count: "distinct (ids :: item list) \<Longrightarrow> (\<And>i. i \<in> set ids \<Longrightarrow> i \<le> m) \<Longrightarrow> length ids \<le> unat m + 1"
proof -
  assume d: "distinct ids" and le: "\<And>i. i \<in> set ids \<Longrightarrow> i \<le> m"
  have "unat ` set ids \<subseteq> {..unat m}" using le by (auto simp: word_le_nat_alt)
  then have "card (unat ` set ids) \<le> unat m + 1" using card_mono[of "{..unat m}"] by force
  moreover have "card (unat ` set ids) = length ids"
    using d by (subst card_image) (auto simp: distinct_card intro!: inj_onI unsigned_word_eqI)
  ultimately show ?thesis by simp
qed

lemma parse_ids_distinct: "parse_ids s = Some ids \<Longrightarrow> distinct ids"
  unfolding parse_ids_def parse_def Let_def
  by (cases "collect_results (map parse_part (str_split CHR '','' s))") (auto simp: distinct_remdups_adj_sorted)

lemma non_empty_Some [simp]: "(non_empty xs = Some ys) = (ys = xs \<and> xs \<noteq> [])"
  by (auto simp: non_empty_def)

lemma parse_kernel_id_list_Some:
  assumes "parse_kernel_id_list c = Some ids"
  shows "ids \<noteq> []" "distinct ids"
  using assms by (auto simp: parse_kernel_id_list_def bind_eq_Some_iff dest: parse_ids_distinct)

section \<open>What loading reports\<close>

definition allowed_infos :: "filesystem \<Rightarrow> cpu_info list option" where
  "allowed_infos fs = do {
     infos \<leftarrow> get_cpuinfo (fs_cpuinfo fs);
     allowed \<leftarrow> get_processors_allowed (fs_self_status fs);
     non_empty (filter (\<lambda>i. info_index i \<in> set allowed) infos)
   }"

lemma get_possible_regions_result:
  assumes "get_possible_regions fs st = (v, st')"
  shows "cached_regions st' = Some v" "st' = st\<lparr>cached_regions := Some v\<rparr>"
  using assms by (auto simp: get_possible_regions_def Let_def split: option.splits)

lemma load_all_result:
  assumes "load_all_processors fs st = Some (ps, st')"
  obtains infos regions nodes where
    "allowed_infos fs = Some infos"
    "get_possible_regions fs st = (regions, st')"
    "get_numa_nodes fs regions = Some nodes"
    "ps = sort_key pi_id (map (describe_processor fs
       (case nodes of Some ns \<Rightarrow> ns | None \<Rightarrow> [(single_region, map info_index infos)]) (max_bogomips infos)) infos)"
proof -
  obtain regions st1 where r: "get_possible_regions fs st = (regions, st1)" by fastforce
  obtain infos nodes allowed where
    "get_cpuinfo (fs_cpuinfo fs) = Some infos" "get_numa_nodes fs regions = Some nodes"
    "get_processors_allowed (fs_self_status fs) = Some allowed"
    "filter (\<lambda>i. info_index i \<in> set allowed) infos \<noteq> []" "st1 = st'"
    "ps = sort_key pi_id (map (describe_processor fs
       (case nodes of Some ns \<Rightarrow> ns
          | None \<Rightarrow> [(single_region, map info_index (filter (\<lambda>i. info_index i \<in> set allowed) infos))])
       (max_bogomips (filter (\<lambda>i. info_index i \<in> set allowed) infos)))
       (filter (\<lambda>i. info_index i \<in> set allowed) infos))"
    using assms by (auto simp: load_all_processors_def r run_simps Let_def)
  with r show ?thesis
    by (intro that[of "filter (\<lambda>i. info_index i \<in> set allowed) infos"]) (auto simp: allowed_infos_def)
qed

lemma node_members_nodes: "node_members fs nodes = Some ns \<Longrightarrow> fst ` set ns \<subseteq> set nodes"
  by (induction nodes arbitrary: ns) (fastforce simp: run_simps split: option.splits if_splits)+

lemma region_of_cases:
  "region_of nodes i = single_region \<or>
   (\<exists>ids. (region_of nodes i, ids) \<in> set nodes \<and> i \<in> set ids)"
  by (auto simp: region_of_def find_Some_iff in_set_conv_nth split: option.splits) force

section \<open>Regions stay in the identifier space\<close>

text \<open>What the cells say about memory regions: the largest identifier and the regions of the processors come from one
  reading of the node mask.\<close>

definition region_named :: "item list option \<Rightarrow> processor_impl \<Rightarrow> bool" where
  "region_named r p = (pi_region p = single_region \<or> (case r of None \<Rightarrow> False | Some ids \<Rightarrow> pi_region p \<in> set ids))"

definition regions_ok :: "linux_state \<Rightarrow> bool" where
  "regions_ok st =
    ((\<forall>m. cached_max_region st = Some m \<longrightarrow> (\<exists>r. cached_regions st = Some r \<and> m = region_space r)) \<and>
     (\<forall>ps. cached_all st = Some ps \<longrightarrow> (\<exists>r. cached_regions st = Some r \<and> list_all (region_named r) ps)) \<and>
     (\<forall>as. cached_active st = Some as \<longrightarrow> (\<exists>ps. cached_all st = Some ps \<and> as = filter pi_active ps)))"

lemma load_all_regions:
  assumes "load_all_processors fs st = Some (ps, st')"
  shows "\<exists>r. get_possible_regions fs st = (r, st') \<and> list_all (region_named r) ps"
  using assms
proof (rule load_all_result)
  fix infos :: "cpu_info list" and regions nodes
  let ?nodes = "case nodes of Some ns \<Rightarrow> ns | None \<Rightarrow> [(single_region, map info_index infos)]"
  assume r: "get_possible_regions fs st = (regions, st')" and n: "get_numa_nodes fs regions = Some nodes"
    and ps: "ps = sort_key pi_id (map (describe_processor fs ?nodes (max_bogomips infos)) infos)"
  have "fst ` set ?nodes \<subseteq> insert single_region (case regions of None \<Rightarrow> {} | Some ids \<Rightarrow> set ids)"
    using n node_members_nodes by (fastforce simp: get_numa_nodes_def split: option.splits)
  then have named: "region_of ?nodes i = single_region \<or> (\<exists>ids. regions = Some ids \<and> region_of ?nodes i \<in> set ids)" for i
    using region_of_cases[of ?nodes i] by (force split: option.splits)
  have "region_named regions (describe_processor fs ?nodes fastest info)" for fastest info
    using named[of "info_index info"] by (cases regions) (simp_all add: region_named_def describe_processor_def)
  then have "list_all (region_named regions) ps" by (auto simp: ps list_all_iff)
  with r show ?thesis by blast
qed

lemma regions_ok_possible: "get_possible_ids fs st = (v, st') \<Longrightarrow> regions_ok st \<Longrightarrow> regions_ok st'"
  by (auto simp: get_possible_ids_def regions_ok_def Let_def split: option.splits)

lemma regions_ok_online: "get_online_ids fs st = (v, st') \<Longrightarrow> regions_ok st \<Longrightarrow> regions_ok st'"
  by (auto simp: get_online_ids_def regions_ok_def Let_def split: option.splits)

lemma regions_ok_regions: "get_possible_regions fs st = (v, st') \<Longrightarrow> regions_ok st \<Longrightarrow> regions_ok st'"
  by (auto simp: get_possible_regions_def regions_ok_def Let_def split: option.splits)

lemma regions_ok_max: "get_max_region fs st = (v, st') \<Longrightarrow> regions_ok st \<Longrightarrow> regions_ok st' \<and> cached_max_region st' = Some v"
proof (cases "cached_max_region st")
  case None
  obtain r st1 where r: "get_possible_regions fs st = (r, st1)" by fastforce
  assume "get_max_region fs st = (v, st')" "regions_ok st"
  with None r get_possible_regions_result[OF r] regions_ok_regions[OF r] show ?thesis
    by (auto simp: get_max_region_def Let_def regions_ok_def split: option.splits)
qed (auto simp: get_max_region_def)

lemma regions_ok_all:
  "get_all_impl fs st = Some (ps, st') \<Longrightarrow> regions_ok st \<Longrightarrow> regions_ok st' \<and> cached_all st' = Some ps"
proof (cases "cached_all st")
  case None
  assume a: "get_all_impl fs st = Some (ps, st')" "regions_ok st"
  with None obtain st1 where l: "load_all_processors fs st = Some (ps, st1)" and st': "st' = st1\<lparr>cached_all := Some ps\<rparr>"
    by (auto simp: get_all_impl_def run_simps)
  obtain r where r: "get_possible_regions fs st = (r, st1)" "list_all (region_named r) ps"
    using load_all_regions[OF l] by blast
  show ?thesis using regions_ok_regions[OF r(1) a(2)] get_possible_regions_result[OF r(1)] r(2) a(2) None
    by (auto simp: st' regions_ok_def split: option.splits)
qed (auto simp: get_all_impl_def)

lemma regions_ok_active:
  "get_active fs st = Some (ps, st') \<Longrightarrow> regions_ok st \<Longrightarrow> regions_ok st' \<and> cached_active st' = Some ps"
proof (cases "cached_active st")
  case None
  assume a: "get_active fs st = Some (ps, st')" "regions_ok st"
  with None obtain all st1 where l: "get_all_impl fs st = Some (all, st1)" "ps = filter pi_active all"
    "st' = st1\<lparr>cached_active := Some ps\<rparr>"
    by (auto simp: get_active_def run_simps)
  with regions_ok_all[OF l(1) a(2)] show ?thesis by (auto simp: regions_ok_def split: option.splits)
qed (auto simp: get_active_def)

lemmas regions_ok_intros = regions_ok_possible regions_ok_online regions_ok_regions
  regions_ok_max[THEN conjunct1] regions_ok_all[THEN conjunct1] regions_ok_active[THEN conjunct1]

lemma regions_ok_update [simp]:
  "regions_ok (st\<lparr>cached_max_processor := m\<rparr>) = regions_ok st"
  "regions_ok (st\<lparr>cached_count := n\<rparr>) = regions_ok st"
  "regions_ok (st\<lparr>affinity_words := w\<rparr>) = regions_ok st"
  by (simp_all add: regions_ok_def)

lemma regions_ok_max_processor: "get_max_processor fs st = Some (v, st') \<Longrightarrow> regions_ok st \<Longrightarrow> regions_ok st'"
  by (fastforce simp: get_max_processor_def run_simps Let_def split: option.splits prod.splits
      dest: regions_ok_intros)

lemma regions_ok_count: "get_active_count fs st = Some (v, st') \<Longrightarrow> regions_ok st \<Longrightarrow> regions_ok st'"
  by (fastforce simp: get_active_count_def run_simps Let_def split: option.splits prod.splits
      dest: regions_ok_intros)

lemma regions_ok_query:
  assumes "run_query fs q st = Some st'" "regions_ok st"
  shows "regions_ok st'"
  using assms
  by (cases q) (auto simp: run_query_def intro: regions_ok_possible[OF prod.collapse[symmetric]]
      regions_ok_online[OF prod.collapse[symmetric]] regions_ok_regions[OF prod.collapse[symmetric]]
      regions_ok_max[OF prod.collapse[symmetric], THEN conjunct1] regions_ok_max_processor regions_ok_count
      dest: regions_ok_all[THEN conjunct1] regions_ok_active[THEN conjunct1])

lemma regions_ok_reachable: "platform_reachable ok st \<Longrightarrow> regions_ok st"
proof (induction rule: platform_reachable.induct)
  case new
  then show ?case by (simp add: platform_new_def regions_ok_def)
qed (simp_all add: regions_ok_query)

end
