(* ===== verification/LinuxMachine.thy ===== *)
theory LinuxMachine
  imports LinuxPlatform
begin

text \<open>
  What the Linux platform promises about the machine it describes, over any sequence of queries: memory regions and
  processor counts fit the identifier spaces it reports, the processors are the allowed ones with at least one
  performance processor, the processor time is bounded by the processor count, and the affinity of a pinned thread
  reads back. The kernel's contract is a hypothesis about the files: the possible identifiers never change, online
  and enumerated processors are among them, and no processor is enumerated twice.
\<close>

section \<open>Regions\<close>

text \<open>A processor is never in a memory region beyond the largest region identifier the platform reports, in whatever
  order the two are asked for and however the files change between the queries.\<close>

theorem linux_regions_in_space:
  assumes "platform_reachable ok st" "get_active fs st = Some (ps, st1)"
    and "get_max_region fs' st1 = (m, st2)" "p \<in> set ps"
  shows "pi_region p \<le> m"
proof -
  have st1: "regions_ok st1" "cached_active st1 = Some ps"
    using regions_ok_active[OF assms(2)] regions_ok_reachable[OF assms(1)] by auto
  have st2: "regions_ok st2" "cached_max_region st2 = Some m"
    using regions_ok_max[OF assms(3) st1(1)] by auto
  obtain all r where all: "cached_all st1 = Some all" "ps = filter pi_active all"
    and r: "cached_regions st1 = Some r" "list_all (region_named r) all"
    using st1 by (auto simp: regions_ok_def)
  have "cached_regions st2 = cached_regions st1"
    using assms(3) r(1)
    by (auto simp: get_max_region_def get_possible_regions_def Let_def split: option.splits)
  with st2 r(1) have "m = region_space r" by (auto simp: regions_ok_def)
  moreover have "region_named r p" using assms(4) all(2) r(2) by (auto simp: list_all_iff)
  ultimately show ?thesis
    by (cases r) (auto simp: region_named_def region_space_def single_region_def list_max_ge)
qed

section \<open>Counts\<close>

definition kernel_contract :: "item set \<Rightarrow> filesystem \<Rightarrow> bool" where
  "kernel_contract U fs =
    ((\<forall>ids. parse_kernel_id_list (fs_possible_cpus fs) = Some ids \<longrightarrow> set ids = U) \<and>
     (\<forall>ids. parse_kernel_id_list (fs_online_cpus fs) = Some ids \<longrightarrow> set ids \<subseteq> U) \<and>
     (\<forall>infos. get_cpuinfo (fs_cpuinfo fs) = Some infos \<longrightarrow>
        distinct (map info_index infos) \<and> info_index ` set infos \<subseteq> U))"

lemma kernel_contractD:
  assumes "kernel_contract U fs"
  shows "parse_kernel_id_list (fs_possible_cpus fs) = Some ids \<Longrightarrow> set ids = U"
    "parse_kernel_id_list (fs_online_cpus fs) = Some ids \<Longrightarrow> set ids \<subseteq> U"
  using assms by (simp_all add: kernel_contract_def)

text \<open>What the cells say about processor identifiers.\<close>

definition masks_ok :: "item set \<Rightarrow> linux_state \<Rightarrow> bool" where
  "masks_ok U st =
    ((\<forall>ids. cached_possible st = Some (Some ids) \<longrightarrow> set ids = U) \<and>
     (\<forall>ids. cached_online st = Some (Some ids) \<longrightarrow> set ids \<subseteq> U \<and> distinct ids) \<and>
     (\<forall>ps. cached_all st = Some ps \<longrightarrow> distinct (map pi_id ps) \<and> (\<forall>p \<in> set ps. pi_id p \<in> U)) \<and>
     (\<forall>as. cached_active st = Some as \<longrightarrow> (\<exists>ps. cached_all st = Some ps \<and> as = filter pi_active ps)))"

definition max_ok :: "linux_state \<Rightarrow> bool" where
  "max_ok st = (\<forall>m. cached_max_processor st = Some m \<longrightarrow>
     (\<exists>ids. cached_possible st = Some (Some ids) \<and> m = list_max ids) \<or>
     (cached_possible st = Some None \<and>
       ((\<exists>ids. cached_online st = Some (Some ids) \<and> m = list_max ids) \<or>
        (cached_online st = Some None \<and> (\<exists>ps. cached_all st = Some ps \<and> m = list_max (map pi_id ps))))))"

definition count_ok :: "linux_state \<Rightarrow> bool" where
  "count_ok st = (\<forall>n. cached_count st = Some n \<longrightarrow>
     (\<exists>ids. cached_online st = Some (Some ids) \<and> n = length ids) \<or>
     (cached_online st = Some None \<and> (\<exists>as. cached_active st = Some as \<and> n = length as)))"

text \<open>A cell that is set keeps its value.\<close>

definition keeps :: "linux_state \<Rightarrow> linux_state \<Rightarrow> bool" where
  "keeps st st' =
    ((cached_possible st \<noteq> None \<longrightarrow> cached_possible st' = cached_possible st) \<and>
     (cached_online st \<noteq> None \<longrightarrow> cached_online st' = cached_online st) \<and>
     (cached_all st \<noteq> None \<longrightarrow> cached_all st' = cached_all st) \<and>
     (cached_active st \<noteq> None \<longrightarrow> cached_active st' = cached_active st))"

lemma keeps_refl [simp]: "keeps st st"
  by (simp add: keeps_def)

lemma keeps_trans: "keeps st st1 \<Longrightarrow> keeps st1 st2 \<Longrightarrow> keeps st st2"
  by (auto simp: keeps_def)

lemma keeps_max_ok: "keeps st st' \<Longrightarrow> cached_max_processor st' = cached_max_processor st \<Longrightarrow> max_ok st \<Longrightarrow> max_ok st'"
  unfolding keeps_def max_ok_def by (metis option.distinct(1))

lemma keeps_count_ok: "keeps st st' \<Longrightarrow> cached_count st' = cached_count st \<Longrightarrow> count_ok st \<Longrightarrow> count_ok st'"
  unfolding keeps_def count_ok_def by (metis option.distinct(1))

definition space_ok :: "item set \<Rightarrow> linux_state \<Rightarrow> bool" where
  "space_ok U st = (masks_ok U st \<and> max_ok st \<and> count_ok st)"

lemma space_ok_step:
  assumes "space_ok U st" "keeps st st'" "masks_ok U st'"
    and "cached_max_processor st' = cached_max_processor st" "cached_count st' = cached_count st"
  shows "space_ok U st'"
  using assms keeps_max_ok keeps_count_ok by (auto simp: space_ok_def)

lemma masks_ok_cells:
  "masks_ok U st \<Longrightarrow> (\<And>ids. v = Some ids \<Longrightarrow> set ids = U) \<Longrightarrow> masks_ok U (st\<lparr>cached_possible := Some v\<rparr>)"
  "masks_ok U st \<Longrightarrow> (\<And>ids. v = Some ids \<Longrightarrow> set ids \<subseteq> U \<and> distinct ids) \<Longrightarrow>
    masks_ok U (st\<lparr>cached_online := Some v\<rparr>)"
  by (simp_all add: masks_ok_def)

lemma space_possible:
  assumes "get_possible_ids fs st = (v, st')" "kernel_contract U fs" "space_ok U st"
  shows "space_ok U st'" "keeps st st'" "cached_possible st' = Some v"
    "cached_count st' = cached_count st" "cached_max_processor st' = cached_max_processor st"
proof -
  show k: "keeps st st'" "cached_possible st' = Some v" "cached_count st' = cached_count st"
    "cached_max_processor st' = cached_max_processor st"
    using assms(1) by (auto simp: get_possible_ids_def keeps_def Let_def split: option.splits)
  have "masks_ok U st'"
  proof (cases "cached_possible st")
    case None
    with assms(1) have st': "st' = st\<lparr>cached_possible := Some v\<rparr>"
      and v: "v = parse_kernel_id_list (fs_possible_cpus fs)"
      by (auto simp: get_possible_ids_def Let_def)
    have "masks_ok U st" using assms(3) by (simp add: space_ok_def)
    then show ?thesis unfolding st'
      by (rule masks_ok_cells(1)) (simp add: v kernel_contractD(1)[OF assms(2)])
  next
    case (Some v)
    with assms show ?thesis by (simp add: get_possible_ids_def space_ok_def)
  qed
  then show "space_ok U st'" using k by (auto intro: space_ok_step[OF assms(3)])
qed

lemma space_online:
  assumes "get_online_ids fs st = (v, st')" "kernel_contract U fs" "space_ok U st"
  shows "space_ok U st'" "keeps st st'" "cached_online st' = Some v"
    "cached_count st' = cached_count st" "cached_max_processor st' = cached_max_processor st"
proof -
  show k: "keeps st st'" "cached_online st' = Some v" "cached_count st' = cached_count st"
    "cached_max_processor st' = cached_max_processor st"
    using assms(1) by (auto simp: get_online_ids_def keeps_def Let_def split: option.splits)
  have "masks_ok U st'"
  proof (cases "cached_online st")
    case None
    with assms(1) have st': "st' = st\<lparr>cached_online := Some v\<rparr>"
      and v: "v = parse_kernel_id_list (fs_online_cpus fs)"
      by (auto simp: get_online_ids_def Let_def)
    have "masks_ok U st" using assms(3) by (simp add: space_ok_def)
    then show ?thesis unfolding st'
      by (rule masks_ok_cells(2)) (simp add: v kernel_contractD(2)[OF assms(2)] parse_kernel_id_list_Some(2))
  next
    case (Some v)
    with assms show ?thesis by (simp add: get_online_ids_def space_ok_def)
  qed
  then show "space_ok U st'" using k by (auto intro: space_ok_step[OF assms(3)])
qed

lemma load_all_ids:
  assumes "load_all_processors fs st = Some (ps, st')" "kernel_contract U fs"
  shows "distinct (map pi_id ps)" "\<forall>p \<in> set ps. pi_id p \<in> U"
proof -
  obtain infos nodes fastest where a: "allowed_infos fs = Some infos"
    and ps: "ps = sort_key pi_id (map (describe_processor fs nodes fastest) infos)"
    using assms(1) by (rule load_all_result) blast
  obtain all allowed where "get_cpuinfo (fs_cpuinfo fs) = Some all"
    and infos: "infos = filter (\<lambda>i. info_index i \<in> set allowed) all" "infos \<noteq> []"
    using a by (auto simp: allowed_infos_def run_simps)
  with assms(2) have "distinct (map info_index infos)" "info_index ` set infos \<subseteq> U"
    by (auto simp: kernel_contract_def distinct_map inj_on_def)
  then show "distinct (map pi_id ps)" "\<forall>p \<in> set ps. pi_id p \<in> U"
    using infos(2) by (auto simp: ps distinct_map inj_on_def describe_processor_def)
qed

lemma space_all:
  assumes "get_all_impl fs st = Some (ps, st')" "kernel_contract U fs" "space_ok U st"
  shows "space_ok U st' \<and> keeps st st' \<and> cached_all st' = Some ps \<and>
    cached_count st' = cached_count st \<and> cached_max_processor st' = cached_max_processor st"
proof (cases "cached_all st")
  case None
  obtain st1 where l: "load_all_processors fs st = Some (ps, st1)" and st': "st' = st1\<lparr>cached_all := Some ps\<rparr>"
    using assms(1) None by (auto simp: get_all_impl_def run_simps)
  obtain r where "get_possible_regions fs st = (r, st1)" using load_all_regions[OF l] by blast
  then have st1: "cached_possible st1 = cached_possible st" "cached_online st1 = cached_online st"
    "cached_active st1 = cached_active st" "cached_count st1 = cached_count st"
    "cached_max_processor st1 = cached_max_processor st"
    by (auto simp: get_possible_regions_def Let_def split: option.splits)
  have "cached_active st = None" using assms(3) None
    by (cases "cached_active st") (auto simp: space_ok_def masks_ok_def)
  then have "masks_ok U st'" using assms(3) load_all_ids[OF l assms(2)] st1
    by (auto simp: st' space_ok_def masks_ok_def)
  moreover have "keeps st st'" using None st1 by (simp add: keeps_def st')
  ultimately show ?thesis using st1 by (auto simp: st' intro: space_ok_step[OF assms(3)])
qed (use assms in \<open>auto simp: get_all_impl_def\<close>)

lemma space_active:
  assumes "get_active fs st = Some (ps, st')" "kernel_contract U fs" "space_ok U st"
  shows "space_ok U st' \<and> keeps st st' \<and> cached_active st' = Some ps \<and>
    cached_count st' = cached_count st \<and> cached_max_processor st' = cached_max_processor st"
proof (cases "cached_active st")
  case None
  obtain all st1 where l: "get_all_impl fs st = Some (all, st1)" "ps = filter pi_active all"
    and st': "st' = st1\<lparr>cached_active := Some ps\<rparr>"
    using assms(1) None by (auto simp: get_active_def run_simps)
  note st1 = space_all[OF l(1) assms(2,3)]
  have "masks_ok U st'" using st1 l(2) by (auto simp: st' space_ok_def masks_ok_def)
  moreover have "keeps st st'" using None st1 by (auto simp: keeps_def st')
  ultimately show ?thesis using st1 by (auto simp: st' intro: space_ok_step[OF assms(3)])
qed (use assms in \<open>auto simp: get_active_def\<close>)

lemma space_ok_cells:
  "space_ok U (st\<lparr>cached_max_processor := Some m\<rparr>) = (masks_ok U st \<and> count_ok st \<and>
     max_ok (st\<lparr>cached_max_processor := Some m\<rparr>))"
  "space_ok U (st\<lparr>cached_count := Some n\<rparr>) = (masks_ok U st \<and> max_ok st \<and>
     count_ok (st\<lparr>cached_count := Some n\<rparr>))"
  "space_ok U (st\<lparr>affinity_words := w\<rparr>) = space_ok U st"
  by (auto simp: space_ok_def masks_ok_def max_ok_def count_ok_def)

lemma space_max_processor:
  assumes "get_max_processor fs st = Some (m, st')" "kernel_contract U fs" "space_ok U st"
  shows "space_ok U st' \<and> cached_max_processor st' = Some m"
proof (cases "cached_max_processor st")
  case None
  obtain a st1 where p: "get_possible_ids fs st = (a, st1)" by fastforce
  note st1 = space_possible[OF p assms(2,3)]
  obtain b st2 where o2: "get_online_ids fs st1 = (b, st2)" by fastforce
  note st2 = space_online[OF o2 assms(2) st1(1)]
  show ?thesis
  proof (cases a)
    case (Some ids)
    with assms(1) None p have "m = list_max ids" "st' = st1\<lparr>cached_max_processor := Some m\<rparr>"
      by (auto simp: get_max_processor_def)
    with st1 Some show ?thesis by (simp add: space_ok_cells) (simp add: space_ok_def max_ok_def)
  next
    case a: None
    have possible: "cached_possible st2 = Some None" using st1 st2 a by (auto simp: keeps_def)
    show ?thesis
    proof (cases b)
      case (Some ids)
      with assms(1) None p o2 a have "m = list_max ids" "st' = st2\<lparr>cached_max_processor := Some m\<rparr>"
        by (auto simp: get_max_processor_def)
      with st2 Some possible show ?thesis by (simp add: space_ok_cells) (simp add: space_ok_def max_ok_def)
    next
      case b: None
      obtain ps st3 where l: "get_all_impl fs st2 = Some (ps, st3)"
        and r: "m = list_max (map pi_id ps)" "st' = st3\<lparr>cached_max_processor := Some m\<rparr>"
        using assms(1) None p o2 a b by (auto simp: get_max_processor_def run_simps Let_def)
      note st3 = space_all[OF l assms(2) st2(1)]
      have "cached_possible st3 = Some None" "cached_online st3 = Some None"
        using st2 st3 possible b by (auto simp: keeps_def)
      with st3 r show ?thesis by (simp add: space_ok_cells) (auto simp: space_ok_def max_ok_def)
    qed
  qed
qed (use assms in \<open>auto simp: get_max_processor_def\<close>)

lemma space_count:
  assumes "get_active_count fs st = Some (n, st')" "kernel_contract U fs" "space_ok U st"
  shows "space_ok U st' \<and> keeps st st' \<and> cached_max_processor st' = cached_max_processor st \<and>
    cached_count st' = Some n"
proof (cases "cached_count st")
  case None
  obtain b st2 where o2: "get_online_ids fs st = (b, st2)" by fastforce
  note st2 = space_online[OF o2 assms(2,3)]
  show ?thesis
  proof (cases b)
    case (Some ids)
    with assms(1) None o2 have r: "n = length ids" "st' = st2\<lparr>cached_count := Some n\<rparr>"
      by (auto simp: get_active_count_def)
    then have "space_ok U st'" using st2 Some by (simp add: space_ok_cells) (simp add: space_ok_def count_ok_def)
    with st2 r show ?thesis by (simp add: keeps_def)
  next
    case b: None
    obtain as st3 where l: "get_active fs st2 = Some (as, st3)"
      and r: "n = length as" "st' = st3\<lparr>cached_count := Some n\<rparr>"
      using assms(1) None o2 b by (auto simp: get_active_count_def run_simps Let_def)
    note st3 = space_active[OF l assms(2) st2(1)]
    have "cached_online st3 = Some None" using st2 st3 b by (auto simp: keeps_def)
    then have "space_ok U st'" using st3 r by (simp add: space_ok_cells) (auto simp: space_ok_def count_ok_def)
    moreover have "keeps st st'" using keeps_trans[of st st2 st3] st2 st3 r(2) by (auto simp: keeps_def)
    ultimately show ?thesis using st2 st3 r by simp
  qed
qed (use assms in \<open>auto simp: get_active_count_def\<close>)

lemma space_max_region: "get_max_region fs st = (m, st') \<Longrightarrow> space_ok U st \<Longrightarrow> space_ok U st'"
  by (auto simp: get_max_region_def get_possible_regions_def Let_def space_ok_def masks_ok_def max_ok_def count_ok_def
      split: option.splits)

lemma space_regions: "get_possible_regions fs st = (m, st') \<Longrightarrow> space_ok U st \<Longrightarrow> space_ok U st'"
  by (auto simp: get_possible_regions_def Let_def space_ok_def masks_ok_def max_ok_def count_ok_def
      split: option.splits)

lemma space_query:
  assumes "run_query fs q st = Some st'" "kernel_contract U fs" "space_ok U st"
  shows "space_ok U st'"
  using assms
  by (cases q) (auto simp: run_query_def intro: space_possible(1)[OF prod.collapse[symmetric]]
      space_online(1)[OF prod.collapse[symmetric]] space_max_region[OF prod.collapse[symmetric]]
      space_regions[OF prod.collapse[symmetric]] space_max_processor[THEN conjunct1] space_count[THEN conjunct1]
      space_all[THEN conjunct1] space_active[THEN conjunct1])

lemma space_reachable: "platform_reachable (kernel_contract U) st \<Longrightarrow> space_ok U st"
proof (induction rule: platform_reachable.induct)
  case new
  then show ?case by (simp add: platform_new_def space_ok_def masks_ok_def max_ok_def count_ok_def)
qed (auto simp: space_ok_cells intro: space_query)

lemma active_ids:
  assumes "masks_ok U st" "count_ok st" "cached_count st = Some n"
  shows "\<exists>ids. distinct ids \<and> n = length ids \<and> (\<forall>i \<in> set ids. i \<in> U) \<and>
    (cached_online st = Some (Some ids) \<or> cached_online st = Some None \<and>
      (\<exists>all. cached_all st = Some all \<and> ids = map pi_id (filter pi_active all)))"
proof (cases "cached_online st")
  case (Some r)
  show ?thesis
  proof (cases r)
    case None
    obtain as where "cached_active st = Some as" "n = length as"
      using assms(2,3) Some None by (auto simp: count_ok_def)
    moreover obtain all where "cached_all st = Some all" "as = filter pi_active all"
      using assms(1) calculation(1) by (auto simp: masks_ok_def)
    moreover have "distinct (map pi_id all)" "\<forall>p \<in> set all. pi_id p \<in> U"
      using assms(1) calculation(3) by (auto simp: masks_ok_def)
    ultimately show ?thesis using Some None
      by (intro exI[of _ "map pi_id as"]) (auto simp: distinct_map_filter)
  next
    case r: (Some ids)
    have "set ids \<subseteq> U \<and> distinct ids" using assms(1) Some r by (auto simp: masks_ok_def)
    moreover have "n = length ids" using assms(2,3) Some r by (auto simp: count_ok_def)
    ultimately show ?thesis using Some r by blast
  qed
qed (use assms(2,3) in \<open>auto simp: count_ok_def\<close>)

lemma max_covers:
  assumes "masks_ok U st" "max_ok st" "cached_max_processor st = Some m"
  shows "(\<forall>i \<in> U. i \<le> m) \<or>
    (\<exists>ids. cached_online st = Some (Some ids) \<and> m = list_max ids) \<or>
    (cached_online st = Some None \<and> (\<exists>ps. cached_all st = Some ps \<and> m = list_max (map pi_id ps)))"
proof (cases "\<exists>ids. cached_possible st = Some (Some ids) \<and> m = list_max ids")
  case True
  then obtain ids where "cached_possible st = Some (Some ids)" "m = list_max ids" by blast
  moreover from this have "set ids = U" using assms(1) by (simp add: masks_ok_def)
  ultimately show ?thesis using list_max_ge by blast
qed (use assms(2,3) in \<open>auto simp: max_ok_def\<close>)

text \<open>C33: With a kernel that keeps its contract, the number of active processors the platform reports never exceeds the
  number of processor identifiers it reports, whichever files can be read and whatever they say at each query.\<close>

theorem linux_count_in_space:
  assumes "platform_reachable (kernel_contract U) st" "kernel_contract U fs" "kernel_contract U fs'"
    and "get_max_processor fs st = Some (m, st1)" "get_active_count fs' st1 = Some (n, st2)"
  shows "n \<le> unat m + 1"
proof -
  note st1 = space_max_processor[OF assms(4,2) space_reachable[OF assms(1)]]
  note st2 = space_count[OF assms(5,3) conjunct1[OF st1]]
  have sp: "masks_ok U st2" "max_ok st2" "count_ok st2" and m: "cached_max_processor st2 = Some m"
    and n: "cached_count st2 = Some n"
    using st1 st2 by (auto simp: space_ok_def)
  obtain ids where ids: "distinct ids" "n = length ids" "\<forall>i \<in> set ids. i \<in> U" and
    src: "cached_online st2 = Some (Some ids) \<or> cached_online st2 = Some None \<and>
      (\<exists>all. cached_all st2 = Some all \<and> ids = map pi_id (filter pi_active all))"
    using active_ids[OF sp(1,3) n] by blast
  have "i \<le> m" if "i \<in> set ids" for i
    using max_covers[OF sp(1,2) m] src ids(3) that by (auto intro!: list_max_ge)
  then show ?thesis unfolding ids(2) by (rule distinct_ids_count[OF ids(1)])
qed

section \<open>Processor time\<close>

lemma cgroups_nonneg: "cgroups_max_processor_time fs = Some x \<Longrightarrow> flt_nonneg x"
  by (auto simp: cgroups_max_processor_time_def run_simps flt_div_nonneg float_of_nat_nonneg)

lemma active_bounded:
  assumes "platform_reachable (kernel_contract U) st" "kernel_contract U fs" "get_active fs st = Some (ps, st')"
  shows "length ps < 2 ^ 53"
proof -
  have "masks_ok U st'" "cached_active st' = Some ps"
    using space_active[OF assms(3,2) space_reachable[OF assms(1)]] by (auto simp: space_ok_def)
  then have d: "distinct (map pi_id ps)" by (auto simp: masks_ok_def distinct_map_filter)
  have "length (map pi_id ps) \<le> unat (- 1 :: item) + 1"
    by (rule distinct_ids_count[OF d]) simp
  also have "\<dots> < 2 ^ 53" by (simp add: unsigned_minus_1_eq_mask mask_eq_exp_minus_1)
  finally show ?thesis by simp
qed

text \<open>The processor time the platform reports is a finite number of processors between zero and the number of
  processors it reports, whatever the control group files say: missing, unparsable, zero or larger quotas and
  periods included.\<close>

theorem linux_processor_time_bounded:
  assumes "platform_reachable (kernel_contract U) st" "kernel_contract U fs"
    and "get_active fs st = Some (ps, st1)" "get_max_processor_time fs st = Some (t, st2)"
  shows "\<exists>q. t = Finite q \<and> 0 \<le> q \<and> q \<le> of_nat (length ps)"
proof -
  have n: "float_of_nat f64 (length ps) = Finite (of_nat (length ps))"
    using active_bounded[OF assms(1-3)] by (intro float_of_nat_exact) (simp_all add: f64_def)
  show ?thesis
  proof (cases "cgroups_max_processor_time fs")
    case None
    with assms(3,4) have "t = Finite (of_nat (length ps))" by (simp add: get_max_processor_time_def n)
    then show ?thesis by simp
  next
    case (Some x)
    with assms(3,4) have "t = flt_min (Finite (of_nat (length ps))) x" by (simp add: get_max_processor_time_def n)
    then show ?thesis using flt_min_bounded[OF cgroups_nonneg[OF Some], of "of_nat (length ps)"] by simp
  qed
qed

section \<open>Affinity\<close>

text \<open>A kernel that needs masks of at least \<open>need\<close> words refuses narrower ones as invalid.\<close>

definition kernel_affinity :: "usize \<Rightarrow> (usize \<Rightarrow> cpu_mask) \<Rightarrow> usize \<Rightarrow> int option + cpu_mask" where
  "kernel_affinity need m w = (if w < need then Inl (Some einval) else Inr (m w))"

text \<open>The widths a read can leave in the cell: none yet, or one of those on offer.\<close>

definition width_offered :: "usize \<Rightarrow> bool" where
  "width_offered w = (w = 0 \<or> w \<in> set (grow_widths affinity_attempts inline_words))"

lemma widths_on_offer:
  "(w \<in> set (grow_widths affinity_attempts inline_words)) = (\<exists>k \<le> 10. w = 16 * 2 ^ k)"
proof -
  have "set (grow_widths n v) = (\<lambda>k. v * 2 ^ k) ` {..<n}" if "v * 2 ^ n < usize_range" for n v
    using that
  proof (induction n arbitrary: v)
    case (Suc n)
    have "v * 2 \<le> v * 2 ^ Suc n" by simp
    then have "v * 2 < usize_range" using Suc.prems by linarith
    moreover have "v * 2 * 2 ^ n < usize_range" using Suc.prems by (simp add: mult.assoc)
    moreover have "(\<lambda>k. v * 2 ^ k) ` {..<Suc n} = insert v ((\<lambda>k. v * 2 * 2 ^ k) ` {..<n})"
      by (simp add: lessThan_Suc_eq_insert_0 image_image mult.assoc)
    ultimately show ?case using Suc.IH[of "v * 2"] by (simp add: affinity_growth_def)
  qed simp
  from this[of 16 11] show ?thesis
    by (auto simp: affinity_attempts_def inline_words_def usize_range_def image_iff less_Suc_eq_le)
qed

text \<open>Whatever width worked last, the search ends at one on offer that the kernel accepts, and keeps it.\<close>

lemma try_widths_offered:
  assumes "0 < n" "need \<le> 2 ^ 14" "k \<le> 10" "11 \<le> n + k" "n \<le> 11"
  shows "\<exists>j. k \<le> j \<and> j \<le> 10 \<and> need \<le> 16 * 2 ^ j \<and>
    try_widths (kernel_affinity need m) (grow_widths n (16 * 2 ^ k)) st
      = Some (m (16 * 2 ^ j), st\<lparr>affinity_words := 16 * 2 ^ j\<rparr>)"
  using assms
proof (induction n arbitrary: k)
  case (Suc n)
  show ?case
  proof (cases "16 * 2 ^ k < need")
    case False
    then show ?thesis using Suc.prems(3) by (intro exI[of _ k]) (simp add: kernel_affinity_def)
  next
    case True
    have k: "k < 10"
    proof (rule ccontr)
      assume "\<not> k < 10"
      then have "k = 10" using Suc.prems(3) by simp
      with True Suc.prems(2) show False by simp
    qed
    have "(16 * 2 ^ k * 2 :: nat) \<le> 16 * 2 ^ 10" using k power_increasing[of "Suc k" 10 "2 :: nat"] by simp
    then have less: "16 * 2 ^ k * affinity_growth < usize_range" by (simp add: affinity_growth_def usize_range_def)
    have "0 < n" using k Suc.prems(4) by simp
    then obtain j where j: "Suc k \<le> j" "j \<le> 10" "need \<le> 16 * 2 ^ j"
      "try_widths (kernel_affinity need m) (grow_widths n (16 * 2 ^ Suc k)) st
        = Some (m (16 * 2 ^ j), st\<lparr>affinity_words := 16 * 2 ^ j\<rparr>)"
      using Suc.IH[of "Suc k"] Suc.prems k by auto
    have "kernel_affinity need m (16 * 2 ^ k) = Inl (Some einval)" using True by (simp add: kernel_affinity_def)
    moreover have "16 * 2 ^ k * affinity_growth = 16 * 2 ^ Suc k" by (simp add: affinity_growth_def)
    ultimately have "try_widths (kernel_affinity need m) (grow_widths (Suc n) (16 * 2 ^ k)) st
        = try_widths (kernel_affinity need m) (grow_widths n (16 * 2 ^ Suc k)) st"
      using less by (simp only: grow_widths.simps try_widths.simps if_True sum.case refl)
    with j show ?thesis by (intro exI[of _ j] conjI) (simp_all only: Suc_leD)
  qed
qed simp

lemma affinity_found:
  assumes "width_offered (affinity_words st)" "need \<le> 2 ^ 14"
  obtains w where "need \<le> w" "w \<le> 2 ^ 14" "0 < w" "width_offered w"
    "get_current_thread_affinity (kernel_affinity need m) st = Some (m w, st\<lparr>affinity_words := w\<rparr>)"
proof -
  obtain k where k: "k \<le> 10" "(if affinity_words st = 0 then inline_words else affinity_words st) = 16 * 2 ^ k"
  proof (cases "affinity_words st = 0")
    case True
    then show ?thesis using that[of 0] by (simp add: inline_words_def)
  next
    case False
    then show ?thesis using that assms(1) by (auto simp: width_offered_def widths_on_offer)
  qed
  obtain j where j: "k \<le> j" "j \<le> 10" "need \<le> 16 * 2 ^ j"
    "try_widths (kernel_affinity need m) (grow_widths 11 (16 * 2 ^ k)) st
      = Some (m (16 * 2 ^ j), st\<lparr>affinity_words := 16 * 2 ^ j\<rparr>)"
    using try_widths_offered[of 11 need k m st] k(1) assms(2) by auto
  have "(16 * 2 ^ j :: nat) \<le> 2 ^ 14" using power_increasing[OF j(2), of "2 :: nat"] by simp
  moreover have "width_offered (16 * 2 ^ j)" using j(2) by (auto simp: width_offered_def widths_on_offer)
  moreover have "get_current_thread_affinity (kernel_affinity need m) st
      = Some (m (16 * 2 ^ j), st\<lparr>affinity_words := 16 * 2 ^ j\<rparr>)"
    using j(4) k(2) by (simp add: get_current_thread_affinity_def affinity_mask_widths_def affinity_attempts_def)
  ultimately show ?thesis using j(3) that by simp
qed

text \<open>A kernel that accepts the width that worked last is asked for no other.\<close>

lemma affinity_again:
  assumes "0 < affinity_words st" "getaffinity (affinity_words st) = Inr m"
  shows "get_current_thread_affinity getaffinity st = Some (m, st)"
proof -
  obtain ws where "affinity_mask_widths st = affinity_words st # ws"
    using assms(1) by (simp add: affinity_mask_widths_def affinity_attempts_def numeral_eq_Suc)
  then show ?thesis using assms(2) by (simp add: get_current_thread_affinity_def)
qed

lemma get_possible_ids_width: "get_possible_ids fs st = (v, st') \<Longrightarrow> affinity_words st' = affinity_words st"
  by (auto simp: get_possible_ids_def Let_def split: option.splits)

lemma get_online_ids_width: "get_online_ids fs st = (v, st') \<Longrightarrow> affinity_words st' = affinity_words st"
  by (auto simp: get_online_ids_def Let_def split: option.splits)

lemma get_possible_regions_width: "get_possible_regions fs st = (v, st') \<Longrightarrow> affinity_words st' = affinity_words st"
  by (auto simp: get_possible_regions_def Let_def split: option.splits)

lemma get_all_impl_width: "get_all_impl fs st = Some (v, st') \<Longrightarrow> affinity_words st' = affinity_words st"
  using get_possible_regions_width[of fs st]
  by (cases "get_possible_regions fs st")
    (auto simp: get_all_impl_def load_all_processors_def run_simps Let_def split: option.splits)

lemma max_processor_again:
  "get_max_processor fs st = Some (m, st1) \<Longrightarrow> get_max_processor fs' (st1\<lparr>affinity_words := w\<rparr>)
    = Some (m, st1\<lparr>affinity_words := w\<rparr>) \<and> affinity_words st1 = affinity_words st"
proof -
  assume r: "get_max_processor fs st = Some (m, st1)"
  have "cached_max_processor st1 = Some m \<and> affinity_words st1 = affinity_words st"
    using r get_possible_ids_width[of fs st] get_online_ids_width[of fs] get_all_impl_width[of fs]
    by (fastforce simp: get_max_processor_def run_simps Let_def split: option.splits prod.splits)
  then show ?thesis by (simp add: get_max_processor_def)
qed

text \<open>What the kernel kept of the mask of \<open>ps\<close> reads back as their identifiers.\<close>

lemma pinned_mask_reads:
  assumes "\<And>p. mask_contains p a = mask_contains p (pin_mask ps)" "length (mask_words a) \<le> 2 ^ 14"
  shows "mask_processor_ids a = Some (sorted_list_of_set (pi_id ` set ps))"
proof -
  have "mask_bit a n \<Longrightarrow> n < 2 ^ 32" for n using mask_bit_width[of a n] assms(2) by simp
  moreover have "{p. mask_contains p a} = pi_id ` set ps"
  proof -
    have "pin_mask ps = fold mask_insert (map pi_id ps) mask_new" by (simp add: pin_mask_def fold_map comp_def)
    then show ?thesis unfolding assms(1)
      by (auto simp: mask_contains_bit mask_insert_all_bit mask_new_bit dest: unsigned_word_eqI)
  qed
  ultimately show ?thesis by (subst mask_processor_ids_set) auto
qed

text \<open>C34: After pinning the current thread to processors of the machine, with a kernel that keeps the mask it was given
  and demands masks of some width of at most \<open>2 ^ 14\<close> words (\<open>2 ^ 20\<close> processors), the platform reports exactly
  those processors, in ascending order, whether no width was ever accepted before or any width it offers was. It keeps the
  width the kernel accepted, again one it offers, and a further read asks the kernel for that width only: whenever the
  kernel answers it with the same mask, the same processors are reported, nothing else changes, and no file is read.\<close>

theorem linux_pin_roundtrip:
  assumes "ps \<noteq> []" "get_max_processor fs st = Some (m, st1)" "\<And>p. p \<in> set ps \<Longrightarrow> pi_id p \<le> m"
    and "width_offered (affinity_words st)" "need \<le> 2 ^ 14"
    and "\<And>w. need \<le> w \<Longrightarrow> length (mask_words (answer w)) = w"
    and "\<And>w p. need \<le> w \<Longrightarrow> mask_contains p (answer w) = mask_contains p (pin_mask ps)"
  shows "\<exists>st2 w. current_thread_processors fs (kernel_affinity need answer) st
      = Some (sorted_list_of_set (pi_id ` set ps), st2)
    \<and> st2 = st1\<lparr>affinity_words := w\<rparr> \<and> need \<le> w \<and> 0 < w \<and> width_offered w
    \<and> (\<forall>fs' getaffinity. getaffinity w = Inr (answer w) \<longrightarrow>
        current_thread_processors fs' getaffinity st2 = Some (sorted_list_of_set (pi_id ` set ps), st2))"
proof -
  note again = max_processor_again[OF assms(2)]
  have "width_offered (affinity_words st1)" using assms(4) again by simp
  then obtain w where w: "need \<le> w" "w \<le> 2 ^ 14" "0 < w" "width_offered w"
    and found: "get_current_thread_affinity (kernel_affinity need answer) st1 = Some (answer w, st1\<lparr>affinity_words := w\<rparr>)"
    using affinity_found[OF _ assms(5)] by blast
  have ids: "mask_processor_ids (answer w) = Some (sorted_list_of_set (pi_id ` set ps))"
    using pinned_mask_reads[of "answer w" ps] assms(6,7)[OF w(1)] w(2) by simp
  have own: "filter (\<lambda>i. i \<le> m) (sorted_list_of_set (pi_id ` set ps)) = sorted_list_of_set (pi_id ` set ps)"
    using assms(3) by (auto simp: filter_id_conv)
  have some: "sorted_list_of_set (pi_id ` set ps) \<noteq> []" using assms(1) by simp
  have "current_thread_processors fs (kernel_affinity need answer) st
      = Some (sorted_list_of_set (pi_id ` set ps), st1\<lparr>affinity_words := w\<rparr>)"
    using assms(2) found ids own some by (simp add: current_thread_processors_def non_empty_def)
  moreover have "current_thread_processors fs' getaffinity (st1\<lparr>affinity_words := w\<rparr>)
      = Some (sorted_list_of_set (pi_id ` set ps), st1\<lparr>affinity_words := w\<rparr>)"
    if "getaffinity w = Inr (answer w)" for fs' getaffinity
    using affinity_again[of "st1\<lparr>affinity_words := w\<rparr>" getaffinity] that w(3) again ids own some
    by (simp add: current_thread_processors_def non_empty_def)
  ultimately show ?thesis using w by blast
qed

section \<open>A machine\<close>

text \<open>Two processors in two memory regions, with a quota of one processor: the point at which the properties are applied.\<close>

definition demo_fs :: filesystem where
  "demo_fs = \<lparr>fs_cpuinfo = ''processor:0'' @ [newline, newline] @ ''processor:1'',
     fs_possible_cpus = Some ''0-1'', fs_online_cpus = Some ''0-1'', fs_possible_nodes = Some ''0-1'',
     fs_node_cpulist = (\<lambda>n. if n = 1 then Some ''1'' else None), fs_cpu_online = (\<lambda>i. None),
     fs_self_status = ''Cpus_allowed_list:0-1'',
     fs_self_cgroup = Some ''0::/demo'', fs_v2_quota = (\<lambda>n. Some ''10 10''),
     fs_v1_quota = (\<lambda>n. None), fs_v1_period = (\<lambda>n. None)\<rparr>"

definition demo_fs_processor :: "item \<Rightarrow> processor_impl" where
  "demo_fs_processor i = \<lparr>pi_id = i, pi_region = i, pi_class = Performance, pi_speed = undetermined_speed,
     pi_model = None, pi_active = True\<rparr>"

lemma demo_fs_texts:
  "parse_kernel_id_list (Some ''0-1'') = Some [0, 1]"
  "get_cpuinfo (''processor:0'' @ [newline, newline] @ ''processor:1'')
   = Some [\<lparr>info_index = 0, info_bogomips = None, info_model = None\<rparr>,
           \<lparr>info_index = 1, info_bogomips = None, info_model = None\<rparr>]"
  "get_processors_allowed ''Cpus_allowed_list:0-1'' = Some [0, 1]"
  "parse_ids (trim ''1'') = Some [1]"
  "parse_cgroup_name ''0::/demo'' = Some ''/demo''"
  "parse_v2_quota ''10 10'' = Some (10, 10)"
  by code_simp+

lemma demo_fs_active:
  "get_active demo_fs platform_new = Some ([demo_fs_processor 0, demo_fs_processor 1],
     platform_new\<lparr>cached_regions := Some (Some [0, 1]), cached_all := Some [demo_fs_processor 0, demo_fs_processor 1],
       cached_active := Some [demo_fs_processor 0, demo_fs_processor 1]\<rparr>)"
  using demo_fs_texts
  by (simp add: get_active_def get_all_impl_def load_all_processors_def platform_new_def demo_fs_def
      get_possible_regions_def get_numa_nodes_def non_empty_def Let_def max_bogomips_def List.map_filter_def
      describe_processor_def region_of_def slower_than_def is_online_def demo_fs_processor_def single_region_def)

lemma demo_fs_contract: "kernel_contract {0, 1} demo_fs"
  using demo_fs_texts by (simp add: kernel_contract_def demo_fs_def)

lemma demo_fs_reachable: "platform_reachable (kernel_contract {0, 1}) platform_new"
  by (rule platform_reachable.new)

theorem linux_regions_in_space_witness: "pi_region (demo_fs_processor 1) \<le> (1 :: item)"
proof (rule linux_regions_in_space[OF demo_fs_reachable demo_fs_active])
  let ?st = "platform_new\<lparr>cached_regions := Some (Some [0, 1]), cached_all := Some [demo_fs_processor 0, demo_fs_processor 1],
       cached_active := Some [demo_fs_processor 0, demo_fs_processor 1]\<rparr>"
  show "get_max_region demo_fs ?st = (1, ?st\<lparr>cached_max_region := Some 1\<rparr>)"
    by (simp add: get_max_region_def get_possible_regions_def region_space_def list_max_def platform_new_def)
qed simp

theorem linux_count_in_space_witness: "(2 :: usize) \<le> unat (1 :: item) + 1"
proof (rule linux_count_in_space[OF demo_fs_reachable demo_fs_contract demo_fs_contract])
  let ?st = "platform_new\<lparr>cached_possible := Some (Some [0, 1]), cached_max_processor := Some 1\<rparr>"
  show "get_max_processor demo_fs platform_new = Some (1, ?st)"
    using demo_fs_texts(1) by (simp add: get_max_processor_def get_possible_ids_def demo_fs_def platform_new_def list_max_def Let_def)
  show "get_active_count demo_fs ?st = Some (2, ?st\<lparr>cached_online := Some (Some [0, 1]), cached_count := Some 2\<rparr>)"
    using demo_fs_texts(1) by (simp add: get_active_count_def get_online_ids_def demo_fs_def platform_new_def Let_def)
qed

theorem linux_processor_time_bounded_witness: "\<exists>q. Finite 1 = Finite q \<and> 0 \<le> q \<and> q \<le> of_nat (length [demo_fs_processor 0, demo_fs_processor 1])"
proof (rule linux_processor_time_bounded[OF demo_fs_reachable demo_fs_contract demo_fs_active])
  let ?st = "platform_new\<lparr>cached_regions := Some (Some [0, 1]), cached_all := Some [demo_fs_processor 0, demo_fs_processor 1],
       cached_active := Some [demo_fs_processor 0, demo_fs_processor 1]\<rparr>"
  have f: "float_of_nat f64 n = Finite (of_nat n)" if "n < 100" for n
    using that by (intro float_of_nat_exact) (simp_all add: f64_def)
  have r: "round_to f64 1 = Finite 1" using f[of 1] by (simp add: float_of_nat_def)
  have "cgroups_max_processor_time demo_fs = Some (Finite 1)"
    using demo_fs_texts(5,6) by (simp add: cgroups_max_processor_time_def cgroup_quota_def demo_fs_def f flt_div_def r)
  then show "get_max_processor_time demo_fs platform_new = Some (Finite 1, ?st)"
    by (simp add: get_max_processor_time_def demo_fs_active f flt_min_def)
qed

theorem linux_pin_roundtrip_witness:
  "\<exists>st2 w. current_thread_processors demo_fs (kernel_affinity 20 (\<lambda>w. mask_insert 1 (mask_with_words w))) platform_new
      = Some (sorted_list_of_set (pi_id ` set [demo_fs_processor 1]), st2)
    \<and> st2 = (platform_new\<lparr>cached_possible := Some (Some [0, 1]), cached_max_processor := Some 1\<rparr>)\<lparr>affinity_words := w\<rparr>
    \<and> 20 \<le> w \<and> 0 < w \<and> width_offered w
    \<and> (\<forall>fs' getaffinity. getaffinity w = Inr (mask_insert 1 (mask_with_words w)) \<longrightarrow>
        current_thread_processors fs' getaffinity st2 = Some (sorted_list_of_set (pi_id ` set [demo_fs_processor 1]), st2))"
proof (rule linux_pin_roundtrip)
  let ?st = "platform_new\<lparr>cached_possible := Some (Some [0, 1]), cached_max_processor := Some 1\<rparr>"
  show "get_max_processor demo_fs platform_new = Some (1, ?st)"
    using demo_fs_texts(1) by (simp add: get_max_processor_def get_possible_ids_def demo_fs_def platform_new_def
        list_max_def Let_def)
  show "width_offered (affinity_words platform_new)" by (simp add: platform_new_def width_offered_def)
  show "length (mask_words (mask_insert 1 (mask_with_words w))) = w" if "20 \<le> w" for w
    using that by (simp add: mask_insert_def mask_with_words_def Let_def)
  have none: "\<not> mask_bit (mask_with_words w) n" for w n
    by (auto simp: mask_bit_def mask_word_def mask_with_words_def)
  show "mask_contains p (mask_insert 1 (mask_with_words w)) = mask_contains p (pin_mask [demo_fs_processor 1])"
    if "20 \<le> w" for w p
    by (simp add: pin_mask_def mask_contains_bit mask_insert_bit mask_new_def none demo_fs_processor_def)
qed (simp_all add: demo_fs_processor_def)

end
