(* ===== verification/ProcessorSets.thy ===== *)
theory ProcessorSets
  imports LinuxPlatform "HOL-Library.Multiset"
begin

text \<open>
  \<open>many_cpus_impl/src/processor_set_builder.rs\<close>: selecting processors by type, memory region, exclusions and
  quota. The random choices of the \<open>rand\<close> crate are a parameter: the n-th draw picks an index, a number of
  distinct indices or an order, as \<open>rng_ok\<close> says that crate documents; the iteration order of a hash map is drawn
  the same way. A selection that does not exist is the \<open>None\<close> the code returns, inside the \<open>option\<close> of a run that
  may panic. Hardware is what the platform answers: processors, processor time, processors of the current thread.
\<close>

section \<open>Processors and hardware\<close>

record processor =
  p_hardware :: nat
  p_inner :: processor_impl

definition p_id :: "processor \<Rightarrow> item" where
  "p_id p = pi_id (p_inner p)"

definition p_region :: "processor \<Rightarrow> item" where
  "p_region p = pi_region (p_inner p)"

definition p_class :: "processor \<Rightarrow> efficiency_class" where
  "p_class p = pi_class (p_inner p)"

record platform_answers =
  hw_id :: nat
  hw_processors :: "processor_impl list"
  hw_time :: flt
  hw_thread :: "item list"

section \<open>Random choices\<close>

record rng =
  pick_index :: "nat \<Rightarrow> nat \<Rightarrow> nat"
  pick_indices :: "nat \<Rightarrow> nat \<Rightarrow> nat \<Rightarrow> nat list"
  pick_order :: "nat \<Rightarrow> nat \<Rightarrow> nat list"

definition rng_ok :: "rng \<Rightarrow> bool" where
  "rng_ok r =
    ((\<forall>k n. 0 < n \<longrightarrow> pick_index r k n < n) \<and>
     (\<forall>k n a. distinct (pick_indices r k n a) \<and> length (pick_indices r k n a) = min a n \<and>
        list_all (\<lambda>i. i < n) (pick_indices r k n a)) \<and>
     (\<forall>k n. distinct (pick_order r k n) \<and> length (pick_order r k n) = n \<and>
        list_all (\<lambda>i. i < n) (pick_order r k n)))"

text \<open>\<open>choose\<close>, \<open>sample\<close> and \<open>shuffle\<close>, the \<open>k\<close>-th draw.\<close>

definition rand_choose :: "rng \<Rightarrow> nat \<Rightarrow> 'a list \<Rightarrow> 'a option" where
  "rand_choose r k xs = (if xs = [] then None else Some (xs ! pick_index r k (length xs)))"

definition rand_sample :: "rng \<Rightarrow> nat \<Rightarrow> 'a list \<Rightarrow> nat \<Rightarrow> 'a list" where
  "rand_sample r k xs a = map ((!) xs) (pick_indices r k (length xs) a)"

definition rand_shuffle :: "rng \<Rightarrow> nat \<Rightarrow> 'a list \<Rightarrow> 'a list" where
  "rand_shuffle r k xs = map ((!) xs) (pick_order r k (length xs))"

section \<open>The builder\<close>

datatype region_selector = Any_region | Require_same | Require_different | Prefer_same | Prefer_different

datatype type_selector = Any_type | Performance_only | Efficiency_only

record builder =
  type_sel :: type_selector
  region_sel :: region_selector
  except_ids :: "item list"
  obey_quota :: bool
  source_ids :: "item list option"

definition with_internals :: builder where
  "with_internals = \<lparr>type_sel = Any_type, region_sel = Any_region, except_ids = [], obey_quota = False,
     source_ids = None\<rparr>"

definition source_processors :: "processor list \<Rightarrow> builder \<Rightarrow> builder" where
  "source_processors ps b = b\<lparr>source_ids := Some (map p_id ps)\<rparr>"

definition performance_processors_only :: "builder \<Rightarrow> builder" where
  "performance_processors_only b = b\<lparr>type_sel := Performance_only\<rparr>"

definition efficiency_processors_only :: "builder \<Rightarrow> builder" where
  "efficiency_processors_only b = b\<lparr>type_sel := Efficiency_only\<rparr>"

definition different_memory_regions :: "builder \<Rightarrow> builder" where
  "different_memory_regions b = b\<lparr>region_sel := Require_different\<rparr>"

definition same_memory_region :: "builder \<Rightarrow> builder" where
  "same_memory_region b = b\<lparr>region_sel := Require_same\<rparr>"

definition prefer_different_memory_regions :: "builder \<Rightarrow> builder" where
  "prefer_different_memory_regions b = b\<lparr>region_sel := Prefer_different\<rparr>"

definition prefer_same_memory_region :: "builder \<Rightarrow> builder" where
  "prefer_same_memory_region b = b\<lparr>region_sel := Prefer_same\<rparr>"

definition enforce_resource_quota :: "builder \<Rightarrow> builder" where
  "enforce_resource_quota b = b\<lparr>obey_quota := True\<rparr>"

definition every_processor :: "platform_answers \<Rightarrow> processor list" where
  "every_processor hw = map (\<lambda>i. \<lparr>p_hardware = hw_id hw, p_inner = i\<rparr>) (hw_processors hw)"

definition candidate_processors :: "platform_answers \<Rightarrow> builder \<Rightarrow> processor list" where
  "candidate_processors hw b = (case source_ids b of
      Some ids \<Rightarrow> filter (\<lambda>p. p_id p \<in> set ids) (every_processor hw)
    | None \<Rightarrow> every_processor hw)"

definition filter_processors :: "platform_answers \<Rightarrow> (processor \<Rightarrow> bool) \<Rightarrow> builder \<Rightarrow> builder" where
  "filter_processors hw pred b =
    b\<lparr>except_ids := map p_id (filter (\<lambda>p. \<not> pred p) (candidate_processors hw b)) @ except_ids b\<rparr>"

definition except_processors :: "processor list \<Rightarrow> builder \<Rightarrow> builder" where
  "except_processors ps b = b\<lparr>except_ids := map p_id ps @ except_ids b\<rparr>"

definition where_available_for_current_thread :: "platform_answers \<Rightarrow> builder \<Rightarrow> builder" where
  "where_available_for_current_thread hw b =
    b\<lparr>except_ids := map p_id (filter (\<lambda>p. p_id p \<notin> set (hw_thread hw)) (candidate_processors hw b))
       @ except_ids b\<rparr>"

section \<open>Candidates\<close>

definition acceptable_type :: "type_selector \<Rightarrow> processor \<Rightarrow> bool" where
  "acceptable_type t p = (case t of
      Any_type \<Rightarrow> True
    | Performance_only \<Rightarrow> p_class p = Performance
    | Efficiency_only \<Rightarrow> p_class p = Efficiency)"

definition acceptable :: "builder \<Rightarrow> processor \<Rightarrow> bool" where
  "acceptable b p = (p_id p \<notin> set (except_ids b) \<and> acceptable_type (type_sel b) p)"

type_synonym candidates = "(item \<times> processor list) list"

fun push_candidate :: "processor \<Rightarrow> candidates \<Rightarrow> candidates" where
  "push_candidate p [] = [(p_region p, [p])]"
| "push_candidate p ((r, ps) # cs) =
    (if r = p_region p then (r, ps @ [p]) # cs else (r, ps) # push_candidate p cs)"

text \<open>The candidates by region, in the order the hash map happens to iterate.\<close>

definition candidates_by_memory_region :: "rng \<Rightarrow> platform_answers \<Rightarrow> builder \<Rightarrow> candidates" where
  "candidates_by_memory_region r hw b =
    rand_shuffle r 0 (fold push_candidate (filter (acceptable b) (candidate_processors hw b)) [])"

definition quota_limit :: "platform_answers \<Rightarrow> builder \<Rightarrow> usize option" where
  "quota_limit hw b =
    (if obey_quota b then Some (max (flt_to_unsigned 64 (flt_floor (hw_time hw))) 1) else None)"

section \<open>Taking a number of processors\<close>

definition all_candidates :: "candidates \<Rightarrow> processor list" where
  "all_candidates cs = concat (map snd cs)"

definition take_any :: "rng \<Rightarrow> candidates \<Rightarrow> usize \<Rightarrow> processor list option" where
  "take_any r cs n = (if length (all_candidates cs) < n then None
     else Some (rand_sample r 1 (all_candidates cs) n))"

fun fill_from_regions ::
    "rng \<Rightarrow> nat \<Rightarrow> candidates \<Rightarrow> item list \<Rightarrow> usize \<Rightarrow> processor list \<Rightarrow> processor list option option" where
  "fill_from_regions r k cs [] n acc = (if length acc < n then Some None else Some (Some acc))"
| "fill_from_regions r k cs (region # regions) n acc =
    (if length acc < n then do {
       ps \<leftarrow> map_of cs region;
       fill_from_regions r (Suc k) cs regions n (acc @ rand_sample r k ps (min n (length ps)))
     } else Some (Some acc))"

definition take_prefer_same :: "rng \<Rightarrow> candidates \<Rightarrow> usize \<Rightarrow> processor list option option" where
  "take_prefer_same r cs n =
    (let shuffled = rand_shuffle r 1 (map fst cs);
         sorted = sort_key (\<lambda>region. min (length (the (map_of cs region))) n) shuffled
     in fill_from_regions r 2 cs (rev sorted) n [])"

definition take_require_same :: "rng \<Rightarrow> candidates \<Rightarrow> usize \<Rightarrow> processor list option option" where
  "take_require_same r cs n =
    (case rand_choose r 1 (map fst (filter (\<lambda>(region, ps). \<not> length ps < n) cs)) of
       None \<Rightarrow> Some None
     | Some region \<Rightarrow> do {
         ps \<leftarrow> map_of cs region;
         Some (Some (rand_sample r 2 ps n))
       })"

text \<open>One pass over the regions, a processor from each until there are enough; then passes while some are missing.\<close>

definition remove_at :: "nat \<Rightarrow> 'a list \<Rightarrow> 'a list" where
  "remove_at i xs = take i xs @ drop (Suc i) xs"

fun spread_pass ::
    "rng \<Rightarrow> nat \<Rightarrow> candidates \<Rightarrow> usize \<Rightarrow> processor list \<Rightarrow> (candidates \<times> processor list \<times> nat) option" where
  "spread_pass r k [] n acc = Some ([], acc, k)"
| "spread_pass r k ((region, ps) # cs) n acc =
    (if ps = [] then None
     else let i = pick_index r k (length ps); acc' = acc @ [ps ! i]; ps' = remove_at i ps in
       if length acc' = n then Some ((region, ps') # cs, acc', Suc k)
       else map_option (\<lambda>(cs', acc'', k'). ((region, ps') # cs', acc'', k')) (spread_pass r (Suc k) cs n acc'))"

lemma spread_pass_length:
  "spread_pass r k cs n acc = Some (cs', acc', k') \<Longrightarrow> length acc \<le> length acc' \<and> (cs \<noteq> [] \<longrightarrow> length acc < length acc')"
  by (induction r k cs n acc arbitrary: cs' acc' k' rule: spread_pass.induct)
    (fastforce simp: Let_def split: if_splits)+

function spread_loop :: "rng \<Rightarrow> nat \<Rightarrow> candidates \<Rightarrow> usize \<Rightarrow> processor list \<Rightarrow> processor list option" where
  "spread_loop r k cs n acc =
    (if length acc < n then
       (if cs = [] then None
        else case spread_pass r k cs n acc of
           None \<Rightarrow> None
         | Some (cs', acc', k') \<Rightarrow> spread_loop r k' (filter (\<lambda>(region, ps). ps \<noteq> []) cs') n acc')
     else Some acc)"
  by pat_completeness auto
termination
  by (relation "measure (\<lambda>(r, k, cs, n, acc). n - length acc)") (auto dest!: spread_pass_length)

declare spread_loop.simps [simp del]

definition take_require_different :: "rng \<Rightarrow> candidates \<Rightarrow> usize \<Rightarrow> processor list option option" where
  "take_require_different r cs n =
    (if length cs < n then Some None
     else map_option Some (those (map (\<lambda>(k, region, ps). rand_choose r k ps)
       (enumerate 2 (rand_sample r 1 cs n)))))"

definition take_processors :: "rng \<Rightarrow> platform_answers \<Rightarrow> builder \<Rightarrow> usize \<Rightarrow> processor list option option" where
  "take_processors r hw b n =
    (if (case quota_limit hw b of Some limit \<Rightarrow> n > limit | None \<Rightarrow> False) then Some None
     else let cs = candidates_by_memory_region r hw b in
       if cs = [] then Some None
       else map_option (\<lambda>found. found \<bind> non_empty)
         (case region_sel b of
            Any_region \<Rightarrow> Some (take_any r cs n)
          | Prefer_same \<Rightarrow> take_prefer_same r cs n
          | Require_same \<Rightarrow> take_require_same r cs n
          | Prefer_different \<Rightarrow> Some (spread_loop r 1 cs n [])
          | Require_different \<Rightarrow> take_require_different r cs n))"

section \<open>Taking all processors\<close>

fun pop_until :: "usize \<Rightarrow> processor list \<Rightarrow> processor list" where
  "pop_until limit ps = (if limit < length ps then pop_until limit (butlast ps) else ps)"

declare pop_until.simps [simp del]

definition reduce_until_under_quota :: "platform_answers \<Rightarrow> builder \<Rightarrow> processor list \<Rightarrow> processor list" where
  "reduce_until_under_quota hw b ps =
    (case quota_limit hw b of None \<Rightarrow> ps | Some limit \<Rightarrow> pop_until limit ps)"

definition take_all :: "rng \<Rightarrow> platform_answers \<Rightarrow> builder \<Rightarrow> processor list option option" where
  "take_all r hw b =
    (let cs = candidates_by_memory_region r hw b in
     if cs = [] then Some None
     else map_option (\<lambda>ps. non_empty (reduce_until_under_quota hw b ps))
       (case region_sel b of
          Require_same \<Rightarrow> rand_choose r 1 (map fst cs) \<bind> map_of cs
        | Require_different \<Rightarrow> those (map (\<lambda>(k, region, ps). rand_choose r k ps) (enumerate 1 cs))
        | _ \<Rightarrow> Some (all_candidates cs)))"

definition take_exact :: "rng \<Rightarrow> platform_answers \<Rightarrow> builder \<Rightarrow> processor list \<Rightarrow> processor list option" where
  "take_exact r hw b ps = do {
     require (list_all (\<lambda>p. p_id p \<in> p_id ` set (all_candidates (candidates_by_memory_region r hw b))) ps);
     Some ps
   }"

end
