(* ===== verification/ProcessorSelect.thy ===== *)
theory ProcessorSelect
  imports ProcessorSets
begin

text \<open>
  What a selection of processors guarantees, for any random choices: which processors it may contain, how many, in
  which regions, when it exists, and that none of the unwraps in the code can fail. Lists are compared as multisets,
  since neither the hash map nor the random choices promise an order.
\<close>

section \<open>Random choices as sublists\<close>

lemma mset_nth_subset:
  "distinct is \<Longrightarrow> list_all (\<lambda>i. i < length xs) is \<Longrightarrow> mset (map ((!) xs) is) \<subseteq># mset xs"
proof -
  assume d: "distinct is" and lt: "list_all (\<lambda>i. i < length xs) is"
  have "mset is \<subseteq># mset [0..<length xs]"
    using d lt by (auto simp: mset_set_set[symmetric] list_all_iff intro!: subset_imp_msubset_mset_set)
  then have "image_mset ((!) xs) (mset is) \<subseteq># image_mset ((!) xs) (mset [0..<length xs])"
    by (rule image_mset_subseteq_mono)
  moreover have "image_mset ((!) xs) (mset [0..<length xs]) = mset xs"
    by (metis map_nth mset_map)
  ultimately show ?thesis by simp
qed

lemma rand_sample_subset: "rng_ok r \<Longrightarrow> mset (rand_sample r k xs a) \<subseteq># mset xs"
  unfolding rand_sample_def by (rule mset_nth_subset) (simp_all add: rng_ok_def)

lemma length_rand_sample: "rng_ok r \<Longrightarrow> length (rand_sample r k xs a) = min a (length xs)"
  by (simp add: rand_sample_def rng_ok_def)

lemma mset_rand_shuffle: "rng_ok r \<Longrightarrow> mset (rand_shuffle r k xs) = mset xs"
proof -
  assume ok: "rng_ok r"
  have "mset (rand_shuffle r k xs) \<subseteq># mset xs"
    unfolding rand_shuffle_def by (rule mset_nth_subset) (use ok in \<open>simp_all add: rng_ok_def\<close>)
  moreover have "size (mset (rand_shuffle r k xs)) = size (mset xs)" using ok by (simp add: rand_shuffle_def rng_ok_def)
  ultimately show ?thesis by (metis mset_subset_size nless_le subset_mset.le_neq_trans)
qed

lemma rand_choose_cases:
  assumes "rng_ok r"
  shows "rand_choose r k xs = None \<and> xs = [] \<or> (\<exists>x. rand_choose r k xs = Some x \<and> x \<in> set xs)"
  using assms by (auto simp: rand_choose_def rng_ok_def)

section \<open>Candidates\<close>

definition eligible :: "platform_answers \<Rightarrow> builder \<Rightarrow> processor list" where
  "eligible hw b = filter (acceptable b) (candidate_processors hw b)"

definition grouped :: "candidates \<Rightarrow> bool" where
  "grouped cs = (distinct (map fst cs) \<and>
     (\<forall>(region, ps) \<in> set cs. ps \<noteq> [] \<and> (\<forall>p \<in> set ps. p_region p = region)))"

lemma push_candidate_keys: "fst ` set (push_candidate p cs) = insert (p_region p) (fst ` set cs)"
  by (induction p cs rule: push_candidate.induct) auto

lemma push_candidate_grouped: "grouped cs \<Longrightarrow> grouped (push_candidate p cs)"
proof (induction p cs rule: push_candidate.induct)
  case (2 p region ps cs)
  then show ?case using push_candidate_keys[of p cs]
    by (auto simp: grouped_def)
qed (simp add: grouped_def)

lemma push_candidate_all: "mset (all_candidates (push_candidate p cs)) = add_mset p (mset (all_candidates cs))"
  by (induction p cs rule: push_candidate.induct) (auto simp: all_candidates_def)

lemma grouped_mset: "mset cs = mset cs' \<Longrightarrow> grouped cs = grouped cs'"
proof -
  assume m: "mset cs = mset cs'"
  then have "distinct (map fst cs) = distinct (map fst cs')" by (intro mset_eq_imp_distinct_iff) simp
  then show ?thesis using mset_eq_setD[OF m] by (simp add: grouped_def)
qed

lemma all_candidates_mset: "mset (all_candidates cs) = (\<Sum>(region, ps) \<in># mset cs. mset ps)"
  by (induction cs) (auto simp: all_candidates_def)

lemma candidates_grouped:
  assumes "rng_ok r"
  shows "grouped (candidates_by_memory_region r hw b)"
    "mset (all_candidates (candidates_by_memory_region r hw b)) = mset (eligible hw b)"
proof -
  let ?cs = "fold push_candidate (eligible hw b) []"
  have f: "grouped (fold push_candidate ps cs) \<and>
      mset (all_candidates (fold push_candidate ps cs)) = mset ps + mset (all_candidates cs)" if "grouped cs" for ps cs
    using that by (induction ps arbitrary: cs) (simp_all add: push_candidate_grouped push_candidate_all)
  have m: "mset (candidates_by_memory_region r hw b) = mset ?cs"
    using mset_rand_shuffle[OF assms] by (simp add: candidates_by_memory_region_def eligible_def)
  show "grouped (candidates_by_memory_region r hw b)"
    using grouped_mset[OF m] f[of "[]" "eligible hw b"] by (simp add: grouped_def)
  show "mset (all_candidates (candidates_by_memory_region r hw b)) = mset (eligible hw b)"
    using f[of "[]" "eligible hw b"] by (simp add: all_candidates_mset m) (simp add: all_candidates_def grouped_def
        all_candidates_mset[symmetric])
qed

text \<open>A region of grouped candidates holds exactly the candidates of that region.\<close>

lemma grouped_map_of: "grouped cs \<Longrightarrow> region \<in> fst ` set cs \<Longrightarrow> \<exists>ps. map_of cs region = Some ps \<and> (region, ps) \<in> set cs"
  by (metis map_of_SomeD option.exhaust map_of_eq_None_iff)

lemma region_mset:
  "grouped cs \<Longrightarrow> (region, ps) \<in> set cs \<Longrightarrow> mset ps = filter_mset (\<lambda>p. p_region p = region) (mset (all_candidates cs))"
proof (induction cs)
  case (Cons c cs)
  obtain r qs where c: "c = (r, qs)" by fastforce
  have g: "grouped cs" "\<forall>p \<in> set qs. p_region p = r" "r \<notin> fst ` set cs"
    using Cons.prems(1) by (auto simp: grouped_def c)
  have other: "filter_mset (\<lambda>p. p_region p = r) (mset (all_candidates cs)) = {#}"
    using g(1,3) by (force simp: filter_mset_eq_mempty_iff all_candidates_def grouped_def)
  show ?case
  proof (cases "region = r")
    case True
    then have "ps = qs" using Cons.prems(2) g(3) by (auto simp: c) (metis fst_conv image_eqI)
    moreover have "filter_mset (\<lambda>p. p_region p = r) (mset qs) = mset qs"
      using g(2) by (auto simp: filter_mset_eq_conv)
    ultimately show ?thesis using True other by (simp add: all_candidates_def c)
  next
    case False
    then have "(region, ps) \<in> set cs" using Cons.prems(2) by (auto simp: c)
    moreover have "filter_mset (\<lambda>p. p_region p = region) (mset qs) = {#}"
      using g(2) False by (auto simp: filter_mset_eq_mempty_iff)
    ultimately show ?thesis using Cons.IH g(1) by (simp add: all_candidates_def c)
  qed
qed simp

lemma grouped_regions: "grouped cs \<Longrightarrow> fst ` set cs = p_region ` set (all_candidates cs)"
proof
  assume g: "grouped cs"
  show "fst ` set cs \<subseteq> p_region ` set (all_candidates cs)"
  proof
    fix region assume "region \<in> fst ` set cs"
    then obtain ps where c: "(region, ps) \<in> set cs" by auto
    then have "ps \<noteq> []" "\<forall>p \<in> set ps. p_region p = region" using g by (auto simp: grouped_def)
    with c show "region \<in> p_region ` set (all_candidates cs)"
      by (force simp: all_candidates_def neq_Nil_conv)
  qed
  show "p_region ` set (all_candidates cs) \<subseteq> fst ` set cs"
    using g by (force simp: all_candidates_def grouped_def)
qed

lemma length_grouped: "grouped cs \<Longrightarrow> length cs = card (p_region ` set (all_candidates cs))"
  using grouped_regions distinct_card[of "map fst cs"] by (auto simp: grouped_def)

lemma grouped_sublist: "grouped cs \<Longrightarrow> mset cs' \<subseteq># mset cs \<Longrightarrow> grouped cs'"
proof -
  assume g: "grouped cs" and s: "mset cs' \<subseteq># mset cs"
  obtain zs where "mset cs = mset (cs' @ zs)"
    using s by (metis ex_mset mset_append mset_subset_eq_exists_conv)
  then have "grouped (cs' @ zs)" using grouped_mset g by blast
  then have "distinct (map fst cs')" by (simp add: grouped_def)
  with g s show ?thesis using set_mset_mono[OF s] by (fastforce simp: grouped_def)
qed

section \<open>The modes of selection\<close>

text \<open>No selection of \<open>n\<close> processors gets by with fewer regions.\<close>

definition fewest_regions :: "usize \<Rightarrow> processor list \<Rightarrow> processor list \<Rightarrow> bool" where
  "fewest_regions n xs ps = (\<forall>qs. mset qs \<subseteq># mset xs \<and> n \<le> length qs \<longrightarrow>
     card (p_region ` set ps) \<le> card (p_region ` set qs))"

text \<open>The number of processors in a region.\<close>

definition in_region :: "item \<Rightarrow> processor list \<Rightarrow> nat" where
  "in_region region xs = size (filter_mset (\<lambda>p. p_region p = region) (mset xs))"

definition selection_meets :: "region_selector \<Rightarrow> usize \<Rightarrow> processor list \<Rightarrow> processor list \<Rightarrow> bool" where
  "selection_meets sel n xs ps =
    (mset ps \<subseteq># mset xs \<and>
     (if sel = Prefer_same then n \<le> length ps \<and> length ps < 2 * n else length ps = n) \<and>
     (sel = Prefer_same \<longrightarrow> fewest_regions n xs ps \<and>
        (\<forall>p \<in> set ps. in_region (p_region p) ps = min n (in_region (p_region p) xs))) \<and>
     (sel = Require_same \<longrightarrow> (\<exists>region. \<forall>p \<in> set ps. p_region p = region)) \<and>
     (sel = Require_different \<longrightarrow> distinct (map p_region ps)) \<and>
     (sel = Prefer_different \<longrightarrow> card (p_region ` set ps) = min n (card (p_region ` set xs))))"

lemma selection_meets_simps:
  "selection_meets Any_region n xs ps = (mset ps \<subseteq># mset xs \<and> length ps = n)"
  "selection_meets Prefer_same n xs ps = (mset ps \<subseteq># mset xs \<and> n \<le> length ps \<and> length ps < 2 * n \<and>
     fewest_regions n xs ps \<and> (\<forall>p \<in> set ps. in_region (p_region p) ps = min n (in_region (p_region p) xs)))"
  "selection_meets Require_same n xs ps = (mset ps \<subseteq># mset xs \<and> length ps = n \<and>
     (\<exists>region. \<forall>p \<in> set ps. p_region p = region))"
  "selection_meets Prefer_different n xs ps = (mset ps \<subseteq># mset xs \<and> length ps = n \<and>
     card (p_region ` set ps) = min n (card (p_region ` set xs)))"
  "selection_meets Require_different n xs ps = (mset ps \<subseteq># mset xs \<and> length ps = n \<and> distinct (map p_region ps))"
  by (simp_all add: selection_meets_def)

definition enough :: "region_selector \<Rightarrow> usize \<Rightarrow> processor list \<Rightarrow> bool" where
  "enough sel n xs = (case sel of
      Require_same \<Rightarrow> (\<exists>region. n \<le> size (filter_mset (\<lambda>p. p_region p = region) (mset xs)))
    | Require_different \<Rightarrow> n \<le> card (p_region ` set xs)
    | _ \<Rightarrow> n \<le> length xs)"

text \<open>The outcome of a mode over grouped candidates.\<close>

definition outcome :: "region_selector \<Rightarrow> usize \<Rightarrow> candidates \<Rightarrow> processor list option \<Rightarrow> bool" where
  "outcome sel n cs found = (case found of
      None \<Rightarrow> \<not> enough sel n (all_candidates cs)
    | Some ps \<Rightarrow> enough sel n (all_candidates cs) \<and> selection_meets sel n (all_candidates cs) ps)"

lemma outcome_any: "rng_ok r \<Longrightarrow> outcome Any_region n cs (take_any r cs n)"
  by (simp add: outcome_def take_any_def enough_def selection_meets_simps rand_sample_subset length_rand_sample)

lemma part_of_candidates: "(region, ps) \<in> set cs \<Longrightarrow> mset ps \<subseteq># mset (all_candidates cs)"
  by (induction cs) (auto simp: all_candidates_def intro: subset_mset.add_increasing)

lemma region_size:
  "grouped cs \<Longrightarrow> (region, ps) \<in> set cs \<Longrightarrow>
   size (filter_mset (\<lambda>p. p_region p = region) (mset (all_candidates cs))) = length ps"
  by (simp flip: region_mset)

lemma outcome_require_same:
  assumes ok: "rng_ok r" and g: "grouped cs" and n: "0 < n"
  shows "\<exists>found. take_require_same r cs n = Some found \<and> outcome Require_same n cs found"
proof -
  let ?q = "map fst (filter (\<lambda>(region, ps). \<not> length ps < n) cs)"
  show ?thesis
  proof (cases "?q = []")
    case True
    have "size (filter_mset (\<lambda>p. p_region p = region) (mset (all_candidates cs))) < n" for region
    proof (cases "region \<in> fst ` set cs")
      case in_cs: True
      then obtain ps where ps: "(region, ps) \<in> set cs" by auto
      with True have "length ps < n" by (auto simp: filter_empty_conv)
      then show ?thesis unfolding region_size[OF g ps] .
    next
      case False
      then have e: "filter_mset (\<lambda>p. p_region p = region) (mset (all_candidates cs)) = {#}"
        using grouped_regions[OF g] by auto
      show ?thesis unfolding e using n by simp
    qed
    with True show ?thesis
      by (simp add: take_require_same_def rand_choose_def outcome_def enough_def not_le)
  next
    case False
    then obtain region where region: "rand_choose r 1 ?q = Some region" "region \<in> set ?q"
      using rand_choose_cases[OF ok, of 1 ?q] by auto
    then obtain ps where ps: "(region, ps) \<in> set cs" "n \<le> length ps" by auto
    have m: "map_of cs region = Some ps" using g ps(1) by (simp add: grouped_def)
    let ?s = "rand_sample r 2 ps n"
    have s: "mset ?s \<subseteq># mset ps" "length ?s = n"
      using ps(2) by (simp_all add: rand_sample_subset[OF ok] length_rand_sample[OF ok])
    have "mset ?s \<subseteq># mset (all_candidates cs)"
      using s(1) part_of_candidates[OF ps(1)] by (rule subset_mset.trans)
    moreover have "\<forall>p \<in> set ?s. p_region p = region"
      using g ps(1) mset_subset_eqD[OF s(1)] by (fastforce simp: grouped_def)
    moreover have "enough Require_same n (all_candidates cs)"
      using ps(2) unfolding enough_def region_selector.case
      by (intro exI[of _ region]) (simp add: region_size[OF g ps(1)])
    ultimately show ?thesis using s(2)
      using region(1) m by (auto simp: take_require_same_def outcome_def selection_meets_simps)
  qed
qed

lemma distinct_mset_subset: "distinct xs \<Longrightarrow> set xs \<subseteq> set ys \<Longrightarrow> mset xs \<subseteq># mset ys"
  by (rule mset_subset_eqI) (auto simp: distinct_count_atmost_1 Suc_le_eq)

lemma choose_each:
  assumes "rng_ok r" "\<forall>(region, ps) \<in> set cs. ps \<noteq> [] \<and> (\<forall>p \<in> set ps. p_region p = region)"
  shows "\<exists>ps. those (map (\<lambda>(k, region, ps). rand_choose r k ps) (enumerate k cs)) = Some ps \<and>
    map p_region ps = map fst cs \<and> set ps \<subseteq> set (all_candidates cs)"
  using assms(2)
proof (induction cs arbitrary: k)
  case (Cons c cs)
  obtain region qs where c: "c = (region, qs)" by fastforce
  have qs: "qs \<noteq> []" "\<forall>p \<in> set qs. p_region p = region"
    and rest: "\<forall>(region, ps) \<in> set cs. ps \<noteq> [] \<and> (\<forall>p \<in> set ps. p_region p = region)"
    using Cons.prems by (simp_all add: c)
  obtain p where p: "rand_choose r k qs = Some p" "p \<in> set qs"
    using rand_choose_cases[OF assms(1), of k qs] qs(1) by blast
  obtain ps where ps: "those (map (\<lambda>(k, region, ps). rand_choose r k ps) (enumerate (Suc k) cs)) = Some ps"
    "map p_region ps = map fst cs" "set ps \<subseteq> set (all_candidates cs)"
    using Cons.IH[OF rest] by blast
  have "p_region p = region" using p(2) qs(2) by blast
  then show ?case using p ps by (simp add: c all_candidates_def) blast
qed (simp add: all_candidates_def)

lemma outcome_require_different:
  assumes ok: "rng_ok r" and g: "grouped cs"
  shows "\<exists>found. take_require_different r cs n = Some found \<and> outcome Require_different n cs found"
proof (cases "length cs < n")
  case True
  then show ?thesis using length_grouped[OF g]
    by (simp add: take_require_different_def outcome_def enough_def)
next
  case False
  let ?s = "rand_sample r 1 cs n"
  have s: "mset ?s \<subseteq># mset cs" "length ?s = n"
    using False by (simp_all add: rand_sample_subset[OF ok] length_rand_sample[OF ok])
  have gs: "grouped ?s" using g s(1) by (rule grouped_sublist)
  obtain ps where ps: "those (map (\<lambda>(k, region, ps). rand_choose r k ps) (enumerate 2 ?s)) = Some ps"
    "map p_region ps = map fst ?s" "set ps \<subseteq> set (all_candidates ?s)"
    using choose_each[OF ok, of ?s 2] gs by (auto simp: grouped_def)
  have d: "distinct (map p_region ps)" using gs by (simp add: ps(2) grouped_def)
  have "set (all_candidates ?s) \<subseteq> set (all_candidates cs)"
    using set_mset_mono[OF s(1)] by (auto simp: all_candidates_def)
  then have "mset ps \<subseteq># mset (all_candidates cs)"
    using d ps(3) by (intro distinct_mset_subset) (auto simp: distinct_map)
  moreover have "length ps = n" using ps(2) s(2) by (metis length_map)
  ultimately have "outcome Require_different n cs (Some ps)" using False d length_grouped[OF g]
    by (simp add: outcome_def enough_def selection_meets_simps)
  then show ?thesis using False ps(1) by (simp add: take_require_different_def)
qed

section \<open>Keeping to few regions\<close>

definition region_share :: "candidates \<Rightarrow> item \<Rightarrow> processor list" where
  "region_share cs region = (case map_of cs region of None \<Rightarrow> [] | Some ps \<Rightarrow> ps)"

lemma fill_from_regions_outcome:
  assumes ok: "rng_ok r" and keys: "set regions \<subseteq> fst ` set cs" and acc: "length acc < 2 * n"
  shows "(fill_from_regions r k cs regions n acc = Some None \<and>
      length acc + (\<Sum>region \<leftarrow> regions. min n (length (region_share cs region))) < n) \<or>
    (\<exists>ps. fill_from_regions r k cs regions n acc = Some (Some (acc @ ps)) \<and>
      n \<le> length (acc @ ps) \<and> length (acc @ ps) < 2 * n \<and>
      mset ps \<subseteq># mset (concat (map (region_share cs) regions)))"
  using keys acc
proof (induction regions arbitrary: acc k)
  case (Cons region regions)
  show ?case
  proof (cases "length acc < n")
    case True
    obtain qs where m: "map_of cs region = Some qs"
      using Cons.prems(1) by (auto simp: map_of_eq_None_iff dest!: map_of_eq_None_iff[THEN iffD1, rotated])
        (metis fst_conv image_eqI not_None_eq map_of_eq_None_iff)
    let ?s = "rand_sample r k qs (min n (length qs))"
    have s: "mset ?s \<subseteq># mset qs" "length ?s = min n (length qs)"
      by (simp_all add: rand_sample_subset[OF ok] length_rand_sample[OF ok])
    have "length (acc @ ?s) < 2 * n" using True s(2) by simp
    from Cons.IH[OF _ this, of "Suc k"] Cons.prems(1)
    consider (none) "fill_from_regions r (Suc k) cs regions n (acc @ ?s) = Some None"
        "length (acc @ ?s) + (\<Sum>region \<leftarrow> regions. min n (length (region_share cs region))) < n"
      | (some) ps where "fill_from_regions r (Suc k) cs regions n (acc @ ?s) = Some (Some ((acc @ ?s) @ ps))"
        "n \<le> length ((acc @ ?s) @ ps)" "length ((acc @ ?s) @ ps) < 2 * n"
        "mset ps \<subseteq># mset (concat (map (region_share cs) regions))"
      by auto
    then show ?thesis
    proof cases
      case none
      then show ?thesis using True m s(2) by (simp add: region_share_def)
    next
      case some
      then have "mset (?s @ ps) \<subseteq># mset (concat (map (region_share cs) (region # regions)))"
        using s(1) m by (simp add: region_share_def subset_mset.add_mono)
      with some show ?thesis using True m
        by (intro disjI2 exI[of _ "?s @ ps"]) simp
    qed
  qed (use Cons.prems in simp)
qed simp

lemma region_shares: "distinct (map fst cs) \<Longrightarrow> map (region_share cs) (map fst cs) = map snd cs"
  by (auto simp: region_share_def)

lemma shares_of_shuffle:
  assumes "grouped cs" "mset regions = mset (map fst cs)"
  shows "mset (concat (map (region_share cs) regions)) = mset (all_candidates cs)"
proof -
  have m: "mset (concat (map f xs)) = (\<Sum>x \<in># mset xs. mset (f x))" for f :: "item \<Rightarrow> processor list" and xs
    by (induction xs) auto
  have "mset (concat (map (region_share cs) regions)) = mset (concat (map (region_share cs) (map fst cs)))"
    unfolding m assms(2) ..
  then show ?thesis using assms(1) unfolding grouped_def by (simp only: region_shares all_candidates_def)
qed

lemma clamped_sum: "sum_list (map length xss) \<ge> n \<Longrightarrow> n \<le> (\<Sum>xs \<leftarrow> xss. min n (length xs))"
proof (cases "\<exists>xs \<in> set xss. n \<le> length xs")
  case True
  then obtain xs where "xs \<in> set xss" "n \<le> length xs" by blast
  then show ?thesis using member_le_sum_list[of n "map (\<lambda>xs. min n (length xs)) xss"] by force
next
  case False
  assume "n \<le> sum_list (map length xss)"
  moreover have "map (\<lambda>xs. min n (length xs)) xss = map length xss" using False by auto
  ultimately show ?thesis by (simp only:)
qed

lemma fill_from_regions_extends:
  "fill_from_regions r k cs regions n acc = Some (Some ps) \<Longrightarrow> \<exists>qs. ps = acc @ qs"
proof (induction regions arbitrary: acc k)
  case (Cons region regions)
  show ?case
  proof (cases "length acc < n")
    case True
    then obtain qs where "map_of cs region = Some qs"
      "fill_from_regions r (Suc k) cs regions n (acc @ rand_sample r k qs (min n (length qs))) = Some (Some ps)"
      using Cons.prems by (auto simp: bind_eq_Some_iff)
    with Cons.IH[OF this(2)] show ?thesis by auto
  qed (use Cons.prems in simp)
qed (simp split: if_splits)

lemma in_region_own: "\<forall>p \<in> set ps. p_region p = region \<Longrightarrow> in_region x ps = (if x = region then length ps else 0)"
  by (induction ps) (auto simp: in_region_def)

lemma in_region_none: "region \<notin> p_region ` set ps \<Longrightarrow> in_region region ps = 0"
  by (auto simp: in_region_def)

lemma in_region_share:
  assumes "grouped cs" "mset (all_candidates cs) = mset xs"
  shows "length (region_share cs region) = in_region region xs"
proof (cases "map_of cs region")
  case None
  then have "region \<notin> p_region ` set (all_candidates cs)"
    using grouped_regions[OF assms(1)] by (simp add: map_of_eq_None_iff)
  then have "region \<notin> p_region ` set xs" using mset_eq_setD[OF assms(2)] by simp
  then show ?thesis using None in_region_none[of region xs] by (simp add: region_share_def)
next
  case (Some ps)
  then show ?thesis using region_size[OF assms(1), of region ps] map_of_SomeD[OF Some]
    by (simp add: region_share_def in_region_def assms(2))
qed

text \<open>A request that is met is met by the regions it touches, each counted up to the request.\<close>

lemma region_weight:
  assumes "mset qs \<subseteq># mset xs" "n \<le> length qs"
  shows "n \<le> (\<Sum>region \<in> p_region ` set qs. min n (in_region region xs))"
proof -
  let ?R = "p_region ` set qs"
  have le: "in_region region qs \<le> in_region region xs" for region
    unfolding in_region_def by (intro size_mset_mono multiset_filter_mono assms(1))
  have "length qs = (\<Sum>region \<in> ?R. in_region region qs)"
  proof (induction qs)
    case (Cons q qs)
    have "(\<Sum>region \<in> p_region ` set (q # qs). in_region region (q # qs))
        = (\<Sum>region \<in> p_region ` set (q # qs). in_region region qs + (if region = p_region q then 1 else 0))"
      by (intro sum.cong) (auto simp: in_region_def)
    also have "\<dots> = (\<Sum>region \<in> p_region ` set (q # qs). in_region region qs) + 1"
      by (simp add: sum.distrib)
    also have "(\<Sum>region \<in> p_region ` set (q # qs). in_region region qs) = (\<Sum>region \<in> p_region ` set qs. in_region region qs)"
      by (intro sum.mono_neutral_right) (auto intro: in_region_none)
    finally show ?case using Cons.IH by simp
  qed simp
  then have total: "n \<le> (\<Sum>region \<in> ?R. in_region region xs)" using assms(2) sum_mono[of ?R "\<lambda>region. in_region region qs" "\<lambda>region. in_region region xs", OF le] by linarith
  show ?thesis
  proof (cases "\<exists>region \<in> ?R. n \<le> in_region region xs")
    case True
    then obtain region where r: "region \<in> ?R" "n \<le> in_region region xs" by blast
    then show ?thesis using member_le_sum[of region ?R "\<lambda>region. min n (in_region region xs)"] by simp
  next
    case False
    then have "(\<Sum>region \<in> ?R. min n (in_region region xs)) = (\<Sum>region \<in> ?R. in_region region xs)"
      by (intro sum.cong) auto
    with total show ?thesis by simp
  qed
qed

lemma sum_list_take_mono: "i \<le> j \<Longrightarrow> sum_list (take i xs) \<le> sum_list (take j xs)" for xs :: "nat list"
proof -
  assume "i \<le> j"
  then have "take j xs = take i xs @ take (j - i) (drop i xs)" by (metis le_add_diff_inverse take_add)
  then show ?thesis by simp
qed

text \<open>What was filled is a prefix of the regions, each with as many of its processors as the request, and without
  the last of them the request was not met.\<close>

lemma fill_takes_prefix:
  assumes ok: "rng_ok r" and g: "grouped cs" and keys: "set regions \<subseteq> fst ` set cs" and d: "distinct regions"
    and f: "fill_from_regions r k cs regions n acc = Some (Some (acc @ ps))"
  shows "\<exists>m \<le> length regions.
    (0 < m \<longrightarrow> length acc + (\<Sum>region \<leftarrow> take (m - 1) regions. min n (length (region_share cs region))) < n) \<and>
    p_region ` set ps \<subseteq> set (take m regions) \<and>
    (\<forall>region \<in> set (take m regions). in_region region ps = min n (length (region_share cs region)))"
  using keys d f
proof (induction regions arbitrary: acc k ps)
  case (Cons region regions)
  show ?case
  proof (cases "length acc < n")
    case True
    obtain qs where m: "map_of cs region = Some qs" "(region, qs) \<in> set cs"
      using grouped_map_of[OF g, of region] Cons.prems(1) by auto
    let ?s = "rand_sample r k qs (min n (length qs))"
    have s: "mset ?s \<subseteq># mset qs" "length ?s = min n (length qs)"
      by (simp_all add: rand_sample_subset[OF ok] length_rand_sample[OF ok])
    have "\<forall>p \<in> set qs. p_region p = region" using g m(2) by (auto simp: grouped_def)
    then have own: "\<forall>p \<in> set ?s. p_region p = region" using mset_subset_eqD[OF s(1)] by auto
    have "fill_from_regions r (Suc k) cs regions n (acc @ ?s) = Some (Some (acc @ ps))"
      using Cons.prems(3) True m(1) by simp
    moreover obtain ps' where ps': "ps = ?s @ ps'"
      using fill_from_regions_extends[OF calculation] by auto
    ultimately obtain m' where IH: "m' \<le> length regions"
      "0 < m' \<longrightarrow> length (acc @ ?s) + (\<Sum>region \<leftarrow> take (m' - 1) regions. min n (length (region_share cs region))) < n"
      "p_region ` set ps' \<subseteq> set (take m' regions)"
      "\<forall>region \<in> set (take m' regions). in_region region ps' = min n (length (region_share cs region))"
      using Cons.IH[of "Suc k" "acc @ ?s" ps'] Cons.prems(1,2) by auto
    have new: "region \<notin> set (take m' regions)" using Cons.prems(2) by (auto dest: in_set_takeD)
    have split: "in_region x ps = in_region x ?s + in_region x ps'" for x by (simp add: in_region_def ps')
    have mine: "in_region x ?s = (if x = region then min n (length qs) else 0)" for x
      using in_region_own[OF own, of x] s(2) by simp
    have "in_region region ps' = 0" using in_region_none[of region ps'] new IH(3) by auto
    then have "in_region region ps = min n (length (region_share cs region))"
      using m(1) split[of region] mine by (simp add: region_share_def)
    moreover have "in_region x ps = min n (length (region_share cs x))" if "x \<in> set (take m' regions)" for x
      using that new IH(4) split[of x] mine[of x] by auto
    ultimately have "\<forall>x \<in> set (take (Suc m') (region # regions)). in_region x ps = min n (length (region_share cs x))"
      by simp
    moreover have "p_region ` set ps \<subseteq> set (take (Suc m') (region # regions))" using own IH(3) ps' by auto
    moreover have "length acc + (\<Sum>region \<leftarrow> take (Suc m' - 1) (region # regions). min n (length (region_share cs region))) < n"
      using IH(2) True s(2) m(1) by (cases m') (simp_all add: region_share_def)
    ultimately show ?thesis using IH(1) by (intro exI[of _ "Suc m'"]) simp
  qed (use Cons.prems in simp)
qed (auto split: if_splits)

text \<open>Any set of regions weighs at most as much as the same number of the heaviest.\<close>

lemma heaviest_prefix:
  fixes f :: "'a \<Rightarrow> nat"
  assumes "sorted (rev (map f xs))" "distinct xs" "R \<subseteq> set xs"
  shows "sum f R \<le> sum_list (map f (take (card R) xs))"
  using assms
proof (induction xs arbitrary: R)
  case (Cons x xs)
  have fin: "finite R" using Cons.prems(3) finite_subset by blast
  have s: "sorted (rev (map f xs))" "\<forall>y \<in> set xs. f y \<le> f x" "distinct xs"
    using Cons.prems(1,2) by (auto simp: sorted_append)
  show ?case
  proof (cases "x \<in> R")
    case True
    then have "sum f R = f x + sum f (R - {x})" "card R = Suc (card (R - {x}))"
      using fin card_Suc_Diff1[OF fin True] by (simp_all only: sum.remove)
    then show ?thesis using Cons.IH[OF s(1,3), of "R - {x}"] Cons.prems(3) by auto
  next
    case False
    then have sub: "R \<subseteq> set xs" using Cons.prems(3) by auto
    note IH = Cons.IH[OF s(1,3) sub]
    show ?thesis
    proof (cases "card R")
      case (Suc j)
      then have "j < length xs" using card_mono[OF _ sub] distinct_card[OF s(3)] by simp
      then have "sum_list (map f (take (Suc j) xs)) = sum_list (map f (take j xs)) + f (xs ! j)" "f (xs ! j) \<le> f x"
        using s(2) by (simp_all add: take_Suc_conv_app_nth)
      then show ?thesis using IH Suc by simp
    qed (use fin in simp)
  qed
qed simp

lemma few_regions:
  assumes ok: "rng_ok r" and g: "grouped cs" and n: "0 < n" and x: "mset (all_candidates cs) = mset xs"
    and d: "distinct regions" "set regions \<subseteq> fst ` set cs" "fst ` set cs \<subseteq> set regions"
    and sorted: "sorted (rev (map (\<lambda>region. min n (length (region_share cs region))) regions))"
    and f: "fill_from_regions r k cs regions n [] = Some (Some ps)"
  shows "fewest_regions n xs ps \<and> (\<forall>p \<in> set ps. in_region (p_region p) ps = min n (in_region (p_region p) xs))"
proof -
  let ?f = "\<lambda>region. min n (length (region_share cs region))"
  obtain m where m: "m \<le> length regions" "0 < m \<longrightarrow> sum_list (map ?f (take (m - 1) regions)) < n"
    "p_region ` set ps \<subseteq> set (take m regions)" "\<forall>region \<in> set (take m regions). in_region region ps = ?f region"
    using fill_takes_prefix[OF ok g d(2,1), of k n "[]" ps] f by auto
  have share: "length (region_share cs region) = in_region region xs" for region
    using in_region_share[OF g x] .
  have "card (p_region ` set ps) \<le> card (p_region ` set qs)" if q: "mset qs \<subseteq># mset xs" "n \<le> length qs" for qs
  proof -
    let ?R = "p_region ` set qs"
    have "set qs \<subseteq> set xs" using set_mset_mono[OF q(1)] by simp
    then have R: "?R \<subseteq> set regions" using grouped_regions[OF g] d(3) mset_eq_setD[OF x] by auto
    have "n \<le> sum ?f ?R" using region_weight[OF q, folded share] .
    also have "\<dots> \<le> sum_list (map ?f (take (card ?R) regions))" by (rule heaviest_prefix[OF sorted d(1) R])
    finally have "\<not> card ?R < m"
      using m(2) sum_list_take_mono[of "card ?R" "m - 1" "map ?f regions"] unfolding take_map by linarith
    moreover have "card (p_region ` set ps) \<le> m"
      using card_mono[OF _ m(3)] distinct_card[of "take m regions"] d(1) m(1) by simp
    ultimately show ?thesis by simp
  qed
  then show ?thesis using m(3,4) by (auto simp: fewest_regions_def share image_subset_iff)
qed

lemma regions_by_share:
  assumes "set (rev (sort_key (\<lambda>region. min (length (the (map_of cs region))) n) xs)) \<subseteq> fst ` set cs"
  shows "sorted (rev (map (\<lambda>region. min n (length (region_share cs region)))
    (rev (sort_key (\<lambda>region. min (length (the (map_of cs region))) n) xs))))"
proof -
  let ?k = "\<lambda>region. min (length (the (map_of cs region))) n"
  have "map (\<lambda>region. min n (length (region_share cs region))) (sort_key ?k xs) = map ?k (sort_key ?k xs)"
  proof (rule map_cong[OF refl])
    fix region assume "region \<in> set (sort_key ?k xs)"
    then have "map_of cs region \<noteq> None" using assms by (auto simp: map_of_eq_None_iff)
    then show "min n (length (region_share cs region)) = ?k region"
      by (auto simp: region_share_def min.commute)
  qed
  then show ?thesis by (simp only: rev_map[symmetric] rev_rev_ident sorted_sort_key)
qed

lemma outcome_prefer_same:
  assumes ok: "rng_ok r" and g: "grouped cs" and n: "0 < n"
  shows "\<exists>found. take_prefer_same r cs n = Some found \<and> outcome Prefer_same n cs found"
proof -
  let ?regions = "rev (sort_key (\<lambda>region. min (length (the (map_of cs region))) n) (rand_shuffle r 1 (map fst cs)))"
  have m: "mset ?regions = mset (map fst cs)" by (simp add: mset_rand_shuffle[OF ok])
  have keys: "set ?regions \<subseteq> fst ` set cs" using mset_eq_setD[OF m] by simp
  have all: "mset (concat (map (region_share cs) ?regions)) = mset (all_candidates cs)"
    by (rule shares_of_shuffle[OF g m])
  have total: "sum_list (map length (map (region_share cs) ?regions)) = length (all_candidates cs)"
    using arg_cong[OF all, of size] by (simp only: size_mset length_concat)
  have "take_prefer_same r cs n = fill_from_regions r 2 cs ?regions n []" by (simp add: take_prefer_same_def Let_def)
  moreover have "distinct ?regions"
    using g mset_eq_imp_distinct_iff[OF m] by (simp add: grouped_def)
  then have few: "fewest_regions n (all_candidates cs) ps \<and>
      (\<forall>p \<in> set ps. in_region (p_region p) ps = min n (in_region (p_region p) (all_candidates cs)))"
    if "fill_from_regions r 2 cs ?regions n [] = Some (Some ps)" for ps
    using few_regions[OF ok g n refl _ keys _ _ that] mset_eq_setD[OF m] regions_by_share[OF keys] by simp
  moreover have "(fill_from_regions r 2 cs ?regions n [] = Some None \<and> \<not> enough Prefer_same n (all_candidates cs)) \<or>
    (\<exists>ps. fill_from_regions r 2 cs ?regions n [] = Some (Some ps) \<and>
      selection_meets Prefer_same n (all_candidates cs) ps)"
    using fill_from_regions_outcome[OF ok keys, of "[]" n 2] n clamped_sum[of n "map (region_share cs) ?regions"] few
    unfolding total all
    by (auto simp: enough_def selection_meets_simps not_le comp_def)
  moreover have "selection_meets Prefer_same n xs ps \<Longrightarrow> enough Prefer_same n xs" for xs ps
    using size_mset_mono[of "mset ps" "mset xs"] by (auto simp: selection_meets_simps enough_def)
  ultimately show ?thesis by (auto simp: outcome_def)
qed

section \<open>Spreading over the regions\<close>

definition in_regions :: "candidates \<Rightarrow> bool" where
  "in_regions cs = (\<forall>(region, ps) \<in> set cs. \<forall>p \<in> set ps. p_region p = region)"

lemma mset_remove_at: "i < length xs \<Longrightarrow> add_mset (xs ! i) (mset (remove_at i xs)) = mset xs"
  by (subst (3) id_take_nth_drop[of i xs]) (simp_all add: remove_at_def)

lemma set_remove_at: "set (remove_at i xs) \<subseteq> set xs"
  by (auto simp: remove_at_def dest: in_set_takeD in_set_dropD)

lemma spread_pass_outcome:
  assumes ok: "rng_ok r" and cs: "in_regions cs" "\<forall>(region, ps) \<in> set cs. ps \<noteq> []" and acc: "length acc < n"
  shows "\<exists>cs' new k'. spread_pass r k cs n acc = Some (cs', acc @ new, k') \<and>
    map p_region new = take (n - length acc) (map fst cs) \<and>
    mset new + mset (all_candidates cs') = mset (all_candidates cs) \<and>
    map fst cs' = map fst cs \<and> in_regions cs'"
  using cs acc
proof (induction cs arbitrary: k acc)
  case Nil
  then show ?case by (simp add: all_candidates_def in_regions_def)
next
  case (Cons c cs)
  obtain region qs where c: "c = (region, qs)" by fastforce
  let ?i = "pick_index r k (length qs)"
  have i: "?i < length qs" using ok Cons.prems(2) by (simp add: c rng_ok_def)
  have q: "qs \<noteq> []" "p_region (qs ! ?i) = region" using Cons.prems(1,2) i by (auto simp: c in_regions_def)
  have rest: "in_regions cs" "\<forall>(region, ps) \<in> set cs. ps \<noteq> []" "in_regions [(region, remove_at ?i qs)]"
    using Cons.prems(1,2) set_remove_at[of ?i qs] by (auto simp: c in_regions_def)
  note m = mset_remove_at[OF i]
  show ?case
  proof (cases "Suc (length acc) = n")
    case True
    then have t: "n - length acc = 1" by simp
    show ?thesis using q rest True m Cons.prems
      by (intro exI[of _ "(region, remove_at ?i qs) # cs"] exI[of _ "[qs ! ?i]"] exI[of _ "Suc k"])
        (simp add: c t Let_def all_candidates_def in_regions_def flip: m)
  next
    case False
    with Cons.prems(3) have "length (acc @ [qs ! ?i]) < n" by simp
    from Cons.IH[OF rest(1,2) this, of "Suc k"] obtain cs' new k' where IH:
      "spread_pass r (Suc k) cs n (acc @ [qs ! ?i]) = Some (cs', (acc @ [qs ! ?i]) @ new, k')"
      "map p_region new = take (n - length (acc @ [qs ! ?i])) (map fst cs)"
      "mset new + mset (all_candidates cs') = mset (all_candidates cs)" "map fst cs' = map fst cs" "in_regions cs'"
      by blast
    have t: "n - length acc = Suc (n - length (acc @ [qs ! ?i]))" using Cons.prems(3) by simp
    have "mset (all_candidates (c # cs)) = add_mset (qs ! ?i) (mset (remove_at ?i qs) + (mset new + mset (all_candidates cs')))"
      unfolding IH(3) by (simp add: c all_candidates_def flip: m)
    with IH q rest(3) False show ?thesis unfolding t
      by (intro exI[of _ "(region, remove_at ?i qs) # cs'"] exI[of _ "(qs ! ?i) # new"] exI[of _ k'])
        (simp add: c Let_def all_candidates_def in_regions_def ac_simps)
  qed
qed

lemma all_candidates_nonempty: "all_candidates (filter (\<lambda>(region, ps). ps \<noteq> []) cs) = all_candidates cs"
  by (induction cs) (auto simp: all_candidates_def)

lemma spread_loop_outcome:
  assumes "rng_ok r" "in_regions cs" "\<forall>(region, ps) \<in> set cs. ps \<noteq> []" "length acc \<le> n"
  shows "(spread_loop r k cs n acc = None \<and> length acc + length (all_candidates cs) < n) \<or>
    (\<exists>ps. spread_loop r k cs n acc = Some (acc @ ps) \<and> length (acc @ ps) = n \<and>
      mset ps \<subseteq># mset (all_candidates cs))"
  using assms
proof (induction r k cs n acc rule: spread_loop.induct)
  case (1 r k cs n acc)
  show ?case
  proof (cases "length acc < n \<and> cs \<noteq> []")
    case True
    obtain cs' new k' where p: "spread_pass r k cs n acc = Some (cs', acc @ new, k')"
      "map p_region new = take (n - length acc) (map fst cs)"
      "mset new + mset (all_candidates cs') = mset (all_candidates cs)" "in_regions cs'"
      using spread_pass_outcome[OF 1(2-4), of acc n k] True by blast
    let ?cs = "filter (\<lambda>(region, ps). ps \<noteq> []) cs'"
    have len: "length (acc @ new) \<le> n" using arg_cong[OF p(2), of length] 1(5) by simp
    have sizes: "length new + length (all_candidates cs') = length (all_candidates cs)"
      using arg_cong[OF p(3), of size] by simp
    have step: "spread_loop r k cs n acc = spread_loop r k' ?cs n (acc @ new)"
      using True p(1) by (subst spread_loop.simps) simp
    have "(spread_loop r k' ?cs n (acc @ new) = None \<and> length (acc @ new) + length (all_candidates ?cs) < n) \<or>
      (\<exists>ps. spread_loop r k' ?cs n (acc @ new) = Some ((acc @ new) @ ps) \<and> length ((acc @ new) @ ps) = n \<and>
        mset ps \<subseteq># mset (all_candidates ?cs))"
      using True p(4) len by (intro 1(1)[OF _ _ p(1) refl refl] 1(2)) (auto simp: in_regions_def)
    then consider (none) "spread_loop r k' ?cs n (acc @ new) = None"
        "length (acc @ new) + length (all_candidates cs') < n"
      | (some) ps where "spread_loop r k' ?cs n (acc @ new) = Some ((acc @ new) @ ps)"
        "length ((acc @ new) @ ps) = n" "mset ps \<subseteq># mset (all_candidates cs')"
      unfolding all_candidates_nonempty by (elim disjE exE conjE) (rule that(1) that(2); assumption)+
    then show ?thesis
    proof cases
      case none
      with sizes step show ?thesis by simp
    next
      case some
      have "mset (new @ ps) \<subseteq># mset (all_candidates cs)" using some(3) by (simp flip: p(3))
      with some(1,2) step show ?thesis by (intro disjI2 exI[of _ "new @ ps"]) simp
    qed
  next
    case False
    then show ?thesis using 1(5) by (subst (1 2) spread_loop.simps) (auto simp: all_candidates_def)
  qed
qed

text \<open>The first pass visits every region unless there are enough processors before.\<close>

lemma spread_first_pass:
  assumes ok: "rng_ok r" and g: "grouped cs" and n: "0 < n" "cs \<noteq> []"
    and ps: "spread_loop r k cs n [] = Some ps"
  shows "\<exists>new more. ps = new @ more \<and> map p_region new = take n (map fst cs)"
proof -
  have i: "in_regions cs" "\<forall>(region, ps) \<in> set cs. ps \<noteq> []" using g by (auto simp: grouped_def in_regions_def)
  have less: "length ([] :: processor list) < n" using n(1) by simp
  obtain cs' new k' where p: "spread_pass r k cs n [] = Some (cs', [] @ new, k')"
    "map p_region new = take (n - length ([] :: processor list)) (map fst cs)" "in_regions cs'"
    using spread_pass_outcome[OF ok i less, of k] by blast
  let ?cs = "filter (\<lambda>(region, ps). ps \<noteq> []) cs'"
  have "spread_loop r k cs n [] = spread_loop r k' ?cs n new"
    by (subst spread_loop.simps) (use n p(1) in simp)
  with ps have loop: "spread_loop r k' ?cs n new = Some ps" by (simp only:)
  moreover have "length new \<le> n" using arg_cong[OF p(2), of length] by simp
  moreover have "in_regions ?cs" "\<forall>(region, ps) \<in> set ?cs. ps \<noteq> []" using p(3) by (auto simp: in_regions_def)
  ultimately have "\<exists>more. ps = new @ more"
    using spread_loop_outcome[OF ok, of ?cs new n k'] by (metis option.inject option.distinct(1))
  then obtain more where "ps = new @ more" by blast
  with p(2) show ?thesis by (intro exI[of _ new] exI[of _ more]) simp
qed

lemma outcome_prefer_different:
  assumes ok: "rng_ok r" and g: "grouped cs" and n: "0 < n"
  shows "outcome Prefer_different n cs (spread_loop r k cs n [])"
proof (cases "cs = []")
  case True
  with n show ?thesis by (subst spread_loop.simps) (simp add: outcome_def enough_def all_candidates_def)
next
  case False
  have i: "in_regions cs" "\<forall>(region, ps) \<in> set cs. ps \<noteq> []" using g by (auto simp: grouped_def in_regions_def)
  consider (none) "spread_loop r k cs n [] = None" "length (all_candidates cs) < n"
    | (some) ps where "spread_loop r k cs n [] = Some ps" "length ps = n" "mset ps \<subseteq># mset (all_candidates cs)"
    using spread_loop_outcome[OF ok i, of "[]" n k] by auto
  then show ?thesis
  proof cases
    case none
    then show ?thesis by (simp add: outcome_def enough_def)
  next
    case some
    obtain new more where more: "ps = new @ more" and p: "map p_region new = take n (map fst cs)"
      using spread_first_pass[OF ok g n False some(1)] by blast
    have keys: "card (set (map fst cs)) = length cs" using g distinct_card[of "map fst cs"] by (simp add: grouped_def)
    have sub: "p_region ` set ps \<subseteq> set (map fst cs)"
      using set_mset_mono[OF some(3)] grouped_regions[OF g] by auto
    have "card (p_region ` set ps) = min n (length cs)"
    proof (cases "n \<le> length cs")
      case True
      then have "length new = n" using arg_cong[OF p, of length] by simp
      then have "map p_region ps = take n (map fst cs)" using more some(2) p by simp
      moreover have "distinct (take n (map fst cs))" using g by (simp add: grouped_def)
      ultimately have "distinct (map p_region ps)" by simp
      from distinct_card[OF this] True some(2) show ?thesis by simp
    next
      case False
      then have "set (map p_region new) = set (map fst cs)" unfolding p by simp
      then have "p_region ` set ps = set (map fst cs)" using sub more by auto
      with False keys show ?thesis by simp
    qed
    then show ?thesis using some length_grouped[OF g] size_mset_mono[OF some(3)]
      by (simp add: outcome_def enough_def selection_meets_simps)
  qed
qed

section \<open>Properties\<close>

definition within_quota :: "platform_answers \<Rightarrow> builder \<Rightarrow> usize \<Rightarrow> bool" where
  "within_quota hw b n = (case quota_limit hw b of Some limit \<Rightarrow> n \<le> limit | None \<Rightarrow> True)"

lemma selection_nonempty: "selection_meets sel n xs ps \<Longrightarrow> 0 < n \<Longrightarrow> ps \<noteq> []"
  by (auto simp: selection_meets_def split: if_splits)

lemma mode_outcome:
  assumes "rng_ok r" "grouped cs" "0 < n"
  shows "\<exists>found. (case sel of
      Any_region \<Rightarrow> Some (take_any r cs n)
    | Prefer_same \<Rightarrow> take_prefer_same r cs n
    | Require_same \<Rightarrow> take_require_same r cs n
    | Prefer_different \<Rightarrow> Some (spread_loop r 1 cs n [])
    | Require_different \<Rightarrow> take_require_different r cs n) = Some found \<and> outcome sel n cs found"
  using assms outcome_any outcome_prefer_same outcome_require_same outcome_prefer_different
    outcome_require_different
  by (cases sel) simp_all

lemma outcome_transfer: "mset (all_candidates cs) = mset xs \<Longrightarrow>
  enough sel n (all_candidates cs) = enough sel n xs \<and>
  selection_meets sel n (all_candidates cs) ps = selection_meets sel n xs ps"
proof -
  assume m: "mset (all_candidates cs) = mset xs"
  then have "length (all_candidates cs) = length xs" "set (all_candidates cs) = set xs"
    by (metis size_mset) (rule mset_eq_setD[OF m])
  then show ?thesis by (simp add: enough_def selection_meets_def fewest_regions_def in_region_def m split: region_selector.split)
qed

lemma take_processors_outcome:
  assumes ok: "rng_ok r" and n: "0 < n" and q: "within_quota hw b n"
  shows "if enough (region_sel b) n (eligible hw b)
    then \<exists>ps. take_processors r hw b n = Some (Some ps) \<and> selection_meets (region_sel b) n (eligible hw b) ps
    else take_processors r hw b n = Some None"
proof -
  let ?cs = "candidates_by_memory_region r hw b"
  note g = candidates_grouped[OF ok, of hw b]
  note same = outcome_transfer[OF g(2)]
  have quota: "\<not> (case quota_limit hw b of Some limit \<Rightarrow> n > limit | None \<Rightarrow> False)"
    using q by (auto simp: within_quota_def split: option.splits)
  show ?thesis
  proof (cases "?cs = []")
    case True
    then have none: "eligible hw b = []" using g(2) by (simp add: all_candidates_def)
    have "take_processors r hw b n = Some None" using True quota by (simp add: take_processors_def)
    moreover have "\<not> enough (region_sel b) n (eligible hw b)" unfolding none using n
      by (simp add: enough_def split: region_selector.split)
    ultimately show ?thesis by simp
  next
    case False
    obtain found where f: "take_processors r hw b n = Some (found \<bind> non_empty)" "outcome (region_sel b) n ?cs found"
      using mode_outcome[OF ok g(1) n, of "region_sel b"] quota False by (auto simp: take_processors_def Let_def)
    show ?thesis
    proof (cases found)
      case None
      with f same show ?thesis by (simp add: outcome_def)
    next
      case (Some ps)
      then have "selection_meets (region_sel b) n (eligible hw b) ps" "enough (region_sel b) n (eligible hw b)"
        using f(2) same by (simp_all add: outcome_def)
      with f(1) Some n show ?thesis by (auto simp: dest: selection_nonempty)
    qed
  qed
qed

text \<open>C30: Taking n processors succeeds exactly when the eligible processors allow it (within the quota if it is enforced,
  n in one region, n regions, or n in all, as the region requirement says) and then returns eligible processors, none
  twice; otherwise it returns none. No unwrap fails. Exactly n processors are returned, in one region or in n different
  ones where that is required and in as many regions as possible where different ones are preferred. The preference for
  one region returns at least n and fewer than 2 n processors, in no more regions than any n eligible processors
  occupy, and of each of these regions all its processors, or n if it has more.\<close>

theorem take_meets_request:
  assumes "rng_ok r" "0 < n"
  shows "if within_quota hw b n \<and> enough (region_sel b) n (eligible hw b)
    then \<exists>ps. take_processors r hw b n = Some (Some ps) \<and> selection_meets (region_sel b) n (eligible hw b) ps
    else take_processors r hw b n = Some None"
proof (cases "within_quota hw b n")
  case True
  with take_processors_outcome[OF assms True] show ?thesis by simp
next
  case False
  then have "take_processors r hw b n = Some None"
    by (auto simp: within_quota_def take_processors_def split: option.splits)
  with False show ?thesis by simp
qed

section \<open>Quota\<close>

lemma pop_until_length: "length (pop_until limit ps) = min limit (length ps)"
  by (induction limit ps rule: pop_until.induct) (subst pop_until.simps, auto)

lemma pop_until_prefix: "\<exists>qs. ps = pop_until limit ps @ qs"
proof (induction limit ps rule: pop_until.induct)
  case (1 limit ps)
  show ?case
  proof (cases "limit < length ps")
    case True
    then obtain qs where "butlast ps = pop_until limit (butlast ps) @ qs" using 1 by blast
    then have "ps = pop_until limit (butlast ps) @ (qs @ [last ps])"
      using True by (metis append.assoc append_butlast_last_id length_0_conv not_less_zero)
    with True show ?thesis by (subst pop_until.simps) auto
  qed (subst pop_until.simps, simp)
qed

lemma pop_until_take: "pop_until limit ps = take limit ps"
  using pop_until_prefix[of ps limit] pop_until_length[of limit ps]
  by (metis append_eq_conv_conj length_take min.commute take_take min.idem)

text \<open>Taking all processors with the quota enforced, in any region mode, returns at most the number of whole
  processors the quota allows, at least one, and only eligible ones, none twice.\<close>

theorem take_all_within_quota:
  assumes "rng_ok r" "obey_quota b" "take_all r hw b = Some (Some ps)"
  shows "mset ps \<subseteq># mset (eligible hw b) \<and> 1 \<le> length ps \<and>
    length ps \<le> max (flt_to_unsigned 64 (flt_floor (hw_time hw))) 1"
proof -
  let ?cs = "candidates_by_memory_region r hw b"
  note g = candidates_grouped[OF assms(1), of hw b]
  obtain qs where qs: "ps = reduce_until_under_quota hw b qs" "ps \<noteq> []" and
    mode: "(case region_sel b of
          Require_same \<Rightarrow> rand_choose r 1 (map fst ?cs) \<bind> map_of ?cs
        | Require_different \<Rightarrow> those (map (\<lambda>(k, region, ps). rand_choose r k ps) (enumerate 1 ?cs))
        | _ \<Rightarrow> Some (all_candidates ?cs)) = Some qs"
    using assms(3) by (auto simp: take_all_def Let_def split: if_splits)
  have "mset qs \<subseteq># mset (all_candidates ?cs)"
  proof (cases "region_sel b")
    case Require_same
    with mode obtain region where "map_of ?cs region = Some qs" by (auto simp: bind_eq_Some_iff)
    then show ?thesis by (intro part_of_candidates) (rule map_of_SomeD)
  next
    case Require_different
    obtain qs' where "those (map (\<lambda>(k, region, ps). rand_choose r k ps) (enumerate 1 ?cs)) = Some qs'"
      "map p_region qs' = map fst ?cs" "set qs' \<subseteq> set (all_candidates ?cs)"
      using choose_each[OF assms(1), of ?cs 1] g(1) by (auto simp: grouped_def)
    moreover from this have "distinct qs'" using g(1) by (metis distinct_map grouped_def)
    ultimately show ?thesis using mode Require_different by (intro distinct_mset_subset) auto
  qed (use mode in auto)
  then have "mset ps \<subseteq># mset (all_candidates ?cs)"
    using pop_until_prefix[of qs] assms(2) qs(1)
    by (metis mset_append mset_subset_eq_add_left option.simps(5) quota_limit_def reduce_until_under_quota_def
        subset_mset.trans)
  moreover have "1 \<le> length ps" using qs(2) by (simp add: Suc_le_eq)
  moreover have "length ps \<le> max (flt_to_unsigned 64 (flt_floor (hw_time hw))) 1"
    using assms(2) by (simp add: qs(1) reduce_until_under_quota_def quota_limit_def pop_until_length)
  ultimately show ?thesis using g(2) by simp
qed

section \<open>Exceeding the request\<close>

lemma fill_multiple:
  assumes "rng_ok r" "\<And>region. region \<in> set regions \<Longrightarrow> \<exists>qs. map_of cs region = Some qs \<and> length qs = s"
    and "s \<le> n" "s dvd length acc" "fill_from_regions r k cs regions n acc = Some (Some ps)"
  shows "s dvd length ps"
  using assms(2,4,5)
proof (induction regions arbitrary: acc k)
  case (Cons region regions)
  obtain qs where qs: "map_of cs region = Some qs" "length qs = s" using Cons.prems(1) by auto
  show ?case
  proof (cases "length acc < n")
    case True
    have "s dvd length (acc @ rand_sample r k qs (min n (length qs)))"
      using Cons.prems(2) assms(3) qs(2) by (simp add: length_rand_sample[OF assms(1)])
    then show ?thesis using Cons.IH[of "acc @ rand_sample r k qs (min n (length qs))"] Cons.prems True qs(1) by simp
  qed (use Cons.prems in simp)
qed (auto split: if_splits)

text \<open>C31: Preferring one region, a request that has to be filled from several regions of equal size always returns more
  processors than requested, unless the size divides the request: each region is sampled for the whole request and
  never only for what is still missing. With the quota as the request, the result exceeds the enforced quota.\<close>

theorem prefer_same_exceeds_request:
  assumes "rng_ok r" "region_sel b = Prefer_same" "0 < n" "within_quota hw b n" "n \<le> length (eligible hw b)"
    and "\<And>p. p \<in> set (eligible hw b) \<Longrightarrow>
      size (filter_mset (\<lambda>q. p_region q = p_region p) (mset (eligible hw b))) = s"
    and "s < n" "\<not> s dvd n"
  shows "\<exists>ps. take_processors r hw b n = Some (Some ps) \<and> n < length ps"
proof -
  let ?cs = "candidates_by_memory_region r hw b"
  note g = candidates_grouped[OF assms(1), of hw b]
  have e: "enough (region_sel b) n (eligible hw b)" using assms(2,5) by (simp add: enough_def)
  obtain ps where ps: "take_processors r hw b n = Some (Some ps)" "selection_meets (region_sel b) n (eligible hw b) ps"
    using take_processors_outcome[OF assms(1,3,4)] e by auto
  let ?regions = "rev (sort_key (\<lambda>region. min (length (the (map_of ?cs region))) n) (rand_shuffle r 1 (map fst ?cs)))"
  have fill: "fill_from_regions r 2 ?cs ?regions n [] = Some (Some ps)"
    using ps(1) assms(2)
    by (auto simp: take_processors_def take_prefer_same_def Let_def bind_eq_Some_iff split: if_splits option.splits)
  have "\<exists>qs. map_of ?cs region = Some qs \<and> length qs = s" if "region \<in> set ?regions" for region
  proof -
    have "mset ?regions = mset (map fst ?cs)" by (simp add: mset_rand_shuffle[OF assms(1)])
    from mset_eq_setD[OF this] that obtain qs where qs: "(region, qs) \<in> set ?cs" by auto
    then obtain p where p: "p \<in> set qs" "p_region p = region" using g(1) by (fastforce simp: grouped_def neq_Nil_conv)
    have el: "p \<in> set (eligible hw b)" using qs p(1) mset_eq_setD[OF g(2)] by (fastforce simp: all_candidates_def)
    then have "length qs = s" using assms(6)[OF el, unfolded p(2)] region_size[OF g(1) qs, unfolded g(2)] by simp
    then show ?thesis using g(1) qs by (auto simp: grouped_def)
  qed
  then have "s dvd length ps" using fill_multiple[OF assms(1) _ _ _ fill, of s] assms(7) by simp
  moreover have "n \<le> length ps" using ps(2) assms(2) by (simp add: selection_meets_simps)
  ultimately show ?thesis using ps(1) assms(8) by (intro exI[of _ ps]) (auto simp: le_less)
qed

section \<open>A machine with two regions\<close>

text \<open>Four processors in two regions with the time of three and a half processors, and the choice of the first.\<close>

definition first_rng :: rng where
  "first_rng = \<lparr>pick_index = (\<lambda>k n. 0), pick_indices = (\<lambda>k n a. [0..<min a n]), pick_order = (\<lambda>k n. [0..<n])\<rparr>"

lemma first_rng_ok: "rng_ok first_rng"
  by (auto simp: rng_ok_def first_rng_def list_all_iff)

definition small_processor :: "item \<Rightarrow> processor_impl" where
  "small_processor i = \<lparr>pi_id = i, pi_region = i div 2, pi_class = Performance, pi_speed = 1, pi_model = None,
     pi_active = True\<rparr>"

definition small_machine :: platform_answers where
  "small_machine = \<lparr>hw_id = 0, hw_processors = map small_processor [0, 1, 2, 3], hw_time = Finite (7 / 2),
     hw_thread = [0, 1]\<rparr>"

definition quota_builder :: builder where
  "quota_builder = enforce_resource_quota (prefer_same_memory_region with_internals)"

lemma small_limit: "quota_limit small_machine quota_builder = Some 3"
proof -
  have "\<lfloor>7 / 2 :: rat\<rfloor> = 3" by (rule floor_unique) simp_all
  then show ?thesis
    by (simp add: quota_limit_def small_machine_def quota_builder_def enforce_resource_quota_def flt_floor_def
        flt_to_unsigned_def)
qed

lemma small_eligible:
  "eligible small_machine quota_builder = map (\<lambda>i. \<lparr>p_hardware = 0, p_inner = small_processor i\<rparr>) [0, 1, 2, 3]"
  by (simp add: eligible_def candidate_processors_def every_processor_def small_machine_def quota_builder_def
      acceptable_def acceptable_type_def enforce_resource_quota_def prefer_same_memory_region_def with_internals_def)

lemma small_regions:
  "p_region \<lparr>p_hardware = 0, p_inner = small_processor 0\<rparr> = 0"
  "p_region \<lparr>p_hardware = 0, p_inner = small_processor 1\<rparr> = 0"
  "p_region \<lparr>p_hardware = 0, p_inner = small_processor 2\<rparr> = 1"
  "p_region \<lparr>p_hardware = 0, p_inner = small_processor 3\<rparr> = 1"
  unfolding p_region_def small_processor_def by code_simp+

lemma small_mode: "region_sel quota_builder = Prefer_same"
  by (simp add: quota_builder_def enforce_resource_quota_def prefer_same_memory_region_def)

theorem take_meets_request_witness:
  "\<exists>ps. take_processors first_rng small_machine quota_builder 3 = Some (Some ps) \<and>
    selection_meets Prefer_same 3 (eligible small_machine quota_builder) ps"
proof -
  note small_mode
  moreover from this have "within_quota small_machine quota_builder 3 \<and> enough (region_sel quota_builder) 3 (eligible small_machine quota_builder)"
    by (simp add: within_quota_def small_limit enough_def small_eligible)
  ultimately show ?thesis using take_meets_request[OF first_rng_ok, of 3 small_machine quota_builder] by simp
qed

theorem prefer_same_exceeds_request_witness:
  "\<exists>ps. take_processors first_rng small_machine quota_builder 3 = Some (Some ps) \<and> 3 < length ps"
proof (rule prefer_same_exceeds_request[OF first_rng_ok, where s = 2])
  show "region_sel quota_builder = Prefer_same" by (rule small_mode)
  show "within_quota small_machine quota_builder 3" by (simp add: within_quota_def small_limit)
  show "size (filter_mset (\<lambda>q. p_region q = p_region p) (mset (eligible small_machine quota_builder))) = 2"
    if "p \<in> set (eligible small_machine quota_builder)" for p
    using that by (auto simp: small_eligible small_regions)
qed (simp_all add: small_eligible)

theorem take_all_within_quota_witness:
  "\<exists>ps. take_all first_rng small_machine quota_builder = Some (Some ps) \<and> length ps \<le> 3"
proof -
  let ?ps = "map (\<lambda>i. \<lparr>p_hardware = 0, p_inner = small_processor i\<rparr>) [0, 1, 2 :: item]"
  have s: "rand_shuffle first_rng k xs = xs" for k and xs :: "'a list"
    by (simp add: rand_shuffle_def first_rng_def map_nth)
  have "take_all first_rng small_machine quota_builder = Some (Some ?ps)"
    using small_eligible unfolding eligible_def
    by (simp add: take_all_def Let_def candidates_by_memory_region_def s small_regions all_candidates_def
        reduce_until_under_quota_def small_limit pop_until_take non_empty_def small_mode)
  moreover have "obey_quota quota_builder" by (simp add: quota_builder_def enforce_resource_quota_def)
  ultimately show ?thesis using take_all_within_quota[OF first_rng_ok, of quota_builder small_machine ?ps] by auto
qed

end
