(* ===== verification/FutureDeque.thy ===== *)
theory FutureDeque
  imports Prelude
begin

text \<open>
  \<open>future_deque/src/future_deque_core.rs\<close> and \<open>waker_meta.rs\<close>: a deque of futures, each with its own activation flag,
  polled by one owner while any number of other threads clone, wake and drop the wakers handed out. The metadata
  behind a waker lives at an address of a pool and is reference counted: two references belong to a pending slot (the
  slot's own and its waker's), one to every waker handle. A step is one atomic operation, one critical section of the
  parent lock, one call of user code or one operation of the owner between polls.

  \<open>allowed\<close> says which steps Rust lets a program take: methods of the deque need exclusive access, the waker passed to
  a future is borrowed while that future is polled, a handle can be used by many threads through a reference but is
  consumed by one. \<open>exec\<close> takes the step and is \<open>None\<close> where it would touch released metadata or poll a future that is
  finished or dropped. Futures are identified by numbers, wakers of the executor too; two wakers that \<open>will_wake\<close> each
  other are the same number. Destructors of futures are assumed not to unwind; a \<open>poll\<close> of a future may. The reference count
  is a natural number: the code's \<open>AtomicUsize\<close> is incremented without a check and would wrap with as many references,
  live or forgotten, as there are values of \<open>usize\<close>.
\<close>

section \<open>State\<close>

type_synonym addr = nat
type_synonym fut = nat
type_synonym executor_waker = nat

record waker_meta =
  ref_count :: nat
  activated :: bool

datatype 'v slot = Pending fut addr | Ready 'v

text \<open>A waker that somebody may use: the one a slot holds, or a clone in the hands of a user.\<close>

datatype source = Slot_waker addr | Handle nat

text \<open>A thread in the middle of \<open>wake_by_ref_raw_waker\<close>, \<open>wake_raw_waker\<close> (the flag says that the handle is released
  afterwards) or \<open>drop_raw_waker\<close>.\<close>

datatype actor =
    Resting
  | Swap source bool
  | Read_parent source bool
  | Wake_parent source bool executor_waker
  | Release nat
  | Free addr

datatype poll_mode = Only_poll | Then_front | Then_back

text \<open>Where the owner continues after it has given up a slot.\<close>

datatype resume = Resume_scan poll_mode nat | Resume_drain

datatype owner =
    At_rest
  | Scan poll_mode nat
  | In_poll poll_mode nat
  | Release_slot fut addr resume
  | Drop_future fut addr resume
  | Release_waker addr resume
  | Free_meta addr resume
  | Drain
  | Gone

datatype 'v answer = Nothing_yet | All_ready | Some_pending | Got 'v | Exhausted | Popped "'v option"

record 'v deque =
  metas :: "addr \<Rightarrow> waker_meta option"
  parent :: executor_waker
  slots :: "'v slot list"
  handles :: "(nat \<times> addr) list"
  actors :: "nat \<Rightarrow> actor"
  owner :: owner
  answer :: "'v answer"
  line :: "fut list"
  pushed :: "fut list"
  completed :: "(fut \<times> 'v) list"
  discarded :: "fut list"
  taken :: "(fut \<times> 'v) list"
  visited :: "addr list"
  woken :: bool

text \<open>The fields from \<open>line\<close> on are history: the futures in the deque in order, the futures ever pushed, what each
  returned, which were dropped, the results taken out, the metadata examined by the current or last poll, and whether
  the current parent waker has been woken since that poll began. No step depends on them, except that polling a
  future that is finished or dropped has no outcome.\<close>

definition deque_new :: "'v deque" where
  "deque_new = \<lparr>metas = (\<lambda>a. None), parent = 0, slots = [], handles = [], actors = (\<lambda>t. Resting), owner = At_rest,
     answer = Nothing_yet, line = [], pushed = [], completed = [], discarded = [], taken = [], visited = [],
     woken = False\<rparr>"

section \<open>Waker metadata\<close>

definition with_meta :: "addr \<Rightarrow> (waker_meta \<Rightarrow> waker_meta) \<Rightarrow> 'v deque \<Rightarrow> 'v deque option" where
  "with_meta a f s = (case metas s a of
      None \<Rightarrow> None
    | Some m \<Rightarrow> Some (s\<lparr>metas := (metas s)(a := Some (f m))\<rparr>))"

definition create_waker_meta :: waker_meta where
  "create_waker_meta = \<lparr>ref_count = 1, activated = True\<rparr>"

definition add_ref :: "waker_meta \<Rightarrow> waker_meta" where
  "add_ref m = m\<lparr>ref_count := ref_count m + 1\<rparr>"

definition drop_ref :: "waker_meta \<Rightarrow> waker_meta" where
  "drop_ref m = m\<lparr>ref_count := ref_count m - 1\<rparr>"

text \<open>\<open>release_ref\<close> up to its test: whether this was the last reference.\<close>

definition release_ref :: "addr \<Rightarrow> 'v deque \<Rightarrow> (bool \<times> 'v deque) option" where
  "release_ref a s = (case metas s a of
      None \<Rightarrow> None
    | Some m \<Rightarrow> Some (ref_count m = 1, s\<lparr>metas := (metas s)(a := Some (drop_ref m))\<rparr>))"

definition free_meta :: "addr \<Rightarrow> 'v deque \<Rightarrow> 'v deque option" where
  "free_meta a s = (if metas s a = None then None else Some (s\<lparr>metas := (metas s)(a := None)\<rparr>))"

text \<open>\<open>check_activated\<close>: swap in zero and return what was there.\<close>

definition check_activated :: "addr \<Rightarrow> 'v deque \<Rightarrow> (bool \<times> 'v deque) option" where
  "check_activated a s = (case metas s a of
      None \<Rightarrow> None
    | Some m \<Rightarrow> Some (activated m, s\<lparr>metas := (metas s)(a := Some (m\<lparr>activated := False\<rparr>))\<rparr>))"

definition set_activated :: "addr \<Rightarrow> 'v deque \<Rightarrow> (bool \<times> 'v deque) option" where
  "set_activated a s = (case metas s a of
      None \<Rightarrow> None
    | Some m \<Rightarrow> Some (activated m, s\<lparr>metas := (metas s)(a := Some (m\<lparr>activated := True\<rparr>))\<rparr>))"

section \<open>Operations between polls\<close>

definition new_slot :: "fut \<Rightarrow> addr \<Rightarrow> 'v deque \<Rightarrow> 'v deque" where
  "new_slot f a s = s\<lparr>metas := (metas s)(a := Some (add_ref create_waker_meta)), pushed := f # pushed s,
     visited := filter (\<lambda>b. b \<noteq> a) (visited s), answer := Nothing_yet\<rparr>"

definition push_back_handle :: "fut \<Rightarrow> addr \<Rightarrow> 'v deque \<Rightarrow> 'v deque" where
  "push_back_handle f a s = (new_slot f a s)\<lparr>slots := slots s @ [Pending f a], line := line s @ [f]\<rparr>"

definition push_front_handle :: "fut \<Rightarrow> addr \<Rightarrow> 'v deque \<Rightarrow> 'v deque" where
  "push_front_handle f a s = (new_slot f a s)\<lparr>slots := Pending f a # slots s, line := f # line s\<rparr>"

definition slot_is_ready :: "'v slot \<Rightarrow> bool" where
  "slot_is_ready sl = (case sl of Ready v \<Rightarrow> True | Pending f a \<Rightarrow> False)"

definition take_value :: "'v slot \<Rightarrow> 'v option" where
  "take_value sl = (case sl of Ready v \<Rightarrow> Some v | Pending f a \<Rightarrow> None)"

definition pop_front :: "'v deque \<Rightarrow> 'v option \<times> 'v deque" where
  "pop_front s = (if slots s \<noteq> [] \<and> slot_is_ready (hd (slots s))
     then (take_value (hd (slots s)),
       s\<lparr>slots := tl (slots s), line := tl (line s),
         taken := taken s @ [(hd (line s), the (take_value (hd (slots s))))]\<rparr>)
     else (None, s))"

definition pop_back :: "'v deque \<Rightarrow> 'v option \<times> 'v deque" where
  "pop_back s = (if slots s \<noteq> [] \<and> slot_is_ready (last (slots s))
     then (take_value (last (slots s)),
       s\<lparr>slots := butlast (slots s), line := butlast (line s),
         taken := taken s @ [(last (line s), the (take_value (last (slots s))))]\<rparr>)
     else (None, s))"

definition begin_poll :: "poll_mode \<Rightarrow> executor_waker \<Rightarrow> 'v deque \<Rightarrow> 'v deque" where
  "begin_poll mode w s = s\<lparr>parent := w, owner := Scan mode 0, answer := Nothing_yet, visited := [], woken := False\<rparr>"

text \<open>The end of a poll: \<open>poll\<close> reports whether anything is pending, \<open>poll_next\<close> and \<open>poll_back\<close> pop.\<close>

definition end_poll :: "poll_mode \<Rightarrow> 'v deque \<Rightarrow> 'v deque" where
  "end_poll mode s = (case mode of
      Only_poll \<Rightarrow> s\<lparr>owner := At_rest,
        answer := (if list_ex (\<lambda>sl. \<not> slot_is_ready sl) (slots s) then Some_pending else All_ready)\<rparr>
    | Then_front \<Rightarrow> (case pop_front s of
          (Some v, s') \<Rightarrow> s'\<lparr>owner := At_rest, answer := Got v\<rparr>
        | (None, s') \<Rightarrow> s'\<lparr>owner := At_rest, answer := (if slots s' = [] then Exhausted else Some_pending)\<rparr>)
    | Then_back \<Rightarrow> (case pop_back s of
          (Some v, s') \<Rightarrow> s'\<lparr>owner := At_rest, answer := Got v\<rparr>
        | (None, s') \<Rightarrow> s'\<lparr>owner := At_rest, answer := (if slots s' = [] then Exhausted else Some_pending)\<rparr>))"

section \<open>Steps of the owner\<close>

datatype 'v future_answer = Future_pending | Future_ready 'v | Future_panics

definition resumed :: "resume \<Rightarrow> owner" where
  "resumed k = (case k of Resume_scan mode i \<Rightarrow> Scan mode i | Resume_drain \<Rightarrow> Drain)"

definition live_future :: "fut \<Rightarrow> 'v deque \<Rightarrow> bool" where
  "live_future f s = (f \<notin> fst ` set (completed s) \<and> f \<notin> set (discarded s))"

definition scan_step :: "poll_mode \<Rightarrow> nat \<Rightarrow> 'v deque \<Rightarrow> 'v deque option" where
  "scan_step mode i s =
    (if length (slots s) \<le> i then Some (end_poll mode s)
     else case slots s ! i of
        Ready v \<Rightarrow> Some (s\<lparr>owner := Scan mode (Suc i)\<rparr>)
      | Pending f a \<Rightarrow> do {
          (active, s) \<leftarrow> check_activated a s;
          if active then do {
            require (live_future f s);
            Some (s\<lparr>visited := a # visited s, owner := In_poll mode i\<rparr>)
          } else Some (s\<lparr>visited := a # visited s, owner := Scan mode (Suc i)\<rparr>)
        })"

definition future_step :: "'v future_answer \<Rightarrow> poll_mode \<Rightarrow> nat \<Rightarrow> 'v deque \<Rightarrow> 'v deque option" where
  "future_step r mode i s = (case slots s ! i of
      Ready v \<Rightarrow> None
    | Pending f a \<Rightarrow> Some (case r of
          Future_pending \<Rightarrow> s\<lparr>owner := Scan mode (Suc i)\<rparr>
        | Future_panics \<Rightarrow> s\<lparr>owner := At_rest\<rparr>
        | Future_ready v \<Rightarrow> s\<lparr>slots := (slots s)[i := Ready v], completed := (f, v) # completed s,
            owner := Release_slot f a (Resume_scan mode (Suc i))\<rparr>))"

definition drain_step :: "'v deque \<Rightarrow> 'v deque option" where
  "drain_step s = (case slots s of
      [] \<Rightarrow> Some (s\<lparr>owner := Gone\<rparr>)
    | Ready v # rest \<Rightarrow> Some (s\<lparr>slots := rest, line := tl (line s)\<rparr>)
    | Pending f a # rest \<Rightarrow> Some (s\<lparr>slots := rest, line := tl (line s), owner := Release_slot f a Resume_drain\<rparr>))"

definition owner_step :: "'v future_answer \<Rightarrow> 'v deque \<Rightarrow> 'v deque option" where
  "owner_step r s = (case owner s of
      At_rest \<Rightarrow> None
    | Gone \<Rightarrow> None
    | Scan mode i \<Rightarrow> scan_step mode i s
    | In_poll mode i \<Rightarrow> future_step r mode i s
    | Release_slot f a k \<Rightarrow> do {
        (last_one, s) \<leftarrow> release_ref a s;
        if last_one then do { s \<leftarrow> free_meta a s; Some (s\<lparr>owner := Drop_future f a k\<rparr>) }
        else Some (s\<lparr>owner := Drop_future f a k\<rparr>)
      }
    | Drop_future f a k \<Rightarrow> Some (s\<lparr>discarded := f # discarded s, owner := Release_waker a k\<rparr>)
    | Release_waker a k \<Rightarrow> do {
        (last_one, s) \<leftarrow> release_ref a s;
        Some (s\<lparr>owner := (if last_one then Free_meta a k else resumed k)\<rparr>)
      }
    | Free_meta a k \<Rightarrow> map_option (\<lambda>s. s\<lparr>owner := resumed k\<rparr>) (free_meta a s)
    | Drain \<Rightarrow> drain_step s)"

section \<open>Steps of the wakers\<close>

definition source_addr :: "'v deque \<Rightarrow> source \<Rightarrow> addr option" where
  "source_addr s src = (case src of Slot_waker a \<Rightarrow> Some a | Handle h \<Rightarrow> map_of (handles s) h)"

text \<open>After the wake a consumed handle is released.\<close>

definition after_wake :: "source \<Rightarrow> bool \<Rightarrow> actor" where
  "after_wake src own = (case src of Handle h \<Rightarrow> if own then Release h else Resting | Slot_waker a \<Rightarrow> Resting)"

definition act :: "nat \<Rightarrow> 'v deque \<Rightarrow> 'v deque option" where
  "act t s = (case actors s t of
      Resting \<Rightarrow> None
    | Swap src own \<Rightarrow> do {
        a \<leftarrow> source_addr s src;
        (was, s) \<leftarrow> set_activated a s;
        Some (s\<lparr>actors := (actors s)(t := if was then after_wake src own else Read_parent src own)\<rparr>)
      }
    | Read_parent src own \<Rightarrow> do {
        a \<leftarrow> source_addr s src;
        require (metas s a \<noteq> None);
        Some (s\<lparr>actors := (actors s)(t := Wake_parent src own (parent s))\<rparr>)
      }
    | Wake_parent src own p \<Rightarrow>
        Some (s\<lparr>woken := (woken s \<or> p = parent s), actors := (actors s)(t := after_wake src own)\<rparr>)
    | Release h \<Rightarrow> do {
        a \<leftarrow> map_of (handles s) h;
        (last_one, s) \<leftarrow> release_ref a s;
        Some (s\<lparr>handles := filter (\<lambda>(h', a). h' \<noteq> h) (handles s),
                actors := (actors s)(t := if last_one then Free a else Resting)\<rparr>)
      }
    | Free a \<Rightarrow> map_option (\<lambda>s. s\<lparr>actors := (actors s)(t := Resting)\<rparr>) (free_meta a s))"

definition clone_waker :: "source \<Rightarrow> nat \<Rightarrow> 'v deque \<Rightarrow> 'v deque option" where
  "clone_waker src h s = do {
     a \<leftarrow> source_addr s src;
     s \<leftarrow> with_meta a add_ref s;
     Some (s\<lparr>handles := (h, a) # handles s\<rparr>)
   }"

section \<open>Steps of a program\<close>

datatype 'v op =
    Push_back fut addr
  | Push_front fut addr
  | Pop_front
  | Pop_back
  | Poll poll_mode executor_waker
  | Drop_deque
  | Own "'v future_answer"
  | Clone_waker source nat
  | Wake_by_ref nat source
  | Wake nat nat
  | Drop_waker nat nat
  | Act nat

definition exec :: "'v op \<Rightarrow> 'v deque \<Rightarrow> 'v deque option" where
  "exec x s = (case x of
      Push_back f a \<Rightarrow> Some (push_back_handle f a s)
    | Push_front f a \<Rightarrow> Some (push_front_handle f a s)
    | Pop_front \<Rightarrow> (case pop_front s of (v, s') \<Rightarrow> Some (s'\<lparr>answer := Popped v\<rparr>))
    | Pop_back \<Rightarrow> (case pop_back s of (v, s') \<Rightarrow> Some (s'\<lparr>answer := Popped v\<rparr>))
    | Poll mode w \<Rightarrow> Some (begin_poll mode w s)
    | Drop_deque \<Rightarrow> Some (s\<lparr>owner := Drain\<rparr>)
    | Own r \<Rightarrow> owner_step r s
    | Clone_waker src h \<Rightarrow> clone_waker src h s
    | Wake_by_ref t src \<Rightarrow> Some (s\<lparr>actors := (actors s)(t := Swap src False)\<rparr>)
    | Wake t h \<Rightarrow> Some (s\<lparr>actors := (actors s)(t := Swap (Handle h) True)\<rparr>)
    | Drop_waker t h \<Rightarrow> Some (s\<lparr>actors := (actors s)(t := Release h)\<rparr>)
    | Act t \<Rightarrow> act t s)"

section \<open>What Rust allows\<close>

definition actor_source :: "actor \<Rightarrow> source option" where
  "actor_source c = (case c of
      Swap src own \<Rightarrow> Some src
    | Read_parent src own \<Rightarrow> Some src
    | Wake_parent src own p \<Rightarrow> Some src
    | Release h \<Rightarrow> Some (Handle h)
    | _ \<Rightarrow> None)"

definition consumes :: "nat \<Rightarrow> actor \<Rightarrow> bool" where
  "consumes h c = (case c of
      Swap src own \<Rightarrow> own \<and> src = Handle h
    | Read_parent src own \<Rightarrow> own \<and> src = Handle h
    | Wake_parent src own p \<Rightarrow> own \<and> src = Handle h
    | Release h' \<Rightarrow> h' = h
    | _ \<Rightarrow> False)"

text \<open>A waker can be used through a reference while it exists and nobody consumes it; the waker of a slot is lent to its
  future while that future is polled.\<close>

definition can_borrow :: "'v deque \<Rightarrow> source \<Rightarrow> bool" where
  "can_borrow s src = (case src of
      Handle h \<Rightarrow> h \<in> fst ` set (handles s) \<and> (\<forall>t. \<not> consumes h (actors s t))
    | Slot_waker a \<Rightarrow> (case owner s of
          In_poll mode i \<Rightarrow> i < length (slots s) \<and> (\<exists>f. slots s ! i = Pending f a)
        | _ \<Rightarrow> False))"

definition can_consume :: "'v deque \<Rightarrow> nat \<Rightarrow> bool" where
  "can_consume s h = (h \<in> fst ` set (handles s) \<and> (\<forall>t. actor_source (actors s t) \<noteq> Some (Handle h)))"

definition allowed :: "'v op \<Rightarrow> 'v deque \<Rightarrow> bool" where
  "allowed x s = (case x of
      Push_back f a \<Rightarrow> owner s = At_rest \<and> f \<notin> set (pushed s) \<and> metas s a = None
    | Push_front f a \<Rightarrow> owner s = At_rest \<and> f \<notin> set (pushed s) \<and> metas s a = None
    | Pop_front \<Rightarrow> owner s = At_rest
    | Pop_back \<Rightarrow> owner s = At_rest
    | Poll mode w \<Rightarrow> owner s = At_rest
    | Drop_deque \<Rightarrow> owner s = At_rest
    | Own r \<Rightarrow> (case owner s of
          At_rest \<Rightarrow> False
        | Gone \<Rightarrow> False
        | In_poll mode i \<Rightarrow> (\<forall>t a. actor_source (actors s t) \<noteq> Some (Slot_waker a))
        | _ \<Rightarrow> True)
    | Clone_waker src h \<Rightarrow> can_borrow s src \<and> h \<notin> fst ` set (handles s)
    | Wake_by_ref t src \<Rightarrow> actors s t = Resting \<and> can_borrow s src
    | Wake t h \<Rightarrow> actors s t = Resting \<and> can_consume s h
    | Drop_waker t h \<Rightarrow> actors s t = Resting \<and> can_consume s h
    | Act t \<Rightarrow> actors s t \<noteq> Resting)"

inductive deque_reachable :: "'v deque \<Rightarrow> bool" where
  new: "deque_reachable deque_new"
| step: "deque_reachable s \<Longrightarrow> allowed x s \<Longrightarrow> exec x s = Some s' \<Longrightarrow> deque_reachable s'"

section \<open>References\<close>

definition pending_at :: "addr \<Rightarrow> 'v slot \<Rightarrow> bool" where
  "pending_at a sl = (case sl of Pending f b \<Rightarrow> b = a | Ready v \<Rightarrow> False)"

definition owner_refs :: "addr \<Rightarrow> owner \<Rightarrow> nat" where
  "owner_refs a c = (case c of
      Release_slot f b k \<Rightarrow> if b = a then 2 else 0
    | Drop_future f b k \<Rightarrow> if b = a then 1 else 0
    | Release_waker b k \<Rightarrow> if b = a then 1 else 0
    | _ \<Rightarrow> 0)"

definition handle_refs :: "addr \<Rightarrow> (nat \<times> addr) list \<Rightarrow> nat" where
  "handle_refs a hs = length (filter (\<lambda>(h, b). b = a) hs)"

definition slot_refs :: "addr \<Rightarrow> 'v slot list \<Rightarrow> nat" where
  "slot_refs a sls = 2 * length (filter (pending_at a) sls)"

definition refs_to :: "'v deque \<Rightarrow> addr \<Rightarrow> nat" where
  "refs_to s a = handle_refs a (handles s) + slot_refs a (slots s) + owner_refs a (owner s)"

definition meta_refs :: "(addr \<Rightarrow> waker_meta option) \<Rightarrow> addr \<Rightarrow> nat" where
  "meta_refs ms a = (case ms a of Some m \<Rightarrow> ref_count m | None \<Rightarrow> 0)"

definition counts_ok :: "'v deque \<Rightarrow> bool" where
  "counts_ok s = (\<forall>a. meta_refs (metas s) a = refs_to s a)"

text \<open>Metadata without references is about to be freed, by exactly one party.\<close>

definition freed_by_owner :: "addr \<Rightarrow> owner \<Rightarrow> bool" where
  "freed_by_owner a c = (case c of Free_meta b k \<Rightarrow> b = a | _ \<Rightarrow> False)"

text \<open>The owner is \<open>None\<close>, a thread is \<open>Some\<close>.\<close>

definition freers :: "'v deque \<Rightarrow> addr \<Rightarrow> nat option set" where
  "freers s a = {p. case p of None \<Rightarrow> freed_by_owner a (owner s) | Some t \<Rightarrow> actors s t = Free a}"

definition zero_at :: "(addr \<Rightarrow> waker_meta option) \<Rightarrow> addr \<Rightarrow> bool" where
  "zero_at ms a = (\<exists>m. ms a = Some m \<and> ref_count m = 0)"

definition freers_ok :: "'v deque \<Rightarrow> bool" where
  "freers_ok s = (\<forall>a. if zero_at (metas s) a then \<exists>p. freers s a = {p} else freers s a = {})"

text \<open>Who uses a waker uses one that exists; who consumes a handle is alone with it.\<close>

definition lent :: "'v deque \<Rightarrow> addr \<Rightarrow> bool" where
  "lent s a = (case owner s of
      In_poll mode i \<Rightarrow> i < length (slots s) \<and> pending_at a (slots s ! i)
    | _ \<Rightarrow> False)"

definition sources_ok :: "'v deque \<Rightarrow> bool" where
  "sources_ok s =
    (distinct (map fst (handles s)) \<and>
     (\<forall>t h. actor_source (actors s t) = Some (Handle h) \<longrightarrow> h \<in> fst ` set (handles s)) \<and>
     (\<forall>t a. actor_source (actors s t) = Some (Slot_waker a) \<longrightarrow> lent s a) \<and>
     (\<forall>t t' h. consumes h (actors s t) \<longrightarrow> actor_source (actors s t') = Some (Handle h) \<longrightarrow> t = t'))"

text \<open>The history: which futures are where.\<close>

definition pending_in :: "'v deque \<Rightarrow> fut \<Rightarrow> bool" where
  "pending_in s f = (\<exists>a. Pending f a \<in> set (slots s))"

definition slot_of :: "(fut \<times> 'v) list \<Rightarrow> fut \<Rightarrow> 'v slot \<Rightarrow> bool" where
  "slot_of done f sl = (case sl of
      Pending g a \<Rightarrow> g = f \<and> f \<notin> fst ` set done
    | Ready v \<Rightarrow> (f, v) \<in> set done)"

definition leaving_future :: "owner \<Rightarrow> fut option" where
  "leaving_future c = (case c of Release_slot f a k \<Rightarrow> Some f | Drop_future f a k \<Rightarrow> Some f | _ \<Rightarrow> None)"

definition rows_ok :: "(fut \<times> 'v) list \<Rightarrow> fut list \<Rightarrow> 'v slot list \<Rightarrow> bool" where
  "rows_ok done fs sls = (list_all2 (slot_of done) fs sls \<and> distinct fs \<and> distinct (map fst done))"

definition taken_ok :: "(fut \<times> 'v) list \<Rightarrow> (fut \<times> 'v) list \<Rightarrow> fut list \<Rightarrow> bool" where
  "taken_ok got done fs = (set got \<subseteq> set done \<and> distinct (map fst got) \<and> fst ` set got \<inter> set fs = {})"

definition known_ok :: "'v deque \<Rightarrow> bool" where
  "known_ok s = (set (line s) \<subseteq> set (pushed s) \<and> fst ` set (completed s) \<subseteq> set (pushed s) \<and>
     set (discarded s) \<subseteq> set (pushed s) \<and> set_option (leaving_future (owner s)) \<subseteq> set (pushed s))"

definition dropped_ok :: "'v deque \<Rightarrow> bool" where
  "dropped_ok s = (distinct (discarded s) \<and> (\<forall>f. pending_in s f \<longrightarrow> f \<notin> set (discarded s)) \<and>
     (\<forall>f. leaving_future (owner s) = Some f \<longrightarrow> f \<notin> set (discarded s) \<and> \<not> pending_in s f))"

definition deque_history_ok :: "'v deque \<Rightarrow> bool" where
  "deque_history_ok s = (rows_ok (completed s) (line s) (slots s) \<and> taken_ok (taken s) (completed s) (line s) \<and>
     known_ok s \<and> dropped_ok s \<and>
     (\<forall>mode i. owner s = In_poll mode i \<longrightarrow> i < length (slots s) \<and> (\<exists>f a. slots s ! i = Pending f a)))"

subsection \<open>Counting\<close>

lemma handle_refs_simps [simp]:
  "handle_refs a [] = 0"
  "handle_refs a ((h, b) # hs) = (if b = a then 1 else 0) + handle_refs a hs"
  by (simp_all add: handle_refs_def)

lemma slot_refs_simps [simp]:
  "slot_refs a [] = 0"
  "slot_refs a (Ready v # sls) = slot_refs a sls"
  "slot_refs a (Pending f b # sls) = (if b = a then 2 else 0) + slot_refs a sls"
  "slot_refs a (sls @ sls') = slot_refs a sls + slot_refs a sls'"
  by (simp_all add: slot_refs_def pending_at_def)

lemma handle_refs_gone: "h \<notin> fst ` set hs \<Longrightarrow> filter (\<lambda>(h', b). h' \<noteq> h) hs = hs"
  by (induction hs) auto

lemma handle_refs_drop:
  "distinct (map fst hs) \<Longrightarrow> map_of hs h = Some b \<Longrightarrow>
   handle_refs a (filter (\<lambda>(h', b). h' \<noteq> h) hs) + (if b = a then 1 else 0) = handle_refs a hs"
proof (induction hs)
  case (Cons x hs)
  obtain h' b' where x: "x = (h', b')" by (cases x)
  show ?case using Cons x by (cases "h' = h") (auto simp: handle_refs_gone)
qed simp

lemma handle_refs_pos: "map_of hs h = Some a \<Longrightarrow> 0 < handle_refs a hs"
  by (induction hs) (auto split: if_splits)

lemma slot_refs_pos: "i < length sls \<Longrightarrow> sls ! i = Pending f a \<Longrightarrow> 2 \<le> slot_refs a sls"
proof (induction sls arbitrary: i)
  case (Cons sl sls)
  then show ?case by (cases i; cases sl) (auto simp: nth_Cons split: nat.splits)
qed simp

lemma slot_refs_update:
  "i < length sls \<Longrightarrow> sls ! i = Pending f b \<Longrightarrow>
   slot_refs a (sls[i := Ready v]) + (if b = a then 2 else 0) = slot_refs a sls"
  using length_filter_update[of i sls "pending_at a" "Ready v"]
  by (auto simp: slot_refs_def pending_at_def)

lemma slot_refs_ready_hd: "slot_is_ready (hd sls) \<Longrightarrow> slot_refs a (tl sls) = slot_refs a sls"
  by (cases sls) (auto simp: slot_is_ready_def split: slot.splits)

lemma slot_refs_ready_last: "sls \<noteq> [] \<Longrightarrow> slot_is_ready (last sls) \<Longrightarrow> slot_refs a (butlast sls) = slot_refs a sls"
  by (cases sls rule: rev_cases) (auto simp: slot_is_ready_def split: slot.splits)

lemma meta_refs_simps [simp]:
  "meta_refs (ms(a := Some m)) c = (if c = a then ref_count m else meta_refs ms c)"
  "meta_refs (ms(a := None)) c = (if c = a then 0 else meta_refs ms c)"
  by (auto simp: meta_refs_def)

lemma meta_refs_at: "ms a = Some m \<Longrightarrow> meta_refs ms a = ref_count m" "ms a = None \<Longrightarrow> meta_refs ms a = 0"
  by (auto simp: meta_refs_def)

lemma counted: "counts_ok s \<Longrightarrow> 0 < refs_to s a \<Longrightarrow> \<exists>m. metas s a = Some m \<and> ref_count m = refs_to s a"
  unfolding counts_ok_def meta_refs_def
  by (metis (no_types, lifting) option.case_eq_if not_gr_zero option.exhaust_sel)

lemma uncounted: "counts_ok s \<Longrightarrow> metas s a = None \<Longrightarrow> refs_to s a = 0"
  unfolding counts_ok_def by (metis meta_refs_at(2))

subsection \<open>Frames and cases of the steps\<close>

lemma owner_refs_simps [simp]:
  "owner_refs a At_rest = 0" "owner_refs a (Scan mode i) = 0" "owner_refs a (In_poll mode i) = 0"
  "owner_refs a (Release_slot f b k) = (if b = a then 2 else 0)"
  "owner_refs a (Drop_future f b k) = (if b = a then 1 else 0)"
  "owner_refs a (Release_waker b k) = (if b = a then 1 else 0)"
  "owner_refs a (Free_meta b k) = 0" "owner_refs a Drain = 0" "owner_refs a Gone = 0"
  "owner_refs a (resumed k) = 0"
  by (auto simp: owner_refs_def resumed_def split: resume.split)

lemma pop_front_frame:
  "pop_front s = (v, s') \<Longrightarrow> metas s' = metas s \<and> handles s' = handles s \<and> owner s' = owner s \<and>
     actors s' = actors s \<and> parent s' = parent s \<and> visited s' = visited s \<and> woken s' = woken s"
  "pop_front s = (v, s') \<Longrightarrow> slot_refs a (slots s') = slot_refs a (slots s)"
  by (auto simp: pop_front_def slot_refs_ready_hd split: if_splits)

lemma pop_back_frame:
  "pop_back s = (v, s') \<Longrightarrow> metas s' = metas s \<and> handles s' = handles s \<and> owner s' = owner s \<and>
     actors s' = actors s \<and> parent s' = parent s \<and> visited s' = visited s \<and> woken s' = woken s"
  "pop_back s = (v, s') \<Longrightarrow> slot_refs a (slots s') = slot_refs a (slots s)"
  by (auto simp: pop_back_def slot_refs_ready_last split: if_splits)

lemma end_poll_cases:
  obtains (only) b where "mode = Only_poll" "end_poll mode s = s\<lparr>owner := At_rest, answer := b\<rparr>"
  | (from_front) v s' b where "mode = Then_front" "pop_front s = (v, s')" "end_poll mode s = s'\<lparr>owner := At_rest, answer := b\<rparr>"
  | (from_back) v s' b where "mode = Then_back" "pop_back s = (v, s')" "end_poll mode s = s'\<lparr>owner := At_rest, answer := b\<rparr>"
proof (cases mode)
  case Only_poll
  then show ?thesis using only by (simp add: end_poll_def)
next
  case Then_front
  obtain v s' where "pop_front s = (v, s')" by (cases "pop_front s")
  with Then_front from_front[of v s'] show ?thesis by (cases v) (simp_all add: end_poll_def)
next
  case Then_back
  obtain v s' where "pop_back s = (v, s')" by (cases "pop_back s")
  with Then_back from_back[of v s'] show ?thesis by (cases v) (simp_all add: end_poll_def)
qed

lemma end_poll_frame [simp]:
  "metas (end_poll mode s) = metas s" "handles (end_poll mode s) = handles s"
  "actors (end_poll mode s) = actors s" "owner (end_poll mode s) = At_rest"
  "parent (end_poll mode s) = parent s" "visited (end_poll mode s) = visited s" "woken (end_poll mode s) = woken s"
  by (cases rule: end_poll_cases[of mode s]; auto dest: pop_front_frame(1) pop_back_frame(1))+

lemma end_poll_slot_refs [simp]: "slot_refs a (slots (end_poll mode s)) = slot_refs a (slots s)"
  by (cases rule: end_poll_cases[of mode s]) (auto dest: pop_front_frame(2) pop_back_frame(2))

lemma counts_at: "counts_ok s \<Longrightarrow> metas s a = Some m \<Longrightarrow> ref_count m = refs_to s a"
  unfolding counts_ok_def by (metis meta_refs_at(1))

lemma owner_in_poll: "deque_history_ok s \<Longrightarrow> owner s = In_poll mode i \<Longrightarrow> i < length (slots s) \<and> (\<exists>f a. slots s ! i = Pending f a)"
  by (simp add: deque_history_ok_def)

lemma zero_at_simps [simp]:
  "zero_at (ms(a := Some m)) c = (if c = a then ref_count m = 0 else zero_at ms c)"
  "zero_at (ms(a := None)) c = (c \<noteq> a \<and> zero_at ms c)"
  by (auto simp: zero_at_def)

lemma zero_at_some: "ms a = Some m \<Longrightarrow> zero_at ms a = (ref_count m = 0)"
  by (simp add: zero_at_def)

lemma owner_freeing:
  assumes "counts_ok s" "freers_ok s" "owner s = Free_meta a k"
  obtains m where "metas s a = Some m" "ref_count m = 0" "refs_to s a = 0" "freers s a = {None}"
proof -
  have "None \<in> freers s a" using assms(3) by (simp add: freers_def freed_by_owner_def)
  then have "zero_at (metas s) a" "freers s a = {None}"
    using assms(2) unfolding freers_ok_def by (metis empty_iff singletonD)+
  with that counts_at[OF assms(1)] show ?thesis by (auto simp: zero_at_def)
qed

lemma thread_freeing:
  assumes "counts_ok s" "freers_ok s" "actors s t = Free a"
  obtains m where "metas s a = Some m" "ref_count m = 0" "refs_to s a = 0" "freers s a = {Some t}"
proof -
  have "Some t \<in> freers s a" using assms(3) by (simp add: freers_def)
  then have "zero_at (metas s) a" "freers s a = {Some t}"
    using assms(2) unfolding freers_ok_def by (metis empty_iff singletonD)+
  with that counts_at[OF assms(1)] show ?thesis by (auto simp: zero_at_def)
qed

lemma owner_step_elim:
  assumes "owner_step r s = Some s'" "counts_ok s" "freers_ok s" "deque_history_ok s"
  obtains (finish) mode i where "owner s = Scan mode i" "length (slots s) \<le> i" "s' = end_poll mode s"
  | (skip) mode i v where "owner s = Scan mode i" "i < length (slots s)" "slots s ! i = Ready v"
      "s' = s\<lparr>owner := Scan mode (Suc i)\<rparr>"
  | (check) mode i f a m where "owner s = Scan mode i" "i < length (slots s)" "slots s ! i = Pending f a"
      "metas s a = Some m" "ref_count m = refs_to s a" "activated m \<Longrightarrow> live_future f s"
      "s' = s\<lparr>metas := (metas s)(a := Some (m\<lparr>activated := False\<rparr>)), visited := a # visited s,
          owner := (if activated m then In_poll mode i else Scan mode (Suc i))\<rparr>"
  | (pending) mode i f a where "owner s = In_poll mode i" "i < length (slots s)" "slots s ! i = Pending f a"
      "r = Future_pending" "s' = s\<lparr>owner := Scan mode (Suc i)\<rparr>"
  | (panics) mode i f a where "owner s = In_poll mode i" "i < length (slots s)" "slots s ! i = Pending f a"
      "r = Future_panics" "s' = s\<lparr>owner := At_rest\<rparr>"
  | (ready) mode i f a v where "owner s = In_poll mode i" "i < length (slots s)" "slots s ! i = Pending f a"
      "r = Future_ready v"
      "s' = s\<lparr>slots := (slots s)[i := Ready v], completed := (f, v) # completed s,
            owner := Release_slot f a (Resume_scan mode (Suc i))\<rparr>"
  | (release_slot) f a k m where "owner s = Release_slot f a k" "metas s a = Some m" "ref_count m = refs_to s a"
      "1 < ref_count m" "s' = s\<lparr>metas := (metas s)(a := Some (drop_ref m)), owner := Drop_future f a k\<rparr>"
  | (drop_future) f a k where "owner s = Drop_future f a k"
      "s' = s\<lparr>discarded := f # discarded s, owner := Release_waker a k\<rparr>"
  | (release_waker) a k m where "owner s = Release_waker a k" "metas s a = Some m" "ref_count m = refs_to s a"
      "0 < ref_count m"
      "s' = s\<lparr>metas := (metas s)(a := Some (drop_ref m)), 
         owner := (if ref_count m = 1 then Free_meta a k else resumed k)\<rparr>"
  | (free_meta) a k m where "owner s = Free_meta a k" "metas s a = Some m" "refs_to s a = 0"
      "s' = s\<lparr>metas := (metas s)(a := None), owner := resumed k\<rparr>"
  | (gone) "owner s = Drain" "slots s = []" "s' = s\<lparr>owner := Gone\<rparr>"
  | (drain_ready) v rest where "owner s = Drain" "slots s = Ready v # rest"
      "s' = s\<lparr>slots := rest, line := tl (line s)\<rparr>"
  | (drain_pending) f a rest where "owner s = Drain" "slots s = Pending f a # rest"
      "s' = s\<lparr>slots := rest, line := tl (line s), owner := Release_slot f a Resume_drain\<rparr>"
proof (cases "owner s")
  case (Scan mode i)
  show ?thesis
  proof (cases "length (slots s) \<le> i")
    case True
    with Scan assms(1) have "s' = end_poll mode s" by (simp add: owner_step_def scan_step_def)
    with Scan True show ?thesis by (rule finish)
  next
    case False
    show ?thesis
    proof (cases "slots s ! i")
      case (Ready v)
      with Scan False assms(1) have "s' = s\<lparr>owner := Scan mode (Suc i)\<rparr>" by (simp add: owner_step_def scan_step_def)
      with Scan False Ready show ?thesis by (intro skip) auto
    next
      case (Pending f a)
      with Scan False assms(1) obtain m where m: "metas s a = Some m"
        by (auto simp: owner_step_def scan_step_def check_activated_def run_simps split: option.splits)
      show ?thesis
        by (rule check[OF Scan _ Pending m counts_at[OF assms(2) m]])
          (use Scan False Pending m assms(1) in \<open>auto simp: owner_step_def scan_step_def check_activated_def
              live_future_def run_simps split: if_splits\<close>)
    qed
  qed
next
  case (In_poll mode i)
  from owner_in_poll[OF assms(4) this] obtain f a where fa: "i < length (slots s)" "slots s ! i = Pending f a" by blast
  show ?thesis
  proof (cases r)
    case Future_pending
    then show ?thesis
      by (rule pending[OF In_poll fa]) (use In_poll fa assms(1) Future_pending in \<open>simp add: owner_step_def future_step_def\<close>)
  next
    case (Future_ready v)
    then show ?thesis
      by (rule ready[OF In_poll fa]) (use In_poll fa assms(1) Future_ready in \<open>simp add: owner_step_def future_step_def\<close>)
  next
    case Future_panics
    then show ?thesis
      by (rule panics[OF In_poll fa]) (use In_poll fa assms(1) Future_panics in \<open>simp add: owner_step_def future_step_def\<close>)
  qed
next
  case (Release_slot f a k)
  then obtain m where m: "metas s a = Some m" "ref_count m = refs_to s a" "1 < ref_count m"
    using counted[OF assms(2), of a] by (auto simp: refs_to_def)
  show ?thesis
    by (rule release_slot[OF Release_slot m])
      (use assms(1) Release_slot m in \<open>auto simp: owner_step_def release_ref_def run_simps\<close>)
next
  case (Release_waker a k)
  then obtain m where m: "metas s a = Some m" "ref_count m = refs_to s a" "0 < ref_count m"
    using counted[OF assms(2), of a] by (auto simp: refs_to_def)
  show ?thesis
    by (rule release_waker[OF Release_waker m])
      (use assms(1) Release_waker m in \<open>auto simp: owner_step_def release_ref_def run_simps\<close>)
next
  case (Free_meta a k)
  from owner_freeing[OF assms(2,3) this] obtain m where m: "metas s a = Some m" "refs_to s a = 0" .
  show ?thesis
    by (rule free_meta[OF Free_meta m]) (use assms(1) Free_meta in \<open>auto simp: owner_step_def free_meta_def split: if_splits\<close>)
next
  case Drain
  show ?thesis
  proof (cases "slots s")
    case Nil
    show ?thesis by (rule gone[OF Drain Nil]) (use Drain Nil assms(1) in \<open>simp add: owner_step_def drain_step_def\<close>)
  next
    case (Cons sl rest)
    show ?thesis
    proof (cases sl)
      case (Pending f a)
      with Cons have sl: "slots s = Pending f a # rest" by simp
      show ?thesis
        by (rule drain_pending[OF Drain sl]) (use Drain sl assms(1) in \<open>simp add: owner_step_def drain_step_def\<close>)
    next
      case (Ready v)
      with Cons have sl: "slots s = Ready v # rest" by simp
      show ?thesis
        by (rule drain_ready[OF Drain sl]) (use Drain sl assms(1) in \<open>simp add: owner_step_def drain_step_def\<close>)
    qed
  qed
next
  case (Drop_future f a k)
  show ?thesis
    by (rule drop_future[OF Drop_future]) (use Drop_future assms(1) in \<open>simp add: owner_step_def\<close>)
next
  case At_rest
  with assms(1) show ?thesis by (simp add: owner_step_def)
next
  case Gone
  with assms(1) show ?thesis by (simp add: owner_step_def)
qed

lemma act_elim:
  assumes "act t s = Some s'" "counts_ok s"
  obtains (swap) src own a m where "actors s t = Swap src own" "source_addr s src = Some a" "metas s a = Some m"
      "ref_count m = refs_to s a"
      "s' = s\<lparr>metas := (metas s)(a := Some (m\<lparr>activated := True\<rparr>)),
          actors := (actors s)(t := if activated m then after_wake src own else Read_parent src own)\<rparr>"
  | (read) src own where "actors s t = Read_parent src own" 
      "s' = s\<lparr>actors := (actors s)(t := Wake_parent src own (parent s))\<rparr>"
  | (wake) src own p where "actors s t = Wake_parent src own p"
      "s' = s\<lparr>woken := (woken s \<or> p = parent s), actors := (actors s)(t := after_wake src own)\<rparr>"
  | (release) h a m where "actors s t = Release h" "map_of (handles s) h = Some a" "metas s a = Some m"
      "ref_count m = refs_to s a"
      "s' = s\<lparr>metas := (metas s)(a := Some (drop_ref m)), handles := filter (\<lambda>(h', b). h' \<noteq> h) (handles s),
          actors := (actors s)(t := if ref_count m = 1 then Free a else Resting)\<rparr>"
  | (free) a where "actors s t = Free a" 
      "s' = s\<lparr>metas := (metas s)(a := None), actors := (actors s)(t := Resting)\<rparr>"
proof (cases "actors s t")
  case (Swap src own)
  with assms(1) obtain a m where a: "source_addr s src = Some a" and m: "metas s a = Some m"
    by (auto simp: act_def set_activated_def run_simps split: option.splits)
  show ?thesis
    by (rule swap[OF Swap a m counts_at[OF assms(2) m]])
      (use Swap a m assms(1) in \<open>auto simp: act_def set_activated_def run_simps\<close>)
next
  case (Release h)
  with assms(1) obtain a m where a: "map_of (handles s) h = Some a" and m: "metas s a = Some m"
    by (auto simp: act_def release_ref_def run_simps split: option.splits)
  show ?thesis
    by (rule release[OF Release a m counts_at[OF assms(2) m]])
      (use Release a m assms(1) in \<open>auto simp: act_def release_ref_def run_simps\<close>)
qed (use assms(1) read wake free in \<open>auto simp: act_def free_meta_def run_simps split: if_splits\<close>)

subsection \<open>The counts are kept\<close>

lemmas counts_unfold = counts_ok_def refs_to_def add_ref_def drop_ref_def

lemma counts_owner:
  assumes "owner_step r s = Some s'" "counts_ok s" "freers_ok s" "deque_history_ok s"
  shows "counts_ok s'"
  using assms
proof (cases rule: owner_step_elim)
  case (ready mode i f a v)
  with assms(2) show ?thesis by (auto simp: counts_unfold slot_refs_update[symmetric])
qed (use assms(2) in \<open>auto simp: counts_unfold\<close>)

lemma counts_act:
  assumes "act t s = Some s'" "counts_ok s" "freers_ok s" "sources_ok s"
  shows "counts_ok s'"
  using assms(1,2)
proof (cases rule: act_elim)
  case (release h a m)
  have d: "distinct (map fst (handles s))" using assms(4) by (simp add: sources_ok_def)
  have "meta_refs (metas s') c = refs_to s' c" for c
    using assms(2) release handle_refs_drop[OF d release(2), of c] by (auto simp: counts_unfold)
  then show ?thesis by (simp add: counts_ok_def)
next
  case (free a)
  from thread_freeing[OF assms(2,3) free(1)] obtain m where "refs_to s a = 0" .
  with assms(2) free(2) show ?thesis by (auto simp: counts_unfold)
qed (use assms(2) in \<open>auto simp: counts_unfold\<close>)

lemma push_counts:
  assumes "counts_ok s" "metas s a = None"
  shows "counts_ok (push_back_handle f a s)" "counts_ok (push_front_handle f a s)"
  using assms uncounted[OF assms]
  by (auto simp: push_back_handle_def push_front_handle_def new_slot_def create_waker_meta_def counts_unfold)

lemma clone_elim:
  assumes "clone_waker src h s = Some s'" "counts_ok s"
  obtains a m where "source_addr s src = Some a" "metas s a = Some m" "ref_count m = refs_to s a"
    "s' = s\<lparr>metas := (metas s)(a := Some (add_ref m)), handles := (h, a) # handles s\<rparr>"
proof -
  from assms(1) obtain a m where a: "source_addr s src = Some a" and m: "metas s a = Some m"
    by (auto simp: clone_waker_def with_meta_def run_simps split: option.splits)
  show ?thesis
    by (rule that[OF a m counts_at[OF assms(2) m]]) (use a m assms(1) in \<open>auto simp: clone_waker_def with_meta_def\<close>)
qed

lemma exec_elim:
  assumes "exec x s = Some s'"
  obtains (push_back) f a where "x = Push_back f a" "s' = push_back_handle f a s"
  | (push_front) f a where "x = Push_front f a" "s' = push_front_handle f a s"
  | (pop_front) v t where "x = Pop_front" "pop_front s = (v, t)" "s' = t\<lparr>answer := Popped v\<rparr>"
  | (pop_back) v t where "x = Pop_back" "pop_back s = (v, t)" "s' = t\<lparr>answer := Popped v\<rparr>"
  | (poll) mode w where "x = Poll mode w" "s' = begin_poll mode w s"
  | (drop_deque) "x = Drop_deque" "s' = s\<lparr>owner := Drain\<rparr>"
  | (own) r where "x = Own r" "owner_step r s = Some s'"
  | (clone) src h where "x = Clone_waker src h" "clone_waker src h s = Some s'"
  | (start) t c where "x = Wake_by_ref t c" "s' = s\<lparr>actors := (actors s)(t := Swap c False)\<rparr>"
  | (wake) t h where "x = Wake t h" "s' = s\<lparr>actors := (actors s)(t := Swap (Handle h) True)\<rparr>"
  | (dropping) t h where "x = Drop_waker t h" "s' = s\<lparr>actors := (actors s)(t := Release h)\<rparr>"
  | (act) t where "x = Act t" "act t s = Some s'"
proof (cases x)
  case (Push_back f a)
  show ?thesis by (rule push_back[OF Push_back]) (use Push_back assms in \<open>simp add: exec_def\<close>)
next
  case (Push_front f a)
  show ?thesis by (rule push_front[OF Push_front]) (use Push_front assms in \<open>simp add: exec_def\<close>)
next
  case (Poll mode w)
  show ?thesis by (rule poll[OF Poll]) (use Poll assms in \<open>simp add: exec_def\<close>)
next
  case Drop_deque
  show ?thesis by (rule drop_deque[OF Drop_deque]) (use Drop_deque assms in \<open>simp add: exec_def\<close>)
next
  case (Own r)
  show ?thesis by (rule own[OF Own]) (use Own assms in \<open>simp add: exec_def\<close>)
next
  case (Clone_waker src h)
  show ?thesis by (rule clone[OF Clone_waker]) (use Clone_waker assms in \<open>simp add: exec_def\<close>)
next
  case (Wake_by_ref t c)
  show ?thesis by (rule start[OF Wake_by_ref]) (use Wake_by_ref assms in \<open>simp add: exec_def\<close>)
next
  case (Wake t h)
  show ?thesis by (rule wake[OF Wake]) (use Wake assms in \<open>simp add: exec_def\<close>)
next
  case (Drop_waker t h)
  show ?thesis by (rule dropping[OF Drop_waker]) (use Drop_waker assms in \<open>simp add: exec_def\<close>)
next
  case (Act t)
  show ?thesis by (rule act[OF Act]) (use Act assms in \<open>simp add: exec_def\<close>)
next
  case Pop_front
  obtain v t where vt: "pop_front s = (v, t)" by (cases "pop_front s")
  show ?thesis by (rule pop_front[OF Pop_front vt]) (use Pop_front vt assms in \<open>simp add: exec_def\<close>)
next
  case Pop_back
  obtain v t where vt: "pop_back s = (v, t)" by (cases "pop_back s")
  show ?thesis by (rule pop_back[OF Pop_back vt]) (use Pop_back vt assms in \<open>simp add: exec_def\<close>)
qed

lemma counts_exec:
  assumes "exec x s = Some s'" "allowed x s" "counts_ok s" "freers_ok s" "sources_ok s" "deque_history_ok s" 
  shows "counts_ok s'"
  using assms(1)
proof (cases rule: exec_elim)
  case (push_back f a)
  with assms(2,3) push_counts(1)[of s a f] show ?thesis by (simp add: allowed_def)
next
  case (push_front f a)
  with assms(2,3) push_counts(2)[of s a f] show ?thesis by (simp add: allowed_def)
next
  case (pop_front v t)
  from pop_front_frame[OF pop_front(2)] pop_front(3) assms(3) show ?thesis by (simp add: counts_unfold)
next
  case (pop_back v t)
  from pop_back_frame[OF pop_back(2)] pop_back(3) assms(3) show ?thesis by (simp add: counts_unfold)
next
  case (clone src h)
  from clone_elim[OF clone(2) assms(3)] obtain a m where "metas s a = Some m" "ref_count m = refs_to s a"
    "s' = s\<lparr>metas := (metas s)(a := Some (add_ref m)), handles := (h, a) # handles s\<rparr>" .
  with assms(3) show ?thesis by (auto simp: counts_unfold)
next
  case (own r)
  from counts_owner[OF own(2) assms(3,4,6)] show ?thesis .
next
  case (act t)
  from counts_act[OF act(2) assms(3,4,5)] show ?thesis .
qed (use assms(2,3) in \<open>simp_all add: allowed_def begin_poll_def counts_unfold\<close>)

subsection \<open>Freeing is exclusive\<close>

lemma freed_by_owner_simps [simp]:
  "\<not> freed_by_owner a At_rest" "\<not> freed_by_owner a (Scan mode i)" "\<not> freed_by_owner a (In_poll mode i)"
  "\<not> freed_by_owner a (Release_slot f b k)" "\<not> freed_by_owner a (Drop_future f b k)"
  "\<not> freed_by_owner a (Release_waker b k)" "freed_by_owner a (Free_meta b k) = (b = a)"
  "\<not> freed_by_owner a Drain" "\<not> freed_by_owner a Gone" "\<not> freed_by_owner a (resumed k)"
  by (auto simp: freed_by_owner_def resumed_def split: resume.split)

lemma after_wake_not_free [simp]: "after_wake src own \<noteq> Free a"
  by (simp add: after_wake_def split: source.split)

lemma freers_mem [simp]:
  "(None \<in> freers s a) = freed_by_owner a (owner s)" "(Some t \<in> freers s a) = (actors s t = Free a)"
  by (simp_all add: freers_def)

lemma freers_eqI:
  assumes "freed_by_owner a (owner s) = (None \<in> A)" "\<And>t. (actors s t = Free a) = (Some t \<in> A)"
  shows "freers s a = A"
proof (rule set_eqI)
  fix p show "(p \<in> freers s a) = (p \<in> A)" using assms by (cases p) simp_all
qed

text \<open>Neither the owner nor a thread starts or stops freeing, and no count becomes or stops being zero.\<close>

lemma freers_same:
  assumes "freers_ok s" "\<And>a. freed_by_owner a (owner s') = freed_by_owner a (owner s)"
    "\<And>t a. (actors s' t = Free a) = (actors s t = Free a)" "\<And>a. zero_at (metas s') a = zero_at (metas s) a"
  shows "freers_ok s'"
proof -
  have "freers s' a = freers s a" for a by (rule freers_eqI) (simp_all add: assms(2,3))
  with assms(1,4) show ?thesis by (simp add: freers_ok_def)
qed

lemma freers_owner:
  assumes "owner_step r s = Some s'" "counts_ok s" "freers_ok s" "deque_history_ok s"
  shows "freers_ok s'"
  using assms
proof (cases rule: owner_step_elim)
  case (release_waker a k m)
  have "freers s a = {}" using assms(3) release_waker(2,4) by (simp add: freers_ok_def zero_at_some)
  moreover have "freers s' c = (if ref_count m = 1 \<and> c = a then insert None (freers s c) else freers s c)" for c
    by (rule freers_eqI) (use release_waker(1,5) in simp_all)
  ultimately show ?thesis
    using assms(3) release_waker(4,5) by (auto simp: freers_ok_def drop_ref_def)
next
  case (free_meta a k m)
  have "freers s' c = freers s c - {None}" for c
    by (rule freers_eqI) (use free_meta(1,4) in simp_all)
  moreover have "freers s a = {None}" using owner_freeing[OF assms(2,3) free_meta(1)] by metis
  moreover have "c \<noteq> a \<Longrightarrow> None \<notin> freers s c" for c using free_meta(1) by simp
  ultimately show ?thesis
    using assms(3) free_meta(4) by (auto simp: freers_ok_def)
next
  case (check mode i f a m)
  show ?thesis by (rule freers_same[OF assms(3)]) (use check in \<open>simp_all add: zero_at_some\<close>)
next
  case (release_slot f a k m)
  show ?thesis by (rule freers_same[OF assms(3)]) (use release_slot in \<open>simp_all add: zero_at_some drop_ref_def\<close>)
qed (rule freers_same[OF assms(3)]; simp)+

lemma freers_act:
  assumes "act t s = Some s'" "counts_ok s" "freers_ok s"
  shows "freers_ok s'"
  using assms(1,2)
proof (cases rule: act_elim)
  case (release h a m)
  have pos: "0 < ref_count m"
    using release(2,4) handle_refs_pos[of "handles s" h a] by (simp add: refs_to_def)
  have "freers s a = {}" using assms(3) release(3) pos by (simp add: freers_ok_def zero_at_some)
  moreover have "freers s' c = (if ref_count m = 1 \<and> c = a then insert (Some t) (freers s c) else freers s c)" for c
    by (rule freers_eqI) (use release(1,5) in simp_all)
  ultimately show ?thesis
    using assms(3) release(5) pos by (auto simp: freers_ok_def drop_ref_def)
next
  case (free a)
  have "freers s' c = freers s c - {Some t}" for c
    by (rule freers_eqI) (use free in simp_all)
  moreover have "freers s a = {Some t}" using thread_freeing[OF assms(2,3) free(1)] by metis
  moreover have "c \<noteq> a \<Longrightarrow> Some t \<notin> freers s c" for c using free(1) by simp
  ultimately show ?thesis
    using assms(3) free(2) by (auto simp: freers_ok_def)
next
  case (swap src own a m)
  show ?thesis by (rule freers_same[OF assms(3)]) (use swap in \<open>simp_all add: zero_at_some\<close>)
qed (rule freers_same[OF assms(3)]; simp)+

lemma freers_push:
  assumes "freers_ok s" "metas s a = None"
  shows "freers_ok (push_back_handle f a s)" "freers_ok (push_front_handle f a s)"
proof -
  have z: "\<not> zero_at (metas s) a" using assms(2) by (simp add: zero_at_def)
  show "freers_ok (push_back_handle f a s)" "freers_ok (push_front_handle f a s)"
    by (rule freers_same[OF assms(1)]; use z in
      \<open>simp add: push_back_handle_def push_front_handle_def new_slot_def create_waker_meta_def add_ref_def\<close>)+
qed

lemma borrowed_counted:
  assumes "can_borrow s src" "source_addr s src = Some a"
  shows "0 < refs_to s a"
proof (cases src)
  case (Handle h)
  with assms(2) handle_refs_pos[of "handles s" h a] show ?thesis by (simp add: source_addr_def refs_to_def)
next
  case (Slot_waker b)
  with assms obtain mode i f where "owner s = In_poll mode i" "i < length (slots s)" "slots s ! i = Pending f a"
    by (auto simp: can_borrow_def source_addr_def split: owner.splits)
  with slot_refs_pos[of i "slots s" f a] show ?thesis by (simp add: refs_to_def)
qed

lemma freers_exec:
  assumes "exec x s = Some s'" "allowed x s" "counts_ok s" "freers_ok s" "sources_ok s" "deque_history_ok s" 
  shows "freers_ok s'"
  using assms(1)
proof (cases rule: exec_elim)
  case (push_back f a)
  with assms(2,4) freers_push(1)[of s a f] show ?thesis by (simp add: allowed_def)
next
  case (push_front f a)
  with assms(2,4) freers_push(2)[of s a f] show ?thesis by (simp add: allowed_def)
next
  case (pop_front v t)
  show ?thesis
    by (rule freers_same[OF assms(4)]) (use pop_front_frame(1)[OF pop_front(2)] pop_front(3) in simp_all)
next
  case (pop_back v t)
  show ?thesis
    by (rule freers_same[OF assms(4)]) (use pop_back_frame(1)[OF pop_back(2)] pop_back(3) in simp_all)
next
  case (clone src h)
  from clone_elim[OF clone(2) assms(3)] obtain a m where a: "source_addr s src = Some a" and am: "metas s a = Some m" "ref_count m = refs_to s a"
    "s' = s\<lparr>metas := (metas s)(a := Some (add_ref m)), handles := (h, a) # handles s\<rparr>" .
  have "0 < ref_count m" using borrowed_counted[OF _ a] assms(2) clone(1) am(2) by (simp add: allowed_def)
  with am show ?thesis
    by (intro freers_same[OF assms(4)]) (simp_all add: zero_at_some add_ref_def)
next
  case (own r)
  from freers_owner[OF own(2) assms(3,4,6)] show ?thesis .
next
  case (act t)
  from freers_act[OF act(2) assms(3,4)] show ?thesis .
next
  case (poll mode w)
  show ?thesis by (rule freers_same[OF assms(4)]) (use poll assms(2) in \<open>simp_all add: allowed_def begin_poll_def\<close>)
next
  case drop_deque
  show ?thesis by (rule freers_same[OF assms(4)]) (use drop_deque assms(2) in \<open>simp_all add: allowed_def\<close>)
next
  case (start t c)
  show ?thesis by (rule freers_same[OF assms(4)]) (use start assms(2) in \<open>simp_all add: allowed_def\<close>)
next
  case (wake t h)
  show ?thesis by (rule freers_same[OF assms(4)]) (use wake assms(2) in \<open>simp_all add: allowed_def\<close>)
next
  case (dropping t h)
  show ?thesis by (rule freers_same[OF assms(4)]) (use dropping assms(2) in \<open>simp_all add: allowed_def\<close>)
qed

subsection \<open>Wakers are used while they exist\<close>

lemma sourcesD:
  assumes "sources_ok s"
  shows "distinct (map fst (handles s))"
    "actor_source (actors s t) = Some (Handle h) \<Longrightarrow> h \<in> fst ` set (handles s)"
    "actor_source (actors s t) = Some (Slot_waker a) \<Longrightarrow> lent s a"
    "consumes h (actors s t) \<Longrightarrow> actor_source (actors s t') = Some (Handle h) \<Longrightarrow> t = t'"
  using assms unfolding sources_ok_def by blast+

lemma actor_source_simps [simp]:
  "actor_source Resting = None" "actor_source (Swap src own) = Some src" "actor_source (Read_parent src own) = Some src"
  "actor_source (Wake_parent src own p) = Some src" "actor_source (Release h) = Some (Handle h)"
  "actor_source (Free a) = None"
  by (simp_all add: actor_source_def)

lemma consumes_simps [simp]:
  "\<not> consumes h Resting" "consumes h (Swap src own) = (own \<and> src = Handle h)"
  "consumes h (Read_parent src own) = (own \<and> src = Handle h)"
  "consumes h (Wake_parent src own p) = (own \<and> src = Handle h)"
  "consumes h (Release h') = (h' = h)" "\<not> consumes h (Free a)"
  by (simp_all add: consumes_def)

lemma consumes_source: "consumes h c \<Longrightarrow> actor_source c = Some (Handle h)"
  by (auto simp: consumes_def actor_source_def split: actor.splits)

lemma after_wake_source:
  "actor_source (after_wake src own) = Some x \<Longrightarrow> x = src \<and> own"
  "consumes h (after_wake src own) \<Longrightarrow> src = Handle h \<and> own"
  by (auto simp: after_wake_def actor_source_def consumes_def split: source.splits if_splits)

lemma lent_cong: "owner s' = owner s \<Longrightarrow> slots s' = slots s \<Longrightarrow> lent s' a = lent s a"
  by (simp add: lent_def cong: owner.case_cong)

lemma sources_same:
  assumes "sources_ok s" "handles s' = handles s" "actors s' = actors s"
    "\<And>t a. actor_source (actors s t) = Some (Slot_waker a) \<Longrightarrow> lent s a \<Longrightarrow> lent s' a"
  shows "sources_ok s'"
  using assms(1,4) unfolding sources_ok_def assms(2,3) by blast

lemma sources_actor:
  assumes "sources_ok s" "handles s' = handles s" "owner s' = owner s" "slots s' = slots s"
    "actors s' = (actors s)(t := c)"
    "\<And>x. actor_source c = Some x \<Longrightarrow> actor_source (actors s t) = Some x"
    "\<And>h. consumes h c \<Longrightarrow> consumes h (actors s t)"
  shows "sources_ok s'"
proof -
  have src: "actor_source (actors s' u) = Some x \<Longrightarrow> actor_source (actors s u) = Some x" for u x
    using assms(5,6) by (auto split: if_splits)
  have con: "consumes h (actors s' u) \<Longrightarrow> consumes h (actors s u)" for u h
    using assms(5,7) by (auto split: if_splits)
  show ?thesis
    unfolding sources_ok_def assms(2) lent_cong[OF assms(3,4)]
    using sourcesD[OF assms(1)] src con by blast
qed

lemma sources_owner:
  assumes "owner_step r s = Some s'" "allowed (Own r) s" "counts_ok s" "freers_ok s" "sources_ok s" "deque_history_ok s"
  shows "sources_ok s'"
proof -
  have none: "actor_source (actors s t) \<noteq> Some (Slot_waker a)" for t a
  proof (cases "\<exists>mode i. owner s = In_poll mode i")
    case True
    with assms(2) show ?thesis by (auto simp: allowed_def)
  next
    case False
    then have "\<not> lent s a" by (auto simp: lent_def split: owner.splits)
    with sourcesD(3)[OF assms(5)] show ?thesis by blast
  qed
  have "handles s' = handles s \<and> actors s' = actors s"
    using assms(1,3,4,6) by (cases rule: owner_step_elim) simp_all
  then show ?thesis using none by (intro sources_same[OF assms(5)]) simp_all
qed

lemma sources_act:
  assumes "act t s = Some s'" "counts_ok s" "sources_ok s"
  shows "sources_ok s'"
  using assms(1,2)
proof (cases rule: act_elim)
  case (swap src own a m)
  define c where "c = (if activated m then after_wake src own else Read_parent src own)"
  have src: "actor_source c = Some x \<Longrightarrow> x = src" and con: "consumes h c \<Longrightarrow> own \<and> src = Handle h" for x h
    unfolding c_def by (auto split: if_splits dest: after_wake_source)
  have s': "s' = s\<lparr>metas := (metas s)(a := Some (m\<lparr>activated := True\<rparr>)), actors := (actors s)(t := c)\<rparr>"
    using swap(5) by (simp add: c_def)
  show ?thesis
    by (rule sources_actor[OF assms(3), of s' t c]) (use swap(1) in \<open>auto simp: s' dest: src con\<close>)
next
  case (read src own)
  show ?thesis by (rule sources_actor[OF assms(3), of s' t]) (use read in auto)
next
  case (wake src own p)
  show ?thesis
    by (rule sources_actor[OF assms(3), of s' t]) (use wake in \<open>auto dest: after_wake_source\<close>)
next
  case (free a)
  show ?thesis by (rule sources_actor[OF assms(3), of s' t]) (use free in auto)
next
  case (release h a m)
  have alone: "actor_source (actors s u) = Some (Handle h) \<Longrightarrow> u = t" for u
    using sourcesD(4)[OF assms(3), of h t u] release(1) by (simp add: consumes_def)
  have src: "actor_source (actors s' u) = Some x \<Longrightarrow> actor_source (actors s u) = Some x \<and> u \<noteq> t" for u x
    using release(5) by (auto simp: actor_source_def split: if_splits)
  have con: "consumes h' (actors s' u) \<Longrightarrow> consumes h' (actors s u)" for u h'
    using release(5) by (auto simp: consumes_def split: if_splits)
  have hs: "handles s' = filter (\<lambda>(h', b). h' \<noteq> h) (handles s)" using release(5) by simp
  have same: "owner s' = owner s" "slots s' = slots s" using release(5) by simp_all
  have "distinct (map fst (handles s'))"
    using sourcesD(1)[OF assms(3)] unfolding hs by (simp add: distinct_map_filter)
  moreover have "h' \<in> fst ` set (handles s')" if "actor_source (actors s' u) = Some (Handle h')" for u h'
  proof -
    from src[OF that] have *: "actor_source (actors s u) = Some (Handle h')" "u \<noteq> t" by simp_all
    with alone have "h' \<noteq> h" by blast
    with sourcesD(2)[OF assms(3) *(1)] show ?thesis unfolding hs by force
  qed
  ultimately show ?thesis
    unfolding sources_ok_def lent_cong[OF same] using sourcesD(3,4)[OF assms(3)] src con by blast
qed

lemma borrow_lent: "can_borrow s (Slot_waker a) \<Longrightarrow> lent s a"
  by (auto simp: can_borrow_def lent_def pending_at_def split: owner.splits)

lemma sources_start:
  assumes "sources_ok s" "actor_source (actors s t) = None" "actor_source c = Some x" "s' = s\<lparr>actors := (actors s)(t := c)\<rparr>"
    "can_borrow s x" "\<And>h. consumes h c \<Longrightarrow> x = Handle h \<and> can_consume s h"
  shows "sources_ok s'"
proof -
  have h: "h \<in> fst ` set (handles s)" if "actor_source (actors s' u) = Some (Handle h)" for u h
    using that assms(3-5) sourcesD(2)[OF assms(1), of u h] by (cases "u = t") (simp_all add: can_borrow_def)
  have l: "lent s' a" if "actor_source (actors s' u) = Some (Slot_waker a)" for u a
  proof (cases "u = t")
    case True
    with that assms(3-5) have "lent s a" by (simp add: borrow_lent)
    then show ?thesis using lent_cong[of s' s a] by (simp add: assms(4))
  next
    case False
    with that assms(4) sourcesD(3)[OF assms(1), of u a] have "lent s a" by simp
    then show ?thesis using lent_cong[of s' s a] by (simp add: assms(4))
  qed
  have c: "u = u'" if "consumes h (actors s' u)" "actor_source (actors s' u') = Some (Handle h)" for u u' h
  proof (rule ccontr)
    assume ne: "u \<noteq> u'"
    show False
    proof (cases "u = t")
      case True
      with that(1) assms(4) have "consumes h c" by simp
      with assms(6) have "can_consume s h" by blast
      moreover have "actor_source (actors s u') = Some (Handle h)" using that(2) ne True assms(4) by simp
      ultimately show False unfolding can_consume_def by blast
    next
      case False
      with that(1) assms(4) have cu: "consumes h (actors s u)" by simp
      show False
      proof (cases "u' = t")
        case True
        with that(2) assms(3,4) have "x = Handle h" by simp
        with cu assms(5) show False by (simp add: can_borrow_def)
      next
        case False
        with that(2) assms(4) have "actor_source (actors s u') = Some (Handle h)" by simp
        from sourcesD(4)[OF assms(1) cu this] ne show False by simp
      qed
    qed
  qed
  show ?thesis
    unfolding sources_ok_def
  proof (intro conjI allI impI)
    show "distinct (map fst (handles s'))" using sourcesD(1)[OF assms(1)] by (simp add: assms(4))
  next
    fix u h' assume "actor_source (actors s' u) = Some (Handle h')"
    from h[OF this] show "h' \<in> fst ` set (handles s')" by (simp add: assms(4))
  qed (rule l c, assumption+)+
qed

lemma consume_borrow: "can_consume s h \<Longrightarrow> can_borrow s (Handle h)"
  by (auto simp: can_consume_def can_borrow_def dest: consumes_source)

lemma sources_exec:
  assumes "exec x s = Some s'" "allowed x s" "counts_ok s" "freers_ok s" "sources_ok s" "deque_history_ok s" 
  shows "sources_ok s'"
proof -
  have rest: "sources_ok s'" if "owner s = At_rest" "handles s' = handles s" "actors s' = actors s"
    by (rule sources_same[OF assms(5) that(2,3)]) (use that(1) in \<open>simp add: lent_def\<close>)
  show ?thesis
    using assms(1)
  proof (cases rule: exec_elim)
    case (push_back f a)
    with assms(2) show ?thesis by (intro rest) (simp_all add: allowed_def push_back_handle_def new_slot_def)
  next
    case (push_front f a)
    with assms(2) show ?thesis by (intro rest) (simp_all add: allowed_def push_front_handle_def new_slot_def)
  next
    case (pop_front v t)
    with assms(2) pop_front_frame(1)[OF pop_front(2)] show ?thesis by (intro rest) (simp_all add: allowed_def)
  next
    case (pop_back v t)
    with assms(2) pop_back_frame(1)[OF pop_back(2)] show ?thesis by (intro rest) (simp_all add: allowed_def)
  next
    case (poll mode w)
    with assms(2) show ?thesis by (intro rest) (simp_all add: allowed_def begin_poll_def)
  next
    case drop_deque
    with assms(2) show ?thesis by (intro rest) (simp_all add: allowed_def)
  next
    case (own r)
    from sources_owner[OF own(2) _ assms(3-6)] assms(2) own(1) show ?thesis by simp
  next
    case (act t)
    from sources_act[OF act(2) assms(3,5)] show ?thesis .
  next
    case (clone src h)
    from clone_elim[OF clone(2) assms(3)] obtain a m where
      s': "s' = s\<lparr>metas := (metas s)(a := Some (add_ref m)), handles := (h, a) # handles s\<rparr>" by metis
    have new: "h \<notin> fst ` set (handles s)" using assms(2) clone(1) by (simp add: allowed_def)
    have l: "lent s' b = lent s b" for b by (rule lent_cong) (simp_all add: s')
    show ?thesis
      unfolding sources_ok_def l using sourcesD[OF assms(5)] new by (auto simp: s')
  next
    case (start t c)
    show ?thesis
      by (rule sources_start[OF assms(5) _ _ start(2), where x = c])
        (use start(1) assms(2) in \<open>simp_all add: allowed_def actor_source_def consumes_def\<close>)
  next
    case (wake t h)
    show ?thesis
      by (rule sources_start[OF assms(5) _ _ wake(2), where x = "Handle h"])
        (use wake(1) assms(2) consume_borrow[of s h] in \<open>simp_all add: allowed_def actor_source_def consumes_def\<close>)
  next
    case (dropping t h)
    show ?thesis
      by (rule sources_start[OF assms(5) _ _ dropping(2), where x = "Handle h"])
        (use dropping(1) assms(2) consume_borrow[of s h] in \<open>simp_all add: allowed_def actor_source_def consumes_def\<close>)
  qed
qed

subsection \<open>The history is kept\<close>

lemma leaving_future_simps [simp]:
  "leaving_future At_rest = None" "leaving_future (Scan mode i) = None" "leaving_future (In_poll mode i) = None"
  "leaving_future (Release_slot f a k) = Some f" "leaving_future (Drop_future f a k) = Some f" "leaving_future (Release_waker a k) = None"
  "leaving_future (Free_meta a k) = None" "leaving_future Drain = None" "leaving_future Gone = None" "leaving_future (resumed k) = None"
  by (auto simp: leaving_future_def resumed_def split: resume.split)

lemma slot_of_simps [simp]:
  "slot_of done f (Pending g a) = (g = f \<and> f \<notin> fst ` set done)" "slot_of done f (Ready v) = ((f, v) \<in> set done)"
  by (simp_all add: slot_of_def)

lemma resumed_not_in_poll [simp]: "resumed k \<noteq> In_poll mode i" "In_poll mode i \<noteq> resumed k"
  by (auto simp: resumed_def split: resume.splits)

lemma rows_nth:
  assumes "rows_ok done fs sls" "i < length sls" "sls ! i = Pending f a"
  shows "i < length fs" "fs ! i = f" "f \<notin> fst ` set done"
  using assms list_all2_lengthD[of "slot_of done" fs sls] list_all2_nthD2[of "slot_of done" fs sls i]
  by (auto simp: rows_ok_def)

lemma rows_ready:
  assumes "rows_ok done fs sls" "i < length sls" "sls ! i = Pending f a"
  shows "rows_ok ((f, v) # done) fs (sls[i := Ready v])"
proof -
  have len: "length fs = length sls" and d: "distinct fs" and dd: "distinct (map fst done)"
    using assms(1) by (auto simp: rows_ok_def list_all2_lengthD)
  note at = rows_nth[OF assms]
  have "slot_of ((f, v) # done) (fs ! j) (sls[i := Ready v] ! j)" if j: "j < length fs" for j
  proof (cases "j = i")
    case True
    with at j len show ?thesis by simp
  next
    case False
    with d at j have "fs ! j \<noteq> f" by (metis nth_eq_iff_index_eq)
    moreover have "slot_of done (fs ! j) (sls ! j)"
      using assms(1) j by (simp add: rows_ok_def list_all2_nthD)
    ultimately show ?thesis using False by (cases "sls ! j") auto
  qed
  then have "list_all2 (slot_of ((f, v) # done)) fs (sls[i := Ready v])"
    using len by (simp add: list_all2_conv_all_nth)
  with d dd at(3) show ?thesis by (simp add: rows_ok_def)
qed

lemma rows_tl: "rows_ok done fs sls \<Longrightarrow> rows_ok done (tl fs) (tl sls)"
  by (cases fs; cases sls) (auto simp: rows_ok_def)

lemma rows_pending_once:
  assumes "rows_ok done fs (Pending f a # sls)"
  shows "f \<notin> set (tl fs)" "Pending f b \<notin> set sls"
proof -
  obtain rest where fs: "fs = f # rest" "list_all2 (slot_of done) rest sls" "f \<notin> set rest"
    using assms by (auto simp: rows_ok_def list_all2_Cons2)
  then show "f \<notin> set (tl fs)" by simp
  show "Pending f b \<notin> set sls"
  proof
    assume "Pending f b \<in> set sls"
    then obtain i where "i < length sls" "sls ! i = Pending f b" by (auto simp: in_set_conv_nth)
    with fs(2) have "i < length rest" "rest ! i = f"
      by (auto simp: list_all2_conv_all_nth)
    with fs(3) show False by (metis nth_mem)
  qed
qed

lemma rows_pending_in_line: "rows_ok done fs sls \<Longrightarrow> Pending f a \<in> set sls \<Longrightarrow> f \<in> set fs"
  unfolding rows_ok_def by (metis in_set_conv_nth list_all2_lengthD list_all2_nthD2 slot_of_simps(1))

lemma rows_pending_unique:
  assumes "rows_ok done fs sls" "i < length sls" "sls ! i = Pending f a" "Pending g b \<in> set (sls[i := Ready v])"
  shows "g \<noteq> f \<and> Pending g b \<in> set sls"
proof -
  from assms(4) obtain j where j: "j < length sls" "sls[i := Ready v] ! j = Pending g b"
    by (auto simp: in_set_conv_nth)
  then have ji: "j \<noteq> i" "sls ! j = Pending g b" by (cases "j = i"; simp)+
  have "fs ! j = g" "fs ! i = f" "i < length fs" "j < length fs" "distinct fs"
    using rows_nth[OF assms(1-3)] rows_nth[OF assms(1) j(1) ji(2)] assms(1) by (simp_all add: rows_ok_def)
  with ji(1) have "g \<noteq> f" by (metis nth_eq_iff_index_eq)
  with ji j show ?thesis by (metis nth_mem)
qed

lemma ready_row:
  assumes "rows_ok done fs sls" "i < length sls" "slot_is_ready (sls ! i)"
  shows "(fs ! i, the (take_value (sls ! i))) \<in> set done" "i < length fs"
  using assms list_all2_lengthD[of "slot_of done" fs sls] list_all2_nthD2[of "slot_of done" fs sls i]
  by (auto simp: rows_ok_def slot_is_ready_def take_value_def split: slot.splits)

lemma historyD:
  assumes "deque_history_ok s"
  shows "rows_ok (completed s) (line s) (slots s)" "taken_ok (taken s) (completed s) (line s)" "known_ok s" "dropped_ok s"
    "owner s = In_poll mode i \<Longrightarrow> i < length (slots s) \<and> (\<exists>f a. slots s ! i = Pending f a)"
  using assms unfolding deque_history_ok_def by blast+

lemma pop_front_history:
  assumes "pop_front s = (v, s')" "deque_history_ok s" "leaving_future (owner s) = None" "\<And>mode i. owner s \<noteq> In_poll mode i"
  shows "rows_ok (completed s') (line s') (slots s')" "taken_ok (taken s') (completed s') (line s')"
    "known_ok s'" "dropped_ok s'"
proof -
  note h = historyD[OF assms(2)]
  have *: "rows_ok (completed s') (line s') (slots s') \<and> taken_ok (taken s') (completed s') (line s') \<and>
    known_ok s' \<and> dropped_ok s'"
  proof (cases "slots s \<noteq> [] \<and> slot_is_ready (hd (slots s))")
    case True
    then obtain sl sls where sls: "slots s = sl # sls" "slot_is_ready sl" by (cases "slots s") auto
    obtain f fs where fs: "line s = f # fs" using h(1) sls by (auto simp: rows_ok_def list_all2_Cons2)
    have res: "(f, the (take_value sl)) \<in> set (completed s)" using ready_row(1)[OF h(1), of 0] sls fs by simp
    have s': "s' = s\<lparr>slots := sls, line := fs, taken := taken s @ [(f, the (take_value sl))]\<rparr>"
      using assms(1) sls fs by (auto simp: pop_front_def)
    have "rows_ok (completed s) fs sls" using rows_tl[OF h(1)] sls fs by simp
    moreover have "taken_ok (taken s') (completed s') fs"
      using h(2) res h(1) fs s' by (auto simp: taken_ok_def rows_ok_def)
    ultimately show ?thesis
      using h(3,4) sls fs assms(3) by (auto simp: s' known_ok_def dropped_ok_def pending_in_def)
  next
    case False
    then have "s' = s" using assms(1) by (auto simp: pop_front_def split: if_splits)
    with h show ?thesis by simp
  qed
  then show "rows_ok (completed s') (line s') (slots s')" "taken_ok (taken s') (completed s') (line s')"
    "known_ok s'" "dropped_ok s'" by blast+
qed

lemma pop_back_history:
  assumes "pop_back s = (v, s')" "deque_history_ok s" "leaving_future (owner s) = None" "\<And>mode i. owner s \<noteq> In_poll mode i"
  shows "rows_ok (completed s') (line s') (slots s')" "taken_ok (taken s') (completed s') (line s')"
    "known_ok s'" "dropped_ok s'"
proof -
  note h = historyD[OF assms(2)]
  have *: "rows_ok (completed s') (line s') (slots s') \<and> taken_ok (taken s') (completed s') (line s') \<and>
    known_ok s' \<and> dropped_ok s'"
  proof (cases "slots s \<noteq> [] \<and> slot_is_ready (last (slots s))")
    case True
    then obtain sl sls where sls: "slots s = sls @ [sl]" "slot_is_ready sl" by (cases "slots s" rule: rev_cases) auto
    have ne: "line s \<noteq> []" using h(1) sls by (auto simp: rows_ok_def)
    obtain f fs where fs: "line s = fs @ [f]" using ne by (cases "line s" rule: rev_cases) auto
    have len: "length fs = length sls" using h(1) list_all2_lengthD sls fs by (fastforce simp: rows_ok_def)
    have res: "(f, the (take_value sl)) \<in> set (completed s)" using ready_row(1)[OF h(1), of "length sls"] len sls fs by (simp add: nth_append)
    have s': "s' = s\<lparr>slots := sls, line := fs, taken := taken s @ [(f, the (take_value sl))]\<rparr>"
      using assms(1) sls fs by (auto simp: pop_back_def)
    have "rows_ok (completed s) fs sls" using h(1) sls fs len by (auto simp: rows_ok_def list_all2_append)
    moreover have "taken_ok (taken s') (completed s') fs"
      using h(2) res h(1) fs s' by (auto simp: taken_ok_def rows_ok_def)
    ultimately show ?thesis
      using h(3,4) sls fs assms(3) by (auto simp: s' known_ok_def dropped_ok_def pending_in_def)
  next
    case False
    then have "s' = s" using assms(1) by (auto simp: pop_back_def split: if_splits)
    with h show ?thesis by simp
  qed
  then show "rows_ok (completed s') (line s') (slots s')" "taken_ok (taken s') (completed s') (line s')"
    "known_ok s'" "dropped_ok s'" by blast+
qed

lemma push_history:
  assumes "deque_history_ok s" "f \<notin> set (pushed s)" "leaving_future (owner s) = None" "\<And>mode i. owner s \<noteq> In_poll mode i"
  shows "deque_history_ok (push_back_handle f a s)" "deque_history_ok (push_front_handle f a s)"
proof -
  note h = historyD[OF assms(1)]
  have new: "f \<notin> set (line s)" "f \<notin> fst ` set (completed s)" "f \<notin> set (discarded s)"
    using h(3) assms(2) by (auto simp: known_ok_def)
  have got: "f \<notin> fst ` set (taken s)" using h(2) new(2) by (auto simp: taken_ok_def)
  have rows: "rows_ok (completed s) (line s @ [f]) (slots s @ [Pending f a])"
    "rows_ok (completed s) (f # line s) (Pending f a # slots s)"
    using h(1) new by (auto simp: rows_ok_def intro: list_all2_appendI)
  show "deque_history_ok (push_back_handle f a s)"
    using h(2-4) rows(1) new got assms(3,4)
    by (auto simp: deque_history_ok_def push_back_handle_def new_slot_def taken_ok_def known_ok_def dropped_ok_def pending_in_def)
  show "deque_history_ok (push_front_handle f a s)"
    using h(2-4) rows(2) new got assms(3,4)
    by (auto simp: deque_history_ok_def push_front_handle_def new_slot_def taken_ok_def known_ok_def dropped_ok_def pending_in_def)
qed

text \<open>A step that leaves the deque and its history alone and starts neither a poll of a future nor a release.\<close>

lemma history_same:
  assumes "deque_history_ok s" "slots s' = slots s" "line s' = line s" "pushed s' = pushed s" "completed s' = completed s"
    "discarded s' = discarded s" "taken s' = taken s" "leaving_future (owner s') = None \<or> leaving_future (owner s') = leaving_future (owner s)"
    "\<And>mode i. owner s' = In_poll mode i \<Longrightarrow> i < length (slots s) \<and> (\<exists>f a. slots s ! i = Pending f a)"
  shows "deque_history_ok s'"
proof -
  note h = historyD[OF assms(1)]
  have p: "pending_in s' f = pending_in s f" for f by (simp add: pending_in_def assms(2))
  have k: "known_ok s'" using h(3) assms(8) by (auto simp: known_ok_def assms(3-6))
  have d: "dropped_ok s'" using h(4) assms(8) by (auto simp: dropped_ok_def p assms(6))
  show ?thesis
    unfolding deque_history_ok_def assms(2,3,5,7) using h(1,2) k d assms(9) by blast
qed

lemma pop_history:
  assumes "deque_history_ok s" "leaving_future (owner s) = None" "\<And>mode i. owner s \<noteq> In_poll mode i"
  shows "pop_front s = (v, s') \<Longrightarrow> deque_history_ok s'" "pop_back s = (v, s') \<Longrightarrow> deque_history_ok s'"
proof -
  assume p: "pop_front s = (v, s')"
  show "deque_history_ok s'"
    unfolding deque_history_ok_def using pop_front_history[OF p assms] pop_front_frame(1)[OF p] assms(3) by simp
next
  assume p: "pop_back s = (v, s')"
  show "deque_history_ok s'"
    unfolding deque_history_ok_def using pop_back_history[OF p assms] pop_back_frame(1)[OF p] assms(3) by simp
qed

lemma end_poll_history:
  assumes "deque_history_ok s" "owner s = Scan mode i"
  shows "deque_history_ok (end_poll mode s)"
proof (cases rule: end_poll_cases[of mode s])
  case (only b)
  show ?thesis by (rule history_same[OF assms(1)]) (simp_all add: only(2))
next
  case (from_front v t b)
  have t: "deque_history_ok t" by (rule pop_history(1)[OF assms(1) _ _ from_front(2)]) (simp_all add: assms(2))
  show ?thesis by (rule history_same[OF t]) (simp_all add: from_front(3))
next
  case (from_back v t b)
  have t: "deque_history_ok t" by (rule pop_history(2)[OF assms(1) _ _ from_back(2)]) (simp_all add: assms(2))
  show ?thesis by (rule history_same[OF t]) (simp_all add: from_back(3))
qed

lemma history_owner:
  assumes "owner_step r s = Some s'" "counts_ok s" "freers_ok s" "deque_history_ok s"
  shows "deque_history_ok s'"
  using assms
proof (cases rule: owner_step_elim)
  case (finish mode i)
  with end_poll_history[OF assms(4) finish(1)] show ?thesis by simp
next
  case (ready mode i f a v)
  note h = historyD[OF assms(4)]
  note at = rows_nth[OF h(1) ready(2,3)]
  have p: "pending_in s' g \<Longrightarrow> pending_in s g \<and> g \<noteq> f" for g
    using rows_pending_unique[OF h(1) ready(2,3)] ready(5) by (auto simp: pending_in_def)
  have pf: "pending_in s f" using ready(2,3) by (auto simp: pending_in_def in_set_conv_nth)
  have "rows_ok (completed s') (line s') (slots s')" using rows_ready[OF h(1) ready(2,3)] ready(5) by simp
  moreover have "taken_ok (taken s') (completed s') (line s')" using h(2) ready(5) by (auto simp: taken_ok_def)
  moreover have "f \<in> set (pushed s)" using at h(3) nth_mem by (fastforce simp: known_ok_def)
  then have "known_ok s'" using h(3) ready(5) by (auto simp: known_ok_def)
  moreover have "dropped_ok s'" using h(4) p pf ready(5) by (auto simp: dropped_ok_def)
  ultimately show ?thesis using ready(5) by (simp add: deque_history_ok_def)
next
  case (drop_future f a k)
  note h = historyD[OF assms(4)]
  have p: "pending_in s' g = pending_in s g" for g using drop_future(2) by (simp add: pending_in_def)
  have "known_ok s'" using h(3) drop_future by (auto simp: known_ok_def)
  moreover have "dropped_ok s'" using h(4) drop_future p by (auto simp: dropped_ok_def)
  ultimately show ?thesis using h(1,2) drop_future(2) by (simp add: deque_history_ok_def)
next
  case (drain_ready v rest)
  note h = historyD[OF assms(4)]
  have "rows_ok (completed s) (tl (line s)) rest" using rows_tl[OF h(1)] drain_ready(2) by simp
  moreover have "set (tl (line s)) \<subseteq> set (line s)" by (cases "line s") auto
  ultimately show ?thesis
    using h(2-4) drain_ready by (auto simp: deque_history_ok_def taken_ok_def known_ok_def dropped_ok_def pending_in_def)
next
  case (drain_pending f a rest)
  note h = historyD[OF assms(4)]
  have rows: "rows_ok (completed s) (tl (line s)) rest" using rows_tl[OF h(1)] drain_pending(2) by simp
  have sub: "set (tl (line s)) \<subseteq> set (line s)" by (cases "line s") auto
  have once: "Pending f b \<notin> set rest" for b using rows_pending_once(2) h(1) unfolding drain_pending(2) by metis
  have "f \<in> set (line s)" using rows_pending_in_line[OF h(1), of f a] drain_pending(2) by simp
  then have pu: "f \<in> set (pushed s)" using h(3) by (auto simp: known_ok_def)
  have pf: "pending_in s f" using drain_pending(2) by (auto simp: pending_in_def)
  have p: "pending_in s' g \<Longrightarrow> pending_in s g \<and> g \<noteq> f" for g
    using drain_pending(2,3) once by (auto simp: pending_in_def)
  have "taken_ok (taken s') (completed s') (line s')" using h(2) sub drain_pending(3) by (auto simp: taken_ok_def)
  moreover have "known_ok s'" using h(3) sub pu drain_pending(3) by (auto simp: known_ok_def)
  moreover have "dropped_ok s'" using h(4) p pf drain_pending(3) by (auto simp: dropped_ok_def)
  ultimately show ?thesis using rows drain_pending(3) by (simp add: deque_history_ok_def)
qed (rule history_same[OF assms(4)]; use assms(4) in \<open>auto split: if_splits\<close>)+

lemma history_exec:
  assumes "exec x s = Some s'" "allowed x s" "counts_ok s" "freers_ok s" "sources_ok s" "deque_history_ok s" 
  shows "deque_history_ok s'"
  using assms(1)
proof (cases rule: exec_elim)
  case (push_back f a)
  with assms(2) push_history(1)[OF assms(6), of f a] show ?thesis by (simp add: allowed_def)
next
  case (push_front f a)
  with assms(2) push_history(2)[OF assms(6), of f a] show ?thesis by (simp add: allowed_def)
next
  case (pop_front v t)
  have t: "deque_history_ok t" by (rule pop_history(1)[OF assms(6) _ _ pop_front(2)]) (use assms(2) pop_front(1) in \<open>simp_all add: allowed_def\<close>)
  have "owner t = At_rest" using pop_front_frame(1)[OF pop_front(2)] assms(2) pop_front(1) by (simp add: allowed_def)
  then show ?thesis by (intro history_same[OF t]) (simp_all add: pop_front(3))
next
  case (pop_back v t)
  have t: "deque_history_ok t" by (rule pop_history(2)[OF assms(6) _ _ pop_back(2)]) (use assms(2) pop_back(1) in \<open>simp_all add: allowed_def\<close>)
  have "owner t = At_rest" using pop_back_frame(1)[OF pop_back(2)] assms(2) pop_back(1) by (simp add: allowed_def)
  then show ?thesis by (intro history_same[OF t]) (simp_all add: pop_back(3))
next
  case (poll mode w)
  show ?thesis by (rule history_same[OF assms(6)]) (simp_all add: poll begin_poll_def)
next
  case drop_deque
  show ?thesis by (rule history_same[OF assms(6)]) (simp_all add: drop_deque)
next
  case (own r)
  from history_owner[OF own(2) assms(3,4,6)] show ?thesis .
next
  case (act t)
  have "slots s' = slots s \<and> line s' = line s \<and> pushed s' = pushed s \<and> completed s' = completed s \<and>
    discarded s' = discarded s \<and> taken s' = taken s \<and> owner s' = owner s"
    using act(2) assms(3) by (cases rule: act_elim) simp_all
  note same = this
  show ?thesis
  proof (rule history_same[OF assms(6)])
    fix mode i assume "owner s' = In_poll mode i"
    with same historyD(5)[OF assms(6), of mode i] show "i < length (slots s) \<and> (\<exists>f a. slots s ! i = Pending f a)" by simp
  qed (use same in simp_all)
next
  case (clone src h)
  from clone_elim[OF clone(2) assms(3)] obtain a m where
      s': "s' = s\<lparr>metas := (metas s)(a := Some (add_ref m)), handles := (h, a) # handles s\<rparr>" by metis
  show ?thesis using historyD(5)[OF assms(6)] by (intro history_same[OF assms(6)]) (simp_all add: s')
qed (use historyD(5)[OF assms(6)] in \<open>intro history_same[OF assms(6)]; simp\<close>)+

end
