(* ===== verification/DequeWakeups.thy ===== *)
theory DequeWakeups
  imports FutureDeque
begin

text \<open>
  What the future deque promises: no step touches released metadata or polls a future that is gone, the metadata goes
  back to its pool, a wake-up is never lost, results come out in the order of the deque, and every poll answers from
  the state it has established.
\<close>

section \<open>Safety\<close>

definition deque_inv :: "'v deque \<Rightarrow> bool" where
  "deque_inv s = (counts_ok s \<and> freers_ok s \<and> sources_ok s \<and> deque_history_ok s)"

lemma deque_inv_new: "deque_inv deque_new"
  by (simp add: deque_inv_def deque_new_def counts_ok_def meta_refs_def refs_to_def freers_ok_def zero_at_def freers_def
      sources_ok_def actor_source_def deque_history_ok_def rows_ok_def taken_ok_def known_ok_def dropped_ok_def pending_in_def
      leaving_future_def owner_refs_def freed_by_owner_def split: option.split)

lemma deque_inv_exec: "deque_inv s \<Longrightarrow> allowed x s \<Longrightarrow> exec x s = Some s' \<Longrightarrow> deque_inv s'"
  unfolding deque_inv_def using counts_exec freers_exec sources_exec history_exec by blast

lemma reachable_inv: "deque_reachable s \<Longrightarrow> deque_inv s"
  by (induction rule: deque_reachable.induct) (auto intro: deque_inv_new deque_inv_exec)

lemma source_live:
  assumes "deque_inv s" "actor_source (actors s t) = Some src"
  obtains a m where "source_addr s src = Some a" "metas s a = Some m"
proof -
  have inv: "counts_ok s" "sources_ok s" using assms(1) by (simp_all add: deque_inv_def)
  have "\<exists>a. source_addr s src = Some a \<and> 0 < refs_to s a"
  proof (cases src)
    case (Handle h)
    with sourcesD(2)[OF inv(2)] assms(2) have "h \<in> fst ` set (handles s)" by blast
    then obtain a where "map_of (handles s) h = Some a" by (metis map_of_eq_None_iff not_None_eq)
    with Handle handle_refs_pos[of "handles s" h a] show ?thesis by (auto simp: source_addr_def refs_to_def)
  next
    case (Slot_waker a)
    with sourcesD(3)[OF inv(2)] assms(2) have "lent s a" by blast
    then obtain i f where "i < length (slots s)" "slots s ! i = Pending f a"
      by (auto simp: lent_def pending_at_def split: owner.splits slot.splits)
    with slot_refs_pos[of i "slots s" f a] Slot_waker show ?thesis by (auto simp: source_addr_def refs_to_def)
  qed
  with counted[OF inv(1)] that show ?thesis by blast
qed

lemma slot_live:
  assumes "counts_ok s" "i < length (slots s)" "slots s ! i = Pending f a"
  obtains m where "metas s a = Some m"
  using counted[OF assms(1), of a] slot_refs_pos[OF assms(2,3)] by (auto simp: refs_to_def)

lemma owner_enabled:
  assumes "deque_inv s" "allowed (Own r) s"
  shows "owner_step r s \<noteq> None"
proof -
  have inv: "counts_ok s" "freers_ok s" "deque_history_ok s" using assms(1) by (simp_all add: deque_inv_def)
  show ?thesis
  proof (cases "owner s")
    case (Scan mode i)
    show ?thesis
    proof (cases "i < length (slots s)")
      case False
      with Scan show ?thesis by (simp add: owner_step_def scan_step_def)
    next
      case True
      show ?thesis
      proof (cases "slots s ! i")
        case (Ready v)
        with Scan True show ?thesis by (simp add: owner_step_def scan_step_def)
      next
        case (Pending f a)
        from slot_live[OF inv(1) True Pending] obtain m where m: "metas s a = Some m" .
        have "f \<notin> fst ` set (completed s)" by (rule rows_nth(3)[OF historyD(1)[OF inv(3)] True Pending])
        moreover have "pending_in s f" using True Pending by (auto simp: pending_in_def in_set_conv_nth)
        then have "f \<notin> set (discarded s)" using historyD(4)[OF inv(3)] by (simp add: dropped_ok_def)
        ultimately show ?thesis
          using Scan True Pending m by (simp add: owner_step_def scan_step_def check_activated_def live_future_def)
      qed
    qed
  next
    case (In_poll mode i)
    with historyD(5)[OF inv(3) In_poll] show ?thesis by (auto simp: owner_step_def future_step_def)
  next
    case (Release_slot f a k)
    then obtain m where "metas s a = Some m"
      using counted[OF inv(1), of a] by (auto simp: refs_to_def)
    with Release_slot show ?thesis by (simp add: owner_step_def release_ref_def free_meta_def)
  next
    case (Release_waker a k)
    then obtain m where "metas s a = Some m"
      using counted[OF inv(1), of a] by (auto simp: refs_to_def)
    with Release_waker show ?thesis by (simp add: owner_step_def release_ref_def)
  next
    case (Free_meta a k)
    from owner_freeing[OF inv(1,2) this] obtain m where "metas s a = Some m" .
    with Free_meta show ?thesis by (simp add: owner_step_def free_meta_def)
  qed (use assms(2) in \<open>auto simp: allowed_def owner_step_def drain_step_def split: list.splits slot.splits\<close>)
qed

lemma act_enabled:
  assumes "deque_inv s" "actors s t \<noteq> Resting"
  shows "act t s \<noteq> None"
proof (cases "actors s t")
  case (Swap src own)
  then have "actor_source (actors s t) = Some src" by simp
  from source_live[OF assms(1) this] obtain a m where "source_addr s src = Some a" "metas s a = Some m" .
  with Swap show ?thesis by (simp add: act_def set_activated_def)
next
  case (Read_parent src own)
  then have "actor_source (actors s t) = Some src" by simp
  from source_live[OF assms(1) this] obtain a m where "source_addr s src = Some a" "metas s a = Some m" .
  with Read_parent show ?thesis by (simp add: act_def)
next
  case (Release h)
  then have "actor_source (actors s t) = Some (Handle h)" by simp
  from source_live[OF assms(1) this] obtain a m where "source_addr s (Handle h) = Some a" "metas s a = Some m" .
  with Release show ?thesis by (simp add: act_def release_ref_def source_addr_def)
next
  case (Free a)
  have "counts_ok s" "freers_ok s" using assms(1) by (simp_all add: deque_inv_def)
  from thread_freeing[OF this Free] obtain m where "metas s a = Some m" .
  with Free show ?thesis by (simp add: act_def free_meta_def)
qed (use assms(2) in \<open>simp_all add: act_def\<close>)

lemma clone_enabled:
  assumes "deque_inv s" "can_borrow s src"
  shows "clone_waker src h s \<noteq> None"
proof -
  have "\<exists>a. source_addr s src = Some a"
    using assms(2) by (cases src) (auto simp: can_borrow_def source_addr_def, metis map_of_eq_None_iff fst_conv image_eqI not_None_eq)
  then obtain a where a: "source_addr s src = Some a" ..
  have "counts_ok s" using assms(1) by (simp add: deque_inv_def)
  from counted[OF this borrowed_counted[OF assms(2) a]] a show ?thesis by (auto simp: clone_waker_def with_meta_def)
qed

lemma exec_enabled:
  assumes "deque_inv s" "allowed x s"
  shows "exec x s \<noteq> None"
proof (cases x)
  case (Own r)
  with owner_enabled[OF assms(1)] assms(2) show ?thesis by (simp add: exec_def)
next
  case (Act t)
  with act_enabled[OF assms(1)] assms(2) show ?thesis by (simp add: exec_def allowed_def)
next
  case (Clone_waker src h)
  with clone_enabled[OF assms(1)] assms(2) show ?thesis by (simp add: exec_def allowed_def)
qed (simp_all add: exec_def split: prod.split)

section \<open>Wake-ups\<close>

text \<open>A thread that has set the flag of \<open>a\<close> and is about to wake the parent: it has yet to read it, or has read the one
  that is still in place.\<close>

definition waking :: "'v deque \<Rightarrow> nat \<Rightarrow> addr \<Rightarrow> bool" where
  "waking s t a = (case actors s t of
      Read_parent src own \<Rightarrow> source_addr s src = Some a
    | Wake_parent src own p \<Rightarrow> p = parent s \<and> source_addr s src = Some a
    | _ \<Rightarrow> False)"

definition wake_ok :: "'v deque \<Rightarrow> bool" where
  "wake_ok s = (\<forall>a m. a \<in> set (visited s) \<longrightarrow> metas s a = Some m \<longrightarrow> activated m \<longrightarrow>
     woken s \<or> (\<exists>t. waking s t a))"

lemma waking_cong:
  "actors s' = actors s \<Longrightarrow> parent s' = parent s \<Longrightarrow> handles s' = handles s \<Longrightarrow> waking s' t a = waking s t a"
  by (simp add: waking_def source_addr_def cong: actor.case_cong source.case_cong)

lemma wake_carried:
  assumes "wake_ok s"
    "\<And>a m. a \<in> set (visited s') \<Longrightarrow> metas s' a = Some m \<Longrightarrow> activated m \<Longrightarrow>
       a \<in> set (visited s) \<and> (\<exists>m. metas s a = Some m \<and> activated m)"
    "woken s \<Longrightarrow> woken s'" "\<And>t a. waking s t a \<Longrightarrow> woken s' \<or> (\<exists>u. waking s' u a)"
  shows "wake_ok s'"
  using assms unfolding wake_ok_def by meson

lemma map_of_filter_other: "h' \<noteq> h \<Longrightarrow> map_of (filter (\<lambda>(k, b). k \<noteq> h) hs) h' = map_of hs h'"
  by (induction hs) auto

lemma wake_owner:
  assumes "owner_step r s = Some s'" "deque_inv s" "wake_ok s"
  shows "wake_ok s'"
proof -
  have inv: "counts_ok s" "freers_ok s" "deque_history_ok s" using assms(2) by (simp_all add: deque_inv_def)
  have same: "actors s' = actors s \<and> parent s' = parent s \<and> handles s' = handles s \<and> woken s' = woken s"
    using assms(1) inv by (cases rule: owner_step_elim) simp_all
  have old: "a \<in> set (visited s) \<and> (\<exists>m. metas s a = Some m \<and> activated m)"
    if "a \<in> set (visited s')" "metas s' a = Some m" "activated m" for a m
    using assms(1) inv
  proof (cases rule: owner_step_elim)
    case (check mode i f b k)
    with that show ?thesis by (cases "a = b") auto
  next
    case (release_slot f b k n)
    with that show ?thesis by (cases "a = b") (auto simp: drop_ref_def)
  next
    case (release_waker b k n)
    with that show ?thesis by (cases "a = b") (auto simp: drop_ref_def)
  next
    case (free_meta b k n)
    with that show ?thesis by (cases "a = b") auto
  qed (use that in auto)
  show ?thesis
    by (rule wake_carried[OF assms(3) old]) (use same waking_cong[of s' s] in auto)
qed

lemma wake_act:
  assumes "act t s = Some s'" "deque_inv s" "wake_ok s"
  shows "wake_ok s'"
proof -
  have inv: "counts_ok s" "sources_ok s" using assms(2) by (simp_all add: deque_inv_def)
  show ?thesis using assms(1) inv(1)
  proof (cases rule: act_elim)
    case (swap src own a m)
    have keep: "waking s u b \<Longrightarrow> waking s' u b" for u b
      using swap(1,5) by (cases "u = t") (simp_all add: waking_def source_addr_def cong: actor.case_cong source.case_cong)
    have own_flag: "\<not> activated m \<Longrightarrow> waking s' t a"
      using swap(2,5) by (simp add: waking_def source_addr_def cong: source.case_cong)
    show ?thesis
      unfolding wake_ok_def
    proof (intro allI impI)
      fix b n assume b: "b \<in> set (visited s')" "metas s' b = Some n" "activated n"
      have same: "visited s' = visited s" "woken s' = woken s" using swap(5) by simp_all
      show "woken s' \<or> (\<exists>u. waking s' u b)"
      proof (cases "b = a \<and> \<not> activated m")
        case True
        with own_flag show ?thesis by blast
      next
        case False
        have "\<exists>n. metas s b = Some n \<and> activated n"
        proof (cases "b = a")
          case True
          with False swap(3) show ?thesis by simp
        next
          case False
          with b swap(5) show ?thesis by auto
        qed
        with b(1) same assms(3) keep show ?thesis unfolding wake_ok_def by metis
      qed
    qed
  next
    case (read src own)
    have keep: "waking s u b \<Longrightarrow> waking s' u b" for u b
      using read by (cases "u = t") (simp_all add: waking_def source_addr_def cong: actor.case_cong source.case_cong)
    show ?thesis by (rule wake_carried[OF assms(3)]) (use read keep in auto)
  next
    case (wake src own p)
    have keep: "waking s u b \<Longrightarrow> woken s' \<or> waking s' u b" for u b
      using wake by (cases "u = t") (simp_all add: waking_def source_addr_def cong: actor.case_cong source.case_cong)
    show ?thesis by (rule wake_carried[OF assms(3)]) (use wake keep in auto)
  next
    case (release h a m)
    have alone: "actor_source (actors s u) = Some (Handle h) \<Longrightarrow> u = t" for u
      using sourcesD(4)[OF inv(2), of h t u] release(1) by simp
    have keep: "waking s' u b" if w: "waking s u b" for u b
    proof -
      have ut: "u \<noteq> t" using w release(1) by (auto simp: waking_def)
      then have ne: "actor_source (actors s u) \<noteq> Some (Handle h)" using alone by blast
      have a: "actors s' u = actors s u" "parent s' = parent s" using ut release(5) by simp_all
      have sa: "source_addr s' src = source_addr s src" if "src \<noteq> Handle h" for src
        using that release(5) map_of_filter_other by (cases src) (simp_all add: source_addr_def)
      show ?thesis using w ne sa by (auto simp: waking_def a split: actor.splits)
    qed
    have old: "c \<in> set (visited s) \<and> (\<exists>n. metas s c = Some n \<and> activated n)"
      if "c \<in> set (visited s')" "metas s' c = Some n" "activated n" for c n
      using that release(3,5) by (cases "c = a") (auto simp: drop_ref_def)
    have woken: "woken s' = woken s" using release(5) by simp
    show ?thesis by (rule wake_carried[OF assms(3) old]) (use woken keep in blast)+
  next
    case (free a)
    have keep: "waking s u b \<Longrightarrow> waking s' u b" for u b
      using free by (cases "u = t") (simp_all add: waking_def source_addr_def cong: actor.case_cong source.case_cong)
    show ?thesis by (rule wake_carried[OF assms(3)]) (use free keep in \<open>auto split: if_splits\<close>)
  qed
qed

lemma wake_push:
  assumes "wake_ok s"
  shows "wake_ok (push_back_handle f a s)" "wake_ok (push_front_handle f a s)"
proof -
  have keep: "waking (push_back_handle f a s) t b = waking s t b" "waking (push_front_handle f a s) t b = waking s t b" for t b
    by (rule waking_cong; simp add: push_back_handle_def push_front_handle_def new_slot_def)+
  show "wake_ok (push_back_handle f a s)"
    by (rule wake_carried[OF assms]) (use keep in \<open>auto simp: push_back_handle_def new_slot_def\<close>)
  show "wake_ok (push_front_handle f a s)"
    by (rule wake_carried[OF assms]) (use keep in \<open>auto simp: push_front_handle_def new_slot_def\<close>)
qed

lemma wake_frame:
  assumes "wake_ok s" "metas s' = metas s" "visited s' = visited s" "woken s' = woken s" "handles s' = handles s"
    "actors s' = actors s" "parent s' = parent s"
  shows "wake_ok s'"
  using assms(1) unfolding wake_ok_def assms(2-4) waking_cong[OF assms(6,7,5)] .

lemma wake_started:
  assumes "wake_ok s" "actors s t = Resting" "s' = s\<lparr>actors := (actors s)(t := c)\<rparr>"
  shows "wake_ok s'"
proof -
  have keep: "waking s u b \<Longrightarrow> waking s' u b" for u b
    using assms(2,3) by (cases "u = t") (simp_all add: waking_def source_addr_def cong: actor.case_cong source.case_cong)
  show ?thesis by (rule wake_carried[OF assms(1)]) (use assms(3) keep in auto)
qed

lemma wake_exec:
  assumes "exec x s = Some s'" "allowed x s" "deque_inv s" "wake_ok s"
  shows "wake_ok s'"
  using assms(1)
proof (cases rule: exec_elim)
  case (push_back f a)
  with wake_push(1)[OF assms(4)] show ?thesis by simp
next
  case (push_front f a)
  with wake_push(2)[OF assms(4)] show ?thesis by simp
next
  case (pop_front v t)
  show ?thesis by (rule wake_frame[OF assms(4)]) (use pop_front_frame(1)[OF pop_front(2)] pop_front(3) in simp_all)
next
  case (pop_back v t)
  show ?thesis by (rule wake_frame[OF assms(4)]) (use pop_back_frame(1)[OF pop_back(2)] pop_back(3) in simp_all)
next
  case (poll mode w)
  then show ?thesis by (simp add: wake_ok_def begin_poll_def)
next
  case drop_deque
  show ?thesis by (rule wake_frame[OF assms(4)]) (simp_all add: drop_deque)
next
  case (own r)
  from wake_owner[OF own(2) assms(3,4)] show ?thesis .
next
  case (act t)
  from wake_act[OF act(2) assms(3,4)] show ?thesis .
next
  case (clone src h)
  have inv: "counts_ok s" using assms(3) by (simp add: deque_inv_def)
  from clone_elim[OF clone(2) inv] obtain a m where m: "metas s a = Some m"
    and s': "s' = s\<lparr>metas := (metas s)(a := Some (add_ref m)), handles := (h, a) # handles s\<rparr>" by metis
  have new: "map_of (handles s) h = None" using assms(2) clone(1) by (simp add: allowed_def map_of_eq_None_iff)
  have sa: "source_addr s c = Some b \<Longrightarrow> source_addr s' c = Some b" for c b
    using new s' by (cases c) (auto simp: source_addr_def)
  have keep: "waking s u b \<Longrightarrow> waking s' u b" for u b
    using sa s' by (auto simp: waking_def split: actor.splits)
  have old: "c \<in> set (visited s) \<and> (\<exists>n. metas s c = Some n \<and> activated n)"
    if "c \<in> set (visited s')" "metas s' c = Some n" "activated n" for c n
    using that m s' by (cases "c = a") (auto simp: add_ref_def)
  show ?thesis by (rule wake_carried[OF assms(4) old]) (use s' keep in auto)
next
  case (start t c)
  show ?thesis by (rule wake_started[OF assms(4) _ start(2)]) (use start(1) assms(2) in \<open>simp add: allowed_def\<close>)
next
  case (wake t h)
  show ?thesis by (rule wake_started[OF assms(4) _ wake(2)]) (use wake(1) assms(2) in \<open>simp add: allowed_def\<close>)
next
  case (dropping t h)
  show ?thesis by (rule wake_started[OF assms(4) _ dropping(2)]) (use dropping(1) assms(2) in \<open>simp add: allowed_def\<close>)
qed

lemma reachable_wake: "deque_reachable s \<Longrightarrow> wake_ok s"
proof (induction rule: deque_reachable.induct)
  case new
  show ?case by (simp add: wake_ok_def deque_new_def)
next
  case (step s x s')
  from wake_exec[OF step.hyps(3,2) reachable_inv[OF step.hyps(1)] step.IH] show ?case .
qed

section \<open>How far a poll has come\<close>

definition resume_point :: "resume \<Rightarrow> nat" where
  "resume_point k = (case k of Resume_scan mode i \<Rightarrow> i | Resume_drain \<Rightarrow> 0)"

definition polled_to :: "owner \<Rightarrow> nat" where
  "polled_to c = (case c of
      Scan mode i \<Rightarrow> i
    | In_poll mode i \<Rightarrow> Suc i
    | Release_slot f a k \<Rightarrow> resume_point k
    | Drop_future f a k \<Rightarrow> resume_point k
    | Release_waker a k \<Rightarrow> resume_point k
    | Free_meta a k \<Rightarrow> resume_point k
    | _ \<Rightarrow> 0)"

definition poll_done :: "'v answer \<Rightarrow> bool" where
  "poll_done r = (case r of Nothing_yet \<Rightarrow> False | Popped v \<Rightarrow> False | _ \<Rightarrow> True)"

definition scan_ok :: "'v deque \<Rightarrow> bool" where
  "scan_ok s = ((\<forall>j f a. j < polled_to (owner s) \<longrightarrow> j < length (slots s) \<longrightarrow> slots s ! j = Pending f a \<longrightarrow>
       a \<in> set (visited s)) \<and>
     (poll_done (answer s) \<longrightarrow> (\<forall>f a. Pending f a \<in> set (slots s) \<longrightarrow> a \<in> set (visited s))))"

lemma polled_to_simps [simp]:
  "polled_to At_rest = 0" "polled_to (Scan mode i) = i" "polled_to (In_poll mode i) = Suc i"
  "polled_to (Release_slot f a k) = resume_point k" "polled_to (Drop_future f a k) = resume_point k"
  "polled_to (Release_waker a k) = resume_point k" "polled_to (Free_meta a k) = resume_point k"
  "polled_to Drain = 0" "polled_to Gone = 0" "polled_to (resumed k) = resume_point k"
  "resume_point (Resume_scan mode i) = i" "resume_point Resume_drain = 0"
  by (auto simp: polled_to_def resume_point_def resumed_def split: resume.split)

lemma poll_done_simps [simp]:
  "\<not> poll_done Nothing_yet" "\<not> poll_done (Popped v)" "poll_done All_ready" "poll_done Some_pending"
  "poll_done (Got r)" "poll_done Exhausted"
  by (simp_all add: poll_done_def)

lemma scan_same:
  assumes "scan_ok s" "slots s' = slots s" "visited s' = visited s" "answer s' = answer s" "polled_to (owner s') \<le> polled_to (owner s)"
  shows "scan_ok s'"
  using assms(1,5) unfolding scan_ok_def assms(2-4) by (meson order_less_le_trans)

lemma pop_subset:
  "pop_front s = (v, s') \<Longrightarrow> set (slots s') \<subseteq> set (slots s)"
  "pop_back s = (v, s') \<Longrightarrow> set (slots s') \<subseteq> set (slots s)"
  by (auto simp: pop_front_def pop_back_def dest: in_set_butlastD list.set_sel(2) split: if_splits)

lemma end_poll_subset: "set (slots (end_poll mode s)) \<subseteq> set (slots s)"
  by (cases rule: end_poll_cases[of mode s]) (auto dest: pop_subset)

lemma scan_owner:
  assumes "owner_step r s = Some s'" "deque_inv s" "scan_ok s"
  shows "scan_ok s'"
proof -
  have inv: "counts_ok s" "freers_ok s" "deque_history_ok s" using assms(2) by (simp_all add: deque_inv_def)
  show ?thesis using assms(1) inv
  proof (cases rule: owner_step_elim)
    case (finish mode i)
    have "a \<in> set (visited s)" if "Pending f a \<in> set (slots s)" for f a
    proof -
      from that obtain j where "j < length (slots s)" "slots s ! j = Pending f a" by (auto simp: in_set_conv_nth)
      moreover from this finish(1,2) have "j < polled_to (owner s)" by simp
      ultimately show ?thesis using assms(3) unfolding scan_ok_def by blast
    qed
    with end_poll_subset[of mode s] show ?thesis by (auto simp: scan_ok_def finish(3))
  next
    case (skip mode i v)
    with assms(3) show ?thesis by (auto simp: scan_ok_def less_Suc_eq)
  next
    case (check mode i f a m)
    with assms(3) show ?thesis by (auto simp: scan_ok_def less_Suc_eq)
  next
    case (ready mode i f a v)
    have sub: "Pending g b \<in> set ((slots s)[i := Ready v]) \<Longrightarrow> Pending g b \<in> set (slots s)" for g b
      using set_update_subset_insert[of "slots s" i "Ready v"] by auto
    have nth: "j < length (slots s) \<Longrightarrow> (slots s)[i := Ready v] ! j = Pending g b \<Longrightarrow> slots s ! j = Pending g b" for j g b
      by (cases "i = j") auto
    have old: "Pending g b \<in> set (slots s) \<Longrightarrow> poll_done (answer s) \<Longrightarrow> b \<in> set (visited s)"
      "j < Suc i \<Longrightarrow> j < length (slots s) \<Longrightarrow> slots s ! j = Pending g b \<Longrightarrow> b \<in> set (visited s)" for g b j
      using assms(3) ready(1) unfolding scan_ok_def by simp_all
    have s': "visited s' = visited s" "answer s' = answer s" "slots s' = (slots s)[i := Ready v]" "polled_to (owner s') = Suc i"
      using ready(5) by simp_all
    show ?thesis unfolding scan_ok_def s' using old sub nth by (metis length_list_update)
  next
    case (drain_ready v rest)
    with assms(3) show ?thesis by (auto simp: scan_ok_def)
  next
    case (drain_pending f a rest)
    with assms(3) show ?thesis by (auto simp: scan_ok_def)
  qed (rule scan_same[OF assms(3)]; simp)+
qed

lemma scan_exec:
  assumes "exec x s = Some s'" "allowed x s" "deque_inv s" "scan_ok s"
  shows "scan_ok s'"
  using assms(1)
proof (cases rule: exec_elim)
  case (push_back f a)
  with assms(2) show ?thesis by (simp add: allowed_def scan_ok_def push_back_handle_def new_slot_def)
next
  case (push_front f a)
  with assms(2) show ?thesis by (simp add: allowed_def scan_ok_def push_front_handle_def new_slot_def)
next
  case (pop_front v t)
  with assms(2) pop_front_frame(1)[OF pop_front(2)] show ?thesis by (simp add: allowed_def scan_ok_def)
next
  case (pop_back v t)
  with assms(2) pop_back_frame(1)[OF pop_back(2)] show ?thesis by (simp add: allowed_def scan_ok_def)
next
  case (poll mode w)
  then show ?thesis by (simp add: scan_ok_def begin_poll_def)
next
  case drop_deque
  show ?thesis by (rule scan_same[OF assms(4)]) (simp_all add: drop_deque)
next
  case (own r)
  from scan_owner[OF own(2) assms(3,4)] show ?thesis .
next
  case (act t)
  have inv: "counts_ok s" using assms(3) by (simp add: deque_inv_def)
  have "slots s' = slots s \<and> visited s' = visited s \<and> answer s' = answer s \<and> owner s' = owner s"
    using act(2) inv by (cases rule: act_elim) simp_all
  then show ?thesis by (intro scan_same[OF assms(4)]) simp_all
next
  case (clone src h)
  have inv: "counts_ok s" using assms(3) by (simp add: deque_inv_def)
  from clone_elim[OF clone(2) inv] obtain a m where
    s': "s' = s\<lparr>metas := (metas s)(a := Some (add_ref m)), handles := (h, a) # handles s\<rparr>" by metis
  show ?thesis by (rule scan_same[OF assms(4)]) (simp_all add: s')
qed (rule scan_same[OF assms(4)]; simp)+

lemma reachable_scan: "deque_reachable s \<Longrightarrow> scan_ok s"
proof (induction rule: deque_reachable.induct)
  case new
  show ?case by (simp add: scan_ok_def deque_new_def)
next
  case (step s x s')
  from scan_exec[OF step.hyps(3,2) reachable_inv[OF step.hyps(1)] step.IH] show ?case .
qed

section \<open>Where the futures are\<close>

definition futures_held_ok :: "'v deque \<Rightarrow> bool" where
  "futures_held_ok s = (\<forall>f \<in> set (pushed s). pending_in s f \<or> f \<in> set (discarded s) \<or> leaving_future (owner s) = Some f)"

lemma pending_in_pop:
  "pop_front s = (v, s') \<Longrightarrow> pending_in s f \<Longrightarrow> pending_in s' f"
  "pop_back s = (v, s') \<Longrightarrow> pending_in s f \<Longrightarrow> pending_in s' f"
proof -
  assume p: "pop_front s = (v, s')" "pending_in s f"
  show "pending_in s' f"
    using p by (cases "slots s") (auto simp: pop_front_def pending_in_def slot_is_ready_def split: if_splits slot.splits)
next
  assume p: "pop_back s = (v, s')" "pending_in s f"
  show "pending_in s' f"
    using p by (cases "slots s" rule: rev_cases) (auto simp: pop_back_def pending_in_def slot_is_ready_def split: if_splits slot.splits)
qed

lemma pop_kept:
  "pop_front s = (v, s') \<Longrightarrow> pushed s' = pushed s \<and> discarded s' = discarded s \<and> completed s' = completed s"
  "pop_back s = (v, s') \<Longrightarrow> pushed s' = pushed s \<and> discarded s' = discarded s \<and> completed s' = completed s"
  by (auto simp: pop_front_def pop_back_def split: if_splits)

lemma end_poll_kept:
  "pushed (end_poll mode s) = pushed s" "discarded (end_poll mode s) = discarded s"
  "pending_in s f \<Longrightarrow> pending_in (end_poll mode s) f"
proof -
  have "pushed (end_poll mode s) = pushed s \<and> discarded (end_poll mode s) = discarded s \<and>
    (pending_in s f \<longrightarrow> pending_in (end_poll mode s) f)"
  proof (cases rule: end_poll_cases[of mode s])
    case (only b)
    then show ?thesis by (simp add: pending_in_def)
  next
    case (from_front v t b)
    from pop_kept(1)[OF from_front(2)] pending_in_pop(1)[OF from_front(2), of f] from_front(3)
    show ?thesis by (simp add: pending_in_def)
  next
    case (from_back v t b)
    from pop_kept(2)[OF from_back(2)] pending_in_pop(2)[OF from_back(2), of f] from_back(3)
    show ?thesis by (simp add: pending_in_def)
  qed
  then show "pushed (end_poll mode s) = pushed s" "discarded (end_poll mode s) = discarded s"
    "pending_in s f \<Longrightarrow> pending_in (end_poll mode s) f" by blast+
qed

lemma held_kept:
  assumes "futures_held_ok s" "pushed s' = pushed s" "\<And>f. f \<in> set (discarded s) \<Longrightarrow> f \<in> set (discarded s')"
    "\<And>f. pending_in s f \<Longrightarrow> pending_in s' f \<or> leaving_future (owner s') = Some f"
    "\<And>f. leaving_future (owner s) = Some f \<Longrightarrow> leaving_future (owner s') = Some f \<or> f \<in> set (discarded s')"
  shows "futures_held_ok s'"
  using assms unfolding futures_held_ok_def by metis

lemma held_owner:
  assumes "owner_step r s = Some s'" "deque_inv s" "futures_held_ok s"
  shows "futures_held_ok s'"
proof -
  have inv: "counts_ok s" "freers_ok s" "deque_history_ok s" using assms(2) by (simp_all add: deque_inv_def)
  show ?thesis using assms(1) inv
  proof (cases rule: owner_step_elim)
    case (finish mode i)
    show ?thesis
      by (rule held_kept[OF assms(3)]) (use finish(1) in \<open>simp_all add: finish(3) end_poll_kept\<close>)
  next
    case (ready mode i f a v)
    have "pending_in s g \<Longrightarrow> g = f \<or> pending_in s' g" for g
    proof -
      assume "pending_in s g"
      then obtain b j where j: "j < length (slots s)" "slots s ! j = Pending g b"
        by (auto simp: pending_in_def in_set_conv_nth)
      show ?thesis
      proof (cases "j = i")
        case True
        with j ready(3) show ?thesis by simp
      next
        case False
        with j ready(5) have "j < length (slots s')" "slots s' ! j = Pending g b" by simp_all
        then show ?thesis by (auto simp: pending_in_def in_set_conv_nth)
      qed
    qed
    then show ?thesis by (intro held_kept[OF assms(3)]) (use ready in auto)
  next
    case (drain_ready v rest)
    show ?thesis by (rule held_kept[OF assms(3)]) (use drain_ready in \<open>auto simp: pending_in_def\<close>)
  next
    case (drain_pending f a rest)
    show ?thesis by (rule held_kept[OF assms(3)]) (use drain_pending in \<open>auto simp: pending_in_def\<close>)
  qed (rule held_kept[OF assms(3)]; auto simp: pending_in_def)+
qed

lemma held_exec:
  assumes "exec x s = Some s'" "allowed x s" "deque_inv s" "futures_held_ok s"
  shows "futures_held_ok s'"
  using assms(1)
proof (cases rule: exec_elim)
  case (push_back f a)
  with assms(2,4) show ?thesis
    by (auto simp: allowed_def futures_held_ok_def push_back_handle_def new_slot_def pending_in_def)
next
  case (push_front f a)
  with assms(2,4) show ?thesis
    by (auto simp: allowed_def futures_held_ok_def push_front_handle_def new_slot_def pending_in_def)
next
  case (pop_front v t)
  have o: "leaving_future (owner s) = None" using assms(2) pop_front(1) by (simp add: allowed_def)
  have p: "pending_in s f \<Longrightarrow> pending_in s' f" for f
    using pending_in_pop(1)[OF pop_front(2), of f] pop_front(3) by (simp add: pending_in_def)
  show ?thesis
    by (rule held_kept[OF assms(4)]) (use pop_kept(1)[OF pop_front(2)] pop_front(3) o p in simp_all)
next
  case (pop_back v t)
  have o: "leaving_future (owner s) = None" using assms(2) pop_back(1) by (simp add: allowed_def)
  have p: "pending_in s f \<Longrightarrow> pending_in s' f" for f
    using pending_in_pop(2)[OF pop_back(2), of f] pop_back(3) by (simp add: pending_in_def)
  show ?thesis
    by (rule held_kept[OF assms(4)]) (use pop_kept(2)[OF pop_back(2)] pop_back(3) o p in simp_all)
next
  case (poll mode w)
  show ?thesis by (rule held_kept[OF assms(4)]) (use poll assms(2) in \<open>auto simp: begin_poll_def allowed_def pending_in_def\<close>)
next
  case drop_deque
  show ?thesis by (rule held_kept[OF assms(4)]) (use drop_deque assms(2) in \<open>auto simp: allowed_def pending_in_def\<close>)
next
  case (own r)
  from held_owner[OF own(2) assms(3,4)] show ?thesis .
next
  case (act t)
  have inv: "counts_ok s" using assms(3) by (simp add: deque_inv_def)
  have "slots s' = slots s \<and> pushed s' = pushed s \<and> discarded s' = discarded s \<and> owner s' = owner s"
    using act(2) inv by (cases rule: act_elim) simp_all
  with assms(4) show ?thesis by (simp add: futures_held_ok_def pending_in_def)
next
  case (clone src h)
  have inv: "counts_ok s" using assms(3) by (simp add: deque_inv_def)
  from clone_elim[OF clone(2) inv] obtain a m where
    s': "s' = s\<lparr>metas := (metas s)(a := Some (add_ref m)), handles := (h, a) # handles s\<rparr>" by metis
  with assms(4) show ?thesis by (simp add: futures_held_ok_def pending_in_def)
qed (use assms(4) in \<open>simp_all add: futures_held_ok_def pending_in_def\<close>)

lemma reachable_held: "deque_reachable s \<Longrightarrow> futures_held_ok s"
proof (induction rule: deque_reachable.induct)
  case new
  show ?case by (simp add: futures_held_ok_def deque_new_def)
next
  case (step s x s')
  from held_exec[OF step.hyps(3,2) reachable_inv[OF step.hyps(1)] step.IH] show ?case .
qed

end
