(* ===== verification/DequeResults.thy ===== *)
theory DequeResults
  imports DequeWakeups
begin

text \<open>
  The future deque against its contract: the deque of results it stands for, the order in which results come out, the
  answers of the polls, the bound on the work of the owner, and the properties of the earlier theories on reachable
  states, with a concrete run that reaches them.
\<close>

section \<open>The deque of results\<close>

text \<open>The abstract deque: the futures in order, and what each has returned so far.\<close>

definition result_of :: "'v deque \<Rightarrow> fut \<Rightarrow> 'v option" where
  "result_of s f = map_of (completed s) f"

definition spec_pop_front :: "(fut \<Rightarrow> 'v option) \<Rightarrow> fut list \<Rightarrow> 'v option \<times> fut list" where
  "spec_pop_front result fs = (case fs of [] \<Rightarrow> (None, [])
     | f # rest \<Rightarrow> (case result f of Some v \<Rightarrow> (Some v, rest) | None \<Rightarrow> (None, fs)))"

definition spec_pop_back :: "(fut \<Rightarrow> 'v option) \<Rightarrow> fut list \<Rightarrow> 'v option \<times> fut list" where
  "spec_pop_back result fs = (case spec_pop_front result (rev fs) of (v, rest) \<Rightarrow> (v, rev rest))"

definition spec_answer :: "poll_mode \<Rightarrow> (fut \<Rightarrow> 'v option) \<Rightarrow> fut list \<Rightarrow> 'v answer" where
  "spec_answer mode result fs = (case mode of
      Only_poll \<Rightarrow> if (\<exists>f \<in> set fs. result f = None) then Some_pending else All_ready
    | _ \<Rightarrow> if fs = [] then Exhausted
        else (case result (if mode = Then_front then hd fs else last fs) of Some v \<Rightarrow> Got v | None \<Rightarrow> Some_pending))"

lemma reachable_history: "deque_reachable s \<Longrightarrow> deque_history_ok s"
  using reachable_inv[of s] by (simp add: deque_inv_def)

lemma rows_results: "rows_ok done fs sls \<Longrightarrow> map take_value sls = map (map_of done) fs"
proof -
  assume rows: "rows_ok done fs sls"
  show ?thesis
  proof (rule nth_equalityI)
    show "length (map take_value sls) = length (map (map_of done) fs)"
      using rows by (auto simp: rows_ok_def dest: list_all2_lengthD)
  next
    fix i assume "i < length (map take_value sls)"
    then have i: "i < length sls" "i < length fs" using rows by (auto simp: rows_ok_def dest: list_all2_lengthD)
    then have "slot_of done (fs ! i) (sls ! i)" using rows by (simp add: rows_ok_def list_all2_nthD)
    moreover have "f \<notin> fst ` set done \<Longrightarrow> map_of done f = None" for f by (simp add: map_of_eq_None_iff)
    ultimately show "map take_value sls ! i = map (map_of done) fs ! i"
      using i rows by (cases "sls ! i") (simp_all add: take_value_def rows_ok_def)
  qed
qed

lemma ready_iff: "slot_is_ready sl = (take_value sl \<noteq> None)"
  by (simp add: slot_is_ready_def take_value_def split: slot.split)

lemma pop_front_result:
  assumes "deque_history_ok s" "pop_front s = (v, s')"
  shows "(v, line s') = spec_pop_front (result_of s) (line s)"
    "taken s' = taken s @ (case v of None \<Rightarrow> [] | Some r \<Rightarrow> [(hd (line s), r)])"
proof -
  have r: "map take_value (slots s) = map (result_of s) (line s)"
    using rows_results[OF historyD(1)[OF assms(1)]] by (simp add: result_of_def)
  have "(v, line s') = spec_pop_front (result_of s) (line s) \<and>
    taken s' = taken s @ (case v of None \<Rightarrow> [] | Some r \<Rightarrow> [(hd (line s), r)])"
  proof (cases "slots s")
    case Nil
    with r assms(2) show ?thesis by (auto simp: pop_front_def spec_pop_front_def)
  next
    case (Cons sl sls)
    with r obtain f fs where fs: "line s = f # fs" "result_of s f = take_value sl" by (cases "line s") auto
    with Cons assms(2) show ?thesis
      by (cases "take_value sl") (auto simp: pop_front_def spec_pop_front_def ready_iff split: option.splits)
  qed
  then show "(v, line s') = spec_pop_front (result_of s) (line s)"
    "taken s' = taken s @ (case v of None \<Rightarrow> [] | Some r \<Rightarrow> [(hd (line s), r)])" by blast+
qed

lemma pop_back_result:
  assumes "deque_history_ok s" "pop_back s = (v, s')"
  shows "(v, line s') = spec_pop_back (result_of s) (line s)"
    "taken s' = taken s @ (case v of None \<Rightarrow> [] | Some r \<Rightarrow> [(last (line s), r)])"
proof -
  have r: "map take_value (slots s) = map (result_of s) (line s)"
    using rows_results[OF historyD(1)[OF assms(1)]] by (simp add: result_of_def)
  have "(v, line s') = spec_pop_back (result_of s) (line s) \<and>
    taken s' = taken s @ (case v of None \<Rightarrow> [] | Some r \<Rightarrow> [(last (line s), r)])"
  proof (cases "slots s" rule: rev_cases)
    case Nil
    with r assms(2) show ?thesis by (auto simp: pop_back_def spec_pop_back_def spec_pop_front_def)
  next
    case (snoc sls sl)
    with r obtain f fs where fs: "line s = fs @ [f]" "result_of s f = take_value sl"
      by (cases "line s" rule: rev_cases) auto
    with snoc assms(2) show ?thesis
      by (cases "take_value sl") (auto simp: pop_back_def spec_pop_back_def spec_pop_front_def ready_iff split: option.splits)
  qed
  then show "(v, line s') = spec_pop_back (result_of s) (line s)"
    "taken s' = taken s @ (case v of None \<Rightarrow> [] | Some r \<Rightarrow> [(last (line s), r)])" by blast+
qed

lemma any_pending_result:
  assumes "deque_history_ok s"
  shows "list_ex (\<lambda>sl. \<not> slot_is_ready sl) (slots s) = (\<exists>f \<in> set (line s). result_of s f = None)"
proof -
  have r: "map take_value (slots s) = map (result_of s) (line s)"
    using rows_results[OF historyD(1)[OF assms]] by (simp add: result_of_def)
  have "list_ex (\<lambda>sl. \<not> slot_is_ready sl) (slots s) = (None \<in> set (map take_value (slots s)))"
    by (simp add: list_ex_iff ready_iff image_iff) metis
  also have "\<dots> = (\<exists>f \<in> set (line s). result_of s f = None)" unfolding r by (simp add: image_iff) metis
  finally show ?thesis .
qed

lemma line_empty: "deque_history_ok s \<Longrightarrow> (slots s = []) = (line s = [])"
  using historyD(1)[of s] by (auto simp: rows_ok_def)

lemma pop_none_same:
  "pop_front s = (None, s') \<Longrightarrow> s' = s" "pop_back s = (None, s') \<Longrightarrow> s' = s"
  by (auto simp: pop_front_def pop_back_def ready_iff split: if_splits)

lemma end_poll_answer:
  assumes "deque_history_ok s"
  shows "answer (end_poll mode s) = spec_answer mode (result_of s) (line s)"
proof (cases mode)
  case Only_poll
  with any_pending_result[OF assms] show ?thesis by (simp add: end_poll_def spec_answer_def)
next
  case Then_front
  obtain v s' where p: "pop_front s = (v, s')" by (cases "pop_front s")
  note r = pop_front_result(1)[OF assms p]
  show ?thesis
  proof (cases v)
    case None
    with p have "s' = s" by (simp add: pop_none_same)
    with None p r Then_front line_empty[OF assms] show ?thesis
      by (cases "line s") (auto simp: end_poll_def spec_answer_def spec_pop_front_def split: option.splits)
  next
    case (Some x)
    with p r Then_front show ?thesis
      by (cases "line s") (auto simp: end_poll_def spec_answer_def spec_pop_front_def split: option.splits)
  qed
next
  case Then_back
  obtain v s' where p: "pop_back s = (v, s')" by (cases "pop_back s")
  note r = pop_back_result(1)[OF assms p]
  show ?thesis
  proof (cases v)
    case None
    with p have "s' = s" by (simp add: pop_none_same)
    with None p r Then_back line_empty[OF assms] show ?thesis
      by (cases "line s" rule: rev_cases)
        (auto simp: end_poll_def spec_answer_def spec_pop_front_def spec_pop_back_def split: option.splits)
  next
    case (Some x)
    with p r Then_back show ?thesis
      by (cases "line s" rule: rev_cases)
        (auto simp: end_poll_def spec_answer_def spec_pop_front_def spec_pop_back_def split: option.splits)
  qed
qed

lemma end_poll_taken:
  assumes "deque_history_ok s" "answer (end_poll mode s) = Got v"
  shows "\<exists>f. taken (end_poll mode s) = taken s @ [(f, v)] \<and> result_of s f = Some v"
proof (cases mode)
  case Only_poll
  with assms(2) show ?thesis by (simp add: end_poll_def split: if_splits)
next
  case Then_front
  obtain w s' where p: "pop_front s = (w, s')" by (cases "pop_front s")
  with assms(2) Then_front have w: "w = Some v" "taken (end_poll mode s) = taken s'"
    by (cases w; simp add: end_poll_def split: if_splits)+
  from pop_front_result[OF assms(1) p] w show ?thesis
    by (cases "line s") (auto simp: spec_pop_front_def split: option.splits)
next
  case Then_back
  obtain w s' where p: "pop_back s = (w, s')" by (cases "pop_back s")
  with assms(2) Then_back have w: "w = Some v" "taken (end_poll mode s) = taken s'"
    by (cases w; simp add: end_poll_def split: if_splits)+
  from pop_back_result[OF assms(1) p] w show ?thesis
    by (cases "line s" rule: rev_cases) (auto simp: spec_pop_front_def spec_pop_back_def split: option.splits)
qed

section \<open>The owner's work\<close>

text \<open>What is left of a poll or of the drop: a slot costs at most seven steps.\<close>

definition owner_work :: "'v deque \<Rightarrow> nat" where
  "owner_work s = (let n = length (slots s);
       rest = (\<lambda>k. case k of Resume_scan mode i \<Rightarrow> 8 * (n - i) + 1 | Resume_drain \<Rightarrow> 8 * n + 1) in
     case owner s of
      At_rest \<Rightarrow> 0
    | Gone \<Rightarrow> 0
    | Scan mode i \<Rightarrow> 8 * (n - i) + 1
    | In_poll mode i \<Rightarrow> 8 * (n - i)
    | Release_slot f a k \<Rightarrow> rest k + 4
    | Drop_future f a k \<Rightarrow> rest k + 3
    | Release_waker a k \<Rightarrow> rest k + 2
    | Free_meta a k \<Rightarrow> rest k + 1
    | Drain \<Rightarrow> 8 * n + 1)"

lemma work_owner:
  assumes "owner_step r s = Some s'" "deque_inv s"
  shows "owner_work s' < owner_work s"
proof -
  have inv: "counts_ok s" "freers_ok s" "deque_history_ok s" using assms(2) by (simp_all add: deque_inv_def)
  have resume: "owner_work (t\<lparr>owner := resumed k\<rparr>) =
      (case k of Resume_scan mode i \<Rightarrow> 8 * (length (slots t) - i) + 1 | Resume_drain \<Rightarrow> 8 * length (slots t) + 1)"
    for t :: "'a deque" and k
    by (cases k) (simp_all add: owner_work_def resumed_def)
  show ?thesis using assms(1) inv
  proof (cases rule: owner_step_elim)
    case (release_waker a k m)
    show ?thesis
    proof (cases "ref_count m = 1")
      case False
      with release_waker resume[of k "s\<lparr>metas := (metas s)(a := Some (drop_ref m))\<rparr>"] show ?thesis
        by (simp add: owner_work_def split: resume.splits)
    qed (use release_waker in \<open>simp add: owner_work_def Let_def\<close>)
  next
    case (free_meta a k m)
    with resume[of k "s\<lparr>metas := (metas s)(a := None)\<rparr>"] show ?thesis
      by (simp add: owner_work_def split: resume.splits)
  next
    case (finish mode i)
    have "owner_work s' = 0" using finish(3) by (simp add: owner_work_def)
    with finish(1) show ?thesis by (simp add: owner_work_def)
  qed (simp_all add: owner_work_def Let_def diff_less_mono2)
qed

lemma work_others:
  assumes "exec x s = Some s'" "allowed x s" "deque_inv s" "\<And>r. x \<noteq> Own r" 
  shows "owner_work s' = (case x of Poll mode w \<Rightarrow> 8 * length (slots s) + 1 | Drop_deque \<Rightarrow> 8 * length (slots s) + 1
    | _ \<Rightarrow> owner_work s)"
  using assms(1)
proof (cases rule: exec_elim)
  case (pop_front v t)
  with pop_front_frame(1)[OF pop_front(2)] assms(2) show ?thesis by (simp add: allowed_def owner_work_def)
next
  case (pop_back v t)
  with pop_back_frame(1)[OF pop_back(2)] assms(2) show ?thesis by (simp add: allowed_def owner_work_def)
next
  case (act t)
  have inv: "counts_ok s" using assms(3) by (simp add: deque_inv_def)
  have "slots s' = slots s \<and> owner s' = owner s" using act(2) inv by (cases rule: act_elim) simp_all
  with act(1) show ?thesis by (simp add: owner_work_def)
next
  case (clone src h)
  have inv: "counts_ok s" using assms(3) by (simp add: deque_inv_def)
  from clone_elim[OF clone(2) inv] obtain a m where
    "s' = s\<lparr>metas := (metas s)(a := Some (add_ref m)), handles := (h, a) # handles s\<rparr>" by metis
  with clone(1) show ?thesis by (simp add: owner_work_def)
qed (use assms(2,4) in \<open>simp_all add: allowed_def owner_work_def begin_poll_def push_back_handle_def push_front_handle_def new_slot_def\<close>)

section \<open>A queue\<close>

text \<open>A program that only pushes at the back and takes from the front.\<close>

definition queue_op :: "'v op \<Rightarrow> bool" where
  "queue_op x = (case x of
      Push_front f a \<Rightarrow> False
    | Pop_back \<Rightarrow> False
    | Poll mode w \<Rightarrow> mode \<noteq> Then_back
    | Drop_deque \<Rightarrow> False
    | _ \<Rightarrow> True)"

inductive queue_reachable :: "'v deque \<Rightarrow> bool" where
  new: "queue_reachable deque_new"
| step: "queue_reachable s \<Longrightarrow> queue_op x \<Longrightarrow> allowed x s \<Longrightarrow> exec x s = Some s' \<Longrightarrow> queue_reachable s'"

lemma queue_reachable_deque: "queue_reachable s \<Longrightarrow> deque_reachable s"
  by (induction rule: queue_reachable.induct) (auto intro: deque_reachable.intros)

definition queue_resume :: "resume \<Rightarrow> bool" where
  "queue_resume k = (case k of Resume_scan mode i \<Rightarrow> mode \<noteq> Then_back | Resume_drain \<Rightarrow> False)"

definition queue_owner :: "owner \<Rightarrow> bool" where
  "queue_owner c = (case c of
      At_rest \<Rightarrow> True
    | Scan mode i \<Rightarrow> mode \<noteq> Then_back
    | In_poll mode i \<Rightarrow> mode \<noteq> Then_back
    | Release_slot f a k \<Rightarrow> queue_resume k
    | Drop_future f a k \<Rightarrow> queue_resume k
    | Release_waker a k \<Rightarrow> queue_resume k
    | Free_meta a k \<Rightarrow> queue_resume k
    | Drain \<Rightarrow> False
    | Gone \<Rightarrow> False)"

definition deque_queue_ok :: "'v deque \<Rightarrow> bool" where
  "deque_queue_ok s = (queue_owner (owner s) \<and> rev (pushed s) = map fst (taken s) @ line s)"

lemma queue_owner_simps [simp]:
  "queue_owner At_rest" "queue_owner (Scan mode i) = (mode \<noteq> Then_back)" "queue_owner (In_poll mode i) = (mode \<noteq> Then_back)"
  "queue_owner (Release_slot f a k) = queue_resume k" "queue_owner (Drop_future f a k) = queue_resume k"
  "queue_owner (Release_waker a k) = queue_resume k" "queue_owner (Free_meta a k) = queue_resume k"
  "\<not> queue_owner Drain" "queue_owner (resumed k) = queue_resume k" "queue_resume (Resume_scan mode i) = (mode \<noteq> Then_back)"
  by (auto simp: queue_owner_def queue_resume_def resumed_def split: resume.split)

lemma queue_pop:
  assumes "pop_front s = (v, s')" "deque_history_ok s"
  shows "map fst (taken s') @ line s' = map fst (taken s) @ line s \<and> pushed s' = pushed s"
proof -
  note r = pop_front_result[OF assms(2,1)]
  show ?thesis
    using r pop_kept(1)[OF assms(1)]
    by (cases "line s"; cases v) (auto simp: spec_pop_front_def split: option.splits)
qed

lemma queue_owner_step:
  assumes "owner_step r s = Some s'" "deque_inv s" "deque_queue_ok s"
  shows "deque_queue_ok s'"
proof -
  have inv: "counts_ok s" "freers_ok s" "deque_history_ok s" using assms(2) by (simp_all add: deque_inv_def)
  show ?thesis using assms(1) inv
  proof (cases rule: owner_step_elim)
    case (finish mode i)
    show ?thesis
    proof (cases rule: end_poll_cases[of mode s])
      case (only b)
      with finish(3) assms(3) show ?thesis by (simp add: deque_queue_ok_def)
    next
      case (from_front v t b)
      from queue_pop[OF from_front(2) inv(3)] from_front(3) finish(3) assms(3) show ?thesis by (simp add: deque_queue_ok_def)
    next
      case (from_back v t b)
      with finish(1) assms(3) show ?thesis by (simp add: deque_queue_ok_def)
    qed
  qed (use assms(3) in \<open>simp_all add: deque_queue_ok_def\<close>)
qed

lemma queue_exec:
  assumes "exec x s = Some s'" "allowed x s" "queue_op x" "deque_inv s" "deque_queue_ok s"
  shows "deque_queue_ok s'"
  using assms(1)
proof (cases rule: exec_elim)
  case (push_back f a)
  with assms(5) show ?thesis by (simp add: deque_queue_ok_def push_back_handle_def new_slot_def)
next
  case (push_front f a)
  with assms(3) show ?thesis by (simp add: queue_op_def)
next
  case (pop_front v t)
  have "deque_history_ok s" using assms(4) by (simp add: deque_inv_def)
  from queue_pop[OF pop_front(2) this] pop_front(3) pop_front_frame(1)[OF pop_front(2)] assms(5)
  show ?thesis by (simp add: deque_queue_ok_def)
next
  case (pop_back v t)
  with assms(3) show ?thesis by (simp add: queue_op_def)
next
  case (poll mode w)
  with assms(3,5) show ?thesis by (simp add: queue_op_def deque_queue_ok_def begin_poll_def)
next
  case drop_deque
  with assms(3) show ?thesis by (simp add: queue_op_def)
next
  case (own r)
  from queue_owner_step[OF own(2) assms(4,5)] show ?thesis .
next
  case (act t)
  have inv: "counts_ok s" using assms(4) by (simp add: deque_inv_def)
  have "line s' = line s \<and> pushed s' = pushed s \<and> taken s' = taken s \<and> owner s' = owner s"
    using act(2) inv by (cases rule: act_elim) simp_all
  with assms(5) show ?thesis by (simp add: deque_queue_ok_def)
next
  case (clone src h)
  have inv: "counts_ok s" using assms(4) by (simp add: deque_inv_def)
  from clone_elim[OF clone(2) inv] obtain a m where
    "s' = s\<lparr>metas := (metas s)(a := Some (add_ref m)), handles := (h, a) # handles s\<rparr>" by metis
  with assms(5) show ?thesis by (simp add: deque_queue_ok_def)
qed (use assms(5) in \<open>simp_all add: deque_queue_ok_def\<close>)

lemma queue_reachable_ok: "queue_reachable s \<Longrightarrow> deque_queue_ok s"
proof (induction rule: queue_reachable.induct)
  case new
  show ?case by (simp add: deque_queue_ok_def deque_new_def)
next
  case (step s x s')
  from queue_exec[OF step.hyps(4,3,2) reachable_inv[OF queue_reachable_deque[OF step.hyps(1)]] step.IH] show ?case .
qed

section \<open>A dropped deque\<close>

lemma gone_empty: "deque_reachable s \<Longrightarrow> owner s = Gone \<Longrightarrow> slots s = []"
proof (induction rule: deque_reachable.induct)
  case new
  then show ?case by (simp add: deque_new_def)
next
  case (step s x s')
  have inv: "counts_ok s" "freers_ok s" "deque_history_ok s"
    using reachable_inv[OF step.hyps(1)] by (simp_all add: deque_inv_def)
  show ?case using step.hyps(3)
  proof (cases rule: exec_elim)
    case (own r)
    from own(2) inv show ?thesis
      by (cases rule: owner_step_elim)
        (use step.prems step.IH in \<open>simp_all add: resumed_def split: if_splits resume.splits\<close>)
  next
    case (act t)
    have "slots s' = slots s \<and> owner s' = owner s" using act(2) inv(1) by (cases rule: act_elim) simp_all
    with step.IH step.prems show ?thesis by simp
  next
    case (clone src h)
    from clone_elim[OF clone(2) inv(1)] obtain a m where
      "s' = s\<lparr>metas := (metas s)(a := Some (add_ref m)), handles := (h, a) # handles s\<rparr>" by metis
    with step.IH step.prems show ?thesis by simp
  next
    case (pop_front v t)
    with pop_front_frame(1)[OF pop_front(2)] step.hyps(2) step.prems show ?thesis by (simp add: allowed_def)
  next
    case (pop_back v t)
    with pop_back_frame(1)[OF pop_back(2)] step.hyps(2) step.prems show ?thesis by (simp add: allowed_def)
  qed (use step.hyps(2) step.IH step.prems in
      \<open>simp_all add: allowed_def begin_poll_def push_back_handle_def push_front_handle_def new_slot_def\<close>)
qed

lemma unreferenced_freed:
  assumes "deque_inv s" "refs_to s a = 0" "\<And>t. actors s t = Resting" "\<not> freed_by_owner a (owner s)"
  shows "metas s a = None"
proof (rule ccontr)
  assume "metas s a \<noteq> None"
  then obtain m where m: "metas s a = Some m" by blast
  have inv: "counts_ok s" "freers_ok s" using assms(1) by (simp_all add: deque_inv_def)
  have "zero_at (metas s) a" using counts_at[OF inv(1) m] assms(2) m by (simp add: zero_at_def)
  then obtain p where "freers s a = {p}" using inv(2) unfolding freers_ok_def by metis
  then have p: "p \<in> freers s a" by simp
  show False using p assms(3,4) by (cases p) simp_all
qed

section \<open>A run\<close>

fun run_ops :: "'v op list \<Rightarrow> 'v deque \<Rightarrow> 'v deque option" where
  "run_ops [] s = Some s"
| "run_ops (x # xs) s = (if allowed x s then exec x s \<bind> run_ops xs else None)"

lemma run_ops_reachable: "deque_reachable s \<Longrightarrow> run_ops xs s = Some s' \<Longrightarrow> deque_reachable s'"
  by (induction xs arbitrary: s) (auto simp: run_simps split: if_splits intro: deque_reachable.step)

lemma run_ops_queue: "queue_reachable s \<Longrightarrow> run_ops xs s = Some s' \<Longrightarrow> list_all queue_op xs \<Longrightarrow> queue_reachable s'"
  by (induction xs arbitrary: s) (auto simp: run_simps split: if_splits intro: queue_reachable.step)

text \<open>Two futures; the first keeps a clone of its waker and stays pending, the second is ready at once. After the poll a
  thread wakes the first through the clone and has set the flag.\<close>

definition demo_waking_ops :: "nat op list" where
  "demo_waking_ops = [Push_back 0 10, Push_back 1 11, Poll Only_poll 7, Own Future_pending,
     Clone_waker (Slot_waker 10) 5, Own Future_pending, Own Future_pending, Own (Future_ready 42), Own Future_pending,
     Own Future_pending, Own Future_pending, Own Future_pending, Own Future_pending, Wake_by_ref 0 (Handle 5), Act 0]"

definition demo_waking :: "nat deque" where
  "demo_waking = \<lparr>metas = (\<lambda>a. None)(10 := Some \<lparr>ref_count = 3, activated = True\<rparr>), parent = 7,
     slots = [Pending 0 10, Ready 42], handles = [(5, 10)], actors = (\<lambda>t. Resting)(0 := Read_parent (Handle 5) False),
     owner = At_rest, answer = Some_pending, line = [0, 1], pushed = [1, 0], completed = [(1, 42)], discarded = [1],
     taken = [], visited = [11, 10], woken = False\<rparr>"

lemmas deque_eval = exec_def allowed_def owner_step_def scan_step_def future_step_def drain_step_def act_def
  clone_waker_def with_meta_def add_ref_def drop_ref_def create_waker_meta_def new_slot_def push_back_handle_def
  push_front_handle_def begin_poll_def end_poll_def pop_front_def pop_back_def slot_is_ready_def take_value_def
  release_ref_def free_meta_def check_activated_def set_activated_def source_addr_def after_wake_def
  actor_source_def consumes_def can_borrow_def can_consume_def live_future_def resumed_def deque_new_def

lemma demo_waking_run: "run_ops demo_waking_ops deque_new = Some demo_waking"
  by (simp add: demo_waking_ops_def demo_waking_def deque_eval fun_upd_twist numeral_3_eq_3)

text \<open>The thread finishes; the next poll, in queue order, takes the first result.\<close>

definition demo_taken_ops :: "nat op list" where
  "demo_taken_ops = demo_waking_ops @ [Act 0, Act 0, Poll Then_front 8, Own Future_pending, Own (Future_ready 41),
     Own Future_pending, Own Future_pending, Own Future_pending, Own Future_pending]"

definition demo_taken :: "nat deque" where
  "demo_taken = \<lparr>metas = (\<lambda>a. None)(10 := Some \<lparr>ref_count = 1, activated = False\<rparr>), parent = 8,
     slots = [Ready 41, Ready 42], handles = [(5, 10)], actors = (\<lambda>t. Resting),
     owner = Scan Then_front 2, answer = Nothing_yet, line = [0, 1], pushed = [1, 0], completed = [(0, 41), (1, 42)],
     discarded = [0, 1], taken = [], visited = [10], woken = False\<rparr>"

lemma run_ops_append: "run_ops (xs @ ys) s = run_ops xs s \<bind> run_ops ys"
  by (induction xs arbitrary: s) (auto split: option.split Option.bind_splits)

lemma demo_taken_run: "run_ops demo_taken_ops deque_new = Some demo_taken"
  unfolding demo_taken_ops_def run_ops_append demo_waking_run
  by (simp add: demo_waking_def demo_taken_def deque_eval fun_upd_twist fun_upd_idem numeral_3_eq_3 numeral_2_eq_2)

definition demo_gone :: "nat deque" where
  "demo_gone = \<lparr>metas = (\<lambda>a. None), parent = 0, slots = [], handles = [], actors = (\<lambda>t. Resting),
     owner = Gone, answer = Nothing_yet, line = [], pushed = [0], completed = [], discarded = [0], taken = [],
     visited = [], woken = False\<rparr>"

lemma demo_gone_run:
  "run_ops [Push_back 0 10, Drop_deque, Own Future_pending, Own Future_pending, Own Future_pending, Own Future_pending,
     Own Future_pending, Own Future_pending] deque_new = Some demo_gone"
  by (simp add: demo_gone_def deque_eval numeral_2_eq_2 fun_upd_idem)

lemma deque_demo_reachable:
  "deque_reachable demo_waking" "deque_reachable demo_taken" "deque_reachable demo_gone" "queue_reachable demo_taken"
  using run_ops_reachable[OF deque_reachable.new demo_waking_run] run_ops_reachable[OF deque_reachable.new demo_taken_run]
    run_ops_reachable[OF deque_reachable.new demo_gone_run] run_ops_queue[OF queue_reachable.new demo_taken_run]
  by (simp_all add: demo_taken_ops_def demo_waking_ops_def queue_op_def)

section \<open>Properties\<close>

text \<open>C10: Whatever Rust lets the owner and the threads do next has an outcome: no step touches metadata that has gone
  back to the pool, none polls a future that has finished or was dropped, and every count equals the references there
  are.\<close>

theorem deque_sound:
  assumes "deque_reachable s" "allowed x s"
  shows "(\<exists>s'. exec x s = Some s' \<and> deque_reachable s') \<and>
    (\<forall>a. 0 < refs_to s a \<longrightarrow> (\<exists>m. metas s a = Some m \<and> ref_count m = refs_to s a))"
proof
  note inv = reachable_inv[OF assms(1)]
  from exec_enabled[OF inv assms(2)] obtain s' where "exec x s = Some s'" by blast
  with deque_reachable.step[OF assms this] show "\<exists>s'. exec x s = Some s' \<and> deque_reachable s'" by blast
  show "\<forall>a. 0 < refs_to s a \<longrightarrow> (\<exists>m. metas s a = Some m \<and> ref_count m = refs_to s a)"
    using counted inv unfolding deque_inv_def by blast
qed

theorem deque_sound_witness:
  "exec (Act 0) demo_waking \<noteq> None \<and> 0 < refs_to demo_waking 10 \<and>
   (\<exists>m. metas demo_waking 10 = Some m \<and> ref_count m = refs_to demo_waking 10)"
proof -
  have "allowed (Act 0) demo_waking" by (simp add: allowed_def demo_waking_def)
  note sound = deque_sound[OF deque_demo_reachable(1) this]
  have "refs_to demo_waking 10 = 3" by (simp add: refs_to_def demo_waking_def)
  with sound spec[OF conjunct2[OF sound], of 10] show ?thesis by auto
qed

text \<open>C36: Once the deque is dropped, no waker is left and no thread is inside one, all metadata has gone back to the
  pool, and every future ever pushed has been dropped exactly once.\<close>

theorem deque_returns_metadata:
  assumes "deque_reachable s" "owner s = Gone" "handles s = []" "\<forall>t. actors s t = Resting"
  shows "metas s a = None \<and> set (discarded s) = set (pushed s) \<and> distinct (discarded s)"
proof -
  note inv = reachable_inv[OF assms(1)]
  have h: "known_ok s" "dropped_ok s" using inv historyD by (auto simp: deque_inv_def)
  have empty: "slots s = []" using gone_empty[OF assms(1,2)] .
  have "refs_to s a = 0" using assms(2,3) empty by (simp add: refs_to_def)
  then have "metas s a = None" using assms(2,4) by (intro unreferenced_freed[OF inv]) simp_all
  moreover have "set (pushed s) \<subseteq> set (discarded s)"
    using reachable_held[OF assms(1)] empty assms(2) by (auto simp: futures_held_ok_def pending_in_def)
  ultimately show ?thesis using h by (auto simp: known_ok_def dropped_ok_def)
qed

theorem deque_returns_metadata_witness: "metas demo_gone 10 = None \<and> set (discarded demo_gone) = {0}"
  using deque_returns_metadata[OF deque_demo_reachable(3), of 10] by (simp add: demo_gone_def)

text \<open>C11: A wake-up is never lost. After a poll has answered, a pending future whose flag is set has its wake-up under
  way: the executor's waker of that poll has been woken since, or a thread is about to read and wake it.\<close>

theorem deque_no_lost_wakeup:
  assumes "deque_reachable s" "poll_done (answer s)" "Pending f a \<in> set (slots s)" "metas s a = Some m" "activated m"
  shows "woken s \<or> (\<exists>t. waking s t a)"
  using reachable_wake[OF assms(1)] reachable_scan[OF assms(1)] assms(2-5) unfolding wake_ok_def scan_ok_def by blast

theorem deque_no_lost_wakeup_witness:
  "metas demo_waking 10 = Some \<lparr>ref_count = 3, activated = True\<rparr> \<and> (\<exists>t. waking demo_waking t 10)"
  using deque_no_lost_wakeup[OF deque_demo_reachable(1), of 0 10 "\<lparr>ref_count = 3, activated = True\<rparr>"]
  by (simp add: demo_waking_def)

text \<open>C37: The deque is the abstract deque of the futures' results: popping at either end takes the result of the future
  there, if it has one, and nothing else; no result is taken twice.\<close>

theorem deque_refines_results:
  assumes "deque_reachable s" "pop_front s = (v, s')" "pop_back s = (w, s'')"
  shows "(v, line s') = spec_pop_front (result_of s) (line s) \<and> (w, line s'') = spec_pop_back (result_of s) (line s) \<and>
    distinct (map fst (taken s) @ line s) \<and> (\<forall>(f, r) \<in> set (taken s). result_of s f = Some r)"
proof -
  note h = reachable_history[OF assms(1)]
  have "distinct (map fst (taken s) @ line s)"
    using historyD(1,2)[OF h] by (simp add: taken_ok_def rows_ok_def)
  moreover have "\<forall>(f, r) \<in> set (taken s). result_of s f = Some r"
    using historyD(1,2)[OF h] by (auto simp: taken_ok_def rows_ok_def result_of_def)
  ultimately show ?thesis
    using pop_front_result(1)[OF h assms(2)] pop_back_result(1)[OF h assms(3)] by blast
qed

theorem deque_refines_results_witness:
  "spec_pop_front (result_of demo_waking) [0, 1] = (None, [0, 1]) \<and>
   spec_pop_back (result_of demo_waking) [0, 1] = (Some 42, [0])"
  using deque_refines_results[OF deque_demo_reachable(1) prod.collapse[symmetric] prod.collapse[symmetric]]
  by (simp add: demo_waking_def pop_front_def pop_back_def slot_is_ready_def take_value_def)

text \<open>C35: A program that only pushes at the back and takes from the front gets the results in the order of the pushes:
  what was taken, followed by what is in the deque, is everything pushed.\<close>

theorem deque_is_a_queue:
  assumes "queue_reachable s"
  shows "rev (pushed s) = map fst (taken s) @ line s \<and> map Some (map snd (taken s)) = map (result_of s \<circ> fst) (taken s)"
proof -
  have "taken_ok (taken s) (completed s) (line s)" "rows_ok (completed s) (line s) (slots s)"
    using historyD(1,2)[OF reachable_history[OF queue_reachable_deque[OF assms]]] by simp_all
  then show ?thesis
    using queue_reachable_ok[OF assms] by (auto simp: deque_queue_ok_def taken_ok_def rows_ok_def result_of_def)
qed

theorem deque_is_a_queue_witness: "rev (pushed demo_taken) = [0, 1] \<and> line demo_taken = [0, 1]"
  using deque_is_a_queue[OF deque_demo_reachable(4)] by (simp add: demo_taken_def)

text \<open>A poll ends with the right answer: \<open>poll\<close> is ready when nothing is pending, \<open>poll_next\<close> and \<open>poll_back\<close> yield
  the result at their end, report exhaustion of an empty deque and are pending otherwise.\<close>

theorem deque_poll_answer:
  assumes "deque_reachable s" "owner s = Scan mode i" "length (slots s) \<le> i" "exec (Own r) s = Some s'"
  shows "owner s' = At_rest \<and> answer s' = spec_answer mode (result_of s) (line s) \<and>
    (\<forall>v. answer s' = Got v \<longrightarrow> (\<exists>f. taken s' = taken s @ [(f, v)] \<and> result_of s f = Some v))"
proof -
  have s': "s' = end_poll mode s" using assms(2-4) by (simp add: exec_def owner_step_def scan_step_def)
  note h = reachable_history[OF assms(1)]
  show ?thesis
    unfolding s' using end_poll_answer[OF h] end_poll_taken[OF h] by simp
qed

theorem deque_poll_answer_witness:
  "spec_answer Then_front (result_of demo_taken) (line demo_taken) = Got 41"
proof -
  have "exec (Own Future_pending) demo_taken = Some (end_poll Then_front demo_taken)"
    by (simp add: exec_def owner_step_def scan_step_def demo_taken_def)
  from deque_poll_answer[OF deque_demo_reachable(2) _ _ this] show ?thesis
    by (simp add: demo_taken_def end_poll_def pop_front_def slot_is_ready_def take_value_def)
qed

text \<open>C38: Polls and drops end: every step of the owner leaves less work, at most eight steps per future and one more,
  and nothing a waker does adds any.\<close>

theorem deque_owner_terminates:
  assumes "deque_reachable s" "allowed x s" "exec x s = Some s'"
  shows "case x of Own r \<Rightarrow> owner_work s' < owner_work s
    | Poll mode w \<Rightarrow> owner_work s' = 8 * length (slots s) + 1
    | Drop_deque \<Rightarrow> owner_work s' = 8 * length (slots s) + 1
    | _ \<Rightarrow> owner_work s' = owner_work s"
proof (cases "\<exists>r. x = Own r")
  case True
  with work_owner[OF _ reachable_inv[OF assms(1)]] assms(3) show ?thesis by (auto simp: exec_def)
next
  case False
  with work_others[OF assms(3,2) reachable_inv[OF assms(1)]] show ?thesis by (auto split: op.splits)
qed

theorem deque_owner_terminates_witness: "owner_work (begin_poll Only_poll 9 demo_waking) = 17"
proof -
  have "allowed (Poll Only_poll 9) demo_waking" by (simp add: allowed_def demo_waking_def)
  from deque_owner_terminates[OF deque_demo_reachable(1) this, of "begin_poll Only_poll 9 demo_waking"]
  show ?thesis by (simp add: exec_def demo_waking_def)
qed

end
