(* ===== verification/OrderedMaps.thy ===== *)
theory OrderedMaps
  imports Prelude
begin

text \<open>
  The ordered collections and the error plumbing the release planner is written with. A \<open>BTreeMap\<close> is the list of its
  entries in ascending key order, a \<open>BTreeSet\<close> the ascending list of its elements: iteration order is observable in
  the artifacts the planner writes. Fallible functions return a sum with the error on the left; \<open>?\<close> is \<open>and_then\<close>.
\<close>

section \<open>Ordered maps\<close>

type_synonym ('k, 'v) btree = "('k \<times> 'v) list"

fun btree_insert :: "'k::linorder \<Rightarrow> 'v \<Rightarrow> ('k, 'v) btree \<Rightarrow> ('k, 'v) btree" where
  "btree_insert k v [] = [(k, v)]"
| "btree_insert k v ((k', v') # m) =
    (if k < k' then (k, v) # (k', v') # m
     else if k = k' then (k, v) # m
     else (k', v') # btree_insert k v m)"

definition btree_remove :: "'k \<Rightarrow> ('k, 'v) btree \<Rightarrow> ('k, 'v) btree" where
  "btree_remove k m = filter (\<lambda>(k', v). k' \<noteq> k) m"

text \<open>\<open>collect\<close> and \<open>extend\<close>: a later entry replaces an earlier one of the same key.\<close>

definition btree_extend :: "('k::linorder \<times> 'v) list \<Rightarrow> ('k, 'v) btree \<Rightarrow> ('k, 'v) btree" where
  "btree_extend xs m = fold (\<lambda>(k, v). btree_insert k v) xs m"

definition btree_collect :: "('k::linorder \<times> 'v) list \<Rightarrow> ('k, 'v) btree" where
  "btree_collect xs = btree_extend xs []"

definition btree_ok :: "('k::linorder, 'v) btree \<Rightarrow> bool" where
  "btree_ok m = sorted_wrt (<) (map fst m)"

lemma btree_insert_keys: "fst ` set (btree_insert k v m) = insert k (fst ` set m)"
  by (induction k v m rule: btree_insert.induct) auto

lemma btree_ok_Nil [simp, intro]: "btree_ok []"
  by (simp add: btree_ok_def)

lemma btree_ok_Cons: "btree_ok ((k, v) # m) = ((\<forall>k' \<in> fst ` set m. k < k') \<and> btree_ok m)"
  by (auto simp: btree_ok_def)

lemma btree_insert_ok [simp, intro]: "btree_ok m \<Longrightarrow> btree_ok (btree_insert k v m)"
  by (induction k v m rule: btree_insert.induct) (auto simp: btree_ok_Cons btree_insert_keys)

lemma btree_insert_lookup [simp]: "map_of (btree_insert k v m) = (map_of m)(k \<mapsto> v)"
  by (induction k v m rule: btree_insert.induct) (auto simp: fun_eq_iff)

lemma btree_remove_ok [simp, intro]: "btree_ok m \<Longrightarrow> btree_ok (btree_remove k m)"
  by (induction m) (auto simp: btree_remove_def btree_ok_Cons)

lemma btree_remove_lookup [simp]: "map_of (btree_remove k m) = (map_of m)(k := None)"
  by (induction m) (auto simp: btree_remove_def fun_eq_iff)

lemma btree_extend_ok [simp, intro]: "btree_ok m \<Longrightarrow> btree_ok (btree_extend xs m)"
  by (induction xs arbitrary: m) (auto simp: btree_extend_def)

lemma btree_extend_lookup: "map_of (btree_extend xs m) = map_of m ++ map_of (rev xs)"
proof (induction xs arbitrary: m)
  case (Cons x xs)
  obtain k v where x: "x = (k, v)" by (cases x)
  have "map_of (btree_extend (x # xs) m) = map_of (btree_extend xs (btree_insert k v m))"
    by (simp add: btree_extend_def x)
  with Cons[of "btree_insert k v m"] show ?case by (auto simp: x map_add_def fun_eq_iff split: option.split)
qed (simp add: btree_extend_def)

lemma btree_collect_ok [simp, intro]: "btree_ok (btree_collect xs)"
  by (simp add: btree_collect_def btree_extend_ok)

lemma btree_collect_lookup: "map_of (btree_collect xs) = map_of (rev xs)"
  by (simp add: btree_collect_def btree_extend_lookup)

lemma map_of_rev_distinct:
  assumes "distinct (map fst xs)"
  shows "map_of (rev xs) = map_of xs"
  by (rule map_of_eqI) (use assms in \<open>auto simp: map_of_eq_Some_iff rev_map[symmetric]\<close>)

lemma btree_distinct: "btree_ok m \<Longrightarrow> distinct (map fst m)"
  by (simp add: btree_ok_def strict_sorted_iff)

lemma btree_lookup_mem: "btree_ok m \<Longrightarrow> (map_of m k = Some v) = ((k, v) \<in> set m)"
  using btree_distinct[of m] by (auto simp: map_of_eq_Some_iff)

lemma btree_keys_lookup: "(k \<in> fst ` set m) = (map_of m k \<noteq> None)"
  by (simp add: map_of_eq_None_iff)

text \<open>Maps with the same entries are the same list.\<close>

lemma btree_eqI:
  assumes "btree_ok m" "btree_ok m'" "map_of m = map_of m'"
  shows "m = m'"
proof -
  have "set m = set m'"
  proof (rule set_eqI)
    fix x show "(x \<in> set m) = (x \<in> set m')"
      using btree_lookup_mem[OF assms(1), of "fst x" "snd x"] btree_lookup_mem[OF assms(2), of "fst x" "snd x"] assms(3)
      by simp
  qed
  moreover have "sorted (map fst m)" "sorted (map fst m')" "distinct (map fst m)" "distinct (map fst m')"
    using assms(1,2) by (simp_all add: btree_ok_def strict_sorted_iff)
  moreover have "inj_on fst (set m \<union> set m')"
    using calculation(1) btree_distinct[OF assms(2)] by (simp add: distinct_map)
  ultimately show ?thesis by (intro map_sorted_distinct_set_unique)
qed

section \<open>Ordered sets\<close>

definition bset :: "'a::linorder list \<Rightarrow> 'a list" where
  "bset xs = sort (remdups xs)"

lemma bset_props [simp]: "set (bset xs) = set xs" "sorted (bset xs)" "distinct (bset xs)"
  by (simp_all add: bset_def)

lemma bset_eq_iff: "(bset xs = bset ys) = (set xs = set ys)"
  by (metis bset_props sorted_distinct_set_unique)

lemma bset_strict: "sorted_wrt (<) (bset xs)"
  by (simp add: strict_sorted_iff)

section \<open>Errors\<close>

definition and_then :: "'e + 'a \<Rightarrow> ('a \<Rightarrow> 'e + 'b) \<Rightarrow> 'e + 'b" where
  "and_then x f = (case x of Inl e \<Rightarrow> Inl e | Inr y \<Rightarrow> f y)"

lemma and_then_simps [simp]: "and_then (Inl e) f = Inl e" "and_then (Inr y) f = f y"
  by (simp_all add: and_then_def)

lemma and_then_Inr_iff: "(and_then x f = Inr z) = (\<exists>y. x = Inr y \<and> f y = Inr z)"
  by (cases x) auto

lemma and_then_Inl_iff: "(and_then x f = Inl e) = (x = Inl e \<or> (\<exists>y. x = Inr y \<and> f y = Inl e))"
  by (cases x) auto

lemma ok_or_simps [simp]: "ok_or e None = Inl e" "ok_or e (Some x) = Inr x"
  by (simp_all add: ok_or_def)

lemma ok_or_Inl_iff: "(ok_or e x = Inl e') = (x = None \<and> e' = e)"
  by (cases x) auto

text \<open>A loop that leaves with the first error.\<close>

fun try_fold :: "('a \<Rightarrow> 's \<Rightarrow> 'e + 's) \<Rightarrow> 'a list \<Rightarrow> 's \<Rightarrow> 'e + 's" where
  "try_fold f [] s = Inr s"
| "try_fold f (x # xs) s = and_then (f x s) (try_fold f xs)"

definition try_map :: "('a \<Rightarrow> 'e + 'b) \<Rightarrow> 'a list \<Rightarrow> 'e + 'b list" where
  "try_map f xs = try_fold (\<lambda>x ys. and_then (f x) (\<lambda>y. Inr (ys @ [y]))) xs []"

lemma try_fold_append: "try_fold f (xs @ ys) s = and_then (try_fold f xs s) (try_fold f ys)"
proof (induction xs arbitrary: s)
  case (Cons x xs)
  then show ?case by (cases "f x s") simp_all
qed simp

lemma try_fold_invariant:
  assumes "try_fold f xs s = Inr s'" "P s" "\<And>x s s'. x \<in> set xs \<Longrightarrow> P s \<Longrightarrow> f x s = Inr s' \<Longrightarrow> P s'"
  shows "P s'"
  using assms by (induction xs arbitrary: s) (auto simp: and_then_Inr_iff)

lemma try_fold_total:
  assumes "P s" "\<And>x s. x \<in> set xs \<Longrightarrow> P s \<Longrightarrow> \<exists>s'. f x s = Inr s' \<and> P s'"
  shows "\<exists>s'. try_fold f xs s = Inr s' \<and> P s'"
  using assms
proof (induction xs arbitrary: s)
  case (Cons x xs)
  from Cons.prems(2)[of x s] Cons.prems(1) obtain s1 where "f x s = Inr s1" "P s1" by auto
  with Cons.IH[of s1] Cons.prems(2) show ?case by auto
qed simp

lemma try_fold_no_error:
  assumes "try_fold f xs s = Inl e" "P s" "\<And>x s s'. x \<in> set xs \<Longrightarrow> P s \<Longrightarrow> f x s = Inr s' \<Longrightarrow> P s'"
    "\<And>x s. x \<in> set xs \<Longrightarrow> P s \<Longrightarrow> f x s \<noteq> Inl e"
  shows False
  using assms by (induction xs arbitrary: s) (auto simp: and_then_Inl_iff)

end
