(* ===== verification/ReleaseVersions.thy ===== *)
theory ReleaseVersions
  imports OrderedMaps "HOL-Library.List_Lexorder" "HOL-Library.Char_ord" "HOL-Library.Product_Lexorder"
    "HOL-Library.Option_ord"
begin

text \<open>
  Versions as the release planner uses them (\<open>crp_versioning/src/plan.rs\<close>, \<open>check.rs\<close>, \<open>propose/decision.rs\<close>): the
  components and orders of the \<open>semver\<close> crate, version bumps with their overflow, the compatibility key, and the
  version a semantic decision asks for. The identifiers of pre-releases and build metadata are an ordered type
  parameter; \<open>None\<close> is the empty one, which is above every pre-release and below every build.
\<close>

section \<open>Versions\<close>

type_synonym pkg_name = string

datatype 'i version = Version (v_major: nat) (v_minor: nat) (v_patch: nat) (v_pre: "'i option") (v_build: "'i option")

definition version_rank :: "'i version \<Rightarrow> nat \<times> nat \<times> nat \<times> bool \<times> 'i option \<times> 'i option" where
  "version_rank v = (v_major v, v_minor v, v_patch v, v_pre v = None, v_pre v, v_build v)"

lemma version_rank_inj: "version_rank v = version_rank w \<Longrightarrow> v = w"
  by (cases v; cases w) (simp add: version_rank_def)

instantiation version :: (linorder) linorder
begin

definition less_eq_version :: "'a version \<Rightarrow> 'a version \<Rightarrow> bool" where
  "less_eq_version v w = (version_rank v \<le> version_rank w)"

definition less_version :: "'a version \<Rightarrow> 'a version \<Rightarrow> bool" where
  "less_version v w = (version_rank v < version_rank w)"

instance
  by standard (auto simp: less_eq_version_def less_version_def dest: version_rank_inj)

end

text \<open>\<open>cmp_precedence\<close> leaves the build metadata out.\<close>

definition precedence :: "'i version \<Rightarrow> nat \<times> nat \<times> nat \<times> bool \<times> 'i option" where
  "precedence v = (v_major v, v_minor v, v_patch v, v_pre v = None, v_pre v)"

definition version_new :: "nat \<Rightarrow> nat \<Rightarrow> nat \<Rightarrow> 'i version" where
  "version_new a b c = Version a b c None None"

definition plain_version :: "'i version \<Rightarrow> bool" where
  "plain_version v = (v_pre v = None \<and> v_build v = None)"

text \<open>Parsing and printing belong to the crate; reading back a printed version is what the planner relies on.\<close>

record 'i version_text =
  parse_version :: "string \<Rightarrow> 'i version option"
  show_version :: "'i version \<Rightarrow> string"

definition text_roundtrip :: "'i version_text \<Rightarrow> bool" where
  "text_roundtrip vt = (\<forall>v. parse_version vt (show_version vt v) = Some v)"

section \<open>Errors\<close>

text \<open>The errors of the planner. \<open>Panics\<close> is a failed \<open>expect\<close> or assertion.\<close>

datatype 'i release_error =
    Panics
  | UnsupportedPlanSchema nat
  | UnboundMergeTarget
  | UnresolvedExpandedPlan "pkg_name list"
  | UnknownPlanTarget pkg_name
  | UnknownVersionBump pkg_name string
  | InvalidVersion pkg_name string
  | PlanIncrementSpec pkg_name
  | ConflictingPlanVersion pkg_name
  | ConflictingPlanIncrementKind pkg_name
  | PlanVersionRegression pkg_name "'i version" "'i version"
  | NonPlainGroupVersion pkg_name "'i version"
  | VersionOverflow "'i version"
  | ExpandedPlanDrift "pkg_name list"

definition expect :: "'a option \<Rightarrow> 'i release_error + 'a" where
  "expect x = ok_or Panics x"

lemma expect_simps [simp]: "expect None = Inl Panics" "expect (Some x) = Inr x"
  by (simp_all add: expect_def)

lemma expect_iff: "(expect x = Inr y) = (x = Some y)"
  by (simp add: expect_def ok_or_iff)

section \<open>Bumps\<close>

datatype version_bump = Patch | Minor | Major

definition bump_rank :: "version_bump \<Rightarrow> nat" where
  "bump_rank b = (case b of Patch \<Rightarrow> 0 | Minor \<Rightarrow> 1 | Major \<Rightarrow> 2)"

instantiation version_bump :: linorder
begin

definition less_eq_version_bump :: "version_bump \<Rightarrow> version_bump \<Rightarrow> bool" where
  "less_eq_version_bump b c = (bump_rank b \<le> bump_rank c)"

definition less_version_bump :: "version_bump \<Rightarrow> version_bump \<Rightarrow> bool" where
  "less_version_bump b c = (bump_rank b < bump_rank c)"

instance
  by standard (auto simp: less_eq_version_bump_def less_version_bump_def bump_rank_def split: version_bump.splits)

end

definition bump_from_str :: "string \<Rightarrow> version_bump option" where
  "bump_from_str s =
    (if s = ''patch'' then Some Patch else if s = ''minor'' then Some Minor
     else if s = ''major'' then Some Major else None)"

definition show_bump :: "version_bump \<Rightarrow> string" where
  "show_bump b = (case b of Patch \<Rightarrow> ''patch'' | Minor \<Rightarrow> ''minor'' | Major \<Rightarrow> ''major'')"

lemma bump_text_roundtrip [simp]: "bump_from_str (show_bump b) = Some b"
  by (cases b) (simp_all add: bump_from_str_def show_bump_def)

definition increment_version :: "'i version \<Rightarrow> version_bump \<Rightarrow> 'i release_error + 'i version" where
  "increment_version v b = (case b of
      Major \<Rightarrow> and_then (ok_or (VersionOverflow v) (checked_add (v_major v) 1)) (\<lambda>n. Inr (version_new n 0 0))
    | Minor \<Rightarrow> and_then (ok_or (VersionOverflow v) (checked_add (v_minor v) 1))
        (\<lambda>n. Inr (version_new (v_major v) n 0))
    | Patch \<Rightarrow> and_then (ok_or (VersionOverflow v) (checked_add (v_patch v) 1))
        (\<lambda>n. Inr (version_new (v_major v) (v_minor v) n)))"

definition bumped :: "'i version \<Rightarrow> version_bump \<Rightarrow> 'i version" where
  "bumped v b = (case b of
      Major \<Rightarrow> version_new (v_major v + 1) 0 0
    | Minor \<Rightarrow> version_new (v_major v) (v_minor v + 1) 0
    | Patch \<Rightarrow> version_new (v_major v) (v_minor v) (v_patch v + 1))"

lemma increment_version_Inr: "increment_version v b = Inr w \<Longrightarrow> w = bumped v b"
  by (cases b) (auto simp: increment_version_def bumped_def and_then_Inr_iff ok_or_iff checked_add_def split: if_splits)

lemma increment_version_no_panic: "increment_version v b \<noteq> Inl Panics"
  by (cases b) (auto simp: increment_version_def and_then_Inl_iff ok_or_Inl_iff)

lemma bumped_plain [simp]: "plain_version (bumped v b)"
  by (cases b) (simp_all add: bumped_def plain_version_def version_new_def)

lemma bumped_greater: "v < bumped v b"
  by (cases b) (simp_all add: bumped_def less_version_def version_rank_def version_new_def)

lemma bumped_mono:
  assumes "b \<le> c" shows "bumped v b \<le> bumped v c"
  using assms
  by (cases b; cases c)
    (simp_all add: bumped_def less_eq_version_def version_rank_def version_new_def less_eq_version_bump_def bump_rank_def)

section \<open>Compatibility\<close>

text \<open>The components that must agree for two versions to be compatible.\<close>

definition compatibility_key :: "'i version \<Rightarrow> nat \<times> nat \<times> nat" where
  "compatibility_key v =
    (if 0 < v_major v then (v_major v, 0, 0)
     else if 0 < v_minor v then (0, v_minor v, 0)
     else (0, 0, v_patch v))"

datatype semantic_impact = Breaking | Nonbreaking | Patch_impact

definition impact_bump :: "semantic_impact \<Rightarrow> 'i version \<Rightarrow> version_bump" where
  "impact_bump i anchor =
    (if i = Breaking \<and> 0 < v_major anchor then Major
     else if i = Breaking \<and> 0 < v_minor anchor then Minor
     else if i = Nonbreaking \<and> 0 < v_major anchor then Minor
     else Patch)"

definition impact_minimum :: "semantic_impact \<Rightarrow> 'i version \<Rightarrow> 'i release_error + 'i version" where
  "impact_minimum i anchor = increment_version anchor (impact_bump i anchor)"

text \<open>A breaking decision asks for an incompatible version.\<close>

lemma breaking_is_incompatible:
  "impact_minimum Breaking anchor = Inr v \<Longrightarrow> precedence v \<le> precedence w \<Longrightarrow>
   compatibility_key w \<noteq> compatibility_key anchor"
  by (auto simp: impact_minimum_def impact_bump_def bumped_def version_new_def compatibility_key_def precedence_def
      dest!: increment_version_Inr split: if_splits)

text \<open>Every other decision keeps the version compatible, unless the anchor is \<open>0.0.z\<close>.\<close>

lemma others_stay_compatible:
  "impact_minimum i anchor = Inr v \<Longrightarrow> i \<noteq> Breaking \<Longrightarrow> 0 < v_major anchor \<or> 0 < v_minor anchor \<Longrightarrow>
   compatibility_key v = compatibility_key anchor"
  by (auto simp: impact_minimum_def impact_bump_def bumped_def version_new_def compatibility_key_def
      dest!: increment_version_Inr split: if_splits)

end
