(* ===== verification/ReleaseGroups.thy ===== *)
theory ReleaseGroups
  imports ReleaseVersions
begin

text \<open>
  \<open>crp_versioning/src/groups.rs\<close>: version groups are the connected components of the exact dependencies between
  tracked packages, with at least two members, keyed by their smallest member.
\<close>

section \<open>Model\<close>

record groups =
  by_name :: "(pkg_name, pkg_name list) btree"
  by_package :: "(pkg_name, pkg_name) btree"

type_synonym adjacency = "(pkg_name, pkg_name list) btree"

definition link_edge :: "pkg_name \<times> pkg_name \<Rightarrow> adjacency \<Rightarrow> adjacency" where
  "link_edge e adj = (case e of (l, r) \<Rightarrow>
     if l = r then adj
     else case (map_of adj l, map_of adj r) of
       (Some ls, Some rs) \<Rightarrow> btree_insert r (bset (l # rs)) (btree_insert l (bset (r # ls)) adj)
     | _ \<Rightarrow> adj)"

fun push_neighbors :: "pkg_name list \<Rightarrow> pkg_name list \<Rightarrow> pkg_name list \<Rightarrow> pkg_name list \<times> pkg_name list" where
  "push_neighbors [] un ps = (un, ps)"
| "push_neighbors (n # ns) un ps =
    (if n \<in> set un then push_neighbors ns (remove1 n un) (n # ps) else push_neighbors ns un ps)"

lemma push_neighbors_length:
  "push_neighbors ns un ps = (un', ps') \<Longrightarrow> length un' + length ps' = length un + length ps \<and> length un' \<le> length un"
proof (induction ns arbitrary: un ps)
  case (Cons n ns)
  show ?case
  proof (cases "n \<in> set un")
    case True
    then have "0 < length un" by (rule length_pos_if_in_set)
    moreover have "push_neighbors ns (remove1 n un) (n # ps) = (un', ps')" using Cons.prems True by simp
    from Cons.IH[OF this] True have "length un' + length ps' = length un - 1 + Suc (length ps) \<and> length un' \<le> length un - 1"
      by (simp add: length_remove1)
    ultimately show ?thesis by linarith
  next
    case False
    with Cons show ?thesis by simp
  qed
qed simp

function (sequential) grow ::
    "adjacency \<Rightarrow> pkg_name list \<Rightarrow> pkg_name list \<Rightarrow> pkg_name list \<Rightarrow> (pkg_name list \<times> pkg_name list) option" where
  "grow adj [] ms un = Some (ms, un)"
| "grow adj (m # ps) ms un = (case map_of adj m of
      None \<Rightarrow> None
    | Some ns \<Rightarrow> (case push_neighbors ns un ps of (un', ps') \<Rightarrow> grow adj ps' (bset (m # ms)) un'))"
  by pat_completeness auto
termination
  by (relation "measure (\<lambda>(adj, ps, ms, un). 2 * length un + length ps)")
    (auto dest!: push_neighbors_length[OF sym])

lemma grow_shrinks: "grow adj ps ms un = Some (ms', un') \<Longrightarrow> length un' \<le> length un"
proof (induction adj ps ms un rule: grow.induct)
  case (2 adj m ps ms un)
  obtain ns where ns: "map_of adj m = Some ns" using 2(2) by (auto split: option.splits)
  obtain un1 ps1 where p: "push_neighbors ns un ps = (un1, ps1)" by (cases "push_neighbors ns un ps")
  with ns 2(2) have "grow adj ps1 (bset (m # ms)) un1 = Some (ms', un')" by simp
  from 2(1)[OF ns p[symmetric] this] push_neighbors_length[OF p] show ?case by simp
qed simp

function (sequential) form_components ::
    "adjacency \<Rightarrow> pkg_name list \<Rightarrow> groups \<Rightarrow> groups option" where
  "form_components adj [] g = Some g"
| "form_components adj (first # un) g = (case grow adj [first] [] un of
      None \<Rightarrow> None
    | Some (ms, un') \<Rightarrow>
        if length ms < 2 then form_components adj un' g
        else form_components adj un'
          \<lparr>by_name = btree_insert (hd ms) ms (by_name g),
           by_package = btree_extend (map (\<lambda>m. (m, hd ms)) ms) (by_package g)\<rparr>)"
  by pat_completeness auto
termination
  by (relation "measure (\<lambda>(adj, un, g). length un)") (auto dest!: grow_shrinks simp del: grow.simps)

definition from_edges :: "pkg_name list \<Rightarrow> (pkg_name \<times> pkg_name) list \<Rightarrow> groups option" where
  "from_edges targets edges =
    (let adj = fold link_edge edges (btree_collect (map (\<lambda>t. (t, [])) targets)) in
     form_components adj (map fst adj) \<lparr>by_name = [], by_package = []\<rparr>)"

definition group_of :: "groups \<Rightarrow> pkg_name \<Rightarrow> pkg_name option" where
  "group_of g p = map_of (by_package g) p"

definition group_members :: "groups \<Rightarrow> pkg_name \<Rightarrow> pkg_name list" where
  "group_members g k = (case map_of (by_name g) k of None \<Rightarrow> [] | Some ms \<Rightarrow> ms)"

definition group_closure :: "groups \<Rightarrow> pkg_name \<Rightarrow> pkg_name list" where
  "group_closure g p = (case group_of g p of Some k \<Rightarrow> group_members g k | None \<Rightarrow> [p])"

text \<open>\<open>GroupVerdict::new\<close>: the highest declared version, and whether the members that are not exempt agree.\<close>

datatype 'i group_state = Consistent "'i version" | Inconsistent "'i version"

definition group_verdict ::
    "pkg_name list \<Rightarrow> (pkg_name, 'i::linorder version) btree \<Rightarrow> pkg_name set \<Rightarrow> 'i group_state option" where
  "group_verdict ms versions exempt =
    (if \<forall>m \<in> set ms. map_of versions m \<noteq> None then
       (if ms = [] then None
        else let compared = bset (map (\<lambda>m. the (map_of versions m)) (filter (\<lambda>m. m \<notin> exempt) ms));
                 highest = Max (set (map (\<lambda>m. the (map_of versions m)) ms)) in
          Some (if length compared \<le> 1 then Consistent highest else Inconsistent highest))
     else None)"

section \<open>Connected components\<close>

definition links :: "pkg_name list \<Rightarrow> (pkg_name \<times> pkg_name) list \<Rightarrow> (pkg_name \<times> pkg_name) set" where
  "links targets edges = {(l, r). ((l, r) \<in> set edges \<or> (r, l) \<in> set edges) \<and> l \<noteq> r \<and> l \<in> set targets \<and> r \<in> set targets}"

definition mates :: "pkg_name list \<Rightarrow> (pkg_name \<times> pkg_name) list \<Rightarrow> pkg_name \<Rightarrow> pkg_name set" where
  "mates targets edges p = {q. (p, q) \<in> (links targets edges)\<^sup>*}"

lemma mates_refl [simp]: "p \<in> mates targets edges p"
  by (simp add: mates_def)

lemma links_sym: "sym (links targets edges)"
  by (auto simp: links_def sym_def)

lemma mates_sym: "q \<in> mates targets edges p \<Longrightarrow> p \<in> mates targets edges q"
  unfolding mates_def using sym_rtrancl[OF links_sym] by (auto dest: symD)

lemma mates_trans: "q \<in> mates targets edges p \<Longrightarrow> r \<in> mates targets edges q \<Longrightarrow> r \<in> mates targets edges p"
  by (auto simp: mates_def intro: rtrancl_trans)

lemma mates_eq: "q \<in> mates targets edges p \<Longrightarrow> mates targets edges q = mates targets edges p"
  using mates_sym mates_trans by blast

lemma mates_targets:
  assumes "q \<in> mates targets edges p" "p \<in> set targets" shows "q \<in> set targets"
  using assms(1) unfolding mates_def mem_Collect_eq
  by (induction rule: rtrancl_induct) (use assms(2) in \<open>auto simp: links_def\<close>)

lemma mates_outside:
  assumes "p \<notin> set targets" shows "mates targets edges p = {p}"
proof -
  have "q = p" if "q \<in> mates targets edges p" for q
    using that unfolding mates_def mem_Collect_eq by (induction rule: rtrancl_induct) (use assms in \<open>auto simp: links_def\<close>)
  then show ?thesis by auto
qed

lemma finite_mates [simp]: "finite (mates targets edges p)"
proof (cases "p \<in> set targets")
  case True
  then have "mates targets edges p \<subseteq> set targets" using mates_targets by blast
  then show ?thesis by (rule finite_subset) simp
qed (simp add: mates_outside)

subsection \<open>The adjacency map\<close>

definition adjacency_ok :: "pkg_name list \<Rightarrow> (pkg_name \<times> pkg_name) list \<Rightarrow> adjacency \<Rightarrow> bool" where
  "adjacency_ok targets edges adj =
    (btree_ok adj \<and> (\<forall>p. map_of adj p \<noteq> None \<longleftrightarrow> p \<in> set targets) \<and>
     (\<forall>p ns. map_of adj p = Some ns \<longrightarrow> set ns = {q. (p, q) \<in> links targets edges}))"

lemma adjacency_start: "adjacency_ok targets [] (btree_collect (map (\<lambda>t. (t, [])) targets))"
  by (auto simp: adjacency_ok_def btree_collect_lookup rev_map map_of_map_restrict links_def restrict_map_def
      simp flip: map_map split: if_splits)

lemma adjacency_link:
  assumes "adjacency_ok targets edges adj"
  shows "adjacency_ok targets (edges @ [(l, r)]) (link_edge (l, r) adj)"
proof (cases "l \<noteq> r \<and> l \<in> set targets \<and> r \<in> set targets")
  case True
  then obtain ls rs where lr: "map_of adj l = Some ls" "map_of adj r = Some rs"
    using assms unfolding adjacency_ok_def by (metis not_Some_eq)
  have "set ls = {q. (l, q) \<in> links targets edges}" "set rs = {q. (r, q) \<in> links targets edges}"
    using assms lr unfolding adjacency_ok_def by blast+
  with True lr assms show ?thesis
    by (auto simp: adjacency_ok_def link_edge_def links_def split: if_splits)
next
  case False
  then have "link_edge (l, r) adj = adj"
    using assms by (auto simp: link_edge_def adjacency_ok_def split: option.split)
  moreover have "links targets (edges @ [(l, r)]) = links targets edges" using False by (auto simp: links_def)
  ultimately show ?thesis using assms by (simp add: adjacency_ok_def)
qed

lemma adjacency_keys: "adjacency_ok targets edges adj \<Longrightarrow> set (map fst adj) = set targets"
  unfolding adjacency_ok_def set_eq_iff set_map btree_keys_lookup by blast

lemma adjacency_edges:
  "adjacency_ok targets edges (fold link_edge edges (btree_collect (map (\<lambda>t. (t, [])) targets)))"
proof (induction edges rule: rev_induct)
  case Nil
  show ?case using adjacency_start by simp
next
  case (snoc e edges)
  with adjacency_link[OF snoc, of "fst e" "snd e"] show ?case by simp
qed

subsection \<open>The search\<close>

lemma push_neighbors_spec:
  "push_neighbors ns un ps = (un', ps') \<Longrightarrow> distinct un \<Longrightarrow>
   set un' = set un - set ns \<and> distinct un' \<and> (sorted un \<longrightarrow> sorted un') \<and> set ps' = set ps \<union> (set ns \<inter> set un)"
proof (induction ns arbitrary: un ps)
  case (Cons n ns)
  show ?case
  proof (cases "n \<in> set un")
    case True
    then have "push_neighbors ns (remove1 n un) (n # ps) = (un', ps')" using Cons.prems(1) by simp
    from Cons.IH[OF this] Cons.prems(2) True show ?thesis by (auto simp: sorted_remove1)
  next
    case False
    with Cons show ?thesis by auto
  qed
qed simp

lemma grow_spec:
  assumes "adjacency_ok targets edges adj" "first \<in> set targets"
    "first \<in> set ps \<union> set ms" "set ps \<union> set ms \<subseteq> mates targets edges first"
    "\<forall>m \<in> set ms. \<forall>q. (m, q) \<in> links targets edges \<longrightarrow> q \<in> set ms \<union> set ps"
    "mates targets edges first \<subseteq> set ps \<union> set ms \<union> set un" "(set ps \<union> set ms) \<inter> set un = {}"
    "distinct un" "sorted un" "sorted_wrt (<) ms"
  shows "\<exists>ms' un'. grow adj ps ms un = Some (ms', un') \<and> set ms' = mates targets edges first \<and> sorted_wrt (<) ms' \<and>
    set un' = set un - mates targets edges first \<and> distinct un' \<and> sorted un'"
  using assms
proof (induction adj ps ms un rule: grow.induct)
  case (1 adj ms un)
  have "q \<in> set ms" if "q \<in> mates targets edges first" for q
    using that unfolding mates_def mem_Collect_eq
  proof (induction rule: rtrancl_induct)
    case base
    show ?case using 1(3) by simp
  next
    case (step y z)
    with 1(5) show ?case by simp
  qed
  with 1(4) have "set ms = mates targets edges first" by auto
  with 1(7-10) show ?case by auto
next
  case (2 adj m ps ms un)
  have m: "m \<in> mates targets edges first" using 2(5) by simp
  then have mt: "m \<in> set targets" using mates_targets 2(3) by blast
  then obtain ns where ns: "map_of adj m = Some ns" "set ns = {q. (m, q) \<in> links targets edges}"
    using 2(2) unfolding adjacency_ok_def by (metis not_Some_eq)
  obtain un1 ps1 where p: "push_neighbors ns un ps = (un1, ps1)" by (cases "push_neighbors ns un ps")
  from push_neighbors_spec[OF p 2(9)] 2(10)
  have un1: "set un1 = set un - set ns" "distinct un1" "sorted un1" and ps1: "set ps1 = set ps \<union> (set ns \<inter> set un)"
    by simp_all
  have near: "set ns \<subseteq> mates targets edges first"
    using m ns(2) by (auto simp: mates_def intro: rtrancl_into_rtrancl)
  have "\<exists>ms' un'. grow adj ps1 (bset (m # ms)) un1 = Some (ms', un') \<and> set ms' = mates targets edges first \<and>
    sorted_wrt (<) ms' \<and> set un' = set un1 - mates targets edges first \<and> distinct un' \<and> sorted un'"
  proof (rule 2(1)[OF ns(1) p[symmetric] 2(2,3)])
    show "first \<in> set ps1 \<union> set (bset (m # ms))" using 2(4) ps1 by auto
    show "set ps1 \<union> set (bset (m # ms)) \<subseteq> mates targets edges first" using 2(5) ps1 near by auto
    show "\<forall>k \<in> set (bset (m # ms)). \<forall>q. (k, q) \<in> links targets edges \<longrightarrow> q \<in> set (bset (m # ms)) \<union> set ps1"
      using 2(6,7) ns(2) near ps1 by (auto 4 3)
    show "mates targets edges first \<subseteq> set ps1 \<union> set (bset (m # ms)) \<union> set un1" using 2(7) ps1 un1(1) by auto
    show "(set ps1 \<union> set (bset (m # ms))) \<inter> set un1 = {}" using 2(8) ps1 un1(1) by auto
  qed (use un1(2,3) bset_strict in auto)
  moreover have "set un1 - mates targets edges first = set un - mates targets edges first" using un1(1) near by auto
  ultimately show ?case using ns(1) p by simp
qed

definition big :: "pkg_name list \<Rightarrow> (pkg_name \<times> pkg_name) list \<Rightarrow> pkg_name \<Rightarrow> bool" where
  "big targets edges p = (\<exists>q \<in> mates targets edges p. q \<noteq> p)"

text \<open>The groups of the packages in \<open>done\<close>.\<close>

definition groups_of :: "pkg_name list \<Rightarrow> (pkg_name \<times> pkg_name) list \<Rightarrow> pkg_name set \<Rightarrow> groups \<Rightarrow> bool" where
  "groups_of targets edges D g =
    (btree_ok (by_name g) \<and> btree_ok (by_package g) \<and>
     (\<forall>p. map_of (by_package g) p =
        (if p \<in> D \<and> big targets edges p then Some (Min (mates targets edges p)) else None)) \<and>
     (\<forall>k. map_of (by_name g) k =
        (if k \<in> D \<and> big targets edges k \<and> k = Min (mates targets edges k)
         then Some (sorted_list_of_set (mates targets edges k)) else None)))"

lemma strict_sorted_set: "sorted_wrt (<) (xs :: 'a::linorder list) \<Longrightarrow> xs = sorted_list_of_set (set xs)"
  by (metis sorted_list_of_set.idem_if_sorted_distinct strict_sorted_iff)

lemma strict_sorted_Min: "ms \<noteq> [] \<Longrightarrow> sorted_wrt (<) (ms :: 'a::linorder list) \<Longrightarrow> hd ms = Min (set ms)"
  by (cases ms) (auto intro!: Min_eqI[symmetric])

lemma big_length:
  assumes "set ms = mates targets edges p" "sorted_wrt (<) ms"
  shows "(length ms < 2) = (\<not> big targets edges p)"
proof -
  have d: "distinct ms" using assms(2) by (simp add: strict_sorted_iff)
  have p: "p \<in> set ms" using assms(1) by simp
  show ?thesis
  proof
    assume "length ms < 2"
    with p have "ms = [p]" by (cases ms; cases "tl ms") auto
    with assms(1) show "\<not> big targets edges p" by (auto simp: big_def)
  next
    assume "\<not> big targets edges p"
    then have "set ms \<subseteq> {p}" using assms(1) by (auto simp: big_def)
    then have "card (set ms) \<le> 1" using card_mono[of "{p}" "set ms"] by simp
    with d show "length ms < 2" by (simp add: distinct_card)
  qed
qed

lemma big_mate: "q \<in> mates targets edges p \<Longrightarrow> big targets edges q = big targets edges p"
  unfolding big_def by (metis mates_eq mates_refl)

lemma form_components_spec:
  assumes "adjacency_ok targets edges adj" "set un \<subseteq> set targets" "distinct un" "sorted un"
    "\<forall>p \<in> set un. mates targets edges p \<subseteq> set un" "groups_of targets edges (set targets - set un) g"
  shows "\<exists>g'. form_components adj un g = Some g' \<and> groups_of targets edges (set targets) g'"
  using assms
proof (induction adj un g rule: form_components.induct)
  case (1 adj g)
  then show ?case by simp
next
  case (2 adj first un g)
  have ft: "first \<in> set targets" using 2(4) by simp
  have closed: "mates targets edges first \<subseteq> insert first (set un)" using 2(7) by simp
  have "\<exists>ms un'. grow adj [first] [] un = Some (ms, un') \<and> set ms = mates targets edges first \<and> sorted_wrt (<) ms \<and>
    set un' = set un - mates targets edges first \<and> distinct un' \<and> sorted un'"
    using 2(5,6) closed by (intro grow_spec[OF 2(3) ft]) auto
  then obtain ms un' where g: "grow adj [first] [] un = Some (ms, un')" "set ms = mates targets edges first"
    "sorted_wrt (<) ms" "set un' = set un - mates targets edges first" "distinct un'" "sorted un'" by blast
  have ms: "ms = sorted_list_of_set (mates targets edges first)" using strict_sorted_set[OF g(3)] g(2) by simp
  have ne: "ms \<noteq> []" using g(2) mates_refl[of first targets edges] by (metis empty_iff list.set(1))
  have key: "hd ms = Min (mates targets edges first)"
    using strict_sorted_Min[OF ne g(3)] g(2) by simp
  have closed': "\<forall>p \<in> set un'. mates targets edges p \<subseteq> set un'"
  proof
    fix p assume p: "p \<in> set un'"
    then have "p \<in> set un" "p \<notin> mates targets edges first" using g(4) by auto
    moreover have "q \<notin> mates targets edges first" if "q \<in> mates targets edges p" for q
      using that \<open>p \<notin> mates targets edges first\<close> mates_sym mates_trans by blast
    ultimately show "mates targets edges p \<subseteq> set un'"
      using 2(7) g(4) mates_refl[of first targets edges] by (force dest: bspec)
  qed
  have D: "set targets - set un' = (set targets - set (first # un)) \<union> mates targets edges first"
    using g(4) ft mates_targets[of _ targets edges first] 2(4) by auto
  have disj: "p \<notin> set targets - set (first # un)" if "p \<in> mates targets edges first" for p
    using that closed by auto
  have sub: "set un' \<subseteq> set targets" using 2(4) g(4) by auto
  show ?case
  proof (cases "length ms < 2")
    case True
    then have small: "\<not> big targets edges first" using big_length[OF g(2,3)] by simp
    have "groups_of targets edges (set targets - set un') g"
      using 2(8) big_mate[of _ targets edges first] small disj unfolding groups_of_def D by auto
    with 2(1)[OF g(1) refl True 2(3) sub g(5,6) closed'] g(1) True show ?thesis
      by (simp del: grow.simps)
  next
    case False
    then have large: "big targets edges first" using big_length[OF g(2,3)] by simp
    let ?g = "\<lparr>by_name = btree_insert (hd ms) ms (by_name g),
           by_package = btree_extend (map (\<lambda>m. (m, hd ms)) ms) (by_package g)\<rparr>"
    have same: "p \<in> mates targets edges first \<Longrightarrow> mates targets edges p = mates targets edges first" for p
      by (rule mates_eq)
    have bigs: "p \<in> mates targets edges first \<Longrightarrow> big targets edges p" for p
      using big_mate large by blast
    have lookup: "map_of (btree_extend (map (\<lambda>m. (m, hd ms)) ms) (by_package g)) p =
        (if p \<in> mates targets edges first then Some (hd ms) else map_of (by_package g) p)" for p
    proof -
      have "map_of (rev (map (\<lambda>m. (m, hd ms)) ms)) p = (if p \<in> set ms then Some (hd ms) else None)"
        by (simp add: rev_map map_of_map_restrict restrict_map_def flip: map_map)
      then show ?thesis using g(2) by (simp add: btree_extend_lookup map_add_def)
    qed
    have kin: "hd ms \<in> mates targets edges first" using ne g(2) by (metis hd_in_set)
    have "groups_of targets edges (set targets - set un') ?g"
      unfolding groups_of_def D
    proof (intro conjI allI)
      fix p
      show "map_of (by_package ?g) p =
        (if p \<in> set targets - set (first # un) \<union> mates targets edges first \<and> big targets edges p
         then Some (Min (mates targets edges p)) else None)"
        using 2(8) same[of p] bigs[of p] key disj[of p] unfolding groups_of_def by (simp add: lookup[unfolded key])
    next
      fix k
      show "map_of (by_name ?g) k =
        (if k \<in> set targets - set (first # un) \<union> mates targets edges first \<and> big targets edges k \<and>
            k = Min (mates targets edges k)
         then Some (sorted_list_of_set (mates targets edges k)) else None)"
      proof (cases "k \<in> mates targets edges first")
        case True
        with same[OF True] bigs[OF True] key ms disj[OF True] 2(8) show ?thesis unfolding groups_of_def by auto
      next
        case False
        with kin have "k \<noteq> hd ms" by auto
        with False 2(8) show ?thesis unfolding groups_of_def by simp
      qed
    qed (use 2(8) in \<open>auto simp: groups_of_def\<close>)
    with 2(2)[OF g(1) refl False 2(3) sub g(5,6) closed'] g(1) False show ?thesis
      by (simp del: grow.simps)
  qed
qed

theorem from_edges_components:
  "\<exists>g. from_edges targets edges = Some g \<and> groups_of targets edges (set targets) g"
proof -
  let ?adj = "fold link_edge edges (btree_collect (map (\<lambda>t. (t, [])) targets))"
  have adj: "adjacency_ok targets edges ?adj" by (rule adjacency_edges)
  then have keys: "set (map fst ?adj) = set targets" by (rule adjacency_keys)
  have sd: "distinct (map fst ?adj)" "sorted (map fst ?adj)"
    using adj by (simp_all add: adjacency_ok_def btree_ok_def strict_sorted_iff)
  have "groups_of targets edges (set targets - set (map fst ?adj)) \<lparr>by_name = [], by_package = []\<rparr>"
    unfolding keys by (simp add: groups_of_def)
  moreover have "\<forall>p \<in> set (map fst ?adj). mates targets edges p \<subseteq> set (map fst ?adj)"
    unfolding keys using mates_targets by blast
  ultimately show ?thesis
    using form_components_spec[OF adj _ sd] keys unfolding from_edges_def Let_def by simp
qed

end
