(* ===== verification/ReleasePlan.thy ===== *)
theory ReleasePlan
  imports ReleaseGroups
begin

text \<open>
  \<open>crp_versioning/src/plan.rs\<close>: an increment plan names packages or version groups with a bump or an exact version;
  \<open>resolve_plan\<close> expands it to the version every package it reaches will carry. \<open>explicit_plan\<close> of \<open>preview.rs\<close>
  writes the expansion down as a plan. The captured state that a plan carries for application is left out; parsing
  and printing of versions are a parameter.
\<close>

section \<open>Model\<close>

definition SCHEMA_VERSION :: nat where
  "SCHEMA_VERSION = 8"

record plan_increment =
  inc_name :: pkg_name
  inc_bump :: "string option"
  inc_version :: "string option"

datatype plan_stage = Proposed | Expanded

record plan_file =
  plan_schema :: nat
  release_history :: "string option"
  merge_target :: "string option"
  expanded :: bool
  increments :: "plan_increment list"

definition plan_new :: "plan_stage \<Rightarrow> plan_increment list \<Rightarrow> plan_file" where
  "plan_new stage incs = \<lparr>plan_schema = SCHEMA_VERSION, release_history = None, merge_target = None,
     expanded = (stage = Expanded), increments = incs\<rparr>"

definition plan_stage_of :: "plan_file \<Rightarrow> plan_stage" where
  "plan_stage_of plan = (if expanded plan then Expanded else Proposed)"

definition validate_schema :: "plan_file \<Rightarrow> 'i release_error + unit" where
  "validate_schema plan =
    (if plan_schema plan \<noteq> SCHEMA_VERSION then Inl (UnsupportedPlanSchema (plan_schema plan))
     else if merge_target plan \<noteq> None \<and> release_history plan = None then Inl UnboundMergeTarget
     else Inr ())"

datatype 'i increment_spec = Bump version_bump | Exact "'i version"

definition parse_spec :: "'i version_text \<Rightarrow> plan_increment \<Rightarrow> 'i release_error + 'i increment_spec" where
  "parse_spec vt inc = (case (inc_bump inc, inc_version inc) of
      (Some b, None) \<Rightarrow>
        and_then (ok_or (UnknownVersionBump (inc_name inc) b) (bump_from_str b)) (\<lambda>b. Inr (Bump b))
    | (None, Some t) \<Rightarrow>
        and_then (ok_or (InvalidVersion (inc_name inc) t) (parse_version vt t)) (\<lambda>v. Inr (Exact v))
    | _ \<Rightarrow> Inl (PlanIncrementSpec (inc_name inc)))"

definition merge_spec :: "'i increment_spec \<Rightarrow> 'i increment_spec \<Rightarrow> pkg_name \<Rightarrow> 'i release_error + 'i increment_spec" where
  "merge_spec existing added key = (case (existing, added) of
      (Bump b, Bump c) \<Rightarrow> Inr (Bump (max b c))
    | (Exact v, Exact w) \<Rightarrow> if v = w then Inr (Exact v) else Inl (ConflictingPlanVersion key)
    | _ \<Rightarrow> Inl (ConflictingPlanIncrementKind key))"

definition resolve_targets ::
    "pkg_name \<Rightarrow> groups \<Rightarrow> (pkg_name, 'i version) btree \<Rightarrow> 'i release_error + pkg_name list" where
  "resolve_targets name g tv =
    (if map_of tv name \<noteq> None then Inr (group_closure g name) else Inl (UnknownPlanTarget name))"

definition decision_key :: "groups \<Rightarrow> pkg_name \<Rightarrow> pkg_name" where
  "decision_key g p = (case group_of g p of Some k \<Rightarrow> k | None \<Rightarrow> p)"

definition decision_keys :: "pkg_name list \<Rightarrow> groups \<Rightarrow> pkg_name list" where
  "decision_keys targets g = bset (map (decision_key g) targets)"

definition members_for_key :: "pkg_name \<Rightarrow> groups \<Rightarrow> (pkg_name, 'i version) btree \<Rightarrow> pkg_name list" where
  "members_for_key key g tv =
    (if group_members g key = [] then (if map_of tv key \<noteq> None then [key] else [])
     else group_members g key)"

definition fold_decision ::
    "'i increment_spec \<Rightarrow> pkg_name \<Rightarrow> (pkg_name, 'i increment_spec) btree
     \<Rightarrow> 'i release_error + (pkg_name, 'i increment_spec) btree" where
  "fold_decision spec key ds = (case map_of ds key of
      Some existing \<Rightarrow> and_then (merge_spec existing spec key) (\<lambda>m. Inr (btree_insert key m ds))
    | None \<Rightarrow> Inr (btree_insert key spec ds))"

definition take_increment ::
    "'i version_text \<Rightarrow> groups \<Rightarrow> (pkg_name, 'i version) btree \<Rightarrow> plan_increment
     \<Rightarrow> (pkg_name, 'i increment_spec) btree \<Rightarrow> 'i release_error + (pkg_name, 'i increment_spec) btree" where
  "take_increment vt g tv inc ds =
    and_then (resolve_targets (inc_name inc) g tv) (\<lambda>targets.
    and_then (parse_spec vt inc) (\<lambda>spec.
    try_fold (fold_decision spec) (decision_keys targets g) ds))"

definition decided_version ::
    "groups \<Rightarrow> pkg_name \<Rightarrow> 'i::linorder version \<Rightarrow> 'i increment_spec \<Rightarrow> 'i release_error + 'i version" where
  "decided_version g key highest spec = (case spec of
      Exact v \<Rightarrow>
        if v < highest then Inl (PlanVersionRegression key v highest)
        else if group_members g key \<noteq> [] \<and> \<not> plain_version v then Inl (NonPlainGroupVersion key v)
        else Inr v
    | Bump b \<Rightarrow> increment_version highest b)"

definition settle_decision ::
    "groups \<Rightarrow> (pkg_name, 'i::linorder version) btree \<Rightarrow> pkg_name \<times> 'i increment_spec
     \<Rightarrow> (pkg_name, 'i version) btree \<Rightarrow> 'i release_error + (pkg_name, 'i version) btree" where
  "settle_decision g tv kd packages = (case kd of (key, decision) \<Rightarrow>
     let members = members_for_key key g tv; versions = List.map_filter (map_of tv) members in
     and_then (expect (if versions = [] then None else Some (Max (set versions)))) (\<lambda>highest.
     and_then (decided_version g key highest decision) (\<lambda>v.
     Inr (btree_extend (map (\<lambda>m. (m, v)) members) packages))))"

definition resolve_plan ::
    "'i version_text \<Rightarrow> plan_file \<Rightarrow> groups \<Rightarrow> (pkg_name, 'i::linorder version) btree
     \<Rightarrow> 'i release_error + (pkg_name, 'i version) btree" where
  "resolve_plan vt plan g tv =
    and_then (validate_schema plan) (\<lambda>u.
    let unresolved = map inc_name (filter (\<lambda>i. inc_version i = None) (increments plan)) in
    if plan_stage_of plan = Expanded \<and> unresolved \<noteq> [] then Inl (UnresolvedExpandedPlan unresolved)
    else
      and_then (try_fold (take_increment vt g tv) (increments plan) []) (\<lambda>decisions.
      and_then (try_fold (settle_decision g tv) decisions []) (\<lambda>packages.
      let unnamed = filter (\<lambda>p. p \<notin> inc_name ` set (increments plan)) (map fst packages) in
      if plan_stage_of plan = Expanded \<and> unnamed \<noteq> [] then Inl (ExpandedPlanDrift unnamed)
      else Inr packages)))"

definition explicit_plan :: "'i version_text \<Rightarrow> (pkg_name, 'i version) btree \<Rightarrow> plan_file" where
  "explicit_plan vt resolved = plan_new Expanded
     (map (\<lambda>(p, v). \<lparr>inc_name = p, inc_bump = None, inc_version = Some (show_version vt v)\<rparr>) resolved)"

section \<open>Groups over the targets of a plan\<close>

text \<open>The groups are those of the tracked packages, whatever exact dependencies they came from.\<close>

definition tracked_groups :: "groups \<Rightarrow> (pkg_name, 'i version) btree \<Rightarrow> bool" where
  "tracked_groups g tv = (\<exists>edges. groups_of (map fst tv) edges (set (map fst tv)) g)"

text \<open>The packages that move together with \<open>p\<close>.\<close>

definition group_mates :: "groups \<Rightarrow> pkg_name \<Rightarrow> pkg_name set" where
  "group_mates g p = set (group_closure g p)"

lemma groups_of_lookups:
  assumes "groups_of targets edges (set targets) g"
  shows "group_of g p = (if p \<in> set targets \<and> big targets edges p then Some (Min (mates targets edges p)) else None)"
    "group_members g k = (if k \<in> set targets \<and> big targets edges k \<and> k = Min (mates targets edges k)
       then sorted_list_of_set (mates targets edges k) else [])"
  using assms unfolding groups_of_def group_of_def group_members_def by auto

lemma Min_mates_mem: "Min (mates targets edges p) \<in> mates targets edges p"
  using Min_in[OF finite_mates, of targets edges p] mates_refl[of p targets edges] by blast

lemma key_facts:
  assumes "groups_of targets edges (set targets) g" "p \<in> set targets" "big targets edges p"
  shows "group_of g p = Some (Min (mates targets edges p))"
    "group_members g (Min (mates targets edges p)) = sorted_list_of_set (mates targets edges p)"
proof -
  let ?k = "Min (mates targets edges p)"
  have k: "?k \<in> mates targets edges p" by (rule Min_mates_mem)
  have m: "mates targets edges ?k = mates targets edges p" by (rule mates_eq[OF k])
  have "?k \<in> set targets" using mates_targets[OF k assms(2)] .
  moreover have "big targets edges ?k" using big_mate[OF k] assms(3) by simp
  ultimately show "group_members g ?k = sorted_list_of_set (mates targets edges p)"
    using groups_of_lookups(2)[OF assms(1), of ?k] m by simp
  show "group_of g p = Some ?k" using groups_of_lookups(1)[OF assms(1), of p] assms(2,3) by simp
qed

lemma closure_mates:
  assumes "groups_of targets edges (set targets) g"
  shows "group_closure g p = sorted_list_of_set (mates targets edges p)"
proof (cases "p \<in> set targets \<and> big targets edges p")
  case True
  with key_facts[OF assms] show ?thesis by (simp add: group_closure_def)
next
  case False
  then have "mates targets edges p = {p}" using mates_outside[of p targets edges] by (auto simp: big_def)
  with False groups_of_lookups(1)[OF assms, of p] show ?thesis by (auto simp: group_closure_def)
qed

text \<open>What plan resolution uses of the groups.\<close>

lemma tracked_facts:
  assumes "tracked_groups g tv"
  shows mates_self: "p \<in> group_mates g p"
    and mates_same: "q \<in> group_mates g p \<Longrightarrow> group_mates g q = group_mates g p"
    and mates_tracked: "q \<in> group_mates g p \<Longrightarrow> map_of tv p \<noteq> None \<Longrightarrow> map_of tv q \<noteq> None"
    and mates_key: "q \<in> group_mates g p \<Longrightarrow> decision_key g q = decision_key g p"
    and key_mate: "decision_key g p \<in> group_mates g p"
    and key_members: "map_of tv p \<noteq> None \<Longrightarrow> members_for_key (decision_key g p) g tv = group_closure g p"
    and key_grouped: "map_of tv p \<noteq> None \<Longrightarrow> group_members g (decision_key g p) \<noteq> [] \<longleftrightarrow> group_of g p \<noteq> None"
    and sole_mate: "group_of g p = None \<Longrightarrow> group_mates g p = {p}"
    and key_fixed: "decision_key g (decision_key g p) = decision_key g p"
proof -
  obtain edges where go: "groups_of (map fst tv) edges (set (map fst tv)) g"
    using assms unfolding tracked_groups_def by blast
  let ?M = "mates (map fst tv) edges" and ?B = "big (map fst tv) edges"
  have cl: "group_closure g p = sorted_list_of_set (?M p)" for p by (rule closure_mates[OF go])
  have gm: "group_mates g p = ?M p" for p by (simp add: group_mates_def cl)
  have tr: "(map_of tv p \<noteq> None) = (p \<in> set (map fst tv))" for p by (simp add: map_of_eq_None_iff)
  have key: "decision_key g p = (if p \<in> set (map fst tv) \<and> ?B p then Min (?M p) else p)" for p
    using groups_of_lookups(1)[OF go, of p] by (simp add: decision_key_def)
  show self: "p \<in> group_mates g p" by (simp add: gm)
  show same: "q \<in> group_mates g p \<Longrightarrow> group_mates g q = group_mates g p" for q p by (simp add: gm mates_eq)
  show "q \<in> group_mates g p \<Longrightarrow> map_of tv p \<noteq> None \<Longrightarrow> map_of tv q \<noteq> None"
    unfolding gm tr using mates_targets by blast
  show "q \<in> group_mates g p \<Longrightarrow> decision_key g q = decision_key g p" for q p
  proof -
    assume q: "q \<in> group_mates g p"
    then have m: "?M q = ?M p" "?B q = ?B p" unfolding gm by (simp_all add: mates_eq big_mate)
    show ?thesis
    proof (cases "p \<in> set (map fst tv)")
      case True
      with q have "q \<in> set (map fst tv)" unfolding gm using mates_targets by blast
      moreover have "q = p" if "\<not> ?B p" using q that unfolding gm big_def by blast
      ultimately show ?thesis using True m by (simp add: key)
    next
      case False
      with q have "q = p" unfolding gm by (simp add: mates_outside)
      then show ?thesis by simp
    qed
  qed
  then show "decision_key g (decision_key g p) = decision_key g p" using Min_mates_mem by (metis gm key self)
  show "decision_key g p \<in> group_mates g p" using Min_mates_mem by (simp add: key gm)
  show "members_for_key (decision_key g p) g tv = group_closure g p" if t: "map_of tv p \<noteq> None"
  proof (cases "?B p")
    case True
    with key_facts[OF go, of p] t tr[of p] have
      "group_of g p = Some (Min (?M p))" "group_members g (Min (?M p)) = sorted_list_of_set (?M p)" by simp_all
    moreover have "sorted_list_of_set (?M p) \<noteq> []"
      using mates_refl[of p "map fst tv" edges] finite_mates[of "map fst tv" edges p] by (metis empty_iff set_empty set_sorted_list_of_set)
    ultimately show ?thesis using True t tr[of p] by (simp add: members_for_key_def key cl)
  next
    case False
    then have "?M p = {p}" by (auto simp: big_def)
    moreover have "group_members g p = []" using groups_of_lookups(2)[OF go, of p] False by simp
    ultimately show ?thesis using False t by (simp add: members_for_key_def key cl)
  qed
  show "group_members g (decision_key g p) \<noteq> [] \<longleftrightarrow> group_of g p \<noteq> None" if t: "map_of tv p \<noteq> None"
  proof (cases "?B p")
    case True
    with key_facts[OF go, of p] t tr[of p] have
      "group_of g p = Some (Min (?M p))" "group_members g (Min (?M p)) = sorted_list_of_set (?M p)" by simp_all
    moreover have "sorted_list_of_set (?M p) \<noteq> []"
      using mates_refl[of p "map fst tv" edges] finite_mates[of "map fst tv" edges p] by (metis empty_iff set_empty set_sorted_list_of_set)
    ultimately show ?thesis by (simp add: decision_key_def)
  next
    case False
    then show ?thesis using groups_of_lookups[OF go, of p] by (simp add: decision_key_def)
  qed
  show "group_of g p = None \<Longrightarrow> group_mates g p = {p}" by (simp add: group_mates_def group_closure_def)
qed

lemma mates_iff_key:
  assumes "tracked_groups g tv" "map_of tv p \<noteq> None"
  shows "group_mates g p = {q. map_of tv q \<noteq> None \<and> decision_key g q = decision_key g p}"
proof (rule set_eqI)
  fix q
  show "(q \<in> group_mates g p) = (q \<in> {q. map_of tv q \<noteq> None \<and> decision_key g q = decision_key g p})"
  proof
    assume "q \<in> group_mates g p"
    then show "q \<in> {q. map_of tv q \<noteq> None \<and> decision_key g q = decision_key g p}"
      using mates_tracked[OF assms(1)] mates_key[OF assms(1)] assms(2) by blast
  next
    assume "q \<in> {q. map_of tv q \<noteq> None \<and> decision_key g q = decision_key g p}"
    then have "group_mates g q = group_mates g p"
      using mates_same[OF assms(1) key_mate[OF assms(1), of q]] mates_same[OF assms(1) key_mate[OF assms(1), of p]] by simp
    then show "q \<in> group_mates g p" using mates_self[OF assms(1), of q] by simp
  qed
qed

lemma decision_keys_closure:
  assumes "tracked_groups g tv"
  shows "decision_keys (group_closure g p) g = [decision_key g p]"
proof -
  have "decision_key g ` set (group_closure g p) = {decision_key g p}"
  proof (rule set_eqI)
    fix k show "(k \<in> decision_key g ` set (group_closure g p)) = (k \<in> {decision_key g p})"
      using mates_key[OF assms, of _ p] mates_self[OF assms, of p] unfolding group_mates_def by blast
  qed
  then have "bset (map (decision_key g) (group_closure g p)) = bset [decision_key g p]"
    by (simp add: bset_eq_iff)
  then show ?thesis by (simp add: decision_keys_def bset_def)
qed

section \<open>Decisions\<close>

text \<open>A decision covers an entry: the same exact version, or a bump at least as high.\<close>

definition covers :: "'i increment_spec \<Rightarrow> 'i increment_spec \<Rightarrow> bool" where
  "covers d spec = (case (d, spec) of
      (Bump c, Bump b) \<Rightarrow> b \<le> c
    | (Exact v, Exact w) \<Rightarrow> v = w
    | _ \<Rightarrow> False)"

lemma covers_refl [simp]: "covers d d"
  by (cases d) (simp_all add: covers_def)

lemma covers_trans: "covers d e \<Longrightarrow> covers e f \<Longrightarrow> covers d f"
  by (auto simp: covers_def split: increment_spec.splits)

lemma merge_covers: "merge_spec d e k = Inr m \<Longrightarrow> covers m d \<and> covers m e"
  by (auto simp: merge_spec_def covers_def split: increment_spec.splits if_splits)

lemma merge_no_panic: "merge_spec d e k \<noteq> Inl Panics"
  by (auto simp: merge_spec_def split: increment_spec.splits)

lemma parse_no_panic: "parse_spec vt inc \<noteq> Inl Panics"
  by (auto simp: parse_spec_def and_then_Inl_iff ok_or_Inl_iff split: option.splits)

lemma take_increment_alt:
  assumes "tracked_groups g tv"
  shows "take_increment vt g tv inc ds =
    (if map_of tv (inc_name inc) = None then Inl (UnknownPlanTarget (inc_name inc))
     else and_then (parse_spec vt inc) (\<lambda>spec. fold_decision spec (decision_key g (inc_name inc)) ds))"
proof (cases "parse_spec vt inc")
  case (Inr spec)
  then show ?thesis
    by (cases "fold_decision spec (decision_key g (inc_name inc)) ds")
      (simp_all add: take_increment_def resolve_targets_def decision_keys_closure[OF assms])
qed (simp add: take_increment_def resolve_targets_def)

definition decisions_ok ::
    "'i version_text \<Rightarrow> groups \<Rightarrow> (pkg_name, 'i version) btree \<Rightarrow> plan_increment set
     \<Rightarrow> (pkg_name, 'i increment_spec) btree \<Rightarrow> bool" where
  "decisions_ok vt g tv incs ds =
    (btree_ok ds \<and> fst ` set ds = (\<lambda>i. decision_key g (inc_name i)) ` incs \<and>
     (\<forall>i \<in> incs. map_of tv (inc_name i) \<noteq> None \<and>
       (\<exists>spec d. parse_spec vt i = Inr spec \<and> map_of ds (decision_key g (inc_name i)) = Some d \<and> covers d spec)))"

lemma fold_decision_Inr:
  assumes "fold_decision spec k ds = Inr ds'"
  shows "\<exists>d. ds' = btree_insert k d ds \<and> covers d spec \<and> (\<forall>e. map_of ds k = Some e \<longrightarrow> covers d e)"
proof (cases "map_of ds k")
  case (Some e)
  with assms obtain m where "merge_spec e spec k = Inr m" "ds' = btree_insert k m ds"
    by (auto simp: fold_decision_def and_then_Inr_iff)
  with merge_covers[of e spec k m] Some show ?thesis by auto
qed (use assms in \<open>auto simp: fold_decision_def\<close>)

lemma take_increment_ok:
  assumes "tracked_groups g tv" "decisions_ok vt g tv incs ds" "take_increment vt g tv inc ds = Inr ds'"
  shows "decisions_ok vt g tv (insert inc incs) ds'"
proof -
  let ?k = "decision_key g (inc_name inc)"
  from assms(3) obtain spec where spec: "map_of tv (inc_name inc) \<noteq> None" "parse_spec vt inc = Inr spec"
    "fold_decision spec ?k ds = Inr ds'"
    by (auto simp: take_increment_alt[OF assms(1)] and_then_Inr_iff split: if_splits)
  from fold_decision_Inr[OF spec(3)] obtain d where d: "ds' = btree_insert ?k d ds" "covers d spec"
    "\<forall>e. map_of ds ?k = Some e \<longrightarrow> covers d e" by blast
  have "\<exists>spec d. parse_spec vt i = Inr spec \<and> map_of ds' (decision_key g (inc_name i)) = Some d \<and> covers d spec"
    if i: "i \<in> insert inc incs" for i
  proof (cases "i = inc")
    case True
    with spec d show ?thesis by simp
  next
    case False
    with i assms(2) obtain sp e where e: "parse_spec vt i = Inr sp" "map_of ds (decision_key g (inc_name i)) = Some e"
      "covers e sp" unfolding decisions_ok_def by blast
    show ?thesis
    proof (cases "decision_key g (inc_name i) = ?k")
      case True
      with d(3) e covers_trans[of d e sp] show ?thesis by (simp add: d(1))
    next
      case False
      with e show ?thesis by (simp add: d(1))
    qed
  qed
  with assms(2) spec(1) show ?thesis
    unfolding decisions_ok_def by (auto simp: d(1) btree_insert_keys)
qed

lemma decisions_fold:
  assumes "tracked_groups g tv" "try_fold (take_increment vt g tv) incs ds = Inr ds'" "decisions_ok vt g tv done0 ds"
  shows "decisions_ok vt g tv (done0 \<union> set incs) ds'"
  using assms(2,3)
proof (induction incs arbitrary: ds done0)
  case (Cons i incs)
  from Cons.prems(1) obtain ds1 where "take_increment vt g tv i ds = Inr ds1"
    "try_fold (take_increment vt g tv) incs ds1 = Inr ds'" by (auto simp: and_then_Inr_iff)
  with Cons.IH[of ds1 "insert i done0"] take_increment_ok[OF assms(1) Cons.prems(2)] show ?case by simp
qed simp

section \<open>Settled versions\<close>

definition group_highest :: "groups \<Rightarrow> (pkg_name, 'i::linorder version) btree \<Rightarrow> pkg_name \<Rightarrow> 'i version" where
  "group_highest g tv p = Max ((\<lambda>q. the (map_of tv q)) ` group_mates g p)"

lemma settle_decision_alt:
  assumes "tracked_groups g tv" "map_of tv p \<noteq> None" "k = decision_key g p"
  shows "settle_decision g tv (k, d) packages =
    and_then (decided_version g k (group_highest g tv p) d)
      (\<lambda>v. Inr (btree_extend (map (\<lambda>m. (m, v)) (group_closure g p)) packages))"
proof -
  have m: "members_for_key k g tv = group_closure g p" unfolding assms(3) by (rule key_members[OF assms(1,2)])
  have tr: "q \<in> set (group_closure g p) \<Longrightarrow> map_of tv q \<noteq> None" for q
    using mates_tracked[OF assms(1) _ assms(2)] unfolding group_mates_def by blast
  have vs: "set (List.map_filter (map_of tv) (group_closure g p)) = (\<lambda>q. the (map_of tv q)) ` set (group_closure g p)"
    using tr by (force simp: List.map_filter_def)
  have "group_closure g p \<noteq> []"
    using mates_self[OF assms(1), of p] by (auto simp: group_mates_def)
  then have "List.map_filter (map_of tv) (group_closure g p) \<noteq> []" using vs by (metis image_is_empty set_empty)
  then show ?thesis
    by (simp add: settle_decision_def m vs group_highest_def group_mates_def Let_def)
qed

text \<open>What the packages whose key is in \<open>keys\<close> get.\<close>

definition settled_ok ::
    "groups \<Rightarrow> (pkg_name, 'i::linorder version) btree \<Rightarrow> (pkg_name \<times> 'i increment_spec) set
     \<Rightarrow> (pkg_name, 'i version) btree \<Rightarrow> bool" where
  "settled_ok g tv ds r = (btree_ok r \<and>
     (\<forall>p. map_of r p \<noteq> None \<longleftrightarrow> map_of tv p \<noteq> None \<and> decision_key g p \<in> fst ` ds) \<and>
     (\<forall>(k, d) \<in> ds. \<forall>p. map_of tv p \<noteq> None \<longrightarrow> decision_key g p = k \<longrightarrow>
        (\<exists>v. map_of r p = Some v \<and> decided_version g k (group_highest g tv p) d = Inr v)))"

lemma map_of_const: "map_of (rev (map (\<lambda>m. (m, v)) ms)) p = (if p \<in> set ms then Some v else None)"
  by (simp add: rev_map map_of_map_restrict restrict_map_def flip: map_map)

lemma group_highest_mate:
  assumes "tracked_groups g tv" "q \<in> group_mates g p"
  shows "group_highest g tv q = group_highest g tv p"
  using mates_same[OF assms] by (simp add: group_highest_def)

lemma settle_step:
  assumes "tracked_groups g tv" "settled_ok g tv ds r" "map_of tv p \<noteq> None" "k = decision_key g p" "k \<notin> fst ` ds"
    "settle_decision g tv (k, d) r = Inr r'"
  shows "settled_ok g tv (insert (k, d) ds) r'"
proof -
  from assms(6) obtain v where v: "decided_version g k (group_highest g tv p) d = Inr v"
    "r' = btree_extend (map (\<lambda>m. (m, v)) (group_closure g p)) r"
    by (auto simp: settle_decision_alt[OF assms(1,3,4)] and_then_Inr_iff)
  have look: "map_of r' q = (if q \<in> group_mates g p then Some v else map_of r q)" for q
    by (simp add: v(2) btree_extend_lookup map_add_def map_of_const group_mates_def)
  have mem: "q \<in> group_mates g p \<longleftrightarrow> map_of tv q \<noteq> None \<and> decision_key g q = k" for q
    using mates_iff_key[OF assms(1,3)] assms(4) by auto
  show ?thesis
    unfolding settled_ok_def
  proof (intro conjI allI ballI)
    show "btree_ok r'" using assms(2) by (simp add: v(2) settled_ok_def)
  next
    fix q
    show "map_of r' q \<noteq> None \<longleftrightarrow> map_of tv q \<noteq> None \<and> decision_key g q \<in> fst ` insert (k, d) ds"
      using assms(2) look[of q] mem[of q] unfolding settled_ok_def by auto
  next
    fix kd assume kd: "kd \<in> insert (k, d) ds"
    show "case kd of (k, d) \<Rightarrow> \<forall>p. map_of tv p \<noteq> None \<longrightarrow> decision_key g p = k \<longrightarrow>
        (\<exists>v. map_of r' p = Some v \<and> decided_version g k (group_highest g tv p) d = Inr v)"
    proof (cases "kd = (k, d)")
      case True
      show ?thesis unfolding True prod.case
      proof (intro allI impI)
        fix q assume "map_of tv q \<noteq> None" "decision_key g q = k"
        then have q: "q \<in> group_mates g p" using mem by blast
        with look[of q] v(1) group_highest_mate[OF assms(1) q]
        show "\<exists>v. map_of r' q = Some v \<and> decided_version g k (group_highest g tv q) d = Inr v" by simp
      qed
    next
      case False
      then have in_ds: "kd \<in> ds" using kd by simp
      then have "fst kd \<noteq> k" using assms(5) by (metis image_eqI)
      with in_ds assms(2) look mem show ?thesis unfolding settled_ok_def by (cases kd) auto
    qed
  qed
qed

lemma settle_fold:
  assumes "tracked_groups g tv" "try_fold (settle_decision g tv) ds r = Inr r'" "settled_ok g tv done0 r"
    "\<forall>k \<in> fst ` set ds. \<exists>p. map_of tv p \<noteq> None \<and> k = decision_key g p" "distinct (map fst ds)"
    "fst ` set ds \<inter> fst ` done0 = {}"
  shows "settled_ok g tv (done0 \<union> set ds) r'"
  using assms(2-6)
proof (induction ds arbitrary: r done0)
  case (Cons kd ds)
  obtain k d where kd: "kd = (k, d)" by (cases kd)
  from Cons.prems(1) obtain r1 where r1: "settle_decision g tv (k, d) r = Inr r1"
    "try_fold (settle_decision g tv) ds r1 = Inr r'" by (auto simp: and_then_Inr_iff kd)
  from Cons.prems(3) kd obtain p where p: "map_of tv p \<noteq> None" "k = decision_key g p" by auto
  have "k \<notin> fst ` done0" using Cons.prems(5) kd by auto
  from settle_step[OF assms(1) Cons.prems(2) p this r1(1)] have "settled_ok g tv (insert (k, d) done0) r1" .
  from Cons.IH[OF r1(2) this] Cons.prems(3-5) kd show ?case by auto
qed simp

lemma settled_start: "settled_ok g tv {} []"
  by (simp add: settled_ok_def)

lemma decided_facts:
  assumes "decided_version g k h d = Inr v"
  shows "h \<le> v" "group_members g k \<noteq> [] \<Longrightarrow> plain_version v"
    "covers d (Exact w) \<Longrightarrow> v = w" "covers d (Bump b) \<Longrightarrow> bumped h b \<le> v"
proof -
  have "h \<le> v \<and> (group_members g k \<noteq> [] \<longrightarrow> plain_version v) \<and> (covers d (Exact w) \<longrightarrow> v = w) \<and>
    (covers d (Bump b) \<longrightarrow> bumped h b \<le> v)"
  proof (cases d)
    case (Bump c)
    then have v: "v = bumped h c" using assms increment_version_Inr by (auto simp: decided_version_def)
    with Bump bumped_greater[of h c] bumped_mono[of b c h] show ?thesis by (auto simp: covers_def)
  next
    case (Exact x)
    with assms show ?thesis by (auto simp: decided_version_def covers_def split: if_splits)
  qed
  then show "h \<le> v" "group_members g k \<noteq> [] \<Longrightarrow> plain_version v"
    "covers d (Exact w) \<Longrightarrow> v = w" "covers d (Bump b) \<Longrightarrow> bumped h b \<le> v" by blast+
qed

end
