(* ===== verification/ReleaseResolution.thy ===== *)
theory ReleaseResolution
  imports ReleasePlan "HOL-Library.Countable"
begin

text \<open>
  What \<open>resolve_plan\<close> of \<open>crp_versioning/src/plan.rs\<close> returns: the invariants of its two loops put together, the
  properties of the groups and of the resolved versions, and the expansion as a plan that resolves to itself.
\<close>

section \<open>Resolution\<close>

lemma resolve_plan_Inr:
  assumes "tracked_groups g tv" "resolve_plan vt plan g tv = Inr r"
  obtains ds where "validate_schema plan = (Inr () :: 'i::linorder release_error + unit)"
    "try_fold (take_increment vt g tv) (increments plan) [] = Inr ds"
    "decisions_ok vt g tv (set (increments plan)) ds" "settled_ok g tv (set ds) (r :: (pkg_name, 'i version) btree)"
    "plan_stage_of plan = Expanded \<longrightarrow> fst ` set r \<subseteq> inc_name ` set (increments plan)"
proof -
  from assms(2) obtain ds where v: "validate_schema plan = (Inr () :: 'i release_error + unit)"
    and ds: "try_fold (take_increment vt g tv) (increments plan) [] = Inr ds"
    and r: "try_fold (settle_decision g tv) ds [] = Inr r"
    and drift: "\<not> (plan_stage_of plan = Expanded \<and> filter (\<lambda>p. p \<notin> inc_name ` set (increments plan)) (map fst r) \<noteq> [])"
    by (auto simp: resolve_plan_def and_then_Inr_iff Let_def split: if_splits)
  have ok: "decisions_ok vt g tv (set (increments plan)) ds"
    using decisions_fold[OF assms(1) ds, of "{}"] by (simp add: decisions_ok_def)
  have keys: "\<forall>k \<in> fst ` set ds. \<exists>p. map_of tv p \<noteq> None \<and> k = decision_key g p"
    using ok unfolding decisions_ok_def by blast
  have "distinct (map fst ds)" using ok btree_distinct by (auto simp: decisions_ok_def)
  from settle_fold[OF assms(1) r settled_start keys this] have "settled_ok g tv (set ds) r" by simp
  moreover have "fst ` set r \<subseteq> inc_name ` set (increments plan)" if "plan_stage_of plan = Expanded"
    using drift that by (auto simp: filter_empty_conv)
  ultimately show ?thesis using that v ds ok by blast
qed

text \<open>The version an entry asks for is what its package gets, or less than that for a bump.\<close>

definition entry_met :: "'i::linorder version_text \<Rightarrow> 'i version \<Rightarrow> plan_increment \<Rightarrow> 'i version \<Rightarrow> bool" where
  "entry_met vt highest inc v = (case parse_spec vt inc of
      Inr (Exact w) \<Rightarrow> v = w
    | Inr (Bump b) \<Rightarrow> bumped highest b \<le> v
    | Inl e \<Rightarrow> False)"

lemma settled_at:
  assumes "settled_ok g tv ds r" "map_of tv p \<noteq> None" "(decision_key g p, d) \<in> ds"
  obtains v where "map_of r p = Some v" "decided_version g (decision_key g p) (group_highest g tv p) d = Inr v"
  using assms unfolding settled_ok_def by blast

lemma settled_origin:
  assumes "settled_ok g tv ds r" "map_of r p = Some v"
  obtains d where "map_of tv p \<noteq> None" "(decision_key g p, d) \<in> ds"
    "decided_version g (decision_key g p) (group_highest g tv p) d = Inr v"
proof -
  have p: "map_of tv p \<noteq> None" "decision_key g p \<in> fst ` ds"
    using assms unfolding settled_ok_def by (metis option.distinct(1))+
  from p(2) obtain d where d: "(decision_key g p, d) \<in> ds" by (metis imageE prod.collapse)
  from settled_at[OF assms(1) p(1) d] assms(2) have "decided_version g (decision_key g p) (group_highest g tv p) d = Inr v"
    by (metis option.inject)
  from that[OF p(1) d this] show ?thesis .
qed

lemma decision_of:
  assumes "decisions_ok vt g tv incs ds" "i \<in> incs"
  obtains spec d where "map_of tv (inc_name i) \<noteq> None" "parse_spec vt i = Inr spec"
    "(decision_key g (inc_name i), d) \<in> set ds" "covers d spec"
proof -
  from assms have "map_of tv (inc_name i) \<noteq> None"
    "\<exists>spec d. parse_spec vt i = Inr spec \<and> map_of ds (decision_key g (inc_name i)) = Some d \<and> covers d spec"
    unfolding decisions_ok_def by blast+
  with that show ?thesis by (blast dest: map_of_SomeD)
qed

lemma resolved_facts:
  fixes r :: "(pkg_name, 'i::linorder version) btree"
  assumes "tracked_groups g tv" "resolve_plan vt plan g tv = Inr r"
  shows resolved_ok: "btree_ok r"
    and resolved_dom: "map_of r p \<noteq> None \<longleftrightarrow> (\<exists>i \<in> set (increments plan). p \<in> group_mates g (inc_name i))"
    and resolved_tracked: "map_of r p = Some v \<Longrightarrow> map_of tv p \<noteq> None"
    and resolved_monotone: "map_of r p = Some v \<Longrightarrow> group_highest g tv p \<le> v"
    and resolved_plain: "map_of r p = Some v \<Longrightarrow> group_of g p \<noteq> None \<Longrightarrow> plain_version v"
    and resolved_mates: "map_of r p = Some v \<Longrightarrow> q \<in> group_mates g p \<Longrightarrow> map_of r q = Some v"
    and resolved_entries: "i \<in> set (increments plan) \<Longrightarrow>
      \<exists>v. map_of r (inc_name i) = Some v \<and> entry_met vt (group_highest g tv (inc_name i)) i v"
    and resolved_named: "plan_stage_of plan = Expanded \<Longrightarrow> fst ` set r = inc_name ` set (increments plan)"
proof -
  from resolve_plan_Inr[OF assms] obtain ds where "validate_schema plan = (Inr () :: 'i release_error + unit)"
    "try_fold (take_increment vt g tv) (increments plan) [] = Inr ds"
    and ds: "decisions_ok vt g tv (set (increments plan)) ds" and st: "settled_ok g tv (set ds) r"
    and nm: "plan_stage_of plan = Expanded \<longrightarrow> fst ` set r \<subseteq> inc_name ` set (increments plan)" .
  have keys: "fst ` set ds = (\<lambda>i. decision_key g (inc_name i)) ` set (increments plan)"
    using ds by (simp add: decisions_ok_def)
  show "btree_ok r" using st by (simp add: settled_ok_def)
  show "map_of r p \<noteq> None \<longleftrightarrow> (\<exists>i \<in> set (increments plan). p \<in> group_mates g (inc_name i))"
  proof -
    have "map_of r p \<noteq> None \<longleftrightarrow> map_of tv p \<noteq> None \<and> decision_key g p \<in> fst ` set ds"
      using st unfolding settled_ok_def by blast
    also have "\<dots> \<longleftrightarrow> (\<exists>i \<in> set (increments plan). map_of tv p \<noteq> None \<and> decision_key g p = decision_key g (inc_name i))"
      unfolding keys image_iff by (simp only: bex_simps)
    also have "\<dots> \<longleftrightarrow> (\<exists>i \<in> set (increments plan). p \<in> group_mates g (inc_name i))"
    proof (rule bex_cong[OF refl])
      fix i assume "i \<in> set (increments plan)"
      then have "map_of tv (inc_name i) \<noteq> None" by (rule decision_of[OF ds])
      from mates_iff_key[OF assms(1) this]
      show "(map_of tv p \<noteq> None \<and> decision_key g p = decision_key g (inc_name i)) = (p \<in> group_mates g (inc_name i))"
        by simp
    qed
    finally show ?thesis .
  qed
  show "map_of tv p \<noteq> None" if "map_of r p = Some v" by (rule settled_origin[OF st that])
  show "group_highest g tv p \<le> v" if "map_of r p = Some v"
    by (rule settled_origin[OF st that]) (erule decided_facts(1))
  show "plain_version v" if p: "map_of r p = Some v" and g: "group_of g p \<noteq> None"
  proof -
    from settled_origin[OF st p] obtain d where d: "map_of tv p \<noteq> None" "(decision_key g p, d) \<in> set ds"
      "decided_version g (decision_key g p) (group_highest g tv p) d = Inr v" .
    from key_grouped[OF assms(1) d(1)] g have "group_members g (decision_key g p) \<noteq> []" by blast
    from decided_facts(2)[OF d(3) this] show ?thesis .
  qed
  show "map_of r q = Some v" if p: "map_of r p = Some v" and q: "q \<in> group_mates g p"
  proof -
    have key: "decision_key g q = decision_key g p" by (rule mates_key[OF assms(1) q])
    from settled_origin[OF st p] obtain d where d: "map_of tv p \<noteq> None" "(decision_key g p, d) \<in> set ds"
      "decided_version g (decision_key g p) (group_highest g tv p) d = Inr v" .
    have "map_of tv q \<noteq> None" by (rule mates_tracked[OF assms(1) q d(1)])
    from settled_at[OF st this d(2)[folded key]] obtain w where w: "map_of r q = Some w"
      "decided_version g (decision_key g q) (group_highest g tv q) d = Inr w" .
    from w(2) d(3) have "w = v" unfolding key group_highest_mate[OF assms(1) q] by simp
    with w(1) show ?thesis by simp
  qed
  show entries: "\<exists>v. map_of r (inc_name i) = Some v \<and> entry_met vt (group_highest g tv (inc_name i)) i v"
    if i: "i \<in> set (increments plan)" for i
  proof -
    from decision_of[OF ds i] obtain spec d where sd: "map_of tv (inc_name i) \<noteq> None" "parse_spec vt i = Inr spec"
      "(decision_key g (inc_name i), d) \<in> set ds" "covers d spec" .
    from settled_at[OF st sd(1,3)] obtain v where v: "map_of r (inc_name i) = Some v"
      "decided_version g (decision_key g (inc_name i)) (group_highest g tv (inc_name i)) d = Inr v" .
    have "entry_met vt (group_highest g tv (inc_name i)) i v"
    proof (cases spec)
      case (Bump b)
      with decided_facts(4)[OF v(2), of b] sd(2,4) show ?thesis by (simp add: entry_met_def)
    next
      case (Exact w)
      with decided_facts(3)[OF v(2), of w] sd(2,4) show ?thesis by (simp add: entry_met_def)
    qed
    with v(1) show ?thesis by blast
  qed
  show "fst ` set r = inc_name ` set (increments plan)" if "plan_stage_of plan = Expanded"
  proof
    show "inc_name ` set (increments plan) \<subseteq> fst ` set r"
    proof
      fix n assume "n \<in> inc_name ` set (increments plan)"
      then obtain i where "i \<in> set (increments plan)" "n = inc_name i" by blast
      moreover from entries[OF this(1)] obtain v where "map_of r (inc_name i) = Some v" by blast
      ultimately have "map_of r n \<noteq> None" by simp
      then show "n \<in> fst ` set r" by (simp add: btree_keys_lookup)
    qed
  qed (rule nm[rule_format, OF that])
qed

lemma take_increment_no_panic:
  assumes "tracked_groups g tv" shows "take_increment vt g tv inc ds \<noteq> Inl Panics"
proof
  assume "take_increment vt g tv inc ds = Inl Panics"
  then obtain spec where "fold_decision spec (decision_key g (inc_name inc)) ds = Inl Panics"
    using parse_no_panic[of vt inc] by (auto simp: take_increment_alt[OF assms] and_then_Inl_iff split: if_splits)
  then show False
    using merge_no_panic by (cases "map_of ds (decision_key g (inc_name inc))") (auto simp: fold_decision_def and_then_Inl_iff)
qed

lemma decided_no_panic: "decided_version g k h d \<noteq> Inl Panics"
  by (cases d) (auto simp: decided_version_def increment_version_no_panic)

lemma resolve_no_panic:
  assumes "tracked_groups g tv"
  shows "resolve_plan vt plan g tv \<noteq> Inl Panics"
proof
  assume p: "resolve_plan vt plan g tv = Inl Panics"
  have v: "validate_schema plan \<noteq> Inl Panics" by (simp add: validate_schema_def)
  have t: "try_fold (take_increment vt g tv) incs ds \<noteq> Inl Panics" for incs ds
  proof
    assume "try_fold (take_increment vt g tv) incs ds = Inl Panics"
    then show False
      by (rule try_fold_no_error[where P = "\<lambda>s. True"]) (simp_all add: take_increment_no_panic[OF assms])
  qed
  from p v t[of "increments plan" "[]"] obtain ds where ds: "try_fold (take_increment vt g tv) (increments plan) [] = Inr ds"
    and s: "try_fold (settle_decision g tv) ds [] = Inl Panics"
    unfolding resolve_plan_def Let_def and_then_Inl_iff by (auto split: if_splits simp: and_then_Inl_iff)
  have ok: "decisions_ok vt g tv (set (increments plan)) ds"
    using decisions_fold[OF assms ds, of "{}"] by (simp add: decisions_ok_def)
  have "settle_decision g tv x r \<noteq> Inl Panics" if x: "x \<in> set ds" for x r
  proof -
    obtain k d where kd: "x = (k, d)" by (cases x)
    from ok have "fst ` set ds = (\<lambda>i. decision_key g (inc_name i)) ` set (increments plan)" by (simp add: decisions_ok_def)
    moreover from x kd have "k \<in> fst ` set ds" by (metis fst_conv image_eqI)
    ultimately obtain i where i: "i \<in> set (increments plan)" "k = decision_key g (inc_name i)" by auto
    have "map_of tv (inc_name i) \<noteq> None" by (rule decision_of[OF ok i(1)])
    from settle_decision_alt[OF assms this i(2), of d r] show ?thesis
      by (auto simp: kd and_then_Inl_iff decided_no_panic)
  qed
  with s show False
    by (rule_tac try_fold_no_error[where P = "\<lambda>s. True"]) simp_all
qed

lemma derived_groups_tracked:
  assumes "from_edges (map fst tv) edges = Some g"
  shows "tracked_groups g tv"
  using from_edges_components[of "map fst tv" edges] assms unfolding tracked_groups_def by auto

section \<open>The expansion of a plan\<close>

definition pinned_ok :: "groups \<Rightarrow> (pkg_name, 'i version) btree \<Rightarrow> (pkg_name, 'i increment_spec) btree \<Rightarrow> bool" where
  "pinned_ok g r ds = (\<forall>k d. map_of ds k = Some d \<longrightarrow>
     (\<exists>q v. map_of r q = Some v \<and> decision_key g q = k \<and> d = Exact v))"

lemma pinned_step:
  assumes "tracked_groups g tv" "\<forall>p v. map_of r p = Some v \<longrightarrow> map_of tv p \<noteq> None"
    "\<forall>p q v. map_of r p = Some v \<longrightarrow> q \<in> group_mates g p \<longrightarrow> map_of r q = Some v"
    "pinned_ok g r ds" "map_of r p = Some v" "parse_version vt t = Some v"
  shows "\<exists>ds'. take_increment vt g tv \<lparr>inc_name = p, inc_bump = None, inc_version = Some t\<rparr> ds = Inr ds' \<and>
    pinned_ok g r ds'"
proof -
  let ?k = "decision_key g p"
  have fold: "fold_decision (Exact v) ?k ds = Inr (btree_insert ?k (Exact v) ds)"
  proof (cases "map_of ds ?k")
    case (Some d)
    with assms(4) obtain q w where q: "map_of r q = Some w" "decision_key g q = ?k" "d = Exact w"
      unfolding pinned_ok_def by blast
    have "map_of tv p \<noteq> None" "map_of tv q \<noteq> None" using assms(2,5) q(1) by blast+
    with q(2) mates_iff_key[OF assms(1), of p] have "q \<in> group_mates g p" by simp
    with assms(3,5) have "map_of r q = Some v" by blast
    with q(1) have "w = v" by simp
    with Some q(3) show ?thesis by (simp add: fold_decision_def merge_spec_def)
  qed (simp add: fold_decision_def)
  have "map_of tv p \<noteq> None" using assms(2,5) by blast
  then have "take_increment vt g tv \<lparr>inc_name = p, inc_bump = None, inc_version = Some t\<rparr> ds =
      Inr (btree_insert ?k (Exact v) ds)"
    by (simp add: take_increment_alt[OF assms(1)] parse_spec_def assms(6) fold)
  moreover have "pinned_ok g r (btree_insert ?k (Exact v) ds)"
    using assms(4,5) unfolding pinned_ok_def by auto
  ultimately show ?thesis by blast
qed

lemma pinned_decided:
  assumes "tracked_groups g tv" "resolve_plan vt plan g tv = Inr r" "pinned_ok g r ds" "distinct (map fst ds)"
    "(decision_key g p, d) \<in> set ds" "map_of r p = Some v"
  shows "decided_version g (decision_key g p) (group_highest g tv p) d = Inr v"
proof -
  note tracked = resolved_tracked[OF assms(1,2)]
  have "map_of ds (decision_key g p) = Some d" using assms(4,5) by simp
  with assms(3) obtain q w where q: "map_of r q = Some w" "decision_key g q = decision_key g p" "d = Exact w"
    unfolding pinned_ok_def by blast
  have tp: "map_of tv p \<noteq> None" "map_of tv q \<noteq> None" by (rule tracked[OF assms(6)], rule tracked[OF q(1)])
  with q(2) mates_iff_key[OF assms(1), of p] have "q \<in> group_mates g p" by simp
  from resolved_mates[OF assms(1,2,6) this] q have d: "d = Exact v" by simp
  have "group_highest g tv p \<le> v" by (rule resolved_monotone[OF assms(1,2,6)])
  moreover have "plain_version v" if "group_members g (decision_key g p) \<noteq> []"
    using resolved_plain[OF assms(1,2,6)] key_grouped[OF assms(1) tp(1)] that by blast
  ultimately show ?thesis by (auto simp: d decided_version_def)
qed

lemma same_resolution:
  assumes "tracked_groups g tv" "resolve_plan vt plan g tv = Inr r" "settled_ok g tv (set ds) r2"
    "fst ` set ds = decision_key g ` fst ` set r"
    "\<And>p d v. (decision_key g p, d) \<in> set ds \<Longrightarrow> map_of r p = Some v \<Longrightarrow>
      decided_version g (decision_key g p) (group_highest g tv p) d = Inr v"
  shows "r2 = r"
proof (rule btree_eqI)
  note tracked = resolved_tracked[OF assms(1,2)]
  show rok: "btree_ok r" by (rule resolved_ok[OF assms(1,2)])
  show "btree_ok r2" using assms(3) by (simp add: settled_ok_def)
  show "map_of r2 = map_of r"
  proof
    fix p
    show "map_of r2 p = map_of r p"
    proof (cases "map_of r2 p")
      case (Some v)
      from settled_origin[OF assms(3) Some] obtain d where d: "map_of tv p \<noteq> None" "(decision_key g p, d) \<in> set ds"
        "decided_version g (decision_key g p) (group_highest g tv p) d = Inr v" .
      from d(2) have "decision_key g p \<in> decision_key g ` fst ` set r" unfolding assms(4)[symmetric] by (metis fst_conv image_eqI)
      then obtain q w where q: "map_of r q = Some w" "decision_key g q = decision_key g p"
        by (force simp: btree_lookup_mem[OF rok])
      with d(1) mates_iff_key[OF assms(1) tracked[OF q(1)]] have "p \<in> group_mates g q" by simp
      from resolved_mates[OF assms(1,2) q(1) this] have w: "map_of r p = Some w" .
      from assms(5)[OF d(2) w] d(3) w Some show ?thesis by simp
    next
      case None
      have "map_of r p = None"
      proof (rule ccontr)
        assume "map_of r p \<noteq> None"
        then obtain v where v: "map_of r p = Some v" by blast
        then have "decision_key g p \<in> fst ` set ds" unfolding assms(4) by (simp add: btree_keys_lookup)
        with tracked[OF v] assms(3) have "map_of r2 p \<noteq> None" unfolding settled_ok_def by blast
        with None show False by simp
      qed
      with None show ?thesis by simp
    qed
  qed
qed

lemma expansion_decisions:
  fixes r :: "(pkg_name, 'i::linorder version) btree"
  assumes "tracked_groups g tv" "resolve_plan vt plan g tv = Inr r" "text_roundtrip vt"
  shows "\<exists>ds. try_fold (take_increment vt g tv) (increments (explicit_plan vt r)) [] = Inr ds \<and> pinned_ok g r ds"
proof (rule try_fold_total)
  fix i ds assume i: "i \<in> set (increments (explicit_plan vt r))" and ds: "pinned_ok g r ds"
  from i obtain p v where pv: "(p, v) \<in> set r"
    "i = \<lparr>inc_name = p, inc_bump = None, inc_version = Some (show_version vt v)\<rparr>"
    by (auto simp: explicit_plan_def plan_new_def)
  have "map_of r p = Some v" "parse_version vt (show_version vt v) = Some v"
    using pv(1) btree_lookup_mem[OF resolved_ok[OF assms(1,2)]] assms(3) by (blast, simp add: text_roundtrip_def)
  from pinned_step[OF assms(1) _ _ ds this] resolved_tracked[OF assms(1,2)] resolved_mates[OF assms(1,2)]
  show "\<exists>ds'. take_increment vt g tv i ds = Inr ds' \<and> pinned_ok g r ds'" unfolding pv(2) by blast
qed (simp add: pinned_ok_def)

lemma expansion_resolves:
  fixes r :: "(pkg_name, 'i::linorder version) btree"
  assumes "tracked_groups g tv" "resolve_plan vt plan g tv = Inr r" "text_roundtrip vt"
  shows "resolve_plan vt (explicit_plan vt r) g tv = Inr r"
proof -
  let ?plan = "explicit_plan vt r"
  note tracked = resolved_tracked[OF assms(1,2)]
  from expansion_decisions[OF assms] obtain ds where
    ds: "try_fold (take_increment vt g tv) (increments ?plan) [] = Inr ds" "pinned_ok g r ds" by blast
  have ok: "decisions_ok vt g tv (set (increments ?plan)) ds"
    using decisions_fold[OF assms(1) ds(1), of "{}"] by (simp add: decisions_ok_def)
  have names: "inc_name ` set (increments ?plan) = fst ` set r"
    by (force simp: explicit_plan_def plan_new_def)
  have keys: "fst ` set ds = decision_key g ` fst ` set r"
    using ok unfolding decisions_ok_def names[symmetric] image_image by blast
  have dist: "distinct (map fst ds)" using ok btree_distinct unfolding decisions_ok_def by blast
  note decided = pinned_decided[OF assms(1,2) ds(2) dist]
  have key_of: "\<exists>p v. map_of r p = Some v \<and> decision_key g p = k" if "k \<in> fst ` set ds" for k
    using that unfolding keys by (force simp: btree_lookup_mem[OF resolved_ok[OF assms(1,2)]])
  have "\<exists>r2. try_fold (settle_decision g tv) ds [] = Inr r2 \<and> True"
  proof (rule try_fold_total)
    fix kd r0 assume kd: "kd \<in> set ds"
    obtain k d where k: "kd = (k, d)" by (cases kd)
    from kd k have "k \<in> fst ` set ds" by (metis fst_conv image_eqI)
    from key_of[OF this] obtain p v where p: "map_of r p = Some v" "decision_key g p = k" by blast
    have "(decision_key g p, d) \<in> set ds" using kd k p(2) by simp
    from decided[OF this p(1)] have "decided_version g k (group_highest g tv p) d = Inr v" unfolding p(2) .
    with settle_decision_alt[OF assms(1) tracked[OF p(1)] p(2)[symmetric], of d r0]
    show "\<exists>s'. settle_decision g tv kd r0 = Inr s' \<and> True" by (simp add: k)
  qed simp
  then obtain r2 where r2: "try_fold (settle_decision g tv) ds [] = Inr r2" by blast
  have tk: "\<forall>k \<in> fst ` set ds. \<exists>p. map_of tv p \<noteq> None \<and> k = decision_key g p"
    using key_of tracked by metis
  from settle_fold[OF assms(1) r2 settled_start tk dist] have st: "settled_ok g tv (set ds) r2" by simp
  have "r2 = r" by (rule same_resolution[OF assms(1,2) st keys decided])
  moreover have "filter (\<lambda>p. p \<notin> inc_name ` set (increments ?plan)) (map fst r) = []"
    unfolding names by (simp add: filter_empty_conv)
  moreover have "filter (\<lambda>i. inc_version i = None) (increments ?plan) = []"
    by (auto simp: filter_empty_conv explicit_plan_def plan_new_def)
  moreover have "(validate_schema ?plan :: 'i release_error + unit) = Inr ()"
    by (simp add: validate_schema_def explicit_plan_def plan_new_def)
  ultimately show ?thesis using ds(1) r2 by (simp add: resolve_plan_def)
qed

section \<open>Plans of bumps\<close>

text \<open>The bumps that the entries ask of the packages with one key.\<close>

definition asked_bumps :: "'i version_text \<Rightarrow> groups \<Rightarrow> plan_increment set \<Rightarrow> pkg_name \<Rightarrow> version_bump set" where
  "asked_bumps vt g incs k = {b. \<exists>i \<in> incs. decision_key g (inc_name i) = k \<and> parse_spec vt i = Inr (Bump b)}"

lemma finite_bumps [simp]: "finite (B :: version_bump set)"
proof (rule finite_subset)
  show "B \<subseteq> {Patch, Minor, Major}" by (auto intro: version_bump.exhaust)
qed simp

definition bump_decisions ::
    "'i version_text \<Rightarrow> groups \<Rightarrow> plan_increment set \<Rightarrow> (pkg_name, 'i increment_spec) btree \<Rightarrow> bool" where
  "bump_decisions vt g incs ds = (\<forall>k. map_of ds k =
     (if asked_bumps vt g incs k = {} then None else Some (Bump (Max (asked_bumps vt g incs k)))))"

lemma take_bump:
  assumes "tracked_groups g tv" "bump_decisions vt g incs ds" "map_of tv (inc_name i) \<noteq> None"
    "parse_spec vt i = Inr (Bump b)"
  shows "\<exists>ds'. take_increment vt g tv i ds = Inr ds' \<and> bump_decisions vt g (insert i incs) ds'"
proof -
  let ?k = "decision_key g (inc_name i)"
  have asked: "asked_bumps vt g (insert i incs) k =
      (if k = ?k then insert b (asked_bumps vt g incs k) else asked_bumps vt g incs k)" for k
    using assms(4) by (auto simp: asked_bumps_def)
  have "fold_decision (Bump b) ?k ds = Inr (btree_insert ?k (Bump (Max (insert b (asked_bumps vt g incs ?k)))) ds)"
    using assms(2) by (auto simp: bump_decisions_def fold_decision_def merge_spec_def max.commute)
  moreover have "bump_decisions vt g (insert i incs)
      (btree_insert ?k (Bump (Max (insert b (asked_bumps vt g incs ?k)))) ds)"
    using assms(2) by (simp add: bump_decisions_def asked)
  ultimately show ?thesis using assms(3,4) by (simp add: take_increment_alt[OF assms(1)])
qed

lemma take_bumps:
  assumes "tracked_groups g tv" "bump_decisions vt g done0 ds"
    "\<forall>i \<in> set incs. map_of tv (inc_name i) \<noteq> None \<and> (\<exists>b. parse_spec vt i = Inr (Bump b))"
  shows "\<exists>ds'. try_fold (take_increment vt g tv) incs ds = Inr ds' \<and> bump_decisions vt g (done0 \<union> set incs) ds'"
  using assms(2,3)
proof (induction incs arbitrary: ds done0)
  case (Cons i incs)
  then obtain b where "map_of tv (inc_name i) \<noteq> None" "parse_spec vt i = Inr (Bump b)" by auto
  from take_bump[OF assms(1) Cons.prems(1) this] obtain ds1 where
    ds1: "take_increment vt g tv i ds = Inr ds1" "bump_decisions vt g (insert i done0) ds1" by blast
  from Cons.IH[OF ds1(2)] Cons.prems(2) ds1(1) show ?case by simp
qed simp

text \<open>A version no bump overflows.\<close>

definition bumpable :: "'i version \<Rightarrow> bool" where
  "bumpable v = (v_major v + 1 < usize_range \<and> v_minor v + 1 < usize_range \<and> v_patch v + 1 < usize_range)"

lemma bumpable_increment: "bumpable v \<Longrightarrow> increment_version v b = Inr (bumped v b)"
  by (cases b) (simp_all add: bumpable_def increment_version_def bumped_def checked_add_def)

lemma bump_plan_resolves:
  fixes vt :: "'i::linorder version_text"
  assumes "tracked_groups g tv" "plan_stage_of plan = Proposed" "validate_schema plan = (Inr () :: 'i release_error + unit)"
    "\<forall>i \<in> set (increments plan). map_of tv (inc_name i) \<noteq> None \<and> (\<exists>b. parse_spec vt i = Inr (Bump b)) \<and>
      bumpable (group_highest g tv (inc_name i))"
  shows "\<exists>r. resolve_plan vt plan g tv = Inr r \<and> (\<forall>p. map_of r p =
    (let bs = asked_bumps vt g (set (increments plan)) (decision_key g p) in
     if map_of tv p = None \<or> bs = {} then None else Some (bumped (group_highest g tv p) (Max bs))))"
proof -
  let ?A = "asked_bumps vt g (set (increments plan))"
  have "bump_decisions vt g {} []" by (simp add: bump_decisions_def asked_bumps_def)
  from take_bumps[OF assms(1) this, of "increments plan"] assms(4) obtain ds where
    ds: "try_fold (take_increment vt g tv) (increments plan) [] = Inr ds" "bump_decisions vt g (set (increments plan)) ds"
    by auto
  have ok: "decisions_ok vt g tv (set (increments plan)) ds"
    using decisions_fold[OF assms(1) ds(1), of "{}"] by (simp add: decisions_ok_def)
  have dist: "distinct (map fst ds)" using ok btree_distinct unfolding decisions_ok_def by blast
  have keys: "fst ` set ds = (\<lambda>i. decision_key g (inc_name i)) ` set (increments plan)"
    using ok by (simp add: decisions_ok_def)
  have at: "d = Bump (Max (?A k)) \<and> ?A k \<noteq> {}" if "(k, d) \<in> set ds" for k d
  proof -
    from that dist have "map_of ds k = Some d" by simp
    with ds(2) show ?thesis unfolding bump_decisions_def by (metis option.distinct(1) option.inject)
  qed
  have dec: "decided_version g (decision_key g p) (group_highest g tv p) d = Inr (bumped (group_highest g tv p) (Max (?A (decision_key g p))))"
    if p: "map_of tv p \<noteq> None" "(decision_key g p, d) \<in> set ds" for p d
  proof -
    from p(2) have "decision_key g p \<in> fst ` set ds" by (metis fst_conv image_eqI)
    then obtain i where i: "i \<in> set (increments plan)" "decision_key g p = decision_key g (inc_name i)"
      unfolding keys by blast
    with assms(4) have "map_of tv (inc_name i) \<noteq> None" "bumpable (group_highest g tv (inc_name i))" by blast+
    with mates_iff_key[OF assms(1), of "inc_name i"] i(2) p(1) have m: "p \<in> group_mates g (inc_name i)" by simp
    from \<open>bumpable (group_highest g tv (inc_name i))\<close> have "bumpable (group_highest g tv p)"
      unfolding group_highest_mate[OF assms(1) m] .
    with at[OF p(2)] show ?thesis by (simp add: decided_version_def bumpable_increment)
  qed
  have "\<exists>r. try_fold (settle_decision g tv) ds [] = Inr r \<and> True"
  proof (rule try_fold_total)
    fix kd r0 assume kd: "kd \<in> set ds"
    obtain k d where k: "kd = (k, d)" by (cases kd)
    from kd k have "k \<in> fst ` set ds" by (metis fst_conv image_eqI)
    then obtain i where i: "i \<in> set (increments plan)" "k = decision_key g (inc_name i)" unfolding keys by blast
    with assms(4) have tr: "map_of tv (inc_name i) \<noteq> None" by blast
    have "(decision_key g (inc_name i), d) \<in> set ds" using kd k i(2) by simp
    from dec[OF tr this] settle_decision_alt[OF assms(1) tr i(2), of d r0]
    show "\<exists>s'. settle_decision g tv kd r0 = Inr s' \<and> True" by (simp add: k i(2))
  qed simp
  then obtain r where r: "try_fold (settle_decision g tv) ds [] = Inr r" by blast
  have tk: "\<forall>k \<in> fst ` set ds. \<exists>p. map_of tv p \<noteq> None \<and> k = decision_key g p"
    unfolding keys using assms(4) by blast
  from settle_fold[OF assms(1) r settled_start tk dist] have st: "settled_ok g tv (set ds) r" by simp
  have "map_of r p = (if map_of tv p = None \<or> ?A (decision_key g p) = {} then None
      else Some (bumped (group_highest g tv p) (Max (?A (decision_key g p)))))" for p
  proof (cases "map_of r p")
    case (Some v)
    from settled_origin[OF st Some] obtain d where d: "map_of tv p \<noteq> None" "(decision_key g p, d) \<in> set ds"
      "decided_version g (decision_key g p) (group_highest g tv p) d = Inr v" .
    from dec[OF d(1,2)] d(3) at[OF d(2)] d(1) Some show ?thesis by simp
  next
    case None
    have "decision_key g p \<notin> fst ` set ds" if "map_of tv p \<noteq> None"
      using st None that unfolding settled_ok_def by blast
    then have "map_of tv p \<noteq> None \<Longrightarrow> map_of ds (decision_key g p) = None" by (simp add: map_of_eq_None_iff)
    with ds(2) None show ?thesis unfolding bump_decisions_def by (metis option.distinct(1))
  qed
  moreover have "resolve_plan vt plan g tv = Inr r"
    using assms(2,3) ds(1) r by (simp add: resolve_plan_def)
  ultimately show ?thesis by (auto simp: Let_def)
qed

section \<open>Properties\<close>

definition requested_bumps :: "'i version_text \<Rightarrow> groups \<Rightarrow> plan_file \<Rightarrow> pkg_name \<Rightarrow> version_bump set" where
  "requested_bumps vt g plan p =
    {b. \<exists>i \<in> set (increments plan). p \<in> set (group_closure g (inc_name i)) \<and> parse_spec vt i = Inr (Bump b)}"

lemma requested_asked:
  assumes "tracked_groups g tv" "map_of tv p \<noteq> None" "\<forall>i \<in> set (increments plan). map_of tv (inc_name i) \<noteq> None"
  shows "requested_bumps vt g plan p = asked_bumps vt g (set (increments plan)) (decision_key g p)"
proof -
  have "(p \<in> set (group_closure g (inc_name i))) = (decision_key g (inc_name i) = decision_key g p)"
    if "i \<in> set (increments plan)" for i
    using mates_iff_key[OF assms(1), of "inc_name i"] assms(2,3) that unfolding group_mates_def by auto
  then show ?thesis unfolding requested_bumps_def asked_bumps_def by blast
qed

text \<open>C20: The derived version groups are the connected components, with two members or more, of the exact dependencies
  between tracked packages. The derivation always returns; the closure of a package is its component in name order,
  and its group is named by the smallest member.\<close>

theorem release_groups_are_components:
  "\<exists>g. from_edges targets edges = Some g \<and>
    (\<forall>p. group_closure g p = sorted_list_of_set (mates targets edges p)) \<and>
    (\<forall>p. group_of g p = (if p \<in> set targets \<and> mates targets edges p \<noteq> {p}
       then Some (Min (mates targets edges p)) else None)) \<and>
    (\<forall>k. group_members g k \<noteq> [] \<longleftrightarrow> group_of g k = Some k)"
proof -
  obtain g where g: "from_edges targets edges = Some g" "groups_of targets edges (set targets) g"
    using from_edges_components by blast
  have big: "big targets edges p = (mates targets edges p \<noteq> {p})" for p
    using mates_refl[of p targets edges] unfolding big_def by blast
  have ne: "sorted_list_of_set (mates targets edges p) \<noteq> []" for p
    using finite_mates[of targets edges p] mates_refl[of p targets edges]
    by (metis empty_iff sorted_list_of_set_eq_Nil_iff)
  have "\<forall>k. group_members g k \<noteq> [] \<longleftrightarrow> group_of g k = Some k"
    using groups_of_lookups[OF g(2)] ne by simp metis
  with g(1) closure_mates[OF g(2)] groups_of_lookups(1)[OF g(2)] show ?thesis by (auto simp: big)
qed

text \<open>C39: A proposal of bumps for tracked packages, none of which overflows, resolves. Every package that a group mate
  of a named package is, and no other, gets the highest declared version of its group raised by the highest bump that
  was asked of the group.\<close>

theorem bump_plan_resolution:
  fixes vt :: "'i::linorder version_text"
  assumes "from_edges (map fst tv) edges = Some g" "plan_stage_of plan = Proposed"
    "validate_schema plan = (Inr () :: 'i release_error + unit)"
    "\<forall>i \<in> set (increments plan). map_of tv (inc_name i) \<noteq> None \<and> (\<exists>b. parse_spec vt i = Inr (Bump b)) \<and>
      bumpable (group_highest g tv (inc_name i))"
  shows "\<exists>r. resolve_plan vt plan g tv = Inr r \<and> (\<forall>p. map_of r p =
    (if map_of tv p = None \<or> requested_bumps vt g plan p = {} then None
     else Some (bumped (group_highest g tv p) (Max (requested_bumps vt g plan p)))))"
proof -
  note tg = derived_groups_tracked[OF assms(1)]
  from bump_plan_resolves[OF tg assms(2-4)] requested_asked[OF tg, of _ plan vt] assms(4)
  show ?thesis by (auto simp: Let_def)
qed

text \<open>C19: A plan that resolves gives a version to the group mates of the packages it names and to no other package.
  Mates get the same version, which no mate has to go back for and which is plain in a group; every entry is met: an
  exact version is the version, a bump is a lower bound. An expanded plan names every package it reaches. Resolution
  never panics on derived groups.\<close>

theorem plan_resolution:
  assumes "from_edges (map fst tv) edges = Some g"
  shows "resolve_plan vt plan g tv \<noteq> Inl Panics \<and> (\<forall>r. resolve_plan vt plan g tv = Inr r \<longrightarrow>
    (\<forall>p. map_of r p \<noteq> None \<longleftrightarrow> (\<exists>i \<in> set (increments plan). p \<in> set (group_closure g (inc_name i)))) \<and>
    (\<forall>p v. map_of r p = Some v \<longrightarrow>
      (\<forall>q \<in> set (group_closure g p). map_of r q = Some v \<and> (\<exists>w. map_of tv q = Some w \<and> w \<le> v)) \<and>
      (group_of g p \<noteq> None \<longrightarrow> plain_version v)) \<and>
    (\<forall>i \<in> set (increments plan).
      \<exists>v. map_of r (inc_name i) = Some v \<and> entry_met vt (group_highest g tv (inc_name i)) i v) \<and>
    (plan_stage_of plan = Expanded \<longrightarrow> fst ` set r = inc_name ` set (increments plan)))"
proof (intro conjI allI impI ballI)
  note tg = derived_groups_tracked[OF assms]
  show "resolve_plan vt plan g tv \<noteq> Inl Panics" by (rule resolve_no_panic[OF tg])
  fix r assume r: "resolve_plan vt plan g tv = Inr r"
  note tracked = resolved_tracked[OF tg r] and mated = resolved_mates[OF tg r]
  show "map_of r p \<noteq> None \<longleftrightarrow> (\<exists>i \<in> set (increments plan). p \<in> set (group_closure g (inc_name i)))" for p
    using resolved_dom[OF tg r, of p] unfolding group_mates_def .
  show "map_of r q = Some v" if "map_of r p = Some v" "q \<in> set (group_closure g p)" for p q v
    using mated[OF that(1), of q] that(2) unfolding group_mates_def by blast
  show "\<exists>w. map_of tv q = Some w \<and> w \<le> v" if "map_of r p = Some v" "q \<in> set (group_closure g p)" for p q v
  proof -
    have q: "q \<in> group_mates g p" using that(2) unfolding group_mates_def .
    have "map_of tv q \<noteq> None" by (rule tracked[OF mated[OF that(1) q]])
    then obtain w where w: "map_of tv q = Some w" by blast
    have "w \<le> group_highest g tv p"
      unfolding group_highest_def by (rule Max_ge) (use q w in \<open>force simp: group_mates_def\<close>)+
    also have "\<dots> \<le> v" by (rule resolved_monotone[OF tg r that(1)])
    finally show ?thesis using w by blast
  qed
  show "plain_version v" if "map_of r p = Some v" "group_of g p \<noteq> None" for p v
    by (rule resolved_plain[OF tg r that])
  show "\<exists>v. map_of r (inc_name i) = Some v \<and> entry_met vt (group_highest g tv (inc_name i)) i v"
    if "i \<in> set (increments plan)" for i by (rule resolved_entries[OF tg r that])
  show "fst ` set r = inc_name ` set (increments plan)" if "plan_stage_of plan = Expanded"
    by (rule resolved_named[OF tg r that])
qed

text \<open>C40: The expansion of a plan, written down with explicit versions, resolves to itself: preview and application
  agree on the packages and versions, for printed versions that read back.\<close>

theorem plan_expansion_roundtrip:
  assumes "text_roundtrip vt" "from_edges (map fst tv) edges = Some g" "resolve_plan vt plan g tv = Inr r"
  shows "resolve_plan vt (explicit_plan vt r) g tv = Inr r"
  by (rule expansion_resolves[OF derived_groups_tracked[OF assms(2)] assms(3,1)])

section \<open>Witnesses\<close>

text \<open>Identifiers as numbers, and a version as a string whose length encodes its components.\<close>

fun encode_option :: "nat option \<Rightarrow> nat" where
  "encode_option None = 0"
| "encode_option (Some n) = Suc n"

fun decode_option :: "nat \<Rightarrow> nat option" where
  "decode_option 0 = None"
| "decode_option (Suc n) = Some n"

lemma decode_encode_option [simp]: "decode_option (encode_option x) = x"
  by (cases x) simp_all

definition encode_version :: "nat version \<Rightarrow> nat" where
  "encode_version v = prod_encode (v_major v, prod_encode (v_minor v, prod_encode (v_patch v,
     prod_encode (encode_option (v_pre v), encode_option (v_build v)))))"

definition decode_version :: "nat \<Rightarrow> nat version" where
  "decode_version n = (case prod_decode n of (a, m) \<Rightarrow> case prod_decode m of (b, k) \<Rightarrow>
     case prod_decode k of (c, j) \<Rightarrow> case prod_decode j of (p, q) \<Rightarrow>
       Version a b c (decode_option p) (decode_option q))"

definition coded_text :: "nat version_text" where
  "coded_text = \<lparr>parse_version = (\<lambda>s. Some (decode_version (length s))),
     show_version = (\<lambda>v. replicate (encode_version v) (CHR ''v''))\<rparr>"

lemma coded_roundtrip: "text_roundtrip coded_text"
  by (auto simp: text_roundtrip_def coded_text_def decode_version_def encode_version_def)

definition sample_versions :: "(pkg_name, nat version) btree" where
  "sample_versions = [(''a'', version_new 1 0 0), (''b'', version_new 1 2 0), (''c'', version_new 0 3 0)]"

definition sample_edges :: "(pkg_name \<times> pkg_name) list" where
  "sample_edges = [(''b'', ''a''), (''c'', ''c''), (''c'', ''serde'')]"

definition sample_groups :: groups where
  "sample_groups = \<lparr>by_name = [(''a'', [''a'', ''b''])], by_package = [(''a'', ''a''), (''b'', ''a'')]\<rparr>"

definition sample_plan :: plan_file where
  "sample_plan = plan_new Proposed
     [\<lparr>inc_name = ''b'', inc_bump = Some ''patch'', inc_version = None\<rparr>,
      \<lparr>inc_name = ''a'', inc_bump = Some ''minor'', inc_version = None\<rparr>]"

lemma sample_derived: "from_edges (map fst sample_versions) sample_edges = Some sample_groups"
  by code_simp

definition sample_resolution :: "(pkg_name, nat version) btree" where
  "sample_resolution = [(''a'', version_new 1 3 0), (''b'', version_new 1 3 0)]"

lemma sample_decisions:
  "try_fold (take_increment vt sample_groups sample_versions) (increments sample_plan) [] = Inr [(''a'', Bump Minor)]"
  by code_simp

lemma sample_settled: "settle_decision sample_groups sample_versions (''a'', Bump Minor) [] = Inr sample_resolution"
  by (simp add: settle_decision_def sample_groups_def sample_versions_def sample_resolution_def members_for_key_def
      group_members_def List.map_filter_def decided_version_def increment_version_def version_new_def checked_add_def
      usize_range_def max_def less_eq_version_def version_rank_def btree_extend_def Let_def)

lemma sample_resolves: "resolve_plan vt sample_plan sample_groups sample_versions = Inr sample_resolution"
proof -
  have "(validate_schema sample_plan :: nat release_error + unit) = Inr ()" "plan_stage_of sample_plan = Proposed"
    by code_simp+
  with sample_decisions sample_settled show ?thesis by (simp add: resolve_plan_def)
qed

lemma sample_closure:
  "group_closure sample_groups ''a'' = [''a'', ''b'']" "group_closure sample_groups ''b'' = [''a'', ''b'']"
  by code_simp+

lemma sample_highest: "group_highest sample_groups sample_versions ''a'' = version_new 1 2 0"
  "group_highest sample_groups sample_versions ''b'' = version_new 1 2 0"
  unfolding group_highest_def group_mates_def sample_closure
  by (simp_all add: sample_versions_def version_new_def max_def less_eq_version_def version_rank_def)

theorem bump_plan_resolution_witness:
  "\<exists>r. resolve_plan coded_text sample_plan sample_groups sample_versions = Inr r \<and> map_of r ''a'' = Some (version_new 1 3 0) \<and>
    map_of r ''c'' = None"
proof -
  have "\<forall>i \<in> set (increments sample_plan). map_of sample_versions (inc_name i) \<noteq> None \<and>
      (\<exists>b. parse_spec coded_text i = Inr (Bump b)) \<and> bumpable (group_highest sample_groups sample_versions (inc_name i))"
    by (simp add: sample_plan_def plan_new_def sample_highest parse_spec_def bump_from_str_def bumpable_def version_new_def
        usize_range_def) (simp add: sample_versions_def)
  from bump_plan_resolution[OF sample_derived _ _ this] obtain r where
    "resolve_plan coded_text sample_plan sample_groups sample_versions = Inr r"
    by (auto simp: sample_plan_def plan_new_def plan_stage_of_def validate_schema_def)
  with sample_resolves[of coded_text] show ?thesis by (auto simp: sample_resolution_def)
qed

theorem plan_resolution_witness:
  "from_edges (map fst sample_versions) sample_edges = Some sample_groups \<and>
   map_of sample_resolution ''b'' \<noteq> None \<and>
   (\<exists>i \<in> set (increments sample_plan). ''b'' \<in> set (group_closure sample_groups (inc_name i)))"
proof -
  note plan_resolution[OF sample_derived, of coded_text sample_plan, THEN conjunct2, rule_format,
      OF sample_resolves, THEN conjunct1, rule_format, of "''b''"]
  moreover have "map_of sample_resolution ''b'' \<noteq> None" by (simp add: sample_resolution_def)
  ultimately show ?thesis using sample_derived by simp
qed

theorem plan_expansion_roundtrip_witness:
  "text_roundtrip coded_text \<and>
   resolve_plan coded_text (explicit_plan coded_text sample_resolution) sample_groups sample_versions = Inr sample_resolution"
  using plan_expansion_roundtrip[OF coded_roundtrip sample_derived sample_resolves] coded_roundtrip by blast

end
