(* ===== verification/Spec2Isabelle.thy ===== *)
theory Spec2Isabelle
  imports Cpulist BlindPool LocalAutoReset AutoReset ManualReset EventOnce NmReport DureRouting DureRecord
    LinuxMachine ProcessorSelect DequeResults ReleaseResolution
begin

text \<open>
  Verification library of the folo packages, a Rust monorepo under \<open>src/packages/\<close>.

  \<^bold>\<open>What is modelled.\<close> The packages whose own logic decides whether their users are safe: the intrusive
  waiter set and the asynchronous events built on it, the one-shot event, the object pools, the metrics
  library, the text format for processor lists, the detachable sessions, the deque of futures, the discovery and
  selection of processors, and the versions a release plan settles on. Paths below are relative to \<open>src/packages/\<close>.

  \<^item> \<open>Prelude\<close>: \<open>usize\<close> with its checked and wrapping operations, panics as \<open>None\<close> with \<open>require\<close>, memory
    layouts as \<open>std::alloc::Layout\<close> computes them, lemmas on lists, options and bits that several theories share.
  \<^item> \<open>Contracts\<close>: the interfaces of the pools as locales: an \<open>object_store\<close> (every insertion gives a fresh
    handle, taking it out gives the object back) and a \<open>double_ended\<close> iterator (every alternation of both ends
    gives each element once). \<open>Slab\<close>, \<open>OpaquePool\<close> and \<open>BlindPool\<close> interpret them.
  \<^item> \<open>Cpulist\<close>: \<open>cpulist/src/parse.rs\<close>, \<open>emit.rs\<close>, \<open>error.rs\<close>. Strings are character lists; the parser returns
    the code's error values, the emitter panics where its checked addition does.
  \<^item> \<open>VacancyMap\<close>, \<open>VacancyTracker\<close>, \<open>SlabLayout\<close>, \<open>Slab\<close>, \<open>OpaquePool\<close>, \<open>BlindPool\<close>: \<open>infinity_pool/src/opaque/\<close>
    and \<open>blind/\<close>, from the bit vector of vacant slabs through the slab with its free list inside the vacant slots
    up to the pool of pools by layout. Objects are abstract; initializers and destructors are values that say
    whether they complete or unwind. The tracker meets the laws of a locale that the pool uses.
  \<^item> \<open>AwaiterSet\<close>: \<open>awaiter_set/src/awaiter.rs\<close> and \<open>set.rs\<close> over an explicit heap of awaiters with their
    \<open>prev\<close> and \<open>next\<close> pointers; the abstract specification is a queue of waiters with generations.
    \<open>AwaiterQueues\<close> restates it by lifecycle phase, which is what the events see.
  \<^item> \<open>LocalAutoReset\<close>: \<open>events/src/local_auto.rs\<close>, sequential. \<open>AutoReset\<close> and \<open>ManualReset\<close>: \<open>auto.rs\<close> and
    \<open>manual.rs\<close> as transition systems over any number of threads.
  \<^item> \<open>EventOnce\<close>: \<open>events_once/src/core/\<close>: the state byte, the value and waker cells and the storage of one
    event, shared by one sender and one receiver, as a transition system.
  \<^item> \<open>NmBag\<close>: \<open>nm_impl/src/observations/bag.rs\<close> and \<open>pusher.rs\<close>: observation bags and the push of the dirty
    ones. \<open>NmReport\<close>: \<open>registries.rs\<close> and \<open>reports.rs\<close>: live and archived bags, and what a report collects.
  \<^item> \<open>DureProtocol\<close>: \<open>dure/src/protocol.rs\<close> and \<open>pal/transport/framing/reader.rs\<close>: messages, frames and the
    reader that accumulates a frame from partial reads of a connection given as a parameter.
  \<^item> \<open>DureOutbox\<close>: \<open>dure/src/outbox.rs\<close>: the bounded queue in front of a connection and its writer thread.
    \<open>DureSession\<close>: the supervisor of a live session (\<open>dure/src/supervisor/\<close>: \<open>relay.rs\<close>, \<open>ownership.rs\<close>, \<open>shared.rs\<close>, \<open>record_writer.rs\<close>)
    as threads with program counters over the shared state: a relay per client with the attach, apply and detach
    transactions, the output pump, the accept loop, the teardown, the gate of the initiator and the record writer.
    A step is one critical section, one call to an outbox or one end of a call of the console, during which the
    client lock is held; the answers of the transport, the pseudoconsole, the processes and the store are arguments
    of the steps; generations are natural numbers; fields named as history record what was sent and are read by no
    step. \<open>DureOwnership\<close> proves the locks and the ownership of the console, \<open>DureConversation\<close> what a client is
    sent, \<open>DureRouting\<close> where output goes, \<open>DureTeardown\<close> how a session ends and that an attach ends within 32 own
    steps and waits for at most one call of the console at a time, \<open>DureRecord\<close> what the record says.
  \<^item> \<open>FloatText\<close>: the text and floating-point functions of the Rust standard library the Linux platform uses, with
    binary floats as rationals rounded to a format. \<open>CpuMask\<close>: \<open>many_cpus_impl/src/pal/linux/cpu_mask.rs\<close>.
    \<open>LinuxText\<close> and \<open>LinuxPlatform\<close>: \<open>pal/linux/platform.rs\<close>: reading the files of the kernel and the cached
    description of the machine; the files are a parameter of every query. \<open>LinuxMachine\<close> holds their properties.
  \<^item> \<open>ProcessorSets\<close> and \<open>ProcessorSelect\<close>: \<open>many_cpus_impl/src/processor_set_builder.rs\<close>: the selection of
    processors, with random choices as a parameter, and what it guarantees.
  \<^item> \<open>FutureDeque\<close>: \<open>future_deque/src/future_deque_core.rs\<close> and \<open>waker_meta.rs\<close>: the deque, its polling owner and the
    threads that clone, wake and drop the reference-counted wakers, as one transition system; the history fields
    say which future is where. \<open>DequeWakeups\<close> proves memory safety, that no wake-up is lost and that no future is,
    \<open>DequeResults\<close> the order of the results, the answers of the polls and the bound on their work.
  \<^item> \<open>OrderedMaps\<close>: ordered maps and sets and the error monad of the release planner. \<open>ReleaseVersions\<close>: versions and
    bumps. \<open>ReleaseGroups\<close>: \<open>crp_versioning/src/groups.rs\<close>: the search for connected components of exact
    dependencies. \<open>ReleasePlan\<close>: \<open>plan.rs\<close>: plans and their resolution, with the invariants of its two loops.
    \<open>ReleaseResolution\<close>: what a resolved plan contains, and that its expansion resolves to itself.

  \<^bold>\<open>How the parts interact.\<close> A blind pool holds an opaque pool per layout, which holds slabs and asks the vacancy
  tracker for the first slab with room; the tracker keeps its flags in the vacancy map. The events keep their
  waiting futures in an awaiter set, guarded by a mutex in the thread-safe variants. A pusher copies local bags
  into the shared bags that the registries hold and reports read. The threads of a session meet in the locks of the
  shared state and in the outboxes, whose writers put protocol frames on the connections. The Linux platform reads
  identifier masks with the parser of processor lists and pins threads through affinity masks; the processors it
  describes are the candidates of the processor set builder.

  \<^bold>\<open>Conventions.\<close>
  \<^item> A panic, a failed assertion and undefined behaviour (access to a dead or foreign object, a violated safety
    contract) are \<open>None\<close>; a theorem that an operation returns \<open>Some\<close> says that none of these happens. Panics the
    code recovers from (unwinding destructors and initializers) are values. \<open>debug\<close> arguments switch debug
    assertions on.
  \<^item> \<open>usize\<close> is \<open>nat\<close> below \<open>2 ^ 64\<close> with the wrap-around or overflow check of each operation written out;
    the metrics and the protocol use words. Where overflow is out of reach in practice and the code relies on it
    (\<open>no_wrap\<close> for counters of observations, the generation of an awaiter set), it is a named hypothesis; the
    generation of a session's owner and the reference counts of a deque's wakers are plain natural numbers.
  \<^item> Wakers are values. The auto-reset and manual-reset events invoke them outside their locks, and an invoked waker
    returns there (the one-shot event models wakers that unwind); dropping one, which the awaiter set does under the
    lock, is user code taken to have no effect on the set. Disconnecting a transport returns.
  \<^item> Concurrent code is a transition system whose steps are single atomic operations, critical-section steps or
    cell accesses, with sequentially consistent interleaving; weaker memory orders are not modelled. Every step
    function is executable and the relation quantifies over the thread that moves. Invariants are proved by
    rule induction, liveness as: no stuck state, and each call ends within a stated number of its own steps
    (7 for a wake-up, 5 and 9 for the ends of a one-shot event, \<open>4 * n + 8\<close> to open a gate to \<open>n\<close> waiters,
    32 for an attach to a session, \<open>2 * n + 3\<close> for the writer of an outbox with \<open>n\<close> messages, \<open>8 * n + 1\<close> for a
    poll of \<open>n\<close> futures).
  \<^item> A \<open>HashMap\<close> is an association list: insertion order stands for an iteration order the code leaves open, and no
    property depends on it. A \<open>BTreeMap\<close> is kept sorted where the order is observable.
  \<^item> No model uses fuel: every recursion has a termination proof.

  \<^bold>\<open>What the lemmas show.\<close> For each component: an invariant that every operation keeps, the result of every
  operation on every branch, and the theorem that connects it to its specification: refinement of a queue for
  the awaiter set, exactness of the pool's counts and vacancy information, exactly-once iteration, the exchange
  of value and storage in the one-shot event, no lost wake-up for the events, publication and collection of every
  observation for the metrics, inverse encoding and decoding for processor lists, frames and processor records, the
  conversation and the ownership of input and output in a session, consistent identifier spaces for a machine, and
  for a selection of processors when it exists and what it contains.

  \<^bold>\<open>Not modelled.\<close> Operating-system bindings (\<open>dure/src/pal\<close>, the Windows platform), procedural macros and
  thread-local machinery (\<open>linked\<close>), text output, the command-line tools and benchmark history (their logic is
  floating-point statistics, JSON, toml, git and processes), and the typed wrappers of the pools, which forward to
  the modelled cores. In the session, closing the listener, the job and the pseudoconsole leave no trace, and the
  disconnection of the startup connection is not a step. A waker that unwinds out of a drain of the manual-reset
  event and a \<open>disconnect\<close> that panics are not modelled. The local manual-reset event, the local one-shot event,
  the task admission of \<open>vicinal\<close> and the pin state of \<open>many_cpus_impl/src/system_hardware.rs\<close>
  are next.
\<close>

end
